(* ===== verification/Prelude.thy ===== *)
theory Prelude
  imports Main
begin

text \<open>
  Shared vocabulary of the development: C++ values that every component uses (\<open>char\<close> and its
  promotion to \<open>int\<close>, the three-valued result of the parsers, completion codes of asynchronous
  operations), the operations of the standard library the sources call on strings and vectors,
  and the generic list lemmas the component theories share.

  \<open>proto\<close> collects the defining equations of handlers and small operations, so that a
  component's proof is \<open>simp add: proto\<close> plus its own case splits.
\<close>

named_theorems proto "defining equations of operations, unfolded in step proofs"

section \<open>Characters and integers\<close>

text \<open>
  \<open>char\<close> is eight bits and signed on the targets of the project files (MSVC, x86), so passing a
  \<open>char\<close> where an \<open>int\<close> is expected sign-extends it.
\<close>

definition promote :: "char \<Rightarrow> int" where
  "promote c = (let n = of_char c in if n < 128 then n else n - 256)"

text \<open>Conversion of an \<open>int\<close> to \<open>char\<close>: the low eight bits.\<close>

definition to_char :: "int \<Rightarrow> char" where
  "to_char v = char_of (nat (v mod 256))"

text \<open>
  Signed 32-bit arithmetic. The standard leaves overflow undefined; the compilers of the project
  files produce the two's complement result, which is what \<open>c_int\<close> computes.
\<close>

definition c_int :: "int \<Rightarrow> int" where
  "c_int v = (v + 2 ^ 31) mod 2 ^ 32 - 2 ^ 31"

lemma of_char_int_less [simp]: "(of_char c :: int) < 256"
  using of_char_mod_256 [of c, where ?'a = int] by (metis pos_mod_bound zero_less_numeral)

lemma of_char_int_nonneg [simp]: "0 \<le> (of_char c :: int)"
  using of_char_mod_256 [of c, where ?'a = int] by (metis pos_mod_sign zero_less_numeral)

lemma promote_range: "-128 \<le> promote c \<and> promote c < 128"
  using of_char_int_less [of c] of_char_int_nonneg [of c]
  by (simp add: promote_def Let_def del: of_char_int_less of_char_int_nonneg)

lemma promote_inj: "promote c = promote d \<Longrightarrow> c = d"
proof -
  assume eq: "promote c = promote d"
  have "(of_char c :: int) = of_char d"
    using eq of_char_int_less [of c] of_char_int_nonneg [of c]
      of_char_int_less [of d] of_char_int_nonneg [of d]
    by (simp add: promote_def Let_def split: if_splits del: of_char_int_less of_char_int_nonneg)
  then show "c = d" by simp
qed

lemma promote_eq_iff [simp]: "promote c = promote d \<longleftrightarrow> c = d"
  using promote_inj by blast

lemma c_int_id [simp]: "- (2 ^ 31) \<le> v \<Longrightarrow> v < 2 ^ 31 \<Longrightarrow> c_int v = v"
  by (simp add: c_int_def)

lemma c_int_range: "- (2 ^ 31) \<le> c_int v \<and> c_int v < 2 ^ 31"
proof -
  have "0 \<le> (v + 2 ^ 31) mod 2 ^ 32" and "(v + 2 ^ 31) mod (2 ^ 32 :: int) < 2 ^ 32"
    by simp_all
  then show ?thesis by (simp add: c_int_def)
qed

section \<open>Three-valued results and completion codes\<close>

text \<open>
  \<open>boost::tribool\<close>: true, false, indeterminate. A parser returns true for a complete request,
  false for invalid data and indeterminate when more data is required.
\<close>

datatype tribool = TTrue | TFalse | Indeterminate

text \<open>
  \<open>boost::system::error_code\<close> as the handlers read it: no error, the cancellation code
  \<open>operation_aborted\<close>, or any other error.
\<close>

datatype error_code = No_error | Operation_aborted | Other_error

section \<open>Standard library operations on strings and vectors\<close>

text \<open>\<open>v.back()\<close> updated in place. Calling \<open>back\<close> on an empty vector is undefined; the model
  leaves the empty vector alone and the components prove that they never do it.\<close>

fun map_back :: "('a \<Rightarrow> 'a) \<Rightarrow> 'a list \<Rightarrow> 'a list" where
  "map_back f [] = []"
| "map_back f [x] = [f x]"
| "map_back f (x # y # xs) = x # map_back f (y # xs)"

lemma map_back_snoc [simp]: "map_back f (xs @ [x]) = xs @ [f x]"
  by (induction f xs rule: map_back.induct) auto

lemma length_map_back [simp]: "length (map_back f xs) = length xs"
  by (induction f xs rule: map_back.induct) auto

lemma map_back_eq_Nil [simp]: "map_back f xs = [] \<longleftrightarrow> xs = []"
  by (cases xs rule: rev_cases) auto

lemma map_back_map_back: "map_back f (map_back g xs) = map_back (f \<circ> g) xs"
  by (cases xs rule: rev_cases) auto

lemma map_back_id: "map_back (\<lambda>x. x) xs = xs"
  by (cases xs rule: rev_cases) auto

lemma last_map_back: "xs \<noteq> [] \<Longrightarrow> last (map_back f xs) = f (last xs)"
  by (cases xs rule: rev_cases) auto

lemma butlast_map_back [simp]: "butlast (map_back f xs) = butlast xs"
  by (cases xs rule: rev_cases) auto

text \<open>\<open>v.resize(n)\<close>: cut off, or extended with default elements.\<close>

definition resize :: "nat \<Rightarrow> 'a \<Rightarrow> 'a list \<Rightarrow> 'a list" where
  "resize n d xs = take n xs @ replicate (n - length xs) d"

lemma length_resize [simp]: "length (resize n d xs) = n"
  by (simp add: resize_def)

text \<open>\<open>s.find(t) != npos\<close>: some position of \<open>s\<close> starts with \<open>t\<close>.\<close>

fun contains :: "'a list \<Rightarrow> 'a list \<Rightarrow> bool" where
  "contains t [] = (t = [])"
| "contains t (x # xs) = (take (length t) (x # xs) = t \<or> contains t xs)"

lemma contains_iff: "contains t s \<longleftrightarrow> (\<exists>xs ys. s = xs @ t @ ys)"
proof (induction s)
  case Nil
  then show ?case by auto
next
  case (Cons x s)
  have "take (length t) (x # s) = t \<longleftrightarrow> (\<exists>ys. x # s = t @ ys)"
    by (metis append_eq_conv_conj)
  then show ?case
    using Cons.IH by (auto simp: Cons_eq_append_conv)
qed

text \<open>\<open>s.find_last_of(c)\<close> for one character; \<open>None\<close> is \<open>npos\<close>.\<close>

fun find_last_of :: "'a \<Rightarrow> 'a list \<Rightarrow> nat option" where
  "find_last_of c [] = None"
| "find_last_of c (x # xs) =
     (case find_last_of c xs of
        Some i \<Rightarrow> Some (Suc i)
      | None \<Rightarrow> if x = c then Some 0 else None)"

lemma find_last_of_None: "find_last_of c xs = None \<longleftrightarrow> c \<notin> set xs"
  by (induction xs) (auto split: option.splits)

lemma find_last_of_Some:
  "find_last_of c xs = Some i \<Longrightarrow> i < length xs \<and> xs ! i = c \<and> c \<notin> set (drop (Suc i) xs)"
  by (induction xs arbitrary: i)
    (auto simp: find_last_of_None split: option.splits if_splits)

lemma find_last_of_append:
  "find_last_of c (xs @ ys) =
     (case find_last_of c ys of Some i \<Rightarrow> Some (length xs + i) | None \<Rightarrow> find_last_of c xs)"
  by (induction xs) (auto split: option.split)

text \<open>\<open>s.c_str()\<close> handed to a C interface: the characters before the first NUL.\<close>

definition c_str :: "string \<Rightarrow> string" where
  "c_str s = takeWhile (\<lambda>c. c \<noteq> CHR 0x00) s"

lemma c_str_append: "CHR 0x00 \<notin> set s \<Longrightarrow> c_str (s @ t) = s @ c_str t"
  by (auto simp: c_str_def takeWhile_append)

lemma c_str_prefix: "\<exists>t. s = c_str s @ t"
  by (metis c_str_def takeWhile_dropWhile_id)

section \<open>Splitting a list at the first element that fails a test\<close>

lemma split_at_first:
  obtains ys zs where "xs = ys @ zs" "\<forall>y\<in>set ys. P y" "zs = [] \<or> \<not> P (hd zs)"
proof
  show "xs = takeWhile P xs @ dropWhile P xs" by simp
  show "\<forall>y\<in>set (takeWhile P xs). P y" by (auto dest: set_takeWhileD)
  show "dropWhile P xs = [] \<or> \<not> P (hd (dropWhile P xs))"
    using hd_dropWhile by blast
qed


section \<open>Decimal numbers\<close>

text \<open>The decimal digits of a number, most significant first, and the number a string of
  digits denotes. Both are specification functions.\<close>

definition digit :: "nat \<Rightarrow> char" where
  "digit d = char_of (48 + d)"

fun decimal :: "nat \<Rightarrow> string" where
  "decimal n = (if n < 10 then [digit n] else decimal (n div 10) @ [digit (n mod 10)])"

declare decimal.simps [simp del]

definition dec_value :: "string \<Rightarrow> int" where
  "dec_value ds = fold (\<lambda>c n. n * 10 + (promote c - 48)) ds 0"

lemma promote_digit: "d < 10 \<Longrightarrow> promote (digit d) = 48 + int d"
proof -
  assume "d < 10"
  then have "(of_char (digit d) :: nat) = 48 + d" by (simp add: digit_def)
  then have "(of_char (digit d) :: int) = 48 + int d"
    by (metis of_nat_of_char of_nat_add of_nat_numeral)
  with \<open>d < 10\<close> show ?thesis by (simp add: promote_def)
qed

lemma promote_zero [simp]: "promote CHR ''0'' = 48"
  by (simp add: promote_def)

lemma promote_nine [simp]: "promote CHR ''9'' = 57"
  by (simp add: promote_def)

lemma decimal_nonempty [simp]: "decimal n \<noteq> []"
  by (subst decimal.simps) simp

lemma decimal_digits: "\<forall>c\<in>set (decimal n). \<exists>d<10. c = digit d"
proof (induction n rule: decimal.induct)
  case (1 n)
  show ?case
  proof (cases "n < 10")
    case True
    then show ?thesis by (subst decimal.simps) auto
  next
    case False
    have "n mod 10 < 10" by simp
    with False "1.IH" show ?thesis by (subst decimal.simps) (auto simp del: mod_less_divisor)
  qed
qed

lemma dec_value_decimal: "dec_value (decimal n) = int n"
proof (induction n rule: decimal.induct)
  case (1 n)
  show ?case
  proof (cases "n < 10")
    case True
    then show ?thesis by (subst decimal.simps) (simp add: dec_value_def promote_digit)
  next
    case False
    with "1.IH" have "dec_value (decimal (n div 10)) = int (n div 10)" by simp
    with False show ?thesis
      by (subst decimal.simps) (simp add: dec_value_def promote_digit zdiv_int zmod_int)
  qed
qed

text \<open>A number as it is printed.\<close>

definition int_text :: "int \<Rightarrow> string" where
  "int_text v = (if v < 0 then ''-'' @ decimal (nat (- v)) else decimal (nat v))"

end
