(* ===== verification/Stream_Parser.thy ===== *)
theory Stream_Parser
  imports Prelude
begin

text \<open>
  The interface the connections use a request parser through. Both request parsers of the
  repository (\<open>http_server/request_parser\<close> and the coroutine of \<open>http_server4/request_parser\<close>)
  handle one character at a time with \<open>consume\<close> and share the same \<open>parse\<close> loop, which feeds
  a block of data to \<open>consume\<close> until the result is no longer indeterminate and returns the result
  together with the position reached. What a connection relies on (the result does not depend on
  how the input was cut into blocks, nothing is left over while more data is required) is proved
  here once, for any \<open>step\<close> and its loop.
\<close>

locale stream_parser =
  fixes step :: "'p \<Rightarrow> 'r \<Rightarrow> char \<Rightarrow> tribool \<times> 'p \<times> 'r"
    and run :: "'p \<Rightarrow> 'r \<Rightarrow> string \<Rightarrow> tribool \<times> 'p \<times> 'r \<times> string"
  assumes run_Nil: "run p r [] = (Indeterminate, p, r, [])"
    and run_Cons: "run p r (c # cs) =
      (case step p r c of (b, p', r') \<Rightarrow>
        if b = Indeterminate then run p' r' cs else (b, p', r', cs))"
begin

lemma run_Cons_more:
  "step p r c = (Indeterminate, p', r') \<Longrightarrow> run p r (c # cs) = run p' r' cs"
  by (simp add: run_Cons)

lemma run_Cons_stop:
  "step p r c = (b, p', r') \<Longrightarrow> b \<noteq> Indeterminate \<Longrightarrow> run p r (c # cs) = (b, p', r', cs)"
  by (simp add: run_Cons)

lemma run_append:
  "run p r (xs @ ys) =
    (case run p r xs of (b, p', r', rest) \<Rightarrow>
      if b = Indeterminate then run p' r' ys else (b, p', r', rest @ ys))"
  by (induction xs arbitrary: p r) (auto simp: run_Nil run_Cons split: prod.split)

lemma run_suffix: "run p r xs = (b, p', r', rest) \<Longrightarrow> \<exists>used. xs = used @ rest"
proof (induction xs arbitrary: p r)
  case Nil
  then show ?case by (simp add: run_Nil)
next
  case (Cons c xs)
  obtain b1 p1 r1 where s: "step p r c = (b1, p1, r1)" by (metis prod_cases3)
  show ?case
  proof (cases "b1 = Indeterminate")
    case True
    with Cons.prems s have "run p1 r1 xs = (b, p', r', rest)" by (simp add: run_Cons)
    then obtain used where "xs = used @ rest" using Cons.IH by blast
    then have "c # xs = (c # used) @ rest" by simp
    then show ?thesis by blast
  next
    case False
    with Cons.prems s have "rest = xs" by (simp add: run_Cons)
    then have "c # xs = [c] @ rest" by simp
    then show ?thesis by blast
  qed
qed

lemma run_more_uses_all: "run p r xs = (Indeterminate, p', r', rest) \<Longrightarrow> rest = []"
  by (induction xs arbitrary: p r) (auto simp: run_Nil run_Cons split: prod.splits if_splits)

lemma run_stop_uses_some:
  "run p r xs = (b, p', r', rest) \<Longrightarrow> b \<noteq> Indeterminate \<Longrightarrow> length rest < length xs"
  by (induction xs arbitrary: p r)
    (fastforce simp: run_Nil run_Cons split: prod.splits if_splits)+

text \<open>
  A state that consumes every character of \<open>cs\<close> by updating the request with \<open>f\<close>.
\<close>

lemma run_scan:
  assumes "\<And>c r. c \<in> set cs \<Longrightarrow> step p r c = (Indeterminate, p, f c r)"
  shows "run p r (cs @ rest) = run p (fold f cs r) rest"
  using assms
proof (induction cs arbitrary: r)
  case Nil
  then show ?case by simp
next
  case (Cons c cs)
  have "run p r ((c # cs) @ rest) = run p (f c r) (cs @ rest)"
    using Cons.prems [of c] by (simp add: run_Cons_more)
  also have "\<dots> = run p (fold f cs (f c r)) rest"
    by (rule Cons.IH) (simp add: Cons.prems)
  finally show ?case by simp
qed

text \<open>
  Conversely, a run from such a state that reaches a result leaves the state at the first
  character that the scan does not accept.
\<close>

lemma run_scan_stop:
  assumes scan: "\<And>c r. P c \<Longrightarrow> step p r c = (Indeterminate, p, f c r)"
    and res: "run p r xs = (b, p', r', rest)" and stop: "b \<noteq> Indeterminate"
  obtains cs c ys where "xs = cs @ c # ys" "\<forall>c\<in>set cs. P c" "\<not> P c"
    "run p (fold f cs r) (c # ys) = (b, p', r', rest)"
proof -
  obtain cs zs where xs: "xs = cs @ zs" and cs: "\<forall>c\<in>set cs. P c" and zs: "zs = [] \<or> \<not> P (hd zs)"
    by (rule split_at_first)
  have run: "run p (fold f cs r) zs = (b, p', r', rest)"
    using res cs scan unfolding xs by (subst (asm) run_scan) auto
  with stop have "zs \<noteq> []" by (auto simp: run_Nil)
  then obtain c ys where "zs = c # ys" by (cases zs) auto
  with that xs cs zs run show ?thesis by simp
qed

text \<open>
  Feeding the blocks of \<open>bs\<close> one after the other, as a connection does with its reads, stops at
  the first block that completes the request.
\<close>

primrec feed :: "'p \<Rightarrow> 'r \<Rightarrow> string list \<Rightarrow> tribool \<times> 'p \<times> 'r" where
  "feed p r [] = (Indeterminate, p, r)"
| "feed p r (b # bs) =
     (case run p r b of (t, p', r', rest) \<Rightarrow>
        if t = Indeterminate then feed p' r' bs else (t, p', r'))"

lemma feed_concat:
  "run p r (concat bs) = (t, p', r', rest) \<Longrightarrow> feed p r bs = (t, p', r')"
proof (induction bs arbitrary: p r)
  case Nil
  then show ?case by (simp add: run_Nil)
next
  case (Cons b bs)
  then show ?case
    by (auto simp: run_append split: prod.splits if_splits)
qed

end

end
