(* ===== verification/Http_Types.thy ===== *)
theory Http_Types
  imports Prelude
begin

text \<open>
  The data of the HTTP servers: \<open>header\<close>, \<open>request\<close> and \<open>reply\<close> of \<open>asio-examples/http_server\<close>.
  The files \<open>header.hpp\<close>, \<open>request.hpp\<close>, \<open>reply.hpp\<close> of \<open>http_server2\<close> and \<open>http_server3\<close> repeat
  the same declarations in their own namespaces; \<open>http_server4\<close> adds a content field to the
  request, which its own theory declares. Field names carry a prefix because HOL record
  selectors share one name space.
\<close>

record header =
  h_name :: string
  h_value :: string

definition empty_header :: header where
  "empty_header = \<lparr>h_name = [], h_value = []\<rparr>"

text \<open>
  The version numbers are C \<open>int\<close>s; the parser writes them with 32-bit arithmetic
  (\<open>c_int\<close>). A default-constructed request leaves them uninitialised.
\<close>

record request =
  req_method :: string
  req_uri :: string
  req_http_version_major :: int
  req_http_version_minor :: int
  req_headers :: "header list"

text \<open>\<open>reply::status_type\<close>, with the integer the enumeration gives each name.\<close>

datatype status_type =
  Ok | Created | Accepted | No_content | Multiple_choices | Moved_permanently
  | Moved_temporarily | Not_modified | Bad_request | Unauthorized | Forbidden | Not_found
  | Internal_server_error | Not_implemented | Bad_gateway | Service_unavailable

fun status_code :: "status_type \<Rightarrow> int" where
  "status_code Ok = 200"
| "status_code Created = 201"
| "status_code Accepted = 202"
| "status_code No_content = 204"
| "status_code Multiple_choices = 300"
| "status_code Moved_permanently = 301"
| "status_code Moved_temporarily = 302"
| "status_code Not_modified = 304"
| "status_code Bad_request = 400"
| "status_code Unauthorized = 401"
| "status_code Forbidden = 403"
| "status_code Not_found = 404"
| "status_code Internal_server_error = 500"
| "status_code Not_implemented = 501"
| "status_code Bad_gateway = 502"
| "status_code Service_unavailable = 503"

record reply =
  rep_status :: status_type
  rep_headers :: "header list"
  rep_content :: string

end
