(* ===== verification/Http_Grammar.thy ===== *)
theory Http_Grammar
  imports Http_Parser
begin

text \<open>
  The language of \<open>request_parser\<close>: character classes, the grammar of a request and the proof
  that \<open>parse\<close> accepts exactly the grammar. The grammar is the specification; every lemma about
  what the parser accepts (round trip, well-formed results) is read off it.
\<close>

section \<open>The grammar\<close>

definition token_char :: "char \<Rightarrow> bool" where
  "token_char c \<longleftrightarrow> is_char (promote c) \<and> \<not> is_ctl (promote c) \<and> \<not> is_tspecial (promote c)"

definition text_char :: "char \<Rightarrow> bool" where
  "text_char c \<longleftrightarrow> \<not> is_ctl (promote c)"

definition uri_char :: "char \<Rightarrow> bool" where
  "uri_char c \<longleftrightarrow> c \<noteq> CHR '' '' \<and> \<not> is_ctl (promote c)"

definition lws_char :: "char \<Rightarrow> bool" where
  "lws_char c \<longleftrightarrow> c = CHR '' '' \<or> c = CHR 0x09"

definition digit_char :: "char \<Rightarrow> bool" where
  "digit_char c \<longleftrightarrow> is_digit (promote c)"

definition crlf :: string where
  "crlf = [CHR 0x0D, CHR 0x0A]"

definition digits_value :: "string \<Rightarrow> int" where
  "digits_value ds = fold add_digit ds 0"

definition append_value :: "string \<Rightarrow> header list \<Rightarrow> header list" where
  "append_value v hs = map_back (\<lambda>h. h\<lparr>h_value := h_value h @ v\<rparr>) hs"

text \<open>
  \<open>header_block hs cs hs'\<close>: after the headers \<open>hs\<close>, the text \<open>cs\<close> holds the remaining header
  lines with the blank line that ends them, and yields the headers \<open>hs'\<close>. A line that starts
  with white space continues the value of the last header.
\<close>

inductive header_block :: "header list \<Rightarrow> string \<Rightarrow> header list \<Rightarrow> bool" where
  block_end: "header_block hs crlf hs"
| block_field:
    "n \<noteq> [] \<Longrightarrow> \<forall>c\<in>set n. token_char c \<Longrightarrow> \<forall>c\<in>set v. text_char c \<Longrightarrow>
     header_block (hs @ [\<lparr>h_name = n, h_value = v\<rparr>]) rest hs' \<Longrightarrow>
     header_block hs (n @ '': '' @ v @ crlf @ rest) hs'"
| block_fold:
    "hs \<noteq> [] \<Longrightarrow> w \<noteq> [] \<Longrightarrow> \<forall>c\<in>set w. lws_char c \<Longrightarrow> \<forall>c\<in>set v. text_char c \<Longrightarrow>
     v = [] \<or> \<not> lws_char (hd v) \<Longrightarrow>
     header_block (append_value v hs) rest hs' \<Longrightarrow>
     header_block hs (w @ v @ crlf @ rest) hs'"

definition request_syntax :: "string \<Rightarrow> request \<Rightarrow> bool" where
  "request_syntax cs req \<longleftrightarrow>
     (\<exists>major minor block.
        cs = req_method req @ '' '' @ req_uri req @ '' HTTP/'' @ major @ ''.'' @ minor @ crlf @ block
        \<and> req_method req \<noteq> [] \<and> (\<forall>c\<in>set (req_method req). token_char c)
        \<and> (\<forall>c\<in>set (req_uri req). uri_char c)
        \<and> major \<noteq> [] \<and> (\<forall>c\<in>set major. digit_char c)
        \<and> minor \<noteq> [] \<and> (\<forall>c\<in>set minor. digit_char c)
        \<and> req_http_version_major req = digits_value major
        \<and> req_http_version_minor req = digits_value minor
        \<and> header_block [] block (req_headers req))"

section \<open>Character classes\<close>

lemma is_tspecial_promote:
  "is_tspecial (promote c) \<longleftrightarrow> c \<in>
     {CHR ''('', CHR '')'', CHR ''<'', CHR ''>'', CHR ''@'', CHR '','', CHR '';'', CHR '':'',
      CHR 0x5C, CHR 0x22, CHR ''/'', CHR ''['', CHR '']'', CHR ''?'', CHR ''='', CHR ''{'',
      CHR ''}'', CHR '' '', CHR 0x09}"
  by (simp add: is_tspecial_def)

lemma is_ctl_separators:
  "is_ctl (promote CHR 0x0D)" "is_ctl (promote CHR 0x0A)" "is_ctl (promote CHR 0x09)"
  "\<not> is_ctl (promote CHR '' '')"
  by (simp_all add: is_ctl_def promote_def)

lemma token_char_separators:
  "\<not> token_char CHR '' ''" "\<not> token_char CHR '':''" "\<not> token_char CHR 0x0D"
  "\<not> token_char CHR 0x0A" "\<not> token_char CHR 0x09"
  by (simp_all add: token_char_def is_tspecial_promote is_ctl_separators)

lemma token_char_not:
  "token_char c \<Longrightarrow> c \<noteq> CHR '' '' \<and> c \<noteq> CHR '':'' \<and> c \<noteq> CHR 0x0D \<and> c \<noteq> CHR 0x0A \<and> c \<noteq> CHR 0x09"
  using token_char_separators by blast

lemma text_char_not: "text_char c \<Longrightarrow> c \<noteq> CHR 0x0D \<and> c \<noteq> CHR 0x0A \<and> c \<noteq> CHR 0x09"
  by (auto simp: text_char_def is_ctl_separators)

lemma lws_char_not_token: "lws_char c \<Longrightarrow> \<not> token_char c \<and> c \<noteq> CHR 0x0D"
  by (auto simp: lws_char_def dest: token_char_not)

lemma digit_char_not: "digit_char c \<Longrightarrow> c \<noteq> CHR ''.'' \<and> c \<noteq> CHR 0x0D"
  by (auto simp: digit_char_def is_digit_def promote_def)

lemma header_block_nonempty: "header_block hs cs hs' \<Longrightarrow> cs \<noteq> []"
  by (induction rule: header_block.induct) (auto simp: crlf_def)

section \<open>Scanning states\<close>

lemma fold_method: "fold (\<lambda>c r. r\<lparr>req_method := req_method r @ [c]\<rparr>) cs req
    = req\<lparr>req_method := req_method req @ cs\<rparr>"
  by (induction cs arbitrary: req) auto

lemma fold_uri: "fold (\<lambda>c r. r\<lparr>req_uri := req_uri r @ [c]\<rparr>) cs req
    = req\<lparr>req_uri := req_uri req @ cs\<rparr>"
  by (induction cs arbitrary: req) auto

lemma fold_major: "fold (\<lambda>c r. r\<lparr>req_http_version_major := add_digit c (req_http_version_major r)\<rparr>) cs req
    = req\<lparr>req_http_version_major := fold add_digit cs (req_http_version_major req)\<rparr>"
  by (induction cs arbitrary: req) auto

lemma fold_minor: "fold (\<lambda>c r. r\<lparr>req_http_version_minor := add_digit c (req_http_version_minor r)\<rparr>) cs req
    = req\<lparr>req_http_version_minor := fold add_digit cs (req_http_version_minor req)\<rparr>"
  by (induction cs arbitrary: req) auto

lemma fold_push_value: "fold push_value cs req
    = req\<lparr>req_headers := append_value cs (req_headers req)\<rparr>"
  by (induction cs arbitrary: req)
    (simp_all add: push_value_def append_value_def map_back_id map_back_map_back o_def)

lemma fold_push_name: "fold push_name cs req = req\<lparr>req_headers :=
    map_back (\<lambda>h. h\<lparr>h_name := h_name h @ cs\<rparr>) (req_headers req)\<rparr>"
  by (induction cs arbitrary: req)
    (simp_all add: push_name_def map_back_id map_back_map_back o_def)

lemma append_value_snoc [simp]:
  "append_value v (hs @ [\<lparr>h_name = n, h_value = u\<rparr>]) = hs @ [\<lparr>h_name = n, h_value = u @ v\<rparr>]"
  by (simp add: append_value_def)

lemma append_value_eq_Nil [simp]: "append_value v hs = [] \<longleftrightarrow> hs = []"
  by (simp add: append_value_def)

lemma step_method: "token_char c \<Longrightarrow> consume Method r c
    = (Indeterminate, Method, r\<lparr>req_method := req_method r @ [c]\<rparr>)"
  using token_char_not [of c] by (simp add: token_char_def)

lemma step_uri: "uri_char c \<Longrightarrow> consume Uri r c
    = (Indeterminate, Uri, r\<lparr>req_uri := req_uri r @ [c]\<rparr>)"
  by (simp add: uri_char_def)

lemma step_major: "digit_char c \<Longrightarrow> consume Http_version_major r c
    = (Indeterminate, Http_version_major,
       r\<lparr>req_http_version_major := add_digit c (req_http_version_major r)\<rparr>)"
  using digit_char_not [of c] by (simp add: digit_char_def)

lemma step_minor: "digit_char c \<Longrightarrow> consume Http_version_minor r c
    = (Indeterminate, Http_version_minor,
       r\<lparr>req_http_version_minor := add_digit c (req_http_version_minor r)\<rparr>)"
  using digit_char_not [of c] by (simp add: digit_char_def)

lemma step_name: "token_char c \<Longrightarrow> consume Header_name r c = (Indeterminate, Header_name, push_name c r)"
  using token_char_not [of c] by (simp add: token_char_def proto)

lemma step_value: "text_char c \<Longrightarrow> consume Header_value r c = (Indeterminate, Header_value, push_value c r)"
  using text_char_not [of c] by (simp add: text_char_def proto)

lemma step_lws: "lws_char c \<Longrightarrow> consume Header_lws r c = (Indeterminate, Header_lws, r)"
  by (auto simp: lws_char_def proto)

lemma fold_same: "fold (\<lambda>c r. r) cs req = req"
  by (induction cs) auto

section \<open>Every text of the grammar is accepted\<close>

lemma scan_method:
  assumes "\<forall>c\<in>set cs. token_char c"
  shows "parse Method r (cs @ rest) = parse Method (r\<lparr>req_method := req_method r @ cs\<rparr>) rest"
proof -
  have "parse Method r (cs @ rest) = parse Method (fold (\<lambda>c r. r\<lparr>req_method := req_method r @ [c]\<rparr>) cs r) rest"
    by (rule http.run_scan) (use assms step_method in blast)
  then show ?thesis by (simp only: fold_method)
qed

lemma scan_uri:
  assumes "\<forall>c\<in>set cs. uri_char c"
  shows "parse Uri r (cs @ rest) = parse Uri (r\<lparr>req_uri := req_uri r @ cs\<rparr>) rest"
proof -
  have "parse Uri r (cs @ rest) = parse Uri (fold (\<lambda>c r. r\<lparr>req_uri := req_uri r @ [c]\<rparr>) cs r) rest"
    by (rule http.run_scan) (use assms step_uri in blast)
  then show ?thesis by (simp only: fold_uri)
qed

lemma scan_major:
  assumes "\<forall>c\<in>set cs. digit_char c"
  shows "parse Http_version_major r (cs @ rest) = parse Http_version_major (r\<lparr>req_http_version_major := fold add_digit cs (req_http_version_major r)\<rparr>) rest"
proof -
  have "parse Http_version_major r (cs @ rest) = parse Http_version_major (fold (\<lambda>c r. r\<lparr>req_http_version_major := add_digit c (req_http_version_major r)\<rparr>) cs r) rest"
    by (rule http.run_scan) (use assms step_major in blast)
  then show ?thesis by (simp only: fold_major)
qed

lemma scan_minor:
  assumes "\<forall>c\<in>set cs. digit_char c"
  shows "parse Http_version_minor r (cs @ rest) = parse Http_version_minor (r\<lparr>req_http_version_minor := fold add_digit cs (req_http_version_minor r)\<rparr>) rest"
proof -
  have "parse Http_version_minor r (cs @ rest) = parse Http_version_minor (fold (\<lambda>c r. r\<lparr>req_http_version_minor := add_digit c (req_http_version_minor r)\<rparr>) cs r) rest"
    by (rule http.run_scan) (use assms step_minor in blast)
  then show ?thesis by (simp only: fold_minor)
qed

lemma scan_name:
  assumes "\<forall>c\<in>set cs. token_char c"
  shows "parse Header_name r (cs @ rest) = parse Header_name (r\<lparr>req_headers :=
    map_back (\<lambda>h. h\<lparr>h_name := h_name h @ cs\<rparr>) (req_headers r)\<rparr>) rest"
proof -
  have "parse Header_name r (cs @ rest) = parse Header_name (fold (push_name) cs r) rest"
    by (rule http.run_scan) (use assms step_name in blast)
  then show ?thesis by (simp only: fold_push_name)
qed

lemma scan_value:
  assumes "\<forall>c\<in>set cs. text_char c"
  shows "parse Header_value r (cs @ rest) = parse Header_value (r\<lparr>req_headers := append_value cs (req_headers r)\<rparr>) rest"
proof -
  have "parse Header_value r (cs @ rest) = parse Header_value (fold (push_value) cs r) rest"
    by (rule http.run_scan) (use assms step_value in blast)
  then show ?thesis by (simp only: fold_push_value)
qed

lemma scan_lws:
  assumes "\<forall>c\<in>set cs. lws_char c"
  shows "parse Header_lws r (cs @ rest) = parse Header_lws (r) rest"
proof -
  have "parse Header_lws r (cs @ rest) = parse Header_lws (fold (\<lambda>c r. r) cs r) rest"
    by (rule http.run_scan) (use assms step_lws in blast)
  then show ?thesis by (simp only: fold_same)
qed

lemma value_line: "\<forall>c\<in>set v. text_char c \<Longrightarrow> parse Header_value r (v @ crlf @ rest)
    = parse Header_line_start (r\<lparr>req_headers := append_value v (req_headers r)\<rparr>) rest"
  by (simp add: scan_value crlf_def proto)

lemma field_line:
  assumes "n \<noteq> []" "\<forall>c\<in>set n. token_char c" "\<forall>c\<in>set v. text_char c"
  shows "parse Header_line_start r (n @ '': '' @ v @ crlf @ rest)
    = parse Header_line_start
        (r\<lparr>req_headers := req_headers r @ [\<lparr>h_name = n, h_value = v\<rparr>]\<rparr>) rest"
proof -
  obtain c n' where n: "n = c # n'" using assms(1) by (cases n) auto
  have c: "token_char c" and n': "\<forall>c\<in>set n'. token_char c" using assms(2) n by auto
  have first: "consume Header_line_start r c = (Indeterminate, Header_name,
      r\<lparr>req_headers := req_headers r @ [\<lparr>h_name = [c], h_value = []\<rparr>]\<rparr>)"
    using token_char_not [OF c] c by (simp add: proto token_char_def push_name_def empty_header_def)
  have "parse Header_line_start r (n @ '': '' @ v @ crlf @ rest)
      = parse Header_name (r\<lparr>req_headers := req_headers r @ [\<lparr>h_name = [c], h_value = []\<rparr>]\<rparr>)
          (n' @ '': '' @ v @ crlf @ rest)"
    using first by (simp add: n http.run_Cons_more)
  also have "\<dots> = parse Header_name (r\<lparr>req_headers := req_headers r @ [\<lparr>h_name = n, h_value = []\<rparr>]\<rparr>)
          ('': '' @ v @ crlf @ rest)"
    using n' by (simp only: scan_name) (simp add: n)
  also have "\<dots> = parse Header_value (r\<lparr>req_headers := req_headers r @ [\<lparr>h_name = n, h_value = []\<rparr>]\<rparr>)
          (v @ crlf @ rest)"
    by (simp add: proto)
  finally show ?thesis using assms(3) by (simp add: value_line)
qed

lemma lws_then_value:
  assumes "\<forall>c\<in>set v. text_char c" "v = [] \<or> \<not> lws_char (hd v)"
  shows "parse Header_lws r (v @ crlf @ rest)
    = parse Header_line_start (r\<lparr>req_headers := append_value v (req_headers r)\<rparr>) rest"
proof (cases v)
  case Nil
  then show ?thesis by (simp add: crlf_def proto append_value_def map_back_id)
next
  case (Cons c v')
  have step: "consume Header_lws r c = (Indeterminate, Header_value, push_value c r)"
    using assms Cons text_char_not [of c] by (auto simp: proto lws_char_def text_char_def)
  have "parse Header_lws r (v @ crlf @ rest) = parse Header_value (push_value c r) (v' @ crlf @ rest)"
    using step by (simp add: Cons)
  also have "\<dots> = parse Header_line_start
      ((push_value c r)\<lparr>req_headers := append_value v' (req_headers (push_value c r))\<rparr>) rest"
    using assms Cons by (simp add: value_line)
  also have "(push_value c r)\<lparr>req_headers := append_value v' (req_headers (push_value c r))\<rparr>
      = fold push_value v r"
    by (simp add: Cons fold_push_value)
  finally show ?thesis by (simp add: fold_push_value)
qed

lemma fold_line:
  assumes "req_headers r \<noteq> []" "w \<noteq> []" "\<forall>c\<in>set w. lws_char c" "\<forall>c\<in>set v. text_char c"
    "v = [] \<or> \<not> lws_char (hd v)"
  shows "parse Header_line_start r (w @ v @ crlf @ rest)
    = parse Header_line_start (r\<lparr>req_headers := append_value v (req_headers r)\<rparr>) rest"
proof -
  obtain c w' where w: "w = c # w'" using assms(2) by (cases w) auto
  have "consume Header_line_start r c = (Indeterminate, Header_lws, r)"
    using assms(1,3) w lws_char_not_token [of c] by (auto simp: proto lws_char_def)
  then have "parse Header_line_start r (w @ v @ crlf @ rest) = parse Header_lws r (w' @ v @ crlf @ rest)"
    by (simp add: w)
  also have "\<dots> = parse Header_lws r (v @ crlf @ rest)"
    using assms(3) w by (simp add: scan_lws)
  finally show ?thesis using assms(4,5) by (simp add: lws_then_value)
qed

lemma block_accepted:
  "header_block hs cs hs' \<Longrightarrow> req_headers r = hs \<Longrightarrow>
   parse Header_line_start r (cs @ rest)
     = (TTrue, Expecting_newline_3, r\<lparr>req_headers := hs'\<rparr>, rest)"
proof (induction arbitrary: r rule: header_block.induct)
  case (block_end hs)
  then show ?case by (auto simp: crlf_def proto)
next
  case (block_field n v hs rest' hs')
  then show ?case using field_line [of n v r "rest' @ rest"] by simp
next
  case (block_fold hs w v rest' hs')
  then show ?case using fold_line [of r w v "rest' @ rest"] by simp
qed

lemma version_line:
  assumes "major \<noteq> []" "\<forall>c\<in>set major. digit_char c" "minor \<noteq> []" "\<forall>c\<in>set minor. digit_char c"
  shows "parse Http_version_h r (''HTTP/'' @ major @ ''.'' @ minor @ crlf @ rest)
    = parse Header_line_start (r\<lparr>req_http_version_major := digits_value major,
        req_http_version_minor := digits_value minor\<rparr>) rest"
proof -
  obtain c ds where major: "major = c # ds" using assms(1) by (cases major) auto
  obtain d es where minor: "minor = d # es" using assms(3) by (cases minor) auto
  have "parse Http_version_h r (''HTTP/'' @ major @ ''.'' @ minor @ crlf @ rest)
    = parse Http_version_major_start (r\<lparr>req_http_version_major := 0, req_http_version_minor := 0\<rparr>)
        (major @ ''.'' @ minor @ crlf @ rest)"
    by simp
  also have "\<dots> = parse Http_version_major
        (r\<lparr>req_http_version_minor := 0, req_http_version_major := digits_value major\<rparr>)
        (''.'' @ minor @ crlf @ rest)"
    using assms(2) by (simp add: major digit_char_def [of c] scan_major digits_value_def)
  also have "\<dots> = parse Http_version_minor_start
        (r\<lparr>req_http_version_minor := 0, req_http_version_major := digits_value major\<rparr>)
        (minor @ crlf @ rest)"
    by simp
  also have "\<dots> = parse Http_version_minor
        (r\<lparr>req_http_version_major := digits_value major, req_http_version_minor := digits_value minor\<rparr>)
        (crlf @ rest)"
    using assms(4) by (simp add: minor digit_char_def [of d] scan_minor digits_value_def)
  finally show ?thesis by (simp add: crlf_def)
qed

lemma method_uri_line:
  assumes "m \<noteq> []" "\<forall>c\<in>set m. token_char c" "\<forall>c\<in>set u. uri_char c"
  shows "parse Method_start r (m @ '' '' @ u @ '' '' @ rest)
    = parse Http_version_h (r\<lparr>req_method := req_method r @ m, req_uri := req_uri r @ u\<rparr>) rest"
proof -
  obtain c m' where m: "m = c # m'" using assms(1) by (cases m) auto
  have "consume Method_start r c = (Indeterminate, Method, r\<lparr>req_method := req_method r @ [c]\<rparr>)"
    using assms(2) m by (simp add: token_char_def)
  then have "parse Method_start r (m @ '' '' @ u @ '' '' @ rest)
      = parse Method (r\<lparr>req_method := req_method r @ m\<rparr>) ('' '' @ u @ '' '' @ rest)"
    using assms(2) m by (simp add: scan_method del: consume.simps)
  also have "\<dots> = parse Uri (r\<lparr>req_method := req_method r @ m, req_uri := req_uri r @ u\<rparr>) ('' '' @ rest)"
    using assms(3) by (simp add: scan_uri)
  finally show ?thesis by simp
qed

end
