(* ===== verification/Http_Language.thy ===== *)
theory Http_Language
  imports Http_Grammar
begin

text \<open>
  The converse of \<open>Http_Grammar\<close>: whatever \<open>parse\<close> accepts is a text of the grammar. Each lemma
  \<open>accept_\<dots>\<close> inverts an accepting run from one state of the switch; together they give the
  characterisation of the parser's language, from which the properties of accepted requests
  follow.
\<close>

section \<open>Inverting accepting runs\<close>

lemma accept_newline_2:
  "parse Expecting_newline_2 r xs = (TTrue, p', r', rest) \<Longrightarrow>
   \<exists>ys. xs = CHR 0x0A # ys \<and> parse Header_line_start r ys = (TTrue, p', r', rest)"
  by (cases xs) (auto split: if_splits)

lemma accept_newline_3:
  "parse Expecting_newline_3 r xs = (TTrue, p', r', rest) \<Longrightarrow>
   xs = CHR 0x0A # rest \<and> p' = Expecting_newline_3 \<and> r' = r"
  by (cases xs) (auto split: if_splits)

lemma accept_value:
  assumes "parse Header_value r xs = (TTrue, p', r', rest)"
  obtains v ys where "xs = v @ crlf @ ys" "\<forall>c\<in>set v. text_char c"
    "parse Header_line_start (r\<lparr>req_headers := append_value v (req_headers r)\<rparr>) ys
       = (TTrue, p', r', rest)"
proof -
  obtain v c ys where xs: "xs = v @ c # ys" and v: "\<forall>c\<in>set v. text_char c" and c: "\<not> text_char c"
    and run: "parse Header_value (fold push_value v r) (c # ys) = (TTrue, p', r', rest)"
    by (rule http.run_scan_stop [OF step_value assms]) auto
  from run c have "c = CHR 0x0D" and
    "parse Expecting_newline_2 (fold push_value v r) ys = (TTrue, p', r', rest)"
    by (auto simp: proto text_char_def split: if_splits)
  with accept_newline_2 that xs v show thesis
    by (fastforce simp: fold_push_value crlf_def)
qed

lemma accept_lws:
  assumes "parse Header_lws r xs = (TTrue, p', r', rest)"
  obtains w v ys where "xs = w @ v @ crlf @ ys" "\<forall>c\<in>set w. lws_char c"
    "\<forall>c\<in>set v. text_char c" "v = [] \<or> \<not> lws_char (hd v)"
    "parse Header_line_start (r\<lparr>req_headers := append_value v (req_headers r)\<rparr>) ys
       = (TTrue, p', r', rest)"
proof -
  obtain w c ys where xs: "xs = w @ c # ys" and w: "\<forall>c\<in>set w. lws_char c" and c: "\<not> lws_char c"
    and "parse Header_lws (fold (\<lambda>c r. r) w r) (c # ys) = (TTrue, p', r', rest)"
    by (rule http.run_scan_stop [OF step_lws assms]) auto
  then have run: "parse Header_lws r (c # ys) = (TTrue, p', r', rest)" by (simp add: fold_same)
  show thesis
  proof (cases "c = CHR 0x0D")
    case True
    with run have "parse Expecting_newline_2 r ys = (TTrue, p', r', rest)" by (simp add: proto)
    with accept_newline_2 obtain zs where "ys = CHR 0x0A # zs"
      "parse Header_line_start r zs = (TTrue, p', r', rest)" by blast
    with that [of w "[]" zs] xs w True show thesis
      by (simp add: crlf_def append_value_def map_back_id)
  next
    case False
    with run c have c': "text_char c" and
      "parse Header_value (push_value c r) ys = (TTrue, p', r', rest)"
      by (auto simp: proto lws_char_def text_char_def split: if_splits)
    then obtain v zs where "ys = v @ crlf @ zs" "\<forall>c\<in>set v. text_char c"
      "parse Header_line_start (fold push_value v (push_value c r)) zs = (TTrue, p', r', rest)"
      by (rule_tac accept_value [of "push_value c r" ys]) (auto simp: fold_push_value)
    moreover from this have "parse Header_line_start (fold push_value (c # v) r) zs
        = (TTrue, p', r', rest)" by simp
    ultimately show thesis using that [of w "c # v" zs] xs w c c'
      by (simp only: fold_push_value) simp
  qed
qed

lemma accept_name:
  assumes "parse Header_name r xs = (TTrue, p', r', rest)"
  obtains n ys where "xs = n @ '': '' @ ys" "\<forall>c\<in>set n. token_char c"
    "parse Header_value (fold push_name n r) ys = (TTrue, p', r', rest)"
proof -
  obtain n c ys where xs: "xs = n @ c # ys" and n: "\<forall>c\<in>set n. token_char c" and c: "\<not> token_char c"
    and run: "parse Header_name (fold push_name n r) (c # ys) = (TTrue, p', r', rest)"
    by (rule http.run_scan_stop [OF step_name assms]) auto
  from run c have "c = CHR '':''" and
    "parse Space_before_header_value (fold push_name n r) ys = (TTrue, p', r', rest)"
    by (auto simp: proto token_char_def split: if_splits)
  moreover from this obtain zs where "ys = CHR '' '' # zs"
    "parse Header_value (fold push_name n r) zs = (TTrue, p', r', rest)"
    by (cases ys) (auto split: if_splits)
  ultimately show thesis using that xs n by simp
qed

lemma accept_header_lines:
  "parse Header_line_start r xs = (TTrue, p', r', rest) \<Longrightarrow>
   \<exists>cs hs'. xs = cs @ rest \<and> header_block (req_headers r) cs hs'
     \<and> r' = r\<lparr>req_headers := hs'\<rparr> \<and> p' = Expecting_newline_3"
proof (induction "length xs" arbitrary: xs r rule: less_induct)
  case less
  then obtain c ys where xs: "xs = c # ys" by (cases xs) auto
  note run = less.prems [unfolded xs]
  consider (cr) "c = CHR 0x0D"
    | (lws) "c \<noteq> CHR 0x0D" "req_headers r \<noteq> []" "lws_char c"
    | (tok) "token_char c"
    using run by (auto simp: proto lws_char_def token_char_def split: if_splits)
  then show ?case
  proof cases
    case cr
    with run have "parse Expecting_newline_3 r ys = (TTrue, p', r', rest)" by (simp add: proto)
    with accept_newline_3 cr xs show ?thesis
      by (intro exI [of _ crlf] exI [of _ "req_headers r"]) (auto simp: crlf_def intro: block_end [unfolded crlf_def])
  next
    case lws
    with run have "parse Header_lws r ys = (TTrue, p', r', rest)" by (simp add: proto lws_char_def)
    then obtain w v zs where ys: "ys = w @ v @ crlf @ zs" and wv: "\<forall>c\<in>set w. lws_char c"
      "\<forall>c\<in>set v. text_char c" "v = [] \<or> \<not> lws_char (hd v)"
      and next_run: "parse Header_line_start (r\<lparr>req_headers := append_value v (req_headers r)\<rparr>) zs
        = (TTrue, p', r', rest)"
      by (rule accept_lws)
    have "length zs < length xs" by (simp add: xs ys)
    from less.hyps [OF this next_run] obtain cs hs' where zs: "zs = cs @ rest"
      and block: "header_block (append_value v (req_headers r)) cs hs'"
      and fin: "r' = r\<lparr>req_headers := hs'\<rparr>" "p' = Expecting_newline_3" by auto
    have "header_block (req_headers r) ((c # w) @ v @ crlf @ cs) hs'"
      using lws wv block by (intro block_fold) auto
    then show ?thesis using xs ys zs fin
      by (intro exI [of _ "(c # w) @ v @ crlf @ cs"] exI [of _ hs']) simp
  next
    case tok
    define r1 where "r1 = r\<lparr>req_headers := req_headers r @ [\<lparr>h_name = [c], h_value = []\<rparr>]\<rparr>"
    from run tok have "parse Header_name r1 ys = (TTrue, p', r', rest)"
      using token_char_not [OF tok]
      by (simp add: proto token_char_def push_name_def empty_header_def r1_def)
    then obtain n zs where ys: "ys = n @ '': '' @ zs" and n: "\<forall>c\<in>set n. token_char c"
      and "parse Header_value (fold push_name n r1) zs = (TTrue, p', r', rest)"
      by (rule accept_name)
    then obtain v us where zs: "zs = v @ crlf @ us" and v: "\<forall>c\<in>set v. text_char c"
      and "parse Header_line_start (fold push_value v (fold push_name n r1)) us = (TTrue, p', r', rest)"
      by (auto simp: fold_push_value elim: accept_value)
    then have next_run: "parse Header_line_start
        (r\<lparr>req_headers := req_headers r @ [\<lparr>h_name = c # n, h_value = v\<rparr>]\<rparr>) us
        = (TTrue, p', r', rest)"
      by (simp add: fold_push_value fold_push_name r1_def)
    have "length us < length xs" by (simp add: xs ys zs)
    from less.hyps [OF this next_run] obtain cs hs' where us: "us = cs @ rest"
      and block: "header_block (req_headers r @ [\<lparr>h_name = c # n, h_value = v\<rparr>]) cs hs'"
      and fin: "r' = r\<lparr>req_headers := hs'\<rparr>" "p' = Expecting_newline_3" by auto
    have "header_block (req_headers r) ((c # n) @ '': '' @ v @ crlf @ cs) hs'"
      using tok n v block by (intro block_field) auto
    then show ?thesis using xs ys zs us fin
      by (intro exI [of _ "(c # n) @ '': '' @ v @ crlf @ cs"] exI [of _ hs']) simp
  qed
qed


lemma accept_minor:
  assumes "parse Http_version_minor r xs = (TTrue, p', r', rest)"
  obtains ds ys where "xs = ds @ crlf @ ys" "\<forall>c\<in>set ds. digit_char c"
    "parse Header_line_start
       (r\<lparr>req_http_version_minor := fold add_digit ds (req_http_version_minor r)\<rparr>) ys
       = (TTrue, p', r', rest)"
proof -
  let ?f = "\<lambda>c r. r\<lparr>req_http_version_minor := add_digit c (req_http_version_minor r)\<rparr>"
  obtain ds c ys where xs: "xs = ds @ c # ys" and ds: "\<forall>c\<in>set ds. digit_char c" and c: "\<not> digit_char c"
    and run: "parse Http_version_minor (fold ?f ds r) (c # ys) = (TTrue, p', r', rest)"
    by (rule http.run_scan_stop [OF step_minor assms]) auto
  from run c have "c = CHR 0x0D" and
    "parse Expecting_newline_1 (fold ?f ds r) ys = (TTrue, p', r', rest)"
    by (auto simp: digit_char_def split: if_splits)
  moreover from this obtain zs where "ys = CHR 0x0A # zs"
    "parse Header_line_start (fold ?f ds r) zs = (TTrue, p', r', rest)"
    by (cases ys) (auto split: if_splits)
  ultimately show thesis using that [of ds] xs ds by (simp add: fold_minor crlf_def)
qed

lemma accept_major:
  assumes "parse Http_version_major r xs = (TTrue, p', r', rest)"
  obtains ds ys where "xs = ds @ ''.'' @ ys" "\<forall>c\<in>set ds. digit_char c"
    "parse Http_version_minor_start
       (r\<lparr>req_http_version_major := fold add_digit ds (req_http_version_major r)\<rparr>) ys
       = (TTrue, p', r', rest)"
proof -
  let ?f = "\<lambda>c r. r\<lparr>req_http_version_major := add_digit c (req_http_version_major r)\<rparr>"
  obtain ds c ys where xs: "xs = ds @ c # ys" and ds: "\<forall>c\<in>set ds. digit_char c" and c: "\<not> digit_char c"
    and run: "parse Http_version_major (fold ?f ds r) (c # ys) = (TTrue, p', r', rest)"
    by (rule http.run_scan_stop [OF step_major assms]) auto
  from run c have "c = CHR ''.''" and
    "parse Http_version_minor_start (fold ?f ds r) ys = (TTrue, p', r', rest)"
    by (auto simp: digit_char_def split: if_splits)
  then show thesis using that [of ds ys] xs ds by (simp add: fold_major)
qed

lemma accept_minor_start:
  assumes "parse Http_version_minor_start r xs = (TTrue, p', r', rest)"
    and zero: "req_http_version_minor r = 0"
  obtains ds ys where "xs = ds @ crlf @ ys" "ds \<noteq> []" "\<forall>c\<in>set ds. digit_char c"
    "parse Header_line_start (r\<lparr>req_http_version_minor := digits_value ds\<rparr>) ys = (TTrue, p', r', rest)"
proof -
  from assms obtain c zs where xs: "xs = c # zs" and c: "digit_char c"
    and run: "parse Http_version_minor (r\<lparr>req_http_version_minor := add_digit c 0\<rparr>) zs
      = (TTrue, p', r', rest)"
    by (cases xs) (auto simp: digit_char_def split: if_splits)
  from run obtain ds ys where "zs = ds @ crlf @ ys" "\<forall>c\<in>set ds. digit_char c"
    "parse Header_line_start (r\<lparr>req_http_version_minor := fold add_digit ds (add_digit c 0)\<rparr>) ys
      = (TTrue, p', r', rest)"
    by (rule accept_minor) auto
  then show thesis using that [of "c # ds" ys] xs c by (simp add: digits_value_def)
qed

lemma accept_major_start:
  assumes "parse Http_version_major_start r xs = (TTrue, p', r', rest)"
    and zero: "req_http_version_major r = 0"
  obtains ds ys where "xs = ds @ ''.'' @ ys" "ds \<noteq> []" "\<forall>c\<in>set ds. digit_char c"
    "parse Http_version_minor_start (r\<lparr>req_http_version_major := digits_value ds\<rparr>) ys
       = (TTrue, p', r', rest)"
proof -
  from assms obtain c zs where xs: "xs = c # zs" and c: "digit_char c"
    and run: "parse Http_version_major (r\<lparr>req_http_version_major := add_digit c 0\<rparr>) zs
      = (TTrue, p', r', rest)"
    by (cases xs) (auto simp: digit_char_def split: if_splits)
  from run obtain ds ys where "zs = ds @ ''.'' @ ys" "\<forall>c\<in>set ds. digit_char c"
    "parse Http_version_minor_start (r\<lparr>req_http_version_major := fold add_digit ds (add_digit c 0)\<rparr>) ys
      = (TTrue, p', r', rest)"
    by (rule accept_major) auto
  then show thesis using that [of "c # ds" ys] xs c by (simp add: digits_value_def)
qed

lemma accept_http:
  assumes "parse Http_version_h r xs = (TTrue, p', r', rest)"
  obtains ys where "xs = ''HTTP/'' @ ys" "parse Http_version_major_start
    (r\<lparr>req_http_version_major := 0, req_http_version_minor := 0\<rparr>) ys = (TTrue, p', r', rest)"
proof -
  from assms obtain a where "xs = CHR ''H'' # a" "parse Http_version_t_1 r a = (TTrue, p', r', rest)"
    by (cases xs) (auto split: if_splits)
  moreover from this obtain b where "a = CHR ''T'' # b" "parse Http_version_t_2 r b = (TTrue, p', r', rest)"
    by (cases a) (auto split: if_splits)
  moreover from this obtain c where "b = CHR ''T'' # c" "parse Http_version_p r c = (TTrue, p', r', rest)"
    by (cases b) (auto split: if_splits)
  moreover from this obtain d where "c = CHR ''P'' # d" "parse Http_version_slash r d = (TTrue, p', r', rest)"
    by (cases c) (auto split: if_splits)
  moreover from this obtain ys where "d = CHR ''/'' # ys" "parse Http_version_major_start
      (r\<lparr>req_http_version_major := 0, req_http_version_minor := 0\<rparr>) ys = (TTrue, p', r', rest)"
    by (cases d) (auto split: if_splits)
  ultimately show thesis using that by simp
qed

lemma accept_uri:
  assumes "parse Uri r xs = (TTrue, p', r', rest)"
  obtains u ys where "xs = u @ '' '' @ ys" "\<forall>c\<in>set u. uri_char c"
    "parse Http_version_h (r\<lparr>req_uri := req_uri r @ u\<rparr>) ys = (TTrue, p', r', rest)"
proof -
  let ?f = "\<lambda>c r. r\<lparr>req_uri := req_uri r @ [c]\<rparr>"
  obtain u c ys where xs: "xs = u @ c # ys" and u: "\<forall>c\<in>set u. uri_char c" and c: "\<not> uri_char c"
    and run: "parse Uri (fold ?f u r) (c # ys) = (TTrue, p', r', rest)"
    by (rule http.run_scan_stop [OF step_uri assms]) auto
  from run c have "c = CHR '' ''" "parse Http_version_h (fold ?f u r) ys = (TTrue, p', r', rest)"
    by (auto simp: uri_char_def split: if_splits)
  then show thesis using that [of u ys] xs u by (simp add: fold_uri)
qed

lemma accept_method_start:
  assumes "parse Method_start r xs = (TTrue, p', r', rest)"
  obtains m ys where "xs = m @ '' '' @ ys" "m \<noteq> []" "\<forall>c\<in>set m. token_char c"
    "parse Uri (r\<lparr>req_method := req_method r @ m\<rparr>) ys = (TTrue, p', r', rest)"
proof -
  let ?f = "\<lambda>c r. r\<lparr>req_method := req_method r @ [c]\<rparr>"
  from assms obtain d zs where xs: "xs = d # zs" and d: "token_char d"
    and "parse Method (?f d r) zs = (TTrue, p', r', rest)"
    by (cases xs) (auto simp: token_char_def split: if_splits)
  then obtain m c ys where zs: "zs = m @ c # ys" and m: "\<forall>c\<in>set m. token_char c" and c: "\<not> token_char c"
    and run: "parse Method (fold ?f m (?f d r)) (c # ys) = (TTrue, p', r', rest)"
    by (rule_tac http.run_scan_stop [OF step_method, of _ "?f d r" zs]) auto
  from run c have "c = CHR '' ''" "parse Uri (fold ?f m (?f d r)) ys = (TTrue, p', r', rest)"
    by (auto simp: token_char_def split: if_splits)
  then show thesis using that [of "d # m" ys] xs zs m d by (simp add: fold_method)
qed

section \<open>The language of the parser\<close>

text \<open>
  A default-constructed request: its strings and vectors are empty, its version numbers are
  not initialised and hold whatever the memory held.
\<close>

definition fresh_request :: "int \<Rightarrow> int \<Rightarrow> request" where
  "fresh_request i j = \<lparr>req_method = [], req_uri = [], req_http_version_major = i,
     req_http_version_minor = j, req_headers = []\<rparr>"

lemma accept_request:
  assumes "parse Method_start (fresh_request i j) xs = (TTrue, p', r', rest)"
  shows "p' = Expecting_newline_3 \<and> (\<exists>cs. xs = cs @ rest \<and> request_syntax cs r')"
proof -
  obtain m u1 where 1: "xs = m @ '' '' @ u1" "m \<noteq> []" "\<forall>c\<in>set m. token_char c"
    and a: "parse Uri ((fresh_request i j)\<lparr>req_method := req_method (fresh_request i j) @ m\<rparr>) u1
      = (TTrue, p', r', rest)"
    by (rule accept_method_start [OF assms])
  obtain u h where 2: "u1 = u @ '' '' @ h" "\<forall>c\<in>set u. uri_char c"
    and b: "parse Http_version_h ((fresh_request i j)\<lparr>req_method := m, req_uri := u\<rparr>) h
      = (TTrue, p', r', rest)"
    by (rule accept_uri [OF a]) (simp add: fresh_request_def)
  obtain h1 where 3: "h = ''HTTP/'' @ h1"
    and c: "parse Http_version_major_start ((fresh_request i j)\<lparr>req_method := m, req_uri := u,
      req_http_version_major := 0, req_http_version_minor := 0\<rparr>) h1 = (TTrue, p', r', rest)"
    by (rule accept_http [OF b]) simp
  obtain major h2 where 4: "h1 = major @ ''.'' @ h2" "major \<noteq> []" "\<forall>c\<in>set major. digit_char c"
    and d: "parse Http_version_minor_start (((fresh_request i j)\<lparr>req_method := m, req_uri := u,
      req_http_version_major := 0, req_http_version_minor := 0\<rparr>)
      \<lparr>req_http_version_major := digits_value major\<rparr>) h2 = (TTrue, p', r', rest)"
    by (rule accept_major_start [OF c]) simp_all
  obtain minor h3 where 5: "h2 = minor @ crlf @ h3" "minor \<noteq> []" "\<forall>c\<in>set minor. digit_char c"
    and e: "parse Header_line_start ((((fresh_request i j)\<lparr>req_method := m, req_uri := u,
      req_http_version_major := 0, req_http_version_minor := 0\<rparr>)
      \<lparr>req_http_version_major := digits_value major\<rparr>)
      \<lparr>req_http_version_minor := digits_value minor\<rparr>) h3 = (TTrue, p', r', rest)"
    by (rule accept_minor_start [OF d]) simp_all
  from accept_header_lines [OF e] obtain block hs where 6: "h3 = block @ rest"
    and block: "header_block [] block hs" and p': "p' = Expecting_newline_3"
    and r': "r' = \<lparr>req_method = m, req_uri = u, req_http_version_major = digits_value major,
      req_http_version_minor = digits_value minor, req_headers = hs\<rparr>"
    by (auto simp: fresh_request_def)
  have "request_syntax (m @ '' '' @ u @ '' HTTP/'' @ major @ ''.'' @ minor @ crlf @ block) r'"
    unfolding request_syntax_def using 1 2 4 5 block r'
    by (intro exI [of _ major] exI [of _ minor] exI [of _ block]) simp
  with 1 2 3 4 5 6 p' show ?thesis by (intro conjI exI) auto
qed

lemma request_accepted:
  assumes "request_syntax cs req"
  shows "parse Method_start (fresh_request i j) (cs @ rest) = (TTrue, Expecting_newline_3, req, rest)"
proof -
  from assms obtain major minor block where
    cs: "cs = req_method req @ '' '' @ req_uri req @ '' HTTP/'' @ major @ ''.'' @ minor @ crlf @ block"
    and m: "req_method req \<noteq> []" "\<forall>c\<in>set (req_method req). token_char c"
    and u: "\<forall>c\<in>set (req_uri req). uri_char c"
    and v: "major \<noteq> []" "\<forall>c\<in>set major. digit_char c" "minor \<noteq> []" "\<forall>c\<in>set minor. digit_char c"
    and vals: "req_http_version_major req = digits_value major"
      "req_http_version_minor req = digits_value minor"
    and block: "header_block [] block (req_headers req)"
    unfolding request_syntax_def by blast
  have "parse Method_start (fresh_request i j) (cs @ rest)
      = parse Http_version_h ((fresh_request i j)\<lparr>req_method := req_method req, req_uri := req_uri req\<rparr>)
          (''HTTP/'' @ major @ ''.'' @ minor @ crlf @ (block @ rest))"
    using method_uri_line [OF m u, of "fresh_request i j" "''HTTP/'' @ major @ ''.'' @ minor @ crlf @ (block @ rest)"]
    by (simp add: cs fresh_request_def)
  also have "\<dots> = parse Header_line_start ((fresh_request i j)\<lparr>req_method := req_method req,
      req_uri := req_uri req, req_http_version_major := digits_value major,
      req_http_version_minor := digits_value minor\<rparr>) (block @ rest)"
    by (rule version_line [OF v])
  also have "\<dots> = (TTrue, Expecting_newline_3, req, rest)"
    using block_accepted [OF block] vals by (simp add: fresh_request_def)
  finally show ?thesis .
qed

end
