(* ===== verification/Http_Requests.thy ===== *)
theory Http_Requests
  imports Http_Language
begin

text \<open>
  Properties of the request parser: its language, independence of how the input is cut into
  blocks, the printed form of a request and what an accepted request can contain.
\<close>

section \<open>Version numbers\<close>

lemma c_int_add_digit: "c_int (c_int a * 10 + b) = c_int (a * 10 + b)"
proof -
  have "((a + 2 ^ 31) mod 2 ^ 32 - 2 ^ 31) mod 2 ^ 32 = a mod (2 ^ 32 :: int)"
    by (simp add: mod_simps)
  then have "(((a + 2 ^ 31) mod 2 ^ 32 - 2 ^ 31) * 10 + b + 2 ^ 31) mod 2 ^ 32
      = (a * 10 + b + 2 ^ 31) mod (2 ^ 32 :: int)"
    by (intro mod_add_cong mod_mult_cong) simp_all
  then show ?thesis by (simp add: c_int_def)
qed

lemma digits_value_eq: "digits_value ds = c_int (dec_value ds)"
proof -
  have "fold add_digit ds (c_int i) = c_int (fold (\<lambda>c n. n * 10 + (promote c - 48)) ds i)" for i
  proof (induction ds arbitrary: i)
    case Nil
    then show ?case by simp
  next
    case (Cons c ds)
    have "add_digit c (c_int i) = c_int (i * 10 + (promote c - 48))"
      using c_int_add_digit [of i "promote c - 48"] by (simp add: add_digit_def algebra_simps)
    then show ?case using Cons.IH by simp
  qed
  from this [of 0] show ?thesis by (simp add: digits_value_def dec_value_def)
qed

lemma digit_char_digit: "d < 10 \<Longrightarrow> digit_char (digit d)"
  by (simp add: digit_char_def is_digit_def promote_digit)

lemma digit_char_decimal: "\<forall>c\<in>set (decimal n). digit_char c"
  using decimal_digits by (metis digit_char_digit)

section \<open>Printing a request\<close>

text \<open>The text of a request with every header on one line, as a client writes it.\<close>

fun print_headers :: "header list \<Rightarrow> string" where
  "print_headers [] = crlf"
| "print_headers (h # hs) = h_name h @ '': '' @ h_value h @ crlf @ print_headers hs"

definition print_request :: "request \<Rightarrow> string" where
  "print_request req = req_method req @ '' '' @ req_uri req @ '' HTTP/''
     @ decimal (nat (req_http_version_major req)) @ ''.''
     @ decimal (nat (req_http_version_minor req)) @ crlf @ print_headers (req_headers req)"

definition wf_header :: "header \<Rightarrow> bool" where
  "wf_header h \<longleftrightarrow> h_name h \<noteq> [] \<and> list_all token_char (h_name h) \<and> list_all text_char (h_value h)"

definition wf_text :: "request \<Rightarrow> bool" where
  "wf_text req \<longleftrightarrow> req_method req \<noteq> [] \<and> list_all token_char (req_method req)
     \<and> list_all uri_char (req_uri req) \<and> list_all wf_header (req_headers req)"

definition version_range :: "int \<Rightarrow> bool" where
  "version_range v \<longleftrightarrow> 0 \<le> v \<and> v < 2 ^ 31"

definition wf_request :: "request \<Rightarrow> bool" where
  "wf_request req \<longleftrightarrow> wf_text req \<and> version_range (req_http_version_major req)
     \<and> version_range (req_http_version_minor req)"

lemma print_headers_block:
  "list_all wf_header hs' \<Longrightarrow> header_block hs (print_headers hs') (hs @ hs')"
proof (induction hs' arbitrary: hs)
  case Nil
  then show ?case using block_end by simp
next
  case (Cons h hs')
  then have "header_block (hs @ [\<lparr>h_name = h_name h, h_value = h_value h\<rparr>]) (print_headers hs')
      (hs @ h # hs')"
    using Cons.IH [of "hs @ [h]"] by (cases h) simp
  then show ?case using Cons.prems
    by (simp add: wf_header_def list_all_iff block_field [simplified])
qed

lemma digits_value_decimal: "version_range v \<Longrightarrow> digits_value (decimal (nat v)) = v"
  by (simp add: digits_value_eq dec_value_decimal version_range_def)

lemma print_request_syntax: "wf_request req \<Longrightarrow> request_syntax (print_request req) req"
proof -
  assume wf: "wf_request req"
  then have "header_block [] (print_headers (req_headers req)) (req_headers req)"
    using print_headers_block [of "req_headers req" "[]"] by (simp add: wf_request_def wf_text_def)
  moreover have "digits_value (decimal (nat (req_http_version_major req))) = req_http_version_major req"
    "digits_value (decimal (nat (req_http_version_minor req))) = req_http_version_minor req"
    using wf by (simp_all add: wf_request_def digits_value_decimal)
  ultimately show ?thesis
    using wf digit_char_decimal
    unfolding request_syntax_def print_request_def wf_request_def wf_text_def list_all_iff
    by (metis decimal_nonempty)
qed

section \<open>Well-formed results\<close>

lemma wf_header_append: "wf_header h \<Longrightarrow> list_all text_char v \<Longrightarrow> wf_header (h\<lparr>h_value := h_value h @ v\<rparr>)"
  by (simp add: wf_header_def)

lemma wf_append_value:
  assumes "list_all wf_header hs" "list_all text_char v"
  shows "list_all wf_header (append_value v hs)"
  using assms
  by (cases hs rule: rev_cases) (simp_all add: append_value_def wf_header_append)

lemma header_block_wf: "header_block hs cs hs' \<Longrightarrow> list_all wf_header hs \<Longrightarrow> list_all wf_header hs'"
proof (induction rule: header_block.induct)
  case (block_end hs)
  then show ?case .
next
  case (block_field n v hs rest hs')
  have "wf_header \<lparr>h_name = n, h_value = v\<rparr>"
    using block_field.hyps(1,2,3) by (simp add: wf_header_def list_all_iff)
  with block_field.IH block_field.prems show ?case by simp
next
  case (block_fold hs w v rest hs')
  have "list_all text_char v" using block_fold.hyps(4) by (simp only: list_all_iff)
  with block_fold.prems have "list_all wf_header (append_value v hs)" by (rule wf_append_value)
  then show ?case by (rule block_fold.IH)
qed

lemma request_syntax_wf: "request_syntax cs req \<Longrightarrow> wf_text req"
  using header_block_wf [of "[]"] by (auto simp: request_syntax_def wf_text_def list_all_iff)

text \<open>
  \<open>back()\<close> is called by the states that extend the last header; they need a header.
\<close>

definition back_defined :: "state \<Rightarrow> request \<Rightarrow> bool" where
  "back_defined st req \<longleftrightarrow>
     (st \<in> {Header_lws, Header_name, Space_before_header_value, Header_value} \<longrightarrow>
        req_headers req \<noteq> [])"

lemma consume_back_defined:
  "back_defined st req \<Longrightarrow> consume st req c = (b, st', req') \<Longrightarrow> back_defined st' req'"
  by (cases st) (auto simp: back_defined_def proto push_name_def push_value_def split: if_splits)

lemma parse_back_defined:
  "back_defined st req \<Longrightarrow> parse st req cs = (b, st', req', rest) \<Longrightarrow> back_defined st' req'"
proof (induction cs arbitrary: st req)
  case Nil
  then show ?case by simp
next
  case (Cons c cs)
  obtain b1 st1 req1 where s: "consume st req c = (b1, st1, req1)" by (metis prod_cases3)
  from consume_back_defined [OF Cons.prems(1) s] have "back_defined st1 req1" .
  with Cons s show ?case by (auto split: if_splits)
qed

section \<open>Properties\<close>

text \<open>
  C1. \<open>request_parser::parse\<close> accepts exactly the texts of the request grammar: from a new
  parser and a default-constructed request, the result is true precisely when the consumed
  part of the input is a request line, header lines and a blank line of the grammar, and then
  the request holds exactly the method, URI, version and headers (with continuation lines
  folded into the value of their header) that the grammar derives.
\<close>

theorem parse_accepts_iff:
  "parse request_parser (fresh_request i j) input = (TTrue, st, req, rest) \<longleftrightarrow>
     st = Expecting_newline_3 \<and> (\<exists>cs. input = cs @ rest \<and> request_syntax cs req)"
  using accept_request request_accepted unfolding request_parser_def by blast

text \<open>
  The result of the parser does not depend on how the input is cut into blocks: parsing
  \<open>xs\<close> and then, if more data is required, continuing with \<open>ys\<close> gives the result, the parser
  state, the request and the unread input of parsing them in one block.
\<close>

theorem parse_blocks:
  "parse st req (xs @ ys) =
     (case parse st req xs of (result, st', req', rest) \<Rightarrow>
        if result = Indeterminate then parse st' req' ys else (result, st', req', rest @ ys))"
  by (rule http.run_append)

text \<open>
  C2. Round trip: a well-formed request, printed as text, is parsed back to the same request,
  and the parser stops right after it, whatever follows in the input.
\<close>

theorem parse_print_request:
  "wf_request req \<Longrightarrow>
   parse request_parser (fresh_request i j) (print_request req @ rest)
     = (TTrue, Expecting_newline_3, req, rest)"
  unfolding request_parser_def by (rule request_accepted) (rule print_request_syntax)

theorem parse_print_request_witness:
  "parse request_parser (fresh_request 7 7)
     (print_request \<lparr>req_method = ''GET'', req_uri = ''/'', req_http_version_major = 1,
        req_http_version_minor = 0, req_headers = [\<lparr>h_name = ''Host'', h_value = ''a b''\<rparr>]\<rparr> @ ''x'')
   = (TTrue, Expecting_newline_3, \<lparr>req_method = ''GET'', req_uri = ''/'', req_http_version_major = 1,
        req_http_version_minor = 0, req_headers = [\<lparr>h_name = ''Host'', h_value = ''a b''\<rparr>]\<rparr>, ''x'')"
  by (rule parse_print_request) code_simp

text \<open>
  C21. What an accepted request can contain: the method is a non-empty token, the URI has no
  space and no control character, every header name is a non-empty token and no header value
  contains a control character, so in particular no line break can be smuggled into a field.
\<close>

theorem accepted_request_wf:
  "parse request_parser (fresh_request i j) input = (TTrue, st, req, rest) \<Longrightarrow> wf_text req"
  using accept_request request_syntax_wf unfolding request_parser_def by blast

theorem accepted_request_wf_witness:
  "wf_text \<lparr>req_method = ''GET'', req_uri = ''/'', req_http_version_major = 1,
     req_http_version_minor = 1, req_headers = []\<rparr>"
proof -
  have "parse request_parser (fresh_request 0 0) (''GET / HTTP/1.1'' @ crlf @ crlf)
    = (TTrue, Expecting_newline_3, \<lparr>req_method = ''GET'', req_uri = ''/'',
        req_http_version_major = 1, req_http_version_minor = 1, req_headers = []\<rparr>, [])"
    by code_simp
  then show ?thesis by (rule accepted_request_wf)
qed

text \<open>
  The parser never calls \<open>back()\<close> on an empty header vector: in every state reached from a
  new parser, the states that extend the last header have a header to extend.
\<close>

theorem parse_never_empty_back:
  "case parse request_parser (fresh_request i j) input of
     (result, st, req, rest) \<Rightarrow> back_defined st req"
proof -
  obtain b st req rest where "parse request_parser (fresh_request i j) input = (b, st, req, rest)"
    by (metis prod_cases4)
  moreover have "back_defined request_parser (fresh_request i j)"
    by (simp add: back_defined_def request_parser_def)
  ultimately show ?thesis using parse_back_defined by auto
qed

text \<open>
  The version numbers are 32-bit \<open>int\<close>s computed without a range check: the request
  line \<open>HTTP/2147483648.0\<close> is accepted and overflows the major version (undefined behaviour in
  C++; the two's complement result is the negative number below).
\<close>

theorem version_overflow_accepted:
  "parse request_parser (fresh_request i j) (''GET / HTTP/2147483648.0'' @ crlf @ crlf)
     = (TTrue, Expecting_newline_3, \<lparr>req_method = ''GET'', req_uri = ''/'',
          req_http_version_major = - 2147483648, req_http_version_minor = 0, req_headers = []\<rparr>, [])"
proof -
  let ?req = "\<lparr>req_method = ''GET'', req_uri = ''/'', req_http_version_major = - 2147483648,
    req_http_version_minor = 0, req_headers = []\<rparr>"
  have digits: "digits_value ''2147483648'' = - 2147483648" "digits_value ''0'' = 0"
    "list_all digit_char ''2147483648''" "list_all digit_char ''0''"
    "list_all token_char ''GET''" "list_all uri_char ''/''" by code_simp+
  then have "request_syntax (''GET / HTTP/2147483648.0'' @ crlf @ crlf) ?req"
    unfolding request_syntax_def list_all_iff
    by (intro exI [of _ "''2147483648''"] exI [of _ "''0''"] exI [of _ crlf])
      (use block_end [of "[]"] in simp)
  from request_accepted [OF this, of i j "[]"] show ?thesis by (simp add: request_parser_def)
qed

end
