(* ===== verification/Cxx_Library.thy ===== *)
theory Cxx_Library
  imports Prelude
begin

text \<open>
  The parts of the C++ standard library for text that the sources rely on: the classification of
  white space, formatted extraction of a hexadecimal integer from a string stream, \<open>atoi\<close> and
  \<open>sprintf\<close> with the field \<open>%4d\<close>. Each follows the documented behaviour, the lenient cases
  included: leading white space, an optional sign, an optional \<open>0x\<close> prefix, and characters after
  the number that are left unread.
\<close>

section \<open>White space and digits\<close>

definition isspace :: "char \<Rightarrow> bool" where
  "isspace c \<longleftrightarrow> c \<in> {CHR '' '', CHR 0x09, CHR 0x0A, CHR 0x0B, CHR 0x0C, CHR 0x0D}"

definition isdigit :: "char \<Rightarrow> bool" where
  "isdigit c \<longleftrightarrow> promote CHR ''0'' \<le> promote c \<and> promote c \<le> promote CHR ''9''"

lemma promote_CHR [simp]:
  "promote CHR ''A'' = 65" "promote CHR ''F'' = 70" "promote CHR ''a'' = 97" "promote CHR ''f'' = 102"
  by (simp_all add: promote_def)

text \<open>The value of a hexadecimal digit, in either case.\<close>

definition hex_digit :: "char \<Rightarrow> nat option" where
  "hex_digit c =
     (if promote CHR ''0'' \<le> promote c \<and> promote c \<le> promote CHR ''9'' then Some (nat (promote c - 48))
      else if promote CHR ''a'' \<le> promote c \<and> promote c \<le> promote CHR ''f'' then Some (nat (promote c - 87))
      else if promote CHR ''A'' \<le> promote c \<and> promote c \<le> promote CHR ''F'' then Some (nat (promote c - 55))
      else None)"

text \<open>An optional sign: whether the number is negated, and the characters after the sign.\<close>

fun read_sign :: "string \<Rightarrow> bool \<times> string" where
  "read_sign [] = (False, [])"
| "read_sign (c # cs) =
     (if c = CHR ''-'' then (True, cs) else if c = CHR ''+'' then (False, cs) else (False, c # cs))"

text \<open>An optional \<open>0x\<close> prefix, which the base 16 conversion skips.\<close>

fun skip_0x :: "string \<Rightarrow> string" where
  "skip_0x (a # x # cs) = (if a = CHR ''0'' \<and> x \<in> {CHR ''x'', CHR ''X''} then cs else a # x # cs)"
| "skip_0x cs = cs"

section \<open>Formatted extraction of a hexadecimal \<open>int\<close>\<close>

text \<open>
  \<open>is >> std::hex >> value\<close>: \<open>None\<close> when the extraction sets \<open>failbit\<close> (no digit, or a value
  outside \<open>int\<close>), otherwise the value stored. Unread characters do not make it fail.
\<close>

definition istream_hex :: "string \<Rightarrow> int option" where
  "istream_hex s =
     (let (neg, t) = read_sign (dropWhile isspace s);
          ds = List.map_filter id (takeWhile (\<lambda>d. d \<noteq> None) (List.map hex_digit (skip_0x t)));
          n = foldl (\<lambda>v d. 16 * v + int d) 0 ds;
          v = (if neg then - n else n)
      in if ds = [] \<or> v < - (2 ^ 31) \<or> 2 ^ 31 \<le> v then None else Some v)"

section \<open>\<open>atoi\<close> and the field \<open>%4d\<close>\<close>

text \<open>
  \<open>std::atoi\<close>: leading white space, a sign, and digits as far as they go; no digit gives 0. The
  buffers of the program hold at most four characters there, so the value is an \<open>int\<close>.
\<close>

definition atoi :: "string \<Rightarrow> int" where
  "atoi s =
     (let (neg, t) = read_sign (dropWhile isspace s); n = dec_value (takeWhile isdigit t)
      in if neg then - n else n)"

text \<open>\<open>sprintf\<close> of a non-negative \<open>int\<close> with the conversion \<open>%<w>d\<close>: right-justified in \<open>w\<close>
  columns with blanks, longer when the number needs more.\<close>

definition printf_d :: "nat \<Rightarrow> nat \<Rightarrow> string" where
  "printf_d w n = replicate (w - length (decimal n)) CHR '' '' @ decimal n"

lemma isdigit_digit [simp]: "d < 10 \<Longrightarrow> isdigit (digit d)"
  by (simp add: isdigit_def promote_digit)

lemma isdigit_decimal: "list_all isdigit (decimal n)"
  using decimal_digits [of n] by (auto simp: list_all_iff)

lemma isdigit_not_space: "isdigit c \<Longrightarrow> \<not> isspace c"
  by (auto simp: isdigit_def isspace_def promote_def)

lemma isdigit_not_sign: "isdigit c \<Longrightarrow> c \<noteq> CHR ''-'' \<and> c \<noteq> CHR ''+''"
  by (auto simp: isdigit_def promote_def)

lemma atoi_digits:
  assumes "ds \<noteq> []" and "list_all isdigit ds" and "rest = [] \<or> \<not> isdigit (hd rest)"
  shows "atoi (replicate k CHR '' '' @ ds @ rest) = dec_value ds"
proof -
  obtain d es where ds: "ds = d # es" using assms(1) by (cases ds) auto
  have d: "isdigit d" using assms(2) ds by simp
  have sp: "isspace CHR '' ''" by (simp add: isspace_def)
  have "dropWhile isspace (replicate k CHR '' '' @ ds @ rest) = ds @ rest"
    using d sp by (induction k) (simp_all add: ds isdigit_not_space)
  moreover have "read_sign (ds @ rest) = (False, ds @ rest)"
    using isdigit_not_sign [OF d] by (simp add: ds)
  moreover have "takeWhile isdigit (ds @ rest) = ds"
    using assms(2,3) by (cases rest) (auto simp: takeWhile_append list_all_iff)
  ultimately show ?thesis by (simp add: atoi_def)
qed

lemma atoi_printf_d: "rest = [] \<or> \<not> isdigit (hd rest) \<Longrightarrow> atoi (printf_d w n @ rest) = int n"
  using atoi_digits [of "decimal n" rest] isdigit_decimal [of n] dec_value_decimal [of n]
  by (simp add: printf_d_def)

end
