(* ===== verification/Cxx_Streams.thy ===== *)
theory Cxx_Streams
  imports Cxx_Library
begin

text \<open>
  Input streams of text: the characters still to be read and the state bits of \<open>std::istream\<close>, with the operations
  the programs use on \<open>std::cin\<close> and on streams of sockets. Integers are as the standard has it, \<open>char\<close> by \<open>char\<close> in
  the \<open>C\<close> locale.
\<close>

record istream =
  unread :: string
  eofbit :: bool
  failbit :: bool

definition good :: "istream \<Rightarrow> bool" where
  "good s \<longleftrightarrow> \<not> eofbit s \<and> \<not> failbit s"

text \<open>\<open>s >> str\<close>: skips white space, reads up to the next; the string is unchanged when the stream is not good.\<close>

definition read_string :: "string \<Rightarrow> istream \<Rightarrow> string \<times> istream" where
  "read_string old s =
     (if \<not> good s then (old, s\<lparr>failbit := True\<rparr>)
      else let t = dropWhile isspace (unread s) in
        if t = [] then (old, s\<lparr>unread := [], eofbit := True, failbit := True\<rparr>)
        else let w = takeWhile (\<lambda>c. \<not> isspace c) t; rest = dropWhile (\<lambda>c. \<not> isspace c) t in
          (w, s\<lparr>unread := rest, eofbit := (rest = [])\<rparr>))"

text \<open>\<open>s >> n\<close> for an \<open>unsigned int\<close>, by \<open>strtoull\<close>: a negative number is negated modulo 2 to the 64, a value that
  does not fit fails, as does a number without digits.\<close>

definition read_unsigned :: "nat \<Rightarrow> istream \<Rightarrow> nat \<times> istream" where
  "read_unsigned old s =
     (if \<not> good s then (old, s\<lparr>failbit := True\<rparr>)
      else let t = dropWhile isspace (unread s) in
        if t = [] then (old, s\<lparr>unread := [], eofbit := True, failbit := True\<rparr>)
        else let (neg, u) = read_sign t; ds = takeWhile isdigit u; rest = dropWhile isdigit u;
                 n = nat (dec_value ds); v = (if neg then (2 ^ 64 - n) mod 2 ^ 64 else n);
                 s = s\<lparr>unread := rest, eofbit := (rest = [])\<rparr> in
          if ds = [] then (0, s\<lparr>failbit := True\<rparr>)
          else if n \<ge> 2 ^ 64 \<or> v \<ge> 2 ^ 32 then (2 ^ 32 - 1, s\<lparr>failbit := True\<rparr>)
          else (v, s))"

text \<open>\<open>std::getline\<close>: the line break is taken from the stream and not stored.\<close>

definition get_line :: "string \<Rightarrow> istream \<Rightarrow> string \<times> istream" where
  "get_line old s =
     (if \<not> good s then (old, s\<lparr>failbit := True\<rparr>)
      else let l = takeWhile (\<lambda>c. c \<noteq> CHR 0x0A) (unread s); rest = dropWhile (\<lambda>c. c \<noteq> CHR 0x0A) (unread s) in
        if rest = [] then (l, s\<lparr>unread := [], eofbit := True, failbit := (l = [])\<rparr>)
        else (l, s\<lparr>unread := tl rest\<rparr>))"

lemma get_line_shorter: "get_line old s = (l, s') \<Longrightarrow> \<not> failbit s' \<Longrightarrow> length (unread s') < length (unread s)"
  by (auto simp: get_line_def Let_def dropWhile_eq_drop split: if_splits)

text \<open>\<open>std::cin.getline(buf, n)\<close>: at most \<open>n - 1\<close> characters are stored; a longer line fails after them, and on a
  stream that is not good the buffer becomes empty.\<close>

definition cin_getline :: "nat \<Rightarrow> istream \<Rightarrow> string \<times> istream" where
  "cin_getline n s =
     (if \<not> good s then ([], s\<lparr>failbit := True\<rparr>)
      else let l = takeWhile (\<lambda>c. c \<noteq> CHR 0x0A) (unread s); rest = dropWhile (\<lambda>c. c \<noteq> CHR 0x0A) (unread s) in
        if length l \<ge> n then (take (n - 1) l, s\<lparr>unread := drop (n - 1) (unread s), failbit := True\<rparr>)
        else if rest = [] then (l, s\<lparr>unread := [], eofbit := True, failbit := (l = [])\<rparr>)
        else (l, s\<lparr>unread := tl rest\<rparr>))"

lemma cin_getline_shorter:
  "cin_getline n s = (l, s') \<Longrightarrow> 1 < n \<Longrightarrow> l \<noteq> [] \<Longrightarrow> length (unread s') < length (unread s)"
  by (cases "unread s") (auto simp: cin_getline_def Let_def dropWhile_eq_drop split: if_splits)

lemma get_line_of: "CHR 0x0A \<notin> set l \<Longrightarrow> good s \<Longrightarrow> unread s = l @ CHR 0x0A # rest \<Longrightarrow> get_line old s = (l, s\<lparr>unread := rest\<rparr>)"
  by (simp add: get_line_def Let_def takeWhile_append dropWhile_append)

text \<open>\<open>s >> n\<close> for an \<open>int\<close> of 32 bits: a value that does not fit fails.\<close>

definition read_int :: "istream \<Rightarrow> int \<times> istream" where
  "read_int s =
     (if \<not> good s then (0, s\<lparr>failbit := True\<rparr>)
      else let t = dropWhile isspace (unread s) in
        if t = [] then (0, s\<lparr>unread := [], eofbit := True, failbit := True\<rparr>)
        else let (neg, u) = read_sign t; ds = takeWhile isdigit u; rest = dropWhile isdigit u;
                 v = (if neg then - dec_value ds else dec_value ds); s = s\<lparr>unread := rest, eofbit := (rest = [])\<rparr> in
          if ds = [] then (0, s\<lparr>failbit := True\<rparr>)
          else if v < - (2 ^ 31) then (- (2 ^ 31), s\<lparr>failbit := True\<rparr>)
          else if v \<ge> 2 ^ 31 then (2 ^ 31 - 1, s\<lparr>failbit := True\<rparr>)
          else (v, s))"

lemma read_string_shorter:
  assumes "read_string old s = (w, s')" "\<not> failbit s'"
  shows "length (unread s') < length (unread s)"
proof -
  let ?t = "dropWhile isspace (unread s)"
  have t: "?t \<noteq> []" "unread s' = dropWhile (\<lambda>c. \<not> isspace c) ?t"
    using assms by (auto simp: read_string_def Let_def split: if_splits)
  then have "length (dropWhile (\<lambda>c. \<not> isspace c) ?t) < length ?t"
    using hd_dropWhile [of isspace "unread s"] by (cases ?t) (simp_all add: le_imp_less_Suc length_dropWhile_le)
  then show ?thesis using t(2) length_dropWhile_le [of isspace "unread s"] by simp
qed

lemma read_int_shorter:
  assumes "read_int s = (v, s')" "\<not> failbit s'"
  shows "length (unread s') < length (unread s)"
proof -
  let ?t = "dropWhile isspace (unread s)"
  obtain neg u where u: "read_sign ?t = (neg, u)" by fastforce
  have "length (snd (read_sign cs)) \<le> length cs" for cs by (cases cs) auto
  from this [of ?t] have "length u \<le> length ?t" using u by simp
  moreover have d: "takeWhile isdigit u \<noteq> []" "unread s' = dropWhile isdigit u"
    using assms u by (auto simp: read_int_def Let_def split: if_splits)
  moreover have "length (takeWhile isdigit u) + length (dropWhile isdigit u) = length u"
    by (metis length_append takeWhile_dropWhile_id)
  moreover have "0 < length (takeWhile isdigit u)" using d(1) by simp
  ultimately show ?thesis using length_dropWhile_le [of isspace "unread s"] unfolding d(2) by linarith
qed

end
