(* ===== verification/Http_Reply.thy ===== *)
theory Http_Reply
  imports Http_Types
begin

text \<open>
  \<open>asio-examples/http_server/reply.cpp\<close>: the status lines, the stock bodies and the conversion
  of a reply to the buffers that are written to the socket. The files of \<open>http_server2\<close>,
  \<open>http_server3\<close> and \<open>http_server4\<close> differ in the name of the namespace only. A buffer stands for
  the bytes it refers to; \<open>boost::lexical_cast\<close> from a size to a string is the parameter
  \<open>lexical_cast\<close>. The \<open>default\<close> branches of the two switches are for values outside the
  enumeration, which the type \<open>status_type\<close> does not have.
\<close>

section \<open>Status lines and stock bodies\<close>

definition name_value_separator :: string where
  "name_value_separator = [CHR '':'', CHR '' '']"

definition misc_crlf :: string where
  "misc_crlf = [CHR 0x0D, CHR 0x0A]"

text \<open>The constant of \<open>status_strings\<close> that \<open>to_buffer\<close> selects for each status.\<close>

fun status_strings :: "status_type \<Rightarrow> string" where
  "status_strings Ok = ''HTTP/1.0 200 OK'' @ misc_crlf"
| "status_strings Created = ''HTTP/1.0 201 Created'' @ misc_crlf"
| "status_strings Accepted = ''HTTP/1.0 202 Accepted'' @ misc_crlf"
| "status_strings No_content = ''HTTP/1.0 204 No Content'' @ misc_crlf"
| "status_strings Multiple_choices = ''HTTP/1.0 300 Multiple Choices'' @ misc_crlf"
| "status_strings Moved_permanently = ''HTTP/1.0 301 Moved Permanently'' @ misc_crlf"
| "status_strings Moved_temporarily = ''HTTP/1.0 302 Moved Temporarily'' @ misc_crlf"
| "status_strings Not_modified = ''HTTP/1.0 304 Not Modified'' @ misc_crlf"
| "status_strings Bad_request = ''HTTP/1.0 400 Bad Request'' @ misc_crlf"
| "status_strings Unauthorized = ''HTTP/1.0 401 Unauthorized'' @ misc_crlf"
| "status_strings Forbidden = ''HTTP/1.0 403 Forbidden'' @ misc_crlf"
| "status_strings Not_found = ''HTTP/1.0 404 Not Found'' @ misc_crlf"
| "status_strings Internal_server_error = ''HTTP/1.0 500 Internal Server Error'' @ misc_crlf"
| "status_strings Not_implemented = ''HTTP/1.0 501 Not Implemented'' @ misc_crlf"
| "status_strings Bad_gateway = ''HTTP/1.0 502 Bad Gateway'' @ misc_crlf"
| "status_strings Service_unavailable = ''HTTP/1.0 503 Service Unavailable'' @ misc_crlf"

text \<open>The constant of \<open>stock_replies\<close> that \<open>to_string\<close> selects for each status.\<close>

fun stock_replies :: "status_type \<Rightarrow> string" where
  "stock_replies Ok =
     []"
| "stock_replies Created =
     ''<html>'' @ ''<head><title>Created</title></head>'' @ ''<body><h1>201 Created</h1></body>'' @ ''</html>''"
| "stock_replies Accepted =
     ''<html>'' @ ''<head><title>Accepted</title></head>'' @ ''<body><h1>202 Accepted</h1></body>'' @ ''</html>''"
| "stock_replies No_content =
     ''<html>'' @ ''<head><title>No Content</title></head>'' @ ''<body><h1>204 Content</h1></body>'' @ ''</html>''"
| "stock_replies Multiple_choices =
     ''<html>'' @ ''<head><title>Multiple Choices</title></head>'' @ ''<body><h1>300 Multiple Choices</h1></body>'' @ ''</html>''"
| "stock_replies Moved_permanently =
     ''<html>'' @ ''<head><title>Moved Permanently</title></head>'' @ ''<body><h1>301 Moved Permanently</h1></body>'' @ ''</html>''"
| "stock_replies Moved_temporarily =
     ''<html>'' @ ''<head><title>Moved Temporarily</title></head>'' @ ''<body><h1>302 Moved Temporarily</h1></body>'' @ ''</html>''"
| "stock_replies Not_modified =
     ''<html>'' @ ''<head><title>Not Modified</title></head>'' @ ''<body><h1>304 Not Modified</h1></body>'' @ ''</html>''"
| "stock_replies Bad_request =
     ''<html>'' @ ''<head><title>Bad Request</title></head>'' @ ''<body><h1>400 Bad Request</h1></body>'' @ ''</html>''"
| "stock_replies Unauthorized =
     ''<html>'' @ ''<head><title>Unauthorized</title></head>'' @ ''<body><h1>401 Unauthorized</h1></body>'' @ ''</html>''"
| "stock_replies Forbidden =
     ''<html>'' @ ''<head><title>Forbidden</title></head>'' @ ''<body><h1>403 Forbidden</h1></body>'' @ ''</html>''"
| "stock_replies Not_found =
     ''<html>'' @ ''<head><title>Not Found</title></head>'' @ ''<body><h1>404 Not Found</h1></body>'' @ ''</html>''"
| "stock_replies Internal_server_error =
     ''<html>'' @ ''<head><title>Internal Server Error</title></head>'' @ ''<body><h1>500 Internal Server Error</h1></body>'' @ ''</html>''"
| "stock_replies Not_implemented =
     ''<html>'' @ ''<head><title>Not Implemented</title></head>'' @ ''<body><h1>501 Not Implemented</h1></body>'' @ ''</html>''"
| "stock_replies Bad_gateway =
     ''<html>'' @ ''<head><title>Bad Gateway</title></head>'' @ ''<body><h1>502 Bad Gateway</h1></body>'' @ ''</html>''"
| "stock_replies Service_unavailable =
     ''<html>'' @ ''<head><title>Service Unavailable</title></head>'' @ ''<body><h1>503 Service Unavailable</h1></body>'' @ ''</html>''"

text \<open>The reason phrases of the protocol, for the statement of the properties.\<close>

fun reason :: "status_type \<Rightarrow> string" where
  "reason Ok = ''OK''"
| "reason Created = ''Created''"
| "reason Accepted = ''Accepted''"
| "reason No_content = ''No Content''"
| "reason Multiple_choices = ''Multiple Choices''"
| "reason Moved_permanently = ''Moved Permanently''"
| "reason Moved_temporarily = ''Moved Temporarily''"
| "reason Not_modified = ''Not Modified''"
| "reason Bad_request = ''Bad Request''"
| "reason Unauthorized = ''Unauthorized''"
| "reason Forbidden = ''Forbidden''"
| "reason Not_found = ''Not Found''"
| "reason Internal_server_error = ''Internal Server Error''"
| "reason Not_implemented = ''Not Implemented''"
| "reason Bad_gateway = ''Bad Gateway''"
| "reason Service_unavailable = ''Service Unavailable''"

section \<open>The reply\<close>

fun header_buffers :: "header list \<Rightarrow> string list" where
  "header_buffers [] = []"
| "header_buffers (h # hs) =
     [h_name h, name_value_separator, h_value h, misc_crlf] @ header_buffers hs"

definition to_buffers :: "reply \<Rightarrow> string list" where
  "to_buffers rep = [status_strings (rep_status rep)] @ header_buffers (rep_headers rep)
     @ [misc_crlf] @ [rep_content rep]"

definition stock_reply :: "(nat \<Rightarrow> string) \<Rightarrow> status_type \<Rightarrow> reply" where
  "stock_reply lexical_cast st =
     (let content = stock_replies st;
          headers = resize 2 empty_header [];
          headers = headers[0 := (headers ! 0)\<lparr>h_name := ''Content-Length''\<rparr>];
          headers = headers[0 := (headers ! 0)\<lparr>h_value := lexical_cast (length content)\<rparr>];
          headers = headers[1 := (headers ! 1)\<lparr>h_name := ''Content-Type''\<rparr>];
          headers = headers[1 := (headers ! 1)\<lparr>h_value := ''text/html''\<rparr>]
      in \<lparr>rep_status = st, rep_headers = headers, rep_content = content\<rparr>)"

lemma stock_reply_eq:
  "stock_reply lc st = \<lparr>rep_status = st, rep_headers =
     [\<lparr>h_name = ''Content-Length'', h_value = lc (length (stock_replies st))\<rparr>,
      \<lparr>h_name = ''Content-Type'', h_value = ''text/html''\<rparr>], rep_content = stock_replies st\<rparr>"
  by (simp add: stock_reply_def resize_def numeral_2_eq_2 empty_header_def Let_def)

section \<open>Reading a reply back\<close>

text \<open>
  What a client does with the bytes: the status line up to the first line break, header lines
  up to the first empty line, and the rest is the body.
\<close>

fun split_at :: "string \<Rightarrow> string \<Rightarrow> (string \<times> string) option" where
  "split_at t [] = (if t = [] then Some ([], []) else None)"
| "split_at t (c # cs) =
     (if take (length t) (c # cs) = t then Some ([], drop (length t) (c # cs))
      else map_option (\<lambda>(a, b). (c # a, b)) (split_at t cs))"

lemma split_at_shorter: "split_at t s = Some (a, b) \<Longrightarrow> t \<noteq> [] \<Longrightarrow> length b < length s"
  by (induction s arbitrary: a) (auto split: if_splits)

lemma split_at_found: "hd t \<notin> set a \<Longrightarrow> t \<noteq> [] \<Longrightarrow> split_at t (a @ t @ b) = Some (a, b)"
proof (induction a)
  case Nil
  then show ?case by (cases t) auto
next
  case (Cons c a)
  have "take (length t) ((c # a) @ t @ b) \<noteq> t"
    using Cons.prems by (cases t) auto
  with Cons show ?case by simp
qed

function read_headers :: "string \<Rightarrow> (header list \<times> string) option" where
  "read_headers s =
     (case split_at misc_crlf s of
        None \<Rightarrow> None
      | Some (line, rest) \<Rightarrow>
          if line = [] then Some ([], rest)
          else (case split_at name_value_separator line of
                  None \<Rightarrow> None
                | Some (n, v) \<Rightarrow>
                    map_option (\<lambda>(hs, b). (\<lparr>h_name = n, h_value = v\<rparr> # hs, b)) (read_headers rest)))"
  by pat_completeness auto
termination
  by (relation "measure length") (auto simp: misc_crlf_def dest: split_at_shorter)

declare read_headers.simps [simp del]

definition read_reply :: "string \<Rightarrow> (string \<times> header list \<times> string) option" where
  "read_reply s =
     (case split_at misc_crlf s of
        None \<Rightarrow> None
      | Some (line, rest) \<Rightarrow> map_option (\<lambda>(hs, b). (line, hs, b)) (read_headers rest))"

definition wire_header :: "header \<Rightarrow> bool" where
  "wire_header h \<longleftrightarrow> h_name h \<noteq> [] \<and> CHR '':'' \<notin> set (h_name h) \<and> CHR 0x0D \<notin> set (h_name h)
     \<and> CHR 0x0D \<notin> set (h_value h)"

lemma read_headers_buffers:
  "list_all wire_header hs \<Longrightarrow>
   read_headers (concat (header_buffers hs) @ misc_crlf @ body) = Some (hs, body)"
proof (induction hs)
  case Nil
  have "split_at misc_crlf ([] @ misc_crlf @ body) = Some ([], body)"
    by (rule split_at_found) (simp_all add: misc_crlf_def)
  then show ?case by (subst read_headers.simps) simp
next
  case (Cons h hs)
  let ?line = "h_name h @ name_value_separator @ h_value h"
  let ?rest = "concat (header_buffers hs) @ misc_crlf @ body"
  have 1: "split_at misc_crlf (?line @ misc_crlf @ ?rest) = Some (?line, ?rest)"
    using Cons.prems
    by (intro split_at_found) (auto simp: misc_crlf_def name_value_separator_def wire_header_def)
  have 2: "split_at name_value_separator ?line = Some (h_name h, h_value h)"
    using Cons.prems
    by (intro split_at_found) (auto simp: name_value_separator_def wire_header_def)
  have "read_headers ?rest = Some (hs, body)" using Cons by simp
  then have "read_headers (?line @ misc_crlf @ ?rest) = Some (h # hs, body)"
    using 1 2 by (subst read_headers.simps) (simp add: name_value_separator_def)
  then show ?case by simp
qed

lemma status_line_no_cr: "\<exists>line. status_strings st = line @ misc_crlf \<and> CHR 0x0D \<notin> set line"
  by (cases st) auto

lemma buffers_framed:
  assumes "list_all wire_header (rep_headers rep)"
  shows "\<exists>line. status_strings (rep_status rep) = line @ misc_crlf \<and>
    read_reply (concat (to_buffers rep)) = Some (line, rep_headers rep, rep_content rep)"
proof -
  obtain line where line: "status_strings (rep_status rep) = line @ misc_crlf" "CHR 0x0D \<notin> set line"
    using status_line_no_cr by blast
  let ?rest = "concat (header_buffers (rep_headers rep)) @ misc_crlf @ rep_content rep"
  have "split_at misc_crlf (line @ misc_crlf @ ?rest) = Some (line, ?rest)"
    using line(2) by (intro split_at_found) (simp_all add: misc_crlf_def)
  then show ?thesis
    using line(1) read_headers_buffers [OF assms] by (simp add: read_reply_def to_buffers_def)
qed

section \<open>Properties\<close>

text \<open>
  C24. Framing: the bytes of \<open>reply::to_buffers\<close> can be read back unambiguously. A client that
  splits them at the line breaks gets the status line, exactly the headers of the reply and
  exactly its content, provided the header names and values hold no carriage return and the
  names no colon.
\<close>

theorem read_reply_to_buffers:
  assumes "list_all wire_header (rep_headers rep)"
  shows "\<exists>line. status_strings (rep_status rep) = line @ misc_crlf \<and>
    read_reply (concat (to_buffers rep)) = Some (line, rep_headers rep, rep_content rep)"
  using assms by (rule buffers_framed)

theorem read_reply_to_buffers_witness:
  "\<exists>line. status_strings Not_found = line @ misc_crlf \<and>
     read_reply (concat (to_buffers (stock_reply decimal Not_found)))
       = Some (line, rep_headers (stock_reply decimal Not_found), stock_replies Not_found)"
proof -
  have "list_all wire_header (rep_headers (stock_reply decimal Not_found))" by code_simp
  from read_reply_to_buffers [OF this] show ?thesis by (simp add: stock_reply_eq)
qed

text \<open>
  Every status line is \<open>HTTP/1.0\<close>, the decimal value of the enumerator in \<open>reply.hpp\<close>, a
  space and the reason phrase; the stock body announces the same code and phrase for every
  status but two: the empty body of \<open>ok\<close>, and \<open>no_content\<close>, whose body says \<open>204 Content\<close>.
\<close>

theorem status_line_code:
  "status_strings st = ''HTTP/1.0 '' @ decimal (nat (status_code st)) @ '' '' @ reason st @ misc_crlf
   \<and> (contains (''<h1>'' @ decimal (nat (status_code st)) @ '' '' @ reason st @ ''</h1>'') (stock_replies st)
        \<longleftrightarrow> st \<noteq> Ok \<and> st \<noteq> No_content)"
  by (cases st; hypsubst; code_simp)

end
