(* ===== verification/Http_Handler.thy ===== *)
theory Http_Handler
  imports Cxx_Library Http_Reply
begin

text \<open>
  \<open>mime_types.cpp\<close> and \<open>request_handler.cpp\<close>: the table from file extensions to media types, the
  decoding of the percent encoding, and the handler that turns a request into a reply.

  The file system is a parameter: a function from the path that is opened to the bytes of the
  file, \<open>None\<close> when opening fails. \<open>boost::lexical_cast\<close> is a parameter as in \<open>Http_Reply\<close>.
\<close>

section \<open>Media types\<close>

definition mappings :: "(string \<times> string) list" where
  "mappings =
    [(''gif'', ''image/gif''),
     (''htm'', ''text/html''),
     (''html'', ''text/html''),
     (''jpg'', ''image/jpeg''),
     (''png'', ''image/png'')]"

fun find_mapping :: "string \<Rightarrow> (string \<times> string) list \<Rightarrow> string" where
  "find_mapping extension [] = ''text/plain''"
| "find_mapping extension (m # ms) =
     (if fst m = extension then snd m else find_mapping extension ms)"

definition extension_to_type :: "string \<Rightarrow> string" where
  "extension_to_type extension = find_mapping extension mappings"

section \<open>Percent decoding\<close>

text \<open>The loop of \<open>url_decode\<close> over the characters not read yet and the output so far. The two
  characters after a percent sign go through a string stream.\<close>

fun decode_loop :: "string \<Rightarrow> string \<Rightarrow> bool \<times> string" where
  "decode_loop [] out = (True, out)"
| "decode_loop (c # cs) out =
     (if c = CHR ''%'' then
        (case cs of
           a # b # rest \<Rightarrow>
             (case istream_hex [a, b] of
                Some value \<Rightarrow> decode_loop rest (out @ [to_char value])
              | None \<Rightarrow> (False, out))
         | _ \<Rightarrow> (False, out))
      else if c = CHR ''+'' then decode_loop cs (out @ '' '')
      else decode_loop cs (out @ [c]))"

definition url_decode :: "string \<Rightarrow> bool \<times> string" where
  "url_decode inp = decode_loop inp []"

section \<open>The handler\<close>

text \<open>The loop that reads the file in blocks of 512 bytes until a read extracts nothing.\<close>

function read_blocks :: "string \<Rightarrow> string \<Rightarrow> string" where
  "read_blocks content is =
     (let buf = take 512 is
      in if length buf > 0 then read_blocks (content @ buf) (drop 512 is) else content)"
  by pat_completeness auto
termination
  by (relation "measure (\<lambda>(_, is). length is)") auto

declare read_blocks.simps [simp del]

definition file_extension :: "string \<Rightarrow> string" where
  "file_extension request_path =
     (case (find_last_of CHR ''/'' request_path, find_last_of CHR ''.'' request_path) of
        (Some last_slash_pos, Some last_dot_pos) \<Rightarrow>
          if last_dot_pos > last_slash_pos then drop (last_dot_pos + 1) request_path else []
      | _ \<Rightarrow> [])"

text \<open>
  \<open>handle_request\<close>. The reply is both argument and result: the branches for errors replace it
  by a stock reply, the last one fills in the fields of the reply it was given.
\<close>

definition handle_request ::
    "(nat \<Rightarrow> string) \<Rightarrow> (string \<Rightarrow> string option) \<Rightarrow> string \<Rightarrow> request \<Rightarrow> reply \<Rightarrow> reply" where
  "handle_request lexical_cast fs doc_root req rep =
     (let (decoded, request_path) = url_decode (req_uri req)
      in if \<not> decoded then stock_reply lexical_cast Bad_request
      else if request_path = [] \<or> hd request_path \<noteq> CHR ''/'' \<or> contains ''..'' request_path
        then stock_reply lexical_cast Bad_request
      else
        (let request_path =
               (if last request_path = CHR ''/'' then request_path @ ''index.html'' else request_path);
             extension = file_extension request_path;
             full_path = doc_root @ request_path
         in case fs (c_str full_path) of
              None \<Rightarrow> stock_reply lexical_cast Not_found
            | Some is \<Rightarrow>
                (let rep = rep\<lparr>rep_status := Ok\<rparr>;
                     rep = rep\<lparr>rep_content := read_blocks (rep_content rep) is\<rparr>;
                     headers = resize 2 empty_header (rep_headers rep);
                     headers = headers[0 := (headers ! 0)\<lparr>h_name := ''Content-Length''\<rparr>];
                     headers = headers[0 := (headers ! 0)\<lparr>h_value := lexical_cast (length (rep_content rep))\<rparr>];
                     headers = headers[1 := (headers ! 1)\<lparr>h_name := ''Content-Type''\<rparr>];
                     headers = headers[1 := (headers ! 1)\<lparr>h_value := extension_to_type extension\<rparr>]
                 in rep\<lparr>rep_headers := headers\<rparr>)))"

section \<open>Lemmas on the parts\<close>

lemma read_blocks_append: "read_blocks content is = content @ is"
proof (induction content "is" rule: read_blocks.induct)
  case (1 content "is")
  show ?case
  proof (cases "is = []")
    case True
    then show ?thesis by (subst read_blocks.simps) simp
  next
    case False
    then have "read_blocks content is = read_blocks (content @ take 512 is) (drop 512 is)"
      by (subst read_blocks.simps) (simp add: Let_def)
    also have "\<dots> = content @ is" using 1 [OF refl] False by simp
    finally show ?thesis .
  qed
qed

lemma decode_loop_append: "decode_loop s (u @ v) = map_prod id ((@) u) (decode_loop s v)"
proof (induction s v rule: decode_loop.induct)
  case (2 c cs out)
  then show ?case
    by (cases cs rule: remdups_adj.cases) (simp_all split: option.split)
qed simp

lemma fill_headers:
  "(resize 2 empty_header hs)
     [0 := (resize 2 empty_header hs ! 0)\<lparr>h_name := a, h_value := b\<rparr>,
      1 := (resize 2 empty_header hs ! 1)\<lparr>h_name := c, h_value := d\<rparr>]
   = [\<lparr>h_name = a, h_value = b\<rparr>, \<lparr>h_name = c, h_value = d\<rparr>]"
proof -
  have "length (resize 2 empty_header hs) = Suc (Suc 0)" by simp
  then obtain x y where "resize 2 empty_header hs = [x, y]"
    by (metis length_0_conv length_Suc_conv)
  then show ?thesis by simp
qed


section \<open>Percent encoding\<close>

text \<open>
  The encoder a client uses, as a specification: \<open>plain\<close> chooses the characters sent as they
  are (never a percent sign or a plus), every other byte becomes two upper-case digits.
\<close>

definition hex_char :: "nat \<Rightarrow> char" where
  "hex_char d = (if d < 10 then char_of (48 + d) else char_of (55 + d))"

definition escape :: "char \<Rightarrow> string" where
  "escape c = [CHR ''%'', hex_char (of_char c div 16), hex_char (of_char c mod 16)]"

definition url_encode :: "(char \<Rightarrow> bool) \<Rightarrow> string \<Rightarrow> string" where
  "url_encode plain s =
     concat (List.map (\<lambda>c. if plain c \<and> c \<noteq> CHR ''%'' \<and> c \<noteq> CHR ''+'' then [c] else escape c) s)"

lemma hex_char_facts:
  assumes "d < 16"
  shows "hex_digit (hex_char d) = Some d \<and> \<not> isspace (hex_char d)
    \<and> hex_char d \<notin> {CHR ''-'', CHR ''+'', CHR ''x'', CHR ''X''}"
proof -
  have "list_all (\<lambda>d. hex_digit (hex_char d) = Some d \<and> \<not> isspace (hex_char d)
    \<and> hex_char d \<notin> {CHR ''-'', CHR ''+'', CHR ''x'', CHR ''X''}) [0..<16]"
    by code_simp
  with assms show ?thesis by (simp only: list_all_iff atLeastLessThan_upt [symmetric]) simp
qed

lemma istream_hex_pair:
  assumes "i < 16" "j < 16"
  shows "istream_hex [hex_char i, hex_char j] = Some (16 * int i + int j)"
proof -
  have "skip_0x [hex_char i, hex_char j] = [hex_char i, hex_char j]"
    using hex_char_facts [OF assms(2)] by simp
  then show ?thesis
    using hex_char_facts [OF assms(1)] hex_char_facts [OF assms(2)] assms
    by (simp add: istream_hex_def List.map_filter_def)
qed

lemma to_char_of_char [simp]: "to_char (16 * int (of_char c div 16) + int (of_char c mod 16)) = c"
proof -
  have "16 * int (of_char c div 16) + int (of_char c mod 16) = int (of_char c)"
    by (metis of_nat_add of_nat_mult of_nat_numeral mult_div_mod_eq)
  moreover have "int (of_char c) mod 256 = int (of_char c)" by simp
  ultimately show ?thesis by (simp add: to_char_def)
qed

lemma decode_escape: "decode_loop (escape c @ s) out = decode_loop s (out @ [c])"
proof -
  have "(of_char c :: nat) < 256" by (metis of_char_mod_256 mod_less_divisor zero_less_numeral)
  then have "(of_char c :: nat) div 16 < 16" by (intro less_mult_imp_div_less) linarith
  then have "istream_hex [hex_char (of_char c div 16), hex_char (of_char c mod 16)]
      = Some (16 * int (of_char c div 16) + int (of_char c mod 16))"
    by (intro istream_hex_pair) auto
  then show ?thesis by (simp add: escape_def)
qed

lemma decode_encode: "decode_loop (url_encode plain s) out = (True, out @ s)"
  by (induction s arbitrary: out) (auto simp: url_encode_def decode_escape)

lemma url_decode_encode [simp]: "url_decode (url_encode plain s) = (True, s)"
  by (simp add: url_decode_def decode_encode)


section \<open>Paths that stay under the document root\<close>

definition safe_path :: "string \<Rightarrow> bool" where
  "safe_path q \<longleftrightarrow> q \<noteq> [] \<and> hd q = CHR ''/'' \<and> \<not> contains ''..'' q"

text \<open>The path the handler opens for a decoded request path.\<close>

definition opened_path :: "string \<Rightarrow> string" where
  "opened_path q = (if last q = CHR ''/'' then q @ ''index.html'' else q)"

lemma contains_dots: "contains ''..'' s \<longleftrightarrow> (\<exists>i. Suc i < length s \<and> s ! i = CHR ''.'' \<and> s ! Suc i = CHR ''.'')"
proof
  assume "contains ''..'' s"
  then obtain xs ys where "s = xs @ ''..'' @ ys" by (auto simp: contains_iff)
  then have "Suc (length xs) < length s \<and> s ! length xs = CHR ''.'' \<and> s ! Suc (length xs) = CHR ''.''"
    by (simp add: nth_append)
  then show "\<exists>i. Suc i < length s \<and> s ! i = CHR ''.'' \<and> s ! Suc i = CHR ''.''" by blast
next
  assume "\<exists>i. Suc i < length s \<and> s ! i = CHR ''.'' \<and> s ! Suc i = CHR ''.''"
  then obtain i where i: "Suc i < length s" "s ! i = CHR ''.''" "s ! Suc i = CHR ''.''" by blast
  then have "s = take i s @ ''..'' @ drop (Suc (Suc i)) s"
    by (metis Cons_nth_drop_Suc Suc_lessD append_Cons append_Nil append_take_drop_id)
  then show "contains ''..'' s" by (auto simp: contains_iff)
qed

lemma opened_path_safe:
  assumes "safe_path q"
  shows "safe_path (opened_path q)"
proof (cases "last q = CHR ''/''")
  case True
  have "\<not> contains ''..'' (q @ ''index.html'')"
  proof
    assume "contains ''..'' (q @ ''index.html'')"
    then obtain i where i: "Suc i < length (q @ ''index.html'')" "(q @ ''index.html'') ! i = CHR ''.''"
        "(q @ ''index.html'') ! Suc i = CHR ''.''"
      unfolding contains_dots by blast
    consider "Suc i < length q" | "Suc i = length q" | "length q \<le> i" by linarith
    then show False
    proof cases
      case 1
      with i assms show False by (auto simp: safe_path_def contains_dots nth_append)
    next
      case 2
      with i(2) True show False
        by (cases q rule: rev_cases) (auto simp: nth_append)
    next
      case 3
      then obtain j where j: "i = length q + j" by (metis le_iff_add)
      have "list_all (\<lambda>j. \<not> (''index.html'' ! j = CHR ''.'' \<and> ''index.html'' ! Suc j = CHR ''.'')) [0..<9]"
        by code_simp
      moreover have "j < 9" using i(1) j by simp
      ultimately show False
        using i(2,3) by (simp add: j nth_append list_all_iff)
    qed
  qed
  with assms True show ?thesis by (simp add: safe_path_def opened_path_def)
next
  case False
  with assms show ?thesis by (simp add: opened_path_def)
qed

lemma decimal_no_cr: "CHR 0x0D \<notin> set (decimal n)"
  using isdigit_decimal [of n] by (auto simp: list_all_iff isdigit_def promote_def)

lemma extension_to_type_no_cr: "CHR 0x0D \<notin> set (extension_to_type e)"
  by (auto simp: extension_to_type_def mappings_def)

text \<open>The handler, by the outcome of the decoding and of opening the file.\<close>

lemma handle_request_cases:
  "handle_request lc fs doc_root req rep =
     (let (ok, q) = url_decode (req_uri req)
      in if \<not> ok \<or> \<not> safe_path q then stock_reply lc Bad_request
      else case fs (c_str (doc_root @ opened_path q)) of
             None \<Rightarrow> stock_reply lc Not_found
           | Some data \<Rightarrow>
               \<lparr>rep_status = Ok,
                rep_headers =
                  [\<lparr>h_name = ''Content-Length'', h_value = lc (length (rep_content rep @ data))\<rparr>,
                   \<lparr>h_name = ''Content-Type'',
                     h_value = extension_to_type (file_extension (opened_path q))\<rparr>],
                rep_content = rep_content rep @ data\<rparr>)"
proof -
  have two: "length hs = Suc (Suc 0) \<Longrightarrow>
     hs[0 := (hs ! 0)\<lparr>h_name := a, h_value := b\<rparr>, Suc 0 := (hs ! Suc 0)\<lparr>h_name := c, h_value := d\<rparr>]
       = [\<lparr>h_name = a, h_value = b\<rparr>, \<lparr>h_name = c, h_value = d\<rparr>]" for hs :: "header list" and a b c d
    by (auto simp: length_Suc_conv)
  have len: "length (resize 2 empty_header hs) = Suc (Suc 0)" for hs by simp
  show ?thesis
    by (auto simp: handle_request_def safe_path_def opened_path_def read_blocks_append Let_def
        two [OF len] split: prod.split option.split)
qed


section \<open>Which escapes are accepted\<close>

text \<open>
  The two characters after a percent sign are accepted when they are two digits, one digit and
  any character that is not the \<open>x\<close> of a prefix, or one digit after a blank or a sign.
\<close>

definition accepted_pair :: "char \<Rightarrow> char \<Rightarrow> bool" where
  "accepted_pair a b \<longleftrightarrow>
     hex_digit a \<noteq> None \<and> \<not> (a = CHR ''0'' \<and> b \<in> {CHR ''x'', CHR ''X''})
     \<or> (isspace a \<or> a \<in> {CHR ''+'', CHR ''-''}) \<and> hex_digit b \<noteq> None"

fun accepted_escapes :: "string \<Rightarrow> bool" where
  "accepted_escapes [] = True"
| "accepted_escapes (c # cs) =
     (if c = CHR ''%'' then (case cs of a # b # rest \<Rightarrow> accepted_pair a b \<and> accepted_escapes rest | _ \<Rightarrow> False)
      else accepted_escapes cs)"

lemma hex_digit_plain:
  "hex_digit c \<noteq> None \<Longrightarrow> \<not> isspace c \<and> c \<noteq> CHR ''-'' \<and> c \<noteq> CHR ''+''"
  by (auto simp: hex_digit_def isspace_def promote_def split: if_splits)

lemma hex_digit_less: "hex_digit c = Some d \<Longrightarrow> d < 16"
  by (auto simp: hex_digit_def split: if_splits)

lemma istream_hex_one: "istream_hex [b] \<noteq> None \<longleftrightarrow> hex_digit b \<noteq> None"
  using hex_digit_plain [of b] hex_digit_less [of b]
  by (cases "hex_digit b") (auto simp: istream_hex_def List.map_filter_def)

lemma istream_hex_sign:
  assumes "a \<in> {CHR ''+'', CHR ''-''}"
  shows "istream_hex [a, b] \<noteq> None \<longleftrightarrow> hex_digit b \<noteq> None"
proof -
  have "\<not> isspace CHR ''+''" "\<not> isspace CHR ''-''" by code_simp+
  then show ?thesis
    using assms hex_digit_less [of b]
    by (cases "hex_digit b") (auto simp: istream_hex_def List.map_filter_def simp del: option.simps(4))
qed

lemma istream_hex_digit:
  assumes "hex_digit a = Some d"
  shows "istream_hex [a, b] \<noteq> None \<longleftrightarrow> \<not> (a = CHR ''0'' \<and> b \<in> {CHR ''x'', CHR ''X''})"
  using assms hex_digit_plain [of a] hex_digit_less [of a] hex_digit_less [of b]
  by (cases "hex_digit b") (auto simp: istream_hex_def List.map_filter_def)

lemma istream_hex_accepted: "istream_hex [a, b] \<noteq> None \<longleftrightarrow> accepted_pair a b"
proof -
  consider (space) "isspace a" | (sign) "a \<in> {CHR ''+'', CHR ''-''}" | (digit) d where "hex_digit a = Some d"
    | (other) "\<not> isspace a" "a \<notin> {CHR ''+'', CHR ''-''}" "hex_digit a = None" by blast
  then show ?thesis
  proof cases
    case space
    then have "istream_hex [a, b] = istream_hex [b]" by (simp add: istream_hex_def)
    moreover have "hex_digit a = None" using space hex_digit_plain [of a] by blast
    ultimately show ?thesis using space istream_hex_one [of b] by (simp add: accepted_pair_def)
  next
    case sign
    have "hex_digit a = None" using sign hex_digit_plain [of a] by blast
    then show ?thesis
      using sign istream_hex_sign [OF sign, of b] unfolding accepted_pair_def by blast
  next
    case digit
    have "\<not> isspace a \<and> a \<notin> {CHR ''+'', CHR ''-''}" using digit hex_digit_plain [of a] by simp
    with digit show ?thesis
      unfolding istream_hex_digit [OF digit, of b] accepted_pair_def by blast
  next
    case other
    then have "a \<noteq> CHR ''0''" by (auto simp: hex_digit_def)
    with other have "istream_hex [a, b] = None"
      by (simp add: istream_hex_def List.map_filter_def)
    with other show ?thesis by (simp add: accepted_pair_def)
  qed
qed

lemma decode_loop_accepts: "fst (decode_loop s out) \<longleftrightarrow> accepted_escapes s"
proof (induction s out rule: decode_loop.induct)
  case (2 c cs out)
  show ?case
  proof (cases "c = CHR ''%''")
    case True
    show ?thesis
    proof (cases cs rule: remdups_adj.cases)
      case (3 a b rest)
      show ?thesis
      proof (cases "istream_hex [a, b]")
        case None
        then have "\<not> accepted_pair a b" using istream_hex_accepted [of a b] by blast
        with None True 3 show ?thesis by simp
      next
        case (Some v)
        then have "accepted_pair a b" using istream_hex_accepted [of a b] by blast
        moreover have "fst (decode_loop rest (out @ [to_char v])) = accepted_escapes rest"
          using "2.IH"(1) [OF True 3 refl Some] .
        ultimately show ?thesis using True 3 Some by simp
      qed
    qed (simp_all add: True)
  next
    case False
    with 2 show ?thesis by simp
  qed
qed simp

section \<open>Properties\<close>

text \<open>
  Round trip: \<open>url_decode\<close> undoes percent encoding for every byte string, whichever characters
  the client leaves unescaped.
\<close>

theorem url_decode_url_encode: "url_decode (url_encode plain s) = (True, s)"
  by (rule url_decode_encode)

text \<open>
  The URLs \<open>url_decode\<close> accepts, exactly. The stream extraction takes one digit after a blank
  or a sign, and a digit followed by any character, where the encoding asks for two digits.
\<close>

theorem url_decode_accepts: "fst (url_decode s) \<longleftrightarrow> accepted_escapes s"
  by (simp add: url_decode_def decode_loop_accepts)

text \<open>
  C10. Confinement: the reply depends only on files below the document root, at paths that start
  with a slash and hold no \<open>..\<close>. Two file systems that agree there give the same reply to every
  request.
\<close>

theorem handle_request_confined:
  assumes "\<And>q. q \<noteq> [] \<Longrightarrow> hd q = CHR ''/'' \<Longrightarrow> \<not> contains ''..'' q
    \<Longrightarrow> fs (c_str (doc_root @ q)) = fs' (c_str (doc_root @ q))"
  shows "handle_request lc fs doc_root req rep = handle_request lc fs' doc_root req rep"
proof -
  have "fs (c_str (doc_root @ opened_path q)) = fs' (c_str (doc_root @ opened_path q))" if "safe_path q" for q
    using assms opened_path_safe [OF that] by (simp add: safe_path_def)
  then show ?thesis by (auto simp: handle_request_cases split: prod.split option.split)
qed

theorem handle_request_confined_witness:
  "\<forall>req rep. handle_request decimal (\<lambda>p. if p = ''/etc/passwd'' then Some ''root'' else None) ''/www'' req rep
     = handle_request decimal (\<lambda>p. None) ''/www'' req rep"
  by (intro allI handle_request_confined) (auto simp: c_str_def)

text \<open>
  Serving a file: for a request whose URL encodes an absolute path without \<open>..\<close>, naming a
  file the server can open, a fresh reply becomes \<open>200\<close> with the bytes of the file, their number
  as \<open>Content-Length\<close>, and the media type of the extension; a path that ends in a slash names
  the \<open>index.html\<close> of the directory.
\<close>

theorem handle_request_serves:
  assumes "q \<noteq> []" "hd q = CHR ''/''" "\<not> contains ''..'' q"
    and "req_uri req = url_encode plain q"
    and "fs (c_str (doc_root @ (if last q = CHR ''/'' then q @ ''index.html'' else q))) = Some data"
    and "rep_content rep = []"
  shows "handle_request lc fs doc_root req rep =
    \<lparr>rep_status = Ok,
     rep_headers =
       [\<lparr>h_name = ''Content-Length'', h_value = lc (length data)\<rparr>,
        \<lparr>h_name = ''Content-Type'',
          h_value = (if last q = CHR ''/'' then ''text/html''
                     else extension_to_type (file_extension q))\<rparr>],
     rep_content = data\<rparr>"
proof -
  have q: "safe_path q" using assms(1-3) by (simp add: safe_path_def)
  have index: "file_extension (p @ ''/index.html'') = ''html''" for p
    by (simp add: file_extension_def find_last_of_append)
  have "extension_to_type (file_extension (opened_path q)) =
      (if last q = CHR ''/'' then ''text/html'' else extension_to_type (file_extension q))"
    using assms(1) index [of "butlast q"]
    by (cases q rule: rev_cases) (auto simp: opened_path_def extension_to_type_def mappings_def)
  then show ?thesis
    using assms(4-6) q by (simp add: handle_request_cases opened_path_def)
qed


theorem handle_request_serves_witness:
  "handle_request decimal (\<lambda>p. if p = ''/www/a b.html'' then Some ''hello'' else None) ''/www''
     \<lparr>req_method = ''GET'', req_uri = ''/a%20b.html'', req_http_version_major = 1,
      req_http_version_minor = 0, req_headers = []\<rparr>
     \<lparr>rep_status = Bad_gateway, rep_headers = [], rep_content = []\<rparr>
   = \<lparr>rep_status = Ok,
      rep_headers =
        [\<lparr>h_name = ''Content-Length'', h_value = decimal 5\<rparr>,
         \<lparr>h_name = ''Content-Type'', h_value = ''text/html''\<rparr>],
      rep_content = ''hello''\<rparr>"
proof -
  have 1: "url_encode (\<lambda>c. c \<noteq> CHR '' '') ''/a b.html'' = ''/a%20b.html''" by code_simp
  have 2: "\<not> contains ''..'' ''/a b.html''" by code_simp
  have 3: "extension_to_type (file_extension ''/a b.html'') = ''text/html''" by code_simp
  show ?thesis
    using handle_request_serves [where q = "''/a b.html''" and plain = "\<lambda>c. c \<noteq> CHR '' ''"
        and lc = decimal and doc_root = "''/www''" and data = "''hello''"] 1 2 3
    by (simp add: c_str_def eval_nat_numeral)
qed

text \<open>
  An escaped NUL separates the file that is opened from the type that is announced: the path
  is cut at the NUL when it reaches the stream, the extension is taken from the whole string.
  Any file named by \<open>q\<close> is sent with the media type of any extension the client appends.
\<close>

theorem handle_request_nul:
  assumes "safe_path (q @ CHR 0x00 # ''.'' @ ext)" "CHR 0x00 \<notin> set (doc_root @ q)"
    and "CHR ''/'' \<notin> set ext" "CHR ''.'' \<notin> set ext"
    and "req_uri req = url_encode plain (q @ CHR 0x00 # ''.'' @ ext)"
    and "fs (doc_root @ q) = Some data"
  shows "let r = handle_request lc fs doc_root req rep
    in rep_status r = Ok \<and> rep_content r = rep_content rep @ data
       \<and> \<lparr>h_name = ''Content-Type'', h_value = extension_to_type ext\<rparr> \<in> set (rep_headers r)"
proof -
  let ?q = "q @ CHR 0x00 # ''.'' @ ext"
  have last: "last ?q \<noteq> CHR ''/''" using assms(3) by (cases ext rule: rev_cases) auto
  have opened: "c_str (doc_root @ opened_path ?q) = doc_root @ q"
    using last c_str_append [OF assms(2)] by (simp add: opened_path_def) (simp add: c_str_def)
  have "hd ?q = CHR ''/''" using assms(1) by (simp add: safe_path_def)
  then obtain q' where "q = CHR ''/'' # q'" by (cases q) auto
  then have "find_last_of CHR ''/'' q \<noteq> None" unfolding find_last_of_None by simp
  then obtain i where i: "find_last_of CHR ''/'' q = Some i" by blast
  have none: "find_last_of CHR ''/'' ext = None" "find_last_of CHR ''.'' ext = None"
    using assms(3,4) by (simp_all add: find_last_of_None)
  have "file_extension (opened_path ?q) = ext"
    using last none i find_last_of_Some [OF i]
    by (simp add: file_extension_def opened_path_def find_last_of_append)
  then show ?thesis
    using assms(1,5,6) opened by (simp add: handle_request_cases Let_def)
qed

theorem handle_request_nul_witness:
  "rep_status (handle_request decimal (\<lambda>p. if p = ''/www/notes.txt'' then Some ''<b>'' else None) ''/www''
      \<lparr>req_method = ''GET'', req_uri = ''/notes.txt%00.html'', req_http_version_major = 1,
       req_http_version_minor = 0, req_headers = []\<rparr> \<lparr>rep_status = Ok, rep_headers = [], rep_content = []\<rparr>) = Ok"
proof -
  have 1: "url_encode (\<lambda>c. c \<noteq> CHR 0x00) (''/notes.txt'' @ CHR 0x00 # ''.'' @ ''html'') = ''/notes.txt%00.html''"
    by code_simp
  have 2: "safe_path (''/notes.txt'' @ CHR 0x00 # ''.'' @ ''html'')" by code_simp
  show ?thesis
    using handle_request_nul [OF 2, where doc_root = "''/www''" and plain = "\<lambda>c. c \<noteq> CHR 0x00"
        and data = "''<b>''"] 1
    by (simp add: Let_def)
qed

text \<open>
  Every reply of the handler is framed: whatever the request and the file system, a client
  that reads the bytes of \<open>to_buffers\<close> gets the headers and the content back, and the first
  header announces the length of that content.
\<close>

theorem handle_request_framed:
  assumes "\<And>n. lc n = decimal n" and "rep_content rep = []"
  shows "let r = handle_request lc fs doc_root req rep
    in \<exists>line. status_strings (rep_status r) = line @ misc_crlf
      \<and> read_reply (concat (to_buffers r)) = Some (line, rep_headers r, rep_content r)
      \<and> hd (rep_headers r) = \<lparr>h_name = ''Content-Length'', h_value = decimal (length (rep_content r))\<rparr>"
proof -
  let ?r = "handle_request lc fs doc_root req rep"
  have stock: "list_all wire_header (rep_headers (stock_reply lc st))
      \<and> hd (rep_headers (stock_reply lc st)) =
        \<lparr>h_name = ''Content-Length'', h_value = decimal (length (rep_content (stock_reply lc st)))\<rparr>" for st
    by (simp add: stock_reply_eq wire_header_def assms(1) decimal_no_cr)
  have "list_all wire_header (rep_headers ?r)
      \<and> hd (rep_headers ?r) = \<lparr>h_name = ''Content-Length'', h_value = decimal (length (rep_content ?r))\<rparr>"
    using stock unfolding handle_request_cases
    by (auto simp: wire_header_def decimal_no_cr extension_to_type_no_cr assms(1,2) split: prod.split option.split)
  then show ?thesis using buffers_framed [of ?r] unfolding Let_def by blast
qed


theorem handle_request_framed_witness:
  "\<exists>line. status_strings Not_found = line @ misc_crlf
    \<and> read_reply (concat (to_buffers (stock_reply decimal Not_found)))
       = Some (line, rep_headers (stock_reply decimal Not_found), stock_replies Not_found)
    \<and> hd (rep_headers (stock_reply decimal Not_found))
       = \<lparr>h_name = ''Content-Length'', h_value = decimal (length (stock_replies Not_found))\<rparr>"
proof -
  let ?req = "\<lparr>req_method = ''GET'', req_uri = ''/x'', req_http_version_major = 1,
       req_http_version_minor = 0, req_headers = []\<rparr>"
  let ?rep = "\<lparr>rep_status = Ok, rep_headers = [], rep_content = []\<rparr>"
  have "handle_request decimal (\<lambda>_. None) ''/www'' ?req ?rep = stock_reply decimal Not_found"
    by (simp add: handle_request_cases url_decode_def safe_path_def Let_def)
  then show ?thesis
    using handle_request_framed [of decimal ?rep "\<lambda>_. None" "''/www''" ?req] by (simp add: stock_reply_eq Let_def)
qed

end
