(* ===== verification/Asio_Net.thy ===== *)
theory Asio_Net
  imports Http_Requests Http_Handler
begin

text \<open>
  What the HTTP servers use of Boost.Asio, and the contract between a server and its
  connections. Asio itself is not under \<open>src/\<close>; what matters of it is which asynchronous
  operations are outstanding. An outstanding operation may complete at any time and in any
  order; its completion runs its handler, which may start further operations. Sockets are open
  or closed, and closing one makes its outstanding operation complete with
  \<open>operation_aborted\<close> or, when it had finished before, with its own result.
\<close>

section \<open>Connections and outstanding operations\<close>

text \<open>The data members of \<open>connection\<close> (\<open>connection.hpp\<close>). The 8192-byte buffer holds nothing
  between two handlers; its content is an argument of \<open>handle_read\<close>.\<close>

record connection =
  socket_open :: bool
  socket_shutdown :: bool
  con_request :: request
  con_parser :: state
  con_reply :: reply

text \<open>The operations the servers start, with the number of the connection they act on; a write
  carries the bytes of its buffers.\<close>

datatype async_op = Accept nat | Signal_wait | Read_some nat | Async_write nat string

text \<open>The connection objects by number, the number of the next object, and the operations that
  are outstanding.\<close>

record net =
  net_conns :: "nat \<Rightarrow> connection"
  net_fresh :: nat
  net_pending :: "async_op list"

text \<open>The part of the host the handlers use: \<open>boost::lexical_cast\<close>, the file system, and the
  document root kept by the request handler.\<close>

record host =
  host_lexical_cast :: "nat \<Rightarrow> string"
  host_files :: "string \<Rightarrow> string option"
  host_doc_root :: string

definition async_start :: "async_op \<Rightarrow> 'a net_scheme \<Rightarrow> 'a net_scheme" where
  "async_start op s = s\<lparr>net_pending := net_pending s @ [op]\<rparr>"

definition update_con :: "nat \<Rightarrow> (connection \<Rightarrow> connection) \<Rightarrow> 'a net_scheme \<Rightarrow> 'a net_scheme" where
  "update_con i f s = s\<lparr>net_conns := (net_conns s)(i := f (net_conns s i))\<rparr>"

text \<open>A new connection: members without an initialiser hold whatever the memory held, here the
  version numbers of the request and the status of the reply.\<close>

type_synonym uninit = "int \<times> int \<times> status_type"

definition fresh_connection :: "uninit \<Rightarrow> connection" where
  "fresh_connection u = (case u of (i, j, st) \<Rightarrow>
     \<lparr>socket_open = False, socket_shutdown = False, con_request = fresh_request i j,
      con_parser = request_parser,
      con_reply = \<lparr>rep_status = st, rep_headers = [], rep_content = []\<rparr>\<rparr>)"

text \<open>Asio's part of an accept: on success the peer's socket is open.\<close>

definition accepted :: "nat \<Rightarrow> error_code \<Rightarrow> 'a net_scheme \<Rightarrow> 'a net_scheme" where
  "accepted i e s = (if e = No_error then update_con i (\<lambda>c. c\<lparr>socket_open := True\<rparr>) s else s)"

lemma net_simps [simp]:
  "net_pending (async_start op s) = net_pending s @ [op]"
  "net_conns (async_start op s) = net_conns s"
  "net_fresh (async_start op s) = net_fresh s"
  "net_pending (update_con i f s) = net_pending s"
  "net_fresh (update_con i f s) = net_fresh s"
  "net_conns (update_con i f s) = (net_conns s)(i := f (net_conns s i))"
  "net_pending (accepted i e s) = net_pending s"
  "net_fresh (accepted i e s) = net_fresh s"
  "async_start op (s\<lparr>net_pending := ps\<rparr>) = s\<lparr>net_pending := ps @ [op]\<rparr>"
  by (simp_all add: async_start_def update_con_def accepted_def)

section \<open>Operations per connection\<close>

fun on_conn :: "nat \<Rightarrow> async_op \<Rightarrow> bool" where
  "on_conn i (Read_some j) = (i = j)"
| "on_conn i (Async_write j bs) = (i = j)"
| "on_conn i op = False"

fun is_accept :: "async_op \<Rightarrow> bool" where
  "is_accept (Accept i) = True"
| "is_accept op = False"

definition ops_on :: "nat \<Rightarrow> async_op list \<Rightarrow> nat" where
  "ops_on i ops = length (filter (on_conn i) ops)"

lemma ops_on_simps [simp]:
  "ops_on i [] = 0"
  "ops_on i (op # ops) = (if on_conn i op then 1 else 0) + ops_on i ops"
  "ops_on i (xs @ ys) = ops_on i xs + ops_on i ys"
  by (simp_all add: ops_on_def)

lemma singleton_middle: "xs @ x # ys = [y] \<Longrightarrow> xs = [] \<and> x = y \<and> ys = []"
  by (cases xs) auto

lemma ops_on_none: "\<forall>op\<in>set ops. \<not> on_conn i op \<Longrightarrow> ops_on i ops = 0"
  by (simp add: ops_on_def)

text \<open>
  The contract of a connection, as its server uses it: \<open>start\<close> begins one read, a completed
  read is followed by at most one operation on the same connection, a completed write by none.
  The servers and connections are values of one state type, of which only the outstanding
  operations matter here.
\<close>

locale connection_contract =
  fixes pending :: "'s \<Rightarrow> async_op list"
    and start :: "nat \<Rightarrow> 's \<Rightarrow> 's"
    and on_read :: "host \<Rightarrow> nat \<Rightarrow> error_code \<Rightarrow> string \<Rightarrow> 's \<Rightarrow> 's"
    and on_write :: "nat \<Rightarrow> error_code \<Rightarrow> 's \<Rightarrow> 's"
  assumes start_law: "pending (start i s) = pending s @ [Read_some i]"
    and read_law: "\<exists>ops. pending (on_read h i e d s) = pending s @ ops
      \<and> (ops = [] \<or> (\<exists>op. ops = [op] \<and> on_conn i op))"
    and write_law: "pending (on_write i e s) = pending s"
begin

definition exclusive :: "'s \<Rightarrow> bool" where
  "exclusive s \<longleftrightarrow> (\<forall>i. ops_on i (pending s) \<le> 1)"

lemma exclusive_start:
  "exclusive s \<Longrightarrow> ops_on i (pending s) = 0 \<Longrightarrow> exclusive (start i s)"
  by (simp add: exclusive_def start_law)

lemma ops_read_other: "j \<noteq> i \<Longrightarrow> ops_on j (pending (on_read h i e d s)) = ops_on j (pending s)"
proof -
  assume "j \<noteq> i"
  moreover have "\<not> (on_conn i op \<and> on_conn j op)" if "j \<noteq> i" for op
    using that by (cases op) auto
  moreover obtain ops where "pending (on_read h i e d s) = pending s @ ops"
      "ops = [] \<or> (\<exists>op. ops = [op] \<and> on_conn i op)"
    using read_law by blast
  ultimately show ?thesis by auto
qed

lemma ops_read_same:
  "ops_on i (pending s) \<le> ops_on i (pending (on_read h i e d s))"
  "ops_on i (pending (on_read h i e d s)) \<le> ops_on i (pending s) + 1"
  using read_law [where h = h and i = i and e = e and d = d and s = s] by auto

lemma exclusive_read:
  assumes "exclusive s" and "pending s = xs @ Read_some i # ys" and "pending t = xs @ ys"
  shows "exclusive (on_read h i e d t)"
  unfolding exclusive_def
proof
  fix j
  have s: "ops_on j (pending s) \<le> 1" using assms(1) by (simp add: exclusive_def)
  show "ops_on j (pending (on_read h i e d t)) \<le> 1"
  proof (cases "j = i")
    case True
    then show ?thesis using s ops_read_same(2) [where h = h and i = i and e = e and d = d and s = t] by (simp add: assms(2,3))
  next
    case False
    then show ?thesis using s by (simp add: ops_read_other assms(2,3))
  qed
qed

lemma exclusive_write:
  assumes "exclusive s" and "pending s = xs @ Async_write i bs # ys" and "pending t = xs @ ys"
  shows "exclusive (on_write i e t)"
  unfolding exclusive_def write_law
proof
  fix j
  have "ops_on j (pending s) \<le> 1" using assms(1) by (simp add: exclusive_def)
  then show "ops_on j (pending t) \<le> 1" by (simp add: assms(2,3) split: if_splits)
qed

text \<open>The connections from number \<open>f\<close> on have not been started.\<close>

definition idle_from :: "nat \<Rightarrow> 's \<Rightarrow> bool" where
  "idle_from f s \<longleftrightarrow> (\<forall>i\<ge>f. ops_on i (pending s) = 0)"

definition orderly :: "nat \<Rightarrow> 's \<Rightarrow> bool" where
  "orderly f s \<longleftrightarrow> exclusive s \<and> idle_from f s"

lemma orderly_start: "orderly f s \<Longrightarrow> orderly (Suc f) (start f s)"
  by (auto simp: orderly_def exclusive_def idle_from_def start_law)

lemma orderly_read:
  assumes o: "orderly f s" and s: "pending s = xs @ Read_some i # ys" and t: "pending t = xs @ ys"
  shows "orderly f (on_read h i e d t)"
proof -
  have "exclusive (on_read h i e d t)"
    using o exclusive_read [OF _ s t] by (simp add: orderly_def)
  moreover have "i < f"
  proof (rule ccontr)
    assume "\<not> i < f"
    then have "ops_on i (pending s) = 0" using o by (simp add: orderly_def idle_from_def)
    then show False by (simp add: s)
  qed
  moreover have "ops_on j (pending (on_read h i e d t)) = 0" if "f \<le> j" for j
    using o that \<open>i < f\<close> ops_read_other [where j = j and i = i and h = h and e = e and d = d and s = t]
    by (simp add: orderly_def idle_from_def s t)
  ultimately show ?thesis by (simp add: orderly_def idle_from_def)
qed

lemma orderly_write:
  assumes o: "orderly f s" and s: "pending s = xs @ Async_write i bs # ys" and t: "pending t = xs @ ys"
  shows "orderly f (on_write i e t)"
proof -
  have "exclusive (on_write i e t)"
    using o exclusive_write [OF _ s t] by (simp add: orderly_def)
  moreover have "ops_on j (pending t) = 0" if "f \<le> j" for j
    using o that by (simp add: orderly_def idle_from_def s t)
  ultimately show ?thesis by (simp add: orderly_def idle_from_def write_law)
qed

lemma orderly_same: "orderly f s \<Longrightarrow> (\<And>i. ops_on i (pending t) = ops_on i (pending s)) \<Longrightarrow> orderly f t"
  by (simp add: orderly_def exclusive_def idle_from_def)

lemma accepts_read:
  "filter is_accept (pending (on_read h i e d s)) = filter is_accept (pending s)"
proof -
  have "on_conn i op \<Longrightarrow> \<not> is_accept op" for op by (cases op) auto
  then show ?thesis using read_law [where h = h and i = i and e = e and d = d and s = s] by auto
qed

end

end
