(* ===== verification/Http_Server.thy ===== *)
theory Http_Server
  imports Asio_Net
begin

text \<open>
  \<open>connection.cpp\<close>, \<open>connection_manager.cpp\<close> and \<open>server.cpp\<close> of \<open>asio-examples/http_server\<close>: one
  thread runs the handlers; the manager keeps the connections that are live so that a signal
  can close them.
\<close>

section \<open>State\<close>

text \<open>\<open>connections_\<close> of the manager, the acceptor, and \<open>new_connection_\<close> of the server.\<close>

record server = net +
  srv_connections :: "nat set"
  srv_acceptor_open :: bool
  srv_new_connection :: nat

section \<open>\<open>connection.cpp\<close> and \<open>connection_manager.cpp\<close>\<close>

definition connection_start :: "nat \<Rightarrow> 'a net_scheme \<Rightarrow> 'a net_scheme" where
  "connection_start i s = async_start (Read_some i) s"

definition connection_stop :: "nat \<Rightarrow> 'a net_scheme \<Rightarrow> 'a net_scheme" where
  "connection_stop i s = update_con i (\<lambda>c. c\<lparr>socket_open := False\<rparr>) s"

definition manager_start :: "nat \<Rightarrow> server \<Rightarrow> server" where
  "manager_start i s = connection_start i (s\<lparr>srv_connections := insert i (srv_connections s)\<rparr>)"

definition manager_stop :: "nat \<Rightarrow> server \<Rightarrow> server" where
  "manager_stop i s = connection_stop i (s\<lparr>srv_connections := srv_connections s - {i}\<rparr>)"

definition manager_stop_all :: "server \<Rightarrow> server" where
  "manager_stop_all s =
     s\<lparr>net_conns := (\<lambda>i. if i \<in> srv_connections s then (net_conns s i)\<lparr>socket_open := False\<rparr>
                        else net_conns s i),
       srv_connections := {}\<rparr>"

definition handle_read :: "host \<Rightarrow> nat \<Rightarrow> error_code \<Rightarrow> string \<Rightarrow> server \<Rightarrow> server" where
  "handle_read h i e data s =
     (if e = No_error then
        (let c = net_conns s i;
             (result, parser, req, ignored) = parse (con_parser c) (con_request c) data;
             s = update_con i (\<lambda>c. c\<lparr>con_parser := parser, con_request := req\<rparr>) s
         in if result = TTrue then
              (let rep = handle_request (host_lexical_cast h) (host_files h) (host_doc_root h) req (con_reply c);
                   s = update_con i (\<lambda>c. c\<lparr>con_reply := rep\<rparr>) s
               in async_start (Async_write i (concat (to_buffers rep))) s)
            else if result = TFalse then
              (let rep = stock_reply (host_lexical_cast h) Bad_request;
                   s = update_con i (\<lambda>c. c\<lparr>con_reply := rep\<rparr>) s
               in async_start (Async_write i (concat (to_buffers rep))) s)
            else async_start (Read_some i) s)
      else if e \<noteq> Operation_aborted then manager_stop i s
      else s)"

definition handle_write :: "nat \<Rightarrow> error_code \<Rightarrow> server \<Rightarrow> server" where
  "handle_write i e s =
     (let s = (if e = No_error then update_con i (\<lambda>c. c\<lparr>socket_shutdown := True\<rparr>) s else s)
      in if e \<noteq> Operation_aborted then manager_stop i s else s)"

section \<open>\<open>server.cpp\<close>\<close>

definition start_accept :: "uninit \<Rightarrow> server \<Rightarrow> server" where
  "start_accept u s =
     (let i = net_fresh s;
          s = s\<lparr>net_conns := (net_conns s)(i := fresh_connection u), net_fresh := Suc i,
                srv_new_connection := i\<rparr>
      in async_start (Accept i) s)"

definition handle_accept :: "uninit \<Rightarrow> error_code \<Rightarrow> server \<Rightarrow> server" where
  "handle_accept u e s =
     (if \<not> srv_acceptor_open s then s
      else start_accept u (if e = No_error then manager_start (srv_new_connection s) s else s))"

definition handle_stop :: "server \<Rightarrow> server" where
  "handle_stop s = manager_stop_all (s\<lparr>srv_acceptor_open := False\<rparr>)"

definition server_new :: "uninit \<Rightarrow> server" where
  "server_new u =
     start_accept u (async_start Signal_wait
       \<lparr>net_conns = (\<lambda>_. fresh_connection u), net_fresh = 0, net_pending = [],
        srv_connections = {}, srv_acceptor_open = True, srv_new_connection = 0\<rparr>)"

text \<open>The handler that the completion of an operation runs.\<close>

fun completion :: "host \<Rightarrow> uninit \<Rightarrow> async_op \<Rightarrow> error_code \<Rightarrow> string \<Rightarrow> server \<Rightarrow> server" where
  "completion h u (Accept i) e data s = handle_accept u e (accepted i e s)"
| "completion h u Signal_wait e data s = handle_stop s"
| "completion h u (Read_some i) e data s = handle_read h i e data s"
| "completion h u (Async_write i bs) e data s = handle_write i e s"

text \<open>
  One handler runs: some outstanding operation completes, with any result that Asio can give:
  a read of at most the 8192 bytes of the buffer, and \<open>operation_aborted\<close> on a socket only when
  it was closed.
\<close>

inductive server_step :: "host \<Rightarrow> server \<Rightarrow> server \<Rightarrow> bool" for h where
  server_step:
    "net_pending s = xs @ op # ys \<Longrightarrow> length data \<le> 8192
     \<Longrightarrow> (\<And>i. on_conn i op \<Longrightarrow> e = Operation_aborted \<Longrightarrow> \<not> socket_open (net_conns s i))
     \<Longrightarrow> server_step h s (completion h u op e data (s\<lparr>net_pending := xs @ ys\<rparr>))"

inductive_cases server_stepE: "server_step h s t"

lemmas server_defs =
  connection_start_def connection_stop_def manager_start_def manager_stop_def manager_stop_all_def
  handle_read_def handle_write_def start_accept_def handle_accept_def handle_stop_def accepted_def

interpretation connection1: connection_contract net_pending connection_start handle_read handle_write
proof
  show "net_pending (connection_start i s) = net_pending s @ [Read_some i]" for i and s :: server
    by (simp add: connection_start_def)
  show "\<exists>ops. net_pending (handle_read h i e d s) = net_pending s @ ops
      \<and> (ops = [] \<or> (\<exists>op. ops = [op] \<and> on_conn i op))" for h i e d s
    by (auto simp: handle_read_def manager_stop_def connection_stop_def Let_def split: prod.split)
  show "net_pending (handle_write i e s) = net_pending s" for i e s
    by (simp add: handle_write_def manager_stop_def connection_stop_def Let_def)
qed

section \<open>Invariant\<close>

text \<open>
  The invariant on the parts of the state it depends on: the outstanding operations, the managed
  connections, which sockets are open, \<open>new_connection_\<close>, the next number, the acceptor.
\<close>

definition conn_inv ::
    "async_op list \<Rightarrow> nat set \<Rightarrow> (nat \<Rightarrow> bool) \<Rightarrow> nat \<Rightarrow> nat \<Rightarrow> bool \<Rightarrow> bool" where
  "conn_inv ops managed opened new fresh listening \<longleftrightarrow>
     (\<forall>i. ops_on i ops \<le> 1)
     \<and> (\<forall>i\<in>managed. ops_on i ops = 1 \<and> opened i)
     \<and> new < fresh
     \<and> (\<forall>i. i = new \<or> fresh \<le> i \<longrightarrow> ops_on i ops = 0)
     \<and> filter is_accept ops \<in> (if listening then {[Accept new]} else {[], [Accept new]})
     \<and> (\<not> listening \<longrightarrow> managed = {})"

definition server_inv :: "server \<Rightarrow> bool" where
  "server_inv s \<longleftrightarrow> conn_inv (net_pending s) (srv_connections s) (\<lambda>i. socket_open (net_conns s i))
     (srv_new_connection s) (net_fresh s) (srv_acceptor_open s)"

lemma conn_inv_op:
  assumes "conn_inv (xs @ op # ys) managed opened new fresh listening" and "on_conn i op"
  shows "i \<noteq> new" "i < fresh" "ops_on i (xs @ ys) = 0"
proof -
  have pos: "0 < ops_on i (xs @ op # ys)" using assms(2) by simp
  have le: "ops_on i (xs @ op # ys) \<le> 1" using assms(1) unfolding conn_inv_def by blast
  show "i \<noteq> new" "i < fresh"
    using assms(1) pos unfolding conn_inv_def by (metis less_irrefl, metis leI less_irrefl)
  show "ops_on i (xs @ ys) = 0" using le assms(2) by simp
qed

lemma on_conn_unique: "on_conn i op \<Longrightarrow> on_conn j op \<longleftrightarrow> j = i"
  by (cases op) auto

lemma on_conn_accept: "on_conn i op \<Longrightarrow> \<not> is_accept op"
  by (cases op) auto

text \<open>An operation of connection \<open>i\<close> completes and is followed by another one of the same
  connection, or by none once the connection is not managed.\<close>

lemma conn_inv_next:
  assumes inv: "conn_inv (xs @ op # ys) managed opened new fresh listening"
    and op: "on_conn i op" and op': "on_conn i op'"
    and opened: "\<And>j. opened' j = opened j"
  shows "conn_inv ((xs @ ys) @ [op']) managed opened' new fresh listening"
proof -
  note i = conn_inv_op [OF inv op]
  have count: "ops_on j ((xs @ ys) @ [op']) = ops_on j (xs @ op # ys)" for j
    using on_conn_unique [OF op, of j] on_conn_unique [OF op', of j] by simp
  have "filter is_accept ((xs @ ys) @ [op']) = filter is_accept (xs @ op # ys)"
    using on_conn_accept [OF op] on_conn_accept [OF op'] by simp
  then show ?thesis
    using inv unfolding conn_inv_def count opened by simp
qed

lemma conn_inv_done:
  assumes inv: "conn_inv (xs @ op # ys) managed opened new fresh listening"
    and op: "on_conn i op" and managed: "managed' \<subseteq> managed - {i}"
    and opened: "\<And>j. j \<noteq> i \<Longrightarrow> opened' j = opened j"
  shows "conn_inv (xs @ ys) managed' opened' new fresh listening"
proof -
  have count: "ops_on j (xs @ ys) = ops_on j (xs @ op # ys)" if "j \<noteq> i" for j
    using on_conn_unique [OF op, of j] that by simp
  have le: "ops_on j (xs @ ys) \<le> ops_on j (xs @ op # ys)" for j by simp
  have acc: "filter is_accept (xs @ ys) = filter is_accept (xs @ op # ys)"
    using on_conn_accept [OF op] by simp
  have "ops_on j (xs @ ys) \<le> 1" for j
    using inv le [of j] unfolding conn_inv_def by (meson le_trans)
  moreover have "ops_on j (xs @ ys) = 1 \<and> opened' j" if "j \<in> managed'" for j
  proof -
    have j: "j \<in> managed" "j \<noteq> i" using that managed by auto
    have "ops_on j (xs @ op # ys) = 1 \<and> opened j"
      using inv j(1) unfolding conn_inv_def by blast
    then show ?thesis using count [OF j(2)] opened [OF j(2)] by simp
  qed
  moreover have "ops_on j (xs @ ys) = 0" if "j = new \<or> fresh \<le> j" for j
    using that inv le [of j] unfolding conn_inv_def by (metis le_zero_eq)
  moreover have "\<not> listening \<longrightarrow> managed' = {}"
    using inv managed unfolding conn_inv_def by auto
  ultimately show ?thesis
    using inv unfolding conn_inv_def acc by blast
qed

text \<open>The result of a completed read, by what the parser found.\<close>

lemma handle_read_ok:
  "\<exists>op f. handle_read h i No_error data s = async_start op (update_con i f s)
     \<and> on_conn i op \<and> (\<forall>c. socket_open (f c) = socket_open c)"
proof -
  obtain r p q n where run: "parse (con_parser (net_conns s i)) (con_request (net_conns s i)) data = (r, p, q, n)"
    by (metis prod_cases4)
  have upd: "update_con i f (update_con i g s) = update_con i (f \<circ> g) s" for f g
    by (simp add: update_con_def)
  show ?thesis
  proof (cases r)
    case TTrue
    let ?rep = "handle_request (host_lexical_cast h) (host_files h) (host_doc_root h) q (con_reply (net_conns s i))"
    show ?thesis
      by (rule exI [of _ "Async_write i (concat (to_buffers ?rep))"],
          rule exI [of _ "\<lambda>c. c\<lparr>con_parser := p, con_request := q, con_reply := ?rep\<rparr>"])
        (simp add: handle_read_def run upd Let_def TTrue comp_def)
  next
    case TFalse
    let ?rep = "stock_reply (host_lexical_cast h) Bad_request"
    show ?thesis
      by (rule exI [of _ "Async_write i (concat (to_buffers ?rep))"],
          rule exI [of _ "\<lambda>c. c\<lparr>con_parser := p, con_request := q, con_reply := ?rep\<rparr>"])
        (simp add: handle_read_def run upd Let_def TFalse comp_def)
  next
    case Indeterminate
    show ?thesis
      by (rule exI [of _ "Read_some i"], rule exI [of _ "\<lambda>c. c\<lparr>con_parser := p, con_request := q\<rparr>"])
        (simp add: handle_read_def run Let_def Indeterminate)
  qed
qed

lemma inv_read:
  assumes inv: "server_inv s" and p: "net_pending s = xs @ Read_some i # ys"
    and closed: "e = Operation_aborted \<Longrightarrow> \<not> socket_open (net_conns s i)"
  shows "server_inv (handle_read h i e data (s\<lparr>net_pending := xs @ ys\<rparr>))"
proof -
  note view = inv [unfolded server_inv_def p]
  show ?thesis
  proof (cases e)
    case No_error
    obtain op f where "handle_read h i e data (s\<lparr>net_pending := xs @ ys\<rparr>)
        = async_start op (update_con i f (s\<lparr>net_pending := xs @ ys\<rparr>))"
      and op: "on_conn i op" and f: "\<forall>c. socket_open (f c) = socket_open c"
      using handle_read_ok No_error by blast
    moreover have "conn_inv ((xs @ ys) @ [op]) (srv_connections s)
        (\<lambda>j. socket_open (((net_conns s)(i := f (net_conns s i))) j))
        (srv_new_connection s) (net_fresh s) (srv_acceptor_open s)"
      by (rule conn_inv_next [OF view _ op]) (use f in auto)
    ultimately show ?thesis
      by (simp add: server_inv_def async_start_def update_con_def)
  next
    case Operation_aborted
    then have "srv_connections s \<subseteq> srv_connections s - {i}"
      using view closed by (auto simp: conn_inv_def)
    then have "conn_inv (xs @ ys) (srv_connections s) (\<lambda>j. socket_open (net_conns s j))
        (srv_new_connection s) (net_fresh s) (srv_acceptor_open s)"
      by (intro conn_inv_done [OF view, of i]) auto
    then show ?thesis using Operation_aborted by (simp add: server_inv_def handle_read_def)
  next
    case Other_error
    have "conn_inv (xs @ ys) (srv_connections s - {i})
        (\<lambda>j. socket_open (((net_conns s)(i := (net_conns s i)\<lparr>socket_open := False\<rparr>)) j))
        (srv_new_connection s) (net_fresh s) (srv_acceptor_open s)"
      by (rule conn_inv_done [OF view, of i]) auto
    then show ?thesis using Other_error
      by (simp add: server_inv_def handle_read_def manager_stop_def connection_stop_def update_con_def)
  qed
qed

lemma inv_write:
  assumes inv: "server_inv s" and p: "net_pending s = xs @ Async_write i bs # ys"
    and closed: "e = Operation_aborted \<Longrightarrow> \<not> socket_open (net_conns s i)"
  shows "server_inv (handle_write i e (s\<lparr>net_pending := xs @ ys\<rparr>))"
proof (cases "e = Operation_aborted")
  case True
  note view = inv [unfolded server_inv_def p]
  from True have "srv_connections s \<subseteq> srv_connections s - {i}"
    using view closed by (auto simp: conn_inv_def)
  then have "conn_inv (xs @ ys) (srv_connections s) (\<lambda>j. socket_open (net_conns s j))
      (srv_new_connection s) (net_fresh s) (srv_acceptor_open s)"
    by (intro conn_inv_done [OF view, of i]) auto
  then show ?thesis using True by (simp add: server_inv_def handle_write_def)
next
  case False
  note view = inv [unfolded server_inv_def p]
  have "conn_inv (xs @ ys) (srv_connections s - {i})
      (\<lambda>j. socket_open (((net_conns s)(i := (net_conns s i)\<lparr>socket_shutdown := sd, socket_open := False\<rparr>)) j))
      (srv_new_connection s) (net_fresh s) (srv_acceptor_open s)" for sd
    by (rule conn_inv_done [OF view, of i]) auto
  moreover have "conn_inv (xs @ ys) (srv_connections s - {i})
      (\<lambda>j. socket_open (((net_conns s)(i := (net_conns s i)\<lparr>socket_open := False\<rparr>)) j))
      (srv_new_connection s) (net_fresh s) (srv_acceptor_open s)"
    by (rule conn_inv_done [OF view, of i]) auto
  ultimately show ?thesis using False
    by (simp add: server_inv_def handle_write_def manager_stop_def connection_stop_def update_con_def)
qed

lemma conn_inv_accept:
  assumes inv: "conn_inv (xs @ Accept i # ys) managed opened new fresh listening"
  shows "i = new" "filter is_accept (xs @ ys) = []"
    "\<And>j. ops_on j (xs @ ys) = ops_on j (xs @ Accept i # ys)"
proof -
  have acc: "filter is_accept xs @ Accept i # filter is_accept ys = [Accept new]"
    using inv unfolding conn_inv_def by (simp split: if_splits)
  then have none: "filter is_accept xs = []" "filter is_accept ys = []"
    by (cases "filter is_accept xs"; simp)+
  then show "filter is_accept (xs @ ys) = []" by simp
  show "i = new" using acc none by simp
  show "ops_on j (xs @ ys) = ops_on j (xs @ Accept i # ys)" for j by simp
qed

text \<open>The accept operation completes: nothing else has changed. Then the old \<open>new_connection_\<close>
  is managed and reads, or not, and a further accept is started for the next number.\<close>

lemma conn_inv_idle:
  assumes "conn_inv (xs @ Accept i # ys) managed opened new fresh False" and "\<And>j. j \<noteq> new \<Longrightarrow> opened' j = opened j"
  shows "conn_inv (xs @ ys) managed opened' new fresh False"
  using assms(1) conn_inv_accept(2,3) [OF assms(1)] unfolding conn_inv_def by simp

lemma conn_inv_listen:
  assumes inv: "conn_inv (xs @ Accept i # ys) managed opened new fresh True"
    and opened: "\<And>j. j < fresh \<Longrightarrow> opened' j = opened j"
  shows "conn_inv ((xs @ ys) @ [Accept fresh]) managed opened' fresh (Suc fresh) True"
proof -
  have count: "ops_on j ((xs @ ys) @ [Accept fresh]) = ops_on j (xs @ Accept i # ys)" for j by simp
  have acc: "filter is_accept ((xs @ ys) @ [Accept fresh]) = [Accept fresh]"
    using conn_inv_accept(2) [OF inv] by simp
  have "j < fresh" if "j \<in> managed" for j
    using that inv unfolding conn_inv_def by (metis leI zero_neq_one)
  then show ?thesis
    using inv opened unfolding conn_inv_def count acc by simp
qed

lemma conn_inv_start:
  assumes inv: "conn_inv (xs @ Accept i # ys) managed opened new fresh True"
    and opened: "\<And>j. j < fresh \<Longrightarrow> j \<noteq> new \<Longrightarrow> opened' j = opened j" "opened' new"
  shows "conn_inv (((xs @ ys) @ [Read_some new]) @ [Accept fresh]) (insert new managed) opened' fresh (Suc fresh) True"
proof -
  let ?ops = "((xs @ ys) @ [Read_some new]) @ [Accept fresh]"
  have new: "new < fresh" "ops_on new (xs @ Accept i # ys) = 0"
    using inv unfolding conn_inv_def by blast+
  have count: "ops_on j ?ops = ops_on j (xs @ Accept i # ys) + (if j = new then 1 else 0)" for j by simp
  have acc: "filter is_accept ?ops = [Accept fresh]"
    using conn_inv_accept(2) [OF inv] by simp
  have "j < fresh \<and> j \<noteq> new" if "j \<in> managed" for j
    using that inv unfolding conn_inv_def by (metis leI zero_neq_one)
  then show ?thesis
    using inv opened new unfolding conn_inv_def count acc by (simp del: ops_on_simps)
qed

lemma inv_accept:
  assumes inv: "server_inv s" and p: "net_pending s = xs @ Accept i # ys"
  shows "server_inv (handle_accept u e (accepted i e (s\<lparr>net_pending := xs @ ys\<rparr>)))"
proof (cases "srv_acceptor_open s")
  case False
  then have closed: "srv_acceptor_open s = False" by simp
  note view = inv [unfolded server_inv_def p closed]
  note new = conn_inv_accept(1) [OF view]
  have "server_inv (accepted i e (s\<lparr>net_pending := xs @ ys\<rparr>))"
    unfolding server_inv_def
    using conn_inv_idle [OF view] False new by (simp add: accepted_def update_con_def)
  then show ?thesis using False by (simp add: handle_accept_def accepted_def update_con_def)
next
  case True
  then have listening: "srv_acceptor_open s = True" by simp
  note view = inv [unfolded server_inv_def p listening]
  note new = conn_inv_accept(1) [OF view]
  show ?thesis
  proof (cases "e = No_error")
    case ok: True
    have "conn_inv (((xs @ ys) @ [Read_some (srv_new_connection s)]) @ [Accept (net_fresh s)])
        (insert (srv_new_connection s) (srv_connections s))
        (\<lambda>j. socket_open (((net_conns s)(srv_new_connection s :=
             (net_conns s (srv_new_connection s))\<lparr>socket_open := True\<rparr>, net_fresh s := fresh_connection u)) j))
        (net_fresh s) (Suc (net_fresh s)) True"
      by (rule conn_inv_start [OF view]) (use view in \<open>auto simp: conn_inv_def\<close>)
    then show ?thesis
      by (simp add: ok True new server_inv_def handle_accept_def accepted_def update_con_def
          start_accept_def manager_start_def connection_start_def async_start_def Let_def)
  next
    case False
    have "conn_inv ((xs @ ys) @ [Accept (net_fresh s)]) (srv_connections s)
        (\<lambda>j. socket_open (((net_conns s)(net_fresh s := fresh_connection u)) j))
        (net_fresh s) (Suc (net_fresh s)) True"
      by (rule conn_inv_listen [OF view]) auto
    then show ?thesis
      using False True
      by (simp add: server_inv_def handle_accept_def accepted_def start_accept_def async_start_def Let_def)
  qed
qed

lemma inv_stop:
  assumes inv: "server_inv s" and p: "net_pending s = xs @ Signal_wait # ys"
  shows "server_inv (handle_stop (s\<lparr>net_pending := xs @ ys\<rparr>))"
proof -
  note view = inv [unfolded server_inv_def p]
  have count: "ops_on j (xs @ ys) = ops_on j (xs @ Signal_wait # ys)" for j by simp
  have acc: "filter is_accept (xs @ ys) = filter is_accept (xs @ Signal_wait # ys)" by simp
  have "filter is_accept (xs @ ys) \<in> {[], [Accept (srv_new_connection s)]}"
    using view unfolding acc conn_inv_def by (auto split: if_splits)
  then have "conn_inv (xs @ ys) {} opened (srv_new_connection s) (net_fresh s) False" for opened
    using view unfolding conn_inv_def count by simp
  then show ?thesis
    by (simp add: server_inv_def handle_stop_def manager_stop_all_def)
qed

lemma server_new_inv: "server_inv (server_new u)"
  by (simp add: server_inv_def conn_inv_def server_new_def start_accept_def async_start_def)

lemma server_step_inv: "server_step h s t \<Longrightarrow> server_inv s \<Longrightarrow> server_inv t"
proof (induction rule: server_step.induct)
  case (server_step s xs op ys data e u)
  then show ?case
    by (cases op) (simp_all add: inv_read inv_write inv_accept inv_stop)
qed

lemma reachable_inv: "(server_step h)\<^sup>*\<^sup>* (server_new u) s \<Longrightarrow> server_inv s"
  by (induction rule: rtranclp_induct) (simp_all add: server_new_inv server_step_inv)


section \<open>One connection\<close>

text \<open>
  A connection receives the blocks of \<open>bs\<close> one after the other: each is the completion of its
  outstanding read.
\<close>

definition receive :: "host \<Rightarrow> nat \<Rightarrow> string \<Rightarrow> server \<Rightarrow> server" where
  "receive h i block s = handle_read h i No_error block (s\<lparr>net_pending := remove1 (Read_some i) (net_pending s)\<rparr>)"

text \<open>The bytes the connection hands to \<open>async_write\<close> for a result of the parser.\<close>

definition answer :: "host \<Rightarrow> tribool \<Rightarrow> request \<Rightarrow> reply \<Rightarrow> reply" where
  "answer h result req rep =
     (if result = TTrue then handle_request (host_lexical_cast h) (host_files h) (host_doc_root h) req rep
      else stock_reply (host_lexical_cast h) Bad_request)"

lemma handle_read_more:
  assumes "parse (con_parser (net_conns s i)) (con_request (net_conns s i)) data = (Indeterminate, p, q, rest)"
  shows "handle_read h i No_error data s =
    async_start (Read_some i) (update_con i (\<lambda>c. c\<lparr>con_parser := p, con_request := q\<rparr>) s)"
  using assms by (simp add: handle_read_def Let_def)

lemma handle_read_stop:
  assumes "parse (con_parser (net_conns s i)) (con_request (net_conns s i)) data = (result, p, q, rest)"
    and "result \<noteq> Indeterminate"
  shows "handle_read h i No_error data s =
    async_start (Async_write i (concat (to_buffers (answer h result q (con_reply (net_conns s i))))))
      (update_con i (\<lambda>c. c\<lparr>con_parser := p, con_request := q,
         con_reply := answer h result q (con_reply (net_conns s i))\<rparr>) s)"
  using assms by (cases result) (simp_all add: handle_read_def answer_def Let_def update_con_def)

text \<open>
  Blocks before the one in which the parser finishes lead to further reads; the last one leads
  to a write of the answer to the whole input.
\<close>

lemma receive_blocks:
  assumes "Read_some i \<in> set (net_pending s)"
    and "parse (con_parser (net_conns s i)) (con_request (net_conns s i)) (concat bs @ b) = (result, p, q, rest)"
    and "length rest < length b" and "result \<noteq> Indeterminate"
  shows "Async_write i (concat (to_buffers (answer h result q (con_reply (net_conns s i)))))
    \<in> set (net_pending (foldl (\<lambda>s b. receive h i b s) s (bs @ [b])))"
  using assms
proof (induction bs arbitrary: s)
  case Nil
  then show ?case
    using handle_read_stop [where s = "s\<lparr>net_pending := remove1 (Read_some i) (net_pending s)\<rparr>" and i = i
        and data = b and result = result and p = p and q = q and rest = rest and h = h]
    by (simp add: receive_def)
next
  case (Cons a bs)
  obtain r1 p1 q1 rest1 where a: "parse (con_parser (net_conns s i)) (con_request (net_conns s i)) a
      = (r1, p1, q1, rest1)" by (metis prod_cases4)
  have run: "parse (con_parser (net_conns s i)) (con_request (net_conns s i)) (a @ concat bs @ b)
      = (result, p, q, rest)"
    using Cons.prems(2) by simp
  have r1: "r1 = Indeterminate"
  proof (rule ccontr)
    assume "r1 \<noteq> Indeterminate"
    then have "rest = rest1 @ concat bs @ b" using run unfolding http.run_append a by simp
    with Cons.prems(3) show False by simp
  qed
  let ?t = "receive h i a s"
  have t: "?t = async_start (Read_some i) (update_con i (\<lambda>c. c\<lparr>con_parser := p1, con_request := q1\<rparr>)
      (s\<lparr>net_pending := remove1 (Read_some i) (net_pending s)\<rparr>))"
    unfolding receive_def by (rule handle_read_more) (use a r1 in simp)
  have "parse p1 q1 (concat bs @ b) = (result, p, q, rest)"
    using run r1 unfolding http.run_append [of _ _ a] a by simp
  then show ?case using Cons.IH [of ?t] Cons.prems(3,4) by (simp add: t)
qed

section \<open>Shutdown\<close>

text \<open>
  The steps after the signal handler. The first \<open>k\<close> outstanding operations are those that were started
  before it: they may have finished before their socket was closed, so they complete with any result. An
  operation that is started later on a socket that is closed by then fails.
\<close>

inductive drain_step :: "host \<Rightarrow> nat \<times> server \<Rightarrow> nat \<times> server \<Rightarrow> bool" for h where
  outstanding:
    "net_pending s = xs @ op # ys \<Longrightarrow> length xs < k \<Longrightarrow> length data \<le> 8192
     \<Longrightarrow> (\<And>i. on_conn i op \<Longrightarrow> e = Operation_aborted \<Longrightarrow> \<not> socket_open (net_conns s i))
     \<Longrightarrow> drain_step h (k, s) (k - 1, completion h u op e data (s\<lparr>net_pending := xs @ ys\<rparr>))"
| started_later:
    "net_pending s = xs @ op # ys \<Longrightarrow> k \<le> length xs \<Longrightarrow> length data \<le> 8192
     \<Longrightarrow> (\<And>i. on_conn i op \<Longrightarrow> e = Operation_aborted \<Longrightarrow> \<not> socket_open (net_conns s i))
     \<Longrightarrow> (\<And>i. on_conn i op \<Longrightarrow> \<not> socket_open (net_conns s i) \<Longrightarrow> e \<noteq> No_error)
     \<Longrightarrow> drain_step h (k, s) (k, completion h u op e data (s\<lparr>net_pending := xs @ ys\<rparr>))"

inductive_cases drain_stepE: "drain_step h (k, s) q"

text \<open>They are steps of the server.\<close>

lemma drain_server_step: "drain_step h (k, s) (k', s') \<Longrightarrow> server_step h s s'"
  by (erule drain_stepE) (auto intro: server_step.server_step)

text \<open>A connection with an operation is managed, or its socket has been closed.\<close>

definition unmanaged_closed :: "server \<Rightarrow> bool" where
  "unmanaged_closed s \<longleftrightarrow>
     (\<forall>i. 0 < ops_on i (net_pending s) \<longrightarrow> i \<in> srv_connections s \<or> \<not> socket_open (net_conns s i))"

lemma unmanaged_closedD:
  "unmanaged_closed s \<Longrightarrow> 0 < ops_on i (net_pending s) \<Longrightarrow> i \<notin> srv_connections s \<Longrightarrow> \<not> socket_open (net_conns s i)"
  by (auto simp: unmanaged_closed_def)

lemma unmanaged_conn_op:
  assumes un: "unmanaged_closed s" and p: "net_pending s = xs @ op # ys" and op: "on_conn i op"
    and t: "net_pending t = xs @ ys @ ops" "\<And>j. j \<noteq> i \<Longrightarrow> ops_on j ops = 0"
      "\<And>j. j \<noteq> i \<Longrightarrow> socket_open (net_conns t j) = socket_open (net_conns s j)" "srv_connections s - {i} \<subseteq> srv_connections t"
    and i: "(i \<in> srv_connections t \<longleftrightarrow> i \<in> srv_connections s) \<and> socket_open (net_conns t i) = socket_open (net_conns s i)
        \<or> \<not> socket_open (net_conns t i)"
  shows "unmanaged_closed t"
  unfolding unmanaged_closed_def
proof (intro allI impI)
  fix j assume j: "0 < ops_on j (net_pending t)"
  show "j \<in> srv_connections t \<or> \<not> socket_open (net_conns t j)"
  proof (cases "j = i")
    case True
    then show ?thesis using unmanaged_closedD [OF un, of i] i op p by auto
  next
    case False
    then have "0 < ops_on j (net_pending s)" using j t(1,2) by (simp add: p)
    then show ?thesis using unmanaged_closedD [OF un, of j] t(3,4) False by auto
  qed
qed

lemma unmanaged_read:
  assumes un: "unmanaged_closed s" and p: "net_pending s = xs @ Read_some i # ys"
  shows "unmanaged_closed (handle_read h i e data (s\<lparr>net_pending := xs @ ys\<rparr>))"
proof (cases "e = No_error")
  case True
  obtain op f where "handle_read h i e data (s\<lparr>net_pending := xs @ ys\<rparr>) = async_start op (update_con i f (s\<lparr>net_pending := xs @ ys\<rparr>))"
      "on_conn i op" "\<forall>c. socket_open (f c) = socket_open c"
    using handle_read_ok True by blast
  then show ?thesis
    by (intro unmanaged_conn_op [OF un p, of i _ "[op]"]) (auto simp: async_start_def update_con_def on_conn_unique)
next
  case False
  then show ?thesis
    by (intro unmanaged_conn_op [OF un p, of i _ "[]"])
      (auto simp: handle_read_def manager_stop_def connection_stop_def update_con_def)
qed

lemma unmanaged_write:
  assumes un: "unmanaged_closed s" and p: "net_pending s = xs @ Async_write i bs # ys"
  shows "unmanaged_closed (handle_write i e (s\<lparr>net_pending := xs @ ys\<rparr>))"
  by (intro unmanaged_conn_op [OF un p, of i _ "[]"])
    (auto simp: handle_write_def manager_stop_def connection_stop_def update_con_def Let_def)

lemma unmanaged_accept:
  assumes un: "unmanaged_closed s" and inv: "server_inv s" and p: "net_pending s = xs @ Accept i # ys"
  shows "unmanaged_closed (handle_accept u e (accepted i e (s\<lparr>net_pending := xs @ ys\<rparr>)))"
proof -
  have i: "i = srv_new_connection s" and none: "ops_on i (xs @ ys) = 0" "\<And>j. net_fresh s \<le> j \<Longrightarrow> ops_on j (xs @ ys) = 0"
    using inv conn_inv_accept(1) [OF inv [unfolded server_inv_def p]] unfolding server_inv_def conn_inv_def p by auto
  have "i < net_fresh s" using inv i by (simp add: server_inv_def conn_inv_def)
  moreover have "0 < ops_on j (xs @ ys) \<Longrightarrow> j \<in> srv_connections s \<or> \<not> socket_open (net_conns s j)" for j
    using unmanaged_closedD [OF un, of j] p by auto
  ultimately show ?thesis
    using none i
    by (auto simp: unmanaged_closed_def handle_accept_def accepted_def update_con_def start_accept_def manager_start_def
        connection_start_def async_start_def fresh_connection_def Let_def split: if_splits prod.splits)
qed

lemma unmanaged_stop:
  "unmanaged_closed s \<Longrightarrow> net_pending s = xs @ Signal_wait # ys \<Longrightarrow> unmanaged_closed (handle_stop (s\<lparr>net_pending := xs @ ys\<rparr>))"
  by (auto simp: unmanaged_closed_def handle_stop_def manager_stop_all_def)

lemma unmanaged_step: "server_step h s t \<Longrightarrow> server_inv s \<Longrightarrow> unmanaged_closed s \<Longrightarrow> unmanaged_closed t"
proof (induction rule: server_step.induct)
  case (server_step s xs op ys data e u)
  then show ?case
    by (cases op) (simp_all add: unmanaged_read unmanaged_write unmanaged_accept unmanaged_stop)
qed

lemma reachable_unmanaged: "(server_step h)\<^sup>*\<^sup>* (server_new u) s \<Longrightarrow> unmanaged_closed s"
proof (induction rule: rtranclp_induct)
  case base
  show ?case by (simp add: unmanaged_closed_def server_new_def start_accept_def async_start_def)
next
  case (step s t)
  then show ?case using unmanaged_step reachable_inv by blast
qed

text \<open>While the acceptor is closed: the sockets of all outstanding operations are closed, and each step brings
  \<open>k\<close> plus the number of outstanding operations down.\<close>

definition draining :: "nat \<times> server \<Rightarrow> bool" where
  "draining q \<longleftrightarrow> (case q of (k, s) \<Rightarrow>
     server_inv s \<and> unmanaged_closed s \<and> \<not> srv_acceptor_open s \<and> k \<le> length (net_pending s))"

definition drain_left :: "nat \<times> server \<Rightarrow> nat" where
  "drain_left q = fst q + length (net_pending (snd q))"

lemma draining_closed:
  assumes "draining (k, s)" "net_pending s = xs @ op # ys" "on_conn i op"
  shows "\<not> socket_open (net_conns s i)"
proof (rule unmanaged_closedD)
  show "unmanaged_closed s" "0 < ops_on i (net_pending s)" using assms by (simp_all add: draining_def)
  show "i \<notin> srv_connections s" using assms(1) by (simp add: draining_def server_inv_def conn_inv_def)
qed

lemma completion_closed:
  assumes "\<not> srv_acceptor_open s"
  shows "\<not> srv_acceptor_open (completion h u op e data s)"
    and "length (net_pending s) \<le> length (net_pending (completion h u op e data s))"
      "length (net_pending (completion h u op e data s)) \<le> Suc (length (net_pending s))"
    and "e \<noteq> No_error \<or> \<not> (\<exists>i. on_conn i op) \<Longrightarrow> net_pending (completion h u op e data s) = net_pending s"
proof -
  have read: "length (net_pending s) \<le> length (net_pending (handle_read h i e data s))
      \<and> length (net_pending (handle_read h i e data s)) \<le> Suc (length (net_pending s))" for i
    using connection1.read_law [of h i e data s] by auto
  show "\<not> srv_acceptor_open (completion h u op e data s)"
    using assms
    by (cases op) (auto simp: server_defs update_con_def async_start_def Let_def split: prod.splits)
  show "length (net_pending s) \<le> length (net_pending (completion h u op e data s))"
      "length (net_pending (completion h u op e data s)) \<le> Suc (length (net_pending s))"
    using assms read connection1.write_law
    by (cases op; simp add: handle_accept_def accepted_def update_con_def handle_stop_def manager_stop_all_def)+
  assume "e \<noteq> No_error \<or> \<not> (\<exists>i. on_conn i op)"
  then show "net_pending (completion h u op e data s) = net_pending s"
    using assms connection1.write_law
    by (cases op) (auto simp: handle_accept_def accepted_def update_con_def handle_stop_def manager_stop_all_def handle_read_def
        manager_stop_def connection_stop_def)
qed

lemma drain_step_less:
  assumes "drain_step h q q'" "draining q"
  shows "draining q' \<and> drain_left q' < drain_left q"
  using assms
proof (induction rule: drain_step.induct)
  case (outstanding s xs op ys k data e u)
  let ?s = "s\<lparr>net_pending := xs @ ys\<rparr>"
  have step: "server_step h s (completion h u op e data ?s)" by (rule server_step) (use outstanding in auto)
  have closed: "\<not> srv_acceptor_open ?s" using outstanding.prems by (simp add: draining_def)
  show ?case
    using outstanding.prems outstanding.hyps completion_closed(1-3) [OF closed, of h u op e data] server_step_inv [OF step] unmanaged_step [OF step]
    by (auto simp: draining_def drain_left_def)
next
  case (started_later s xs op ys k data e u)
  let ?s = "s\<lparr>net_pending := xs @ ys\<rparr>"
  have step: "server_step h s (completion h u op e data ?s)" by (rule server_step) (use started_later in auto)
  have closed: "\<not> srv_acceptor_open ?s" using started_later.prems by (simp add: draining_def)
  have "e \<noteq> No_error \<or> \<not> (\<exists>i. on_conn i op)"
    using started_later.hyps(5) draining_closed [OF started_later.prems started_later.hyps(1)] by blast
  from completion_closed(4) [OF closed this] completion_closed(1) [OF closed, of h u op e data]
  show ?case
    using started_later.prems started_later.hyps(1,2) server_step_inv [OF step] unmanaged_step [OF step]
    by (auto simp: draining_def drain_left_def)
qed

lemma drain_run:
  "(drain_step h ^^ n) q q' \<Longrightarrow> draining q \<Longrightarrow> draining q' \<and> n + drain_left q' \<le> drain_left q"
proof (induction n arbitrary: q')
  case (Suc n)
  then obtain r where r: "(drain_step h ^^ n) q r" "drain_step h r q'" by auto
  then show ?case using Suc.IH [OF r(1) Suc.prems(2)] drain_step_less [OF r(2)] by auto
qed simp

lemma drain_progress:
  assumes "net_pending s \<noteq> []"
  shows "\<exists>q. drain_step h (k, s) q"
proof -
  obtain op ops where p: "net_pending s = [] @ op # ops" using assms by (cases "net_pending s") auto
  show ?thesis
  proof (cases "k = 0")
    case True
    show ?thesis
      by (rule exI, rule drain_step.started_later [OF p, where data = "[]" and e = Other_error]) (use True in simp_all)
  next
    case False
    show ?thesis
      by (rule exI, rule drain_step.outstanding [OF p, where data = "[]" and e = Other_error]) (use False in simp_all)
  qed
qed

section \<open>Properties\<close>

text \<open>
  C11. In every state the server can reach, each connection has at most one outstanding
  operation, so its buffer, parser, request and reply are never used by two operations at once;
  every managed connection has exactly one, with an open socket; while the acceptor is open
  exactly one accept is outstanding, for \<open>new_connection_\<close>, as the comment in \<open>server::run\<close> says;
  and once it is closed no connection is managed any more.
\<close>

theorem server_reachable_inv:
  assumes "(server_step h)\<^sup>*\<^sup>* (server_new u) s"
  shows "(\<forall>i. length (filter (on_conn i) (net_pending s)) \<le> 1)
    \<and> (\<forall>i\<in>srv_connections s. length (filter (on_conn i) (net_pending s)) = 1 \<and> socket_open (net_conns s i))
    \<and> (srv_acceptor_open s \<longrightarrow> filter is_accept (net_pending s) = [Accept (srv_new_connection s)])
    \<and> (\<not> srv_acceptor_open s \<longrightarrow> srv_connections s = {})"
  using reachable_inv [OF assms] unfolding server_inv_def conn_inv_def ops_on_def by auto

theorem server_reachable_inv_witness:
  "\<exists>s :: server. net_pending s = [Signal_wait, Read_some 0, Accept 1] \<and> srv_connections s = {0}
     \<and> length (filter (on_conn 0) (net_pending s)) = 1 \<and> socket_open (net_conns s 0)"
proof -
  let ?h = "\<lparr>host_lexical_cast = decimal, host_files = (\<lambda>_. None), host_doc_root = ''/www''\<rparr>"
  let ?u = "(0, 0, Bad_gateway)"
  let ?s = "server_new ?u"
  let ?t = "completion ?h ?u (Accept 0) No_error [] (?s\<lparr>net_pending := [Signal_wait] @ []\<rparr>)"
  have "net_pending ?s = [Signal_wait] @ Accept 0 # []"
    by (simp add: server_new_def start_accept_def async_start_def)
  then have "server_step ?h ?s ?t" by (rule server_step) simp_all
  then have "(server_step ?h)\<^sup>*\<^sup>* ?s ?t" by simp
  note inv = server_reachable_inv [OF this]
  have t: "net_pending ?t = [Signal_wait, Read_some 0, Accept 1]" "srv_connections ?t = {0}"
    by (simp_all add: server_new_def server_defs async_start_def update_con_def)
  then have managed: "0 \<in> srv_connections ?t" by simp
  note live = bspec [OF conjunct1 [OF conjunct2 [OF inv]] managed]
  show ?thesis by (rule exI [of _ ?t]) (intro conjI t conjunct1 [OF live] conjunct2 [OF live])
qed

text \<open>
  C22. Shutdown: the signal arrives in any state that the server can reach. After its handler, however the
  operations that were outstanding complete (also with success, when they had finished before their socket
  was closed) and in any order, at most twice as many handlers run as operations were outstanding: each
  connection is closed, so what its handlers still start fails and is not followed by anything, and the
  accept is not repeated. The run ends only when no operation is left, so \<open>io_context::run\<close> returns.
\<close>

theorem server_stop_drains:
  assumes "(server_step h)\<^sup>*\<^sup>* (server_new u) s" and "net_pending s = xs @ Signal_wait # ys"
    and "t = handle_stop (s\<lparr>net_pending := xs @ ys\<rparr>)"
    and "(drain_step h ^^ n) (length (net_pending t), t) (k, t')"
  shows "n \<le> 2 * length (net_pending t)
    \<and> (\<forall>i op. op \<in> set (net_pending t') \<and> on_conn i op \<longrightarrow> \<not> socket_open (net_conns t' i))
    \<and> (net_pending t' = [] \<longleftrightarrow> \<not> (\<exists>q. drain_step h (k, t') q))"
proof -
  have "draining (length (net_pending t), t)"
    using inv_stop [OF reachable_inv [OF assms(1)] assms(2)] unmanaged_stop [OF reachable_unmanaged [OF assms(1)] assms(2)]
    by (simp add: draining_def assms(3)) (simp add: handle_stop_def manager_stop_all_def)
  from drain_run [OF assms(4) this] have run: "draining (k, t')" "n \<le> 2 * length (net_pending t)"
    by (simp_all add: drain_left_def)
  have "\<not> socket_open (net_conns t' i)" if "op \<in> set (net_pending t')" "on_conn i op" for i op
    using draining_closed [OF run(1) _ that(2)] that(1) by (auto simp: in_set_conv_decomp)
  moreover have "\<not> (\<exists>q. drain_step h (k, t') q)" if "net_pending t' = []"
    using that by (auto elim!: drain_stepE)
  ultimately show ?thesis using run(2) drain_progress [of t' h k] by blast
qed

text \<open>The signal arrives while connection 0 reads. The read had finished, with a block that does not complete the
  request: its handler starts another read, which fails; the accept is cancelled.\<close>

lemma consume_G: "consume Method_start r CHR ''G'' = (Indeterminate, Method, r\<lparr>req_method := req_method r @ ''G''\<rparr>)"
proof -
  have "is_char (promote CHR ''G'') \<and> \<not> is_ctl (promote CHR ''G'') \<and> \<not> is_tspecial (promote CHR ''G'')" by code_simp
  then show ?thesis by simp
qed

theorem server_stop_drains_witness:
  "\<exists>h t t'. net_pending t = [Read_some 0, Accept 1] \<and> (drain_step h ^^ 3) (2, t) (0, t') \<and> 3 \<le> 2 * length (net_pending t)
     \<and> \<not> (\<exists>q. drain_step h (0, t') q)"
proof -
  let ?h = "\<lparr>host_lexical_cast = decimal, host_files = (\<lambda>_. None), host_doc_root = ''/www''\<rparr>"
  let ?u = "(0, 0, Bad_gateway)"
  let ?n = "server_new ?u"
  define s where "s = completion ?h ?u (Accept 0) No_error [] (?n\<lparr>net_pending := [Signal_wait] @ []\<rparr>)"
  define t where "t = handle_stop (s\<lparr>net_pending := [] @ [Read_some 0, Accept 1]\<rparr>)"
  define t1 where "t1 = completion ?h ?u (Read_some 0) No_error ''G'' (t\<lparr>net_pending := [] @ [Accept 1]\<rparr>)"
  define t2 where "t2 = completion ?h ?u (Accept 1) Operation_aborted [] (t1\<lparr>net_pending := [] @ [Read_some 0]\<rparr>)"
  define t3 where "t3 = completion ?h ?u (Read_some 0) Other_error [] (t2\<lparr>net_pending := [] @ []\<rparr>)"
  note defs = server_defs server_new_def async_start_def update_con_def fresh_connection_def Let_def
  have n: "net_pending ?n = [Signal_wait] @ Accept 0 # []" by (simp add: defs)
  have s: "net_pending s = [] @ Signal_wait # [Read_some 0, Accept 1]" by (simp add: s_def defs)
  have t: "net_pending t = [] @ Read_some 0 # [Accept 1]" "\<not> srv_acceptor_open t"
      "con_parser (net_conns t 0) = request_parser" "\<not> socket_open (net_conns t 0)"
    by (simp_all add: t_def s_def defs)
  have step0: "server_step ?h ?n s" unfolding s_def by (rule server_step [OF n]) simp_all
  obtain q where g: "parse request_parser (con_request (net_conns t 0)) ''G'' = (Indeterminate, Method, q, [])"
    by (simp add: request_parser_def consume_G del: consume.simps)
  have t1: "net_pending t1 = [] @ Accept 1 # [Read_some 0]" "\<not> srv_acceptor_open t1" "\<not> socket_open (net_conns t1 0)"
    using t(2-4) g by (simp_all add: t1_def handle_read_def update_con_def async_start_def Let_def del: parse.simps)
  have t2: "net_pending t2 = [] @ Read_some 0 # []" "\<not> srv_acceptor_open t2" "\<not> socket_open (net_conns t2 0)"
    using t1(2,3) by (simp_all add: t2_def handle_accept_def accepted_def)
  have t3: "net_pending t3 = []" by (simp add: t3_def handle_read_def manager_stop_def connection_stop_def)
  have "drain_step ?h (2, t) (2 - 1, t1)" unfolding t1_def by (rule drain_step.outstanding [OF t(1)]) simp_all
  moreover have "drain_step ?h (1, t1) (1 - 1, t2)" unfolding t2_def by (rule drain_step.outstanding [OF t1(1)]) simp_all
  moreover have "drain_step ?h (0, t2) (0, t3)" unfolding t3_def by (rule drain_step.started_later [OF t2(1)]) simp_all
  ultimately have run: "(drain_step ?h ^^ 3) (2, t) (0, t3)" by (auto simp: numeral_3_eq_3 relcompp_apply)
  moreover have len: "length (net_pending t) = 2" using t(1) by simp
  ultimately have "(drain_step ?h ^^ 3) (length (net_pending t), t) (0, t3)" by metis
  from server_stop_drains [OF r_into_rtranclp [of "server_step ?h", OF step0] s t_def this] run t(1) t3
  show ?thesis by (intro exI [of _ ?h] exI [of _ t] exI [of _ t3]) simp
qed

text \<open>
  A connection answers the text it receives, however the network cuts it into blocks: if
  parsing all the blocks in one piece ends in the last of them, then after the reads have
  completed in turn the connection writes the reply of the request handler to the parsed
  request, or the stock reply for a malformed one.
\<close>

theorem connection_answers:
  assumes "Read_some i \<in> set (net_pending s)"
    and "parse (con_parser (net_conns s i)) (con_request (net_conns s i)) (concat bs @ b) = (result, p, req, rest)"
    and "length rest < length b" and "result \<noteq> Indeterminate"
  shows "Async_write i (concat (to_buffers
       (if result = TTrue
        then handle_request (host_lexical_cast h) (host_files h) (host_doc_root h) req (con_reply (net_conns s i))
        else stock_reply (host_lexical_cast h) Bad_request)))
    \<in> set (net_pending (foldl (\<lambda>s b. receive h i b s) s (bs @ [b])))"
  using receive_blocks [OF assms] unfolding answer_def .

theorem connection_answers_witness:
  "Async_write 0 (concat (to_buffers (stock_reply decimal Bad_request)))
    \<in> set (net_pending (foldl (\<lambda>s b. receive
         \<lparr>host_lexical_cast = decimal, host_files = (\<lambda>_. None), host_doc_root = ''/www''\<rparr> 0 b s)
        \<lparr>net_conns = (\<lambda>_. fresh_connection (0, 0, Ok)), net_fresh = 2, net_pending = [Read_some 0, Accept 1],
         srv_connections = {0}, srv_acceptor_open = True, srv_new_connection = 1\<rparr> ([''GE''] @ [''T:''])))"
proof -
  have "parse request_parser (fresh_request 0 0) ''GET:'' =
      (TFalse, Method, (fresh_request 0 0)\<lparr>req_method := ''GET''\<rparr>, [])"
    by code_simp
  then show ?thesis
    using connection_answers [where i = 0 and bs = "[''GE'']" and b = "''T:''" and rest = "[]"
        and s = "\<lparr>net_conns = (\<lambda>_. fresh_connection (0, 0, Ok)), net_fresh = 2,
          net_pending = [Read_some 0, Accept 1], srv_connections = {0}, srv_acceptor_open = True,
          srv_new_connection = 1\<rparr>"
        and h = "\<lparr>host_lexical_cast = decimal, host_files = (\<lambda>_. None), host_doc_root = ''/www''\<rparr>"]
    by (simp add: fresh_connection_def del: foldl_Cons foldl_append)
qed

text \<open>The reply to a request for a file of the document root.\<close>

lemma handle_request_found:
  assumes "req_uri req = url_encode plain q"
    and "q \<noteq> []" "hd q = CHR ''/''" "last q \<noteq> CHR ''/''" "\<not> contains ''..'' q" "CHR 0x00 \<notin> set (doc_root @ q)"
    and "fs (doc_root @ q) = Some data" and "\<And>n. lc n = decimal n" and "rep_content rep = []"
  shows "handle_request lc fs doc_root req rep = \<lparr>rep_status = Ok, rep_headers =
      [\<lparr>h_name = ''Content-Length'', h_value = decimal (length data)\<rparr>,
       \<lparr>h_name = ''Content-Type'', h_value = extension_to_type (file_extension q)\<rparr>], rep_content = data\<rparr>"
proof -
  have "c_str (doc_root @ q) = doc_root @ q" using c_str_append [OF assms(6), of "[]"] by (simp add: c_str_def)
  then show ?thesis using assms by (simp add: handle_request_cases safe_path_def opened_path_def)
qed

text \<open>A request for a file of the document root is answered with the file.\<close>

lemma file_sent:
  assumes "Read_some i \<in> set (net_pending s)"
    and "con_parser (net_conns s i) = request_parser" "con_request (net_conns s i) = fresh_request m n"
    and "rep_content (con_reply (net_conns s i)) = []"
    and "wf_request req" "req_uri req = url_encode plain q"
    and "q \<noteq> []" "hd q = CHR ''/''" "last q \<noteq> CHR ''/''" "\<not> contains ''..'' q" "CHR 0x00 \<notin> set (host_doc_root h @ q)"
    and "host_files h (host_doc_root h @ q) = Some data" and "\<And>n. host_lexical_cast h n = decimal n"
    and "concat bs @ b = print_request req @ rest" "length rest < length b"
  shows "Async_write i (concat (to_buffers \<lparr>rep_status = Ok, rep_headers =
      [\<lparr>h_name = ''Content-Length'', h_value = decimal (length data)\<rparr>,
       \<lparr>h_name = ''Content-Type'', h_value = extension_to_type (file_extension q)\<rparr>], rep_content = data\<rparr>))
    \<in> set (net_pending (foldl (\<lambda>s b. receive h i b s) s (bs @ [b])))"
proof -
  let ?rep = "handle_request (host_lexical_cast h) (host_files h) (host_doc_root h) req (con_reply (net_conns s i))"
  have parsed: "parse (con_parser (net_conns s i)) (con_request (net_conns s i)) (concat bs @ b)
      = (TTrue, Expecting_newline_3, req, rest)"
    using assms(2,3,14) request_accepted [OF print_request_syntax [OF assms(5)], of m n rest]
    by (simp add: request_parser_def)
  have "Async_write i (concat (to_buffers (answer h TTrue req (con_reply (net_conns s i)))))
      \<in> set (net_pending (foldl (\<lambda>s b. receive h i b s) s (bs @ [b])))"
    using receive_blocks [OF assms(1) parsed assms(15), of h] by simp
  moreover have "?rep = \<lparr>rep_status = Ok, rep_headers =
      [\<lparr>h_name = ''Content-Length'', h_value = decimal (length data)\<rparr>,
       \<lparr>h_name = ''Content-Type'', h_value = extension_to_type (file_extension q)\<rparr>], rep_content = data\<rparr>"
    by (rule handle_request_found) (use assms in auto)
  ultimately show ?thesis by (simp add: answer_def)
qed

text \<open>
  C8. End to end: a client that requests a file of the document root with a percent-encoded
  path, in any number of blocks, is sent bytes that read back as \<open>200 OK\<close>, the length and
  media type of the file, and the bytes of the file.
\<close>

theorem client_gets_file:
  assumes "Read_some i \<in> set (net_pending s)"
    and "con_parser (net_conns s i) = request_parser" "con_request (net_conns s i) = fresh_request m n"
    and "rep_content (con_reply (net_conns s i)) = []"
    and "wf_request req" "req_uri req = url_encode plain q"
    and "q \<noteq> []" "hd q = CHR ''/''" "last q \<noteq> CHR ''/''" "\<not> contains ''..'' q" "CHR 0x00 \<notin> set (host_doc_root h @ q)"
    and "host_files h (host_doc_root h @ q) = Some data" and "\<And>n. host_lexical_cast h n = decimal n"
    and "concat bs @ b = print_request req @ rest" "length rest < length b"
  shows "\<exists>bytes. Async_write i bytes \<in> set (net_pending (foldl (\<lambda>s b. receive h i b s) s (bs @ [b])))
    \<and> read_reply bytes = Some (''HTTP/1.0 200 OK'',
        [\<lparr>h_name = ''Content-Length'', h_value = decimal (length data)\<rparr>,
         \<lparr>h_name = ''Content-Type'', h_value = extension_to_type (file_extension q)\<rparr>], data)"
proof -
  let ?rep = "\<lparr>rep_status = Ok, rep_headers =
      [\<lparr>h_name = ''Content-Length'', h_value = decimal (length data)\<rparr>,
       \<lparr>h_name = ''Content-Type'', h_value = extension_to_type (file_extension q)\<rparr>], rep_content = data\<rparr>"
  have "list_all wire_header (rep_headers ?rep)"
    by (simp add: wire_header_def decimal_no_cr extension_to_type_no_cr)
  then have "read_reply (concat (to_buffers ?rep)) = Some (''HTTP/1.0 200 OK'', rep_headers ?rep, data)"
    using buffers_framed [of ?rep] by (simp add: misc_crlf_def)
  then show ?thesis using file_sent [OF assms] by auto
qed

theorem client_gets_file_witness:
  "\<exists>bytes. Async_write 0 bytes
      \<in> set (net_pending (foldl (\<lambda>s b. receive
           \<lparr>host_lexical_cast = decimal,
            host_files = (\<lambda>p. if p = ''/www/a b.html'' then Some ''hello'' else None),
            host_doc_root = ''/www''\<rparr> 0 b s)
          \<lparr>net_conns = (\<lambda>_. fresh_connection (0, 0, Ok)), net_fresh = 2,
           net_pending = [Read_some 0, Accept 1], srv_connections = {0}, srv_acceptor_open = True,
           srv_new_connection = 1\<rparr>
          ([''GET /a%2'', ''0b.html HTT''] @ [''P/1.0'' @ misc_crlf @ misc_crlf])))
    \<and> read_reply bytes = Some (''HTTP/1.0 200 OK'',
        [\<lparr>h_name = ''Content-Length'', h_value = decimal (length ''hello'')\<rparr>,
         \<lparr>h_name = ''Content-Type'', h_value = extension_to_type (file_extension ''/a b.html'')\<rparr>],
        ''hello'')"
proof -
  let ?req = "\<lparr>req_method = ''GET'', req_uri = ''/a%20b.html'', req_http_version_major = 1,
    req_http_version_minor = 0, req_headers = []\<rparr>"
  have wf: "wf_request ?req" by code_simp
  have uri: "req_uri ?req = url_encode (\<lambda>c. c \<noteq> CHR '' '') ''/a b.html''" by code_simp
  have dots: "\<not> contains ''..'' ''/a b.html''" by code_simp
  have input: "concat [''GET /a%2'', ''0b.html HTT''] @ (''P/1.0'' @ misc_crlf @ misc_crlf) = print_request ?req @ []"
    by code_simp
  show ?thesis
    by (rule client_gets_file [where m = 0 and n = 0, OF _ _ _ _ wf uri _ _ _ dots _ _ _ input])
      (simp_all add: fresh_connection_def misc_crlf_def)
qed

end
