(* ===== verification/Http_Client.thy ===== *)
theory Http_Client
  imports Http_Server Cxx_Streams
begin

text \<open>
  \<open>asio-examples/http_client/http_client.cpp\<close>: a client that requests a path, checks the status line and copies
  the headers and the content of the response. The connection is a stream: the bytes that are still to be read, with the
  state bits of \<open>std::istream\<close>. Resolving and connecting are the library's; a failed connection ends the program.
\<close>

section \<open>The program\<close>

definition http_request_text :: "string \<Rightarrow> string \<Rightarrow> string" where
  "http_request_text server path =
     ''GET '' @ path @ '' HTTP/1.0'' @ [CHR 0x0D, CHR 0x0A] @ ''Host: '' @ server @ [CHR 0x0D, CHR 0x0A]
     @ ''Accept: */*'' @ [CHR 0x0D, CHR 0x0A] @ ''Connection: close'' @ [CHR 0x0D, CHR 0x0A, CHR 0x0D, CHR 0x0A]"

text \<open>The loop that prints the headers.\<close>

function print_headers_of :: "string \<Rightarrow> istream \<Rightarrow> string \<times> istream" where
  "print_headers_of header s =
     (case get_line header s of (line, s') \<Rightarrow>
        if \<not> failbit s' \<and> line \<noteq> [CHR 0x0D]
        then let (out, s'') = print_headers_of line s' in (line @ [CHR 0x0A] @ out, s'')
        else ([], s'))"
  by pat_completeness auto
termination
  by (relation "measure (\<lambda>p. length (unread (snd p)))") (simp, metis get_line_shorter in_measure snd_conv)

declare print_headers_of.simps [simp del]

text \<open>What is printed for a response, and the result of \<open>main\<close>. \<open>garbage\<close> is the status code before it is read.\<close>

definition http_response :: "nat \<Rightarrow> string \<Rightarrow> string \<times> int" where
  "http_response garbage response =
     (let s = \<lparr>unread = response, eofbit = False, failbit = False\<rparr>;
          (http_version, s) = read_string [] s;
          (status_code, s) = read_unsigned garbage s;
          (status_message, s) = get_line [] s
      in if failbit s \<or> take 5 http_version \<noteq> ''HTTP/'' then (''Invalid response'' @ [CHR 0x0A], 1)
      else if status_code \<noteq> 200 then (''Response returned with status code '' @ decimal status_code @ [CHR 0x0A], 1)
      else let (headers, s) = print_headers_of [] s in (headers @ [CHR 0x0A] @ unread s, 0))"

section \<open>Responses of the server\<close>

definition line_header :: "header \<Rightarrow> bool" where
  "line_header h \<longleftrightarrow> CHR 0x0A \<notin> set (h_name h) \<and> CHR 0x0A \<notin> set (h_value h)"

lemma print_headers_of_buffers:
  "list_all line_header hs \<Longrightarrow>
    print_headers_of old \<lparr>unread = concat (header_buffers hs) @ misc_crlf @ content, eofbit = False, failbit = False\<rparr>
    = (concat (header_buffers hs), \<lparr>unread = content, eofbit = False, failbit = False\<rparr>)"
proof (induction hs arbitrary: old)
  case Nil
  have "get_line old \<lparr>unread = [CHR 0x0D] @ CHR 0x0A # content, eofbit = False, failbit = False\<rparr>
      = ([CHR 0x0D], \<lparr>unread = content, eofbit = False, failbit = False\<rparr>)"
    by (subst get_line_of) (simp_all add: good_def)
  then show ?case by (subst print_headers_of.simps) (simp add: misc_crlf_def)
next
  case (Cons h hs)
  let ?line = "h_name h @ name_value_separator @ h_value h @ [CHR 0x0D]"
  let ?rest = "concat (header_buffers hs) @ misc_crlf @ content"
  have "get_line old \<lparr>unread = ?line @ CHR 0x0A # ?rest, eofbit = False, failbit = False\<rparr>
      = (?line, \<lparr>unread = ?rest, eofbit = False, failbit = False\<rparr>)"
    using Cons.prems by (subst get_line_of) (auto simp: good_def line_header_def name_value_separator_def)
  moreover have "?line \<noteq> [CHR 0x0D]" by (simp add: name_value_separator_def)
  moreover have "concat (header_buffers (h # hs)) @ misc_crlf @ content = ?line @ CHR 0x0A # ?rest"
    by (simp add: misc_crlf_def)
  ultimately show ?case
    using Cons.IH [of ?line] Cons.prems by (subst print_headers_of.simps) (simp add: misc_crlf_def)
qed

lemma http_response_reply:
  assumes "list_all line_header (rep_headers rep)"
  shows "http_response garbage (concat (to_buffers rep)) =
    (if rep_status rep = Ok then (concat (header_buffers (rep_headers rep)) @ [CHR 0x0A] @ rep_content rep, 0)
     else (''Response returned with status code '' @ decimal (nat (status_code (rep_status rep))) @ [CHR 0x0A], 1))"
proof -
  let ?rest = "concat (header_buffers (rep_headers rep)) @ misc_crlf @ rep_content rep"
  have bytes: "concat (to_buffers rep) = status_strings (rep_status rep) @ ?rest" by (simp add: to_buffers_def)
  have step: "http_response garbage (status_strings st @ ?rest) =
      (if st = Ok then (concat (header_buffers (rep_headers rep)) @ [CHR 0x0A] @ rep_content rep, 0)
       else (''Response returned with status code '' @ decimal (nat (status_code st)) @ [CHR 0x0A], 1))" for st
    by (cases st)
      (simp_all add: http_response_def read_string_def read_unsigned_def get_line_def good_def isspace_def isdigit_def promote_def
        dec_value_def misc_crlf_def Let_def print_headers_of_buffers [OF assms, unfolded misc_crlf_def, simplified])
  show ?thesis unfolding bytes by (rule step)
qed

section \<open>Against the server of \<open>http_server\<close>\<close>

definition client_request :: "string \<Rightarrow> string \<Rightarrow> request" where
  "client_request server path =
     \<lparr>req_method = ''GET'', req_uri = path, req_http_version_major = 1, req_http_version_minor = 0,
      req_headers = [\<lparr>h_name = ''Host'', h_value = server\<rparr>, \<lparr>h_name = ''Accept'', h_value = ''*/*''\<rparr>,
        \<lparr>h_name = ''Connection'', h_value = ''close''\<rparr>]\<rparr>"

lemma http_request_text_printed: "http_request_text server path = print_request (client_request server path)"
proof -
  have "decimal 1 = ''1''" "decimal 0 = ''0''" by code_simp+
  then show ?thesis by (simp add: http_request_text_def print_request_def client_request_def crlf_def)
qed

lemma client_request_wf:
  assumes "list_all text_char server" "list_all uri_char path"
  shows "wf_request (client_request server path)"
proof -
  have "list_all token_char ''GET'' \<and> list_all token_char ''Host'' \<and> list_all token_char ''Accept''
      \<and> list_all token_char ''Connection'' \<and> list_all text_char ''*/*'' \<and> list_all text_char ''close''
      \<and> version_range 1 \<and> version_range 0"
    by code_simp
  with assms show ?thesis by (simp add: wf_request_def wf_text_def wf_header_def client_request_def)
qed

lemma decimal_no_lf: "CHR 0x0A \<notin> set (decimal n)"
  using isdigit_decimal [of n] by (auto simp: list_all_iff isdigit_def promote_def)

lemma extension_to_type_no_lf: "CHR 0x0A \<notin> set (extension_to_type e)"
  by (auto simp: extension_to_type_def mappings_def)

text \<open>What the client reads of a reply with the file.\<close>

lemma http_response_file:
  "http_response garbage (concat (to_buffers \<lparr>rep_status = Ok, rep_headers =
      [\<lparr>h_name = ''Content-Length'', h_value = decimal n\<rparr>, \<lparr>h_name = ''Content-Type'', h_value = extension_to_type e\<rparr>],
      rep_content = data\<rparr>))
   = (''Content-Length: '' @ decimal n @ misc_crlf @ ''Content-Type: '' @ extension_to_type e @ misc_crlf @ [CHR 0x0A] @ data, 0)"
  by (subst http_response_reply)
    (simp_all add: line_header_def decimal_no_lf extension_to_type_no_lf name_value_separator_def misc_crlf_def)

text \<open>
  C9. A file fetched from the server of \<open>http_server\<close> by the program of \<open>http_client\<close>: the request the program
  writes for the encoded path of a file of the document root, cut into any blocks, makes the server write bytes for which
  the program prints the two headers, an empty line and exactly the bytes of the file, and ends with 0, whatever
  the uninitialised status code was.
\<close>

theorem http_client_gets_file:
  assumes "Read_some i \<in> set (net_pending s)"
    and "con_parser (net_conns s i) = request_parser" "con_request (net_conns s i) = fresh_request m n"
    and "rep_content (con_reply (net_conns s i)) = []"
    and "list_all text_char server" "list_all uri_char (url_encode plain q)"
    and "q \<noteq> []" "hd q = CHR ''/''" "last q \<noteq> CHR ''/''" "\<not> contains ''..'' q" "CHR 0x00 \<notin> set (host_doc_root h @ q)"
    and "host_files h (host_doc_root h @ q) = Some data" and "\<And>n. host_lexical_cast h n = decimal n"
    and "concat bs @ b = http_request_text server (url_encode plain q)" "b \<noteq> []"
  shows "\<exists>bytes. Async_write i bytes \<in> set (net_pending (foldl (\<lambda>s b. receive h i b s) s (bs @ [b])))
    \<and> http_response garbage bytes =
        (''Content-Length: '' @ decimal (length data) @ misc_crlf
         @ ''Content-Type: '' @ extension_to_type (file_extension q) @ misc_crlf @ [CHR 0x0A] @ data, 0)"
proof -
  let ?rep = "\<lparr>rep_status = Ok, rep_headers =
      [\<lparr>h_name = ''Content-Length'', h_value = decimal (length data)\<rparr>,
       \<lparr>h_name = ''Content-Type'', h_value = extension_to_type (file_extension q)\<rparr>], rep_content = data\<rparr>"
  have "Async_write i (concat (to_buffers ?rep)) \<in> set (net_pending (foldl (\<lambda>s b. receive h i b s) s (bs @ [b])))"
    using assms
    by (intro file_sent [where req = "client_request server (url_encode plain q)" and rest = "[]"] client_request_wf)
      (simp_all add: http_request_text_printed client_request_def)
  then show ?thesis using http_response_file by blast
qed

theorem http_client_gets_file_witness:
  "\<exists>bytes. Async_write 0 bytes
      \<in> set (net_pending (foldl (\<lambda>s b. receive
           \<lparr>host_lexical_cast = decimal,
            host_files = (\<lambda>p. if p = ''/www/a b.html'' then Some ''hello'' else None),
            host_doc_root = ''/www''\<rparr> 0 b s)
          \<lparr>net_conns = (\<lambda>_. fresh_connection (0, 0, Ok)), net_fresh = 2,
           net_pending = [Read_some 0, Accept 1], srv_connections = {0}, srv_acceptor_open = True,
           srv_new_connection = 1\<rparr>
          ([''GET /a%20b.html HTTP/1.0'', misc_crlf @ ''Host: pc'' @ misc_crlf @ ''Acc'']
           @ [''ept: */*'' @ misc_crlf @ ''Connection: close'' @ misc_crlf @ misc_crlf])))
    \<and> http_response 7 bytes =
        (''Content-Length: '' @ decimal (length ''hello'') @ misc_crlf
         @ ''Content-Type: '' @ extension_to_type (file_extension ''/a b.html'') @ misc_crlf @ [CHR 0x0A] @ ''hello'', 0)"
proof -
  let ?u = "url_encode (\<lambda>c. c \<noteq> CHR '' '') ''/a b.html''"
  have uri: "list_all text_char ''pc''" "list_all uri_char ?u" by code_simp+
  have dots: "\<not> contains ''..'' ''/a b.html''" by code_simp
  have input: "concat [''GET /a%20b.html HTTP/1.0'', misc_crlf @ ''Host: pc'' @ misc_crlf @ ''Acc'']
      @ (''ept: */*'' @ misc_crlf @ ''Connection: close'' @ misc_crlf @ misc_crlf) = http_request_text ''pc'' ?u"
    by code_simp
  show ?thesis
    by (rule http_client_gets_file [where m = 0 and n = 0, OF _ _ _ _ uri _ _ _ dots _ _ _ input])
      (simp_all add: fresh_connection_def misc_crlf_def)
qed

end
