(* ===== verification/Http_Server2.thy ===== *)
theory Http_Server2
  imports Asio_Net
begin

text \<open>
  \<open>connection.cpp\<close>, \<open>io_context_pool.cpp\<close> and \<open>server.cpp\<close> of \<open>asio-examples/http_server2\<close>: one
  \<open>io_context\<close> per thread, handed out in turn. There is no connection manager: a connection
  without outstanding operations is destroyed, which closes its socket. The parser, the request
  handler and the reply are those of the first server.
\<close>

section \<open>\<open>io_context_pool.cpp\<close>\<close>

text \<open>For each context whether it has been stopped, and \<open>next_io_context_\<close>. The constructor throws
  \<open>std::runtime_error\<close> for an empty pool.\<close>

record io_context_pool =
  io_contexts :: "bool list"
  next_io_context :: nat

definition io_context_pool_new :: "nat \<Rightarrow> string + io_context_pool" where
  "io_context_pool_new pool_size =
     (if pool_size = 0 then Inl ''io_context_pool size is 0''
      else Inr \<lparr>io_contexts = replicate pool_size False, next_io_context = 0\<rparr>)"

definition pool_stop :: "io_context_pool \<Rightarrow> io_context_pool" where
  "pool_stop p = p\<lparr>io_contexts := List.map (\<lambda>stopped. True) (io_contexts p)\<rparr>"

definition get_io_context :: "io_context_pool \<Rightarrow> nat \<times> io_context_pool" where
  "get_io_context p =
     (let io_context = next_io_context p;
          p = p\<lparr>next_io_context := next_io_context p + 1\<rparr>;
          p = (if next_io_context p = length (io_contexts p) then p\<lparr>next_io_context := 0\<rparr> else p)
      in (io_context, p))"

text \<open>The context of the \<open>k\<close>-th call, counted from 0.\<close>

primrec nth_context :: "nat \<Rightarrow> io_context_pool \<Rightarrow> nat" where
  "nth_context 0 p = fst (get_io_context p)"
| "nth_context (Suc k) p = nth_context k (snd (get_io_context p))"

lemma get_io_context_next:
  assumes "next_io_context p < length (io_contexts p)"
  shows "fst (get_io_context p) = next_io_context p"
    and "next_io_context (snd (get_io_context p)) = Suc (next_io_context p) mod length (io_contexts p)"
    and "io_contexts (snd (get_io_context p)) = io_contexts p"
  using assms by (auto simp: get_io_context_def Let_def mod_Suc)

lemma nth_context_mod:
  "next_io_context p < length (io_contexts p)
   \<Longrightarrow> nth_context k p = (next_io_context p + k) mod length (io_contexts p)"
proof (induction k arbitrary: p)
  case 0
  then show ?case by (simp add: get_io_context_next)
next
  case (Suc k)
  let ?q = "snd (get_io_context p)"
  have "0 < length (io_contexts p)" using Suc.prems by linarith
  then have "next_io_context ?q < length (io_contexts ?q)"
    using get_io_context_next [OF Suc.prems] by simp
  then show ?case
    using Suc.IH [of ?q] get_io_context_next [OF Suc.prems] by (simp add: mod_add_left_eq)
qed

section \<open>\<open>connection.cpp\<close>\<close>

definition connection2_start :: "nat \<Rightarrow> 'a net_scheme \<Rightarrow> 'a net_scheme" where
  "connection2_start i s = async_start (Read_some i) s"

definition handle_read2 :: "host \<Rightarrow> nat \<Rightarrow> error_code \<Rightarrow> string \<Rightarrow> 'a net_scheme \<Rightarrow> 'a net_scheme" where
  "handle_read2 h i e data s =
     (if e = No_error then
        (let c = net_conns s i;
             (result, parser, req, ignored) = parse (con_parser c) (con_request c) data;
             s = update_con i (\<lambda>c. c\<lparr>con_parser := parser, con_request := req\<rparr>) s
         in if result = TTrue then
              (let rep = handle_request (host_lexical_cast h) (host_files h) (host_doc_root h) req (con_reply c);
                   s = update_con i (\<lambda>c. c\<lparr>con_reply := rep\<rparr>) s
               in async_start (Async_write i (concat (to_buffers rep))) s)
            else if result = TFalse then
              (let rep = stock_reply (host_lexical_cast h) Bad_request;
                   s = update_con i (\<lambda>c. c\<lparr>con_reply := rep\<rparr>) s
               in async_start (Async_write i (concat (to_buffers rep))) s)
            else async_start (Read_some i) s)
      else s)"

definition handle_write2 :: "nat \<Rightarrow> error_code \<Rightarrow> 'a net_scheme \<Rightarrow> 'a net_scheme" where
  "handle_write2 i e s =
     (if e = No_error then update_con i (\<lambda>c. c\<lparr>socket_shutdown := True\<rparr>) s else s)"

section \<open>\<open>server.cpp\<close>\<close>

text \<open>The pool, the contexts of \<open>signals_\<close> and of \<open>acceptor_\<close>, \<open>new_connection_\<close>, and for each
  connection the context its socket was constructed with.\<close>

record server2 = net +
  s2_pool :: io_context_pool
  s2_signals :: nat
  s2_acceptor :: nat
  s2_new_connection :: nat
  s2_context :: "nat \<Rightarrow> nat"

definition start_accept2 :: "uninit \<Rightarrow> server2 \<Rightarrow> server2" where
  "start_accept2 u s =
     (let (io_context, pool) = get_io_context (s2_pool s);
          i = net_fresh s;
          s = s\<lparr>net_conns := (net_conns s)(i := fresh_connection u), net_fresh := Suc i,
                s2_pool := pool, s2_new_connection := i,
                s2_context := (s2_context s)(i := io_context)\<rparr>
      in async_start (Accept i) s)"

definition handle_accept2 :: "uninit \<Rightarrow> error_code \<Rightarrow> server2 \<Rightarrow> server2" where
  "handle_accept2 u e s =
     start_accept2 u (if e = No_error then connection2_start (s2_new_connection s) s else s)"

definition handle_stop2 :: "server2 \<Rightarrow> server2" where
  "handle_stop2 s = s\<lparr>s2_pool := pool_stop (s2_pool s)\<rparr>"

definition server2_new :: "nat \<Rightarrow> uninit \<Rightarrow> string + server2" where
  "server2_new io_context_pool_size u =
     (case io_context_pool_new io_context_pool_size of
        Inl error \<Rightarrow> Inl error
      | Inr pool \<Rightarrow>
          (let (signals, pool) = get_io_context pool;
               (acceptor, pool) = get_io_context pool;
               s = async_start Signal_wait
                 \<lparr>net_conns = (\<lambda>_. fresh_connection u), net_fresh = 0, net_pending = [],
                  s2_pool = pool, s2_signals = signals, s2_acceptor = acceptor,
                  s2_new_connection = 0, s2_context = (\<lambda>_. 0)\<rparr>
           in Inr (start_accept2 u s)))"

text \<open>The context whose thread runs the handler of an operation, and the handler.\<close>

fun op_context :: "server2 \<Rightarrow> async_op \<Rightarrow> nat" where
  "op_context s (Accept i) = s2_acceptor s"
| "op_context s Signal_wait = s2_signals s"
| "op_context s (Read_some i) = s2_context s i"
| "op_context s (Async_write i bs) = s2_context s i"

fun completion2 :: "host \<Rightarrow> uninit \<Rightarrow> async_op \<Rightarrow> error_code \<Rightarrow> string \<Rightarrow> server2 \<Rightarrow> server2" where
  "completion2 h u (Accept i) e data s = handle_accept2 u e (accepted i e s)"
| "completion2 h u Signal_wait e data s = handle_stop2 s"
| "completion2 h u (Read_some i) e data s = handle_read2 h i e data s"
| "completion2 h u (Async_write i bs) e data s = handle_write2 i e s"

text \<open>A context that has been stopped runs no further handler.\<close>

inductive server2_step :: "host \<Rightarrow> server2 \<Rightarrow> server2 \<Rightarrow> bool" for h where
  server2_step:
    "net_pending s = xs @ op # ys \<Longrightarrow> length data \<le> 8192
     \<Longrightarrow> \<not> io_contexts (s2_pool s) ! op_context s op
     \<Longrightarrow> server2_step h s (completion2 h u op e data (s\<lparr>net_pending := xs @ ys\<rparr>))"

inductive_cases server2_stepE: "server2_step h s t"

interpretation connection2: connection_contract
  "net_pending :: server2 \<Rightarrow> async_op list" connection2_start handle_read2 handle_write2
proof
  show "net_pending (connection2_start i s) = net_pending s @ [Read_some i]" for i and s :: server2
    by (simp add: connection2_start_def)
  show "\<exists>ops. net_pending (handle_read2 h i e d s) = net_pending s @ ops
      \<and> (ops = [] \<or> (\<exists>op. ops = [op] \<and> on_conn i op))" for h i e d and s :: server2
    by (auto simp: handle_read2_def Let_def split: prod.split)
  show "net_pending (handle_write2 i e s) = net_pending s" for i e and s :: server2
    by (simp add: handle_write2_def)
qed


section \<open>Invariant\<close>

definition server2_inv :: "nat \<Rightarrow> server2 \<Rightarrow> bool" where
  "server2_inv n s \<longleftrightarrow>
     0 < n \<and> length (io_contexts (s2_pool s)) = n
     \<and> next_io_context (s2_pool s) = (net_fresh s + 2) mod n
     \<and> s2_signals s = 0 \<and> s2_acceptor s = 1 mod n
     \<and> (\<forall>i<net_fresh s. s2_context s i = (i + 2) mod n)
     \<and> net_fresh s = Suc (s2_new_connection s)
     \<and> connection2.orderly (s2_new_connection s) s
     \<and> filter is_accept (net_pending s) = [Accept (s2_new_connection s)]"

lemma start_accept2_inv:
  assumes "0 < n" "length (io_contexts (s2_pool s)) = n"
    "next_io_context (s2_pool s) = (net_fresh s + 2) mod n" "s2_signals s = 0" "s2_acceptor s = 1 mod n"
    "\<forall>i<net_fresh s. s2_context s i = (i + 2) mod n"
    "connection2.orderly (net_fresh s) s" "filter is_accept (net_pending s) = []"
  shows "server2_inv n (start_accept2 u s)"
proof -
  obtain c p where g: "get_io_context (s2_pool s) = (c, p)" by (cases "get_io_context (s2_pool s)")
  have "next_io_context (s2_pool s) < length (io_contexts (s2_pool s))" using assms(1-3) by simp
  from get_io_context_next [OF this] have c: "c = (net_fresh s + 2) mod n" "length (io_contexts p) = n"
      "next_io_context p = (Suc (net_fresh s) + 2) mod n"
    using assms(2,3) g by (simp_all add: mod_Suc_eq)
  have "connection2.orderly (net_fresh s) (start_accept2 u s)"
    by (rule connection2.orderly_same [OF assms(7)]) (simp add: start_accept2_def g async_start_def Let_def)
  then show ?thesis
    using assms c by (auto simp: server2_inv_def start_accept2_def g Let_def async_start_def less_Suc_eq)
qed

lemma server2_new_inv: "server2_new n u = Inr s \<Longrightarrow> server2_inv n s"
proof -
  assume new: "server2_new n u = Inr s"
  then have n: "0 < n" by (auto simp: server2_new_def io_context_pool_new_def split: if_splits)
  let ?p = "\<lparr>io_contexts = replicate n False, next_io_context = 0\<rparr>"
  obtain p1 where p1: "get_io_context ?p = (0, p1)" "io_contexts p1 = replicate n False"
      "next_io_context p1 = 1 mod n"
    using get_io_context_next [of ?p] n by (cases "get_io_context ?p") auto
  obtain p2 where p2: "get_io_context p1 = (1 mod n, p2)" "io_contexts p2 = replicate n False"
      "next_io_context p2 = 2 mod n"
    using get_io_context_next [of p1] n p1 by (cases "get_io_context p1") (auto simp: mod_Suc_eq numeral_2_eq_2)
  show ?thesis
    using new n unfolding server2_new_def io_context_pool_new_def
    by (auto simp: p1 p2 Let_def async_start_def connection2.orderly_def connection2.exclusive_def
        connection2.idle_from_def numeral_2_eq_2 intro!: start_accept2_inv)
qed

lemma handle_read2_frame:
  "s2_pool (handle_read2 h i e d s) = s2_pool s" "net_fresh (handle_read2 h i e d s) = net_fresh s"
  "s2_signals (handle_read2 h i e d s) = s2_signals s" "s2_acceptor (handle_read2 h i e d s) = s2_acceptor s"
  "s2_context (handle_read2 h i e d s) = s2_context s"
  "s2_new_connection (handle_read2 h i e d s) = s2_new_connection s" for s :: server2
  by (simp_all add: handle_read2_def Let_def async_start_def update_con_def split: prod.split)

lemma handle_write2_frame:
  "s2_pool (handle_write2 i e s) = s2_pool s" "net_fresh (handle_write2 i e s) = net_fresh s"
  "s2_signals (handle_write2 i e s) = s2_signals s" "s2_acceptor (handle_write2 i e s) = s2_acceptor s"
  "s2_context (handle_write2 i e s) = s2_context s" "net_pending (handle_write2 i e s) = net_pending s"
  "s2_new_connection (handle_write2 i e s) = s2_new_connection s" for s :: server2
  by (simp_all add: handle_write2_def update_con_def)

lemma server2_step_inv: "server2_step h s t \<Longrightarrow> server2_inv n s \<Longrightarrow> server2_inv n t"
proof (induction rule: server2_step.induct)
  case (server2_step s xs op ys data u e)
  note p = server2_step.hyps(1) and inv = server2_step.prems
  let ?s = "s\<lparr>net_pending := xs @ ys\<rparr>"
  have orderly: "connection2.orderly (s2_new_connection s) s" using inv by (simp add: server2_inv_def)
  show ?case
  proof (cases op)
    case (Accept i)
    have acc: "filter is_accept xs = [] \<and> filter is_accept ys = []"
      using singleton_middle [of "filter is_accept xs" op "filter is_accept ys" "Accept (s2_new_connection s)"]
        inv p Accept by (simp add: server2_inv_def)
    have o: "connection2.orderly (s2_new_connection s) (accepted i e ?s)"
      by (rule connection2.orderly_same [OF orderly]) (simp add: p Accept)
    have "connection2.orderly (Suc (s2_new_connection s))
        (if e = No_error then connection2_start (s2_new_connection s) (accepted i e ?s) else accepted i e ?s)"
      using connection2.orderly_start [OF o] o
      by (auto simp: connection2.orderly_def connection2.idle_from_def)
    then show ?thesis
      using inv acc unfolding Accept completion2.simps handle_accept2_def
      by (intro start_accept2_inv)
        (auto simp: server2_inv_def accepted_def connection2_start_def async_start_def update_con_def)
  next
    case Signal_wait
    have "connection2.orderly (s2_new_connection s) (handle_stop2 ?s)"
      by (rule connection2.orderly_same [OF orderly]) (simp add: p Signal_wait handle_stop2_def)
    then show ?thesis
      using inv by (simp add: Signal_wait server2_inv_def handle_stop2_def pool_stop_def p)
  next
    case (Read_some i)
    have "connection2.orderly (s2_new_connection s) (handle_read2 h i e data ?s)"
      by (rule connection2.orderly_read [OF orderly]) (simp_all add: p Read_some)
    then show ?thesis
      using inv connection2.accepts_read [of h i e data ?s]
      by (simp add: Read_some server2_inv_def handle_read2_frame p)
  next
    case (Async_write i bs)
    have "connection2.orderly (s2_new_connection s) (handle_write2 i e ?s)"
      by (rule connection2.orderly_write [OF orderly]) (simp_all add: p Async_write)
    then show ?thesis
      using inv by (simp add: Async_write server2_inv_def handle_write2_frame p)
  qed
qed

lemma server2_reachable_inv:
  assumes "(server2_step h)\<^sup>*\<^sup>* s t" and "server2_new n u = Inr s"
  shows "server2_inv n t"
  using assms by (induction rule: rtranclp_induct) (auto simp: server2_new_inv server2_step_inv)

text \<open>The handlers run on contexts of the pool.\<close>

lemma op_context_less:
  assumes "server2_inv n s" "op \<in> set (net_pending s)"
  shows "op_context s op < n"
proof (cases op)
  have less: "s2_context s i < n" if "on_conn i op" for i
  proof -
    obtain xs ys where "net_pending s = xs @ op # ys" using assms(2) by (meson split_list)
    then have "0 < ops_on i (net_pending s)" using that by simp
    then have "i < net_fresh s"
      using assms(1) unfolding server2_inv_def connection2.orderly_def connection2.idle_from_def
      by (metis leI less_SucI less_irrefl)
    then show ?thesis using assms(1) by (simp add: server2_inv_def)
  qed
  { case (Accept i) then show ?thesis using assms(1) by (simp add: server2_inv_def) }
  { case Signal_wait then show ?thesis using assms(1) by (simp add: server2_inv_def) }
  { case (Read_some i) then show ?thesis using less [of i] by simp }
  { case (Async_write i bs) then show ?thesis using less [of i] by simp }
qed

section \<open>Properties\<close>

text \<open>
  The pool: construction fails exactly for size 0, and otherwise the \<open>k\<close>-th call of
  \<open>get_io_context\<close> returns context \<open>k mod size\<close>: every context gets its turn, in range, for any
  number of calls.
\<close>

theorem io_context_pool_round_robin:
  "case io_context_pool_new n of
     Inl error \<Rightarrow> n = 0
   | Inr p \<Rightarrow> n \<noteq> 0 \<and> (\<forall>k. nth_context k p = k mod n)"
  by (simp add: io_context_pool_new_def nth_context_mod)

text \<open>
  In every state the multi-context server can reach, each connection has at most one
  outstanding operation, handled by context \<open>(i + 2) mod n\<close> (the first two go to the signals and
  the acceptor); there is one outstanding accept; every handler runs on a context of the pool;
  and after the handler of a signal no further handler runs.
\<close>

theorem server2_reachable:
  assumes "server2_new n u = Inr s" and "(server2_step h)\<^sup>*\<^sup>* s t"
  shows "(\<forall>i. length (filter (on_conn i) (net_pending t)) \<le> 1)
    \<and> (\<forall>i<net_fresh t. s2_context t i = (i + 2) mod n)
    \<and> filter is_accept (net_pending t) = [Accept (s2_new_connection t)]
    \<and> (\<forall>op\<in>set (net_pending t). op_context t op < n)
    \<and> (\<forall>t'. \<not> server2_step h (handle_stop2 t) t')"
proof -
  have inv: "server2_inv n t" using server2_reachable_inv [OF assms(2,1)] .
  have less: "\<forall>op\<in>set (net_pending t). op_context t op < n" using op_context_less [OF inv] by blast
  have len: "length (io_contexts (s2_pool t)) = n" using inv by (simp add: server2_inv_def)
  have ctx: "op_context (handle_stop2 t) op = op_context t op" for op
    by (cases op) (simp_all add: handle_stop2_def)
  have "\<not> server2_step h (handle_stop2 t) t'" for t'
  proof
    assume "server2_step h (handle_stop2 t) t'"
    then obtain xs op ys where "net_pending (handle_stop2 t) = xs @ op # ys"
        "\<not> io_contexts (s2_pool (handle_stop2 t)) ! op_context (handle_stop2 t) op"
      by (auto elim: server2_stepE)
    then show False using less len unfolding ctx by (auto simp: handle_stop2_def pool_stop_def)
  qed
  then show ?thesis
    using inv less
    by (simp add: server2_inv_def connection2.orderly_def connection2.exclusive_def ops_on_def)
qed

theorem server2_reachable_witness:
  "op_context (projr (server2_new 3 (0, 0, Ok))) Signal_wait < 3
   \<and> op_context (projr (server2_new 3 (0, 0, Ok))) (Accept 0) < 3"
proof -
  let ?s = "projr (server2_new 3 (0, 0, Ok))"
  let ?h = "\<lparr>host_lexical_cast = decimal, host_files = (\<lambda>_. None), host_doc_root = ''/www''\<rparr>"
  have s: "server2_new 3 (0, 0, Ok) = Inr ?s"
    by (simp add: server2_new_def io_context_pool_new_def Let_def split: prod.split)
  have "(server2_step ?h)\<^sup>*\<^sup>* ?s ?s" by simp
  note inv = server2_reachable [OF s this]
  have "net_pending ?s = [Signal_wait, Accept 0]"
    by (simp add: server2_new_def io_context_pool_new_def Let_def get_io_context_def start_accept2_def
        async_start_def)
  with inv have "\<forall>op\<in>set [Signal_wait, Accept 0]. op_context ?s op < 3" by metis
  then show ?thesis by simp
qed

end
