(* ===== verification/Http_Server3.thy ===== *)
theory Http_Server3
  imports Asio_Net
begin

text \<open>
  \<open>connection.cpp\<close> and \<open>server.cpp\<close> of \<open>asio-examples/http_server3\<close>: several threads run the
  handlers of one \<open>io_context\<close>. A connection declares a \<open>strand_\<close>, which would keep its handlers
  from running at the same time, but no handler is wrapped in it. What orders the handlers is
  that a connection never has two outstanding operations, which this theory proves for the
  operations that wait and the handlers that run together.

  A handler runs between two steps: a thread takes a completed operation, and later the effect
  of its handler takes place. The effect is one step because a handler does nothing after the
  call that starts its next operation.
\<close>

section \<open>State\<close>

record server3 = net +
  s3_thread_pool_size :: nat
  s3_running :: "(async_op \<times> error_code \<times> string) list"
  s3_new_connection :: nat
  s3_stopped :: bool

section \<open>\<open>connection.cpp\<close>\<close>

definition connection3_start :: "nat \<Rightarrow> 'a net_scheme \<Rightarrow> 'a net_scheme" where
  "connection3_start i s = async_start (Read_some i) s"

definition handle_read3 :: "host \<Rightarrow> nat \<Rightarrow> error_code \<Rightarrow> string \<Rightarrow> 'a net_scheme \<Rightarrow> 'a net_scheme" where
  "handle_read3 h i e data s =
     (if e = No_error then
        (let c = net_conns s i;
             (result, parser, req, ignored) = parse (con_parser c) (con_request c) data;
             s = update_con i (\<lambda>c. c\<lparr>con_parser := parser, con_request := req\<rparr>) s
         in if result = TTrue then
              (let rep = handle_request (host_lexical_cast h) (host_files h) (host_doc_root h) req (con_reply c);
                   s = update_con i (\<lambda>c. c\<lparr>con_reply := rep\<rparr>) s
               in async_start (Async_write i (concat (to_buffers rep))) s)
            else if result = TFalse then
              (let rep = stock_reply (host_lexical_cast h) Bad_request;
                   s = update_con i (\<lambda>c. c\<lparr>con_reply := rep\<rparr>) s
               in async_start (Async_write i (concat (to_buffers rep))) s)
            else async_start (Read_some i) s)
      else s)"

definition handle_write3 :: "nat \<Rightarrow> error_code \<Rightarrow> 'a net_scheme \<Rightarrow> 'a net_scheme" where
  "handle_write3 i e s =
     (if e = No_error then update_con i (\<lambda>c. c\<lparr>socket_shutdown := True\<rparr>) s else s)"

section \<open>\<open>server.cpp\<close>\<close>

definition start_accept3 :: "uninit \<Rightarrow> server3 \<Rightarrow> server3" where
  "start_accept3 u s =
     (let i = net_fresh s;
          s = s\<lparr>net_conns := (net_conns s)(i := fresh_connection u), net_fresh := Suc i,
                s3_new_connection := i\<rparr>
      in async_start (Accept i) s)"

definition handle_accept3 :: "uninit \<Rightarrow> error_code \<Rightarrow> server3 \<Rightarrow> server3" where
  "handle_accept3 u e s =
     start_accept3 u (if e = No_error then connection3_start (s3_new_connection s) s else s)"

definition handle_stop3 :: "server3 \<Rightarrow> server3" where
  "handle_stop3 s = s\<lparr>s3_stopped := True\<rparr>"

definition server3_new :: "nat \<Rightarrow> uninit \<Rightarrow> server3" where
  "server3_new thread_pool_size u =
     start_accept3 u (async_start Signal_wait
       \<lparr>net_conns = (\<lambda>_. fresh_connection u), net_fresh = 0, net_pending = [],
        s3_thread_pool_size = thread_pool_size, s3_running = [], s3_new_connection = 0,
        s3_stopped = False\<rparr>)"

fun completion3 :: "host \<Rightarrow> uninit \<Rightarrow> async_op \<Rightarrow> error_code \<Rightarrow> string \<Rightarrow> server3 \<Rightarrow> server3" where
  "completion3 h u (Accept i) e data s = handle_accept3 u e (accepted i e s)"
| "completion3 h u Signal_wait e data s = handle_stop3 s"
| "completion3 h u (Read_some i) e data s = handle_read3 h i e data s"
| "completion3 h u (Async_write i bs) e data s = handle_write3 i e s"

text \<open>
  The threads of \<open>server::run\<close>: an idle one takes an operation that has completed, unless the
  context was stopped; a busy one finishes its handler.
\<close>

inductive server3_step :: "host \<Rightarrow> server3 \<Rightarrow> server3 \<Rightarrow> bool" for h where
  take_op:
    "net_pending s = xs @ op # ys \<Longrightarrow> length data \<le> 8192 \<Longrightarrow> \<not> s3_stopped s
     \<Longrightarrow> length (s3_running s) < s3_thread_pool_size s
     \<Longrightarrow> server3_step h s (s\<lparr>net_pending := xs @ ys, s3_running := (op, e, data) # s3_running s\<rparr>)"
| finish_op:
    "s3_running s = xs @ (op, e, data) # ys
     \<Longrightarrow> server3_step h s (completion3 h u op e data (s\<lparr>s3_running := xs @ ys\<rparr>))"

text \<open>The operations that wait and those whose handlers run.\<close>

definition all_ops :: "server3 \<Rightarrow> async_op list" where
  "all_ops s = List.map fst (s3_running s) @ net_pending s"

lemma running_frame [simp]:
  "s3_running (async_start op s) = s3_running s" "s3_running (update_con i f s) = s3_running s"
  "s3_running (accepted i e s) = s3_running s"
  by (simp_all add: async_start_def update_con_def accepted_def)

interpretation connection3: connection_contract all_ops connection3_start handle_read3 handle_write3
proof
  show "all_ops (connection3_start i s) = all_ops s @ [Read_some i]" for i s
    by (simp add: connection3_start_def all_ops_def)
  show "\<exists>ops. all_ops (handle_read3 h i e d s) = all_ops s @ ops
      \<and> (ops = [] \<or> (\<exists>op. ops = [op] \<and> on_conn i op))" for h i e d s
    by (auto simp: handle_read3_def all_ops_def Let_def split: prod.split)
  show "all_ops (handle_write3 i e s) = all_ops s" for i e s
    by (simp add: handle_write3_def all_ops_def)
qed

section \<open>Invariant\<close>

definition server3_inv :: "server3 \<Rightarrow> bool" where
  "server3_inv s \<longleftrightarrow>
     net_fresh s = Suc (s3_new_connection s)
     \<and> connection3.orderly (s3_new_connection s) s
     \<and> filter is_accept (all_ops s) = [Accept (s3_new_connection s)]
     \<and> length (s3_running s) \<le> s3_thread_pool_size s"

lemma start_accept3_inv:
  assumes "connection3.orderly (net_fresh s) s" "filter is_accept (all_ops s) = []"
    "length (s3_running s) \<le> s3_thread_pool_size s"
  shows "server3_inv (start_accept3 u s)"
proof -
  have "connection3.orderly (net_fresh s) (start_accept3 u s)"
    by (rule connection3.orderly_same [OF assms(1)])
      (simp add: start_accept3_def async_start_def all_ops_def Let_def)
  then show ?thesis
    using assms(2,3) by (simp add: server3_inv_def start_accept3_def async_start_def all_ops_def Let_def)
qed

lemma server3_new_inv: "server3_inv (server3_new n u)"
  unfolding server3_new_def
  by (rule start_accept3_inv)
    (simp_all add: async_start_def all_ops_def connection3.orderly_def connection3.exclusive_def
      connection3.idle_from_def)

lemma handler3_frame:
  "net_fresh (handle_read3 h i e d s) = net_fresh s" "net_fresh (handle_write3 i e s) = net_fresh s"
  "s3_new_connection (handle_read3 h i e d s) = s3_new_connection s"
  "s3_new_connection (handle_write3 i e s) = s3_new_connection s"
  "s3_running (handle_read3 h i e d s) = s3_running s" "s3_running (handle_write3 i e s) = s3_running s"
  "s3_thread_pool_size (handle_read3 h i e d s) = s3_thread_pool_size s"
  "s3_thread_pool_size (handle_write3 i e s) = s3_thread_pool_size s" for s :: server3
  by (simp_all add: handle_read3_def handle_write3_def Let_def async_start_def update_con_def split: prod.split)

lemma finish_inv:
  assumes inv: "server3_inv s" and r: "s3_running s = xs @ (op, e, data) # ys"
  shows "server3_inv (completion3 h u op e data (s\<lparr>s3_running := xs @ ys\<rparr>))"
proof -
  let ?s = "s\<lparr>s3_running := xs @ ys\<rparr>" and ?n = "s3_new_connection s"
  have orderly: "connection3.orderly ?n s" using inv by (simp add: server3_inv_def)
  have before: "all_ops s = List.map fst xs @ op # (List.map fst ys @ net_pending s)"
    by (simp add: all_ops_def r)
  have after: "all_ops ?s = List.map fst xs @ (List.map fst ys @ net_pending s)"
    by (simp add: all_ops_def)
  have len: "length xs + length ys < s3_thread_pool_size s" using inv r by (simp add: server3_inv_def)
  show ?thesis
  proof (cases op)
    case (Accept i)
    have acc: "filter is_accept (all_ops ?s) = []"
      using inv unfolding server3_inv_def before after Accept
      by (cases "filter is_accept (List.map fst xs)") auto
    have o: "connection3.orderly ?n (accepted i e ?s)"
      by (rule connection3.orderly_same [OF orderly]) (simp add: r Accept all_ops_def)
    have "connection3.orderly (Suc ?n)
        (if e = No_error then connection3_start ?n (accepted i e ?s) else accepted i e ?s)"
      using connection3.orderly_start [OF o] o
      by (auto simp: connection3.orderly_def connection3.idle_from_def)
    then show ?thesis
      using inv acc len unfolding Accept completion3.simps handle_accept3_def
      by (intro start_accept3_inv)
        (auto simp: server3_inv_def accepted_def connection3_start_def async_start_def update_con_def
          all_ops_def)
  next
    case Signal_wait
    have "connection3.orderly ?n (handle_stop3 ?s)"
      by (rule connection3.orderly_same [OF orderly])
        (simp add: r Signal_wait handle_stop3_def all_ops_def)
    then show ?thesis
      using inv len by (simp add: Signal_wait server3_inv_def handle_stop3_def all_ops_def r)
  next
    case (Read_some i)
    have "connection3.orderly ?n (handle_read3 h i e data ?s)"
      by (rule connection3.orderly_read [OF orderly]) (simp_all only: before after Read_some)
    moreover have "filter is_accept (all_ops (handle_read3 h i e data ?s)) = [Accept ?n]"
      using inv unfolding connection3.accepts_read after by (simp add: server3_inv_def before Read_some)
    ultimately show ?thesis
      using inv len by (simp add: Read_some server3_inv_def handler3_frame)
  next
    case (Async_write i bs)
    have "connection3.orderly ?n (handle_write3 i e ?s)"
      by (rule connection3.orderly_write [OF orderly]) (simp_all only: before after Async_write)
    moreover have "filter is_accept (all_ops (handle_write3 i e ?s)) = [Accept ?n]"
      using inv unfolding connection3.write_law after by (simp add: server3_inv_def before Async_write)
    ultimately show ?thesis
      using inv len by (simp add: Async_write server3_inv_def handler3_frame)
  qed
qed

lemma take_inv:
  assumes inv: "server3_inv s" and p: "net_pending s = xs @ op # ys"
    and "length (s3_running s) < s3_thread_pool_size s"
  shows "server3_inv (s\<lparr>net_pending := xs @ ys, s3_running := (op, e, data) # s3_running s\<rparr>)"
    (is "server3_inv ?t")
proof -
  have orderly: "connection3.orderly (s3_new_connection s) s" using inv by (simp add: server3_inv_def)
  have "connection3.orderly (s3_new_connection s) ?t"
    by (rule connection3.orderly_same [OF orderly]) (simp add: all_ops_def p)
  moreover have "filter is_accept (all_ops ?t) = [Accept (s3_new_connection s)]"
  proof (cases "is_accept op")
    case True
    then obtain i where i: "op = Accept i" by (cases op) auto
    have "filter is_accept (List.map fst (s3_running s) @ xs) @ op # filter is_accept ys
        = [Accept (s3_new_connection s)]"
      using inv True by (simp add: server3_inv_def all_ops_def p)
    then have "(filter is_accept (List.map fst (s3_running s)) @ filter is_accept xs) @ op # filter is_accept ys
        = [Accept (s3_new_connection s)]"
      by simp
    from singleton_middle [OF this] show ?thesis by (simp add: all_ops_def True)
  next
    case False
    then show ?thesis using inv by (simp add: server3_inv_def all_ops_def p)
  qed
  ultimately show ?thesis
    using inv assms(3) by (simp add: server3_inv_def)
qed

lemma server3_reachable_inv:
  "(server3_step h)\<^sup>*\<^sup>* (server3_new n u) s \<Longrightarrow> server3_inv s"
proof (induction rule: rtranclp_induct)
  case base
  show ?case by (rule server3_new_inv)
next
  case (step s t)
  from step.hyps(2) step.IH show ?case
    by (cases rule: server3_step.cases) (simp_all add: take_inv finish_inv)
qed

section \<open>Properties\<close>

text \<open>
  C23. No two handlers of one connection ever run at the same time, and no handler of a connection
  runs while another operation of it is outstanding, with any number of threads: the buffer,
  parser, request and reply of a connection are used by one thread at a time, without the
  strand. Likewise there is one accept, waiting or in its handler, so \<open>new_connection_\<close> is used by
  one thread at a time.
\<close>

theorem server3_handlers_exclusive:
  assumes "(server3_step h)\<^sup>*\<^sup>* (server3_new n u) s"
  shows "(\<forall>i. length (filter (on_conn i) (List.map fst (s3_running s) @ net_pending s)) \<le> 1)
    \<and> length (filter is_accept (List.map fst (s3_running s) @ net_pending s)) = 1
    \<and> length (s3_running s) \<le> s3_thread_pool_size s"
  using server3_reachable_inv [OF assms]
  unfolding server3_inv_def connection3.orderly_def connection3.exclusive_def ops_on_def all_ops_def
  by auto

theorem server3_handlers_exclusive_witness:
  "length (filter is_accept [Accept 0, Signal_wait]) = 1"
proof -
  let ?h = "\<lparr>host_lexical_cast = decimal, host_files = (\<lambda>_. None), host_doc_root = ''/www''\<rparr>"
  let ?s = "server3_new 2 (0, 0, Ok)"
  let ?t = "?s\<lparr>net_pending := [Signal_wait] @ [], s3_running := (Accept 0, No_error, []) # s3_running ?s\<rparr>"
  have "net_pending ?s = [Signal_wait] @ Accept 0 # []" "\<not> s3_stopped ?s"
      "length (s3_running ?s) < s3_thread_pool_size ?s"
    by (simp_all add: server3_new_def start_accept3_def async_start_def)
  then have "server3_step ?h ?s ?t" by (intro take_op) simp_all
  then have "(server3_step ?h)\<^sup>*\<^sup>* ?s ?t" by simp
  from server3_handlers_exclusive [OF this] show ?thesis
    by (simp add: server3_new_def start_accept3_def async_start_def)
qed

end
