(* ===== verification/Http_Parser4.thy ===== *)
theory Http_Parser4
  imports Http_Requests
begin

text \<open>
  \<open>asio-examples/http_server4/request_parser.hpp\<close> and \<open>.cpp\<close>: the request parser written as a
  stackless coroutine. A state is the \<open>yield\<close> at which the coroutine is suspended; the equation
  of \<open>consume4\<close> for it is the code from there to the next \<open>yield\<close> or \<open>return\<close>. A \<open>return\<close> inside
  the coroutine terminates it, and from then on \<open>consume\<close> skips the body and returns true.

  The character classes are the functions of the first parser. \<open>boost::lexical_cast\<close> from a
  string to \<open>std::size_t\<close> is a parameter, \<open>None\<close> when it throws \<open>bad_lexical_cast\<close>.
\<close>

section \<open>Data\<close>

text \<open>\<open>request.hpp\<close> of \<open>http_server4\<close>: the request has a content.\<close>

record request4 = request +
  req_content :: string

text \<open>The points where the coroutine is suspended: \<open>Start\<close> before the first call, \<open>Done\<close> after
  a return, the others named by what was read last.\<close>

datatype point =
  Start | In_method | Method_space | In_uri | Uri_space
  | Saw_H | Saw_HT | Saw_HTT | Saw_HTTP | Saw_slash
  | In_major | Version_dot | In_minor | Request_cr | Line_feed
  | In_lws | In_name | Name_colon | Colon_space | In_value | Value_cr
  | Final_cr | In_content | Done

text \<open>The members of \<open>request_parser\<close>: the coroutine state and \<open>content_length_\<close>.\<close>

record parser4 =
  p4_point :: point
  p4_content_length :: nat

section \<open>The helpers\<close>

text \<open>\<open>std::tolower\<close> of the \<open>C\<close> locale.\<close>

definition tolower :: "char \<Rightarrow> char" where
  "tolower c = (if 65 \<le> promote c \<and> promote c \<le> 90 then to_char (promote c + 32) else c)"

definition tolower_compare :: "char \<Rightarrow> char \<Rightarrow> bool" where
  "tolower_compare a b \<longleftrightarrow> tolower a = tolower b"

definition headers_equal :: "string \<Rightarrow> string \<Rightarrow> bool" where
  "headers_equal a b \<longleftrightarrow>
     (if length a \<noteq> length b then False else list_all2 tolower_compare a b)"

definition content_length_name :: string where
  "content_length_name = ''Content-Length''"

text \<open>The loop over the headers: every \<open>Content-Length\<close> header replaces the length, one that is
  not a number ends the loop.\<close>

fun find_content_length :: "(string \<Rightarrow> nat option) \<Rightarrow> header list \<Rightarrow> nat \<Rightarrow> nat option" where
  "find_content_length lexical_cast [] content_length = Some content_length"
| "find_content_length lexical_cast (h # hs) content_length =
     (if headers_equal (h_name h) content_length_name then
        (case lexical_cast (h_value h) of
           Some n \<Rightarrow> find_content_length lexical_cast hs n
         | None \<Rightarrow> None)
      else find_content_length lexical_cast hs content_length)"

definition push_name4 :: "char \<Rightarrow> request4 \<Rightarrow> request4" where
  "push_name4 c req = req\<lparr>req_headers :=
     map_back (\<lambda>h. h\<lparr>h_name := h_name h @ [c]\<rparr>) (req_headers req)\<rparr>"

definition push_value4 :: "char \<Rightarrow> request4 \<Rightarrow> request4" where
  "push_value4 c req = req\<lparr>req_headers :=
     map_back (\<lambda>h. h\<lparr>h_value := h_value h @ [c]\<rparr>) (req_headers req)\<rparr>"

section \<open>The coroutine\<close>

definition yield_at :: "point \<Rightarrow> parser4 \<Rightarrow> request4 \<Rightarrow> tribool \<times> parser4 \<times> request4" where
  "yield_at pt p req = (Indeterminate, p\<lparr>p4_point := pt\<rparr>, req)"

definition return_from :: "tribool \<Rightarrow> parser4 \<Rightarrow> request4 \<Rightarrow> tribool \<times> parser4 \<times> request4" where
  "return_from result p req = (result, p\<lparr>p4_point := Done\<rparr>, req)"

text \<open>The code up to the method loop, which clears the request.\<close>

definition clear_request :: "request4 \<Rightarrow> request4" where
  "clear_request req = req\<lparr>req_method := [], req_uri := [], req_http_version_major := 0,
     req_http_version_minor := 0, req_headers := [], req_content := []\<rparr>"

text \<open>The loop of the method, with what follows it (lines 37 to 48).\<close>

definition method_loop :: "parser4 \<Rightarrow> request4 \<Rightarrow> char \<Rightarrow> tribool \<times> parser4 \<times> request4" where
  "method_loop p req c =
     (if is_char (promote c) \<and> \<not> is_ctl (promote c) \<and> \<not> is_tspecial (promote c) \<and> c \<noteq> CHR '' ''
      then yield_at In_method p (req\<lparr>req_method := req_method req @ [c]\<rparr>)
      else if req_method req = [] then return_from TFalse p req
      else if c \<noteq> CHR '' '' then return_from TFalse p req
      else yield_at Method_space p req)"

definition uri_loop :: "parser4 \<Rightarrow> request4 \<Rightarrow> char \<Rightarrow> tribool \<times> parser4 \<times> request4" where
  "uri_loop p req c =
     (if \<not> is_ctl (promote c) \<and> c \<noteq> CHR '' ''
      then yield_at In_uri p (req\<lparr>req_uri := req_uri req @ [c]\<rparr>)
      else if req_uri req = [] then return_from TFalse p req
      else if c \<noteq> CHR '' '' then return_from TFalse p req
      else yield_at Uri_space p req)"

definition major_loop :: "parser4 \<Rightarrow> request4 \<Rightarrow> char \<Rightarrow> tribool \<times> parser4 \<times> request4" where
  "major_loop p req c =
     (if is_digit (promote c)
      then yield_at In_major p
        (req\<lparr>req_http_version_major := add_digit c (req_http_version_major req)\<rparr>)
      else if c \<noteq> CHR ''.'' then return_from TFalse p req
      else yield_at Version_dot p req)"

definition minor_loop :: "parser4 \<Rightarrow> request4 \<Rightarrow> char \<Rightarrow> tribool \<times> parser4 \<times> request4" where
  "minor_loop p req c =
     (if is_digit (promote c)
      then yield_at In_minor p
        (req\<lparr>req_http_version_minor := add_digit c (req_http_version_minor req)\<rparr>)
      else if c \<noteq> CHR 0x0D then return_from TFalse p req
      else yield_at Request_cr p req)"

text \<open>The head of the loop over the header lines, from the test of its condition to the first
  \<open>yield\<close> of its body, or past the loop to the last carriage return.\<close>

definition header_loop :: "parser4 \<Rightarrow> request4 \<Rightarrow> char \<Rightarrow> tribool \<times> parser4 \<times> request4" where
  "header_loop p req c =
     (if (is_char (promote c) \<and> \<not> is_ctl (promote c) \<and> \<not> is_tspecial (promote c) \<and> c \<noteq> CHR 0x0D)
         \<or> (c = CHR '' '' \<or> c = CHR 0x09)
      then
        (if c = CHR '' '' \<or> c = CHR 0x09 then
           (if req_headers req = [] then return_from TFalse p req
            else yield_at In_lws p req)
         else
           (let req = req\<lparr>req_headers := req_headers req @ [empty_header]\<rparr>
            in if is_char (promote c) \<and> \<not> is_ctl (promote c) \<and> \<not> is_tspecial (promote c) \<and> c \<noteq> CHR '':''
               then yield_at In_name p (push_name4 c req)
               else if c \<noteq> CHR '':'' then return_from TFalse p req
               else yield_at Name_colon p req))
      else if c \<noteq> CHR 0x0D then return_from TFalse p req
      else yield_at Final_cr p req)"

definition value_loop :: "parser4 \<Rightarrow> request4 \<Rightarrow> char \<Rightarrow> tribool \<times> parser4 \<times> request4" where
  "value_loop p req c =
     (if is_char (promote c) \<and> \<not> is_ctl (promote c) \<and> c \<noteq> CHR 0x0D
      then yield_at In_value p (push_value4 c req)
      else if c \<noteq> CHR 0x0D then return_from TFalse p req
      else yield_at Value_cr p req)"

text \<open>The loop of the content: its condition is tested before each \<open>yield\<close>; past the loop the
  body ends and \<open>consume\<close> returns true.\<close>

definition content_loop :: "parser4 \<Rightarrow> request4 \<Rightarrow> tribool \<times> parser4 \<times> request4" where
  "content_loop p req =
     (if length (req_content req) < p4_content_length p
      then yield_at In_content p req
      else return_from TTrue p req)"

definition consume4 ::
    "(string \<Rightarrow> nat option) \<Rightarrow> parser4 \<Rightarrow> request4 \<Rightarrow> char \<Rightarrow> tribool \<times> parser4 \<times> request4" where
  "consume4 lexical_cast p req c =
     (case p4_point p of
        Start \<Rightarrow> method_loop (p\<lparr>p4_content_length := 0\<rparr>) (clear_request req) c
      | In_method \<Rightarrow> method_loop p req c
      | Method_space \<Rightarrow> uri_loop p req c
      | In_uri \<Rightarrow> uri_loop p req c
      | Uri_space \<Rightarrow> if c \<noteq> CHR ''H'' then return_from TFalse p req else yield_at Saw_H p req
      | Saw_H \<Rightarrow> if c \<noteq> CHR ''T'' then return_from TFalse p req else yield_at Saw_HT p req
      | Saw_HT \<Rightarrow> if c \<noteq> CHR ''T'' then return_from TFalse p req else yield_at Saw_HTT p req
      | Saw_HTT \<Rightarrow> if c \<noteq> CHR ''P'' then return_from TFalse p req else yield_at Saw_HTTP p req
      | Saw_HTTP \<Rightarrow> if c \<noteq> CHR ''/'' then return_from TFalse p req else yield_at Saw_slash p req
      | Saw_slash \<Rightarrow> if \<not> is_digit (promote c) then return_from TFalse p req else major_loop p req c
      | In_major \<Rightarrow> major_loop p req c
      | Version_dot \<Rightarrow> if \<not> is_digit (promote c) then return_from TFalse p req else minor_loop p req c
      | In_minor \<Rightarrow> minor_loop p req c
      | Request_cr \<Rightarrow> if c \<noteq> CHR 0x0A then return_from TFalse p req else yield_at Line_feed p req
      | Line_feed \<Rightarrow> header_loop p req c
      | In_lws \<Rightarrow> if c = CHR '' '' \<or> c = CHR 0x09 then yield_at In_lws p req else value_loop p req c
      | In_name \<Rightarrow>
          if is_char (promote c) \<and> \<not> is_ctl (promote c) \<and> \<not> is_tspecial (promote c) \<and> c \<noteq> CHR '':''
          then yield_at In_name p (push_name4 c req)
          else if c \<noteq> CHR '':'' then return_from TFalse p req
          else yield_at Name_colon p req
      | Name_colon \<Rightarrow> if c \<noteq> CHR '' '' then return_from TFalse p req else yield_at Colon_space p req
      | Colon_space \<Rightarrow> value_loop p req c
      | In_value \<Rightarrow> value_loop p req c
      | Value_cr \<Rightarrow> if c \<noteq> CHR 0x0A then return_from TFalse p req else yield_at Line_feed p req
      | Final_cr \<Rightarrow>
          if c \<noteq> CHR 0x0A then return_from TFalse p req
          else (case find_content_length lexical_cast (req_headers req) (p4_content_length p) of
                  None \<Rightarrow> return_from TFalse p req
                | Some n \<Rightarrow> content_loop (p\<lparr>p4_content_length := n\<rparr>) req)
      | In_content \<Rightarrow> content_loop p (req\<lparr>req_content := req_content req @ [c]\<rparr>)
      | Done \<Rightarrow> (TTrue, p, req))"

fun parse4 ::
    "(string \<Rightarrow> nat option) \<Rightarrow> parser4 \<Rightarrow> request4 \<Rightarrow> string \<Rightarrow> tribool \<times> parser4 \<times> request4 \<times> string" where
  "parse4 lexical_cast p req [] = (Indeterminate, p, req, [])"
| "parse4 lexical_cast p req (c # cs) =
     (case consume4 lexical_cast p req c of (result, p', req') \<Rightarrow>
        if result = TTrue \<or> result = TFalse then (result, p', req', cs)
        else parse4 lexical_cast p' req' cs)"

interpretation http4: stream_parser "consume4 lexical_cast" "parse4 lexical_cast" for lexical_cast
proof
  show "parse4 lexical_cast p r [] = (Indeterminate, p, r, [])" for p r by simp
  have "(b = TTrue \<or> b = TFalse) \<longleftrightarrow> b \<noteq> Indeterminate" for b by (cases b) auto
  then show "parse4 lexical_cast p r (c # cs) =
      (case consume4 lexical_cast p r c of (b, p', r') \<Rightarrow>
        if b = Indeterminate then parse4 lexical_cast p' r' cs else (b, p', r', cs))" for p r c cs
    by (simp split: prod.split)
qed

lemmas point_defs =
  method_loop_def uri_loop_def major_loop_def minor_loop_def header_loop_def value_loop_def
  content_loop_def yield_at_def return_from_def


section \<open>Simulation by the first parser\<close>

text \<open>The state of the switch-based parser that corresponds to a point before the content.\<close>

fun phase :: "point \<Rightarrow> state option" where
  "phase Start = Some Method_start"
| "phase In_method = Some Method"
| "phase Method_space = Some Uri"
| "phase In_uri = Some Uri"
| "phase Uri_space = Some Http_version_h"
| "phase Saw_H = Some Http_version_t_1"
| "phase Saw_HT = Some Http_version_t_2"
| "phase Saw_HTT = Some Http_version_p"
| "phase Saw_HTTP = Some Http_version_slash"
| "phase Saw_slash = Some Http_version_major_start"
| "phase In_major = Some Http_version_major"
| "phase Version_dot = Some Http_version_minor_start"
| "phase In_minor = Some Http_version_minor"
| "phase Request_cr = Some Expecting_newline_1"
| "phase Line_feed = Some Header_line_start"
| "phase In_lws = Some Header_lws"
| "phase In_name = Some Header_name"
| "phase Name_colon = Some Space_before_header_value"
| "phase Colon_space = Some Header_value"
| "phase In_value = Some Header_value"
| "phase Value_cr = Some Expecting_newline_2"
| "phase Final_cr = Some Expecting_newline_3"
| "phase In_content = None"
| "phase Done = None"

definition before_version :: "point \<Rightarrow> bool" where
  "before_version pt \<longleftrightarrow>
     pt \<in> {Start, In_method, Method_space, In_uri, Uri_space, Saw_H, Saw_HT, Saw_HTT, Saw_HTTP}"

text \<open>What holds while the header is read: no content yet, the version is 0 until it is read, the
  parts read so far are not empty.\<close>

definition in_header :: "parser4 \<Rightarrow> request4 \<Rightarrow> bool" where
  "in_header p req \<longleftrightarrow>
     p4_content_length p = 0 \<and> req_content req = []
     \<and> (before_version (p4_point p) \<longrightarrow> req_http_version_major req = 0 \<and> req_http_version_minor req = 0)
     \<and> (p4_point p = Start \<longrightarrow> clear_request req = req)
     \<and> (p4_point p = In_method \<longrightarrow> req_method req \<noteq> [])
     \<and> (p4_point p = In_method \<or> p4_point p = Method_space \<longrightarrow> req_uri req = [])
     \<and> (p4_point p = In_uri \<longrightarrow> req_uri req \<noteq> [])"

lemma truncate_simps [simp]:
  "request.truncate (req\<lparr>req_method := m\<rparr>) = (request.truncate req)\<lparr>req_method := m\<rparr>"
  "request.truncate (req\<lparr>req_uri := u\<rparr>) = (request.truncate req)\<lparr>req_uri := u\<rparr>"
  "request.truncate (req\<lparr>req_http_version_major := i\<rparr>) = (request.truncate req)\<lparr>req_http_version_major := i\<rparr>"
  "request.truncate (req\<lparr>req_http_version_minor := i\<rparr>) = (request.truncate req)\<lparr>req_http_version_minor := i\<rparr>"
  "request.truncate (req\<lparr>req_headers := hs\<rparr>) = (request.truncate req)\<lparr>req_headers := hs\<rparr>"
  "request.truncate (req4\<lparr>req_content := ct\<rparr>) = request.truncate req4"
  "req_method (request.truncate req) = req_method req"
  "req_uri (request.truncate req) = req_uri req"
  "req_http_version_major (request.truncate req) = req_http_version_major req"
  "req_http_version_minor (request.truncate req) = req_http_version_minor req"
  "req_headers (request.truncate req) = req_headers req"
  by (simp_all add: request.truncate_def)

lemma truncate_push [simp]:
  "request.truncate (push_name4 c req) = push_name c (request.truncate req)"
  "request.truncate (push_value4 c req) = push_value c (request.truncate req)"
  by (simp_all add: push_name4_def push_name_def push_value4_def push_value_def)

lemma content_push [simp]:
  "req_content (push_name4 c req) = req_content req" "req_content (push_value4 c req) = req_content req"
  by (simp_all add: push_name4_def push_value4_def)

lemma clear_request_fields:
  assumes "clear_request req = req"
  shows "req_method req = []" "req_uri req = []" "req_http_version_major req = 0"
    "req_http_version_minor req = 0" "req_headers req = []" "req_content req = []"
  by (subst assms [symmetric], simp add: clear_request_def)+

lemma clear_request_start: "clear_request req = req \<Longrightarrow> request.truncate req = fresh_request 0 0"
  using clear_request_fields [of req] by (simp add: request.truncate_def fresh_request_def)

text \<open>The character tests of both parsers, by the classes of the grammar.\<close>

lemma class_tests:
  "(is_char (promote c) \<and> \<not> is_ctl (promote c) \<and> \<not> is_tspecial (promote c) \<and> P) = (token_char c \<and> P)"
  "(is_char (promote c) \<and> \<not> is_ctl (promote c) \<and> \<not> is_tspecial (promote c)) = token_char c"
  "(\<not> is_char (promote c) \<or> is_ctl (promote c) \<or> is_tspecial (promote c)) = (\<not> token_char c)"
  "is_digit (promote c) = digit_char c"
  by (auto simp: token_char_def digit_char_def)

text \<open>
  One step while the header is read: when the coroutine suspends at a later point of the header,
  the switch moves to the corresponding state with the same request.
\<close>

definition simulates :: "point \<Rightarrow> bool" where
  "simulates pt \<longleftrightarrow> (\<forall>st lc p req c p' req'. p4_point p = pt \<longrightarrow> phase pt = Some st \<longrightarrow> in_header p req
     \<longrightarrow> consume4 lc p req c = (Indeterminate, p', req')
     \<longrightarrow> (\<exists>st'. phase (p4_point p') = Some st' \<and> in_header p' req'
          \<and> consume st (request.truncate req) c = (Indeterminate, st', request.truncate req')))"

lemmas sim_defs = simulates_def consume4_def yield_at_def return_from_def class_tests
  in_header_def before_version_def

lemma token_char_parts:
  "token_char c \<Longrightarrow> is_char (promote c) \<and> \<not> is_ctl (promote c) \<and> \<not> is_tspecial (promote c)"
  by (simp add: token_char_def)

lemma sim_start: "simulates Start"
  unfolding simulates_def
proof (intro allI impI)
  fix st lc p req c p' req'
  assume pt: "p4_point p = Start" and st: "phase Start = Some st" and h: "in_header p req"
    and c: "consume4 lc p req c = (Indeterminate, p', req')"
  have clear: "clear_request req = req" using h pt by (simp add: in_header_def)
  have run: "method_loop (p\<lparr>p4_content_length := 0\<rparr>) req c = (Indeterminate, p', req')"
    using c pt by (simp add: consume4_def clear)
  have tok: "token_char c \<and> c \<noteq> CHR '' ''"
    using run clear_request_fields(1) [OF clear]
    by (simp add: method_loop_def class_tests yield_at_def return_from_def split: if_splits)
  then have "p4_point p' = In_method" "p4_content_length p' = 0" "req' = req\<lparr>req_method := req_method req @ [c]\<rparr>"
    using run by (auto simp: method_loop_def class_tests yield_at_def)
  then show "\<exists>st'. phase (p4_point p') = Some st' \<and> in_header p' req'
      \<and> consume st (request.truncate req) c = (Indeterminate, st', request.truncate req')"
    using st tok clear_request_fields [OF clear]
    by (auto simp: class_tests in_header_def before_version_def)
qed

lemma sim_method: "simulates In_method"
  by (auto simp: sim_defs method_loop_def split: if_splits dest: token_char_not token_char_parts)

lemma sim_uri:
  "simulates Method_space" "simulates In_uri"
  by (auto simp: sim_defs uri_loop_def is_ctl_separators split: if_splits)+

lemma sim_http:
  "simulates Uri_space" "simulates Saw_H" "simulates Saw_HT" "simulates Saw_HTT" "simulates Saw_HTTP"
  by (auto simp: sim_defs  split: if_splits)+

lemma sim_version:
  "simulates Saw_slash" "simulates In_major" "simulates Version_dot" "simulates In_minor" "simulates Request_cr"
  by (auto simp: sim_defs major_loop_def minor_loop_def split: if_splits dest: digit_char_not)+

lemma sim_head:
  "simulates Line_feed"
  by (auto simp: sim_defs header_loop_def proto Let_def split: if_splits dest: token_char_not token_char_parts)

lemma sim_name:
  "simulates In_name" "simulates Name_colon"
  by (auto simp: sim_defs proto split: if_splits dest: token_char_not token_char_parts)+

lemma sim_value:
  "simulates In_lws" "simulates Colon_space" "simulates In_value" "simulates Value_cr"
  by (auto simp: sim_defs value_loop_def proto is_ctl_separators split: if_splits)+

lemma sim_step:
  assumes "phase (p4_point p) = Some st" "in_header p req" "p4_point p \<noteq> Final_cr"
    and "consume4 lc p req c = (Indeterminate, p', req')"
  obtains st' where "phase (p4_point p') = Some st'" "in_header p' req'"
    "consume st (request.truncate req) c = (Indeterminate, st', request.truncate req')"
proof -
  have "simulates (p4_point p)"
    using assms(1,3)
    by (cases "p4_point p")
      (simp_all add: sim_start sim_method sim_uri sim_http sim_version sim_head sim_name sim_value)
  then show thesis using assms that unfolding simulates_def by blast
qed

text \<open>Before its last state the coroutine never reports success.\<close>

lemma not_done_early:
  assumes "phase (p4_point p) = Some st" "p4_point p \<noteq> Final_cr"
  shows "fst (consume4 lc p req c) \<noteq> TTrue"
  using assms
  by (cases "p4_point p")
    (auto simp: consume4_def method_loop_def uri_loop_def major_loop_def minor_loop_def header_loop_def
      value_loop_def yield_at_def return_from_def Let_def)

section \<open>The content\<close>

lemma content_run:
  assumes "p4_point p = In_content" "length (req_content req) < p4_content_length p"
  shows "parse4 lc p req xs = (TTrue, p', req', rest) \<longleftrightarrow>
    (\<exists>ct. xs = ct @ rest \<and> length (req_content req) + length ct = p4_content_length p
       \<and> p' = p\<lparr>p4_point := Done\<rparr> \<and> req' = req\<lparr>req_content := req_content req @ ct\<rparr>)"
  using assms
proof (induction xs arbitrary: req)
  case Nil
  then show ?case by auto
next
  case (Cons c xs)
  let ?req = "req\<lparr>req_content := req_content req @ [c]\<rparr>"
  show ?case
  proof (cases "length (req_content ?req) < p4_content_length p")
    case True
    have same: "p\<lparr>p4_point := In_content\<rparr> = p" using Cons.prems(1) by simp
    have "parse4 lc p req (c # xs) = parse4 lc p ?req xs"
      using Cons.prems(1) True by (simp add: consume4_def content_loop_def yield_at_def same)
    moreover have "(\<exists>ct. xs = ct @ rest \<and> length (req_content ?req) + length ct = p4_content_length p
         \<and> p' = p\<lparr>p4_point := Done\<rparr> \<and> req' = ?req\<lparr>req_content := req_content ?req @ ct\<rparr>)
       \<longleftrightarrow> (\<exists>ct. c # xs = ct @ rest \<and> length (req_content req) + length ct = p4_content_length p
         \<and> p' = p\<lparr>p4_point := Done\<rparr> \<and> req' = req\<lparr>req_content := req_content req @ ct\<rparr>)"
      (is "?L \<longleftrightarrow> ?R")
    proof
      assume ?L
      then obtain ct where "xs = ct @ rest" "length (req_content ?req) + length ct = p4_content_length p"
          "p' = p\<lparr>p4_point := Done\<rparr>" "req' = ?req\<lparr>req_content := req_content ?req @ ct\<rparr>" by blast
      then show ?R by (intro exI [of _ "c # ct"]) simp
    next
      assume ?R
      then obtain ct where ct: "c # xs = ct @ rest" "length (req_content req) + length ct = p4_content_length p"
          "p' = p\<lparr>p4_point := Done\<rparr>" "req' = req\<lparr>req_content := req_content req @ ct\<rparr>" by blast
      with Cons.prems(2) obtain ct' where "ct = c # ct'" by (cases ct) auto
      with ct show ?L by (intro exI [of _ ct']) simp
    qed
    ultimately show ?thesis using Cons.IH [of ?req] Cons.prems(1) True by simp
  next
    case False
    then have len: "p4_content_length p = Suc (length (req_content req))" using Cons.prems(2) by simp
    have "parse4 lc p req (c # xs) = (TTrue, p\<lparr>p4_point := Done\<rparr>, ?req, xs)"
      using Cons.prems(1) False by (simp add: consume4_def content_loop_def return_from_def)
    then show ?thesis
      unfolding len by (auto simp: length_Suc_conv Cons_eq_append_conv)
  qed
qed


section \<open>Accepted requests\<close>

lemma final_step:
  assumes "p4_point p = Final_cr" "in_header p req" and n: "find_content_length lc (req_headers req) 0 = Some n"
  shows "parse4 lc p req (CHR 0x0A # xs) = (TTrue, p', req', rest) \<longleftrightarrow>
    (\<exists>ct. xs = ct @ rest \<and> length ct = n \<and> p' = p\<lparr>p4_content_length := n, p4_point := Done\<rparr>
       \<and> req' = req\<lparr>req_content := ct\<rparr>)"
proof -
  have h: "p4_content_length p = 0" "req_content req = []" using assms(2) by (simp_all add: in_header_def)
  show ?thesis
  proof (cases "n = 0")
    case True
    have "req\<lparr>req_content := []\<rparr> = req" using h by simp
    with True show ?thesis
      using assms(1) h n by (auto simp: consume4_def content_loop_def return_from_def)
  next
    case False
    let ?p = "p\<lparr>p4_content_length := n, p4_point := In_content\<rparr>"
    have "parse4 lc p req (CHR 0x0A # xs) = parse4 lc ?p req xs"
      using assms(1) h n False by (simp add: consume4_def content_loop_def yield_at_def)
    then show ?thesis
      using content_run [of ?p req lc xs p' req' rest] False h by simp
  qed
qed

lemma accept4:
  assumes "parse4 lc p req xs = (TTrue, p', req', rest)" "phase (p4_point p) = Some st" "in_header p req"
  shows "\<exists>cs. xs = cs @ req_content req' @ rest
    \<and> (\<forall>ys. parse st (request.truncate req) (cs @ ys) = (TTrue, Expecting_newline_3, request.truncate req', ys))
    \<and> find_content_length lc (req_headers req') 0 = Some (length (req_content req'))"
  using assms
proof (induction xs arbitrary: p req st)
  case Nil
  then show ?case by simp
next
  case (Cons c xs)
  obtain b p1 r1 where step: "consume4 lc p req c = (b, p1, r1)" by (metis prod_cases3)
  show ?case
  proof (cases "p4_point p = Final_cr")
    case True
    have st: "st = Expecting_newline_3" using Cons.prems(2) True by simp
    have h: "p4_content_length p = 0" using Cons.prems(3) by (simp add: in_header_def)
    have c: "c = CHR 0x0A"
      using Cons.prems(1) True by (auto simp: consume4_def return_from_def split: if_splits)
    obtain n where n: "find_content_length lc (req_headers req) 0 = Some n"
      using Cons.prems(1) True h c
      by (cases "find_content_length lc (req_headers req) 0") (auto simp: consume4_def return_from_def)
    obtain ct where "xs = ct @ rest" "length ct = n" "req' = req\<lparr>req_content := ct\<rparr>"
      using Cons.prems(1) unfolding c final_step [OF True Cons.prems(3) n] by blast
    then show ?thesis using n c st by (intro exI [of _ "[c]"]) simp
  next
    case False
    have "b = Indeterminate"
      using Cons.prems(1) step not_done_early [OF Cons.prems(2) False, of lc req c]
      by (cases b) auto
    then obtain st1 where 1: "phase (p4_point p1) = Some st1" "in_header p1 r1"
        and s1: "consume st (request.truncate req) c = (Indeterminate, st1, request.truncate r1)"
      using sim_step [OF Cons.prems(2,3) False] step by metis
    have "parse4 lc p1 r1 xs = (TTrue, p', req', rest)"
      using Cons.prems(1) step \<open>b = Indeterminate\<close> by simp
    from Cons.IH [OF this 1] obtain cs where cs: "xs = cs @ req_content req' @ rest"
        "\<forall>ys. parse st1 (request.truncate r1) (cs @ ys) = (TTrue, Expecting_newline_3, request.truncate req', ys)"
        "find_content_length lc (req_headers req') 0 = Some (length (req_content req'))" by blast
    have "parse st (request.truncate req) ((c # cs) @ ys)
        = (TTrue, Expecting_newline_3, request.truncate req', ys)" for ys
      using cs(2) http.run_Cons_more [OF s1] by simp
    then show ?thesis using cs(1,3) by (intro exI [of _ "c # cs"]) simp
  qed
qed

lemma parse4_start:
  assumes "p4_point p = Start"
  shows "parse4 lc p req (c # cs) = parse4 lc (p\<lparr>p4_content_length := 0\<rparr>) (clear_request req) (c # cs)"
  using assms by (simp add: consume4_def clear_request_def)

lemma in_header_start: "p4_point p = Start \<Longrightarrow> in_header (p\<lparr>p4_content_length := 0\<rparr>) (clear_request req)"
  by (simp add: in_header_def clear_request_def before_version_def)

section \<open>Requests that are accepted\<close>

text \<open>After the URI the coroutine follows the switch on every character that is ASCII.\<close>

definition follows :: "point \<Rightarrow> bool" where
  "follows pt \<longleftrightarrow> (\<forall>st lc p req c st' r'. p4_point p = pt \<longrightarrow> phase pt = Some st \<longrightarrow> is_char (promote c)
     \<longrightarrow> consume st (request.truncate req) c = (Indeterminate, st', r')
     \<longrightarrow> fst (consume4 lc p req c) = Indeterminate)"

lemmas follow_defs = follows_def consume4_def yield_at_def return_from_def class_tests

lemma follow_http:
  "follows Uri_space" "follows Saw_H" "follows Saw_HT" "follows Saw_HTT" "follows Saw_HTTP"
  by (auto simp: follow_defs split: if_splits)+

lemma follow_version:
  "follows Saw_slash" "follows In_major" "follows Version_dot" "follows In_minor" "follows Request_cr"
  by (auto simp: follow_defs major_loop_def minor_loop_def split: if_splits)+

lemma tspecial_blank: "is_tspecial (promote CHR '' '')" "is_tspecial (promote CHR 0x09)"
  by (simp_all add: is_tspecial_promote)

lemma follow_head: "follows Line_feed"
  by (auto simp: follow_defs tspecial_blank header_loop_def proto Let_def split: if_splits dest: token_char_not token_char_parts)

lemma follow_name: "follows In_name" "follows Name_colon"
  by (auto simp: follow_defs proto split: if_splits dest: token_char_parts)+

lemma follow_value: "follows In_lws" "follows Colon_space" "follows In_value" "follows Value_cr"
  by (auto simp: follow_defs value_loop_def proto split: if_splits)+

lemma back_step:
  assumes "phase (p4_point p) = Some st" "in_header p req"
    and pt: "p4_point p \<notin> {Start, In_method, Method_space, In_uri, Final_cr}" and "is_char (promote c)"
    and "consume st (request.truncate req) c = (Indeterminate, st', r')"
  obtains p' req' where "consume4 lc p req c = (Indeterminate, p', req')"
    "phase (p4_point p') = Some st'" "in_header p' req'" "r' = request.truncate req'"
    "p4_point p' \<notin> {Start, In_method, Method_space, In_uri}"
proof -
  have "follows (p4_point p)"
    using assms(1) pt
    by (cases "p4_point p")
      (simp_all add: follow_http follow_version follow_head follow_name follow_value)
  then have "fst (consume4 lc p req c) = Indeterminate"
    using assms(1,4,5) unfolding follows_def by blast
  then obtain p' req' where c: "consume4 lc p req c = (Indeterminate, p', req')"
    by (cases "consume4 lc p req c") auto
  obtain st1 where "phase (p4_point p') = Some st1" "in_header p' req'"
      "consume st (request.truncate req) c = (Indeterminate, st1, request.truncate req')"
    using sim_step [OF assms(1,2) _ c] pt by blast
  moreover have "p4_point p' \<notin> {Start, In_method, Method_space, In_uri}"
    using c pt assms(1)
    by (cases "p4_point p")
      (auto simp: consume4_def yield_at_def return_from_def major_loop_def minor_loop_def
        header_loop_def value_loop_def Let_def split: if_splits)
  ultimately show thesis using that c assms(5) by simp
qed

lemma follow_run:
  assumes "parse st (request.truncate req) cs = (TTrue, st', r', [])" "phase (p4_point p) = Some st"
    "in_header p req" "p4_point p \<notin> {Start, In_method, Method_space, In_uri}"
    "list_all (\<lambda>c. is_char (promote c)) cs"
    "find_content_length lc (req_headers r') 0 = Some (length ct)"
  shows "\<exists>p' req'. parse4 lc p req (cs @ ct @ rest) = (TTrue, p', req', rest)
    \<and> request.truncate req' = r' \<and> req_content req' = ct"
  using assms
proof (induction cs arbitrary: p req st)
  case Nil
  then show ?case by simp
next
  case (Cons c cs)
  obtain b st1 r1 where step: "consume st (request.truncate req) c = (b, st1, r1)" by (metis prod_cases3)
  show ?case
  proof (cases "p4_point p = Final_cr")
    case True
    then have st: "st = Expecting_newline_3" using Cons.prems(2) by simp
    have c: "c = CHR 0x0A" "cs = []" "r' = request.truncate req"
      using Cons.prems(1) st by (auto split: if_splits)
    have n: "find_content_length lc (req_headers req) 0 = Some (length ct)"
      using Cons.prems(6) c(3) by simp
    have "parse4 lc p req (CHR 0x0A # (ct @ rest))
        = (TTrue, p\<lparr>p4_content_length := length ct, p4_point := Done\<rparr>, req\<lparr>req_content := ct\<rparr>, rest)"
      using final_step [OF True Cons.prems(3) n] by blast
    then show ?thesis using c by simp
  next
    case False
    have "b = Indeterminate"
    proof (rule ccontr)
      assume b: "b \<noteq> Indeterminate"
      then have "b = TTrue" using Cons.prems(1) step by (cases b) auto
      with step False Cons.prems(2,4) show False
        by (cases "p4_point p") (auto simp: proto Let_def split: if_splits)
    qed
    with step have step: "consume st (request.truncate req) c = (Indeterminate, st1, r1)" by simp
    obtain p1 req1 where 1: "consume4 lc p req c = (Indeterminate, p1, req1)"
        "phase (p4_point p1) = Some st1" "in_header p1 req1" "r1 = request.truncate req1"
        "p4_point p1 \<notin> {Start, In_method, Method_space, In_uri}"
      using back_step [OF Cons.prems(2,3) _ _ step, of lc] False Cons.prems(4,5) by auto
    have "parse st1 (request.truncate req1) cs = (TTrue, st', r', [])"
      using Cons.prems(1) http.run_Cons_more [OF step] 1(4) by simp
    from Cons.IH [OF this 1(2,3,5)] Cons.prems(5,6) show ?thesis
      using http4.run_Cons_more [OF 1(1)] by simp
  qed
qed

text \<open>The method and the URI.\<close>

lemma run_method4:
  assumes "list_all token_char m"
  shows "parse4 lc (p\<lparr>p4_point := In_method\<rparr>) req (m @ ys)
    = parse4 lc (p\<lparr>p4_point := In_method\<rparr>) (req\<lparr>req_method := req_method req @ m\<rparr>) ys"
proof -
  have "fold (\<lambda>c r. r\<lparr>req_method := req_method r @ [c]\<rparr>) m req = req\<lparr>req_method := req_method req @ m\<rparr>"
    for req :: request4
    by (induction m arbitrary: req) simp_all
  moreover have "consume4 lc (p\<lparr>p4_point := In_method\<rparr>) r c
      = (Indeterminate, p\<lparr>p4_point := In_method\<rparr>, r\<lparr>req_method := req_method r @ [c]\<rparr>)"
    if "c \<in> set m" for c r
    using that assms token_char_not [of c]
    by (simp add: list_all_iff consume4_def method_loop_def class_tests yield_at_def)
  ultimately show ?thesis
    using http4.run_scan [of m lc "p\<lparr>p4_point := In_method\<rparr>" "\<lambda>c r. r\<lparr>req_method := req_method r @ [c]\<rparr>"]
    by simp
qed

lemma run_uri4:
  assumes "list_all uri_char u"
  shows "parse4 lc (p\<lparr>p4_point := In_uri\<rparr>) req (u @ ys)
    = parse4 lc (p\<lparr>p4_point := In_uri\<rparr>) (req\<lparr>req_uri := req_uri req @ u\<rparr>) ys"
proof -
  have "fold (\<lambda>c r. r\<lparr>req_uri := req_uri r @ [c]\<rparr>) u req = req\<lparr>req_uri := req_uri req @ u\<rparr>"
    for req :: request4
    by (induction u arbitrary: req) simp_all
  moreover have "consume4 lc (p\<lparr>p4_point := In_uri\<rparr>) r c
      = (Indeterminate, p\<lparr>p4_point := In_uri\<rparr>, r\<lparr>req_uri := req_uri r @ [c]\<rparr>)"
    if "c \<in> set u" for c r
    using that assms
    by (simp add: list_all_iff consume4_def uri_loop_def uri_char_def yield_at_def)
  ultimately show ?thesis
    using http4.run_scan [of u lc "p\<lparr>p4_point := In_uri\<rparr>" "\<lambda>c r. r\<lparr>req_uri := req_uri r @ [c]\<rparr>"]
    by simp
qed

lemma run_request_line4:
  assumes "list_all token_char m" "m \<noteq> []" "list_all uri_char u" "u \<noteq> []"
  shows "parse4 lc \<lparr>p4_point = Start, p4_content_length = 0\<rparr> (clear_request req) (m @ '' '' @ u @ '' '' @ ys)
    = parse4 lc \<lparr>p4_point = Uri_space, p4_content_length = 0\<rparr>
        ((clear_request req)\<lparr>req_method := m, req_uri := u\<rparr>) ys"
proof -
  let ?at = "\<lambda>pt. \<lparr>p4_point = pt, p4_content_length = 0\<rparr>"
  obtain c m' where m: "m = c # m'" using assms(2) by (cases m) auto
  obtain d u' where u: "u = d # u'" using assms(4) by (cases u) auto
  have c: "token_char c" "c \<noteq> CHR '' ''" and d: "uri_char d" "d \<noteq> CHR '' ''"
    using assms(1,3) token_char_not [of c] by (simp_all add: m u uri_char_def)
  have "parse4 lc (?at Start) (clear_request req) (m @ '' '' @ u @ '' '' @ ys)
      = parse4 lc (?at In_method) ((clear_request req)\<lparr>req_method := [c]\<rparr>) (m' @ '' '' @ u @ '' '' @ ys)"
    using c by (simp add: m consume4_def method_loop_def class_tests yield_at_def clear_request_def)
  also have "\<dots> = parse4 lc (?at In_method) ((clear_request req)\<lparr>req_method := m\<rparr>) ('' '' @ u @ '' '' @ ys)"
    using run_method4 [of m' lc "?at Start"] assms(1) by (simp add: m)
  also have "\<dots> = parse4 lc (?at Method_space) ((clear_request req)\<lparr>req_method := m\<rparr>) (u @ '' '' @ ys)"
    using assms(2) by (simp add: consume4_def method_loop_def yield_at_def)
  also have "\<dots> = parse4 lc (?at In_uri) ((clear_request req)\<lparr>req_method := m, req_uri := [d]\<rparr>) (u' @ '' '' @ ys)"
    using d by (simp add: u consume4_def uri_loop_def uri_char_def yield_at_def clear_request_def)
  also have "\<dots> = parse4 lc (?at In_uri) ((clear_request req)\<lparr>req_method := m, req_uri := u\<rparr>) ('' '' @ ys)"
    using run_uri4 [of u' lc "?at Start"] assms(3) by (simp add: u)
  also have "\<dots> = parse4 lc (?at Uri_space) ((clear_request req)\<lparr>req_method := m, req_uri := u\<rparr>) ys"
    using assms(4) by (simp add: consume4_def uri_loop_def yield_at_def)
  finally show ?thesis .
qed


lemma parse4_print:
  assumes "p4_point p = Start" and "wf_request req" "req_uri req \<noteq> []"
    and "list_all (\<lambda>c. is_char (promote c)) (print_request req)"
    and "find_content_length lc (req_headers req) 0 = Some (length ct)"
  shows "\<exists>p' req'. parse4 lc p r (print_request req @ ct @ rest) = (TTrue, p', req', rest)
    \<and> request.truncate req' = req \<and> req_content req' = ct"
proof -
  let ?line = "\<lparr>p4_point = Start, p4_content_length = 0\<rparr>"
  let ?m = "req_method req" and ?u = "req_uri req"
  obtain tail where tail: "print_request req = ?m @ '' '' @ ?u @ '' '' @ tail"
    by (simp add: print_request_def)
  have wf: "list_all token_char ?m" "?m \<noteq> []" "list_all uri_char ?u"
    using assms(2) by (simp_all add: wf_request_def wf_text_def)
  have "parse Method_start (fresh_request 0 0) (print_request req @ []) = (TTrue, Expecting_newline_3, req, [])"
    using request_accepted [OF print_request_syntax [OF assms(2)]] by blast
  then have "parse Http_version_h ((fresh_request 0 0)\<lparr>req_method := ?m, req_uri := ?u\<rparr>) tail
      = (TTrue, Expecting_newline_3, req, [])"
    using wf method_uri_line [of ?m ?u "fresh_request 0 0" tail]
    by (simp add: tail list_all_iff fresh_request_def)
  moreover have "(fresh_request 0 0)\<lparr>req_method := ?m, req_uri := ?u\<rparr>
      = request.truncate ((clear_request r)\<lparr>req_method := ?m, req_uri := ?u\<rparr>)"
  proof -
    have "request.truncate (clear_request r) = fresh_request 0 0"
      by (rule clear_request_start) (simp add: clear_request_def)
    then show ?thesis by (simp only: truncate_simps)
  qed
  ultimately obtain p' req' where
    "parse4 lc \<lparr>p4_point = Uri_space, p4_content_length = 0\<rparr>
        ((clear_request r)\<lparr>req_method := ?m, req_uri := ?u\<rparr>) (tail @ ct @ rest) = (TTrue, p', req', rest)"
    "request.truncate req' = req" "req_content req' = ct"
    using follow_run [of Http_version_h "(clear_request r)\<lparr>req_method := ?m, req_uri := ?u\<rparr>" tail
        Expecting_newline_3 req "\<lparr>p4_point = Uri_space, p4_content_length = 0\<rparr>" lc ct rest] assms(4,5)
    by (auto simp: in_header_def before_version_def clear_request_def tail)
  moreover have "parse4 lc p r (print_request req @ ct @ rest)
      = parse4 lc ?line (clear_request r) (print_request req @ ct @ rest)"
  proof -
    obtain c xs where cx: "print_request req @ ct @ rest = c # xs" using wf(2) by (cases ?m) (auto simp: tail)
    have "p\<lparr>p4_content_length := 0\<rparr> = ?line" using assms(1) by simp
    then show ?thesis using parse4_start [OF assms(1), of lc r c xs] unfolding cx by simp
  qed
  ultimately show ?thesis
    using run_request_line4 [OF wf assms(3), of lc r "tail @ ct @ rest"] by (auto simp: tail)
qed

section \<open>Properties\<close>

text \<open>
  C14. What the coroutine parser accepts: from its first call, with any request, success means that
  the input is a request of the grammar, then as many bytes of content as the last
  \<open>Content-Length\<close> header announces, then the unread rest; and the parser of the other servers
  accepts the same request and stops in front of the content.
\<close>

theorem parse4_accepts:
  assumes "p4_point p = Start" and "parse4 lc p req input = (TTrue, p', req', rest)"
  shows "\<exists>cs. input = cs @ req_content req' @ rest \<and> request_syntax cs (request.truncate req')
    \<and> find_content_length lc (req_headers req') 0 = Some (length (req_content req'))
    \<and> parse request_parser (fresh_request 0 0) input
        = (TTrue, Expecting_newline_3, request.truncate req', req_content req' @ rest)"
proof -
  obtain c xs where input: "input = c # xs" using assms(2) by (cases input) auto
  have clear: "request.truncate (clear_request req) = fresh_request 0 0"
    by (rule clear_request_start) (simp add: clear_request_def)
  have "parse4 lc (p\<lparr>p4_content_length := 0\<rparr>) (clear_request req) input = (TTrue, p', req', rest)"
    using assms parse4_start [OF assms(1), of lc req c xs] by (simp only: input)
  then obtain cs where cs: "input = cs @ req_content req' @ rest"
      "\<forall>ys. parse Method_start (fresh_request 0 0) (cs @ ys)
        = (TTrue, Expecting_newline_3, request.truncate req', ys)"
      "find_content_length lc (req_headers req') 0 = Some (length (req_content req'))"
    using accept4 [of lc "p\<lparr>p4_content_length := 0\<rparr>" "clear_request req" input p' req' rest Method_start]
      in_header_start [OF assms(1), of req] assms(1) clear by auto
  moreover have "request_syntax cs (request.truncate req')"
    using accept_request [OF cs(2) [rule_format, of "[]"]] by auto
  ultimately show ?thesis by (auto simp: request_parser_def)
qed

theorem parse4_accepts_witness:
  "\<exists>cs. ''POST /x HTTP/1.0'' @ crlf @ ''content-length: 2'' @ crlf @ crlf @ ''abcd'' = cs @ ''ab'' @ ''cd''
    \<and> request_syntax cs \<lparr>req_method = ''POST'', req_uri = ''/x'', req_http_version_major = 1,
        req_http_version_minor = 0, req_headers = [\<lparr>h_name = ''content-length'', h_value = ''2''\<rparr>]\<rparr>"
proof -
  let ?lc = "\<lambda>s. if s = ''2'' then Some 2 else None"
  let ?r = "\<lparr>req_method = [], req_uri = [], req_http_version_major = 5, req_http_version_minor = 5,
    req_headers = [], req_content = ''old''\<rparr>"
  let ?req = "\<lparr>req_method = ''POST'', req_uri = ''/x'', req_http_version_major = 1,
        req_http_version_minor = 0, req_headers = [\<lparr>h_name = ''content-length'', h_value = ''2''\<rparr>]\<rparr>"
  have print: "print_request ?req = ''POST /x HTTP/1.0'' @ crlf @ ''content-length: 2'' @ crlf @ crlf"
    by code_simp
  have wf: "wf_request ?req" by code_simp
  have ascii: "list_all (\<lambda>c. is_char (promote c)) (print_request ?req)" by code_simp
  have "headers_equal ''content-length'' content_length_name" by code_simp
  then have n: "find_content_length ?lc (req_headers ?req) 0 = Some (length ''ab'')" by simp
  obtain p' req' where "parse4 ?lc \<lparr>p4_point = Start, p4_content_length = 9\<rparr> ?r (print_request ?req @ ''ab'' @ ''cd'')
      = (TTrue, p', req', ''cd'')" "request.truncate req' = ?req" "req_content req' = ''ab''"
    using parse4_print [OF _ wf _ ascii n, of "\<lparr>p4_point = Start, p4_content_length = 9\<rparr>" ?r "''cd''"] by auto
  with parse4_accepts [of "\<lparr>p4_point = Start, p4_content_length = 9\<rparr>" ?lc ?r _ p' req' "''cd''"]
  show ?thesis unfolding print by fastforce
qed

text \<open>
  Round trip with content: a well-formed ASCII request with a URI, printed and followed by
  a content of the announced length, is parsed to the same request and content, whatever
  follows.
\<close>

theorem parse4_print_request:
  assumes "p4_point p = Start" and "wf_request req" "req_uri req \<noteq> []"
    and "list_all (\<lambda>c. is_char (promote c)) (print_request req)"
    and "find_content_length lc (req_headers req) 0 = Some (length ct)"
  shows "\<exists>p' req'. parse4 lc p r (print_request req @ ct @ rest) = (TTrue, p', req', rest)
    \<and> request.truncate req' = req \<and> req_content req' = ct"
  using assms by (rule parse4_print)

theorem parse4_print_request_witness:
  "\<exists>p' req'. parse4 (\<lambda>s. if s = ''2'' then Some 2 else None) \<lparr>p4_point = Start, p4_content_length = 9\<rparr>
      \<lparr>req_method = [], req_uri = [], req_http_version_major = 5, req_http_version_minor = 5,
       req_headers = [], req_content = ''old''\<rparr>
      (print_request \<lparr>req_method = ''POST'', req_uri = ''/x'', req_http_version_major = 1,
         req_http_version_minor = 0, req_headers = [\<lparr>h_name = ''content-length'', h_value = ''2''\<rparr>]\<rparr>
       @ ''ab'' @ ''cd'') = (TTrue, p', req', ''cd'')
    \<and> request.truncate req' = \<lparr>req_method = ''POST'', req_uri = ''/x'', req_http_version_major = 1,
         req_http_version_minor = 0, req_headers = [\<lparr>h_name = ''content-length'', h_value = ''2''\<rparr>]\<rparr>
    \<and> req_content req' = ''ab''"
proof (rule parse4_print_request)
  let ?req = "\<lparr>req_method = ''POST'', req_uri = ''/x'', req_http_version_major = 1,
         req_http_version_minor = 0, req_headers = [\<lparr>h_name = ''content-length'', h_value = ''2''\<rparr>]\<rparr>"
  show "wf_request ?req" by code_simp
  show "list_all (\<lambda>c. is_char (promote c)) (print_request ?req)" by code_simp
  have "headers_equal ''content-length'' content_length_name" by code_simp
  then show "find_content_length (\<lambda>s. if s = ''2'' then Some 2 else None) (req_headers ?req) 0
      = Some (length ''ab'')"
    by simp
qed simp_all

end
