(* ===== verification/Http_Server4.thy ===== *)
theory Http_Server4
  imports Http_Parser4 Asio_Net
begin

text \<open>
  \<open>server.cpp\<close> of \<open>asio-examples/http_server4\<close>: the whole server is one function object, a stackless
  coroutine that is its own completion handler. Every asynchronous operation holds a copy of it,
  so here the operation carries the coroutine's data. \<open>request_\<close>, \<open>reply_\<close> and \<open>buffer_\<close> are shared
  pointers, but the fork resets them in the child, and of a child only the copy in its
  outstanding operation is alive, so they are values of that copy. The object that handles
  requests is the parameter the constructor takes.
\<close>

section \<open>State\<close>

text \<open>The members a child uses: its socket, parser, request and reply.\<close>

record child =
  ch_socket :: nat
  ch_parser :: parser4
  ch_request :: request4

text \<open>An outstanding operation with the coroutine suspended at its \<open>yield\<close>: the parent at the
  accept (with its socket and its parser, which the fork copies), a child at a read or a write.\<close>

datatype op4 = Accept4 nat parser4 | Read4 child | Write4 child string

record server4 =
  s4_next_socket :: nat
  s4_pending :: "op4 list"
  s4_shutdown :: "nat set"

text \<open>What the coroutine is constructed with: the conversions of \<open>boost::lexical_cast\<close> and the request
  handler.\<close>

record host4 =
  h4_cast_size :: "string \<Rightarrow> nat option"
  h4_cast_string :: "nat \<Rightarrow> string"
  h4_handler :: "request4 \<Rightarrow> reply \<Rightarrow> reply"

section \<open>The coroutine\<close>

definition op4_start :: "op4 \<Rightarrow> server4 \<Rightarrow> server4" where
  "op4_start op s = s\<lparr>s4_pending := s4_pending s @ [op]\<rparr>"

text \<open>The head of the accept loop: a new socket, and the accept.\<close>

definition accept_loop :: "parser4 \<Rightarrow> server4 \<Rightarrow> server4" where
  "accept_loop parser s =
     (let socket = s4_next_socket s
      in op4_start (Accept4 socket parser) (s\<lparr>s4_next_socket := Suc socket\<rparr>))"

text \<open>The child after the fork: new buffer and request (\<open>req\<close> stands for its uninitialised version
  numbers), and the first read.\<close>

definition child_start :: "nat \<Rightarrow> parser4 \<Rightarrow> request4 \<Rightarrow> server4 \<Rightarrow> server4" where
  "child_start socket parser req s =
     op4_start (Read4 \<lparr>ch_socket = socket, ch_parser = parser, ch_request = req\<rparr>) s"

text \<open>A child after a read: parse, read again while more data is required, then compose the reply
  (\<open>rep\<close> stands for the uninitialised status of the new reply) and write it.\<close>

definition child_read :: "host4 \<Rightarrow> reply \<Rightarrow> child \<Rightarrow> string \<Rightarrow> server4 \<Rightarrow> server4" where
  "child_read h rep ch data s =
     (let (valid_request, parser, req, ignored) = parse4 (h4_cast_size h) (ch_parser ch) (ch_request ch) data;
          ch = ch\<lparr>ch_parser := parser, ch_request := req\<rparr>
      in if valid_request = Indeterminate then op4_start (Read4 ch) s
      else
        (let rep = (if valid_request = TTrue then h4_handler h req rep
                    else stock_reply (h4_cast_string h) Bad_request)
         in op4_start (Write4 ch (concat (to_buffers rep))) s))"

text \<open>
  \<open>operator()\<close>: the completion of an operation. An error skips the coroutine. After the fork the
  child runs to its first read, then the parent goes round the accept loop.
\<close>

fun server4_call ::
    "host4 \<Rightarrow> request4 \<Rightarrow> reply \<Rightarrow> op4 \<Rightarrow> error_code \<Rightarrow> string \<Rightarrow> server4 \<Rightarrow> server4" where
  "server4_call h req rep (Accept4 socket parser) ec data s =
     (if ec = No_error then accept_loop parser (child_start socket parser req s) else s)"
| "server4_call h req rep (Read4 ch) ec data s =
     (if ec = No_error then child_read h rep ch data s else s)"
| "server4_call h req rep (Write4 ch bytes) ec data s =
     (if ec = No_error then s\<lparr>s4_shutdown := insert (ch_socket ch) (s4_shutdown s)\<rparr> else s)"

definition server4_new :: server4 where
  "server4_new =
     accept_loop \<lparr>p4_point = Start, p4_content_length = 0\<rparr>
       \<lparr>s4_next_socket = 0, s4_pending = [], s4_shutdown = {}\<rparr>"

inductive server4_step :: "host4 \<Rightarrow> server4 \<Rightarrow> op4 \<Rightarrow> error_code \<Rightarrow> server4 \<Rightarrow> bool" for h where
  server4_step:
    "s4_pending s = xs @ op # ys \<Longrightarrow> length data \<le> 8192
     \<Longrightarrow> server4_step h s op ec (server4_call h req rep op ec data (s\<lparr>s4_pending := xs @ ys\<rparr>))"

inductive server4_reachable :: "host4 \<Rightarrow> server4 \<Rightarrow> bool" for h where
  start: "server4_reachable h server4_new"
| step: "server4_reachable h s \<Longrightarrow> server4_step h s op ec t \<Longrightarrow> server4_reachable h t"

section \<open>Invariant\<close>

fun op4_socket :: "op4 \<Rightarrow> nat" where
  "op4_socket (Accept4 socket parser) = socket"
| "op4_socket (Read4 ch) = ch_socket ch"
| "op4_socket (Write4 ch bytes) = ch_socket ch"

fun is_accept4 :: "op4 \<Rightarrow> bool" where
  "is_accept4 (Accept4 socket parser) = True"
| "is_accept4 op = False"

text \<open>Each socket has at most one operation, the numbers in use are below the next one, and the
  parser of the parent is in its initial state, which the children copy.\<close>

definition server4_inv :: "server4 \<Rightarrow> bool" where
  "server4_inv s \<longleftrightarrow>
     distinct (List.map op4_socket (s4_pending s))
     \<and> (\<forall>op\<in>set (s4_pending s). op4_socket op < s4_next_socket s)
     \<and> (\<forall>i p. Accept4 i p \<in> set (s4_pending s) \<longrightarrow> p4_point p = Start)"

lemmas server4_defs = server4_inv_def accept_loop_def child_start_def op4_start_def

lemma child_read_op:
  obtains op where "child_read h rep ch data s = op4_start op s" "op4_socket op = ch_socket ch"
    "\<not> is_accept4 op"
proof -
  obtain b p r n where run: "parse4 (h4_cast_size h) (ch_parser ch) (ch_request ch) data = (b, p, r, n)"
    by (metis prod_cases4)
  show thesis
    using that [of "Read4 (ch\<lparr>ch_parser := p, ch_request := r\<rparr>)"]
      that [of "Write4 (ch\<lparr>ch_parser := p, ch_request := r\<rparr>) bs" for bs]
    by (cases b) (simp_all add: child_read_def run Let_def)
qed

lemma server4_new_inv: "server4_inv server4_new"
  by (simp add: server4_defs server4_new_def Let_def)

lemma server4_call_inv:
  assumes inv: "server4_inv s" and p: "s4_pending s = xs @ op # ys"
  shows "server4_inv (server4_call h req rep op ec data (s\<lparr>s4_pending := xs @ ys\<rparr>))"
proof -
  let ?s = "s\<lparr>s4_pending := xs @ ys\<rparr>"
  have rest: "server4_inv ?s" using inv by (auto simp: server4_inv_def p)
  show ?thesis
  proof (cases "ec = No_error")
    case False
    then show ?thesis using rest by (cases op) simp_all
  next
    case True
    show ?thesis
    proof (cases op)
      case (Accept4 i q)
      then show ?thesis using inv True by (auto simp: server4_defs p Let_def less_Suc_eq)
    next
      case (Read4 ch)
      obtain op' where op': "child_read h rep ch data ?s = op4_start op' ?s" "op4_socket op' = ch_socket ch"
          "\<not> is_accept4 op'"
        by (rule child_read_op)
      moreover have "op' \<noteq> Accept4 i q" for i q using op'(3) by (cases op') auto
      moreover have "s4_pending s = xs @ Read4 ch # ys" using p Read4 by simp
      ultimately show ?thesis
        using inv True unfolding Read4 server4_call.simps op'(1) by (auto simp: server4_defs)
    next
      case (Write4 ch bs)
      then show ?thesis using rest True by (simp add: server4_inv_def)
    qed
  qed
qed

lemma server4_reachable_inv: "server4_reachable h s \<Longrightarrow> server4_inv s"
  by (induction rule: server4_reachable.induct)
    (auto simp: server4_new_inv server4_call_inv elim!: server4_step.cases)

lemma server4_call_accepts:
  "length (filter is_accept4 (s4_pending (server4_call h req rep op ec data s)))
    = length (filter is_accept4 (s4_pending s)) + (if is_accept4 op \<and> ec = No_error then 1 else 0)"
proof (cases op)
  case (Read4 ch)
  obtain op' where "child_read h rep ch data s = op4_start op' s" "op4_socket op' = ch_socket ch"
      "\<not> is_accept4 op'"
    by (rule child_read_op)
  then show ?thesis by (simp add: Read4 op4_start_def)
qed (simp_all add: accept_loop_def child_start_def op4_start_def Let_def)

section \<open>One connection\<close>

text \<open>A child that receives the blocks of \<open>bs\<close> one after the other.\<close>

fun child_receive :: "host4 \<Rightarrow> reply \<Rightarrow> string list \<Rightarrow> op4 \<Rightarrow> server4 \<Rightarrow> server4" where
  "child_receive h rep [] op s = op4_start op s"
| "child_receive h rep (b # bs) op s =
     (case op of
        Read4 ch \<Rightarrow>
          (let t = child_read h rep ch b s
           in child_receive h rep bs (last (s4_pending t)) (t\<lparr>s4_pending := butlast (s4_pending t)\<rparr>))
      | _ \<Rightarrow> op4_start op s)"

lemma child_read_more:
  assumes "parse4 (h4_cast_size h) (ch_parser ch) (ch_request ch) b = (Indeterminate, p, r, n)"
  shows "child_receive h rep (b # bs) (Read4 ch) s
    = child_receive h rep bs (Read4 (ch\<lparr>ch_parser := p, ch_request := r\<rparr>)) s"
  using assms by (simp add: child_read_def Let_def op4_start_def)

lemma child_read_stop:
  assumes "parse4 (h4_cast_size h) (ch_parser ch) (ch_request ch) b = (result, p, r, n)" "result \<noteq> Indeterminate"
  shows "child_receive h rep (b # bs) (Read4 ch) s
    = op4_start (Write4 (ch\<lparr>ch_parser := p, ch_request := r\<rparr>)
        (concat (to_buffers (if result = TTrue then h4_handler h r rep
           else stock_reply (h4_cast_string h) Bad_request)))) s"
  using assms by (cases bs) (simp_all add: child_read_def Let_def op4_start_def)

lemma child_receive_blocks:
  assumes "parse4 (h4_cast_size h) (ch_parser ch) (ch_request ch) (concat bs) = (result, p, r, n)"
    "result \<noteq> Indeterminate"
  shows "child_receive h rep bs (Read4 ch) s
    = op4_start (Write4 (ch\<lparr>ch_parser := p, ch_request := r\<rparr>)
        (concat (to_buffers (if result = TTrue then h4_handler h r rep
           else stock_reply (h4_cast_string h) Bad_request)))) s"
  using assms(1)
proof (induction bs arbitrary: ch)
  case Nil
  then show ?case using assms(2) by simp
next
  case (Cons b bs)
  obtain r1 p1 q1 n1 where b: "parse4 (h4_cast_size h) (ch_parser ch) (ch_request ch) b = (r1, p1, q1, n1)"
    by (metis prod_cases4)
  show ?case
  proof (cases "r1 = Indeterminate")
    case True
    with b have b': "parse4 (h4_cast_size h) (ch_parser ch) (ch_request ch) b = (Indeterminate, p1, q1, n1)"
      by simp
    let ?ch = "ch\<lparr>ch_parser := p1, ch_request := q1\<rparr>"
    have "parse4 (h4_cast_size h) p1 q1 (concat bs) = (result, p, r, n)"
      using Cons.prems unfolding concat.simps http4.run_append b' by simp
    then show ?thesis using Cons.IH [of ?ch] unfolding child_read_more [OF b'] by simp
  next
    case False
    then have "parse4 (h4_cast_size h) (ch_parser ch) (ch_request ch) b = (result, p, r, n1)"
      using Cons.prems b unfolding concat.simps http4.run_append by simp
    then show ?thesis using child_read_stop assms(2) by blast
  qed
qed

section \<open>Properties\<close>

text \<open>
  In every state the coroutine server can reach, no socket has two outstanding operations, and
  a completed operation changes the number of outstanding accepts only when it is an accept that
  failed: then the parent ends, and the server accepts no connection any more.
\<close>

theorem server4_operations:
  assumes "server4_reachable h s" and "server4_step h s op ec t"
  shows "distinct (List.map op4_socket (s4_pending s))
    \<and> (length (filter is_accept4 (s4_pending t)) =
        (if is_accept4 op \<and> ec \<noteq> No_error then length (filter is_accept4 (s4_pending s)) - 1
         else length (filter is_accept4 (s4_pending s))))"
proof -
  have "server4_inv s" using server4_reachable_inv [OF assms(1)] .
  moreover have "length (filter is_accept4 (s4_pending t)) =
        (if is_accept4 op \<and> ec \<noteq> No_error then length (filter is_accept4 (s4_pending s)) - 1
         else length (filter is_accept4 (s4_pending s)))"
    using assms(2) by (cases rule: server4_step.cases) (auto simp: server4_call_accepts)
  ultimately show ?thesis by (simp add: server4_inv_def)
qed

theorem server4_operations_witness:
  "distinct (List.map op4_socket (s4_pending server4_new))"
proof -
  let ?h = "\<lparr>h4_cast_size = (\<lambda>_. None), h4_cast_string = decimal, h4_handler = (\<lambda>_ rep. rep)\<rparr>"
  let ?op = "Accept4 0 \<lparr>p4_point = Start, p4_content_length = 0\<rparr>"
  have "s4_pending server4_new = [] @ ?op # []"
    by (simp add: server4_new_def accept_loop_def op4_start_def)
  then have "\<exists>t. server4_step ?h server4_new ?op Other_error t"
    using server4_step.intros [of server4_new "[]" ?op "[]" "[]"] by fastforce
  then show ?thesis using server4_operations [OF server4_reachable.start] by blast
qed


text \<open>
  A child answers what it received as a whole: however the request is cut into blocks, the
  child writes the reply of the request handler to the request (with its content) that the
  concatenation of the blocks parses to, or the stock reply when it is malformed.
\<close>

theorem server4_child_answers:
  assumes "parse4 (h4_cast_size h) (ch_parser ch) (ch_request ch) (concat bs) = (result, p, req, rest)"
    and "result \<noteq> Indeterminate"
  shows "child_receive h rep bs (Read4 ch) s
    = op4_start (Write4 (ch\<lparr>ch_parser := p, ch_request := req\<rparr>)
        (concat (to_buffers (if result = TTrue then h4_handler h req rep
           else stock_reply (h4_cast_string h) Bad_request)))) s"
  using child_receive_blocks [OF assms] .

theorem server4_child_answers_witness:
  "\<exists>ch. child_receive \<lparr>h4_cast_size = (\<lambda>_. None), h4_cast_string = decimal, h4_handler = (\<lambda>_ rep. rep)\<rparr>
      \<lparr>rep_status = Ok, rep_headers = [], rep_content = []\<rparr> [''GE'', ''T:'']
      (Read4 \<lparr>ch_socket = 0, ch_parser = \<lparr>p4_point = Start, p4_content_length = 0\<rparr>,
         ch_request = \<lparr>req_method = [], req_uri = [], req_http_version_major = 0,
           req_http_version_minor = 0, req_headers = [], req_content = []\<rparr>\<rparr>) server4_new
    = op4_start (Write4 ch (concat (to_buffers (stock_reply decimal Bad_request)))) server4_new"
proof -
  let ?r = "\<lparr>req_method = [], req_uri = [], req_http_version_major = 0,
    req_http_version_minor = 0, req_headers = [], req_content = []\<rparr>"
  have "parse4 (\<lambda>_. None) \<lparr>p4_point = Start, p4_content_length = 0\<rparr> ?r (concat [''GE'', ''T:''])
      = (TFalse, \<lparr>p4_point = Done, p4_content_length = 0\<rparr>, ?r\<lparr>req_method := ''GET''\<rparr>, [])"
    by code_simp
  then show ?thesis
    using server4_child_answers [where result = TFalse and bs = "[''GE'', ''T:'']" and s = server4_new
        and ch = "\<lparr>ch_socket = 0, ch_parser = \<lparr>p4_point = Start, p4_content_length = 0\<rparr>, ch_request = ?r\<rparr>"
        and h = "\<lparr>h4_cast_size = (\<lambda>_. None), h4_cast_string = decimal, h4_handler = (\<lambda>_ rep. rep)\<rparr>"
        and rep = "\<lparr>rep_status = Ok, rep_headers = [], rep_content = []\<rparr>"]
    by (simp del: child_receive.simps) blast
qed

end
