(* ===== verification/Http_Network.thy ===== *)
theory Http_Network
  imports Http_Client Http_Server4
begin

text \<open>
  The server of \<open>asio-examples/http_server4\<close> with the handler its \<open>main\<close> gives it, \<open>file_handler.cpp\<close>, and the
  program of \<open>http_client\<close> together.
\<close>

section \<open>\<open>file_handler\<close>\<close>

definition file_handler ::
    "(nat \<Rightarrow> string) \<Rightarrow> (string \<Rightarrow> string option) \<Rightarrow> string \<Rightarrow> request4 \<Rightarrow> reply \<Rightarrow> reply" where
  "file_handler lexical_cast fs doc_root req rep =
     (let (decoded, request_path) = url_decode (req_uri req)
      in if \<not> decoded then stock_reply lexical_cast Bad_request
      else if request_path = [] \<or> hd request_path \<noteq> CHR ''/'' \<or> contains ''..'' request_path
        then stock_reply lexical_cast Bad_request
      else
        (let request_path =
               (if last request_path = CHR ''/'' then request_path @ ''index.html'' else request_path);
             extension = file_extension request_path;
             full_path = doc_root @ request_path
         in case fs (c_str full_path) of
              None \<Rightarrow> stock_reply lexical_cast Not_found
            | Some is \<Rightarrow>
                (let rep = rep\<lparr>rep_status := Ok\<rparr>;
                     rep = rep\<lparr>rep_content := read_blocks (rep_content rep) is\<rparr>;
                     headers = resize 2 empty_header (rep_headers rep);
                     headers = headers[0 := (headers ! 0)\<lparr>h_name := ''Content-Length''\<rparr>];
                     headers = headers[0 := (headers ! 0)\<lparr>h_value := lexical_cast (length (rep_content rep))\<rparr>];
                     headers = headers[1 := (headers ! 1)\<lparr>h_name := ''Content-Type''\<rparr>];
                     headers = headers[1 := (headers ! 1)\<lparr>h_value := extension_to_type extension\<rparr>]
                 in rep\<lparr>rep_headers := headers\<rparr>)))"

text \<open>It answers as the handler of the other servers does, whatever the content of the request.\<close>

lemma file_handler_request_handler:
  "file_handler lexical_cast fs doc_root req rep
    = handle_request lexical_cast fs doc_root (request.truncate req) rep"
  by (simp only: file_handler_def handle_request_def request.truncate_def request.simps)

section \<open>Client and server\<close>

text \<open>The request of the client announces no content.\<close>

lemma client_request_content:
  "find_content_length lc (req_headers (client_request server path)) 0 = Some 0"
proof -
  have "\<not> headers_equal ''Host'' content_length_name" "\<not> headers_equal ''Accept'' content_length_name"
    "\<not> headers_equal ''Connection'' content_length_name" by code_simp+
  then show ?thesis by (simp add: client_request_def)
qed

text \<open>
  A child of the coroutine server that receives the request of the client in any blocks, for the encoded path of a file
  below the document root, writes bytes for which the client prints the headers and exactly the bytes of the file. The
  request has to be ASCII, for this parser checks that.
\<close>

theorem http_client_gets_file4:
  assumes "p4_point (ch_parser ch) = Start" and "rep_content rep = []"
    and "list_all text_char server" "list_all uri_char (url_encode plain q)"
    and "list_all (\<lambda>c. is_char (promote c)) (http_request_text server (url_encode plain q))"
    and "q \<noteq> []" "hd q = CHR ''/''" "last q \<noteq> CHR ''/''" "\<not> contains ''..'' q" "CHR 0x00 \<notin> set (doc_root @ q)"
    and "fs (doc_root @ q) = Some data" and "\<And>n. lc n = decimal n" and "h4_handler h = file_handler lc fs doc_root"
    and "concat bs = http_request_text server (url_encode plain q)"
  shows "\<exists>ch' bytes. child_receive h rep bs (Read4 ch) s = op4_start (Write4 ch' bytes) s
    \<and> http_response garbage bytes =
        (''Content-Length: '' @ decimal (length data) @ misc_crlf
         @ ''Content-Type: '' @ extension_to_type (file_extension q) @ misc_crlf @ [CHR 0x0A] @ data, 0)"
proof -
  let ?req = "client_request server (url_encode plain q)"
  have "url_encode plain q \<noteq> []" using assms(6) by (cases q) (auto simp: url_encode_def escape_def)
  then have uri: "req_uri ?req \<noteq> []" by (simp add: client_request_def)
  obtain p req where run: "parse4 (h4_cast_size h) (ch_parser ch) (ch_request ch) (concat bs) = (TTrue, p, req, [])"
    and req: "request.truncate req = ?req"
    using parse4_print [OF assms(1) client_request_wf [OF assms(3,4)] uri assms(5) [unfolded http_request_text_printed],
        of "h4_cast_size h" "[]" "ch_request ch" "[]"] client_request_content
    by (auto simp: assms(14) http_request_text_printed)
  have "file_handler lc fs doc_root req rep = \<lparr>rep_status = Ok, rep_headers =
      [\<lparr>h_name = ''Content-Length'', h_value = decimal (length data)\<rparr>,
       \<lparr>h_name = ''Content-Type'', h_value = extension_to_type (file_extension q)\<rparr>], rep_content = data\<rparr>"
    unfolding file_handler_request_handler req
    by (rule handle_request_found) (use assms in \<open>auto simp: client_request_def\<close>)
  then show ?thesis
    using child_receive_blocks [OF run, of rep s] assms(13) http_response_file by (simp del: child_receive.simps) blast
qed

end
