(* ===== verification/Chat_Message.thy ===== *)
theory Chat_Message
  imports Cxx_Library
begin

text \<open>
  \<open>asio-examples/chat_server/chat.hpp\<close>, shared by the chat server and the chat client: a message
  is a buffer of 516 bytes, a header of four bytes with the decimal length of the body and the
  body, and a body length of its own.

  The last section is the wire: what a receiver that reads a header, decodes it and reads as
  many bytes of body makes of the bytes that senders write.
\<close>

section \<open>\<open>chat_message\<close>\<close>

definition header_length :: nat where
  "header_length = 4"

definition max_body_length :: nat where
  "max_body_length = 512"

record chat_message =
  msg_data :: string
  msg_body_length :: nat

text \<open>The constructor leaves \<open>data_\<close> uninitialised: \<open>garbage\<close> stands for its 516 bytes.\<close>

definition chat_message_new :: "string \<Rightarrow> chat_message" where
  "chat_message_new garbage = \<lparr>msg_data = garbage, msg_body_length = 0\<rparr>"

definition msg_length :: "chat_message \<Rightarrow> nat" where
  "msg_length m = header_length + msg_body_length m"

definition body :: "chat_message \<Rightarrow> string" where
  "body m = drop header_length (msg_data m)"

definition set_body_length :: "nat \<Rightarrow> chat_message \<Rightarrow> chat_message" where
  "set_body_length new_length m =
     (let m = m\<lparr>msg_body_length := new_length\<rparr>
      in if msg_body_length m > max_body_length then m\<lparr>msg_body_length := max_body_length\<rparr> else m)"

text \<open>Conversion of an \<open>int\<close> to \<open>std::size_t\<close> of 64 bits.\<close>

definition size_of_int :: "int \<Rightarrow> nat" where
  "size_of_int v = nat (v mod 2 ^ 64)"

text \<open>\<open>strncat\<close> copies the header up to a NUL; the converted number is compared as a \<open>size_t\<close>.\<close>

definition decode_header :: "chat_message \<Rightarrow> bool \<times> chat_message" where
  "decode_header m =
     (let header = c_str (take header_length (msg_data m));
          m = m\<lparr>msg_body_length := size_of_int (atoi header)\<rparr>
      in if msg_body_length m > max_body_length then (False, m\<lparr>msg_body_length := 0\<rparr>)
      else (True, m))"

text \<open>\<open>memcpy\<close> of \<open>bs\<close> into the buffer at an offset.\<close>

definition memcpy :: "nat \<Rightarrow> string \<Rightarrow> chat_message \<Rightarrow> chat_message" where
  "memcpy offset bs m =
     m\<lparr>msg_data := take offset (msg_data m) @ bs @ drop (offset + length bs) (msg_data m)\<rparr>"

definition encode_header :: "chat_message \<Rightarrow> chat_message" where
  "encode_header m =
     (let header = printf_d header_length (msg_body_length m)
      in memcpy 0 (take header_length header) m)"

text \<open>The bytes handed to \<open>async_write\<close>.\<close>

definition wire :: "chat_message \<Rightarrow> string" where
  "wire m = take (msg_length m) (msg_data m)"

section \<open>Invariant\<close>

text \<open>The buffer has its fixed size and the body fits; then no operation reads or writes outside
  the buffer.\<close>

definition wf_message :: "chat_message \<Rightarrow> bool" where
  "wf_message m \<longleftrightarrow> length (msg_data m) = header_length + max_body_length \<and> msg_body_length m \<le> max_body_length"

text \<open>A message whose header announces its body.\<close>

definition encoded :: "chat_message \<Rightarrow> bool" where
  "encoded m \<longleftrightarrow> wf_message m \<and> take header_length (msg_data m) = printf_d header_length (msg_body_length m)"

lemmas message_defs = header_length_def max_body_length_def wf_message_def msg_length_def

lemma length_decimal: "n < 10 ^ k \<Longrightarrow> 0 < k \<Longrightarrow> length (decimal n) \<le> k"
proof (induction n arbitrary: k rule: decimal.induct)
  case (1 n)
  show ?case
  proof (cases "n < 10")
    case True
    then show ?thesis using 1 by (subst decimal.simps) simp
  next
    case False
    then obtain j where k: "k = Suc j" "0 < j" using 1 by (cases k; cases "k - 1") auto
    have "n div 10 < 10 ^ j" using 1(2) k by (simp add: less_mult_imp_div_less)
    with 1 False k have "length (decimal (n div 10)) \<le> j" by simp
    with False k show ?thesis by (subst decimal.simps) simp
  qed
qed

lemma length_printf_header: "n \<le> 512 \<Longrightarrow> length (printf_d header_length n) = header_length"
  using length_decimal [of n 3] by (simp add: printf_d_def header_length_def)

lemma printf_d_no_nul: "CHR 0x00 \<notin> set (printf_d w n)"
  using isdigit_decimal [of n] by (auto simp: printf_d_def list_all_iff isdigit_def promote_def)

lemma c_str_id: "CHR 0x00 \<notin> set s \<Longrightarrow> c_str s = s"
  by (auto simp: c_str_def)

lemma size_of_int_nat [simp]: "n < 2 ^ 64 \<Longrightarrow> size_of_int (int n) = n"
  by (simp add: size_of_int_def)

lemma encode_header_encoded: "wf_message m \<Longrightarrow> encoded (encode_header m)"
  by (simp add: encoded_def encode_header_def memcpy_def wf_message_def max_body_length_def
      length_printf_header)

lemma decode_printf:
  assumes "take header_length (msg_data m) = printf_d header_length n" "n \<le> 512"
  shows "decode_header m = (True, m\<lparr>msg_body_length := n\<rparr>)"
proof -
  have "c_str (take header_length (msg_data m)) = printf_d header_length n"
    by (simp add: assms(1) c_str_id printf_d_no_nul)
  moreover have "atoi (printf_d header_length n) = int n"
    using atoi_printf_d [of "[]"] by simp
  ultimately show ?thesis using assms(2) by (simp add: decode_header_def max_body_length_def)
qed

text \<open>
  A message that a receiver accepts: its header decodes to the length it has. Composed messages
  are such, and so are messages that were received, whose header may be spelled differently.
\<close>

definition sound :: "chat_message \<Rightarrow> bool" where
  "sound m \<longleftrightarrow> wf_message m \<and> decode_header m = (True, m)"

lemma encoded_sound: "encoded m \<Longrightarrow> sound m"
  using decode_printf [of m "msg_body_length m"]
  by (simp add: encoded_def sound_def wf_message_def max_body_length_def)

lemma decode_header_wf:
  assumes "length (msg_data m) = header_length + max_body_length"
  shows "wf_message (snd (decode_header m))"
    and "fst (decode_header m) \<Longrightarrow> sound (snd (decode_header m))"
  using assms by (auto simp: decode_header_def wf_message_def sound_def Let_def split: if_splits)

text \<open>Decoding reads the first four bytes only.\<close>

lemma decode_header_cong:
  "sound s \<Longrightarrow> take header_length (msg_data m) = take header_length (msg_data s) \<Longrightarrow>
   decode_header m = (True, m\<lparr>msg_body_length := msg_body_length s\<rparr>)"
proof -
  assume s: "sound s" and eq: "take header_length (msg_data m) = take header_length (msg_data s)"
  have "msg_body_length (s\<lparr>msg_body_length := size_of_int (atoi (c_str (take header_length (msg_data s))))\<rparr>)
      = msg_body_length s"
    using s by (auto simp: sound_def decode_header_def Let_def split: if_splits) (metis chat_message.select_convs(2) chat_message.surjective chat_message.update_convs(2))
  then show ?thesis
    using s eq by (auto simp: sound_def decode_header_def wf_message_def Let_def)
qed

section \<open>The wire\<close>

text \<open>
  The receiver of the server and of the client: read four bytes into the header, decode it, read
  the announced number of bytes into the body. The result is the messages it delivers, with its
  message buffer at the end, from an input that may end early.
\<close>

fun receive_msgs :: "nat \<Rightarrow> chat_message \<Rightarrow> string \<Rightarrow> chat_message list" where
  "receive_msgs 0 m inp = []"
| "receive_msgs (Suc fuel) m inp =
     (if length inp < header_length then []
      else
        (let (ok, m) = decode_header (memcpy 0 (take header_length inp) m);
             inp = drop header_length inp
         in if \<not> ok then []
         else if length inp < msg_body_length m then []
         else
           (let m = memcpy header_length (take (msg_body_length m) inp) m
            in m # receive_msgs fuel m (drop (msg_body_length m) inp))))"

text \<open>One message: whatever the buffer held before, it holds the header and body that were sent.\<close>

lemma receive_one:
  assumes "sound s" "wf_message m"
  shows "\<exists>m'. receive_msgs (Suc fuel) m (wire s @ rest) = m' # receive_msgs fuel m' rest
    \<and> wf_message m' \<and> wire m' = wire s \<and> msg_body_length m' = msg_body_length s"
proof -
  let ?n = "msg_body_length s" and ?h = "take header_length (msg_data s)"
  let ?b = "take ?n (body s)"
  have wf: "length (msg_data s) = header_length + max_body_length" "?n \<le> max_body_length"
    using assms(1) by (simp_all add: sound_def wf_message_def)
  then have h: "length ?h = header_length" and b: "length ?b = ?n" by (simp_all add: body_def)
  have w: "wire s = ?h @ ?b" by (simp add: wire_def msg_length_def body_def take_add)
  let ?m1 = "memcpy 0 ?h m"
  have m1: "take header_length (msg_data ?m1) = ?h" "length (msg_data ?m1) = header_length + max_body_length"
    using assms(2) h by (simp_all add: memcpy_def wf_message_def)
  let ?m2 = "?m1\<lparr>msg_body_length := ?n\<rparr>" let ?m3 = "memcpy header_length ?b ?m2"
  have decode: "decode_header ?m1 = (True, ?m2)" using decode_header_cong [OF assms(1) m1(1)] .
  have first: "take header_length (wire s @ rest) = ?h" and second: "drop header_length (wire s @ rest) = ?b @ rest"
    and len: "\<not> length (wire s) + length rest < header_length"
    using h by (simp_all add: w)
  have "receive_msgs (Suc fuel) m (wire s @ rest) = ?m3 # receive_msgs fuel ?m3 rest"
    using b by (simp del: take_append drop_append append.simps add: first second len decode Let_def)
      (simp add: memcpy_def)
  moreover have "wf_message ?m3"
    using m1(2) wf(2) b by (simp add: wf_message_def memcpy_def)
  moreover have "wire ?m3 = ?h @ ?b"
    using m1 h b wf(2) by (simp add: wire_def msg_length_def memcpy_def)
  ultimately show ?thesis by (simp add: w memcpy_def)
qed

lemma receive_all:
  "list_all sound ms \<Longrightarrow> wf_message m \<Longrightarrow> length ms \<le> fuel \<Longrightarrow>
   List.map wire (receive_msgs fuel m (concat (List.map wire ms))) = List.map wire ms"
proof (induction ms arbitrary: m fuel)
  case Nil
  then show ?case by (cases fuel) (simp_all add: header_length_def)
next
  case (Cons s ms)
  then obtain f where f: "fuel = Suc f" by (cases fuel) auto
  obtain m' where "receive_msgs (Suc f) m (wire s @ concat (List.map wire ms))
      = m' # receive_msgs f m' (concat (List.map wire ms))" "wf_message m'" "wire m' = wire s"
    using receive_one [of s m] Cons.prems by fastforce
  with Cons f show ?case by simp
qed

end
