(* ===== verification/Write_Queue.thy ===== *)
theory Write_Queue
  imports Main
begin

text \<open>
  The write queue that the chat session and the chat client both keep: a message is appended to a
  queue and stays at its front while it is written; a write is started when the queue was empty,
  and the completion of a write removes the front and starts the next one. A client of the queue
  relies on the messages leaving in the order in which they came, with one write at a time.
\<close>

datatype 'm queue_event = Enqueue 'm | Written

text \<open>The messages of the \<open>Enqueue\<close> events, and the number of the others.\<close>

fun enqueued :: "'m queue_event list \<Rightarrow> 'm list" where
  "enqueued [] = []"
| "enqueued (Enqueue m # es) = m # enqueued es"
| "enqueued (Written # es) = enqueued es"

fun completions :: "'m queue_event list \<Rightarrow> nat" where
  "completions [] = 0"
| "completions (Enqueue m # es) = completions es"
| "completions (Written # es) = Suc (completions es)"

locale write_queue =
  fixes queue :: "'s \<Rightarrow> 'm list"
    and started :: "'s \<Rightarrow> 'b list"
    and payload :: "'m \<Rightarrow> 'b"
    and enqueue :: "'m \<Rightarrow> 's \<Rightarrow> 's"
    and complete :: "'s \<Rightarrow> 's"
  assumes queue_enqueue: "queue (enqueue m s) = queue s @ [m]"
    and started_enqueue: "started (enqueue m s) = started s @ (if queue s = [] then [payload m] else [])"
    and queue_complete: "queue s \<noteq> [] \<Longrightarrow> queue (complete s) = tl (queue s)"
    and started_complete: "queue s \<noteq> [] \<Longrightarrow>
      started (complete s) = started s @ (case tl (queue s) of [] \<Rightarrow> [] | m # ms \<Rightarrow> [payload m])"
begin

primrec run :: "'s \<Rightarrow> 'm queue_event list \<Rightarrow> 's" where
  "run s [] = s"
| "run s (e # es) = run (case e of Enqueue m \<Rightarrow> enqueue m s | Written \<Rightarrow> complete s) es"

text \<open>A write completes only when one is outstanding.\<close>

primrec possible :: "'s \<Rightarrow> 'm queue_event list \<Rightarrow> bool" where
  "possible s [] = True"
| "possible s (e # es) =
     (case e of Enqueue m \<Rightarrow> possible (enqueue m s) es
      | Written \<Rightarrow> queue s \<noteq> [] \<and> possible (complete s) es)"

lemma total_enqueue:
  "started (enqueue m s) @ List.map payload (tl (queue (enqueue m s)))
     = (started s @ List.map payload (tl (queue s))) @ [payload m]"
  by (cases "queue s") (simp_all add: queue_enqueue started_enqueue)

lemma total_complete:
  "queue s \<noteq> [] \<Longrightarrow> started (complete s) @ List.map payload (tl (queue (complete s)))
     = started s @ List.map payload (tl (queue s))"
  by (simp add: queue_complete started_complete split: list.split)

lemma fifo:
  "possible s es \<Longrightarrow>
     started (run s es) @ List.map payload (tl (queue (run s es)))
       = (started s @ List.map payload (tl (queue s))) @ List.map payload (enqueued es)"
proof (induction es arbitrary: s)
  case Nil
  then show ?case by simp
next
  case (Cons e es)
  show ?case
  proof (cases e)
    case (Enqueue m)
    then show ?thesis using Cons total_enqueue [of m s] by simp
  next
    case Written
    then show ?thesis using Cons total_complete [of s] by simp
  qed
qed

lemma outstanding_step:
  "length (started (enqueue m s)) = length (started s) + (if queue s = [] then 1 else 0)"
  "queue s \<noteq> [] \<Longrightarrow> length (started (complete s)) = length (started s) + (if queue (complete s) = [] then 0 else 1)"
  by (simp_all add: started_enqueue started_complete queue_complete split: list.split)

lemma one_outstanding:
  "possible s es \<Longrightarrow> length (started s) = k + (if queue s = [] then 0 else 1) \<Longrightarrow>
     length (started (run s es)) = k + completions es + (if queue (run s es) = [] then 0 else 1)"
proof (induction es arbitrary: s k)
  case Nil
  then show ?case by simp
next
  case (Cons e es)
  show ?case
  proof (cases e)
    case (Enqueue m)
    have "length (started (enqueue m s)) = k + (if queue (enqueue m s) = [] then 0 else 1)"
      using Cons.prems(2) by (simp add: outstanding_step queue_enqueue)
    then show ?thesis using Cons Enqueue by simp
  next
    case Written
    have "length (started (complete s)) = Suc k + (if queue (complete s) = [] then 0 else 1)"
      using Cons.prems Written by (simp add: outstanding_step)
    then show ?thesis using Cons.IH [of "complete s" "Suc k"] Cons.prems Written by simp
  qed
qed

end

end
