(* ===== verification/Chat_Server.thy ===== *)
theory Chat_Server
  imports Chat_Message Write_Queue
begin

text \<open>
  \<open>asio-examples/chat_server/chat_server.cpp\<close>: sessions in a room. A session reads messages and
  hands them to the room; the room keeps the last 100 and delivers each to every participant; a
  session writes what is delivered to it from a queue.
\<close>

section \<open>State\<close>

record session =
  ses_read_msg :: chat_message
  ses_write_msgs :: "chat_message list"

text \<open>Outstanding operations; the number is that of the session they belong to.\<close>

datatype chat_op = Chat_accept nat | Read_header nat | Read_body nat nat | Chat_write nat string

text \<open>
  The room (its participants in the order of the set, and the recent messages), the session
  objects, the outstanding operations, and a record of every write started, as bytes per session.
\<close>

record chat =
  participants :: "nat list"
  recent_msgs :: "chat_message list"
  sessions :: "nat \<Rightarrow> session"
  next_session :: nat
  chat_pending :: "chat_op list"
  chat_sent :: "(nat \<times> string) list"

definition max_recent_msgs :: nat where
  "max_recent_msgs = 100"

definition chat_start_op :: "chat_op \<Rightarrow> chat \<Rightarrow> chat" where
  "chat_start_op op s = s\<lparr>chat_pending := chat_pending s @ [op]\<rparr>"

definition update_session :: "nat \<Rightarrow> (session \<Rightarrow> session) \<Rightarrow> chat \<Rightarrow> chat" where
  "update_session i f s = s\<lparr>sessions := (sessions s)(i := f (sessions s i))\<rparr>"

definition chat_async_write :: "nat \<Rightarrow> string \<Rightarrow> chat \<Rightarrow> chat" where
  "chat_async_write i bytes s =
     chat_start_op (Chat_write i bytes) (s\<lparr>chat_sent := chat_sent s @ [(i, bytes)]\<rparr>)"

section \<open>\<open>chat_session\<close>: writing\<close>

definition session_deliver :: "nat \<Rightarrow> chat_message \<Rightarrow> chat \<Rightarrow> chat" where
  "session_deliver i msg s =
     (let write_in_progress = (ses_write_msgs (sessions s i) \<noteq> []);
          s = update_session i (\<lambda>c. c\<lparr>ses_write_msgs := ses_write_msgs c @ [msg]\<rparr>) s
      in if \<not> write_in_progress
         then chat_async_write i (wire (hd (ses_write_msgs (sessions s i)))) s else s)"

section \<open>\<open>chat_room\<close>\<close>

definition room_join :: "nat \<Rightarrow> chat \<Rightarrow> chat" where
  "room_join i s =
     (let s = s\<lparr>participants := (if i \<in> set (participants s) then participants s else insort i (participants s))\<rparr>
      in fold (session_deliver i) (recent_msgs s) s)"

definition room_leave :: "nat \<Rightarrow> chat \<Rightarrow> chat" where
  "room_leave i s = s\<lparr>participants := remove1 i (participants s)\<rparr>"

text \<open>The loop that drops the oldest messages.\<close>

fun trim_recent :: "chat_message list \<Rightarrow> chat_message list" where
  "trim_recent [] = []"
| "trim_recent (m # ms) =
     (if length (m # ms) > max_recent_msgs then trim_recent ms else m # ms)"

definition room_deliver :: "chat_message \<Rightarrow> chat \<Rightarrow> chat" where
  "room_deliver msg s =
     (let s = s\<lparr>recent_msgs := recent_msgs s @ [msg]\<rparr>;
          s = s\<lparr>recent_msgs := trim_recent (recent_msgs s)\<rparr>
      in fold (\<lambda>i. session_deliver i msg) (participants s) s)"

section \<open>\<open>chat_session\<close>: handlers\<close>

definition session_start :: "nat \<Rightarrow> chat \<Rightarrow> chat" where
  "session_start i s = chat_start_op (Read_header i) (room_join i s)"

definition session_read_header :: "nat \<Rightarrow> error_code \<Rightarrow> chat \<Rightarrow> chat" where
  "session_read_header i error s =
     (if error = No_error then
        (let (ok, m) = decode_header (ses_read_msg (sessions s i));
             s = update_session i (\<lambda>c. c\<lparr>ses_read_msg := m\<rparr>) s
         in if ok then chat_start_op (Read_body i (msg_body_length m)) s else room_leave i s)
      else room_leave i s)"

definition session_read_body :: "nat \<Rightarrow> error_code \<Rightarrow> chat \<Rightarrow> chat" where
  "session_read_body i error s =
     (if error = No_error
      then chat_start_op (Read_header i) (room_deliver (ses_read_msg (sessions s i)) s)
      else room_leave i s)"

definition session_write :: "nat \<Rightarrow> error_code \<Rightarrow> chat \<Rightarrow> chat" where
  "session_write i error s =
     (if error = No_error then
        (let s = update_session i (\<lambda>c. c\<lparr>ses_write_msgs := tl (ses_write_msgs c)\<rparr>) s
         in if ses_write_msgs (sessions s i) \<noteq> []
            then chat_async_write i (wire (hd (ses_write_msgs (sessions s i)))) s else s)
      else room_leave i s)"

section \<open>\<open>chat_server\<close>\<close>

definition chat_start_accept :: "string \<Rightarrow> chat \<Rightarrow> chat" where
  "chat_start_accept garbage s =
     (let i = next_session s;
          s = s\<lparr>sessions := (sessions s)(i := \<lparr>ses_read_msg = chat_message_new garbage, ses_write_msgs = []\<rparr>),
                next_session := Suc i\<rparr>
      in chat_start_op (Chat_accept i) s)"

definition chat_handle_accept :: "string \<Rightarrow> nat \<Rightarrow> error_code \<Rightarrow> chat \<Rightarrow> chat" where
  "chat_handle_accept garbage i error s =
     chat_start_accept garbage (if error = No_error then session_start i s else s)"

definition chat_server_new :: "string \<Rightarrow> chat" where
  "chat_server_new garbage =
     chat_start_accept garbage
       \<lparr>participants = [], recent_msgs = [],
        sessions = (\<lambda>_. \<lparr>ses_read_msg = chat_message_new garbage, ses_write_msgs = []\<rparr>),
        next_session = 0, chat_pending = [], chat_sent = []\<rparr>"

text \<open>
  The completion of an operation. A successful \<open>async_read\<close> has filled its whole buffer with
  \<open>bytes\<close>; a failed one some part of it.
\<close>

fun chat_complete :: "string \<Rightarrow> chat_op \<Rightarrow> error_code \<Rightarrow> string \<Rightarrow> chat \<Rightarrow> chat" where
  "chat_complete garbage (Chat_accept i) error bytes s = chat_handle_accept garbage i error s"
| "chat_complete garbage (Read_header i) error bytes s =
     session_read_header i error
       (update_session i (\<lambda>c. c\<lparr>ses_read_msg := memcpy 0 bytes (ses_read_msg c)\<rparr>) s)"
| "chat_complete garbage (Read_body i n) error bytes s =
     session_read_body i error
       (update_session i (\<lambda>c. c\<lparr>ses_read_msg := memcpy header_length bytes (ses_read_msg c)\<rparr>) s)"
| "chat_complete garbage (Chat_write i bs) error bytes s = session_write i error s"

fun read_size :: "chat_op \<Rightarrow> nat" where
  "read_size (Read_header i) = header_length"
| "read_size (Read_body i n) = n"
| "read_size op = 0"

inductive chat_step :: "chat \<Rightarrow> chat \<Rightarrow> bool" where
  chat_step:
    "chat_pending s = xs @ op # ys
     \<Longrightarrow> (if error = No_error then length bytes = read_size op else length bytes \<le> read_size op)
     \<Longrightarrow> length garbage = header_length + max_body_length
     \<Longrightarrow> chat_step s (chat_complete garbage op error bytes (s\<lparr>chat_pending := xs @ ys\<rparr>))"

inductive_cases chat_stepE: "chat_step s t"

section \<open>Frame lemmas\<close>

lemma chat_simps [simp]:
  "sessions (chat_start_op op s) = sessions s" "chat_pending (chat_start_op op s) = chat_pending s @ [op]"
  "chat_sent (chat_start_op op s) = chat_sent s" "participants (chat_start_op op s) = participants s"
  "recent_msgs (chat_start_op op s) = recent_msgs s" "next_session (chat_start_op op s) = next_session s"
  "sessions (update_session i f s) = (sessions s)(i := f (sessions s i))"
  "chat_pending (update_session i f s) = chat_pending s" "chat_sent (update_session i f s) = chat_sent s"
  "participants (update_session i f s) = participants s" "recent_msgs (update_session i f s) = recent_msgs s"
  "next_session (update_session i f s) = next_session s"
  "sessions (chat_async_write i bs s) = sessions s"
  "chat_pending (chat_async_write i bs s) = chat_pending s @ [Chat_write i bs]"
  "chat_sent (chat_async_write i bs s) = chat_sent s @ [(i, bs)]"
  "participants (chat_async_write i bs s) = participants s"
  "recent_msgs (chat_async_write i bs s) = recent_msgs s"
  "next_session (chat_async_write i bs s) = next_session s"
  "sessions (room_leave i s) = sessions s" "chat_pending (room_leave i s) = chat_pending s"
  "chat_sent (room_leave i s) = chat_sent s" "recent_msgs (room_leave i s) = recent_msgs s"
  "next_session (room_leave i s) = next_session s"
  by (simp_all add: chat_start_op_def update_session_def chat_async_write_def room_leave_def)

lemma deliver_frame [simp]:
  "participants (session_deliver i m s) = participants s" "recent_msgs (session_deliver i m s) = recent_msgs s"
  "next_session (session_deliver i m s) = next_session s"
  by (simp_all add: session_deliver_def Let_def)

section \<open>The write queue of a session\<close>

text \<open>The writes started for session \<open>i\<close>.\<close>

definition session_sent :: "nat \<Rightarrow> chat \<Rightarrow> string list" where
  "session_sent i s = List.map snd (filter (\<lambda>(j, bs). j = i) (chat_sent s))"

interpretation session_queue: write_queue
  "\<lambda>s. ses_write_msgs (sessions s i)" "session_sent i" wire "session_deliver i" "session_write i No_error" for i
proof
  fix s m
  show "ses_write_msgs (sessions (session_deliver i m s) i) = ses_write_msgs (sessions s i) @ [m]"
    by (simp add: session_deliver_def Let_def)
  show "session_sent i (session_deliver i m s)
      = session_sent i s @ (if ses_write_msgs (sessions s i) = [] then [wire m] else [])"
    by (simp add: session_deliver_def session_sent_def Let_def)
  assume "ses_write_msgs (sessions s i) \<noteq> []"
  then show "ses_write_msgs (sessions (session_write i No_error s) i) = tl (ses_write_msgs (sessions s i))"
    by (simp add: session_write_def Let_def)
  show "session_sent i (session_write i No_error s)
      = session_sent i s @ (case tl (ses_write_msgs (sessions s i)) of [] \<Rightarrow> [] | m # ms \<Rightarrow> [wire m])"
    by (simp add: session_write_def session_sent_def Let_def split: list.split)
qed


section \<open>Buffers\<close>

text \<open>Every message buffer keeps its size and a body length that fits, every queued and every
  recent message is one a receiver accepts, and the history is bounded.\<close>

definition buffers_ok :: "chat \<Rightarrow> bool" where
  "buffers_ok s \<longleftrightarrow>
     (\<forall>i. wf_message (ses_read_msg (sessions s i)) \<and> list_all sound (ses_write_msgs (sessions s i)))
     \<and> list_all sound (recent_msgs s) \<and> length (recent_msgs s) \<le> max_recent_msgs"

lemma trim_recent_eq: "trim_recent ms = drop (length ms - max_recent_msgs) ms"
  by (induction ms) (auto simp: Suc_diff_le)

lemma list_all_drop: "list_all P xs \<Longrightarrow> list_all P (drop n xs)"
  by (metis append_take_drop_id list_all_append)

lemma buffers_deliver: "buffers_ok s \<Longrightarrow> sound m \<Longrightarrow> buffers_ok (session_deliver i m s)"
  by (simp add: buffers_ok_def session_deliver_def Let_def)

lemma buffers_fold:
  "buffers_ok s \<Longrightarrow> sound m \<Longrightarrow> buffers_ok (fold (\<lambda>i. session_deliver i m) is s)"
  by (induction "is" arbitrary: s) (simp_all add: buffers_deliver)

lemma buffers_fold_msgs:
  "buffers_ok s \<Longrightarrow> list_all sound ms \<Longrightarrow> buffers_ok (fold (session_deliver i) ms s)"
  by (induction ms arbitrary: s) (simp_all add: buffers_deliver)

lemma buffers_room_deliver:
  assumes "buffers_ok s" "sound m"
  shows "buffers_ok (room_deliver m s)"
proof -
  have "buffers_ok (s\<lparr>recent_msgs := trim_recent (recent_msgs s @ [m])\<rparr>)"
    using assms by (simp add: buffers_ok_def trim_recent_eq list_all_drop)
  then show ?thesis
    using assms(2) by (simp add: room_deliver_def Let_def buffers_fold)
qed

lemma buffers_start_op [simp]: "buffers_ok (chat_start_op op s) = buffers_ok s"
  by (simp add: buffers_ok_def)

lemma buffers_leave [simp]: "buffers_ok (room_leave i s) = buffers_ok s"
  by (simp add: buffers_ok_def)

lemma buffers_read:
  "buffers_ok s \<Longrightarrow> wf_message m \<Longrightarrow> buffers_ok (update_session i (\<lambda>c. c\<lparr>ses_read_msg := m\<rparr>) s)"
  by (auto simp: buffers_ok_def)

lemma buffers_session_start:
  "buffers_ok s \<Longrightarrow> buffers_ok (session_start i s)"
proof -
  assume ok: "buffers_ok s"
  have "buffers_ok (s\<lparr>participants := ps\<rparr>)" for ps using ok by (simp add: buffers_ok_def)
  moreover have "list_all sound (recent_msgs s)" using ok by (simp add: buffers_ok_def)
  ultimately show ?thesis by (simp add: session_start_def room_join_def buffers_fold_msgs)
qed

lemma buffers_start_accept:
  "buffers_ok s \<Longrightarrow> length garbage = header_length + max_body_length \<Longrightarrow> buffers_ok (chat_start_accept garbage s)"
  by (simp add: chat_start_accept_def buffers_ok_def chat_message_new_def wf_message_def Let_def)

text \<open>The buffer after an \<open>async_read\<close> of at most the header, or of at most the body.\<close>

lemma memcpy_header:
  "wf_message m \<Longrightarrow> length bs \<le> header_length \<Longrightarrow> wf_message (memcpy 0 bs m)"
  by (simp add: memcpy_def wf_message_def)

lemma memcpy_body:
  "wf_message m \<Longrightarrow> length bs \<le> msg_body_length m \<Longrightarrow> wf_message (memcpy header_length bs m)"
  by (simp add: memcpy_def wf_message_def)

lemma memcpy_body_decode:
  assumes "wf_message m" "decode_header m = (True, m)" "length bs \<le> msg_body_length m"
  shows "sound (memcpy header_length bs m)"
proof -
  have s: "sound m" using assms(1,2) by (simp add: sound_def)
  have "take header_length (msg_data (memcpy header_length bs m)) = take header_length (msg_data m)"
    using assms(1) by (simp add: memcpy_def wf_message_def)
  from decode_header_cong [OF s this] show ?thesis
    using memcpy_body [OF assms(1,3)] by (simp add: sound_def memcpy_def)
qed

section \<open>Reading\<close>

fun read_on :: "nat \<Rightarrow> chat_op \<Rightarrow> bool" where
  "read_on i (Read_header j) = (i = j)"
| "read_on i (Read_body j n) = (i = j)"
| "read_on i op = False"

fun write_on :: "nat \<Rightarrow> chat_op \<Rightarrow> bool" where
  "write_on i (Chat_write j bs) = (i = j)"
| "write_on i op = False"

fun is_chat_accept :: "chat_op \<Rightarrow> bool" where
  "is_chat_accept (Chat_accept i) = True"
| "is_chat_accept op = False"

text \<open>
  At most one read per session, none from number \<open>b\<close> on; while a body is read the buffer holds
  the decoded header; the accepts are \<open>acc\<close>.
\<close>

definition reads_inv :: "nat \<Rightarrow> chat_op list \<Rightarrow> chat \<Rightarrow> bool" where
  "reads_inv b acc s \<longleftrightarrow>
     (\<forall>i. length (filter (read_on i) (chat_pending s)) \<le> 1)
     \<and> (\<forall>i. b \<le> i \<longrightarrow> filter (read_on i) (chat_pending s) = [])
     \<and> (\<forall>i n. Read_body i n \<in> set (chat_pending s) \<longrightarrow>
          n = msg_body_length (ses_read_msg (sessions s i))
          \<and> decode_header (ses_read_msg (sessions s i)) = (True, ses_read_msg (sessions s i)))
     \<and> filter is_chat_accept (chat_pending s) = acc"

text \<open>The session that is being accepted has the last number, and no read.\<close>

definition reads_ok :: "chat \<Rightarrow> bool" where
  "reads_ok s \<longleftrightarrow>
     0 < next_session s \<and> reads_inv (next_session s - 1) [Chat_accept (next_session s - 1)] s"

text \<open>Deliveries add writes only and leave the read buffers alone.\<close>

definition same_reads :: "chat \<Rightarrow> chat \<Rightarrow> bool" where
  "same_reads s t \<longleftrightarrow>
     (\<exists>ops. chat_pending t = chat_pending s @ ops \<and> (\<forall>op\<in>set ops. \<exists>i bs. op = Chat_write i bs))
     \<and> (\<forall>i. ses_read_msg (sessions t i) = ses_read_msg (sessions s i))
     \<and> next_session t = next_session s"

lemma same_reads_refl: "same_reads s s"
  by (simp add: same_reads_def)

lemma same_reads_trans:
  assumes "same_reads s t" "same_reads t u"
  shows "same_reads s u"
proof -
  obtain o1 where 1: "chat_pending t = chat_pending s @ o1" "\<forall>op\<in>set o1. \<exists>i bs. op = Chat_write i bs"
    using assms(1) unfolding same_reads_def by blast
  obtain o2 where 2: "chat_pending u = chat_pending t @ o2" "\<forall>op\<in>set o2. \<exists>i bs. op = Chat_write i bs"
    using assms(2) unfolding same_reads_def by blast
  have "chat_pending u = chat_pending s @ (o1 @ o2)" using 1 2 by simp
  moreover have "\<forall>op\<in>set (o1 @ o2). \<exists>i bs. op = Chat_write i bs" using 1 2 by auto
  ultimately show ?thesis using assms unfolding same_reads_def by auto
qed

lemma same_reads_deliver: "same_reads s (session_deliver i m s)"
  by (simp add: same_reads_def session_deliver_def Let_def)

lemma same_reads_fold: "same_reads s (fold (\<lambda>i. session_deliver i m) is s)"
proof (induction "is" arbitrary: s)
  case (Cons i "is")
  show ?case using same_reads_trans [OF same_reads_deliver Cons.IH] by simp
qed (simp add: same_reads_refl)

lemma same_reads_fold_msgs: "same_reads s (fold (session_deliver i) ms s)"
proof (induction ms arbitrary: s)
  case (Cons m ms)
  show ?case using same_reads_trans [OF same_reads_deliver Cons.IH] by simp
qed (simp add: same_reads_refl)

lemma same_reads_room_deliver: "same_reads s (room_deliver m s)"
  using same_reads_fold [of "s\<lparr>recent_msgs := trim_recent (recent_msgs s @ [m])\<rparr>" m "participants s"]
  by (simp add: room_deliver_def Let_def same_reads_def)

lemma same_reads_room_join: "same_reads s (room_join i s)"
proof -
  have "same_reads s (s\<lparr>participants := ps\<rparr>)" for ps by (simp add: same_reads_def)
  from same_reads_trans [OF this same_reads_fold_msgs] show ?thesis by (simp add: room_join_def)
qed

lemma same_reads_write: "same_reads s (session_write i e s)"
  by (auto simp: same_reads_def session_write_def Let_def)

lemma same_reads_filter:
  assumes "same_reads s t"
  shows "filter (read_on i) (chat_pending t) = filter (read_on i) (chat_pending s)"
    and "filter is_chat_accept (chat_pending t) = filter is_chat_accept (chat_pending s)"
    and "Read_body i n \<in> set (chat_pending t) \<longleftrightarrow> Read_body i n \<in> set (chat_pending s)"
proof -
  obtain ops where 1: "chat_pending t = chat_pending s @ ops" "\<forall>op\<in>set ops. \<exists>i bs. op = Chat_write i bs"
    using assms unfolding same_reads_def by blast
  have "filter (read_on i) ops = []" "filter is_chat_accept ops = []" "Read_body i n \<notin> set ops"
    using 1(2) by (fastforce simp: filter_empty_conv)+
  then show "filter (read_on i) (chat_pending t) = filter (read_on i) (chat_pending s)"
      "filter is_chat_accept (chat_pending t) = filter is_chat_accept (chat_pending s)"
      "Read_body i n \<in> set (chat_pending t) \<longleftrightarrow> Read_body i n \<in> set (chat_pending s)"
    using 1(1) by auto
qed

lemma reads_same: "reads_inv b acc s \<Longrightarrow> same_reads s t \<Longrightarrow> reads_inv b acc t"
  unfolding reads_inv_def using same_reads_filter [of s t] unfolding same_reads_def by simp

lemma read_on_unique: "read_on i op \<Longrightarrow> read_on j op \<longleftrightarrow> j = i"
  by (cases op) auto

lemma read_on_not_accept: "read_on i op \<Longrightarrow> \<not> is_chat_accept op"
  by (cases op) auto

text \<open>A read of session \<open>i\<close> has completed: nothing of \<open>i\<close> is read any more, whatever happened to
  the buffer of \<open>i\<close>.\<close>

lemma reads_done:
  assumes inv: "reads_inv b acc s" and p: "chat_pending s = xs @ op # ys" and op: "read_on i op"
    and t: "chat_pending t = xs @ ys"
      "\<And>j. j \<noteq> i \<Longrightarrow> ses_read_msg (sessions t j) = ses_read_msg (sessions s j)"
  shows "reads_inv b acc t \<and> filter (read_on i) (chat_pending t) = [] \<and> i < b"
proof -
  have one: "length (filter (read_on i) (chat_pending s)) \<le> 1" using inv unfolding reads_inv_def by blast
  have none: "filter (read_on i) (xs @ ys) = []" using one op by (simp add: p)
  have less: "i < b"
  proof (rule ccontr)
    assume "\<not> i < b"
    then have "filter (read_on i) (chat_pending s) = []" using inv unfolding reads_inv_def by simp
    then show False using op by (simp add: p)
  qed
  have sub: "length (filter (read_on j) (xs @ ys)) \<le> length (filter (read_on j) (chat_pending s))" for j
    by (simp add: p)
  have body: "j \<noteq> i" if "Read_body j n \<in> set (xs @ ys)" for j n
  proof
    assume "j = i"
    then have "Read_body j n \<in> set (filter (read_on i) (xs @ ys))" using that by simp
    then show False by (simp only: none) simp
  qed
  have "reads_inv b acc t"
    unfolding reads_inv_def t
  proof (intro conjI allI impI)
    show "length (filter (read_on j) (xs @ ys)) \<le> 1" for j
      using inv sub [of j] unfolding reads_inv_def by (meson le_trans)
    show "filter (read_on j) (xs @ ys) = []" if "b \<le> j" for j
      using inv that sub [of j] unfolding reads_inv_def by (metis le_zero_eq length_0_conv)
    show "n = msg_body_length (ses_read_msg (sessions t j))"
        "decode_header (ses_read_msg (sessions t j)) = (True, ses_read_msg (sessions t j))"
      if "Read_body j n \<in> set (xs @ ys)" for j n
    proof -
      have "Read_body j n \<in> set (chat_pending s)" using that by (auto simp: p)
      then show "n = msg_body_length (ses_read_msg (sessions t j))"
          "decode_header (ses_read_msg (sessions t j)) = (True, ses_read_msg (sessions t j))"
        using inv body [OF that] t(2) [of j] unfolding reads_inv_def by auto
    qed
    show "filter is_chat_accept (xs @ ys) = acc"
      using inv read_on_not_accept [OF op] unfolding reads_inv_def p by auto
  qed
  with none less t show ?thesis by simp
qed

text \<open>A read of session \<open>i\<close> is started when it has none.\<close>

lemma reads_add:
  assumes inv: "reads_inv b acc s" and none: "filter (read_on i) (chat_pending s) = []"
    and less: "b \<le> b'" "i < b'" and op: "read_on i op"
    and body: "\<And>n. op = Read_body i n \<Longrightarrow> n = msg_body_length (ses_read_msg (sessions s i))
      \<and> decode_header (ses_read_msg (sessions s i)) = (True, ses_read_msg (sessions s i))"
  shows "reads_inv b' acc (chat_start_op op s)"
proof -
  have count: "filter (read_on j) (chat_pending s @ [op]) =
      (if j = i then [op] else filter (read_on j) (chat_pending s))" for j
  proof (cases "j = i")
    case True
    then show ?thesis using none op by (simp only: filter_append) simp
  next
    case False
    then have "\<not> read_on j op" using read_on_unique [OF op, of j] by blast
    then show ?thesis using False by simp
  qed
  have body': "op = Read_body j n \<Longrightarrow> j = i" for j n using op by simp
  show ?thesis
    unfolding reads_inv_def chat_simps count
  proof (intro conjI allI impI)
    fix j n
    have "length (filter (read_on j) (chat_pending s)) \<le> 1" using inv unfolding reads_inv_def by blast
    then show "length (if j = i then [op] else filter (read_on j) (chat_pending s)) \<le> 1" by simp
    show "(if j = i then [op] else filter (read_on j) (chat_pending s)) = []" if "b' \<le> j"
    proof -
      have "b \<le> j" "j \<noteq> i" using that less by auto
      then show ?thesis using inv unfolding reads_inv_def by simp
    qed
    show "filter is_chat_accept (chat_pending s @ [op]) = acc"
      using inv read_on_not_accept [OF op] by (simp add: reads_inv_def)
    assume "Read_body j n \<in> set (chat_pending s @ [op])"
    then have or: "Read_body j n \<in> set (chat_pending s) \<or> op = Read_body j n" by auto
    have "n = msg_body_length (ses_read_msg (sessions s j))
        \<and> decode_header (ses_read_msg (sessions s j)) = (True, ses_read_msg (sessions s j))"
    proof (cases "op = Read_body j n")
      case True
      then show ?thesis using body [of n] body' [of j n] by metis
    next
      case False
      then have "Read_body j n \<in> set (chat_pending s)" using or by blast
      then show ?thesis using inv unfolding reads_inv_def by blast
    qed
    then show "n = msg_body_length (ses_read_msg (sessions s j))"
        "decode_header (ses_read_msg (sessions s j)) = (True, ses_read_msg (sessions s j))"
      by blast+
  qed
qed

lemma reads_leave [simp]: "reads_inv b acc (room_leave i s) = reads_inv b acc s"
  by (simp add: reads_inv_def)

lemma reads_other_op:
  assumes "reads_inv b acc s" "chat_pending s = xs @ Chat_write i bs # ys"
  shows "reads_inv b acc (s\<lparr>chat_pending := xs @ ys\<rparr>)"
  using assms by (simp add: reads_inv_def)

text \<open>The accept of the newest session completes and the next session is accepted.\<close>

lemma reads_accept:
  assumes ok: "reads_ok s" and p: "chat_pending s = xs @ Chat_accept i # ys"
  shows "reads_ok (chat_handle_accept garbage i e (s\<lparr>chat_pending := xs @ ys\<rparr>)) \<and> Suc i = next_session s"
proof -
  let ?s = "s\<lparr>chat_pending := xs @ ys\<rparr>" and ?n = "next_session s"
  have inv: "reads_inv (?n - 1) [Chat_accept (?n - 1)] s" and pos: "0 < ?n"
    using ok by (simp_all add: reads_ok_def)
  have "filter is_chat_accept xs @ Chat_accept i # filter is_chat_accept ys = [Chat_accept (?n - 1)]"
    using inv by (simp add: reads_inv_def p)
  then have i: "Suc i = ?n" and none: "filter is_chat_accept xs = []" "filter is_chat_accept ys = []"
    using pos by (cases "filter is_chat_accept xs"; simp)+
  have 1: "reads_inv i [] ?s"
    using inv i none unfolding reads_inv_def by (auto simp: p)
  have 2: "reads_inv i [] (room_join i ?s)" by (rule reads_same [OF 1 same_reads_room_join])
  have 3: "reads_inv (Suc i) [] (session_start i ?s)"
    unfolding session_start_def
    by (rule reads_add [OF 2, of i]) (use 2 in \<open>simp_all add: reads_inv_def\<close>)
  have next_same: "next_session (session_start i ?s) = ?n"
    using same_reads_room_join [of ?s i] by (simp add: session_start_def same_reads_def)
  have new: "reads_ok (chat_start_accept garbage t)" if t: "reads_inv (Suc i) [] t" "next_session t = ?n" for t
  proof -
    have "j \<noteq> Suc i" if "Read_body j n \<in> set (chat_pending t)" for j n
    proof
      assume "j = Suc i"
      then have "filter (read_on j) (chat_pending t) = []" using t(1) unfolding reads_inv_def by simp
      with that show False by (metis filter_empty_conv read_on.simps(2))
    qed
    moreover have "reads_inv (Suc i) [Chat_accept (Suc i)] (chat_start_accept garbage t)"
      if "\<And>j n. Read_body j n \<in> set (chat_pending t) \<Longrightarrow> j \<noteq> Suc i"
      unfolding reads_inv_def
    proof (intro conjI allI impI)
      have pend: "chat_pending (chat_start_accept garbage t) = chat_pending t @ [Chat_accept (Suc i)]"
        using t(2) i by (simp add: chat_start_accept_def Let_def)
      fix j n
      show "length (filter (read_on j) (chat_pending (chat_start_accept garbage t))) \<le> 1"
        using t(1) by (simp add: pend reads_inv_def)
      show "filter (read_on j) (chat_pending (chat_start_accept garbage t)) = []" if "Suc i \<le> j"
        using t(1) that by (simp add: pend reads_inv_def)
      show "filter is_chat_accept (chat_pending (chat_start_accept garbage t)) = [Chat_accept (Suc i)]"
        using t(1) by (simp add: pend reads_inv_def)
      assume "Read_body j n \<in> set (chat_pending (chat_start_accept garbage t))"
      then have b: "Read_body j n \<in> set (chat_pending t)" by (simp add: pend)
      then have "sessions (chat_start_accept garbage t) j = sessions t j"
        using that t(2) i by (auto simp: chat_start_accept_def Let_def)
      then show "n = msg_body_length (ses_read_msg (sessions (chat_start_accept garbage t) j))"
          "decode_header (ses_read_msg (sessions (chat_start_accept garbage t) j))
            = (True, ses_read_msg (sessions (chat_start_accept garbage t) j))"
        using b t(1) by (simp_all add: reads_inv_def)
    qed
    ultimately show ?thesis
      using t(2) i by (simp add: reads_ok_def chat_start_accept_def Let_def)
  qed
  have "reads_inv (Suc i) [] ?s" using 1 by (simp add: reads_inv_def)
  then show ?thesis
    using new 3 next_same i by (simp add: chat_handle_accept_def)
qed


section \<open>Writing\<close>

text \<open>The write outstanding for a session is that of the front of its queue.\<close>

definition write_full :: "nat \<Rightarrow> chat \<Rightarrow> bool" where
  "write_full i s \<longleftrightarrow> filter (write_on i) (chat_pending s) =
     (case ses_write_msgs (sessions s i) of [] \<Rightarrow> [] | m # ms \<Rightarrow> [Chat_write i (wire m)])"

definition write_none :: "nat \<Rightarrow> chat \<Rightarrow> bool" where
  "write_none i s \<longleftrightarrow> filter (write_on i) (chat_pending s) = []"

text \<open>A participant's queue is being written; a session whose write failed has left. Sessions from
  number \<open>b\<close> on have written nothing.\<close>

definition writes_inv :: "nat \<Rightarrow> chat \<Rightarrow> bool" where
  "writes_inv b s \<longleftrightarrow>
     distinct (participants s)
     \<and> (\<forall>i\<in>set (participants s). i < b)
     \<and> (\<forall>i. write_full i s \<or> (i \<notin> set (participants s) \<and> write_none i s))
     \<and> (\<forall>i\<ge>b. ses_write_msgs (sessions s i) = [])"

lemma write_full_deliver:
  "write_full i s \<Longrightarrow> write_full i (session_deliver i m s)"
  by (cases "ses_write_msgs (sessions s i)") (simp_all add: write_full_def session_deliver_def Let_def)

lemma write_other_deliver:
  "j \<noteq> i \<Longrightarrow> write_full j (session_deliver i m s) = write_full j s"
  "j \<noteq> i \<Longrightarrow> write_none j (session_deliver i m s) = write_none j s"
  "j \<noteq> i \<Longrightarrow> ses_write_msgs (sessions (session_deliver i m s) j) = ses_write_msgs (sessions s j)"
  by (simp_all add: write_full_def write_none_def session_deliver_def Let_def)

lemma writes_deliver:
  assumes "writes_inv b s" "i \<in> set (participants s)"
  shows "writes_inv b (session_deliver i m s)"
proof -
  have i: "write_full i (session_deliver i m s)"
    using assms write_full_deliver unfolding writes_inv_def by blast
  have less: "i < b" using assms unfolding writes_inv_def by blast
  show ?thesis
    unfolding writes_inv_def deliver_frame
  proof (intro conjI allI impI)
    show "distinct (participants s)" "\<forall>i\<in>set (participants s). i < b"
      using assms unfolding writes_inv_def by blast+
    fix j
    show "write_full j (session_deliver i m s) \<or> j \<notin> set (participants s) \<and> write_none j (session_deliver i m s)"
      using assms(1) i write_other_deliver [of j i m s] unfolding writes_inv_def by metis
    show "ses_write_msgs (sessions (session_deliver i m s) j) = []" if "b \<le> j"
      using assms(1) that less write_other_deliver(3) [of j i m s] unfolding writes_inv_def by simp
  qed
qed

lemma writes_fold:
  "writes_inv b s \<Longrightarrow> set is \<subseteq> set (participants s) \<Longrightarrow> writes_inv b (fold (\<lambda>i. session_deliver i m) is s)"
  by (induction "is" arbitrary: s) (simp_all add: writes_deliver)

lemma writes_fold_msgs:
  "writes_inv b s \<Longrightarrow> i \<in> set (participants s) \<Longrightarrow> writes_inv b (fold (session_deliver i) ms s)"
  by (induction ms arbitrary: s) (simp_all add: writes_deliver)

text \<open>Steps that leave the queues and their writes alone.\<close>

definition same_writes :: "chat \<Rightarrow> chat \<Rightarrow> bool" where
  "same_writes s t \<longleftrightarrow>
     (\<forall>i. filter (write_on i) (chat_pending t) = filter (write_on i) (chat_pending s)
        \<and> ses_write_msgs (sessions t i) = ses_write_msgs (sessions s i))"

lemma writes_same:
  "writes_inv b s \<Longrightarrow> same_writes s t \<Longrightarrow> participants t = participants s \<Longrightarrow> writes_inv b t"
  by (simp add: writes_inv_def same_writes_def write_full_def write_none_def)

lemma writes_leave: "writes_inv b s \<Longrightarrow> writes_inv b (room_leave i s)"
proof -
  assume inv: "writes_inv b s"
  have "write_full j (room_leave i s) = write_full j s" "write_none j (room_leave i s) = write_none j s" for j
    by (simp_all add: write_full_def write_none_def)
  moreover have "set (participants (room_leave i s)) \<subseteq> set (participants s)"
      "distinct (participants (room_leave i s))"
    using inv set_remove1_subset [of i "participants s"] by (simp_all add: room_leave_def writes_inv_def)
  ultimately show ?thesis using inv unfolding writes_inv_def chat_simps by blast
qed

lemma writes_room_deliver: "writes_inv b s \<Longrightarrow> writes_inv b (room_deliver m s)"
proof -
  assume "writes_inv b s"
  then have "writes_inv b (s\<lparr>recent_msgs := ms\<rparr>)" for ms
    by (simp add: writes_inv_def write_full_def write_none_def)
  from writes_fold [OF this] show ?thesis by (simp add: room_deliver_def Let_def)
qed

text \<open>A write completes: the front leaves the queue and the next message is written, or the
  session leaves.\<close>

lemma write_on_unique: "write_on i op \<Longrightarrow> write_on j op \<longleftrightarrow> j = i"
  by (cases op) auto

lemma writes_complete:
  assumes inv: "writes_inv b s" and p: "chat_pending s = xs @ Chat_write i bs # ys"
  shows "writes_inv b (session_write i e (s\<lparr>chat_pending := xs @ ys\<rparr>))"
proof -
  let ?s = "s\<lparr>chat_pending := xs @ ys\<rparr>"
  let ?t = "session_write i e ?s"
  have full: "write_full i s" using inv unfolding writes_inv_def write_none_def p by auto
  then obtain m ms where q: "ses_write_msgs (sessions s i) = m # ms"
    by (cases "ses_write_msgs (sessions s i)") (auto simp: write_full_def p)
  with full have none: "filter (write_on i) xs = []" "filter (write_on i) ys = []"
    by (auto simp: write_full_def p append_eq_Cons_conv)
  have less: "i < b" using inv q unfolding writes_inv_def by (metis leI list.distinct(1))
  have other: "write_full j ?t = write_full j s" "write_none j ?t = write_none j s"
      "ses_write_msgs (sessions ?t j) = ses_write_msgs (sessions s j)" if "j \<noteq> i" for j
    using that by (simp_all add: write_full_def write_none_def session_write_def Let_def p)
  show ?thesis
  proof (cases "e = No_error")
    case True
    have "write_full i ?t"
      using none q by (cases ms) (simp_all add: True write_full_def session_write_def Let_def)
    moreover have "participants ?t = participants s" by (simp add: True session_write_def Let_def)
    ultimately show ?thesis
      using inv less other unfolding writes_inv_def by (metis leD)
  next
    case False
    have t: "participants ?t = remove1 i (participants s)" by (simp add: False session_write_def room_leave_def)
    have "write_none i ?t" using none by (simp add: False write_none_def session_write_def)
    moreover have "i \<notin> set (participants ?t)" using inv by (simp add: t writes_inv_def)
    moreover have "set (participants ?t) \<subseteq> set (participants s)" "distinct (participants ?t)"
      using inv set_remove1_subset [of i "participants s"] by (simp_all add: t writes_inv_def)
    ultimately show ?thesis
      using inv less other unfolding writes_inv_def by (metis leD subsetD)
  qed
qed

lemma writes_start:
  assumes inv: "writes_inv i s"
  shows "writes_inv (Suc i) (session_start i s)"
proof -
  let ?s = "s\<lparr>participants := insort i (participants s)\<rparr>"
  have i: "i \<notin> set (participants s)" "ses_write_msgs (sessions s i) = []"
    using inv unfolding writes_inv_def by auto
  have "write_full i s \<or> write_none i s" using inv unfolding writes_inv_def by blast
  then have "write_full i s" using i by (auto simp: write_full_def write_none_def)
  then have "writes_inv (Suc i) ?s"
    using inv i by (auto simp: writes_inv_def write_full_def write_none_def distinct_insort set_insort_key less_Suc_eq)
  then have "writes_inv (Suc i) (room_join i s)"
    using i by (simp add: room_join_def writes_fold_msgs set_insort_key)
  moreover have "same_writes (room_join i s) (session_start i s)"
    by (simp add: same_writes_def session_start_def)
  ultimately show ?thesis using writes_same by (simp add: session_start_def)
qed

lemma writes_mono: "writes_inv b s \<Longrightarrow> b \<le> c \<Longrightarrow> writes_inv c s"
  by (auto simp: writes_inv_def)

lemma writes_start_accept:
  assumes "writes_inv b s" "b \<le> next_session s"
  shows "writes_inv b (chat_start_accept garbage s)"
proof -
  have "same_writes s (chat_start_accept garbage s)"
    using assms by (auto simp: same_writes_def chat_start_accept_def Let_def writes_inv_def)
  then show ?thesis
    using assms(1) writes_same by (simp add: chat_start_accept_def Let_def)
qed

section \<open>Reachable states\<close>

definition chat_inv :: "chat \<Rightarrow> bool" where
  "chat_inv s \<longleftrightarrow> buffers_ok s \<and> reads_ok s \<and> writes_inv (next_session s - 1) s"

lemma chat_new_inv:
  "length garbage = header_length + max_body_length \<Longrightarrow> chat_inv (chat_server_new garbage)"
  by (simp add: chat_inv_def chat_server_new_def chat_start_accept_def Let_def buffers_ok_def reads_ok_def
      reads_inv_def writes_inv_def write_full_def chat_message_new_def wf_message_def)

lemma inv_read_header:
  assumes inv: "chat_inv s" and p: "chat_pending s = xs @ Read_header i # ys"
    and n: "length bytes \<le> header_length"
  shows "chat_inv (chat_complete garbage (Read_header i) e bytes (s\<lparr>chat_pending := xs @ ys\<rparr>))"
proof -
  let ?m = "memcpy 0 bytes (ses_read_msg (sessions s i))"
  let ?s = "update_session i (\<lambda>c. c\<lparr>ses_read_msg := ?m\<rparr>) (s\<lparr>chat_pending := xs @ ys\<rparr>)"
  let ?b = "next_session s - 1"
  have run: "chat_complete garbage (Read_header i) e bytes (s\<lparr>chat_pending := xs @ ys\<rparr>)
      = session_read_header i e ?s"
    by (simp add: update_session_def)
  have bufs: "buffers_ok s" and pos: "0 < next_session s" and reads: "reads_inv ?b [Chat_accept ?b] s"
    and writes: "writes_inv ?b s"
    using inv by (simp_all add: chat_inv_def reads_ok_def)
  have m: "wf_message ?m" using bufs n by (simp add: buffers_ok_def memcpy_header)
  have "buffers_ok (s\<lparr>chat_pending := xs @ ys\<rparr>)" using bufs by (simp add: buffers_ok_def)
  then have bufs1: "buffers_ok ?s" using m by (rule buffers_read)
  have reads1: "reads_inv ?b [Chat_accept ?b] ?s \<and> filter (read_on i) (chat_pending ?s) = [] \<and> i < ?b"
    by (rule reads_done [OF reads p]) simp_all
  have writes1: "writes_inv ?b ?s"
    by (rule writes_same [OF writes]) (simp_all add: same_writes_def p)
  show ?thesis
  proof (cases "e = No_error")
    case False
    then show ?thesis
      unfolding run using bufs1 reads1 writes1 pos
      by (simp add: session_read_header_def chat_inv_def reads_ok_def writes_leave)
  next
    case True
    obtain ok m' where d: "decode_header ?m = (ok, m')" by (cases "decode_header ?m")
    let ?t = "update_session i (\<lambda>c. c\<lparr>ses_read_msg := m'\<rparr>) ?s"
    have wf: "wf_message m'" and snd: "ok \<Longrightarrow> sound m'"
      using decode_header_wf [of ?m] m d by (auto simp: wf_message_def)
    have bufs2: "buffers_ok ?t" using bufs1 wf by (rule buffers_read)
    have reads2: "reads_inv ?b [Chat_accept ?b] ?t \<and> filter (read_on i) (chat_pending ?t) = [] \<and> i < ?b"
      by (rule reads_done [OF reads p]) simp_all
    have writes2: "writes_inv ?b ?t"
      by (rule writes_same [OF writes]) (simp_all add: same_writes_def p)
    show ?thesis
    proof (cases ok)
      case False
      then have "session_read_header i e ?s = room_leave i ?t"
        by (simp add: session_read_header_def True d)
      then show ?thesis
        unfolding run using bufs2 reads2 writes2 pos
        by (simp add: chat_inv_def reads_ok_def writes_leave)
    next
      case ok: True
      then have t: "session_read_header i e ?s = chat_start_op (Read_body i (msg_body_length m')) ?t"
        by (simp add: session_read_header_def True d)
      have "reads_inv ?b [Chat_accept ?b] (chat_start_op (Read_body i (msg_body_length m')) ?t)"
        by (rule reads_add [where b = ?b and i = i]) (use reads2 snd ok in \<open>simp_all add: sound_def\<close>)
      moreover have "writes_inv ?b (chat_start_op (Read_body i (msg_body_length m')) ?t)"
        by (rule writes_same [OF writes2]) (simp_all add: same_writes_def)
      ultimately show ?thesis
        unfolding run t using bufs2 pos by (simp add: chat_inv_def reads_ok_def)
    qed
  qed
qed


lemma inv_read_body:
  assumes inv: "chat_inv s" and p: "chat_pending s = xs @ Read_body i n # ys"
    and n: "length bytes \<le> n"
  shows "chat_inv (chat_complete garbage (Read_body i n) e bytes (s\<lparr>chat_pending := xs @ ys\<rparr>))"
proof -
  let ?m = "memcpy header_length bytes (ses_read_msg (sessions s i))"
  let ?s = "update_session i (\<lambda>c. c\<lparr>ses_read_msg := ?m\<rparr>) (s\<lparr>chat_pending := xs @ ys\<rparr>)"
  let ?b = "next_session s - 1"
  have run: "chat_complete garbage (Read_body i n) e bytes (s\<lparr>chat_pending := xs @ ys\<rparr>)
      = session_read_body i e ?s"
    by (simp add: update_session_def)
  have bufs: "buffers_ok s" and pos: "0 < next_session s" and reads: "reads_inv ?b [Chat_accept ?b] s"
    and writes: "writes_inv ?b s"
    using inv by (simp_all add: chat_inv_def reads_ok_def)
  have body: "n = msg_body_length (ses_read_msg (sessions s i))"
      "decode_header (ses_read_msg (sessions s i)) = (True, ses_read_msg (sessions s i))"
    using reads unfolding reads_inv_def p by auto
  have m: "sound ?m"
    using memcpy_body_decode [OF _ body(2)] bufs n body(1) by (simp add: buffers_ok_def)
  have "buffers_ok (s\<lparr>chat_pending := xs @ ys\<rparr>)" using bufs by (simp add: buffers_ok_def)
  then have bufs1: "buffers_ok ?s" by (rule buffers_read) (use m in \<open>simp add: sound_def\<close>)
  have reads1: "reads_inv ?b [Chat_accept ?b] ?s \<and> filter (read_on i) (chat_pending ?s) = [] \<and> i < ?b"
    by (rule reads_done [OF reads p]) simp_all
  have writes1: "writes_inv ?b ?s"
    by (rule writes_same [OF writes]) (simp_all add: same_writes_def p)
  show ?thesis
  proof (cases "e = No_error")
    case False
    then show ?thesis
      unfolding run using bufs1 reads1 writes1 pos
      by (simp add: session_read_body_def chat_inv_def reads_ok_def writes_leave)
  next
    case True
    let ?t = "room_deliver ?m ?s"
    have t: "session_read_body i e ?s = chat_start_op (Read_header i) ?t"
      by (simp add: session_read_body_def True)
    have next_same: "next_session ?t = next_session s"
      using same_reads_room_deliver [of ?s ?m] by (simp add: same_reads_def)
    have reads2: "reads_inv ?b [Chat_accept ?b] ?t"
      using reads_same [OF _ same_reads_room_deliver] reads1 by blast
    have "reads_inv ?b [Chat_accept ?b] (chat_start_op (Read_header i) ?t)"
      by (rule reads_add [OF reads2, of i])
        (use reads1 same_reads_filter(1) [OF same_reads_room_deliver [of ?s ?m], of i] in simp_all)
    moreover have "writes_inv ?b (chat_start_op (Read_header i) ?t)"
      by (rule writes_same [OF writes_room_deliver [OF writes1]]) (simp_all add: same_writes_def)
    ultimately show ?thesis
      unfolding run t using buffers_room_deliver [OF bufs1 m] pos
      by (simp add: chat_inv_def reads_ok_def next_same)
  qed
qed

lemma inv_chat_write:
  assumes inv: "chat_inv s" and p: "chat_pending s = xs @ Chat_write i bs # ys"
  shows "chat_inv (chat_complete garbage (Chat_write i bs) e bytes (s\<lparr>chat_pending := xs @ ys\<rparr>))"
proof -
  let ?s = "s\<lparr>chat_pending := xs @ ys\<rparr>" and ?b = "next_session s - 1"
  have same: "same_reads ?s (session_write i e ?s)" by (rule same_reads_write)
  then have n: "next_session (session_write i e ?s) = next_session s" by (simp add: same_reads_def)
  have reads: "reads_inv ?b [Chat_accept ?b] ?s"
    using reads_other_op [OF _ p] inv by (simp add: chat_inv_def reads_ok_def)
  have tl: "list_all sound (tl q)" if "list_all sound q" for q using that by (cases q) simp_all
  have "buffers_ok (session_write i e ?s)"
    using inv tl by (simp add: chat_inv_def buffers_ok_def session_write_def Let_def)
  moreover have "writes_inv ?b (session_write i e ?s)"
    using writes_complete [OF _ p] inv by (simp add: chat_inv_def)
  ultimately show ?thesis
    using reads_same [OF reads same] inv n by (simp add: chat_inv_def reads_ok_def)
qed

lemma inv_chat_accept:
  assumes inv: "chat_inv s" and p: "chat_pending s = xs @ Chat_accept i # ys"
    and g: "length garbage = header_length + max_body_length"
  shows "chat_inv (chat_complete garbage (Chat_accept i) e bytes (s\<lparr>chat_pending := xs @ ys\<rparr>))"
proof -
  let ?s = "s\<lparr>chat_pending := xs @ ys\<rparr>"
  have reads: "reads_ok (chat_handle_accept garbage i e ?s)" and i: "Suc i = next_session s"
    using reads_accept [OF _ p] inv by (simp_all add: chat_inv_def)
  have "buffers_ok ?s" using inv by (simp add: chat_inv_def buffers_ok_def)
  then have bufs: "buffers_ok (chat_handle_accept garbage i e ?s)"
    using g by (simp add: chat_handle_accept_def buffers_start_accept buffers_session_start)
  have "same_writes s ?s" by (simp add: same_writes_def p)
  then have w: "writes_inv i ?s"
  proof -
    have "i = next_session s - 1" using i by simp
    then have "writes_inv i s" using inv by (simp add: chat_inv_def)
    then show ?thesis using \<open>same_writes s ?s\<close> by (rule writes_same) simp
  qed
  have n: "next_session (session_start i ?s) = Suc i"
    using same_reads_room_join [of ?s i] i by (simp add: session_start_def same_reads_def)
  have "writes_inv (Suc i) (if e = No_error then session_start i ?s else ?s)"
    using writes_start [OF w] writes_mono [OF w, of "Suc i"] by simp
  then have "writes_inv (Suc i) (chat_handle_accept garbage i e ?s)"
    using n i unfolding chat_handle_accept_def by (intro writes_start_accept) simp_all
  moreover have "next_session (chat_handle_accept garbage i e ?s) = Suc (Suc i)"
    using n i by (simp add: chat_handle_accept_def chat_start_accept_def Let_def)
  ultimately show ?thesis using reads bufs by (simp add: chat_inv_def)
qed

lemma chat_reachable_inv:
  assumes "chat_step\<^sup>*\<^sup>* (chat_server_new garbage) s" "length garbage = header_length + max_body_length"
  shows "chat_inv s"
  using assms
proof (induction rule: rtranclp_induct)
  case base
  then show ?case by (rule chat_new_inv)
next
  case (step s t)
  then have inv: "chat_inv s" by blast
  from step.hyps(2) show ?case
  proof (cases rule: chat_step.cases)
    case (chat_step xs op ys error bytes g)
    have "length bytes \<le> read_size op" using chat_step by (simp split: if_splits)
    with chat_step inv show ?thesis
      by (cases op) (simp_all only: read_size.simps inv_read_header inv_read_body inv_chat_write inv_chat_accept)
  qed
qed

section \<open>Properties\<close>

lemma sound_wire_length: "sound m \<Longrightarrow> header_length \<le> length (wire m) \<and> length (wire m) \<le> header_length + max_body_length"
  by (simp add: sound_def wire_def message_defs)

text \<open>
  C5. In every state the chat server can reach, no buffer is overrun: every read buffer keeps its 516
  bytes and a body length that fits, and a body that is being read has that length; every message that
  waits in the queue of a session, and every recent message, has 516 bytes and a body length that fits and agrees
  with its header, and the bytes of every write are between 4 and 516. The room keeps at most 100 recent
  messages, each session has at most one read outstanding, and the write outstanding for a session is
  that of the message at the front of its queue: exactly when the queue is not empty, as long as the
  session is in the room.
\<close>

theorem chat_reachable_safe:
  assumes "chat_step\<^sup>*\<^sup>* (chat_server_new garbage) s" "length garbage = header_length + max_body_length"
  shows "(\<forall>i. wf_message (ses_read_msg (sessions s i)) \<and> list_all sound (ses_write_msgs (sessions s i)))
    \<and> (\<forall>i n. Read_body i n \<in> set (chat_pending s) \<longrightarrow> n = msg_body_length (ses_read_msg (sessions s i)))
    \<and> (\<forall>i bs. Chat_write i bs \<in> set (chat_pending s) \<longrightarrow>
          header_length \<le> length bs \<and> length bs \<le> header_length + max_body_length)
    \<and> list_all sound (recent_msgs s) \<and> length (recent_msgs s) \<le> 100
    \<and> (\<forall>i. length (filter (read_on i) (chat_pending s)) \<le> 1)
    \<and> (\<forall>i. filter (write_on i) (chat_pending s) =
          (case ses_write_msgs (sessions s i) of [] \<Rightarrow> [] | m # ms \<Rightarrow> [Chat_write i (wire m)])
        \<or> i \<notin> set (participants s) \<and> filter (write_on i) (chat_pending s) = [])"
proof -
  have inv: "chat_inv s" using chat_reachable_inv [OF assms] .
  have "buffers_ok s" and reads: "reads_inv (next_session s - 1) [Chat_accept (next_session s - 1)] s"
    and writes: "writes_inv (next_session s - 1) s"
    using inv by (simp_all add: chat_inv_def reads_ok_def)
  then have 1: "\<forall>i. wf_message (ses_read_msg (sessions s i)) \<and> list_all sound (ses_write_msgs (sessions s i))"
      "list_all sound (recent_msgs s)" "length (recent_msgs s) \<le> 100"
    by (simp_all add: buffers_ok_def max_recent_msgs_def)
  have 2: "\<forall>i. length (filter (read_on i) (chat_pending s)) \<le> 1"
      "\<forall>i n. Read_body i n \<in> set (chat_pending s) \<longrightarrow> n = msg_body_length (ses_read_msg (sessions s i))"
    using reads unfolding reads_inv_def by blast+
  have 3: "\<forall>i. write_full i s \<or> i \<notin> set (participants s) \<and> write_none i s"
    using writes unfolding writes_inv_def by blast
  have "header_length \<le> length bs \<and> length bs \<le> header_length + max_body_length"
    if "Chat_write i bs \<in> set (chat_pending s)" for i bs
  proof -
    have w: "Chat_write i bs \<in> set (filter (write_on i) (chat_pending s))" using that by simp
    then have "write_full i s" using 3 by (auto simp: write_none_def simp del: set_filter)
    then obtain m ms where "ses_write_msgs (sessions s i) = m # ms" "bs = wire m"
      using w by (auto simp: write_full_def simp del: set_filter split: list.splits)
    then show ?thesis using spec [OF 1(1), of i] sound_wire_length [of m] by simp
  qed
  then show ?thesis using 1 2 3 unfolding write_full_def write_none_def by blast
qed

text \<open>A run in which a session sends the message \<open>a\<close>, which is delivered to itself.\<close>

definition example_garbage :: string where
  "example_garbage = replicate 516 CHR ''x''"

definition example_state :: "nat \<Rightarrow> chat" where
  "example_state n = (let g = example_garbage; s0 = chat_server_new g;
     s1 = chat_complete g (Chat_accept 0) No_error [] (s0\<lparr>chat_pending := [] @ []\<rparr>);
     s2 = chat_complete g (Read_header 0) No_error ''   1'' (s1\<lparr>chat_pending := [] @ [Chat_accept 1]\<rparr>);
     s3 = chat_complete g (Read_body 0 1) No_error ''a'' (s2\<lparr>chat_pending := [Chat_accept 1] @ []\<rparr>)
     in [s0, s1, s2, s3] ! n)"

lemma example_decode: "decode_header (memcpy 0 ''   1'' (chat_message_new example_garbage)) =
    (True, (memcpy 0 ''   1'' (chat_message_new example_garbage))\<lparr>msg_body_length := 1\<rparr>)"
proof -
  have "printf_d header_length 1 = ''   1''" by code_simp
  then show ?thesis by (intro decode_printf) (simp_all add: memcpy_def header_length_def)
qed

lemma example_pending:
  "chat_pending (example_state 0) = [] @ Chat_accept 0 # []"
  "chat_pending (example_state 1) = [] @ Read_header 0 # [Chat_accept 1]"
  "chat_pending (example_state 2) = [Chat_accept 1] @ Read_body 0 1 # []"
proof -
  show "chat_pending (example_state 0) = [] @ Chat_accept 0 # []"
    by (simp add: example_state_def chat_server_new_def chat_start_accept_def Let_def)
  show "chat_pending (example_state 1) = [] @ Read_header 0 # [Chat_accept 1]"
    by (simp add: example_state_def chat_server_new_def chat_start_accept_def Let_def chat_handle_accept_def
        session_start_def room_join_def)
  show "chat_pending (example_state 2) = [Chat_accept 1] @ Read_body 0 1 # []"
    by (simp add: example_state_def chat_server_new_def chat_start_accept_def Let_def chat_handle_accept_def
        session_start_def room_join_def session_read_header_def example_decode)
qed

lemma example_reachable: "chat_step\<^sup>*\<^sup>* (chat_server_new example_garbage) (example_state 3)"
proof -
  have g: "length example_garbage = header_length + max_body_length"
    by (simp add: example_garbage_def header_length_def max_body_length_def)
  note unfold = example_state_def Let_def
  have "chat_step (example_state 0) (example_state 1)"
    using chat_step [OF example_pending(1), of No_error "[]" example_garbage] g
    by (simp add: unfold del: chat_complete.simps)
  moreover have "chat_step (example_state 1) (example_state 2)"
    using chat_step [OF example_pending(2), of No_error "''   1''" example_garbage] g
    by (simp add: unfold header_length_def del: chat_complete.simps)
  moreover have "chat_step (example_state 2) (example_state 3)"
    using chat_step [OF example_pending(3), of No_error "''a''" example_garbage] g
    by (simp add: unfold numeral_2_eq_2 numeral_3_eq_3 del: chat_complete.simps)
  moreover have "example_state 0 = chat_server_new example_garbage" by (simp add: unfold)
  ultimately show ?thesis by (metis rtranclp.simps)
qed

lemma example_wire:
  "wire (memcpy header_length ''a'' (memcpy 0 ''   1'' (chat_message_new example_garbage)\<lparr>msg_body_length := Suc 0\<rparr>)) = ''   1a''"
  by (simp add: wire_def msg_length_def memcpy_def header_length_def chat_message_new_def)

lemma example_queue:
  "chat_pending (example_state 3) = [Chat_accept 1, Chat_write 0 ''   1a'', Read_header 0]"
  "length (ses_write_msgs (sessions (example_state 3) 0)) = 1"
  by (simp_all add: example_state_def numeral_3_eq_3 chat_server_new_def chat_start_accept_def Let_def chat_handle_accept_def
        session_start_def room_join_def session_read_header_def session_read_body_def room_deliver_def example_decode
        session_deliver_def example_wire)

theorem chat_reachable_safe_witness:
  "length (ses_write_msgs (sessions (example_state 3) 0)) = 1 \<and> list_all sound (ses_write_msgs (sessions (example_state 3) 0))
    \<and> length (filter (read_on 0) [Chat_accept 1, Chat_write 0 ''   1a'', Read_header 0]) \<le> 1"
proof -
  have g: "length example_garbage = header_length + max_body_length"
    by (simp add: example_garbage_def header_length_def max_body_length_def)
  show ?thesis
    using chat_reachable_safe [OF example_reachable g] unfolding example_queue(1) using example_queue(2) by blast
qed

text \<open>
  What a session sends is what was delivered to it, in order: after any sequence of deliveries
  and completed writes, the writes started, followed by the messages that wait behind the
  front, are the writes and waiting messages there were, followed by all messages delivered
  since; and one write is outstanding exactly while the queue is not empty.
\<close>

theorem session_writes_in_order:
  assumes "session_queue.possible i s es" "ses_write_msgs (sessions s i) = []"
  shows "let t = session_queue.run i s es in
    session_sent i t @ List.map wire (tl (ses_write_msgs (sessions t i)))
      = session_sent i s @ List.map wire (enqueued es)
    \<and> length (session_sent i t) = length (session_sent i s) + completions es
        + (if ses_write_msgs (sessions t i) = [] then 0 else 1)"
  using session_queue.fifo [OF assms(1)] session_queue.one_outstanding [OF assms(1), of "length (session_sent i s)"]
    assms(2)
  by (simp add: Let_def)

theorem session_writes_in_order_witness:
  "let t = session_queue.run 0 (chat_server_new (replicate 516 CHR ''x''))
     [Enqueue (chat_message_new ''0000a''), Enqueue (chat_message_new ''0000b''), Written] in
   session_sent 0 t = [''0000'', ''0000'']"
proof -
  let ?es = "[Enqueue (chat_message_new ''0000a''), Enqueue (chat_message_new ''0000b''), Written]"
  let ?s = "chat_server_new (replicate 516 CHR ''x'')"
  have q: "ses_write_msgs (sessions ?s 0) = []"
    by (simp add: chat_server_new_def chat_start_accept_def chat_start_op_def)
  have sent: "session_sent 0 ?s = []"
    by (simp add: chat_server_new_def chat_start_accept_def chat_start_op_def session_sent_def)
  have possible: "session_queue.possible 0 ?s ?es"
    using q by (simp add: session_queue.queue_enqueue)
  let ?t = "session_queue.run 0 ?s ?es"
  have queue: "ses_write_msgs (sessions ?t 0) = [chat_message_new ''0000b'']"
    using q by (simp add: session_queue.queue_enqueue session_queue.queue_complete)
  have "wire (chat_message_new ''0000a'') = ''0000''" "wire (chat_message_new ''0000b'') = ''0000''" by code_simp+
  then show ?thesis
    using session_writes_in_order [OF possible q] queue sent by (simp add: Let_def)
qed

end
