(* ===== verification/Chat_Client.thy ===== *)
theory Chat_Client
  imports Chat_Message Write_Queue
begin

text \<open>
  \<open>asio-examples/chat_client/chat_client.cpp\<close>: the main thread composes a message from each input
  line and posts it; the thread of the \<open>io_context\<close> writes the posted messages from a queue, and
  reads and prints messages.
\<close>

section \<open>State\<close>

datatype client_op = Connect | Client_read_header | Client_read_body nat | Client_write string

text \<open>Functions posted to the \<open>io_context\<close> by \<open>write\<close> and \<open>close\<close>.\<close>

datatype posted = Do_write chat_message | Do_close

record chat_client =
  cl_open :: bool
  cl_read_msg :: chat_message
  cl_write_msgs :: "chat_message list"
  cl_posted :: "posted list"
  cl_pending :: "client_op list"
  cl_sent :: "string list"
  cl_printed :: string

definition client_start_op :: "client_op \<Rightarrow> chat_client \<Rightarrow> chat_client" where
  "client_start_op op c = c\<lparr>cl_pending := cl_pending c @ [op]\<rparr>"

definition client_async_write :: "string \<Rightarrow> chat_client \<Rightarrow> chat_client" where
  "client_async_write bytes c = client_start_op (Client_write bytes) (c\<lparr>cl_sent := cl_sent c @ [bytes]\<rparr>)"

section \<open>\<open>chat_client\<close>\<close>

definition chat_client_new :: "string \<Rightarrow> chat_client" where
  "chat_client_new garbage = client_start_op Connect
     \<lparr>cl_open = True, cl_read_msg = chat_message_new garbage, cl_write_msgs = [], cl_posted = [],
      cl_pending = [], cl_sent = [], cl_printed = []\<rparr>"

definition client_post_write :: "chat_message \<Rightarrow> chat_client \<Rightarrow> chat_client" where
  "client_post_write msg c = c\<lparr>cl_posted := cl_posted c @ [Do_write msg]\<rparr>"

definition client_post_close :: "chat_client \<Rightarrow> chat_client" where
  "client_post_close c = c\<lparr>cl_posted := cl_posted c @ [Do_close]\<rparr>"

definition do_close :: "chat_client \<Rightarrow> chat_client" where
  "do_close c = c\<lparr>cl_open := False\<rparr>"

definition do_write :: "chat_message \<Rightarrow> chat_client \<Rightarrow> chat_client" where
  "do_write msg c =
     (let write_in_progress = (cl_write_msgs c \<noteq> []);
          c = c\<lparr>cl_write_msgs := cl_write_msgs c @ [msg]\<rparr>
      in if \<not> write_in_progress then client_async_write (wire (hd (cl_write_msgs c))) c else c)"

definition client_handle_connect :: "error_code \<Rightarrow> chat_client \<Rightarrow> chat_client" where
  "client_handle_connect error c = (if error = No_error then client_start_op Client_read_header c else c)"

definition client_read_header :: "error_code \<Rightarrow> chat_client \<Rightarrow> chat_client" where
  "client_read_header error c =
     (if error = No_error then
        (let (ok, m) = decode_header (cl_read_msg c); c = c\<lparr>cl_read_msg := m\<rparr>
         in if ok then client_start_op (Client_read_body (msg_body_length m)) c else do_close c)
      else do_close c)"

definition client_read_body :: "error_code \<Rightarrow> chat_client \<Rightarrow> chat_client" where
  "client_read_body error c =
     (if error = No_error then
        client_start_op Client_read_header
          (c\<lparr>cl_printed := cl_printed c @ take (msg_body_length (cl_read_msg c)) (body (cl_read_msg c)) @ [CHR 0x0A]\<rparr>)
      else do_close c)"

definition client_handle_write :: "error_code \<Rightarrow> chat_client \<Rightarrow> chat_client" where
  "client_handle_write error c =
     (if error = No_error then
        (let c = c\<lparr>cl_write_msgs := tl (cl_write_msgs c)\<rparr>
         in if cl_write_msgs c \<noteq> [] then client_async_write (wire (hd (cl_write_msgs c))) c else c)
      else do_close c)"

text \<open>A posted function runs.\<close>

definition client_run_posted :: "chat_client \<Rightarrow> chat_client" where
  "client_run_posted c =
     (case cl_posted c of
        [] \<Rightarrow> c
      | Do_write msg # ps \<Rightarrow> do_write msg (c\<lparr>cl_posted := ps\<rparr>)
      | Do_close # ps \<Rightarrow> do_close (c\<lparr>cl_posted := ps\<rparr>))"

text \<open>The body of the input loop of \<open>main\<close>: a message from a line (of at most 512 characters, what
  \<open>getline\<close> leaves in its buffer). \<open>strlen\<close> counts the characters before the first NUL, so a line that
  contains one is cut there.\<close>

definition compose :: "string \<Rightarrow> string \<Rightarrow> chat_message" where
  "compose garbage line =
     (let msg = chat_message_new garbage;
          msg = set_body_length (length (c_str line)) msg;
          msg = memcpy header_length (take (msg_body_length msg) line) msg
      in encode_header msg)"

definition main_loop :: "string \<Rightarrow> string list \<Rightarrow> chat_client \<Rightarrow> chat_client" where
  "main_loop garbage lines c =
     client_post_close (fold (\<lambda>line. client_post_write (compose garbage line)) lines c)"

lemma client_simps [simp]:
  "cl_write_msgs (client_start_op op c) = cl_write_msgs c" "cl_sent (client_start_op op c) = cl_sent c"
  "cl_write_msgs (client_async_write bs c) = cl_write_msgs c" "cl_sent (client_async_write bs c) = cl_sent c @ [bs]"
  "cl_posted (client_start_op op c) = cl_posted c" "cl_posted (client_async_write bs c) = cl_posted c"
  by (simp_all add: client_start_op_def client_async_write_def)

interpretation client_queue: write_queue cl_write_msgs cl_sent wire do_write "client_handle_write No_error"
proof
  fix c m
  show "cl_write_msgs (do_write m c) = cl_write_msgs c @ [m]"
    by (simp add: do_write_def Let_def)
  show "cl_sent (do_write m c) = cl_sent c @ (if cl_write_msgs c = [] then [wire m] else [])"
    by (simp add: do_write_def Let_def)
  assume "cl_write_msgs c \<noteq> []"
  then show "cl_write_msgs (client_handle_write No_error c) = tl (cl_write_msgs c)"
    by (simp add: client_handle_write_def Let_def)
  show "cl_sent (client_handle_write No_error c)
      = cl_sent c @ (case tl (cl_write_msgs c) of [] \<Rightarrow> [] | m # ms \<Rightarrow> [wire m])"
    by (simp add: client_handle_write_def Let_def split: list.split)
qed

section \<open>Composed messages\<close>

text \<open>The text a receiver reads in a message.\<close>

definition msg_text :: "chat_message \<Rightarrow> string" where
  "msg_text m = take (msg_body_length m) (body m)"

lemma msg_text_wire: "wf_message m \<Longrightarrow> msg_text m = drop header_length (wire m)"
  by (simp add: msg_text_def body_def wire_def msg_length_def wf_message_def drop_take)

lemma compose_encoded:
  assumes "length garbage = header_length + max_body_length"
  shows "encoded (compose garbage line)"
  unfolding compose_def Let_def
  by (rule encode_header_encoded)
    (use assms in \<open>simp add: wf_message_def memcpy_def set_body_length_def chat_message_new_def Let_def\<close>)

lemma compose_text:
  assumes "length garbage = header_length + max_body_length" "length line \<le> max_body_length"
  shows "msg_text (compose garbage line) = c_str line" "msg_body_length (compose garbage line) = length (c_str line)"
proof -
  obtain t where t: "line = c_str line @ t" using c_str_prefix by blast
  then have "length line = length (c_str line) + length t" by (metis length_append)
  then have n: "length (c_str line) \<le> 512" using assms(2) by (simp add: max_body_length_def)
  have "take (length (c_str line)) line = c_str line" using t by (metis append_eq_conv_conj)
  then show "msg_text (compose garbage line) = c_str line" "msg_body_length (compose garbage line) = length (c_str line)"
    using assms n length_printf_header [of "length (c_str line)"]
    by (simp_all add: msg_text_def body_def compose_def memcpy_def encode_header_def set_body_length_def
        chat_message_new_def Let_def max_body_length_def)
qed

lemma receive_texts:
  "list_all sound ms \<Longrightarrow> wf_message m \<Longrightarrow> length ms \<le> fuel \<Longrightarrow>
   List.map msg_text (receive_msgs fuel m (concat (List.map wire ms))) = List.map msg_text ms"
proof (induction ms arbitrary: m fuel)
  case Nil
  then show ?case by (cases fuel) (simp_all add: header_length_def)
next
  case (Cons s ms)
  then obtain f where f: "fuel = Suc f" by (cases fuel) auto
  obtain m' where m': "receive_msgs (Suc f) m (wire s @ concat (List.map wire ms))
      = m' # receive_msgs f m' (concat (List.map wire ms))" "wf_message m'" "wire m' = wire s"
    using receive_one [of s m] Cons.prems by fastforce
  have "wf_message s" using Cons.prems by (simp add: sound_def)
  then have "msg_text m' = msg_text s" using m' by (simp add: msg_text_wire)
  with Cons f m' show ?case by simp
qed

section \<open>Properties\<close>

text \<open>
  Chat round trip: the lines that a client composes into messages and writes to the
  connection are read back by the receiver's header and body reads as the same lines, in order,
  each up to its first NUL, whatever the uninitialised buffers held.
\<close>

theorem lines_received:
  assumes "list_all (\<lambda>line. length line \<le> 512) lines"
    and "length garbage = header_length + max_body_length" "wf_message m"
  shows "List.map msg_text
      (receive_msgs (length lines) m (concat (List.map (\<lambda>line. wire (compose garbage line)) lines))) = List.map c_str lines"
proof -
  let ?ms = "List.map (compose garbage) lines"
  have "list_all sound ?ms"
    using compose_encoded [OF assms(2)] encoded_sound by (simp add: list_all_iff)
  from receive_texts [OF this assms(3), of "length lines"]
  have "List.map msg_text (receive_msgs (length lines) m (concat (List.map wire ?ms))) = List.map msg_text ?ms"
    by simp
  also have "\<dots> = List.map c_str lines"
    using assms(1) compose_text(1) [OF assms(2)] by (simp add: list_all_iff max_body_length_def)
  finally show ?thesis by (simp add: comp_def)
qed

theorem lines_received_witness:
  "List.map msg_text
     (receive_msgs 3 (chat_message_new (replicate 516 CHR ''y''))
       (concat (List.map (\<lambda>line. wire (compose (replicate 516 CHR ''x'') line)) [''hello'', [], ''bye'' @ CHR 0x00 # ''x''])))
   = [''hello'', [], ''bye'']"
  using lines_received [of "[''hello'', [], ''bye'' @ CHR 0x00 # ''x'']" "replicate 516 CHR ''x''"
      "chat_message_new (replicate 516 CHR ''y'')"]
  by (simp add: header_length_def max_body_length_def wf_message_def chat_message_new_def numeral_3_eq_3 c_str_def)

end
