(* ===== verification/Chat_History.thy ===== *)
theory Chat_History
  imports Chat_Server Chat_Client "HOL-Library.Sublist"
begin

text \<open>
  The chat server (\<open>chat_server.cpp\<close>) with the history of a run: the messages the room has delivered, in order,
  what every session has read and what it is sent. Neither the history nor its bounds are part of the code.
\<close>

section \<open>Messages on a connection\<close>

text \<open>The bytes of messages determine where each ends.\<close>

lemma wire_split: "sound m \<Longrightarrow> wire m = take header_length (msg_data m) @ msg_text m"
  by (simp add: wire_def msg_length_def msg_text_def body_def take_add)

lemma wire_header: "sound m \<Longrightarrow> take header_length (wire m @ rest) = take header_length (msg_data m)"
  by (simp add: wire_split sound_def wf_message_def)

lemma sound_lengths:
  assumes "sound m" "sound m'" "take header_length (msg_data m) = take header_length (msg_data m')"
  shows "msg_body_length m = msg_body_length m'"
proof -
  have "(True, m) = (True, m\<lparr>msg_body_length := msg_body_length m'\<rparr>)"
    using decode_header_cong [OF assms(2,3)] assms(1) by (simp add: sound_def)
  then show ?thesis by (metis Pair_inject chat_message.select_convs(2) chat_message.surjective chat_message.update_convs(2))
qed

lemma wires_prefix:
  "list_all sound ms \<Longrightarrow> list_all sound ms' \<Longrightarrow> prefix (concat (List.map wire ms)) (concat (List.map wire ms')) \<Longrightarrow>
    prefix (List.map msg_text ms) (List.map msg_text ms')"
proof (induction ms arbitrary: ms')
  case (Cons m ms)
  have "wire m \<noteq> []" using Cons.prems(1) by (auto simp: wire_split sound_def wf_message_def header_length_def)
  then obtain m' ms1 where ms': "ms' = m' # ms1" using Cons.prems(3) by (cases ms') auto
  have s: "sound m" "sound m'" using Cons.prems(1,2) ms' by simp_all
  obtain rest where rest: "wire m' @ concat (List.map wire ms1) = wire m @ concat (List.map wire ms) @ rest"
    using Cons.prems(3) ms' by (auto simp: prefix_def)
  have head: "take header_length (msg_data m') = take header_length (msg_data m)"
    using arg_cong [OF rest, of "take header_length"] wire_header [OF s(1)] wire_header [OF s(2)] by metis
  have "length (wire m') = length (wire m)"
    using sound_lengths [OF s(2,1) head] s by (simp add: wire_def msg_length_def sound_def wf_message_def)
  then have eq: "wire m' = wire m" "concat (List.map wire ms1) = concat (List.map wire ms) @ rest"
    using rest by auto
  have "msg_text m' = msg_text m"
    using eq(1) s by (simp add: msg_text_wire sound_def)
  moreover have "prefix (List.map msg_text ms) (List.map msg_text ms1)"
    using Cons.IH [of ms1] Cons.prems(1,2) ms' eq(2) by simp
  ultimately show ?case by (simp add: ms')
qed simp

section \<open>Runs of the server with their history\<close>

text \<open>The messages the room has delivered, each with the session that read it; where in this log the history of
  a session that joined begins; and the bytes each session has read.\<close>

record history =
  log :: "(nat \<times> chat_message) list"
  joined :: "nat \<rightharpoonup> nat"
  input :: "nat \<Rightarrow> string"

fun record_op :: "chat_op \<Rightarrow> error_code \<Rightarrow> string \<Rightarrow> chat \<Rightarrow> history \<Rightarrow> history" where
  "record_op (Chat_accept i) error bytes s h =
     (if error = No_error then h\<lparr>joined := (joined h)(i \<mapsto> length (log h) - length (recent_msgs s))\<rparr> else h)"
| "record_op (Read_header i) error bytes s h = h\<lparr>input := (input h)(i := input h i @ bytes)\<rparr>"
| "record_op (Read_body i n) error bytes s h =
     (let h = h\<lparr>input := (input h)(i := input h i @ bytes)\<rparr> in
      if error = No_error then h\<lparr>log := log h @ [(i, memcpy header_length bytes (ses_read_msg (sessions s i)))]\<rparr> else h)"
| "record_op (Chat_write i bs) error bytes s h = h"

inductive chat_run :: "chat \<Rightarrow> history \<Rightarrow> bool" where
  run_start: "length garbage = header_length + max_body_length \<Longrightarrow>
    chat_run (chat_server_new garbage) \<lparr>log = [], joined = Map.empty, input = \<lambda>_. []\<rparr>"
| run_step: "chat_run s h \<Longrightarrow> chat_pending s = xs @ op # ys \<Longrightarrow>
    (if error = No_error then length bytes = read_size op else length bytes \<le> read_size op) \<Longrightarrow>
    length garbage = header_length + max_body_length \<Longrightarrow>
    chat_run (chat_complete garbage op error bytes (s\<lparr>chat_pending := xs @ ys\<rparr>)) (record_op op error bytes s h)"

lemma chat_run_inv: "chat_run s h \<Longrightarrow> chat_inv s"
proof (induction rule: chat_run.induct)
  case (run_start garbage)
  then show ?case by (rule chat_new_inv)
next
  case (run_step s h xs op ys error bytes garbage)
  have "length bytes \<le> read_size op" using run_step by (simp split: if_splits)
  with run_step show ?case
    by (cases op) (simp_all only: read_size.simps inv_read_header inv_read_body inv_chat_write inv_chat_accept)
qed

section \<open>What a session is sent\<close>

text \<open>The writes started for a session and those that wait behind the front of its queue.\<close>

definition stream :: "nat \<Rightarrow> chat \<Rightarrow> string list" where
  "stream i s = session_sent i s @ List.map wire (tl (ses_write_msgs (sessions s i)))"

lemma stream_deliver: "stream i (session_deliver j m s) = stream i s @ (if i = j then [wire m] else [])"
proof (cases "i = j")
  case True
  then show ?thesis using session_queue.total_enqueue [of i m s] by (simp add: stream_def)
next
  case False
  then show ?thesis by (simp add: stream_def session_deliver_def session_sent_def Let_def)
qed

lemma stream_fold:
  "distinct ids \<Longrightarrow> stream i (fold (\<lambda>j. session_deliver j m) ids s) = stream i s @ (if i \<in> set ids then [wire m] else [])"
  by (induction ids arbitrary: s) (auto simp: stream_deliver)

lemma stream_fold_msgs:
  "stream i (fold (session_deliver j) ms s) = stream i s @ (if i = j then List.map wire ms else [])"
  by (induction ms arbitrary: s) (auto simp: stream_deliver)

lemma stream_cong:
  "chat_sent t = chat_sent s \<Longrightarrow> ses_write_msgs (sessions t i) = ses_write_msgs (sessions s i) \<Longrightarrow> stream i t = stream i s"
  by (simp add: stream_def session_sent_def)

lemma stream_simps [simp]:
  "stream i (chat_start_op op s) = stream i s" "stream i (room_leave j s) = stream i s"
  "stream i (s\<lparr>chat_pending := ops\<rparr>) = stream i s" "stream i (s\<lparr>participants := ps\<rparr>) = stream i s"
  "stream i (s\<lparr>recent_msgs := ms\<rparr>) = stream i s"
  "stream i (update_session j (\<lambda>c. c\<lparr>ses_read_msg := f c\<rparr>) s) = stream i s"
  by (simp_all add: stream_def session_sent_def)

lemma stream_room_deliver:
  "distinct (participants s) \<Longrightarrow> stream i (room_deliver m s) = stream i s @ (if i \<in> set (participants s) then [wire m] else [])"
  by (simp add: room_deliver_def Let_def stream_fold)

lemma stream_room_join: "stream i (room_join j s) = stream i s @ (if i = j then List.map wire (recent_msgs s) else [])"
  by (simp add: room_join_def Let_def stream_fold_msgs)

lemma stream_write:
  assumes "ses_write_msgs (sessions s j) \<noteq> []"
  shows "stream i (session_write j e s) = stream i s"
proof (cases "e = No_error")
  case True
  show ?thesis
  proof (cases "i = j")
    case i: True
    then show ?thesis using session_queue.total_complete [of s j] assms True by (simp add: stream_def)
  next
    case False
    then show ?thesis using True by (simp add: stream_def session_write_def session_sent_def Let_def)
  qed
qed (simp add: session_write_def)

lemma stream_start_accept:
  "ses_write_msgs (sessions s (next_session s)) = [] \<Longrightarrow> stream i (chat_start_accept garbage s) = stream i s"
  by (auto simp: chat_start_accept_def Let_def stream_def session_sent_def)

lemma room_frame [simp]:
  "participants (fold (\<lambda>j. session_deliver j m) ids s) = participants s"
  "recent_msgs (fold (\<lambda>j. session_deliver j m) ids s) = recent_msgs s"
  by (induction ids arbitrary: s) simp_all

lemma join_frame [simp]:
  "participants (fold (session_deliver j) ms s) = participants s"
  "recent_msgs (fold (session_deliver j) ms s) = recent_msgs s"
  by (induction ms arbitrary: s) simp_all

section \<open>The invariant\<close>

definition delivered :: "history \<Rightarrow> chat_message list" where
  "delivered h = List.map snd (log h)"

definition from_session :: "nat \<Rightarrow> history \<Rightarrow> chat_message list" where
  "from_session i h = List.map snd (filter (\<lambda>(j, m). j = i) (log h))"

text \<open>A session is sent the log from where it joined; after it has left no more.\<close>

definition sent_ok :: "chat \<Rightarrow> history \<Rightarrow> nat \<Rightarrow> bool" where
  "sent_ok s h i \<longleftrightarrow>
     (case joined h i of
        None \<Rightarrow> stream i s = [] \<and> i \<notin> set (participants s)
      | Some k \<Rightarrow> i + 1 < next_session s \<and> k \<le> length (log h) \<and> prefix (stream i s) (List.map wire (drop k (delivered h)))
          \<and> (i \<in> set (participants s) \<longrightarrow> stream i s = List.map wire (drop k (delivered h))))"

text \<open>What a session has read are its messages in the log and the header of the one it is reading.\<close>

definition read_ok :: "chat \<Rightarrow> history \<Rightarrow> nat \<Rightarrow> bool" where
  "read_ok s h i \<longleftrightarrow>
     prefix (concat (List.map wire (from_session i h))) (input h i)
     \<and> (Read_header i \<in> set (chat_pending s) \<longrightarrow> input h i = concat (List.map wire (from_session i h)))
     \<and> (\<forall>n. Read_body i n \<in> set (chat_pending s) \<longrightarrow>
          input h i = concat (List.map wire (from_session i h)) @ take header_length (msg_data (ses_read_msg (sessions s i))))
     \<and> (i + 1 \<ge> next_session s \<longrightarrow> input h i = [])"

definition history_ok :: "chat \<Rightarrow> history \<Rightarrow> bool" where
  "history_ok s h \<longleftrightarrow> recent_msgs s = drop (length (log h) - max_recent_msgs) (delivered h)
     \<and> list_all sound (delivered h) \<and> (\<forall>i. sent_ok s h i) \<and> (\<forall>i. read_ok s h i)"

lemma history_okD:
  assumes "history_ok s h"
  shows "recent_msgs s = drop (length (log h) - max_recent_msgs) (delivered h)" and "list_all sound (delivered h)"
    and "sent_ok s h i" and "read_ok s h i"
  using assms by (simp_all add: history_ok_def)

lemma sent_ok_same:
  assumes "sent_ok s h i" and "stream i t = stream i s" and "set (participants t) \<subseteq> set (participants s)"
    and "next_session s \<le> next_session t" and "joined h' i = joined h i" and "log h' = log h"
  shows "sent_ok t h' i"
  using assms by (auto simp: sent_ok_def delivered_def split: option.splits)

lemma read_ok_same:
  assumes "read_ok s h i" and "\<And>n. Read_body i n \<in> set (chat_pending t) \<Longrightarrow> Read_body i n \<in> set (chat_pending s)"
    and "Read_header i \<in> set (chat_pending t) \<Longrightarrow> Read_header i \<in> set (chat_pending s)"
    and "next_session s \<le> next_session t" and "ses_read_msg (sessions t i) = ses_read_msg (sessions s i)"
    and "input h' i = input h i" and "from_session i h' = from_session i h"
  shows "read_ok t h' i"
  using assms by (auto simp: read_ok_def)

lemma history_start:
  "history_ok (chat_server_new garbage) \<lparr>log = [], joined = Map.empty, input = \<lambda>_. []\<rparr>"
  by (auto simp: history_ok_def sent_ok_def read_ok_def delivered_def from_session_def chat_server_new_def
      chat_start_accept_def Let_def stream_def session_sent_def)

text \<open>A write completes.\<close>

lemma history_write:
  assumes ok: "history_ok s h" and inv: "chat_inv s" and p: "chat_pending s = xs @ Chat_write i bs # ys"
  shows "history_ok (session_write i e (s\<lparr>chat_pending := xs @ ys\<rparr>)) h"
proof -
  let ?s = "s\<lparr>chat_pending := xs @ ys\<rparr>" let ?t = "session_write i e ?s"
  have "write_full i s \<or> write_none i s" using inv unfolding chat_inv_def writes_inv_def by blast
  then have "ses_write_msgs (sessions ?s i) \<noteq> []"
    by (auto simp: write_full_def write_none_def p split: list.splits)
  then have stream: "stream j ?t = stream j s" for j using stream_write [of ?s i j e] by simp
  have same: "same_reads ?s ?t" by (rule same_reads_write)
  then obtain ops where ops: "chat_pending ?t = xs @ ys @ ops" "\<forall>op\<in>set ops. \<exists>i bs. op = Chat_write i bs"
      "\<forall>j. ses_read_msg (sessions ?t j) = ses_read_msg (sessions s j)" "next_session ?t = next_session s"
    by (auto simp: same_reads_def)
  have parts: "set (participants ?t) \<subseteq> set (participants s)"
    by (simp add: session_write_def Let_def room_leave_def set_remove1_subset)
  have "recent_msgs ?t = recent_msgs s" by (simp add: session_write_def Let_def)
  moreover have "sent_ok ?t h j" for j
    by (rule sent_ok_same [OF history_okD(3) [OF ok]]) (simp_all add: stream parts ops(4))
  moreover have "read_ok ?t h j" for j
    by (rule read_ok_same [OF history_okD(4) [OF ok]]) (use ops p in auto)
  ultimately show ?thesis using ok by (simp add: history_ok_def)
qed

text \<open>When a read of session \<open>i\<close> has completed, nothing of \<open>i\<close> is read, and it had joined.\<close>

lemma read_completed:
  assumes inv: "chat_inv s" and p: "chat_pending s = xs @ op # ys" and op: "read_on i op"
  shows "Read_header i \<notin> set (xs @ ys)" and "Read_body i n \<notin> set (xs @ ys)" and "i + 1 < next_session s"
proof -
  have "reads_inv (next_session s - 1) [Chat_accept (next_session s - 1)] s"
    using inv by (simp add: chat_inv_def reads_ok_def)
  from reads_done [OF this p op, of "s\<lparr>chat_pending := xs @ ys\<rparr>"]
  have none: "filter (read_on i) (xs @ ys) = []" and i: "i < next_session s - 1" by simp_all
  show "Read_header i \<notin> set (xs @ ys)" "Read_body i n \<notin> set (xs @ ys)"
    using none by (metis filter_empty_conv read_on.simps(1), metis filter_empty_conv read_on.simps(2))
  show "i + 1 < next_session s" using i by simp
qed

lemma decode_header_data: "msg_data (snd (decode_header m)) = msg_data m"
  by (simp add: decode_header_def Let_def)

lemma history_read_header:
  assumes ok: "history_ok s h" and inv: "chat_inv s" and p: "chat_pending s = xs @ Read_header i # ys"
    and n: "e = No_error \<Longrightarrow> length bytes = header_length"
  shows "history_ok (chat_complete garbage (Read_header i) e bytes (s\<lparr>chat_pending := xs @ ys\<rparr>))
    (record_op (Read_header i) e bytes s h)"
proof -
  let ?h = "record_op (Read_header i) e bytes s h"
  let ?m = "memcpy 0 bytes (ses_read_msg (sessions s i))"
  define t where "t = chat_complete garbage (Read_header i) e bytes (s\<lparr>chat_pending := xs @ ys\<rparr>)"
  note fin = read_completed [OF inv p, of i, simplified]
  have t: "stream j t = stream j s" "recent_msgs t = recent_msgs s" "next_session t = next_session s"
      "j \<noteq> i \<Longrightarrow> ses_read_msg (sessions t j) = ses_read_msg (sessions s j)" for j
    by (auto simp: t_def session_read_header_def Let_def split: prod.splits)
  have parts: "set (participants t) \<subseteq> set (participants s)"
    by (auto simp: t_def session_read_header_def Let_def room_leave_def split: prod.splits dest: set_remove1_subset [THEN subsetD])
  have pend: "chat_pending t = xs @ ys \<or> e = No_error \<and> msg_data (ses_read_msg (sessions t i)) = msg_data ?m
      \<and> (\<exists>n. chat_pending t = xs @ ys @ [Read_body i n])"
    using decode_header_data [of ?m]
    by (auto simp: t_def session_read_header_def Let_def split: prod.splits)
  have "sent_ok t ?h j" for j
    by (rule sent_ok_same [OF history_okD(3) [OF ok]]) (simp_all add: t parts)
  moreover have "read_ok t ?h j" for j
  proof (cases "j = i")
    case False
    then show ?thesis
      by (intro read_ok_same [OF history_okD(4) [OF ok]]) (use pend p t in \<open>auto simp: from_session_def\<close>)
  next
    case True
    have inp: "input h i = concat (List.map wire (from_session i h))"
      using history_okD(4) [OF ok, of i] by (simp add: read_ok_def p)
    have "take header_length (msg_data ?m) = bytes" if "e = No_error"
      using n [OF that] by (simp add: memcpy_def)
    then show ?thesis
      using pend fin inp True t(3) by (auto simp: read_ok_def from_session_def)
  qed
  ultimately show ?thesis
    using ok t(2) unfolding t_def [symmetric] by (simp add: history_ok_def delivered_def)
qed

lemma history_read_body:
  assumes ok: "history_ok s h" and inv: "chat_inv s" and p: "chat_pending s = xs @ Read_body i n # ys"
    and n: "e = No_error \<Longrightarrow> length bytes = n"
  shows "history_ok (chat_complete garbage (Read_body i n) e bytes (s\<lparr>chat_pending := xs @ ys\<rparr>))
    (record_op (Read_body i n) e bytes s h)"
proof -
  let ?h = "record_op (Read_body i n) e bytes s h"
  let ?old = "ses_read_msg (sessions s i)"
  let ?m = "memcpy header_length bytes ?old"
  define u where "u = update_session i (\<lambda>c. c\<lparr>ses_read_msg := ?m\<rparr>) (s\<lparr>chat_pending := xs @ ys\<rparr>)"
  define t where "t = chat_complete garbage (Read_body i n) e bytes (s\<lparr>chat_pending := xs @ ys\<rparr>)"
  have t_eq: "t = session_read_body i e u" by (simp add: t_def u_def update_session_def)
  note fin = read_completed [OF inv p, of i, simplified]
  have inp: "input h i = concat (List.map wire (from_session i h)) @ take header_length (msg_data ?old)"
  proof -
    have "Read_body i n \<in> set (chat_pending s)" by (simp add: p)
    then show ?thesis using history_okD(4) [OF ok, of i] unfolding read_ok_def by blast
  qed
  show ?thesis
  proof (cases "e = No_error")
    case False
    have t: "t = room_leave i u" using False by (simp add: t_eq session_read_body_def)
    have r: "recent_msgs t = recent_msgs s" by (simp add: t u_def)
    have "sent_ok t ?h j" for j
      by (rule sent_ok_same [OF history_okD(3) [OF ok]])
        (simp_all add: t u_def False room_leave_def set_remove1_subset)
    moreover have "read_ok t ?h j" for j
    proof (cases "j = i")
      case False
      then show ?thesis
        by (intro read_ok_same [OF history_okD(4) [OF ok]]) (use p \<open>e \<noteq> No_error\<close> in \<open>auto simp: t u_def from_session_def\<close>)
    next
      case True
      then show ?thesis using fin inp False by (auto simp: read_ok_def from_session_def t u_def)
    qed
    ultimately show ?thesis
      using ok False unfolding t_def [symmetric] by (simp add: history_ok_def delivered_def r)
  next
    case True
    have reads: "reads_inv (next_session s - 1) [Chat_accept (next_session s - 1)] s" and bufs: "buffers_ok s"
      and parts: "distinct (participants s)"
      using inv by (simp_all add: chat_inv_def reads_ok_def writes_inv_def)
    have m0: "n = msg_body_length ?old" "decode_header ?old = (True, ?old)" "wf_message ?old"
      using reads bufs unfolding reads_inv_def p by (auto simp: buffers_ok_def)
    have m: "sound ?m" using memcpy_body_decode [OF m0(3,2)] n [OF True] m0(1) by simp
    have wire: "wire ?m = take header_length (msg_data ?old) @ bytes"
      using m0 n [OF True] by (simp add: wire_def msg_length_def memcpy_def wf_message_def)
    have t: "t = chat_start_op (Read_header i) (room_deliver ?m u)"
      using True by (simp add: t_eq session_read_body_def) (simp add: u_def)
    have h': "log ?h = log h @ [(i, ?m)]" "joined ?h = joined h" "input ?h = (input h)(i := input h i @ bytes)"
      using True by (simp_all add: Let_def)
    have st: "stream j t = stream j s @ (if j \<in> set (participants s) then [wire ?m] else [])" for j
      using stream_room_deliver [of u j ?m] parts by (simp add: t u_def)
    have pt: "participants t = participants s" by (simp add: t room_deliver_def Let_def u_def)
    have same: "same_reads u (room_deliver ?m u)" by (rule same_reads_room_deliver)
    then obtain ops where ops: "chat_pending t = xs @ ys @ ops @ [Read_header i]" "\<forall>op\<in>set ops. \<exists>i bs. op = Chat_write i bs"
        "next_session t = next_session s" "\<And>j. j \<noteq> i \<Longrightarrow> ses_read_msg (sessions t j) = ses_read_msg (sessions s j)"
      by (auto simp: same_reads_def t u_def)
    have "recent_msgs t = drop (length (log ?h) - max_recent_msgs) (delivered ?h)"
    proof -
      have "recent_msgs t = trim_recent (recent_msgs s @ [?m])" by (simp add: t room_deliver_def Let_def u_def)
      also have "\<dots> = drop (length (log h) + 1 - max_recent_msgs) (delivered h @ [?m])"
      proof -
        have "length (log h) - (length (log h) - 100 + 99) + (length (log h) - 100) = Suc (length (log h)) - 100"
          by arith
        then show ?thesis
          by (simp add: trim_recent_eq history_okD(1) [OF ok] delivered_def max_recent_msgs_def)
      qed
      also have "\<dots> = drop (length (log ?h) - max_recent_msgs) (delivered ?h)"
        unfolding delivered_def h'(1) by simp
      finally show ?thesis .
    qed
    moreover have "list_all sound (delivered ?h)"
      using history_okD(2) [OF ok] m unfolding delivered_def h'(1) by simp
    moreover have "sent_ok t ?h j" for j
      using history_okD(3) [OF ok, of j] unfolding sent_ok_def delivered_def h'(1,2)
      by (auto simp: st pt ops(3) split: option.splits)
    moreover have "read_ok t ?h j" for j
    proof (cases "j = i")
      case False
      then show ?thesis
        by (intro read_ok_same [OF history_okD(4) [OF ok]])
          (use ops p in \<open>auto simp only: from_session_def h'\<close>, use ops p in \<open>auto simp: from_session_def\<close>)
    next
      case True
      have f: "from_session i ?h = from_session i h @ [?m]" unfolding from_session_def h'(1) by simp
      show ?thesis
        using fin ops inp wire unfolding True read_ok_def f h'(3) by auto
    qed
    ultimately show ?thesis unfolding t_def [symmetric] history_ok_def by blast
  qed
qed

text \<open>A session is accepted and joins, or not.\<close>

lemma history_accept:
  assumes ok: "history_ok s h" and inv: "chat_inv s" and p: "chat_pending s = xs @ Chat_accept i # ys"
  shows "history_ok (chat_handle_accept garbage i e (s\<lparr>chat_pending := xs @ ys\<rparr>)) (record_op (Chat_accept i) e bytes s h)"
proof -
  let ?s = "s\<lparr>chat_pending := xs @ ys\<rparr>"
  define h' where "h' = record_op (Chat_accept i) e bytes s h"
  define u where "u = (if e = No_error then session_start i ?s else ?s)"
  define t where "t = chat_start_accept garbage u"
  have t_eq: "chat_handle_accept garbage i e ?s = t" by (simp add: chat_handle_accept_def t_def u_def)
  have i: "Suc i = next_session s" using reads_accept [OF _ p] inv by (simp add: chat_inv_def)
  have h': "log h' = log h" "input h' = input h"
      "joined h' = (if e = No_error then (joined h)(i \<mapsto> length (log h) - length (recent_msgs s)) else joined h)"
    by (simp_all add: h'_def)
  have b: "next_session s - 1 = i" using i by simp
  have "reads_inv (next_session s - 1) [Chat_accept (next_session s - 1)] s" "writes_inv (next_session s - 1) s"
    using inv unfolding chat_inv_def reads_ok_def by blast+
  then have reads: "reads_inv i [Chat_accept i] s" and writes: "writes_inv i s"
    unfolding b by blast+
  have unread: "filter (read_on j) (chat_pending s) = []" "ses_write_msgs (sessions s j) = []" "j \<notin> set (participants s)"
    if "i \<le> j" for j
    using reads writes that unfolding reads_inv_def writes_inv_def by (blast, blast, force)
  have next_u: "next_session u = next_session s"
    using same_reads_room_join [of ?s i] by (simp add: u_def session_start_def same_reads_def)
  have not_queued: "ses_write_msgs (sessions u (next_session u)) = []"
  proof -
    have "ses_write_msgs (sessions (fold (session_deliver i) ms v) j) = ses_write_msgs (sessions v j)" if "j \<noteq> i" for ms v j
      using that by (induction ms arbitrary: v) (simp_all add: write_other_deliver(3))
    then show ?thesis using unread(2) [of "next_session s"] i by (simp add: next_u) (simp add: u_def session_start_def room_join_def Let_def)
  qed
  have st: "stream j t = stream j s @ (if e = No_error \<and> j = i then List.map wire (recent_msgs s) else [])" for j
    using stream_start_accept [OF not_queued, of j garbage] by (simp add: t_def) (simp add: u_def session_start_def stream_room_join)
  have pt: "set (participants t) = (if e = No_error then insert i (set (participants s)) else set (participants s))"
    by (simp add: t_def chat_start_accept_def u_def session_start_def room_join_def Let_def set_insort_key insert_absorb)
  have rt: "recent_msgs t = recent_msgs s"
    by (simp add: t_def chat_start_accept_def u_def session_start_def room_join_def Let_def)
  have nt: "next_session t = Suc (next_session s)" by (simp add: t_def chat_start_accept_def next_u Let_def)
  obtain ops0 where ops0: "chat_pending (room_join i ?s) = xs @ ys @ ops0" "\<forall>op\<in>set ops0. \<exists>i bs. op = Chat_write i bs"
      "\<forall>j. ses_read_msg (sessions (room_join i ?s) j) = ses_read_msg (sessions s j)"
    using same_reads_room_join [of ?s i] by (auto simp: same_reads_def)
  define ops where "ops = (if e = No_error then ops0 else [])"
  have ops: "chat_pending t = xs @ ys @ ops @ (if e = No_error then [Read_header i] else []) @ [Chat_accept (next_session s)]"
      "\<forall>op\<in>set ops. \<exists>i bs. op = Chat_write i bs"
      "\<And>j. j \<noteq> next_session s \<Longrightarrow> ses_read_msg (sessions t j) = ses_read_msg (sessions s j)"
    using ops0(2) next_u by (auto simp: t_def chat_start_accept_def u_def session_start_def Let_def ops_def ops0)
  have j_None: "joined h j = None" if "i \<le> j" for j
    using history_okD(3) [OF ok, of j] that i by (auto simp: sent_ok_def split: option.splits)
  have "sent_ok t h' j" for j
  proof (cases "e = No_error \<and> j = i")
    case True
    have "stream i s = []" using history_okD(3) [OF ok, of i] j_None [of i] by (simp add: sent_ok_def)
    moreover have "drop (length (log h) - length (recent_msgs s)) (delivered h) = recent_msgs s"
      by (simp add: history_okD(1) [OF ok] delivered_def)
    ultimately show ?thesis using True i by (simp add: sent_ok_def h' st nt delivered_def)
  next
    case False
    then show ?thesis
      using history_okD(3) [OF ok, of j] by (auto simp: sent_ok_def st pt nt h' delivered_def split: option.splits if_splits)
  qed
  moreover have "read_ok t h' j" for j
  proof (cases "i \<le> j")
    case True
    have empty: "input h j = []" using history_okD(4) [OF ok, of j] True i by (simp add: read_ok_def)
    then have "concat (List.map wire (from_session j h)) = []"
      using history_okD(4) [OF ok, of j] by (simp add: read_ok_def)
    moreover have "Read_body j n \<notin> set (chat_pending t)" for n
      using unread(1) [OF True] ops(1,2) p by (auto simp: filter_empty_conv)
    ultimately show ?thesis using empty by (simp add: read_ok_def h'(2) from_session_def h'(1))
  next
    case False
    then have "j \<noteq> next_session s" using i by simp
    then show ?thesis
      by (intro read_ok_same [OF history_okD(4) [OF ok]])
        (use ops p nt False in \<open>auto simp: from_session_def h'(1,2) split: if_splits\<close>)
  qed
  ultimately show ?thesis
    using history_okD(1,2) [OF ok] unfolding t_eq h'_def [symmetric] by (simp add: history_ok_def rt h'(1) delivered_def)
qed

lemma chat_run_history: "chat_run s h \<Longrightarrow> history_ok s h"
proof (induction rule: chat_run.induct)
  case (run_start garbage)
  show ?case by (rule history_start)
next
  case (run_step s h xs op ys error bytes garbage)
  note inv = chat_run_inv [OF run_step.hyps(1)]
  show ?case
  proof (cases op)
    case (Chat_accept i)
    then show ?thesis using history_accept [OF run_step.IH inv] run_step.hyps(2) by simp
  next
    case (Read_header i)
    then show ?thesis using history_read_header [OF run_step.IH inv] run_step.hyps(2,3) by (simp del: chat_complete.simps record_op.simps)
  next
    case (Read_body i n)
    then show ?thesis using history_read_body [OF run_step.IH inv] run_step.hyps(2,3) by (simp del: chat_complete.simps record_op.simps)
  next
    case (Chat_write i bs)
    then show ?thesis using history_write [OF run_step.IH inv] run_step.hyps(2) by simp
  qed
qed

section \<open>Properties\<close>

text \<open>
  C7. The room delivers all messages in one order: whatever a session writes and has waiting is an initial
  part of that order from the point where it joined, where it starts with the last 100 messages; all of it as long as the
  session is in the room. What the room has from a session is what the bytes it read begin with.
\<close>

theorem chat_broadcast:
  assumes "chat_run s h"
  shows "(case joined h i of
      None \<Rightarrow> stream i s = []
    | Some k \<Rightarrow> (\<exists>n. stream i s = List.map wire (take n (drop k (delivered h)))) \<and>
        (i \<in> set (participants s) \<longrightarrow> stream i s = List.map wire (drop k (delivered h))))
    \<and> recent_msgs s = drop (length (delivered h) - 100) (delivered h)
    \<and> prefix (concat (List.map wire (from_session i h))) (input h i)"
proof -
  have "\<exists>n. xs = List.map wire (take n ys)" if "prefix xs (List.map wire ys)" for xs ys
    using that by (metis prefix_def append_eq_conv_conj take_map)
  then show ?thesis
    using history_okD(1,2) [OF chat_run_history [OF assms]] history_okD(3,4) [OF chat_run_history [OF assms], of i]
    by (auto simp: sent_ok_def read_ok_def max_recent_msgs_def delivered_def split: option.splits)
qed

text \<open>A client joins and sends a message of one character.\<close>

definition example_history :: "nat \<Rightarrow> history" where
  "example_history n = (let h0 = \<lparr>log = [], joined = Map.empty, input = \<lambda>_. []\<rparr>;
     h1 = record_op (Chat_accept 0) No_error [] (example_state 0) h0;
     h2 = record_op (Read_header 0) No_error ''   1'' (example_state 1) h1;
     h3 = record_op (Read_body 0 1) No_error ''a'' (example_state 2) h2
     in [h0, h1, h2, h3] ! n)"

lemma example_run: "chat_run (example_state 3) (example_history 3)"
proof -
  note unfold = example_state_def example_history_def Let_def
  have g: "length example_garbage = header_length + max_body_length"
    by (simp add: example_garbage_def header_length_def max_body_length_def)
  have 0: "chat_run (example_state 0) (example_history 0)"
    using run_start [OF g] by (simp add: unfold)
  have 1: "chat_run (example_state 1) (example_history 1)"
    using run_step [OF 0 example_pending(1), of No_error "[]" example_garbage] g
    by (simp add: unfold del: chat_complete.simps record_op.simps)
  have 2: "chat_run (example_state 2) (example_history 2)"
    using run_step [OF 1 example_pending(2), of No_error "''   1''" example_garbage] g
    by (simp add: unfold header_length_def del: chat_complete.simps record_op.simps)
  show ?thesis
    using run_step [OF 2 example_pending(3), of No_error "''a''" example_garbage] g
    by (simp add: unfold numeral_2_eq_2 numeral_3_eq_3 del: chat_complete.simps record_op.simps)
qed

theorem chat_broadcast_witness:
  "stream 0 (example_state 3) = List.map wire (delivered (example_history 3)) \<and> length (delivered (example_history 3)) = 1"
proof -
  have h: "joined (example_history 3) = [0 \<mapsto> 0]" "length (delivered (example_history 3)) = 1"
    by (simp_all add: example_history_def delivered_def Let_def numeral_3_eq_3 example_state_def chat_server_new_def chat_start_accept_def)
  moreover have "0 \<in> set (participants (example_state 3))"
    by (simp add: example_state_def numeral_3_eq_3 chat_server_new_def chat_start_accept_def Let_def chat_handle_accept_def
        session_start_def room_join_def session_read_header_def session_read_body_def room_deliver_def example_decode)
  ultimately show ?thesis using chat_broadcast [OF example_run, of 0] by (simp only:) simp
qed

end
