(* ===== verification/Chat_Network.thy ===== *)
theory Chat_Network
  imports Chat_History
begin

text \<open>
  The chat server and its clients together (\<open>chat_server.cpp\<close>, \<open>chat_client.cpp\<close>): runs of a client, in which
  the main thread types lines while the thread of the \<open>io_context\<close> runs handlers, and what follows for all clients
  of a server when each connection carries the bytes of one side to the other.
\<close>

section \<open>Runs of a client\<close>

fun client_complete :: "client_op \<Rightarrow> error_code \<Rightarrow> string \<Rightarrow> chat_client \<Rightarrow> chat_client" where
  "client_complete Connect error bytes c = client_handle_connect error c"
| "client_complete Client_read_header error bytes c =
     client_read_header error (c\<lparr>cl_read_msg := memcpy 0 bytes (cl_read_msg c)\<rparr>)"
| "client_complete (Client_read_body n) error bytes c =
     client_read_body error (c\<lparr>cl_read_msg := memcpy header_length bytes (cl_read_msg c)\<rparr>)"
| "client_complete (Client_write bs) error bytes c = client_handle_write error c"

fun client_read_size :: "client_op \<Rightarrow> nat" where
  "client_read_size Client_read_header = header_length"
| "client_read_size (Client_read_body n) = n"
| "client_read_size op = 0"

text \<open>A client with the lines that were typed and the bytes that it has read.\<close>

inductive client_run :: "chat_client \<Rightarrow> string list \<Rightarrow> string \<Rightarrow> bool" where
  client_start: "length garbage = header_length + max_body_length \<Longrightarrow> client_run (chat_client_new garbage) [] []"
| client_types: "client_run c lines inp \<Longrightarrow> length garbage = header_length + max_body_length \<Longrightarrow> length line \<le> max_body_length \<Longrightarrow>
    client_run (client_post_write (compose garbage line) c) (lines @ [line]) inp"
| client_ends: "client_run c lines inp \<Longrightarrow> client_run (client_post_close c) lines inp"
| client_posted: "client_run c lines inp \<Longrightarrow> client_run (client_run_posted c) lines inp"
| client_completes: "client_run c lines inp \<Longrightarrow> cl_pending c = xs @ op # ys \<Longrightarrow>
    (if error = No_error then length bytes = client_read_size op else length bytes \<le> client_read_size op) \<Longrightarrow>
    client_run (client_complete op error bytes (c\<lparr>cl_pending := xs @ ys\<rparr>)) lines (inp @ bytes)"

section \<open>Writing\<close>

fun posted_msgs :: "posted list \<Rightarrow> chat_message list" where
  "posted_msgs [] = []"
| "posted_msgs (Do_write m # ps) = m # posted_msgs ps"
| "posted_msgs (Do_close # ps) = posted_msgs ps"

lemma posted_msgs_append [simp]: "posted_msgs (ps @ qs) = posted_msgs ps @ posted_msgs qs"
  by (induction ps rule: posted_msgs.induct) simp_all

definition to_send :: "chat_client \<Rightarrow> string list" where
  "to_send c = cl_sent c @ List.map wire (tl (cl_write_msgs c)) @ List.map wire (posted_msgs (cl_posted c))"

fun is_write :: "client_op \<Rightarrow> bool" where
  "is_write (Client_write bs) = True"
| "is_write op = False"

text \<open>The writes are those of the lines, each up to its first NUL, and one is outstanding only while the queue is not empty.\<close>

definition writes_lines :: "chat_client \<Rightarrow> string list \<Rightarrow> bool" where
  "writes_lines c lines \<longleftrightarrow>
     (\<exists>ms. list_all sound ms \<and> List.map msg_text ms = List.map c_str lines \<and> to_send c = List.map wire ms)
     \<and> length (filter is_write (cl_pending c)) \<le> (if cl_write_msgs c = [] then 0 else 1)"

lemma compose_sound:
  "length garbage = header_length + max_body_length \<Longrightarrow> sound (compose garbage line)"
  by (rule encoded_sound, rule compose_encoded)

lemma writes_lines_types:
  assumes "writes_lines c lines" and g: "length garbage = header_length + max_body_length" and "length line \<le> max_body_length"
  shows "writes_lines (client_post_write (compose garbage line) c) (lines @ [line])"
proof -
  obtain ms where ms: "list_all sound ms" "List.map msg_text ms = List.map c_str lines" "to_send c = List.map wire ms"
    using assms(1) by (auto simp: writes_lines_def)
  have "list_all sound (ms @ [compose garbage line])" "List.map msg_text (ms @ [compose garbage line]) = List.map c_str (lines @ [line])"
      "to_send (client_post_write (compose garbage line) c) = List.map wire (ms @ [compose garbage line])"
    using ms compose_sound [OF g] compose_text(1) [OF g assms(3)] by (simp_all add: to_send_def client_post_write_def)
  moreover have "length (filter is_write (cl_pending (client_post_write (compose garbage line) c)))
      \<le> (if cl_write_msgs (client_post_write (compose garbage line) c) = [] then 0 else 1)"
    using assms(1) by (simp add: writes_lines_def client_post_write_def)
  ultimately show ?thesis unfolding writes_lines_def by blast
qed

lemma to_send_same:
  "writes_lines c lines \<Longrightarrow> to_send c' = to_send c \<Longrightarrow>
    length (filter is_write (cl_pending c')) \<le> (if cl_write_msgs c' = [] then 0 else 1) \<Longrightarrow> writes_lines c' lines"
  by (simp add: writes_lines_def)

lemma writes_lines_posted:
  assumes w: "writes_lines c lines"
  shows "writes_lines (client_run_posted c) lines"
proof (rule to_send_same [OF w])
  show "to_send (client_run_posted c) = to_send c"
    by (cases "cl_write_msgs c")
      (auto simp: client_run_posted_def to_send_def do_write_def do_close_def Let_def split: list.splits posted.splits)
  show "length (filter is_write (cl_pending (client_run_posted c))) \<le> (if cl_write_msgs (client_run_posted c) = [] then 0 else 1)"
    using w by (auto simp: client_run_posted_def writes_lines_def do_write_def do_close_def client_async_write_def client_start_op_def
        Let_def split: list.splits posted.splits if_splits)
qed

lemma writes_lines_complete:
  assumes w: "writes_lines c lines" and p: "cl_pending c = xs @ op # ys"
  shows "writes_lines (client_complete op e bytes (c\<lparr>cl_pending := xs @ ys\<rparr>)) lines"
proof (rule to_send_same [OF w])
  let ?c = "client_complete op e bytes (c\<lparr>cl_pending := xs @ ys\<rparr>)"
  have q: "cl_write_msgs c \<noteq> []" if "is_write op"
    using w that by (auto simp: writes_lines_def p split: if_splits)
  show "to_send ?c = to_send c"
  proof (cases op)
    case (Client_write bs)
    then show ?thesis
      using q by (cases "cl_write_msgs c"; cases "tl (cl_write_msgs c)")
        (auto simp: to_send_def client_handle_write_def do_close_def Let_def)
  qed (auto simp: to_send_def client_handle_connect_def client_read_header_def client_read_body_def do_close_def Let_def split: prod.splits)
  show "length (filter is_write (cl_pending ?c)) \<le> (if cl_write_msgs ?c = [] then 0 else 1)"
  proof (cases op)
    case (Client_write bs)
    then show ?thesis
      using w q by (auto simp: writes_lines_def p client_handle_write_def do_close_def client_async_write_def client_start_op_def Let_def
          split: if_splits)
  qed (use w in \<open>auto simp: writes_lines_def p client_handle_connect_def client_read_header_def client_read_body_def do_close_def
        client_start_op_def Let_def split: prod.splits if_splits\<close>)
qed

section \<open>Reading\<close>

fun is_client_read :: "client_op \<Rightarrow> bool" where
  "is_client_read (Client_write bs) = False"
| "is_client_read op = True"

definition print_of :: "chat_message list \<Rightarrow> string" where
  "print_of ms = concat (List.map (\<lambda>m. msg_text m @ [CHR 0x0A]) ms)"

text \<open>The bytes read are the messages printed and the header of the one whose body is being read.\<close>

definition reading :: "chat_client \<Rightarrow> string \<Rightarrow> chat_message list \<Rightarrow> bool" where
  "reading c inp got \<longleftrightarrow>
     (case filter is_client_read (cl_pending c) of
        [] \<Rightarrow> prefix (concat (List.map wire got)) inp
      | [Connect] \<Rightarrow> inp = [] \<and> got = []
      | [Client_read_header] \<Rightarrow> inp = concat (List.map wire got)
      | [Client_read_body n] \<Rightarrow> n = msg_body_length (cl_read_msg c) \<and> sound (cl_read_msg c)
          \<and> inp = concat (List.map wire got) @ take header_length (msg_data (cl_read_msg c))
      | _ \<Rightarrow> False)"

definition prints_input :: "chat_client \<Rightarrow> string \<Rightarrow> bool" where
  "prints_input c inp \<longleftrightarrow> wf_message (cl_read_msg c) \<and>
     (\<exists>got. list_all sound got \<and> cl_printed c = print_of got \<and> reading c inp got)"

lemma prints_input_same:
  assumes "prints_input c inp" and "filter is_client_read (cl_pending c') = filter is_client_read (cl_pending c)"
    and "cl_read_msg c' = cl_read_msg c" and "cl_printed c' = cl_printed c"
  shows "prints_input c' inp"
  using assms(1) unfolding prints_input_def reading_def assms(2-4) .

lemma reading_prefix: "reading c inp got \<Longrightarrow> prefix (concat (List.map wire got)) inp"
  by (auto simp: reading_def split: list.splits client_op.splits)

text \<open>The completion of a read: it was the only one.\<close>

lemma reading_done:
  assumes "reading c inp got" and "cl_pending c = xs @ op # ys" and "is_client_read op"
  shows "filter is_client_read (xs @ ys) = []" and "filter is_client_read (cl_pending c) = [op]"
proof -
  have "\<exists>o1. filter is_client_read (cl_pending c) = [o1]"
    using assms by (auto simp: reading_def split: list.splits client_op.splits)
  then show "filter is_client_read (xs @ ys) = []" "filter is_client_read (cl_pending c) = [op]"
    using assms(2,3) by (auto simp: append_eq_Cons_conv)
qed

lemma prints_stopped:
  assumes "prints_input c inp" and "cl_pending c = xs @ op # ys" and "is_client_read op"
    and "filter is_client_read (cl_pending c') = []" and "wf_message (cl_read_msg c')" and "cl_printed c' = cl_printed c"
  shows "prints_input c' (inp @ bytes)"
proof -
  obtain got where "list_all sound got" "cl_printed c = print_of got" "reading c inp got"
    using assms(1) by (auto simp: prints_input_def)
  from reading_prefix [OF this(3)] have "reading c' (inp @ bytes) got"
    using assms(4) by (simp add: reading_def)
  then show ?thesis using assms(5,6) \<open>list_all sound got\<close> \<open>cl_printed c = print_of got\<close> by (auto simp: prints_input_def)
qed

lemma prints_connect:
  assumes pi: "prints_input c inp" and p: "cl_pending c = xs @ Connect # ys" and "bytes = []"
  shows "prints_input (client_handle_connect e (c\<lparr>cl_pending := xs @ ys\<rparr>)) (inp @ bytes)"
proof -
  obtain got where got: "list_all sound got" "cl_printed c = print_of got" "reading c inp got" and wf: "wf_message (cl_read_msg c)"
    using pi by (auto simp: prints_input_def)
  note fin = reading_done [OF got(3) p, simplified]
  have "inp = [] \<and> got = []" using got(3) fin by (simp add: reading_def p)
  then show ?thesis
    using fin wf got assms(3) by (auto simp: prints_input_def reading_def client_handle_connect_def client_start_op_def intro!: exI [of _ "[]"])
qed

lemma prints_header:
  assumes pi: "prints_input c inp" and p: "cl_pending c = xs @ Client_read_header # ys"
    and n: "if e = No_error then length bytes = header_length else length bytes \<le> header_length"
  shows "prints_input (client_complete Client_read_header e bytes (c\<lparr>cl_pending := xs @ ys\<rparr>)) (inp @ bytes)"
proof -
  obtain got where got: "list_all sound got" "cl_printed c = print_of got" "reading c inp got" and wf: "wf_message (cl_read_msg c)"
    using pi by (auto simp: prints_input_def)
  note fin = reading_done [OF got(3) p, simplified]
  have inp: "inp = concat (List.map wire got)" using got(3) fin by (simp add: reading_def p)
  let ?m = "memcpy 0 bytes (cl_read_msg c)"
  let ?c = "client_complete Client_read_header e bytes (c\<lparr>cl_pending := xs @ ys\<rparr>)"
  have m: "wf_message ?m" using memcpy_header [OF wf] n by (simp split: if_splits)
  obtain ok m' where d: "decode_header ?m = (ok, m')" by (cases "decode_header ?m")
  have wf': "wf_message m'" and snd: "ok \<Longrightarrow> sound m'" and data: "msg_data m' = msg_data ?m"
    using decode_header_wf [of ?m] m d decode_header_data [of ?m] by (auto simp: wf_message_def)
  show ?thesis
  proof (cases "e = No_error \<and> ok")
    case True
    have "take header_length (msg_data m') = bytes" using n True by (simp add: data memcpy_def)
    moreover have "?c = client_start_op (Client_read_body (msg_body_length m')) (c\<lparr>cl_pending := xs @ ys, cl_read_msg := m'\<rparr>)"
      using True d by (simp add: client_read_header_def)
    ultimately have "reading ?c (inp @ bytes) got"
      using fin inp snd True by (simp add: reading_def client_start_op_def)
    then show ?thesis
      using got wf' True d by (auto simp: prints_input_def client_read_header_def client_start_op_def)
  next
    case False
    show ?thesis
      by (rule prints_stopped [OF pi p])
        (use False d fin wf' m in \<open>auto simp: client_read_header_def do_close_def\<close>)
  qed
qed

lemma prints_body:
  assumes pi: "prints_input c inp" and p: "cl_pending c = xs @ Client_read_body n # ys"
    and n: "if e = No_error then length bytes = n else length bytes \<le> n"
  shows "prints_input (client_complete (Client_read_body n) e bytes (c\<lparr>cl_pending := xs @ ys\<rparr>)) (inp @ bytes)"
proof -
  obtain got where got: "list_all sound got" "cl_printed c = print_of got" "reading c inp got" and wf: "wf_message (cl_read_msg c)"
    using pi by (auto simp: prints_input_def)
  note fin = reading_done [OF got(3) p, simplified]
  let ?old = "cl_read_msg c"
  have old: "n = msg_body_length ?old" "sound ?old" "inp = concat (List.map wire got) @ take header_length (msg_data ?old)"
    using got(3) fin by (simp_all add: reading_def p)
  let ?m = "memcpy header_length bytes ?old"
  let ?c = "client_complete (Client_read_body n) e bytes (c\<lparr>cl_pending := xs @ ys\<rparr>)"
  have m: "sound ?m" using memcpy_body_decode [of ?old bytes] old n by (auto simp: sound_def split: if_splits)
  show ?thesis
  proof (cases "e = No_error")
    case True
    have w: "wire ?m = take header_length (msg_data ?old) @ bytes"
      using old(1,2) n True by (simp add: wire_def msg_length_def memcpy_def sound_def wf_message_def)
    have "reading ?c (inp @ bytes) (got @ [?m])"
      using True fin old(3) w by (simp add: reading_def client_read_body_def client_start_op_def)
    moreover have "cl_printed ?c = print_of (got @ [?m])"
      using True got(2) by (simp add: print_of_def client_read_body_def client_start_op_def msg_text_def)
    moreover have "list_all sound (got @ [?m])" using got(1) m by simp
    moreover have "cl_read_msg ?c = ?m" using True by (simp add: client_read_body_def client_start_op_def)
    ultimately show ?thesis using m unfolding prints_input_def sound_def by metis
  next
    case False
    show ?thesis
      by (rule prints_stopped [OF pi p]) (use False fin m in \<open>auto simp: client_read_body_def do_close_def sound_def\<close>)
  qed
qed

lemma client_run_ok: "client_run c lines inp \<Longrightarrow> writes_lines c lines \<and> prints_input c inp"
proof (induction rule: client_run.induct)
  case (client_start garbage)
  then show ?case
    by (auto simp: writes_lines_def prints_input_def reading_def print_of_def to_send_def chat_client_new_def client_start_op_def
        chat_message_new_def wf_message_def intro!: exI [of _ "[]"])
next
  case (client_types c lines inp garbage line)
  then show ?case
    using writes_lines_types by (auto intro!: prints_input_same [of c] simp: client_post_write_def)
next
  case (client_ends c lines inp)
  then show ?case
    by (auto intro!: prints_input_same [of c] to_send_same [of c] simp: client_post_close_def to_send_def writes_lines_def)
next
  case (client_posted c lines inp)
  then show ?case
    using writes_lines_posted
    by (auto intro!: prints_input_same [of c] simp: client_run_posted_def do_write_def do_close_def client_async_write_def
        client_start_op_def Let_def split: list.splits posted.splits)
next
  case (client_completes c lines inp xs op ys error bytes)
  have w: "writes_lines (client_complete op error bytes (c\<lparr>cl_pending := xs @ ys\<rparr>)) lines"
    using writes_lines_complete client_completes by blast
  have "prints_input (client_complete op error bytes (c\<lparr>cl_pending := xs @ ys\<rparr>)) (inp @ bytes)"
  proof (cases op)
    case Connect
    then show ?thesis using prints_connect [of c inp xs ys bytes error] client_completes by (auto split: if_splits)
  next
    case Client_read_header
    then show ?thesis using prints_header [of c inp xs ys error bytes] client_completes by (simp del: client_complete.simps cong: if_cong)
  next
    case (Client_read_body n)
    then show ?thesis using prints_body [of c inp xs n ys error bytes] client_completes by (simp del: client_complete.simps cong: if_cong)
  next
    case (Client_write bs)
    then have "bytes = []" using client_completes by (auto split: if_splits)
    then show ?thesis
      using client_completes Client_write
      by (auto intro!: prints_input_same [of c] simp: client_handle_write_def do_close_def client_async_write_def client_start_op_def Let_def)
  qed
  then show ?case using w by blast
qed

section \<open>Properties\<close>

text \<open>What a client has handed to its connection, in order, is an initial part of what it has to send.\<close>

lemma client_sent_prefix: "prefix (concat (cl_sent c)) (concat (to_send c))"
  by (simp add: to_send_def)

lemma session_sent_prefix: "prefix (concat (session_sent i s)) (concat (stream i s))"
  by (simp add: stream_def)

lemma from_session_sound: "list_all sound (delivered h) \<Longrightarrow> list_all sound (from_session i h)"
  by (auto simp: delivered_def from_session_def list_all_iff)

lemma print_of_texts: "List.map msg_text ms = List.map msg_text ms' \<Longrightarrow> print_of ms = print_of ms'"
proof -
  have eq: "print_of ks = concat (List.map (\<lambda>t. t @ [CHR 0x0A]) (List.map msg_text ks))" for ks
    by (simp add: print_of_def comp_def)
  show "List.map msg_text ms = List.map msg_text ms' \<Longrightarrow> print_of ms = print_of ms'" by (simp only: eq)
qed

text \<open>
  C6. Chat from end to end. Let every session's connection carry to the server a beginning of what its client has
  written, and to the client a beginning of what the session has written, whatever the order of all the steps. Then the
  messages the room has from a session are the first lines its client typed, in order, each up to its first NUL
  character, where \<open>strlen\<close> ends; and a client
  has printed the messages of the room's log, in the order of the log and without a gap, from the point where its session
  joined.
\<close>

theorem chat_end_to_end:
  assumes server: "chat_run s h"
    and client: "client_run c lines inp"
    and to_server: "prefix (input h i) (concat (cl_sent c))"
    and to_client: "prefix inp (concat (session_sent i s))"
  shows "prefix (List.map msg_text (from_session i h)) (List.map c_str lines)
    \<and> (\<forall>k. joined h i = Some k \<longrightarrow> (\<exists>n. cl_printed c = print_of (take n (drop k (delivered h)))))"
proof (intro conjI allI impI)
  note hist = chat_run_history [OF server]
  have sound: "list_all sound (delivered h)" by (rule history_okD(2) [OF hist])
  obtain ms where ms: "list_all sound ms" "List.map msg_text ms = List.map c_str lines" "to_send c = List.map wire ms"
    using client_run_ok [OF client] by (auto simp: writes_lines_def)
  have "prefix (concat (List.map wire (from_session i h))) (concat (List.map wire ms))"
    using history_okD(4) [OF hist, of i] to_server client_sent_prefix [of c] unfolding ms(3) read_ok_def
    by (meson prefix_order.trans)
  then show "prefix (List.map msg_text (from_session i h)) (List.map c_str lines)"
    using wires_prefix [OF from_session_sound [OF sound] ms(1)] ms(2) by simp
  fix k assume k: "joined h i = Some k"
  obtain got where got: "list_all sound got" "cl_printed c = print_of got" "reading c inp got"
    using client_run_ok [OF client] by (auto simp: prints_input_def)
  let ?log = "drop k (delivered h)"
  have log: "list_all sound ?log" by (rule list_all_drop [OF sound])
  have "prefix (stream i s) (List.map wire ?log)"
    using history_okD(3) [OF hist, of i] k by (simp add: sent_ok_def)
  then have "prefix (concat (stream i s)) (concat (List.map wire ?log))" by (auto simp: prefix_def)
  then have "prefix (concat (List.map wire got)) (concat (List.map wire ?log))"
    using reading_prefix [OF got(3)] to_client session_sent_prefix [of i s] by (meson prefix_order.trans)
  from wires_prefix [OF got(1) log this] obtain n where "List.map msg_text got = List.map msg_text (take n ?log)"
    by (metis prefix_def append_eq_conv_conj take_map)
  then have "cl_printed c = print_of (take n ?log)" unfolding got(2) by (rule print_of_texts)
  then show "\<exists>n. cl_printed c = print_of (take n ?log)" by blast
qed

text \<open>The client of the example run of the server; its line is cut at the NUL.\<close>

definition example_line :: string where
  "example_line = [CHR ''a'', CHR 0x00, CHR ''b'']"

definition example_client :: chat_client where
  "example_client = client_run_posted (client_post_write (compose example_garbage example_line) (chat_client_new example_garbage))"

lemma example_client_run: "client_run example_client [example_line] []"
proof -
  have g: "length example_garbage = header_length + max_body_length"
    by (simp add: example_garbage_def header_length_def max_body_length_def)
  show ?thesis
    using client_posted [OF client_types [OF client_start [OF g] g, of example_line]]
    by (simp add: example_client_def example_line_def max_body_length_def)
qed

lemma example_client_sent: "concat (cl_sent example_client) = ''   1a''"
proof -
  have "printf_d header_length 1 = ''   1''" by code_simp
  moreover have "c_str example_line = ''a''" by (simp add: c_str_def example_line_def)
  ultimately have "wire (compose example_garbage example_line) = ''   1a''"
    by (simp add: example_line_def wire_def msg_length_def compose_def set_body_length_def chat_message_new_def encode_header_def memcpy_def
        header_length_def max_body_length_def example_garbage_def eval_nat_numeral)
  then show ?thesis
    by (simp add: example_client_def client_run_posted_def client_post_write_def do_write_def chat_client_new_def
        client_start_op_def client_async_write_def)
qed

theorem chat_end_to_end_witness:
  "prefix (List.map msg_text (from_session 0 (example_history 3))) (List.map c_str [CHR ''a'' # CHR 0x00 # ''b''])
    \<and> length (from_session 0 (example_history 3)) = 1 \<and> input (example_history 3) 0 = ''   1a''"
proof -
  have h: "input (example_history 3) 0 = ''   1a''" "length (from_session 0 (example_history 3)) = 1"
    by (simp_all add: example_history_def from_session_def Let_def numeral_3_eq_3)
  then show ?thesis
    using chat_end_to_end [OF example_run example_client_run, of 0] example_client_sent by (simp add: example_line_def)
qed

end
