(* ===== verification/Icmp.thy ===== *)
theory Icmp
  imports "HOL-Library.Word"
begin

text \<open>
  \<open>asio-examples/icmp/icmp_header.hpp\<close> and \<open>ipv4_header.hpp\<close>: the headers as arrays of bytes, with
  their accessors, the checksum, and extraction from a stream. Integers keep their widths: an
  \<open>unsigned char\<close> is an \<open>8 word\<close>, an \<open>unsigned short\<close> a \<open>16 word\<close>, arithmetic on them happens in
  32 bits and is converted back.
\<close>

unbundle bit_operations_syntax

section \<open>Bytes and 16-bit fields\<close>

text \<open>\<open>decode\<close> and \<open>encode\<close>, the same in both headers.\<close>

definition decode :: "8 word list \<Rightarrow> nat \<Rightarrow> nat \<Rightarrow> 16 word" where
  "decode rep a b = ucast (push_bit 8 (ucast (rep ! a) :: 32 word) + ucast (rep ! b))"

definition encode :: "nat \<Rightarrow> nat \<Rightarrow> 16 word \<Rightarrow> 8 word list \<Rightarrow> 8 word list" where
  "encode a b n rep =
     rep[a := ucast (drop_bit 8 (ucast n :: 32 word)), b := ucast ((ucast n :: 32 word) AND 0xFF)]"

lemma unat_decode: "unat (decode rep a b) = 256 * unat (rep ! a) + unat (rep ! b)"
proof -
  have a: "unat (rep ! a) < 256" and b: "unat (rep ! b) < 256"
    using unsigned_less [where ?'a = nat, of "rep ! a"] unsigned_less [where ?'a = nat, of "rep ! b"] by simp_all
  have "unat (push_bit 8 (ucast (rep ! a) :: 32 word)) = 256 * unat (rep ! a)"
    using a by (simp add: unat_word_ariths unsigned_push_bit_eq unsigned_ucast_eq take_bit_eq_mod push_bit_eq_mult)
  then have "unat (push_bit 8 (ucast (rep ! a) :: 32 word) + ucast (rep ! b)) = 256 * unat (rep ! a) + unat (rep ! b)"
    using a b by (simp add: unat_word_ariths unsigned_ucast_eq take_bit_eq_mod)
  then show ?thesis using a b by (simp add: decode_def unsigned_ucast_eq take_bit_eq_mod)
qed

lemma encode_bytes:
  assumes "a \<noteq> b" "a < length rep" "b < length rep"
  shows "unat (encode a b n rep ! a) = unat n div 256" "unat (encode a b n rep ! b) = unat n mod 256"
proof -
  have n: "unat n < 65536" using unsigned_less [where ?'a = nat, of n] by simp
  show "unat (encode a b n rep ! a) = unat n div 256"
    using assms n
    by (simp add: encode_def unsigned_ucast_eq take_bit_eq_mod unat_drop_bit_eq drop_bit_eq_div [where ?'a = nat])
  have mask: "((ucast n :: 32 word) AND 0xFF) = take_bit 8 (ucast n)"
    by (simp add: take_bit_eq_mask mask_numeral)
  have "unat (take_bit 8 (ucast n :: 32 word)) = unat n mod 256"
    unfolding unsigned_take_bit_eq using n by (simp add: unsigned_ucast_eq take_bit_eq_mod [where ?'a = nat])
  then show "unat (encode a b n rep ! b) = unat n mod 256"
    using assms unfolding encode_def mask by (simp add: unsigned_ucast_eq take_bit_eq_mod [where ?'a = nat])
qed

lemma decode_of_encode [simp]:
  assumes "a \<noteq> b" "a < length rep" "b < length rep"
  shows "decode (encode a b n rep) a b = n"
proof (rule word_unat_eq_iff [THEN iffD2])
  show "unat (decode (encode a b n rep) a b) = unat n"
    using encode_bytes [OF assms, of n] by (simp add: unat_decode)
qed

lemma encode_other [simp]:
  "i \<noteq> a \<Longrightarrow> i \<noteq> b \<Longrightarrow> encode a b n rep ! i = rep ! i"
  "length (encode a b n rep) = length rep"
  by (simp_all add: encode_def)

lemma decode_other [simp]:
  "i \<noteq> a \<Longrightarrow> i \<noteq> b \<Longrightarrow> j \<noteq> a \<Longrightarrow> j \<noteq> b \<Longrightarrow> decode (encode a b n rep) i j = decode rep i j"
  by (simp add: decode_def)

section \<open>Streams\<close>

text \<open>
  An \<open>std::istream\<close> over a buffer: whether it is good, and the bytes left. \<open>read\<close> of \<open>n\<close> bytes
  into an array at an offset does nothing on a stream that is not good; where fewer bytes are
  left it stores these and the stream fails.
\<close>

record istream =
  good :: bool
  left :: "8 word list"

definition store_at :: "nat \<Rightarrow> 8 word list \<Rightarrow> 8 word list \<Rightarrow> 8 word list" where
  "store_at offset bs rep = take offset rep @ bs @ drop (offset + length bs) rep"

definition is_read :: "nat \<Rightarrow> nat \<Rightarrow> istream \<Rightarrow> 8 word list \<Rightarrow> istream \<times> 8 word list" where
  "is_read offset n inp rep =
     (if \<not> good inp then (inp, rep)
      else if n \<le> length (left inp)
        then (inp\<lparr>left := drop n (left inp)\<rparr>, store_at offset (take n (left inp)) rep)
      else (inp\<lparr>good := False, left := []\<rparr>, store_at offset (left inp) rep))"

definition set_failbit :: "istream \<Rightarrow> istream" where
  "set_failbit inp = inp\<lparr>good := False\<rparr>"

lemma store_at_prefix [simp]: "store_at 0 bs rep = bs @ drop (length bs) rep"
  by (simp add: store_at_def)

lemma length_store_at [simp]:
  "offset + length bs \<le> length rep \<Longrightarrow> length (store_at offset bs rep) = length rep"
  by (simp add: store_at_def)

lemma take_store_at:
  "offset \<le> length rep \<Longrightarrow> take (offset + length bs) (store_at offset bs rep) = take offset rep @ bs"
  by (simp add: store_at_def min_def)

section \<open>\<open>icmp_header\<close>\<close>

definition echo_reply :: "8 word" where
  "echo_reply = 0"

definition echo_request :: "8 word" where
  "echo_request = 8"

definition icmp_header_new :: "8 word list" where
  "icmp_header_new = replicate 8 0"

definition icmp_type :: "8 word list \<Rightarrow> 8 word" where
  "icmp_type rep = rep ! 0"

definition icmp_code :: "8 word list \<Rightarrow> 8 word" where
  "icmp_code rep = rep ! 1"

definition checksum :: "8 word list \<Rightarrow> 16 word" where
  "checksum rep = decode rep 2 3"

definition icmp_identifier :: "8 word list \<Rightarrow> 16 word" where
  "icmp_identifier rep = decode rep 4 5"

definition sequence_number :: "8 word list \<Rightarrow> 16 word" where
  "sequence_number rep = decode rep 6 7"

definition set_type :: "8 word \<Rightarrow> 8 word list \<Rightarrow> 8 word list" where
  "set_type n rep = rep[0 := n]"

definition set_code :: "8 word \<Rightarrow> 8 word list \<Rightarrow> 8 word list" where
  "set_code n rep = rep[1 := n]"

definition set_checksum :: "16 word \<Rightarrow> 8 word list \<Rightarrow> 8 word list" where
  "set_checksum n rep = encode 2 3 n rep"

definition set_identifier :: "16 word \<Rightarrow> 8 word list \<Rightarrow> 8 word list" where
  "set_identifier n rep = encode 4 5 n rep"

definition set_sequence_number :: "16 word \<Rightarrow> 8 word list \<Rightarrow> 8 word list" where
  "set_sequence_number n rep = encode 6 7 n rep"

definition extract_icmp :: "istream \<Rightarrow> 8 word list \<Rightarrow> istream \<times> 8 word list" where
  "extract_icmp inp rep = is_read 0 8 inp rep"

definition insert_icmp :: "8 word list \<Rightarrow> 8 word list \<Rightarrow> 8 word list" where
  "insert_icmp os rep = os @ take 8 rep"

section \<open>\<open>compute_checksum\<close>\<close>

text \<open>The loop over the body, two bytes at a time, and the two steps that fold the carries; \<open>sum\<close> is
  an \<open>unsigned int\<close> of 32 bits.\<close>

fun checksum_loop :: "32 word \<Rightarrow> 8 word list \<Rightarrow> 32 word" where
  "checksum_loop s [] = s"
| "checksum_loop s [a] = s + push_bit 8 (ucast a)"
| "checksum_loop s (a # b # bs) = checksum_loop (s + push_bit 8 (ucast a) + ucast b) bs"

definition compute_checksum :: "8 word list \<Rightarrow> 8 word list \<Rightarrow> 8 word list" where
  "compute_checksum rep body =
     (let s = push_bit 8 (ucast (icmp_type rep)) + ucast (icmp_code rep)
                + ucast (icmp_identifier rep) + ucast (sequence_number rep);
          s = checksum_loop s body;
          s = drop_bit 16 s + (s AND 0xFFFF);
          s = s + drop_bit 16 s
      in set_checksum (ucast (NOT s)) rep)"

text \<open>The sum of the 16-bit words of a packet, with a last odd byte padded by zero: what a receiver
  computes.\<close>

fun sum16 :: "8 word list \<Rightarrow> nat" where
  "sum16 [] = 0"
| "sum16 [a] = 256 * unat a"
| "sum16 (a # b # bs) = 256 * unat a + unat b + sum16 bs"

lemma unat_shl8: "unat (push_bit 8 (ucast (a :: 8 word)) :: 32 word) = 256 * unat a"
proof -
  have "unat a < 256" using unsigned_less [where ?'a = nat, of a] by simp
  then show ?thesis
    by (simp add: unat_word_ariths unsigned_push_bit_eq unsigned_ucast_eq take_bit_eq_mod push_bit_eq_mult)
qed

lemma unat_ucast8: "unat (ucast (a :: 8 word) :: 32 word) = unat a"
  using unsigned_less [where ?'a = nat, of a] by (simp add: unsigned_ucast_eq take_bit_eq_mod)

lemma unat_ucast16: "unat (ucast (a :: 16 word) :: 32 word) = unat a"
  using unsigned_less [where ?'a = nat, of a] by (simp add: unsigned_ucast_eq take_bit_eq_mod)

lemma unat_plus32: "unat x + unat y < 2 ^ 32 \<Longrightarrow> unat (x + y :: 32 word) = unat x + unat y"
  by (simp add: unat_word_ariths)

lemma unat_plus32_4:
  "unat a + unat b + unat c + unat d < 2 ^ 32
    \<Longrightarrow> unat (a + b + c + d :: 32 word) = unat a + unat b + unat c + unat d"
  by (simp add: unat_plus32)

lemma unat_checksum_loop:
  "unat s + sum16 bs < 2 ^ 32 \<Longrightarrow> unat (checksum_loop s bs) = unat s + sum16 bs"
proof (induction s bs rule: checksum_loop.induct)
  case (2 s a)
  then show ?case by (simp add: unat_plus32 unat_shl8)
next
  case (3 s a b bs)
  have "unat (s + push_bit 8 (ucast a)) = unat s + 256 * unat a"
    using "3.prems" by (simp add: unat_plus32 unat_shl8)
  moreover from this have "unat (s + push_bit 8 (ucast a) + ucast b) = unat s + 256 * unat a + unat b"
    using "3.prems" by (simp add: unat_plus32 unat_ucast8)
  ultimately show ?case using "3.IH" "3.prems" by simp
qed simp

text \<open>Folding twice gives the sum modulo 65535, in 16 bits.\<close>

lemma fold_twice:
  fixes S :: nat
  assumes "S < 2 ^ 32"
  defines "t \<equiv> S div 65536 + S mod 65536"
  shows "t < 2 ^ 32" "t + t div 65536 < 2 ^ 32" "((t + t div 65536) mod 65536) mod 65535 = S mod 65535"
    "0 < S \<Longrightarrow> 0 < (t + t div 65536) mod 65536"
proof -
  have S: "S = 65535 * (S div 65536) + t"
    using mult_div_mod_eq [of 65536 S] unfolding t_def by linarith
  have t: "t \<le> 131070" using assms by simp
  show "t < 2 ^ 32" "t + t div 65536 < 2 ^ 32" using t by simp_all
  have St: "S mod 65535 = t mod 65535"
    using arg_cong [OF S, of "\<lambda>n. n mod 65535"] by simp
  have pos: "0 < t" if "0 < S"
    using that mult_div_mod_eq [of 65536 S] unfolding t_def by linarith
  have "((t + t div 65536) mod 65536) mod 65535 = t mod 65535 \<and> (0 < t \<longrightarrow> 0 < (t + t div 65536) mod 65536)"
  proof (cases "t < 65536")
    case False
    then have "t div 65536 = 1" using t by simp
    moreover have "(t + 1) mod 65536 = t - 65535" using t False by (simp add: le_mod_geq)
    ultimately show ?thesis using False by (simp add: le_mod_geq)
  qed simp
  with St pos show "((t + t div 65536) mod 65536) mod 65535 = S mod 65535"
    "0 < S \<Longrightarrow> 0 < (t + t div 65536) mod 65536" by simp_all
qed

lemma unat_not_low: "unat (ucast (NOT (s :: 32 word)) :: 16 word) = 65535 - unat s mod 65536"
proof -
  have "uint (NOT s) = take_bit 32 (NOT (uint s))"
    using unsigned_not_eq [where ?'a = int, of s] by simp
  then have "uint (ucast (NOT s) :: 16 word) = take_bit 16 (NOT (uint s))"
    using unsigned_ucast_eq [where ?'a = int and ?'c = 16, of "NOT s"] by simp
  also have "\<dots> = (- uint s - 1) mod 65536"
    unfolding take_bit_eq_mod [where ?'a = int] not_eq_complement by simp
  also have "\<dots> = 65535 - uint s mod 65536"
  proof (rule int_mod_pos_eq)
    show "- uint s - 1 = 65536 * (- (uint s div 65536) - 1) + (65535 - uint s mod 65536)"
      using mult_div_mod_eq [of 65536 "uint s"] by (simp add: algebra_simps)
  qed simp_all
  finally have "int (unat (ucast (NOT s) :: 16 word)) = 65535 - int (unat s mod 65536)"
    by (simp add: zmod_int)
  then show ?thesis by linarith
qed

lemma list8:
  assumes "length rep = 8"
  obtains a b c d e f g h where "rep = [a, b, c, d, e, f, g, h]"
  using assms by (auto simp: length_Suc_conv eval_nat_numeral)

lemma sum16_packet:
  assumes "length rep = 8"
  shows "sum16 (rep @ bd) = 256 * unat (icmp_type rep) + unat (icmp_code rep) + unat (checksum rep)
    + unat (icmp_identifier rep) + unat (sequence_number rep) + sum16 bd"
  using assms by (elim list8)
    (simp add: icmp_type_def icmp_code_def checksum_def icmp_identifier_def sequence_number_def unat_decode)

lemmas field_defs = icmp_type_def icmp_code_def checksum_def icmp_identifier_def sequence_number_def
  set_type_def set_code_def set_checksum_def set_identifier_def set_sequence_number_def

lemma set_checksum_fields [simp]:
  assumes "length rep = 8"
  shows "icmp_type (set_checksum n rep) = icmp_type rep" "icmp_code (set_checksum n rep) = icmp_code rep"
    "icmp_identifier (set_checksum n rep) = icmp_identifier rep"
    "sequence_number (set_checksum n rep) = sequence_number rep" "checksum (set_checksum n rep) = n"
    "length (set_checksum n rep) = 8"
  using assms by (simp_all add: field_defs)

text \<open>The number that the checksum complements.\<close>

definition words_sum :: "8 word list \<Rightarrow> 8 word list \<Rightarrow> nat" where
  "words_sum rep bd = 256 * unat (icmp_type rep) + unat (icmp_code rep)
     + unat (icmp_identifier rep) + unat (sequence_number rep) + sum16 bd"

lemma unat_fold:
  fixes s :: "32 word"
  defines "t \<equiv> drop_bit 16 s + (s AND 0xFFFF)"
  shows "unat (t + drop_bit 16 t) = (let m = unat s div 65536 + unat s mod 65536 in m + m div 65536)"
proof -
  have S: "unat s < 2 ^ 32" using unsigned_less [where ?'a = nat, of s] by simp
  have d: "unat (drop_bit 16 x) = unat x div 65536" for x :: "32 word"
    unfolding unat_drop_bit_eq drop_bit_eq_div [where ?'a = nat] by simp
  have m: "unat (s AND 0xFFFF) = unat s mod 65536"
  proof -
    have "(s AND 0xFFFF) = take_bit 16 s" by (simp add: take_bit_eq_mask mask_numeral)
    then show ?thesis by (simp add: unsigned_take_bit_eq take_bit_eq_mod [where ?'a = nat])
  qed
  have t: "unat t = unat s div 65536 + unat s mod 65536"
    using unat_plus32 [of "drop_bit 16 s" "s AND 0xFFFF"] fold_twice(1) [OF S] unfolding t_def d m by blast
  have "unat (t + drop_bit 16 t) = unat t + unat t div 65536"
    unfolding d [symmetric] by (rule unat_plus32, unfold d t) (rule fold_twice(2) [OF S])
  then show ?thesis by (simp only: t Let_def)
qed

lemma checksum_complement:
  fixes S :: nat and n :: "16 word"
  assumes S: "S < 2 ^ 32"
    and n: "unat n = 65535 - (let m = S div 65536 + S mod 65536 in m + m div 65536) mod 65536"
  shows "(S + unat n) mod 65535 = 0" "0 < S + unat n"
proof -
  define u where "u = (let m = S div 65536 + S mod 65536 in m + m div 65536) mod 65536"
  have u: "u mod 65535 = S mod 65535" unfolding u_def Let_def by (rule fold_twice(3) [OF S])
  have un: "u + unat n = 65535" using n unfolding u_def [symmetric] by (simp add: u_def)
  have "(S + unat n) mod 65535 = (u + unat n) mod 65535"
    by (intro mod_add_cong refl) (rule u [symmetric])
  then show "(S + unat n) mod 65535 = 0" by (simp add: un)
  show "0 < S + unat n" using n by (cases "S = 0") (simp_all add: Let_def)
qed

lemma compute_checksum_value:
  assumes S: "words_sum rep bd < 2 ^ 32"
  obtains n where "compute_checksum rep bd = set_checksum n rep"
    "(words_sum rep bd + unat n) mod 65535 = 0" "0 < words_sum rep bd + unat n"
proof -
  define s where "s = checksum_loop (push_bit 8 (ucast (icmp_type rep)) + ucast (icmp_code rep)
                + ucast (icmp_identifier rep) + ucast (sequence_number rep)) bd"
  define t where "t = drop_bit 16 s + (s AND 0xFFFF)"
  define n :: "16 word" where "n = ucast (NOT (t + drop_bit 16 t))"
  have n: "compute_checksum rep bd = set_checksum n rep"
    unfolding compute_checksum_def Let_def n_def t_def s_def ..
  define h :: "32 word" where "h = push_bit 8 (ucast (icmp_type rep)) + ucast (icmp_code rep)
                + ucast (icmp_identifier rep) + ucast (sequence_number rep)"
  have h: "unat h = 256 * unat (icmp_type rep) + unat (icmp_code rep) + unat (icmp_identifier rep)
      + unat (sequence_number rep)"
  proof -
    have "unat h = unat (push_bit 8 (ucast (icmp_type rep)) :: 32 word) + unat (ucast (icmp_code rep) :: 32 word)
        + unat (ucast (icmp_identifier rep) :: 32 word) + unat (ucast (sequence_number rep) :: 32 word)"
      unfolding h_def
      by (rule unat_plus32_4, unfold unat_shl8 unat_ucast8 unat_ucast16)
        (rule le_less_trans [OF _ S], simp add: words_sum_def)
    then show ?thesis unfolding unat_shl8 unat_ucast8 unat_ucast16 .
  qed
  then have hs: "unat h + sum16 bd = words_sum rep bd" by (simp only: words_sum_def)
  have s: "unat s = words_sum rep bd"
    unfolding s_def h_def [symmetric] using unat_checksum_loop [of h bd] S by (simp only: hs)
  have "unat n = 65535 - unat (t + drop_bit 16 t) mod 65536"
    unfolding n_def by (rule unat_not_low)
  then have "unat n = 65535 - (let m = unat s div 65536 + unat s mod 65536 in m + m div 65536) mod 65536"
    unfolding t_def unat_fold .
  note c = checksum_complement [OF S this [unfolded s]]
  show thesis by (rule that [OF n c])
qed

text \<open>A receiver's test: the words of the packet, added with end-around carry, give all ones.\<close>

function fold16 :: "nat \<Rightarrow> nat" where
  "fold16 n = (if n < 65536 then n else fold16 (n div 65536 + n mod 65536))"
  by pat_completeness auto
termination
proof (relation "measure id")
  fix n :: nat assume "\<not> n < 65536"
  then have "0 < n div 65536" by (simp add: div_greater_zero_iff)
  then have "n div 65536 + n mod 65536 < n" using mult_div_mod_eq [of 65536 n] by linarith
  then show "(n div 65536 + n mod 65536, n) \<in> measure id" by simp
qed simp

declare fold16.simps [simp del]

lemma fold16_multiple: "n mod 65535 = 0 \<Longrightarrow> 0 < n \<Longrightarrow> fold16 n = 65535"
proof (induction n rule: fold16.induct)
  case (1 n)
  show ?case
  proof (cases "n < 65536")
    case True
    then have "n = 65535" using "1.prems" by (cases "n < 65535") simp_all
    then show ?thesis by (simp add: fold16.simps)
  next
    case False
    define m where "m = n div 65536 + n mod 65536"
    have n: "n = 65535 * (n div 65536) + m" using mult_div_mod_eq [of 65536 n] unfolding m_def by linarith
    have "m mod 65535 = 0" using arg_cong [OF n, of "\<lambda>n. n mod 65535"] "1.prems" by simp
    moreover have "0 < m" using False unfolding m_def by (simp add: div_greater_zero_iff)
    ultimately show ?thesis using "1.IH" [OF False] False by (simp add: fold16.simps [of n] m_def)
  qed
qed

definition checksum_ok :: "8 word list \<Rightarrow> bool" where
  "checksum_ok packet \<longleftrightarrow> fold16 (sum16 packet) = 0xFFFF"

lemma sum16_bound: "sum16 bs \<le> 65535 * ((length bs + 1) div 2)"
proof (induction bs rule: sum16.induct)
  case (2 a)
  then show ?case using unsigned_less [where ?'a = nat, of a] by simp
next
  case (3 a b bs)
  then show ?case
    using unsigned_less [where ?'a = nat, of a] unsigned_less [where ?'a = nat, of b] by simp
qed simp

lemma words_sum_bound: "length bd \<le> 65536 \<Longrightarrow> words_sum rep bd < 2 ^ 32"
proof -
  assume l: "length bd \<le> 65536"
  have "sum16 bd \<le> 65535 * 32769" using sum16_bound [of bd] l by simp
  then show ?thesis
    using unsigned_less [where ?'a = nat, of "icmp_type rep"] unsigned_less [where ?'a = nat, of "icmp_code rep"]
      unsigned_less [where ?'a = nat, of "icmp_identifier rep"] unsigned_less [where ?'a = nat, of "sequence_number rep"]
    by (simp add: words_sum_def)
qed

lemma compute_checksum_ok:
  assumes "length rep = 8" "length bd \<le> 65536"
  shows "checksum_ok (compute_checksum rep bd @ bd)"
proof -
  from compute_checksum_value [OF words_sum_bound [OF assms(2)]] obtain n
    where n: "compute_checksum rep bd = set_checksum n rep"
      "(words_sum rep bd + unat n) mod 65535 = 0" "0 < words_sum rep bd + unat n" .
  have "sum16 (set_checksum n rep @ bd) = words_sum rep bd + unat n"
    using assms(1) by (simp add: sum16_packet words_sum_def)
  then show ?thesis
    using fold16_multiple [OF n(2,3)] by (simp add: n(1) checksum_ok_def)
qed

lemma length_compute_checksum [simp]: "length (compute_checksum rep bd) = length rep"
  by (simp add: compute_checksum_def set_checksum_def Let_def)

lemma compute_checksum_fields [simp]:
  assumes "length rep = 8"
  shows "icmp_type (compute_checksum rep bd) = icmp_type rep"
    "icmp_code (compute_checksum rep bd) = icmp_code rep"
    "icmp_identifier (compute_checksum rep bd) = icmp_identifier rep"
    "sequence_number (compute_checksum rep bd) = sequence_number rep"
  using assms by (simp_all add: compute_checksum_def Let_def)

section \<open>Properties\<close>

text \<open>
  C15. The checksum that \<open>compute_checksum\<close> writes is the one a receiver accepts: for every header
  and every body of up to 64 KB, whatever the bytes and whether their number is odd or even, the
  16-bit words of the packet add up to all ones; and the other fields are left as they were.
\<close>

theorem compute_checksum_accepted:
  assumes "length rep = 8" "length bd \<le> 65536"
  shows "checksum_ok (insert_icmp [] (compute_checksum rep bd) @ bd)
    \<and> icmp_type (compute_checksum rep bd) = icmp_type rep \<and> icmp_code (compute_checksum rep bd) = icmp_code rep
    \<and> icmp_identifier (compute_checksum rep bd) = icmp_identifier rep
    \<and> sequence_number (compute_checksum rep bd) = sequence_number rep"
  using assms compute_checksum_ok [OF assms] by (simp add: insert_icmp_def)

theorem compute_checksum_accepted_witness:
  "checksum_ok (insert_icmp [] (compute_checksum (set_type echo_request icmp_header_new) [0xFF, 0x01, 0x80])
     @ [0xFF, 0x01, 0x80])"
  using compute_checksum_accepted [of "set_type echo_request icmp_header_new" "[0xFF, 0x01, 0x80]"]
  by (simp add: set_type_def icmp_header_new_def)

end
