(* ===== verification/Ping.thy ===== *)
theory Ping
  imports Icmp
begin

text \<open>
  \<open>asio-examples/icmp/ipv4_header.hpp\<close> and \<open>ping.cpp\<close>: extraction of the IPv4 header that precedes
  a reply, and the pinger, a state machine over one timer and one receive operation. Times are
  milliseconds of the steady clock.
\<close>

unbundle bit_operations_syntax

section \<open>\<open>ipv4_header\<close>\<close>

definition ipv4_header_new :: "8 word list" where
  "ipv4_header_new = replicate 60 0"

definition version :: "8 word list \<Rightarrow> 8 word" where
  "version rep = ucast (drop_bit 4 (ucast (rep ! 0) :: 32 word) AND 0xF)"

definition ipv4_header_length :: "8 word list \<Rightarrow> 16 word" where
  "ipv4_header_length rep = ucast (((ucast (rep ! 0) :: 32 word) AND 0xF) * 4)"

definition type_of_service :: "8 word list \<Rightarrow> 8 word" where
  "type_of_service rep = rep ! 1"

definition total_length :: "8 word list \<Rightarrow> 16 word" where
  "total_length rep = decode rep 2 3"

definition identification :: "8 word list \<Rightarrow> 16 word" where
  "identification rep = decode rep 4 5"

definition dont_fragment :: "8 word list \<Rightarrow> bool" where
  "dont_fragment rep \<longleftrightarrow> (rep ! 6) AND 0x40 \<noteq> 0"

definition more_fragments :: "8 word list \<Rightarrow> bool" where
  "more_fragments rep \<longleftrightarrow> (rep ! 6) AND 0x20 \<noteq> 0"

definition fragment_offset :: "8 word list \<Rightarrow> 16 word" where
  "fragment_offset rep = decode rep 6 7 AND 0x1FFF"

definition time_to_live :: "8 word list \<Rightarrow> 32 word" where
  "time_to_live rep = ucast (rep ! 8)"

definition protocol :: "8 word list \<Rightarrow> 8 word" where
  "protocol rep = rep ! 9"

definition header_checksum :: "8 word list \<Rightarrow> 16 word" where
  "header_checksum rep = decode rep 10 11"

definition source_address :: "8 word list \<Rightarrow> 8 word list" where
  "source_address rep = [rep ! 12, rep ! 13, rep ! 14, rep ! 15]"

definition destination_address :: "8 word list \<Rightarrow> 8 word list" where
  "destination_address rep = [rep ! 16, rep ! 17, rep ! 18, rep ! 19]"

text \<open>\<open>operator>>\<close>; \<open>options_length\<close> is a signed number.\<close>

definition extract_ipv4 :: "istream \<Rightarrow> 8 word list \<Rightarrow> istream \<times> 8 word list" where
  "extract_ipv4 inp rep =
     (let (inp, rep) = is_read 0 20 inp rep;
          inp = (if version rep \<noteq> 4 then set_failbit inp else inp);
          options_length = int (unat (ipv4_header_length rep)) - 20
      in if options_length < 0 \<or> options_length > 40 then (set_failbit inp, rep)
         else is_read 20 (nat options_length) inp rep)"

lemma unat_version: "unat (version rep) = unat (rep ! 0) div 16"
proof -
  have a: "unat (rep ! 0) < 256" using unsigned_less [where ?'a = nat, of "rep ! 0"] by simp
  have "(drop_bit 4 (ucast (rep ! 0) :: 32 word) AND 0xF) = take_bit 4 (drop_bit 4 (ucast (rep ! 0)))"
    by (simp add: take_bit_eq_mask mask_numeral)
  then have "unat (drop_bit 4 (ucast (rep ! 0) :: 32 word) AND 0xF) = unat (rep ! 0) div 16"
    using a by (simp add: unsigned_take_bit_eq unat_drop_bit_eq unsigned_ucast_eq
        take_bit_eq_mod [where ?'a = nat] drop_bit_eq_div [where ?'a = nat])
  then show ?thesis
    using a by (simp add: version_def unsigned_ucast_eq [of "drop_bit 4 (ucast (rep ! 0) :: 32 word) AND 0xF"]
        take_bit_eq_mod [where ?'a = nat])
qed

lemma unat_header_length: "unat (ipv4_header_length rep) = 4 * (unat (rep ! 0) mod 16)"
proof -
  have a: "unat (rep ! 0) < 256" using unsigned_less [where ?'a = nat, of "rep ! 0"] by simp
  have "((ucast (rep ! 0) :: 32 word) AND 0xF) = take_bit 4 (ucast (rep ! 0))"
    by (simp add: take_bit_eq_mask mask_numeral)
  then have "unat ((ucast (rep ! 0) :: 32 word) AND 0xF) = unat (rep ! 0) mod 16"
    using a by (simp add: unsigned_take_bit_eq unsigned_ucast_eq take_bit_eq_mod [where ?'a = nat])
  then have "unat (((ucast (rep ! 0) :: 32 word) AND 0xF) * 4) = 4 * (unat (rep ! 0) mod 16)"
    by (simp add: unat_word_ariths)
  then show ?thesis
    unfolding ipv4_header_length_def unsigned_ucast_eq [of "((ucast (rep ! 0) :: 32 word) AND 0xF) * 4"]
    by (simp add: take_bit_eq_mod [where ?'a = nat])
qed

text \<open>The packets that extraction accepts, and the length of their header in bytes.\<close>

definition hlen :: "8 word list \<Rightarrow> nat" where
  "hlen d = 4 * (unat (d ! 0) mod 16)"

definition ipv4_ok :: "8 word list \<Rightarrow> bool" where
  "ipv4_ok d \<longleftrightarrow> 20 \<le> length d \<and> unat (d ! 0) div 16 = 4 \<and> 20 \<le> hlen d \<and> hlen d \<le> length d"

lemma hlen_le: "hlen d \<le> 60"
proof -
  have "unat (d ! 0) mod 16 < 16" by simp
  then show ?thesis unfolding hlen_def by linarith
qed

lemma version_4: "version rep = 4 \<longleftrightarrow> unat (rep ! 0) div 16 = 4"
proof -
  have "version rep = 4 \<longleftrightarrow> unat (version rep) = unat (4 :: 8 word)" by (simp add: word_unat_eq_iff)
  then show ?thesis by (simp add: unat_version)
qed

lemma extract_ipv4_short:
  assumes "length d < 20"
  shows "\<not> good (fst (extract_ipv4 \<lparr>good = True, left = d\<rparr> ipv4_header_new))"
    "length (snd (extract_ipv4 \<lparr>good = True, left = d\<rparr> ipv4_header_new)) = 60"
  using assms by (simp_all add: extract_ipv4_def is_read_def set_failbit_def ipv4_header_new_def Let_def)

lemma extract_ipv4_long:
  assumes d: "20 \<le> length d"
  defines "rep \<equiv> take 20 d @ replicate 40 0"
  shows "extract_ipv4 \<lparr>good = True, left = d\<rparr> ipv4_header_new =
    (if unat (d ! 0) div 16 \<noteq> 4 \<or> hlen d < 20 then (\<lparr>good = False, left = drop 20 d\<rparr>, rep)
     else if hlen d \<le> length d then (\<lparr>good = True, left = drop (hlen d) d\<rparr>, take (hlen d) d @ replicate (60 - hlen d) 0)
     else (\<lparr>good = False, left = []\<rparr>, d @ replicate (60 - length d) 0))"
proof -
  have rd: "is_read 0 20 \<lparr>good = True, left = d\<rparr> ipv4_header_new = (\<lparr>good = True, left = drop 20 d\<rparr>, rep)"
    using d by (simp add: is_read_def ipv4_header_new_def rep_def min_absorb2)
  have r0: "rep ! 0 = d ! 0" using d by (simp add: rep_def nth_append)
  have v: "version rep = 4 \<longleftrightarrow> unat (d ! 0) div 16 = 4" by (simp add: version_4 r0)
  have "int (unat (ipv4_header_length rep)) = int (hlen d)"
    by (simp only: unat_header_length hlen_def r0)
  then have h: "uint (ipv4_header_length rep) = int (hlen d)" by simp
  have st: "store_at 20 bs rep = take 20 d @ bs @ replicate (40 - length bs) 0" for bs
    using d by (simp add: rep_def store_at_def)
  have read2: "is_read 20 (hlen d - 20) \<lparr>good = True, left = drop 20 d\<rparr> rep =
      (if hlen d \<le> length d then (\<lparr>good = True, left = drop (hlen d) d\<rparr>, take (hlen d) d @ replicate (60 - hlen d) 0)
       else (\<lparr>good = False, left = []\<rparr>, d @ replicate (60 - length d) 0))" if "20 \<le> hlen d"
  proof (cases "hlen d \<le> length d")
    case True
    then have "take 20 d @ take (hlen d - 20) (drop 20 d) = take (hlen d) d"
      using that by (metis le_add_diff_inverse take_add)
    then show ?thesis
      using True that d by (simp add: is_read_def st min_absorb2 flip: append_assoc)
  next
    case False
    then show ?thesis using that d by (simp add: is_read_def st flip: append_assoc)
  qed
  show ?thesis
  proof (cases "hlen d < 20")
    case True
    then show ?thesis by (simp add: extract_ipv4_def Let_def rd h v set_failbit_def)
  next
    case False
    then have n: "nat (int (hlen d) - 20) = hlen d - 20" by simp
    show ?thesis
      using False hlen_le [of d]
      by (cases "unat (d ! 0) div 16 = 4")
        (simp_all add: extract_ipv4_def Let_def rd h v n set_failbit_def read2, simp_all add: is_read_def)
  qed
qed

section \<open>\<open>pinger\<close>\<close>

datatype timer_handler = Handle_timeout | Start_send

datatype printed =
    Timed_out
  | Reply nat "8 word list" "16 word" "32 word" nat

text \<open>
  \<open>p_waits\<close> holds the waits on the timer with the flag that they were cancelled, \<open>p_receives\<close> the
  number of receive operations, \<open>p_sent\<close> the packets sent with their times, \<open>p_out\<close> the lines
  printed.
\<close>

record pinger =
  p_sequence_number :: "16 word"
  p_num_replies :: nat
  p_time_sent :: nat
  p_expiry :: nat
  p_waits :: "(timer_handler \<times> bool) list"
  p_receives :: nat
  p_sent :: "(nat \<times> 8 word list) list"
  p_out :: "printed list"

definition timer_cancel :: "pinger \<Rightarrow> pinger" where
  "timer_cancel p = p\<lparr>p_waits := List.map (\<lambda>(h, _). (h, True)) (p_waits p)\<rparr>"

definition expires_at :: "nat \<Rightarrow> pinger \<Rightarrow> pinger" where
  "expires_at t p = (timer_cancel p)\<lparr>p_expiry := t\<rparr>"

definition async_wait :: "timer_handler \<Rightarrow> pinger \<Rightarrow> pinger" where
  "async_wait h p = p\<lparr>p_waits := p_waits p @ [(h, False)]\<rparr>"

text \<open>The body of every request: "Hello!" from Asio ping.\<close>

definition request_body :: "8 word list" where
  "request_body = List.map (\<lambda>c. of_nat (of_char c)) (CHR 0x22 # ''Hello!'' @ CHR 0x22 # '' from Asio ping.'')"

text \<open>The handlers; \<open>pid\<close> is the identifier of the process, \<open>now\<close> what the clock shows.\<close>

definition start_send :: "16 word \<Rightarrow> nat \<Rightarrow> pinger \<Rightarrow> pinger" where
  "start_send pid now p =
     (let body = request_body;
          p = p\<lparr>p_sequence_number := p_sequence_number p + 1\<rparr>;
          request = set_sequence_number (p_sequence_number p)
            (set_identifier pid (set_code 0 (set_type echo_request icmp_header_new)));
          request = compute_checksum request body;
          buffer = insert_icmp [] request @ body;
          p = p\<lparr>p_time_sent := now\<rparr>;
          p = p\<lparr>p_sent := p_sent p @ [(now, buffer)]\<rparr>;
          p = p\<lparr>p_num_replies := 0\<rparr>
      in async_wait Handle_timeout (expires_at (p_time_sent p + 5000) p))"

definition handle_timeout :: "pinger \<Rightarrow> pinger" where
  "handle_timeout p =
     (let p = (if p_num_replies p = 0 then p\<lparr>p_out := p_out p @ [Timed_out]\<rparr> else p)
      in async_wait Start_send (expires_at (p_time_sent p + 1000) p))"

definition start_receive :: "pinger \<Rightarrow> pinger" where
  "start_receive p = p\<lparr>p_receives := Suc (p_receives p)\<rparr>"

definition handle_receive :: "16 word \<Rightarrow> nat \<Rightarrow> 8 word list \<Rightarrow> pinger \<Rightarrow> pinger" where
  "handle_receive pid now packet p =
     (let (inp, ipv4_hdr) = extract_ipv4 \<lparr>good = True, left = packet\<rparr> ipv4_header_new;
          (inp, icmp_hdr) = extract_icmp inp icmp_header_new;
          p = (if good inp \<and> icmp_type icmp_hdr = echo_reply \<and> icmp_identifier icmp_hdr = pid
                  \<and> sequence_number icmp_hdr = p_sequence_number p
               then (let first = (p_num_replies p = 0);
                         p = p\<lparr>p_num_replies := Suc (p_num_replies p)\<rparr>;
                         p = (if first then timer_cancel p else p)
                     in p\<lparr>p_out := p_out p @
                          [Reply (length packet - unat (ipv4_header_length ipv4_hdr)) (source_address ipv4_hdr)
                             (sequence_number icmp_hdr) (time_to_live ipv4_hdr) (now - p_time_sent p)]\<rparr>)
               else p)
      in start_receive p)"

definition pinger_new :: "16 word \<Rightarrow> nat \<Rightarrow> pinger" where
  "pinger_new pid now =
     start_receive (start_send pid now
       \<lparr>p_sequence_number = 0, p_num_replies = 0, p_time_sent = 0, p_expiry = 0, p_waits = [],
        p_receives = 0, p_sent = [], p_out = []\<rparr>)"

text \<open>
  A wait completes once the clock has reached the expiry time or the wait was cancelled; a receive
  completes with any packet at any time. The clock never goes back: the state of a step is the
  time of the last handler and the pinger.
\<close>

fun run_wait :: "16 word \<Rightarrow> timer_handler \<Rightarrow> nat \<Rightarrow> pinger \<Rightarrow> pinger" where
  "run_wait pid Handle_timeout now p = handle_timeout p"
| "run_wait pid Start_send now p = start_send pid now p"

inductive ping_step :: "16 word \<Rightarrow> nat \<times> pinger \<Rightarrow> nat \<times> pinger \<Rightarrow> bool" for pid where
  wait_completes:
    "p_waits p = xs @ (h, cancelled) # ys \<Longrightarrow> cancelled \<or> p_expiry p \<le> now \<Longrightarrow> before \<le> now
     \<Longrightarrow> ping_step pid (before, p) (now, run_wait pid h now (p\<lparr>p_waits := xs @ ys\<rparr>))"
| receive_completes:
    "p_receives p = Suc n \<Longrightarrow> before \<le> now
     \<Longrightarrow> ping_step pid (before, p) (now, handle_receive pid now packet (p\<lparr>p_receives := n\<rparr>))"

inductive_cases ping_stepE: "ping_step pid s t"

text \<open>The packet the pinger sends as number \<open>k\<close>.\<close>

definition ping_packet :: "16 word \<Rightarrow> nat \<Rightarrow> 8 word list" where
  "ping_packet pid k =
     compute_checksum (set_sequence_number (of_nat k)
       (set_identifier pid (set_code 0 (set_type echo_request icmp_header_new)))) request_body @ request_body"

text \<open>
  One wait is outstanding. While it is for the timeout it is cancelled only after a reply; while
  it is for the next request and could fire early, a second has passed already.
\<close>

definition ping_inv :: "16 word \<Rightarrow> nat \<Rightarrow> pinger \<Rightarrow> bool" where
  "ping_inv pid now p \<longleftrightarrow>
     p_receives p = 1 \<and> p_time_sent p \<le> now
   \<and> p_sequence_number p = of_nat (length (p_sent p))
   \<and> p_sent p \<noteq> [] \<and> fst (last (p_sent p)) = p_time_sent p
   \<and> List.map snd (p_sent p) = List.map (\<lambda>k. ping_packet pid (Suc k)) [0..<length (p_sent p)]
   \<and> successively (\<lambda>a b. a + 1000 \<le> b) (List.map fst (p_sent p))
   \<and> ((\<exists>c. p_waits p = [(Handle_timeout, c)] \<and> p_expiry p = p_time_sent p + 5000
          \<and> (c \<longrightarrow> p_num_replies p > 0))
    \<or> (\<exists>c. p_waits p = [(Start_send, c)] \<and> p_expiry p = p_time_sent p + 1000
          \<and> (c \<or> p_num_replies p = 0 \<longrightarrow> p_time_sent p + 1000 \<le> now)))"

lemma length_fields [simp]:
  "length (set_type n rep) = length rep" "length (set_code n rep) = length rep"
  "length (set_identifier k rep) = length rep" "length (set_sequence_number k rep) = length rep"
  by (simp_all add: field_defs)

lemma length_icmp_header_new [simp]: "length icmp_header_new = 8"
  by (simp add: icmp_header_new_def)

lemma length_request_body [simp]: "length request_body = 24"
  by (simp add: request_body_def)

lemma start_send_simps [simp]:
  "p_sequence_number (start_send pid now p) = p_sequence_number p + 1"
  "p_num_replies (start_send pid now p) = 0" "p_time_sent (start_send pid now p) = now"
  "p_expiry (start_send pid now p) = now + 5000" "p_receives (start_send pid now p) = p_receives p"
  "p_waits (start_send pid now p) = List.map (\<lambda>(h, _). (h, True)) (p_waits p) @ [(Handle_timeout, False)]"
  by (simp_all add: start_send_def async_wait_def expires_at_def timer_cancel_def Let_def)

lemma start_send_sent:
  "p_sequence_number p = of_nat n
    \<Longrightarrow> p_sent (start_send pid now p) = p_sent p @ [(now, ping_packet pid (Suc n))]"
  by (simp add: start_send_def async_wait_def expires_at_def timer_cancel_def ping_packet_def
      insert_icmp_def Let_def add.commute)

text \<open>A sending step restores the invariant when the previous request is a second old.\<close>

lemma start_send_inv:
  assumes "p_receives p = 1" "p_sequence_number p = of_nat (length (p_sent p))" "p_waits p = []"
    "List.map snd (p_sent p) = List.map (\<lambda>k. ping_packet pid (Suc k)) [0..<length (p_sent p)]"
    "successively (\<lambda>a b. a + 1000 \<le> b) (List.map fst (p_sent p))"
    "p_sent p \<noteq> [] \<Longrightarrow> fst (last (p_sent p)) + 1000 \<le> now"
  shows "ping_inv pid now (start_send pid now p)"
proof -
  have "p_sent p \<noteq> [] \<Longrightarrow> last (List.map fst (p_sent p)) + 1000 \<le> now"
    using assms(6) by (simp add: last_map)
  with assms show ?thesis
    unfolding ping_inv_def start_send_sent [OF assms(2)]
    by (intro conjI disjI1 exI [of _ False]) (auto simp: successively_append_iff)
qed

lemma pinger_new_inv: "ping_inv pid now (pinger_new pid now)"
proof -
  have "start_receive (start_send pid now p) = start_send pid now (start_receive p)" for p
    by (simp add: start_receive_def start_send_def async_wait_def expires_at_def timer_cancel_def Let_def)
  then show ?thesis
    unfolding pinger_new_def by (simp only:) (rule start_send_inv, simp_all add: start_receive_def)
qed

lemma handle_timeout_simps [simp]:
  "p_sequence_number (handle_timeout p) = p_sequence_number p" "p_num_replies (handle_timeout p) = p_num_replies p"
  "p_time_sent (handle_timeout p) = p_time_sent p" "p_expiry (handle_timeout p) = p_time_sent p + 1000"
  "p_receives (handle_timeout p) = p_receives p" "p_sent (handle_timeout p) = p_sent p"
  "p_waits (handle_timeout p) = List.map (\<lambda>(h, _). (h, True)) (p_waits p) @ [(Start_send, False)]"
  by (simp_all add: handle_timeout_def async_wait_def expires_at_def timer_cancel_def Let_def)

lemma run_wait_inv:
  assumes inv: "ping_inv pid before p" and w: "p_waits p = xs @ (h, c) # ys"
    and t: "c \<or> p_expiry p \<le> now" "before \<le> now"
  shows "ping_inv pid now (run_wait pid h now (p\<lparr>p_waits := xs @ ys\<rparr>))"
proof -
  have e: "xs = []" "ys = []" using inv w by (auto simp: ping_inv_def append_eq_Cons_conv)
  show ?thesis
  proof (cases h)
    case Handle_timeout
    then have c: "c \<longrightarrow> p_num_replies p > 0" "p_expiry p = p_time_sent p + 5000"
      using inv w e by (auto simp: ping_inv_def)
    then have "p_num_replies p = 0 \<longrightarrow> p_time_sent p + 1000 \<le> now" using t by auto
    then show ?thesis using inv t(2) unfolding Handle_timeout e
      by (simp add: ping_inv_def) (auto intro: exI [of _ False])
  next
    case Start_send
    then have "c \<or> p_num_replies p = 0 \<longrightarrow> p_time_sent p + 1000 \<le> before" "p_expiry p = p_time_sent p + 1000"
      using inv w e by (auto simp: ping_inv_def)
    then have "p_time_sent p + 1000 \<le> now" using t by auto
    then show ?thesis
      using inv unfolding Start_send e run_wait.simps ping_inv_def
      by (intro start_send_inv [unfolded ping_inv_def]) auto
  qed
qed

lemma handle_receive_inv:
  assumes inv: "ping_inv pid before p" and r: "p_receives p = Suc n" and t: "before \<le> now"
  shows "ping_inv pid now (handle_receive pid now packet (p\<lparr>p_receives := n\<rparr>))"
proof -
  have "n = 0" using inv r by (simp add: ping_inv_def)
  then show ?thesis
    using inv r t
    by (auto simp: ping_inv_def handle_receive_def start_receive_def timer_cancel_def Let_def
        split: prod.splits)
qed

lemma ping_reachable_inv:
  assumes "(ping_step pid)\<^sup>*\<^sup>* (before, pinger_new pid before) (now, p)"
  shows "ping_inv pid now p"
  using assms
proof (induction "(now, p)" arbitrary: now p rule: rtranclp_induct)
  case base
  then show ?case by (simp add: pinger_new_inv)
next
  case (step s)
  then show ?case by (cases s) (auto elim!: ping_stepE intro: run_wait_inv handle_receive_inv)
qed

lemma checksum_ping_packet: "checksum_ok (ping_packet pid k)"
  unfolding ping_packet_def by (rule compute_checksum_ok) simp_all

text \<open>The packets that answer the request with number \<open>seq\<close>.\<close>

definition is_reply :: "16 word \<Rightarrow> 16 word \<Rightarrow> 8 word list \<Rightarrow> bool" where
  "is_reply pid seq d \<longleftrightarrow>
     ipv4_ok d \<and> hlen d + 8 \<le> length d \<and> d ! hlen d = 0
   \<and> decode d (hlen d + 4) (hlen d + 5) = pid \<and> decode d (hlen d + 6) (hlen d + 7) = seq"

lemma not_good_icmp: "\<not> good inp \<Longrightarrow> extract_icmp inp rep = (inp, rep)"
  by (simp add: extract_icmp_def is_read_def)

lemma extract_icmp_good:
  "length d < 8 \<Longrightarrow> \<not> good (fst (extract_icmp \<lparr>good = True, left = d\<rparr> icmp_header_new))"
  "8 \<le> length d \<Longrightarrow> extract_icmp \<lparr>good = True, left = d\<rparr> icmp_header_new = (\<lparr>good = True, left = drop 8 d\<rparr>, take 8 d)"
  by (simp_all add: extract_icmp_def is_read_def min_absorb2)

lemma decode_slice: "i < n \<Longrightarrow> j < n \<Longrightarrow> h + n \<le> length d
    \<Longrightarrow> decode (take n (drop h d)) i j = decode d (h + i) (h + j)"
  by (simp add: decode_def)

text \<open>What the two extractions leave when they both succeed, and when they do.\<close>

lemma extract_both:
  assumes "extract_ipv4 \<lparr>good = True, left = d\<rparr> ipv4_header_new = (inp, ip)"
    and "extract_icmp inp icmp_header_new = (inp', icmp)"
  shows "good inp' \<longleftrightarrow> ipv4_ok d \<and> hlen d + 8 \<le> length d"
    and "good inp' \<Longrightarrow> ip = take (hlen d) d @ replicate (60 - hlen d) 0 \<and> icmp = take 8 (drop (hlen d) d)"
proof -
  have "(good inp' \<longleftrightarrow> ipv4_ok d \<and> hlen d + 8 \<le> length d)
    \<and> (good inp' \<longrightarrow> ip = take (hlen d) d @ replicate (60 - hlen d) 0 \<and> icmp = take 8 (drop (hlen d) d))"
  proof (cases "ipv4_ok d")
    case False
    then have "\<not> good inp"
      using assms(1) extract_ipv4_short [of d] extract_ipv4_long [of d]
      by (cases "length d < 20") (auto simp: ipv4_ok_def split: if_splits)
    then show ?thesis using False assms(2) by (simp add: not_good_icmp)
  next
    case True
    then have i: "inp = \<lparr>good = True, left = drop (hlen d) d\<rparr>" "ip = take (hlen d) d @ replicate (60 - hlen d) 0"
      using assms(1) extract_ipv4_long [of d] by (auto simp: ipv4_ok_def)
    show ?thesis
    proof (cases "hlen d + 8 \<le> length d")
      case True
      then have "8 \<le> length (drop (hlen d) d)" by simp
      from extract_icmp_good(2) [OF this] show ?thesis using True i assms(2) \<open>ipv4_ok d\<close> by auto
    next
      case False
      then have "length (drop (hlen d) d) < 8" using \<open>ipv4_ok d\<close> by (simp add: ipv4_ok_def)
      from extract_icmp_good(1) [OF this] show ?thesis using False i assms(2) by auto
    qed
  qed
  then show "good inp' \<longleftrightarrow> ipv4_ok d \<and> hlen d + 8 \<le> length d"
    "good inp' \<Longrightarrow> ip = take (hlen d) d @ replicate (60 - hlen d) 0 \<and> icmp = take 8 (drop (hlen d) d)"
    by blast+
qed

lemma receive_test:
  assumes "extract_ipv4 \<lparr>good = True, left = d\<rparr> ipv4_header_new = (inp, ip)"
    and "extract_icmp inp icmp_header_new = (inp', icmp)"
  shows "good inp' \<and> icmp_type icmp = echo_reply \<and> icmp_identifier icmp = pid \<and> sequence_number icmp = seq
    \<longleftrightarrow> is_reply pid seq d"
  using extract_both [OF assms]
  by (cases "good inp'")
    (auto simp: is_reply_def field_defs echo_reply_def decode_slice)

lemma receive_fields:
  assumes "extract_ipv4 \<lparr>good = True, left = d\<rparr> ipv4_header_new = (inp, ip)"
    and "extract_icmp inp icmp_header_new = (inp', icmp)" and r: "is_reply pid seq d"
  shows "unat (ipv4_header_length ip) = hlen d" "source_address ip = take 4 (drop 12 d)"
    "time_to_live ip = ucast (d ! 8)" "sequence_number icmp = seq"
proof -
  have g: "good inp'" and seq: "sequence_number icmp = seq" using receive_test [OF assms(1,2)] r by blast+
  show "sequence_number icmp = seq" by (rule seq)
  have ok: "ipv4_ok d" using r by (simp add: is_reply_def)
  have ip: "ip = take (hlen d) d @ replicate (60 - hlen d) 0" using extract_both(2) [OF assms(1,2) g] ..
  have n: "i < 20 \<Longrightarrow> ip ! i = d ! i" for i
    using ok unfolding ip by (simp add: ipv4_ok_def nth_append)
  show "unat (ipv4_header_length ip) = hlen d" by (simp add: unat_header_length n) (simp add: hlen_def)
  show "time_to_live ip = ucast (d ! 8)" by (simp add: time_to_live_def n)
  have "source_address ip = [d ! 12, d ! 13, d ! 14, d ! 15]" by (simp add: source_address_def n)
  also have "\<dots> = take 4 (drop 12 d)"
  proof -
    have "16 \<le> length d" using ok by (simp add: ipv4_ok_def)
    then have "take (Suc (Suc (Suc (Suc 0)))) (drop 12 d) = [d ! 12, d ! 13, d ! 14, d ! 15]"
      by (simp add: take_Suc_conv_app_nth)
    moreover have "(4 :: nat) = Suc (Suc (Suc (Suc 0)))" by simp
    ultimately show ?thesis by metis
  qed
  finally show "source_address ip = take 4 (drop 12 d)" .
qed

section \<open>Properties\<close>

text \<open>
  C16. In every reachable state of the pinger exactly one wait and one receive are outstanding,
  whatever packets arrive and however long the handlers are delayed; the packets it has sent are
  the echo requests number 1, 2, 3, ... with a valid checksum, and any two of them are at least
  one second apart.
\<close>

theorem ping_requests_spaced:
  assumes "(ping_step pid)\<^sup>*\<^sup>* (before, pinger_new pid before) (now, p)"
  shows "length (p_waits p) = 1 \<and> p_receives p = 1
    \<and> List.map snd (p_sent p) = List.map (\<lambda>k. ping_packet pid (Suc k)) [0..<length (p_sent p)]
    \<and> list_all (\<lambda>(t, packet). checksum_ok packet) (p_sent p)
    \<and> successively (\<lambda>a b. a + 1000 \<le> b) (List.map fst (p_sent p))"
proof -
  have inv: "ping_inv pid now p" using ping_reachable_inv [OF assms] .
  then have s: "List.map snd (p_sent p) = List.map (\<lambda>k. ping_packet pid (Suc k)) [0..<length (p_sent p)]"
    by (simp add: ping_inv_def)
  have "list_all checksum_ok (List.map snd (p_sent p))"
    unfolding s by (simp add: list_all_iff checksum_ping_packet)
  then have "list_all (\<lambda>(t, packet). checksum_ok packet) (p_sent p)"
    by (simp add: list_all_iff split_beta)
  then show ?thesis using inv s by (auto simp: ping_inv_def)
qed

theorem ping_requests_spaced_witness:
  "length (p_waits (start_send 7 9000 ((run_wait 7 Handle_timeout 5000 ((pinger_new 7 0)\<lparr>p_waits := []\<rparr>))\<lparr>p_waits := []\<rparr>))) = 1
   \<and> successively (\<lambda>a b. a + 1000 \<le> b)
      (List.map fst (p_sent (start_send 7 9000 ((run_wait 7 Handle_timeout 5000 ((pinger_new 7 0)\<lparr>p_waits := []\<rparr>))\<lparr>p_waits := []\<rparr>))))"
proof -
  let ?p1 = "run_wait 7 Handle_timeout 5000 ((pinger_new 7 0)\<lparr>p_waits := []\<rparr>)"
  have w: "p_waits (pinger_new 7 0) = [(Handle_timeout, False)]" "p_expiry (pinger_new 7 0) = 5000"
    by (simp_all add: pinger_new_def start_receive_def)
  have "ping_step 7 (0, pinger_new 7 0) (5000, ?p1)"
    using ping_step.wait_completes [of "pinger_new 7 0" "[]" Handle_timeout False "[]" 5000 0 7] w by simp
  moreover have "ping_step 7 (5000, ?p1) (9000, run_wait 7 Start_send 9000 (?p1\<lparr>p_waits := []\<rparr>))"
    using ping_step.wait_completes [of ?p1 "[]" Start_send False "[]" 9000 5000 7]
    by (simp add: pinger_new_def start_receive_def)
  ultimately have "(ping_step 7)\<^sup>*\<^sup>* (0, pinger_new 7 0) (9000, start_send 7 9000 (?p1\<lparr>p_waits := []\<rparr>))"
    by simp
  from ping_requests_spaced [OF this] show ?thesis by blast
qed

text \<open>
  C25. The pinger reports exactly the packets that are IPv4 packets with a complete header, options
  included, followed by an ICMP echo reply to its latest request; it reports the length, the source
  address and the time to live of that packet, it stops the five second timer at the first one
  only, it ignores every other packet, truncated ones included, and it always receives again.
\<close>

theorem ping_accepts_replies:
  fixes p :: pinger
  defines "seq \<equiv> p_sequence_number p"
  shows "p_out (handle_receive pid now packet p) = p_out p @
      (if is_reply pid seq packet
       then [Reply (length packet - hlen packet) (take 4 (drop 12 packet)) seq (ucast (packet ! 8)) (now - p_time_sent p)]
       else [])
    \<and> p_num_replies (handle_receive pid now packet p) = p_num_replies p + (if is_reply pid seq packet then 1 else 0)
    \<and> p_waits (handle_receive pid now packet p) =
        (if is_reply pid seq packet \<and> p_num_replies p = 0 then List.map (\<lambda>(h, _). (h, True)) (p_waits p) else p_waits p)
    \<and> p_receives (handle_receive pid now packet p) = Suc (p_receives p)"
proof -
  obtain inp ip where e4: "extract_ipv4 \<lparr>good = True, left = packet\<rparr> ipv4_header_new = (inp, ip)" by fastforce
  obtain inp' icmp where e: "extract_icmp inp icmp_header_new = (inp', icmp)" by fastforce
  note test = receive_test [OF e4 e, of pid seq]
  show ?thesis
  proof (cases "is_reply pid seq packet")
    case True
    note f = receive_fields [OF e4 e True]
    have "good inp'" "icmp_type icmp = echo_reply" "icmp_identifier icmp = pid"
      using test True by blast+
    then show ?thesis
      using True by (simp add: handle_receive_def e4 e f seq_def start_receive_def timer_cancel_def Let_def)
  next
    case False
    then show ?thesis
      using test by (auto simp: handle_receive_def e4 e seq_def start_receive_def Let_def)
  qed
qed

end
