(* ===== verification/Node_Heap.thy ===== *)
theory Node_Heap
  imports Main
begin

text \<open>
  Linked nodes on a heap, as the queues of \<open>cpp-concurrency-in-action\<close> use them, and the contract
  of a first-in first-out queue. An operation returns, blocks its caller, or does something the
  language leaves undefined, such as following a null or a dangling pointer.
\<close>

section \<open>Outcomes\<close>

datatype 'r outcome = Returns 'r | Blocks | Undefined

fun and_then :: "'r outcome \<Rightarrow> ('r \<Rightarrow> 's outcome) \<Rightarrow> 's outcome" where
  "and_then (Returns r) f = f r"
| "and_then Blocks f = Blocks"
| "and_then Undefined f = Undefined"

section \<open>Nodes\<close>

text \<open>
  A node holds a shared pointer to its value (null in a node without data) and the owning pointer
  to the next node. Addresses are numbers; a freed address is undefined in the heap.
\<close>

record 'a node =
  node_data :: "'a option"
  node_next :: "nat option"

type_synonym 'a heap = "nat \<Rightarrow> 'a node option"

definition blank :: "'a node" where
  "blank = \<lparr>node_data = None, node_next = None\<rparr>"

definition deref :: "'a heap \<Rightarrow> nat option \<Rightarrow> 'a node outcome" where
  "deref H p = (case p of None \<Rightarrow> Undefined | Some a \<Rightarrow> (case H a of None \<Rightarrow> Undefined | Some n \<Rightarrow> Returns n))"

lemma deref_simps [simp]:
  "deref H None = Undefined" "H a = Some n \<Longrightarrow> deref H (Some a) = Returns n"
  "H a = None \<Longrightarrow> deref H (Some a) = Undefined"
  by (simp_all add: deref_def)

text \<open>The nodes from address \<open>a\<close> to address \<open>t\<close> hold the values \<open>vs\<close>; \<open>t\<close> itself is not among them.\<close>

fun chain :: "'a heap \<Rightarrow> nat \<Rightarrow> 'a list \<Rightarrow> nat \<Rightarrow> bool" where
  "chain H a [] t \<longleftrightarrow> a = t"
| "chain H a (v # vs) t \<longleftrightarrow>
     a \<noteq> t \<and> (\<exists>n. H a = Some \<lparr>node_data = Some v, node_next = Some n\<rparr> \<and> chain H n vs t)"

lemma chain_unique: "chain H a vs t \<Longrightarrow> chain H a ws t \<Longrightarrow> vs = ws"
proof (induction vs arbitrary: a ws)
  case Nil
  then show ?case by (cases ws) auto
next
  case (Cons v vs)
  then obtain w ws' where "ws = w # ws'" by (cases ws) auto
  then show ?case using Cons by auto
qed

text \<open>An update at the end of the chain, or at a node without data or successor, does not change it.\<close>

lemma chain_update_end: "chain H a vs t \<Longrightarrow> chain (H(t := x)) a vs t"
  by (induction vs arbitrary: a) auto

lemma chain_update_other:
  "chain H a vs t \<Longrightarrow> (\<And>n. H b = Some n \<Longrightarrow> node_data n = None \<or> node_next n = None)
    \<Longrightarrow> chain (H(b := x)) a vs t"
proof (induction vs arbitrary: a)
  case (Cons v vs)
  then obtain n where "H a = Some \<lparr>node_data = Some v, node_next = Some n\<rparr>" "chain H n vs t" "a \<noteq> t" by auto
  moreover from this have "a \<noteq> b" using Cons.prems(2) by fastforce
  ultimately show ?case using Cons by simp
qed simp

text \<open>The first node of a chain does not occur later in it, so it can be freed.\<close>

lemma chain_suffix:
  "chain H a vs t \<Longrightarrow> b \<noteq> t \<Longrightarrow> \<not> chain (H(b := x)) a vs t \<Longrightarrow> \<exists>ws. length ws \<le> length vs \<and> chain H b ws t"
proof (induction vs arbitrary: a)
  case (Cons v vs)
  then obtain n where n: "H a = Some \<lparr>node_data = Some v, node_next = Some n\<rparr>" "chain H n vs t" "a \<noteq> t" by auto
  show ?case
  proof (cases "a = b")
    case True
    then show ?thesis using Cons.prems(1) by (intro exI [of _ "v # vs"]) simp
  next
    case False
    then have "\<not> chain (H(b := x)) n vs t" using Cons.prems(3) n by (auto simp: fun_upd_def)
    from Cons.IH [OF n(2) Cons.prems(2) this] show ?thesis by (auto intro: le_SucI)
  qed
qed simp

lemma chain_free_first:
  assumes "chain H a (v # vs) t" "H a = Some \<lparr>node_data = d, node_next = Some n\<rparr>"
  shows "chain (H(a := x)) n vs t"
proof (rule ccontr)
  assume "\<not> chain (H(a := x)) n vs t"
  moreover have "chain H n vs t" "a \<noteq> t" using assms by auto
  ultimately obtain ws where "length ws \<le> length vs" "chain H a ws t" using chain_suffix by blast
  then show False using chain_unique [OF assms(1)] by fastforce
qed

text \<open>Linking a new node behind the end.\<close>

lemma chain_append:
  assumes "chain H a vs t" "t \<noteq> n" "H n = Some m" "node_data m = None"
    and "H t = Some \<lparr>node_data = Some v, node_next = Some n\<rparr>"
  shows "chain H a (vs @ [v]) n"
  using assms by (induction vs arbitrary: a) auto

section \<open>The contract of a queue\<close>

datatype 'a queue_op = Push 'a | Try_pop

text \<open>The abstract queue is a list; the result of \<open>Try_pop\<close> is null on the empty queue.\<close>

fun spec_op :: "'a queue_op \<Rightarrow> 'a list \<Rightarrow> 'a option \<times> 'a list" where
  "spec_op (Push v) xs = (None, xs @ [v])"
| "spec_op Try_pop [] = (None, [])"
| "spec_op Try_pop (x # xs) = (Some x, xs)"

fun spec_run :: "'a queue_op list \<Rightarrow> 'a list \<Rightarrow> 'a option list" where
  "spec_run [] xs = []"
| "spec_run (op # ops) xs = (let (r, xs) = spec_op op xs in r # spec_run ops xs)"

text \<open>Any implementation, from its \<open>push\<close> and \<open>try_pop\<close>.\<close>

fun impl_op :: "('a \<Rightarrow> 's \<Rightarrow> 's outcome) \<Rightarrow> ('s \<Rightarrow> ('a option \<times> 's) outcome) \<Rightarrow> 'a queue_op \<Rightarrow> 's
    \<Rightarrow> ('a option \<times> 's) outcome" where
  "impl_op push pop (Push v) s = and_then (push v s) (\<lambda>s. Returns (None, s))"
| "impl_op push pop Try_pop s = pop s"

fun impl_run :: "('a \<Rightarrow> 's \<Rightarrow> 's outcome) \<Rightarrow> ('s \<Rightarrow> ('a option \<times> 's) outcome) \<Rightarrow> 'a queue_op list \<Rightarrow> 's
    \<Rightarrow> 'a option list outcome" where
  "impl_run push pop [] s = Returns []"
| "impl_run push pop (op # ops) s =
     and_then (impl_op push pop op s) (\<lambda>(r, s). and_then (impl_run push pop ops s) (\<lambda>rs. Returns (r # rs)))"

locale fifo =
  fixes new :: 's
    and push :: "'a \<Rightarrow> 's \<Rightarrow> 's outcome"
    and pop :: "'s \<Rightarrow> ('a option \<times> 's) outcome"
    and rep :: "'s \<Rightarrow> 'a list \<Rightarrow> bool"
  assumes new_rep: "rep new []"
    and push_rep: "rep s xs \<Longrightarrow> \<exists>s'. push v s = Returns s' \<and> rep s' (xs @ [v])"
    and pop_rep: "rep s xs \<Longrightarrow> \<exists>s'. pop s = Returns (fst (spec_op Try_pop xs), s') \<and> rep s' (snd (spec_op Try_pop xs))"
begin

lemma op_rep: "rep s xs \<Longrightarrow> \<exists>s'. impl_op push pop op s = Returns (fst (spec_op op xs), s') \<and> rep s' (snd (spec_op op xs))"
proof (cases op)
  case (Push v)
  then show "rep s xs \<Longrightarrow> ?thesis" using push_rep [of s xs v] by auto
next
  case Try_pop
  then show "rep s xs \<Longrightarrow> ?thesis" using pop_rep [of s xs] by simp
qed

lemma run_rep: "rep s xs \<Longrightarrow> impl_run push pop ops s = Returns (spec_run ops xs)"
proof (induction ops arbitrary: s xs)
  case (Cons op ops)
  obtain s' where "impl_op push pop op s = Returns (fst (spec_op op xs), s')" "rep s' (snd (spec_op op xs))"
    using op_rep [OF Cons.prems] by blast
  then show ?case using Cons.IH by (simp add: split_beta Let_def)
qed simp

lemma run_new: "impl_run push pop ops new = Returns (spec_run ops [])"
  by (rule run_rep) (rule new_rep)

end

end
