(* ===== verification/Simple_Queue.thy ===== *)
theory Simple_Queue
  imports Node_Heap
begin

text \<open>
  The first four queues of \<open>cpp-concurrency-in-action/6.lock_based/threadsafe_queue.hpp\<close> (the same
  classes are in \<open>9.thread_pool/queue.hpp\<close>), one operation at a time; \<open>Queue_Threads\<close> has the
  interleavings.
\<close>

section \<open>\<open>threadsafe_queue_old\<close>: a \<open>std::queue\<close> under one mutex\<close>

type_synonym 'a old_queue = "'a list"

definition old_new :: "'a old_queue" where
  "old_new = []"

definition old_push :: "'a \<Rightarrow> 'a old_queue \<Rightarrow> 'a old_queue outcome" where
  "old_push value q = Returns (q @ [value])"

definition old_wait_and_pop :: "'a old_queue \<Rightarrow> ('a \<times> 'a old_queue) outcome" where
  "old_wait_and_pop q = (if q = [] then Blocks else Returns (hd q, tl q))"

definition old_try_pop :: "'a old_queue \<Rightarrow> ('a option \<times> 'a old_queue) outcome" where
  "old_try_pop q = (if q = [] then Returns (None, q) else Returns (Some (hd q), tl q))"

text \<open>\<open>try_pop(T&)\<close> ends without a return statement after it popped a value.\<close>

definition old_try_pop_ref :: "'a \<Rightarrow> 'a old_queue \<Rightarrow> (bool \<times> 'a \<times> 'a old_queue) outcome" where
  "old_try_pop_ref value q = (if q = [] then Returns (False, value, q) else Undefined)"

definition old_empty :: "'a old_queue \<Rightarrow> bool" where
  "old_empty q \<longleftrightarrow> q = []"

lemma old_try_pop_spec: "old_try_pop q = Returns (spec_op Try_pop q)"
  by (cases q) (simp_all add: old_try_pop_def)

interpretation old: fifo old_new old_push old_try_pop "\<lambda>q xs. q = xs"
  by unfold_locales (simp_all add: old_new_def old_push_def old_try_pop_spec)

section \<open>Queues of nodes\<close>

record 'a node_queue =
  q_heap :: "'a heap"
  q_head :: "nat option"
  q_tail :: "nat option"
  q_fresh :: nat

text \<open>\<open>new node\<close>, at the next address that was never used.\<close>

definition alloc :: "'a node \<Rightarrow> 'a node_queue \<Rightarrow> nat \<times> 'a node_queue" where
  "alloc n q = (q_fresh q, q\<lparr>q_heap := (q_heap q)(q_fresh q \<mapsto> n), q_fresh := Suc (q_fresh q)\<rparr>)"

definition free_node :: "nat option \<Rightarrow> 'a node_queue \<Rightarrow> 'a node_queue" where
  "free_node p q = (case p of None \<Rightarrow> q | Some a \<Rightarrow> q\<lparr>q_heap := (q_heap q)(a := None)\<rparr>)"

text \<open>An assignment through a pointer.\<close>

definition store :: "nat option \<Rightarrow> ('a node \<Rightarrow> 'a node) \<Rightarrow> 'a node_queue \<Rightarrow> 'a node_queue outcome" where
  "store p f q = and_then (deref (q_heap q) p) (\<lambda>n. Returns (q\<lparr>q_heap := (q_heap q)(the p \<mapsto> f n)\<rparr>))"

section \<open>\<open>simple_queue\<close>\<close>

text \<open>The constructor leaves \<open>_tail\<close> uninitialised: \<open>garbage\<close> is what it holds.\<close>

definition simple_new :: "nat option \<Rightarrow> 'a node_queue" where
  "simple_new garbage = \<lparr>q_heap = (\<lambda>_. None), q_head = None, q_tail = garbage, q_fresh = 0\<rparr>"

definition simple_try_pop :: "'a node_queue \<Rightarrow> ('a option \<times> 'a node_queue) outcome" where
  "simple_try_pop q =
     (if q_head q = None then Returns (None, q)
      else and_then (deref (q_heap q) (q_head q)) (\<lambda>n.
        let ptr = node_data n;
            old = q_head q;
            q = q\<lparr>q_head := node_next n\<rparr>
        in Returns (ptr, free_node old q)))"

definition simple_push :: "'a \<Rightarrow> 'a node_queue \<Rightarrow> 'a node_queue outcome" where
  "simple_push value q =
     (let (new_tail, q) = alloc \<lparr>node_data = Some value, node_next = None\<rparr> q
      in and_then
           (if q_tail q \<noteq> None then store (q_tail q) (\<lambda>n. n\<lparr>node_next := Some new_tail\<rparr>) q
            else Returns (q\<lparr>q_head := Some new_tail\<rparr>))
           (\<lambda>q. Returns (q\<lparr>q_tail := Some new_tail\<rparr>)))"

section \<open>\<open>simple_queue_dummy\<close>\<close>

definition dummy_new :: "'a node_queue" where
  "dummy_new = \<lparr>q_heap = [0 \<mapsto> blank], q_head = Some 0, q_tail = Some 0, q_fresh = 1\<rparr>"

definition dummy_try_pop :: "'a node_queue \<Rightarrow> ('a option \<times> 'a node_queue) outcome" where
  "dummy_try_pop q =
     (if q_head q = q_tail q then Returns (None, q)
      else and_then (deref (q_heap q) (q_head q)) (\<lambda>n.
        let ptr = node_data n;
            old = q_head q;
            q = q\<lparr>q_head := node_next n\<rparr>
        in Returns (ptr, free_node old q)))"

text \<open>The value goes to the current dummy node, and a new dummy node is linked behind it.\<close>

definition dummy_push :: "'a \<Rightarrow> 'a node_queue \<Rightarrow> 'a node_queue outcome" where
  "dummy_push value q =
     (let (new_tail, q) = alloc blank q
      in and_then (store (q_tail q) (\<lambda>n. n\<lparr>node_data := Some value\<rparr>) q) (\<lambda>q.
         and_then (store (q_tail q) (\<lambda>n. n\<lparr>node_next := Some new_tail\<rparr>) q) (\<lambda>q.
         Returns (q\<lparr>q_tail := Some new_tail\<rparr>))))"

section \<open>\<open>threadsafe_queue66\<close>\<close>

definition q66_new :: "'a node_queue" where
  "q66_new = \<lparr>q_heap = [0 \<mapsto> blank], q_head = Some 0, q_tail = Some 0, q_fresh = 1\<rparr>"

definition q66_get_tail :: "'a node_queue \<Rightarrow> nat option" where
  "q66_get_tail q = q_tail q"

text \<open>The popped node, now owned by the caller and without its successor; null on the empty queue.\<close>

definition q66_pop_head :: "'a node_queue \<Rightarrow> (nat option \<times> 'a node_queue) outcome" where
  "q66_pop_head q =
     (if q_head q = q66_get_tail q then Returns (None, q)
      else let old = q_head q
        in and_then (deref (q_heap q) old) (\<lambda>n.
           and_then (store old (\<lambda>n. n\<lparr>node_next := None\<rparr>) q) (\<lambda>q.
           Returns (old, q\<lparr>q_head := node_next n\<rparr>))))"

definition q66_try_pop :: "'a node_queue \<Rightarrow> ('a option \<times> 'a node_queue) outcome" where
  "q66_try_pop q =
     and_then (q66_pop_head q) (\<lambda>(old, q).
       if old \<noteq> None then and_then (deref (q_heap q) old) (\<lambda>n. Returns (node_data n, free_node old q))
       else Returns (None, q))"

definition q66_push :: "'a \<Rightarrow> 'a node_queue \<Rightarrow> 'a node_queue outcome" where
  "q66_push value q =
     (let ptr = Some value;
          (new_tail, q) = alloc blank q
      in and_then (store (q_tail q) (\<lambda>n. n\<lparr>node_data := ptr\<rparr>) q) (\<lambda>q.
         and_then (store (q_tail q) (\<lambda>n. n\<lparr>node_next := Some new_tail\<rparr>) q) (\<lambda>q.
         Returns (q\<lparr>q_tail := Some new_tail\<rparr>))))"

section \<open>The representation\<close>

text \<open>The nodes from \<open>_head\<close> to \<open>_tail\<close> hold the values, \<open>_tail\<close> is the blank dummy node.\<close>

definition queue_rep :: "'a node_queue \<Rightarrow> 'a list \<Rightarrow> bool" where
  "queue_rep q xs \<longleftrightarrow>
     (\<exists>h t. q_head q = Some h \<and> q_tail q = Some t \<and> q_heap q t = Some blank \<and> chain (q_heap q) h xs t)
   \<and> (\<forall>a. q_heap q a \<noteq> None \<longrightarrow> a < q_fresh q)"

lemma dummy_new_rep: "queue_rep dummy_new []"
  by (simp add: queue_rep_def dummy_new_def)

lemma dummy_push_rep:
  assumes "queue_rep q xs"
  obtains q' where "dummy_push v q = Returns q'" "queue_rep q' (xs @ [v])"
proof -
  let ?n = "q_fresh q"
  obtain h t where q: "q_head q = Some h" "q_tail q = Some t" "q_heap q t = Some blank"
      "chain (q_heap q) h xs t" and fresh: "\<And>a. q_heap q a \<noteq> None \<Longrightarrow> a < ?n"
    using assms by (auto simp: queue_rep_def)
  have t: "t < ?n" using fresh [of t] q by simp
  have n: "q_heap q ?n = None" using fresh [of ?n] by (cases "q_heap q ?n") auto
  define H where "H = (q_heap q)(?n \<mapsto> blank, t \<mapsto> \<lparr>node_data = Some v, node_next = Some ?n\<rparr>)"
  have push: "dummy_push v q = Returns (q\<lparr>q_heap := H, q_fresh := Suc ?n, q_tail := Some ?n\<rparr>)"
    using q t by (simp add: dummy_push_def alloc_def store_def H_def blank_def)
  have "chain ((q_heap q)(?n \<mapsto> blank)) h xs t"
    by (rule chain_update_other [OF q(4)]) (simp add: n)
  then have "chain H h xs t" unfolding H_def by (rule chain_update_end)
  then have "chain H h (xs @ [v]) ?n"
    using t by (intro chain_append [of H h xs t ?n blank]) (simp_all add: H_def blank_def)
  moreover have "a < Suc ?n" if "H a \<noteq> None" for a
    using that fresh [of a] t by (auto simp: H_def split: if_splits)
  ultimately have "queue_rep (q\<lparr>q_heap := H, q_fresh := Suc ?n, q_tail := Some ?n\<rparr>) (xs @ [v])"
    using q t by (auto simp: queue_rep_def) (simp_all add: H_def)
  with push show thesis by (rule that)
qed

lemma dummy_pop_rep:
  assumes "queue_rep q xs"
  obtains q' where "dummy_try_pop q = Returns (fst (spec_op Try_pop xs), q')" "queue_rep q' (snd (spec_op Try_pop xs))"
proof -
  obtain h t where q: "q_head q = Some h" "q_tail q = Some t" "q_heap q t = Some blank"
      "chain (q_heap q) h xs t" and fresh: "\<And>a. q_heap q a \<noteq> None \<Longrightarrow> a < q_fresh q"
    using assms by (auto simp: queue_rep_def)
  show thesis
  proof (cases xs)
    case Nil
    then show ?thesis using q assms by (intro that) (simp_all add: dummy_try_pop_def)
  next
    case (Cons x ys)
    then obtain n where n: "q_heap q h = Some \<lparr>node_data = Some x, node_next = Some n\<rparr>" "h \<noteq> t"
      using q by auto
    define q' where "q' = q\<lparr>q_head := Some n, q_heap := (q_heap q)(h := None)\<rparr>"
    have "dummy_try_pop q = Returns (Some x, q')"
      using q n by (simp add: dummy_try_pop_def free_node_def q'_def)
    moreover have "chain ((q_heap q)(h := None)) n ys t"
      using chain_free_first [OF q(4) [unfolded Cons] n(1)] .
    then have "queue_rep q' ys" using q n fresh by (auto simp: queue_rep_def q'_def)
    ultimately show ?thesis by (intro that) (simp_all add: Cons)
  qed
qed

interpretation dummy: fifo dummy_new dummy_push dummy_try_pop queue_rep
  by unfold_locales (metis dummy_new_rep dummy_push_rep dummy_pop_rep)+

text \<open>The queue with the two mutexes does the same, node by node.\<close>

lemma q66_push_eq: "q66_push v q = dummy_push v q"
  by (simp add: q66_push_def dummy_push_def)

lemma q66_pop_eq: "q66_try_pop q = dummy_try_pop q"
proof (cases "deref (q_heap q) (q_head q)")
  case (Returns n)
  then obtain h where "q_head q = Some h" "q_heap q h = Some n"
    by (auto simp: deref_def split: option.splits)
  then show ?thesis
    by (simp add: q66_try_pop_def q66_pop_head_def q66_get_tail_def dummy_try_pop_def store_def free_node_def)
next
  case Blocks
  then show ?thesis by (auto simp: deref_def split: option.splits)
next
  case Undefined
  then show ?thesis by (simp add: q66_try_pop_def q66_pop_head_def q66_get_tail_def dummy_try_pop_def Let_def)
qed

interpretation q66: fifo q66_new q66_push q66_try_pop queue_rep
  by unfold_locales
    (use dummy.new_rep dummy.push_rep dummy.pop_rep in \<open>simp_all add: q66_push_eq q66_pop_eq q66_new_def dummy_new_def\<close>)

end
