(* ===== verification/Threadsafe_Queue.thy ===== *)
theory Threadsafe_Queue
  imports Simple_Queue
begin

text \<open>
  \<open>threadsafe_queue\<close> of \<open>cpp-concurrency-in-action/6.lock_based/threadsafe_queue.hpp\<close>, one
  operation at a time, and what the queues of that file have in common: they return what a
  first-in first-out list returns. \<open>simple_queue\<close> does not.
\<close>

section \<open>\<open>threadsafe_queue\<close>\<close>

definition tsq_new :: "'a node_queue" where
  "tsq_new = \<lparr>q_heap = [0 \<mapsto> blank], q_head = Some 0, q_tail = Some 0, q_fresh = 1\<rparr>"

definition get_tail :: "'a node_queue \<Rightarrow> nat option" where
  "get_tail q = q_tail q"

definition pop_head :: "'a node_queue \<Rightarrow> (nat option \<times> 'a node_queue) outcome" where
  "pop_head q =
     (let old = q_head q
      in and_then (deref (q_heap q) old) (\<lambda>n.
         and_then (store old (\<lambda>n. n\<lparr>node_next := None\<rparr>) q) (\<lambda>q.
         Returns (old, q\<lparr>q_head := node_next n\<rparr>))))"

text \<open>The condition variable: the caller blocks while the queue is empty.\<close>

definition wait_for_data :: "'a node_queue \<Rightarrow> unit outcome" where
  "wait_for_data q = (if q_head q \<noteq> get_tail q then Returns () else Blocks)"

text \<open>\<open>value = std::move(*_head->data)\<close>\<close>

definition head_value :: "'a node_queue \<Rightarrow> 'a outcome" where
  "head_value q = and_then (deref (q_heap q) (q_head q)) (\<lambda>n.
     case node_data n of None \<Rightarrow> Undefined | Some v \<Rightarrow> Returns v)"

definition wait_pop_head :: "'a node_queue \<Rightarrow> (nat option \<times> 'a node_queue) outcome" where
  "wait_pop_head q = and_then (wait_for_data q) (\<lambda>_. pop_head q)"

definition wait_pop_head_ref :: "'a node_queue \<Rightarrow> (nat option \<times> 'a \<times> 'a node_queue) outcome" where
  "wait_pop_head_ref q = and_then (wait_for_data q) (\<lambda>_.
     and_then (head_value q) (\<lambda>value. and_then (pop_head q) (\<lambda>(old, q). Returns (old, value, q))))"

definition try_pop_head :: "'a node_queue \<Rightarrow> (nat option \<times> 'a node_queue) outcome" where
  "try_pop_head q = (if q_head q = get_tail q then Returns (None, q) else pop_head q)"

definition try_pop_head_ref :: "'a \<Rightarrow> 'a node_queue \<Rightarrow> (nat option \<times> 'a \<times> 'a node_queue) outcome" where
  "try_pop_head_ref value q =
     (if q_head q = get_tail q then Returns (None, value, q)
      else and_then (head_value q) (\<lambda>value. and_then (pop_head q) (\<lambda>(old, q). Returns (old, value, q))))"

definition wait_and_pop :: "'a node_queue \<Rightarrow> ('a option \<times> 'a node_queue) outcome" where
  "wait_and_pop q = and_then (wait_pop_head q) (\<lambda>(old, q).
     and_then (deref (q_heap q) old) (\<lambda>n. Returns (node_data n, free_node old q)))"

definition wait_and_pop_ref :: "'a node_queue \<Rightarrow> ('a \<times> 'a node_queue) outcome" where
  "wait_and_pop_ref q = and_then (wait_pop_head_ref q) (\<lambda>(old, value, q). Returns (value, free_node old q))"

definition try_pop :: "'a node_queue \<Rightarrow> ('a option \<times> 'a node_queue) outcome" where
  "try_pop q = and_then (try_pop_head q) (\<lambda>(old, q).
     if old \<noteq> None then and_then (deref (q_heap q) old) (\<lambda>n. Returns (node_data n, free_node old q))
     else Returns (None, q))"

definition try_pop_ref :: "'a \<Rightarrow> 'a node_queue \<Rightarrow> (bool \<times> 'a \<times> 'a node_queue) outcome" where
  "try_pop_ref value q = and_then (try_pop_head_ref value q) (\<lambda>(old, value, q).
     Returns (old \<noteq> None, value, free_node old q))"

definition push :: "'a \<Rightarrow> 'a node_queue \<Rightarrow> 'a node_queue outcome" where
  "push value q =
     (let ptr = Some value;
          (new_tail, q) = alloc blank q
      in and_then (store (q_tail q) (\<lambda>n. n\<lparr>node_data := ptr\<rparr>) q) (\<lambda>q.
         and_then (store (q_tail q) (\<lambda>n. n\<lparr>node_next := Some new_tail\<rparr>) q) (\<lambda>q.
         Returns (q\<lparr>q_tail := Some new_tail\<rparr>))))"

definition is_empty :: "'a node_queue \<Rightarrow> bool" where
  "is_empty q \<longleftrightarrow> q_head q = get_tail q"

section \<open>It is a queue\<close>

lemma tsq_push_eq: "push v q = dummy_push v q"
  by (simp add: push_def dummy_push_def)

lemma tsq_try_pop_eq: "try_pop q = q66_try_pop q"
  by (simp add: try_pop_def try_pop_head_def pop_head_def get_tail_def q66_try_pop_def q66_pop_head_def
      q66_get_tail_def Let_def)

interpretation tsq: fifo tsq_new push try_pop queue_rep
  by unfold_locales
    (use q66.new_rep q66.push_rep q66.pop_rep in
      \<open>simp_all add: tsq_push_eq q66_push_eq tsq_try_pop_eq tsq_new_def q66_new_def\<close>)

text \<open>The state of a queue, seen from its first node.\<close>

lemma rep_empty: "queue_rep q xs \<Longrightarrow> q_head q = q_tail q \<longleftrightarrow> xs = []"
  by (cases xs) (auto simp: queue_rep_def)

lemma rep_ConsE:
  assumes "queue_rep q (x # ys)"
  obtains h n where "q_head q = Some h" "q_heap q h = Some \<lparr>node_data = Some x, node_next = Some n\<rparr>"
    "q_head q \<noteq> q_tail q"
  using assms by (auto simp: queue_rep_def)

text \<open>The other removals, in terms of \<open>try_pop\<close>.\<close>

lemma wait_and_pop_rep:
  assumes "queue_rep q xs"
  shows "wait_and_pop q = (if xs = [] then Blocks else try_pop q)"
proof (cases xs)
  case Nil
  then show ?thesis
    using rep_empty [OF assms] by (simp add: wait_and_pop_def wait_pop_head_def wait_for_data_def get_tail_def)
next
  case (Cons x ys)
  then show ?thesis
    using assms by (auto elim!: rep_ConsE simp: wait_and_pop_def wait_pop_head_def wait_for_data_def
        try_pop_def try_pop_head_def get_tail_def pop_head_def store_def)
qed

lemma ref_rep:
  assumes "queue_rep q (x # ys)"
  shows "wait_and_pop_ref q = and_then (try_pop q) (\<lambda>(r, q). Returns (x, q))"
    "try_pop_ref value q = and_then (try_pop q) (\<lambda>(r, q). Returns (True, x, q))"
  using assms
  by (elim rep_ConsE, simp add: wait_and_pop_ref_def wait_pop_head_ref_def wait_for_data_def head_value_def
      try_pop_ref_def try_pop_head_ref_def try_pop_def try_pop_head_def get_tail_def pop_head_def store_def)+

section \<open>\<open>simple_queue\<close>\<close>

text \<open>
  Once its last element is popped, \<open>_tail\<close> still points to the deleted node. The reference below
  says for which sequences of operations that matters: \<open>emptied\<close> holds after a pop of the last
  element.
\<close>

fun simple_spec :: "bool \<Rightarrow> 'a queue_op list \<Rightarrow> 'a list \<Rightarrow> 'a option list outcome" where
  "simple_spec emptied [] xs = Returns []"
| "simple_spec emptied (Push v # ops) xs =
     (if emptied then Undefined else and_then (simple_spec False ops (xs @ [v])) (\<lambda>rs. Returns (None # rs)))"
| "simple_spec emptied (Try_pop # ops) [] = and_then (simple_spec emptied ops []) (\<lambda>rs. Returns (None # rs))"
| "simple_spec emptied (Try_pop # ops) (x # xs) =
     and_then (simple_spec (xs = []) ops xs) (\<lambda>rs. Returns (Some x # rs))"

text \<open>The queue that was never filled, the emptied queue, and the queue that holds values.\<close>

definition simple_rep :: "bool \<Rightarrow> 'a node_queue \<Rightarrow> 'a list \<Rightarrow> bool" where
  "simple_rep emptied q xs \<longleftrightarrow>
     (\<forall>a. q_heap q a \<noteq> None \<longrightarrow> a < q_fresh q)
   \<and> (if xs = [] then q_head q = None
          \<and> (if emptied then \<exists>t. q_tail q = Some t \<and> q_heap q t = None \<and> t < q_fresh q else q_tail q = None)
      else \<not> emptied \<and> (\<exists>h t. q_head q = Some h \<and> q_tail q = Some t
          \<and> chain (q_heap q) h (butlast xs) t
          \<and> q_heap q t = Some \<lparr>node_data = Some (last xs), node_next = None\<rparr>))"

lemma chain_in_heap: "chain H a vs t \<Longrightarrow> H t \<noteq> None \<Longrightarrow> H b = None \<Longrightarrow> chain (H(b := x)) a vs t"
  by (induction vs arbitrary: a) auto

lemma simple_push_rep:
  assumes rep: "simple_rep False q xs"
  obtains q' where "simple_push v q = Returns q'" "simple_rep False q' (xs @ [v])"
proof -
  let ?n = "q_fresh q"
  have fresh: "\<And>a. q_heap q a \<noteq> None \<Longrightarrow> a < ?n" using rep by (simp add: simple_rep_def)
  then have fresh': "q_heap q a = Some m \<Longrightarrow> a < Suc ?n" for a m by (simp add: less_SucI)
  have n: "q_heap q ?n = None" using fresh [of ?n] by (cases "q_heap q ?n") auto
  show thesis
  proof (cases "xs = []")
    case True
    define q' where "q' = q\<lparr>q_heap := (q_heap q)(?n \<mapsto> \<lparr>node_data = Some v, node_next = None\<rparr>),
      q_fresh := Suc ?n, q_head := Some ?n, q_tail := Some ?n\<rparr>"
    have "simple_push v q = Returns q'"
      using rep True by (simp add: simple_rep_def simple_push_def alloc_def q'_def)
    moreover have "simple_rep False q' (xs @ [v])"
      using True fresh' by (auto simp: simple_rep_def q'_def)
    ultimately show ?thesis by (rule that)
  next
    case False
    then obtain h t where q: "q_head q = Some h" "q_tail q = Some t" "chain (q_heap q) h (butlast xs) t"
        "q_heap q t = Some \<lparr>node_data = Some (last xs), node_next = None\<rparr>"
      using rep by (auto simp: simple_rep_def)
    have t: "t < ?n" using fresh q by simp
    define H where "H = (q_heap q)(?n \<mapsto> \<lparr>node_data = Some v, node_next = None\<rparr>,
      t \<mapsto> \<lparr>node_data = Some (last xs), node_next = Some ?n\<rparr>)"
    define q' where "q' = q\<lparr>q_heap := H, q_fresh := Suc ?n, q_tail := Some ?n\<rparr>"
    have "simple_push v q = Returns q'"
      using q t by (simp add: simple_push_def alloc_def store_def H_def q'_def)
    moreover have "chain H h xs ?n"
    proof -
      have "chain ((q_heap q)(?n \<mapsto> blank)) h (butlast xs) t"
        by (rule chain_in_heap [OF q(3)]) (simp_all add: q n)
      then have "chain ((q_heap q)(?n \<mapsto> blank, t \<mapsto> \<lparr>node_data = Some (last xs), node_next = Some ?n\<rparr>)) h (butlast xs) t"
        by (rule chain_update_end)
      then have "chain ((q_heap q)(?n \<mapsto> blank, t \<mapsto> \<lparr>node_data = Some (last xs), node_next = Some ?n\<rparr>)) h
          (butlast xs @ [last xs]) ?n"
        using t by (intro chain_append [of _ h "butlast xs" t ?n blank]) (simp_all add: blank_def)
      then have "chain ((q_heap q)(?n \<mapsto> blank, t \<mapsto> \<lparr>node_data = Some (last xs), node_next = Some ?n\<rparr>)) h xs ?n"
        using False by simp
      then have "chain (((q_heap q)(?n \<mapsto> blank, t \<mapsto> \<lparr>node_data = Some (last xs), node_next = Some ?n\<rparr>))
          (?n \<mapsto> \<lparr>node_data = Some v, node_next = None\<rparr>)) h xs ?n"
        by (rule chain_update_end)
      moreover have "((q_heap q)(?n \<mapsto> blank, t \<mapsto> \<lparr>node_data = Some (last xs), node_next = Some ?n\<rparr>))
          (?n \<mapsto> \<lparr>node_data = Some v, node_next = None\<rparr>) = H"
        using t by (auto simp: H_def)
      ultimately show ?thesis by simp
    qed
    then have "simple_rep False q' (xs @ [v])"
      using q t fresh' by (auto simp: simple_rep_def q'_def) (auto simp: H_def split: if_splits)
    ultimately show ?thesis by (intro that)
  qed
qed

lemma simple_push_emptied: "simple_rep True q [] \<Longrightarrow> simple_push v q = Undefined"
  by (auto simp: simple_rep_def simple_push_def alloc_def store_def)

lemma simple_pop_rep:
  assumes rep: "simple_rep emptied q xs"
  obtains q' where "simple_try_pop q = Returns (fst (spec_op Try_pop xs), q')"
    "simple_rep (if xs = [] then emptied else tl xs = []) q' (tl xs)"
proof (cases xs)
  case Nil
  then show ?thesis using rep by (intro that) (simp_all add: simple_try_pop_def simple_rep_def)
next
  case (Cons x ys)
  then obtain h t where q: "q_head q = Some h" "q_tail q = Some t" "chain (q_heap q) h (butlast xs) t"
      "q_heap q t = Some \<lparr>node_data = Some (last xs), node_next = None\<rparr>"
    and fresh: "\<And>a. q_heap q a \<noteq> None \<Longrightarrow> a < q_fresh q"
    using rep by (auto simp: simple_rep_def)
  show ?thesis
  proof (cases "ys = []")
    case True
    then have h: "h = t" "q_heap q h = Some \<lparr>node_data = Some x, node_next = None\<rparr>" using q Cons by auto
    then show ?thesis
      using q fresh Cons True
      by (intro that [of "q\<lparr>q_head := None, q_heap := (q_heap q)(h := None)\<rparr>"])
        (auto simp: simple_try_pop_def free_node_def simple_rep_def)
  next
    case False
    then have b: "butlast xs = x # butlast ys" "last xs = last ys" using Cons by auto
    then obtain n where n: "q_heap q h = Some \<lparr>node_data = Some x, node_next = Some n\<rparr>" "h \<noteq> t"
      using q(3) by auto
    have "chain ((q_heap q)(h := None)) n (butlast ys) t"
      using chain_free_first [OF q(3) [unfolded b] n(1)] .
    then show ?thesis
      using q fresh Cons False n b
      by (intro that [of "q\<lparr>q_head := Some n, q_heap := (q_heap q)(h := None)\<rparr>"])
        (auto simp: simple_try_pop_def free_node_def simple_rep_def)
  qed
qed

lemma simple_run: "simple_rep emptied q xs \<Longrightarrow> impl_run simple_push simple_try_pop ops q = simple_spec emptied ops xs"
proof (induction emptied ops xs arbitrary: q rule: simple_spec.induct)
  case (2 emptied v ops xs)
  show ?case
  proof (cases emptied)
    case True
    then have "xs = []" using "2.prems" by (auto simp: simple_rep_def split: if_splits)
    then show ?thesis using True simple_push_emptied [of q v] "2.prems" by simp
  next
    case False
    with "2.prems" obtain q' where "simple_push v q = Returns q'" "simple_rep False q' (xs @ [v])"
      using simple_push_rep by metis
    then show ?thesis using "2.IH" False by simp
  qed
next
  case (3 emptied ops)
  from simple_pop_rep [OF "3.prems"] obtain q' where "simple_try_pop q = Returns (None, q')"
    "simple_rep emptied q' []" by auto
  then show ?case using "3.IH" by simp
next
  case (4 emptied ops x xs)
  from simple_pop_rep [OF "4.prems"] obtain q' where "simple_try_pop q = Returns (Some x, q')"
    "simple_rep (xs = []) q' xs" by auto
  then show ?case using "4.IH" by simp
qed simp

section \<open>Properties\<close>

text \<open>
  C19. The queues on nodes refine the list: whatever pushes and pops a client performs,
  \<open>threadsafe_queue_old\<close>, \<open>simple_queue_dummy\<close>, \<open>threadsafe_queue66\<close> and \<open>threadsafe_queue\<close>
  return exactly what a first-in first-out list returns, null on the empty queue included, and
  never follow a null or a deleted pointer.
\<close>

theorem queues_refine_fifo:
  "impl_run old_push old_try_pop ops old_new = Returns (spec_run ops [])
   \<and> impl_run dummy_push dummy_try_pop ops dummy_new = Returns (spec_run ops [])
   \<and> impl_run q66_push q66_try_pop ops q66_new = Returns (spec_run ops [])
   \<and> impl_run push try_pop ops tsq_new = Returns (spec_run ops [])"
  by (intro conjI old.run_new dummy.run_new q66.run_new tsq.run_new)

text \<open>
  \<open>simple_queue\<close> is not a queue. Even if its uninitialised \<open>_tail\<close> happens to be null, a push
  after a pop that emptied the queue writes through the pointer to the deleted node, and exactly
  the runs without such a push return what the list returns; if \<open>_tail\<close> happens not to be null,
  already the first push writes through it.
\<close>

theorem simple_queue_runs:
  fixes ops :: "'a queue_op list" and v w :: 'a
  shows "impl_run simple_push simple_try_pop ops (simple_new None) = simple_spec False ops []
   \<and> impl_run simple_push simple_try_pop [Push v, Try_pop, Push w] (simple_new None) = Undefined
   \<and> impl_run simple_push simple_try_pop [Push v] (simple_new (Some (Suc a))) = Undefined"
proof (intro conjI)
  have "simple_rep False (simple_new None) []" by (simp add: simple_rep_def simple_new_def)
  then show *: "impl_run simple_push simple_try_pop ops (simple_new None) = simple_spec False ops []" for ops :: "'a queue_op list"
    by (rule simple_run)
  show "impl_run simple_push simple_try_pop [Push v, Try_pop, Push w] (simple_new None) = Undefined"
    unfolding * by simp
  show "impl_run simple_push simple_try_pop [Push v] (simple_new (Some (Suc a))) = Undefined"
    by (simp add: simple_new_def simple_push_def alloc_def store_def deref_def)
qed

end
