(* ===== verification/Queue_Threads.thy ===== *)
theory Queue_Threads
  imports Node_Heap
begin

text \<open>
  \<open>threadsafe_queue\<close> of \<open>cpp-concurrency-in-action/9.thread_pool/queue.hpp\<close> under any interleaving
  of any number of threads. A step is one action of one thread: taking a mutex, one access to the
  shared nodes, waiting on or notifying the condition variable. Actions that no other thread can
  tell apart from the preceding one (releasing a mutex at the end of a scope) belong to that step.
\<close>

section \<open>Threads\<close>

text \<open>
  Where a thread is in the code. The pop states tell \<open>wait_and_pop\<close> (true) from \<open>try_pop\<close>, and then the
  variants that return the value through a reference (true) from those that return a pointer; once such a
  variant has the value, its state holds it. Values are plain, so moving one is copying it.
\<close>

datatype 'a pc =
    Idle
  | Push_start 'a nat
  | Push_locked 'a nat
  | Push_data 'a nat
  | Push_linked 'a nat
  | Push_notify
  | Pop_start bool bool
  | Pop_locked bool bool
  | Pop_checked bool bool nat
  | Pop_ready bool
  | Pop_valued 'a
  | Pop_moved "'a option" "nat option"
  | Pop_own "'a option" "nat option"
  | Asleep bool
  | Woken bool

text \<open>
  The shared state, the position of every thread, the threads that sleep on the condition
  variable, and the history: the values in the order in which \<open>_tail\<close> moved over them, the pops in
  the order in which \<open>_head\<close> moved, and the results in the order in which the calls returned.
\<close>

record 'a threads =
  t_heap :: "'a heap"
  t_head :: "nat option"
  t_tail :: nat
  t_fresh :: nat
  head_mutex :: "nat option"
  tail_mutex :: "nat option"
  pcs :: "nat \<Rightarrow> 'a pc"
  waiting :: "nat list"
  pushed :: "'a list"
  popped :: "(nat \<times> 'a option) list"
  returned :: "(nat \<times> 'a option) list"

definition goto :: "nat \<Rightarrow> 'a pc \<Rightarrow> 'a threads \<Rightarrow> 'a threads" where
  "goto i pc s = s\<lparr>pcs := (pcs s)(i := pc)\<rparr>"

definition lock_head :: "nat \<Rightarrow> 'a threads \<Rightarrow> 'a threads outcome" where
  "lock_head i s = (if head_mutex s = None then Returns (s\<lparr>head_mutex := Some i\<rparr>) else Blocks)"

definition lock_tail :: "nat \<Rightarrow> 'a threads \<Rightarrow> 'a threads outcome" where
  "lock_tail i s = (if tail_mutex s = None then Returns (s\<lparr>tail_mutex := Some i\<rparr>) else Blocks)"

section \<open>\<open>push\<close>\<close>

text \<open>The value and the new dummy node, before the mutex is taken.\<close>

definition push_enter :: "nat \<Rightarrow> 'a \<Rightarrow> 'a threads \<Rightarrow> 'a threads" where
  "push_enter i value s =
     goto i (Push_start value (t_fresh s)) (s\<lparr>t_heap := (t_heap s)(t_fresh s \<mapsto> blank), t_fresh := Suc (t_fresh s)\<rparr>)"

definition push_set_data :: "nat \<Rightarrow> 'a \<Rightarrow> nat \<Rightarrow> 'a threads \<Rightarrow> 'a threads outcome" where
  "push_set_data i value new_tail s =
     and_then (deref (t_heap s) (Some (t_tail s))) (\<lambda>n.
       Returns (goto i (Push_data value new_tail)
         (s\<lparr>t_heap := (t_heap s)(t_tail s \<mapsto> n\<lparr>node_data := Some value\<rparr>)\<rparr>)))"

definition push_link :: "nat \<Rightarrow> 'a \<Rightarrow> nat \<Rightarrow> 'a threads \<Rightarrow> 'a threads outcome" where
  "push_link i value new_tail s =
     and_then (deref (t_heap s) (Some (t_tail s))) (\<lambda>n.
       Returns (goto i (Push_linked value new_tail)
         (s\<lparr>t_heap := (t_heap s)(t_tail s \<mapsto> n\<lparr>node_next := Some new_tail\<rparr>)\<rparr>)))"

definition push_set_tail :: "nat \<Rightarrow> 'a \<Rightarrow> nat \<Rightarrow> 'a threads \<Rightarrow> 'a threads" where
  "push_set_tail i value new_tail s =
     goto i Push_notify (s\<lparr>t_tail := new_tail, tail_mutex := None, pushed := pushed s @ [value]\<rparr>)"

text \<open>\<open>notify_one\<close> wakes one of the sleeping threads, any of them, if there is one.\<close>

definition notify_one :: "nat \<Rightarrow> 'a threads \<Rightarrow> 'a threads" where
  "notify_one k s =
     (if waiting s = [] then s
      else let w = waiting s ! (k mod length (waiting s))
        in goto w (case pcs s w of Asleep r \<Rightarrow> Woken r | pc \<Rightarrow> pc) (s\<lparr>waiting := remove1 w (waiting s)\<rparr>))"

section \<open>\<open>try_pop\<close> and \<open>wait_and_pop\<close>\<close>

text \<open>\<open>get_tail\<close> takes and releases the tail mutex.\<close>

definition get_tail_step :: "nat \<Rightarrow> bool \<Rightarrow> bool \<Rightarrow> 'a threads \<Rightarrow> 'a threads outcome" where
  "get_tail_step i wait r s =
     (if tail_mutex s = None then Returns (goto i (Pop_checked wait r (t_tail s)) s) else Blocks)"

text \<open>
  The comparison of \<open>_head\<close> with the tail that was read. On the empty queue \<open>try_pop\<close> returns null
  and \<open>wait_for_data\<close> releases the mutex and goes to sleep, which is one atomic action of the
  condition variable.
\<close>

definition wait_for_data_sleep :: "nat \<Rightarrow> bool \<Rightarrow> 'a threads \<Rightarrow> 'a threads" where
  "wait_for_data_sleep i r s = goto i (Asleep r) (s\<lparr>head_mutex := None, waiting := waiting s @ [i]\<rparr>)"

definition try_pop_empty :: "nat \<Rightarrow> 'a threads \<Rightarrow> 'a threads" where
  "try_pop_empty i s = goto i Idle (s\<lparr>head_mutex := None, returned := returned s @ [(i, None)]\<rparr>)"

definition compare_step :: "nat \<Rightarrow> bool \<Rightarrow> bool \<Rightarrow> nat \<Rightarrow> 'a threads \<Rightarrow> 'a threads" where
  "compare_step i wait r t s =
     (if t_head s \<noteq> Some t then goto i (Pop_ready r) s
      else if wait then wait_for_data_sleep i r s
      else try_pop_empty i s)"

text \<open>\<open>value = std::move(*_head->data)\<close>, in the variants with a reference.\<close>

definition take_value :: "nat \<Rightarrow> 'a threads \<Rightarrow> 'a threads outcome" where
  "take_value i s =
     and_then (deref (t_heap s) (t_head s)) (\<lambda>n.
       case node_data n of None \<Rightarrow> Undefined | Some v \<Rightarrow> Returns (goto i (Pop_valued v) s))"

text \<open>\<open>pop_head\<close>: \<open>old = std::move(_head)\<close>, then \<open>_head = std::move(old->next)\<close>.\<close>

definition pop_head_old :: "nat \<Rightarrow> 'a option \<Rightarrow> 'a threads \<Rightarrow> 'a threads" where
  "pop_head_old i value s = goto i (Pop_moved value (t_head s)) (s\<lparr>t_head := None\<rparr>)"

definition pop_head_next :: "nat \<Rightarrow> 'a option \<Rightarrow> nat option \<Rightarrow> 'a threads \<Rightarrow> 'a threads outcome" where
  "pop_head_next i value old s =
     and_then (deref (t_heap s) old) (\<lambda>n.
       Returns (goto i (Pop_own value old)
         (s\<lparr>t_heap := (t_heap s)(the old \<mapsto> n\<lparr>node_next := None\<rparr>), t_head := node_next n,
            head_mutex := None, popped := popped s @ [(i, node_data n)]\<rparr>)))"

text \<open>\<open>return old->data\<close>, or just a return when the caller has the value; the node is deleted.\<close>

definition pop_return :: "nat \<Rightarrow> 'a option \<Rightarrow> nat option \<Rightarrow> 'a threads \<Rightarrow> 'a threads outcome" where
  "pop_return i value old s =
     and_then (deref (t_heap s) old) (\<lambda>n.
       Returns (goto i Idle
         (s\<lparr>t_heap := (t_heap s)(the old := None),
            returned := returned s @ [(i, case value of None \<Rightarrow> node_data n | Some v \<Rightarrow> Some v)]\<rparr>)))"

text \<open>A sleeping thread may wake up spuriously.\<close>

definition wake :: "nat \<Rightarrow> bool \<Rightarrow> 'a threads \<Rightarrow> 'a threads" where
  "wake i r s = goto i (Woken r) (s\<lparr>waiting := remove1 i (waiting s)\<rparr>)"

section \<open>Steps\<close>

datatype 'a call = Call_push 'a | Call_try_pop | Call_wait_and_pop | Call_try_pop_ref | Call_wait_and_pop_ref

text \<open>The next action of thread \<open>i\<close>; \<open>call\<close> and \<open>k\<close> choose what an idle thread calls and whom
  \<open>notify_one\<close> wakes.\<close>

definition advance :: "nat \<Rightarrow> 'a call \<Rightarrow> nat \<Rightarrow> 'a threads \<Rightarrow> 'a threads outcome" where
  "advance i call k s =
     (case pcs s i of
        Idle \<Rightarrow> Returns (case call of
            Call_push v \<Rightarrow> push_enter i v s
          | Call_try_pop \<Rightarrow> goto i (Pop_start False False) s
          | Call_wait_and_pop \<Rightarrow> goto i (Pop_start True False) s
          | Call_try_pop_ref \<Rightarrow> goto i (Pop_start False True) s
          | Call_wait_and_pop_ref \<Rightarrow> goto i (Pop_start True True) s)
      | Push_start v n \<Rightarrow> and_then (lock_tail i s) (\<lambda>s. Returns (goto i (Push_locked v n) s))
      | Push_locked v n \<Rightarrow> push_set_data i v n s
      | Push_data v n \<Rightarrow> push_link i v n s
      | Push_linked v n \<Rightarrow> Returns (push_set_tail i v n s)
      | Push_notify \<Rightarrow> Returns (goto i Idle (notify_one k s))
      | Pop_start wait r \<Rightarrow> and_then (lock_head i s) (\<lambda>s. Returns (goto i (Pop_locked wait r) s))
      | Pop_locked wait r \<Rightarrow> get_tail_step i wait r s
      | Pop_checked wait r t \<Rightarrow> Returns (compare_step i wait r t s)
      | Pop_ready r \<Rightarrow> (if r then take_value i s else Returns (pop_head_old i None s))
      | Pop_valued v \<Rightarrow> Returns (pop_head_old i (Some v) s)
      | Pop_moved value old \<Rightarrow> pop_head_next i value old s
      | Pop_own value old \<Rightarrow> pop_return i value old s
      | Asleep r \<Rightarrow> Returns (wake i r s)
      | Woken r \<Rightarrow> and_then (lock_head i s) (\<lambda>s. Returns (goto i (Pop_locked True r) s)))"

definition threads_new :: "'a threads" where
  "threads_new =
     \<lparr>t_heap = [0 \<mapsto> blank], t_head = Some 0, t_tail = 0, t_fresh = 1, head_mutex = None, tail_mutex = None,
      pcs = (\<lambda>_. Idle), waiting = [], pushed = [], popped = [], returned = []\<rparr>"

inductive q_step :: "'a threads \<Rightarrow> 'a threads \<Rightarrow> bool" where
  q_step: "advance i call k s = Returns s' \<Longrightarrow> q_step s s'"

inductive_cases q_stepE: "q_step s s'"

end
