(* ===== verification/Queue_Invariant.thy ===== *)
theory Queue_Invariant
  imports Queue_Threads
begin

text \<open>
  Invariants of \<open>threadsafe_queue\<close> under interleaving: who holds which mutex, which nodes belong to
  which thread, what the dummy node and the linked nodes hold. First the invariants of single
  threads and pairs of threads with their preservation; \<open>Queue_Safety\<close> has the linked nodes.
\<close>

section \<open>Invariants\<close>

fun holds_head :: "'a pc \<Rightarrow> bool" where
  "holds_head (Pop_locked w r) = True"
| "holds_head (Pop_checked w r t) = True"
| "holds_head (Pop_ready r) = True"
| "holds_head (Pop_valued v) = True"
| "holds_head (Pop_moved tk old) = True"
| "holds_head _ = False"

fun holds_tail :: "'a pc \<Rightarrow> bool" where
  "holds_tail (Push_locked v n) = True"
| "holds_tail (Push_data v n) = True"
| "holds_tail (Push_linked v n) = True"
| "holds_tail _ = False"

text \<open>The node a pushing thread has allocated, and the node a popping thread has unlinked.\<close>

fun new_of :: "'a pc \<Rightarrow> nat option" where
  "new_of (Push_start v n) = Some n"
| "new_of (Push_locked v n) = Some n"
| "new_of (Push_data v n) = Some n"
| "new_of (Push_linked v n) = Some n"
| "new_of _ = None"

fun own_of :: "'a pc \<Rightarrow> nat option" where
  "own_of (Pop_own tk old) = old"
| "own_of _ = None"

text \<open>What the holder of the tail mutex has made of the dummy node so far.\<close>

fun dummy_of :: "'a pc \<Rightarrow> 'a node" where
  "dummy_of (Push_data v n) = \<lparr>node_data = Some v, node_next = None\<rparr>"
| "dummy_of (Push_linked v n) = \<lparr>node_data = Some v, node_next = Some n\<rparr>"
| "dummy_of _ = blank"

text \<open>The invariants of one thread come first; those of the state quantify over the threads.\<close>

definition sleeper_ok :: "'a threads \<Rightarrow> nat \<Rightarrow> bool" where
  "sleeper_ok s i \<longleftrightarrow> (i \<in> set (waiting s) \<longleftrightarrow> (\<exists>r. pcs s i = Asleep r))"

definition sleepers_ok :: "'a threads \<Rightarrow> bool" where
  "sleepers_ok s \<longleftrightarrow> distinct (waiting s) \<and> (\<forall>i. sleeper_ok s i)"

definition lock_ok :: "'a threads \<Rightarrow> nat \<Rightarrow> bool" where
  "lock_ok s i \<longleftrightarrow> (holds_head (pcs s i) \<longleftrightarrow> head_mutex s = Some i)
     \<and> (holds_tail (pcs s i) \<longleftrightarrow> tail_mutex s = Some i)"

definition new_ok :: "'a threads \<Rightarrow> nat \<Rightarrow> bool" where
  "new_ok s i \<longleftrightarrow> (case new_of (pcs s i) of None \<Rightarrow> True | Some n \<Rightarrow> t_heap s n = Some blank \<and> n \<noteq> t_tail s)"

definition own_ok :: "'a threads \<Rightarrow> nat \<Rightarrow> bool" where
  "own_ok s i \<longleftrightarrow> (\<forall>tk old. pcs s i = Pop_own tk old \<longrightarrow>
       old \<noteq> None \<and> (\<forall>v. tk = Some v \<longrightarrow> node_data (the (t_heap s (the old))) = Some v)) \<and>
     (case own_of (pcs s i) of None \<Rightarrow> True
      | Some a \<Rightarrow> (\<exists>v. t_heap s a = Some \<lparr>node_data = Some v, node_next = None\<rparr>) \<and> a \<noteq> t_tail s)"

definition apart :: "'a threads \<Rightarrow> nat \<Rightarrow> nat \<Rightarrow> bool" where
  "apart s i j \<longleftrightarrow> i = j
     \<or> (new_of (pcs s i) = None \<or> new_of (pcs s i) \<noteq> new_of (pcs s j))
     \<and> (own_of (pcs s i) = None \<or> own_of (pcs s i) \<noteq> own_of (pcs s j))"

definition fresh_ok :: "'a threads \<Rightarrow> nat \<Rightarrow> bool" where
  "fresh_ok s a \<longleftrightarrow> t_heap s a = None \<or> a < t_fresh s"

definition tail_ok :: "'a threads \<Rightarrow> bool" where
  "tail_ok s \<longleftrightarrow>
     t_heap s (t_tail s) = Some (case tail_mutex s of None \<Rightarrow> blank | Some i \<Rightarrow> dummy_of (pcs s i))"

text \<open>
  The values not popped yet are those from the first node, which is \<open>_head\<close> or, while a thread
  moves \<open>_head\<close>, the node that thread holds, to the dummy node.
\<close>

definition link_ok :: "'a threads \<Rightarrow> nat \<Rightarrow> 'a list \<Rightarrow> nat \<Rightarrow> bool" where
  "link_ok s h vs i \<longleftrightarrow>
     (case pcs s i of
        Pop_moved tk old \<Rightarrow> old = Some h \<and> t_head s = None \<and> vs \<noteq> [] \<and> (\<forall>v. tk = Some v \<longrightarrow> v = hd vs)
      | Pop_valued v \<Rightarrow> t_head s = Some h \<and> vs \<noteq> [] \<and> v = hd vs
      | Pop_ready r \<Rightarrow> t_head s = Some h \<and> vs \<noteq> []
      | Pop_checked w r t \<Rightarrow> t_head s = Some h \<and> (h = t \<or> vs \<noteq> [])
      | Pop_locked w r \<Rightarrow> t_head s = Some h
      | _ \<Rightarrow> True)"

definition links_ok :: "'a threads \<Rightarrow> nat \<Rightarrow> 'a list \<Rightarrow> bool" where
  "links_ok s h vs \<longleftrightarrow> chain (t_heap s) h vs (t_tail s)
     \<and> List.map Some (pushed s) = List.map snd (popped s) @ List.map Some vs
     \<and> (t_head s = Some h \<or> head_mutex s \<noteq> None)
     \<and> (\<forall>i. link_ok s h vs i)"

text \<open>Every thread returns what it popped.\<close>

definition result_ok :: "'a threads \<Rightarrow> nat \<Rightarrow> bool" where
  "result_ok s i \<longleftrightarrow> List.map snd (filter (\<lambda>(j, r). j = i) (popped s))
     = List.map snd (filter (\<lambda>(j, r). j = i \<and> r \<noteq> None) (returned s))
       @ (case own_of (pcs s i) of None \<Rightarrow> [] | Some a \<Rightarrow> [node_data (the (t_heap s a))])"

definition q_inv :: "'a threads \<Rightarrow> bool" where
  "q_inv s \<longleftrightarrow> sleepers_ok s \<and> (\<forall>i. lock_ok s i) \<and> (\<forall>i. new_ok s i) \<and> (\<forall>i. own_ok s i)
     \<and> (\<forall>i j. apart s i j) \<and> (\<forall>a. fresh_ok s a) \<and> tail_ok s \<and> (\<exists>h vs. links_ok s h vs) \<and> (\<forall>i. result_ok s i)"

lemmas goto_simps [simp] = goto_def

lemmas step_defs = push_enter_def push_set_data_def push_link_def push_set_tail_def lock_tail_def lock_head_def
  get_tail_step_def compare_step_def wait_for_data_sleep_def try_pop_empty_def
  take_value_def pop_head_old_def pop_head_next_def pop_return_def wake_def

lemma notify_one_cases:
  assumes "sleepers_ok s"
  obtains "notify_one k s = s" "waiting s = []"
  | w r where "pcs s w = Asleep r" "notify_one k s = s\<lparr>waiting := remove1 w (waiting s), pcs := (pcs s)(w := Woken r)\<rparr>"
proof (cases "waiting s = []")
  case True
  then show ?thesis by (intro that(1)) (simp_all add: notify_one_def)
next
  case False
  define w where "w = waiting s ! (k mod length (waiting s))"
  have "w \<in> set (waiting s)" using False by (simp add: w_def)
  then obtain r where r: "pcs s w = Asleep r" using assms by (auto simp: sleepers_ok_def sleeper_ok_def)
  moreover have "notify_one k s = s\<lparr>waiting := remove1 w (waiting s), pcs := (pcs s)(w := Woken r)\<rparr>"
    using False r by (simp add: notify_one_def w_def [symmetric] Let_def)
  ultimately show ?thesis by (rule that(2))
qed

text \<open>The two kinds of step: a notification, and the others, which change the position of one thread.\<close>

lemma advance_notify:
  assumes "pcs s i = Push_notify" "advance i call k s = Returns s'" "sleepers_ok s"
  obtains "s' = s\<lparr>pcs := (pcs s)(i := Idle)\<rparr>" "waiting s = []"
  | w r where "pcs s w = Asleep r" "w \<noteq> i"
    "s' = s\<lparr>waiting := remove1 w (waiting s), pcs := (pcs s)(w := Woken r, i := Idle)\<rparr>"
proof -
  have s': "s' = goto i Idle (notify_one k s)" using assms(1,2) by (simp add: advance_def)
  from notify_one_cases [OF assms(3), of k] show thesis
  proof cases
    case 1
    then show ?thesis using s' by (intro that(1)) simp_all
  next
    case (2 w r)
    then show ?thesis using s' assms(1) by (intro that(2) [of w r]) auto
  qed
qed

lemma sleepers_step:
  assumes inv: "sleepers_ok s" and adv: "advance i call k s = Returns s'"
  shows "sleepers_ok s'"
proof -
  have d: "distinct (waiting s)" and sl: "\<And>j. sleeper_ok s j" using inv by (simp_all add: sleepers_ok_def)
  show ?thesis
  proof (cases "pcs s i = Push_notify")
    case True
    from advance_notify [OF this adv inv] show ?thesis
      by cases (use d sl [unfolded sleeper_ok_def] True in \<open>auto simp: sleepers_ok_def sleeper_ok_def\<close>)
  next
    case False
    have "distinct (waiting s') \<and> sleeper_ok s' j" for j
      using False adv d sl [of j] sl [of i]
      by (cases "pcs s i"; cases "j = i")
        (simp_all add: sleeper_ok_def advance_def step_defs deref_def split: if_splits option.splits call.splits,
         auto)
    then show ?thesis by (simp add: sleepers_ok_def)
  qed
qed

lemma lock_step:
  assumes inv: "sleepers_ok s" "\<And>j. lock_ok s j" and adv: "advance i call k s = Returns s'"
  shows "lock_ok s' j"
proof (cases "pcs s i = Push_notify")
  case True
  from advance_notify [OF this adv inv(1)] show ?thesis
  proof cases
    case 1
    then show ?thesis using inv(2) [of i] inv(2) [of j] True by (simp add: lock_ok_def)
  next
    case (2 w r)
    then show ?thesis using inv(2) [of i] inv(2) [of j] inv(2) [of w] True by (simp add: lock_ok_def)
  qed
next
  case False
  then show ?thesis
    using adv inv(2) [of j] inv(2) [of i]
    by (cases "pcs s i"; cases "j = i")
      (simp_all add: lock_ok_def advance_def step_defs deref_def split: if_splits option.splits call.splits, auto)
qed

lemma q_invD:
  assumes "q_inv s"
  shows "sleepers_ok s" "lock_ok s i" "new_ok s i" "own_ok s i" "apart s i j" "fresh_ok s a" "tail_ok s"
    "\<exists>h vs. links_ok s h vs" "result_ok s i"
  using assms by (simp_all add: q_inv_def)

text \<open>A thread about to move \<open>_head\<close> on, and its node.\<close>

lemma moved_node:
  assumes "q_inv s" "pcs s i = Pop_moved tk old"
  obtains h v n vs where "old = Some h" "t_heap s h = Some \<lparr>node_data = Some v, node_next = Some n\<rparr>"
    "h \<noteq> t_tail s" "links_ok s h (v # vs)" "t_head s = None" "tk = None \<or> tk = Some v"
proof -
  obtain h vs where l: "links_ok s h vs" using q_invD(8) [OF assms(1)] by blast
  then have "link_ok s h vs i" by (simp add: links_ok_def)
  then have o: "old = Some h" "vs \<noteq> []" "t_head s = None" "tk = None \<or> tk = Some (hd vs)"
    using assms(2) by (cases tk; auto simp: link_ok_def)+
  then obtain v vs' where vs: "vs = v # vs'" by (cases vs) auto
  then show thesis using l o that by (auto simp: links_ok_def)
qed

text \<open>And of one that has found the queue to hold a value.\<close>

lemma ready_node:
  assumes "q_inv s" "pcs s i = Pop_ready r"
  obtains h v n where "t_head s = Some h" "t_heap s h = Some \<lparr>node_data = Some v, node_next = Some n\<rparr>"
proof -
  obtain h vs where l: "links_ok s h vs" using q_invD(8) [OF assms(1)] by blast
  then have "link_ok s h vs i" by (simp add: links_ok_def)
  then obtain v vs' where "t_head s = Some h" "vs = v # vs'" using assms(2) by (cases vs) (auto simp: link_ok_def)
  then show thesis using l that by (auto simp: links_ok_def)
qed

lemma tail_fresh: "q_inv s \<Longrightarrow> t_tail s < t_fresh s"
  using q_invD(6) [of s "t_tail s"] q_invD(7) [of s] by (auto simp: tail_ok_def fresh_ok_def)

lemma new_step:
  assumes inv: "q_inv s" and adv: "advance i call k s = Returns s'"
  shows "new_ok s' j"
proof (cases "pcs s i = Push_notify")
  case True
  from advance_notify [OF this adv q_invD(1) [OF inv]] show ?thesis
  proof cases
    case 1
    then show ?thesis using q_invD(3) [OF inv, of j] by (simp add: new_ok_def split: option.splits)
  next
    case (2 w r)
    then show ?thesis using q_invD(3) [OF inv, of j] by (simp add: new_ok_def split: option.splits)
  qed
next
  case nn: False
  note f = q_invD(3) [OF inv, of j] q_invD(3) [OF inv, of i] q_invD(5) [OF inv, of i j] q_invD(6) [OF inv, of "t_fresh s"]
  show ?thesis
  proof (cases "\<exists>tk old. pcs s i = Pop_moved tk old \<or> pcs s i = Pop_own tk old")
    case False
    then show ?thesis
      using nn adv f tail_fresh [OF inv]
      by (cases "pcs s i"; cases "j = i")
        (auto simp: new_ok_def apart_def fresh_ok_def advance_def step_defs deref_def
          split: if_splits option.splits call.splits)
  next
    case True
    then show ?thesis
    proof (elim exE disjE)
      fix tk old assume o: "pcs s i = Pop_moved tk old"
      from moved_node [OF inv this] obtain h v n where "old = Some h"
        "t_heap s h = Some \<lparr>node_data = Some v, node_next = Some n\<rparr>" "h \<noteq> t_tail s" .
      then show ?thesis
        using adv f o by (cases "j = i")
          (auto simp: new_ok_def advance_def step_defs blank_def split: option.splits)
    next
      fix tk old assume o: "pcs s i = Pop_own tk old"
      then obtain a v where "old = Some a" "t_heap s a = Some \<lparr>node_data = Some v, node_next = None\<rparr>"
        using q_invD(4) [OF inv, of i] by (auto simp: own_ok_def split: option.splits)
      then show ?thesis
        using adv f o by (cases "j = i")
          (auto simp: new_ok_def advance_def step_defs blank_def split: option.splits)
    qed
  qed
qed

text \<open>The same for the unlinked node of a popping thread.\<close>

lemma owned_node:
  assumes "q_inv s" "pcs s i = Pop_own tk old"
  obtains a v where "old = Some a" "t_heap s a = Some \<lparr>node_data = Some v, node_next = None\<rparr>" "a \<noteq> t_tail s"
  using q_invD(4) [OF assms(1), of i] assms(2) by (auto simp: own_ok_def split: option.splits)

lemma own_step:
  assumes inv: "q_inv s" and adv: "advance i call k s = Returns s'"
  shows "own_ok s' j"
proof (cases "pcs s i = Push_notify")
  case True
  from advance_notify [OF this adv q_invD(1) [OF inv]] show ?thesis
  proof cases
    case 1
    then show ?thesis using q_invD(4) [OF inv, of j] by (simp add: own_ok_def split: option.splits)
  next
    case (2 w r)
    then show ?thesis using q_invD(4) [OF inv, of j] by (simp add: own_ok_def split: option.splits)
  qed
next
  case nn: False
  note f = q_invD(4) [OF inv, of j] q_invD(4) [OF inv, of i] q_invD(5) [OF inv, of i j] q_invD(6) [OF inv, of "t_fresh s"]
  show ?thesis
  proof (cases "\<exists>tk old. pcs s i = Pop_moved tk old \<or> pcs s i = Pop_own tk old")
    case False
    then show ?thesis
      using nn adv f q_invD(3) [OF inv, of i]
      by (cases "pcs s i"; cases "j = i")
        (auto simp: own_ok_def new_ok_def apart_def fresh_ok_def blank_def advance_def step_defs deref_def
          split: if_splits option.splits call.splits)
  next
    case True
    then show ?thesis
    proof (elim exE disjE)
      fix tk old assume o: "pcs s i = Pop_moved tk old"
      from moved_node [OF inv this] obtain h v n where "old = Some h"
        "t_heap s h = Some \<lparr>node_data = Some v, node_next = Some n\<rparr>" "h \<noteq> t_tail s" "tk = None \<or> tk = Some v" .
      then show ?thesis
        using adv f o by (cases "j = i") (auto simp: own_ok_def advance_def step_defs split: option.splits)
    next
      fix tk old assume o: "pcs s i = Pop_own tk old"
      from owned_node [OF inv this] obtain a v where "old = Some a"
        "t_heap s a = Some \<lparr>node_data = Some v, node_next = None\<rparr>" .
      then show ?thesis
        using adv f o by (cases "j = i") (auto simp: own_ok_def apart_def advance_def step_defs split: option.splits)
    qed
  qed
qed

lemma apart_step:
  assumes inv: "q_inv s" and adv: "advance i call k s = Returns s'"
  shows "apart s' a b"
proof (cases "pcs s i = Push_notify")
  case True
  from advance_notify [OF this adv q_invD(1) [OF inv]] show ?thesis
    by cases (use q_invD(5) [OF inv, of a b] in \<open>auto simp: apart_def\<close>)
next
  case nn: False
  note ab = q_invD(5) [OF inv, of a b]
  consider v where "pcs s i = Idle" "call = Call_push v" | tk old where "pcs s i = Pop_moved tk old"
    | "\<And>v. pcs s i \<noteq> Idle \<or> call \<noteq> Call_push v" "\<And>tk old. pcs s i \<noteq> Pop_moved tk old" by blast
  then show ?thesis
  proof cases
    case (1 v)
    have h: "new_of (pcs s c) \<noteq> Some (t_fresh s)" for c
      using q_invD(3) [OF inv, of c] q_invD(6) [OF inv, of "t_fresh s"] by (auto simp: new_ok_def fresh_ok_def)
    show ?thesis
      using adv ab 1 h [of a] h [of b]
      by (cases "a = i"; cases "b = i") (auto simp: apart_def advance_def step_defs)
  next
    case (2 tk old)
    from moved_node [OF inv this] obtain h v n where h: "old = Some h"
      "t_heap s h = Some \<lparr>node_data = Some v, node_next = Some n\<rparr>" "h \<noteq> t_tail s" .
    then have l: "own_of (pcs s c) \<noteq> Some h" for c using q_invD(4) [OF inv, of c] by (auto simp: own_ok_def)
    show ?thesis
      using adv ab 2 h(1,2) l [of a] l [of b]
      by (cases "a = i"; cases "b = i") (auto simp: apart_def advance_def step_defs)
  next
    case 3
    show ?thesis
      using nn adv ab 3
      by (cases "pcs s i"; cases "a = i"; cases "b = i")
        (auto simp: apart_def advance_def step_defs deref_def split: if_splits option.splits call.splits)
  qed
qed

lemma fresh_step:
  assumes inv: "q_inv s" and adv: "advance i call k s = Returns s'"
  shows "fresh_ok s' a"
proof (cases "pcs s i = Push_notify")
  case True
  from advance_notify [OF this adv q_invD(1) [OF inv]] show ?thesis
    by cases (use q_invD(6) [OF inv, of a] in \<open>auto simp: fresh_ok_def\<close>)
next
  case False
  then show ?thesis
    using adv q_invD(6) [OF inv, of a]
    by (cases "pcs s i")
      (auto simp: fresh_ok_def advance_def step_defs deref_def split: if_splits option.splits call.splits)
qed

end
