(* ===== verification/Queue_Safety.thy ===== *)
theory Queue_Safety
  imports Queue_Invariant
begin

text \<open>
  The linked nodes of \<open>threadsafe_queue\<close> under interleaving, and what follows for its clients: no
  thread follows a null or a deleted pointer, values come out in the order in which they went in,
  each to one thread, no deadlock; and a wake-up that is lost.
\<close>

section \<open>The dummy node\<close>

lemma tail_step:
  assumes inv: "q_inv s" and adv: "advance i call k s = Returns s'"
  shows "tail_ok s'"
proof -
  note t = q_invD(7) [OF inv]
  note li = q_invD(2) [OF inv, of i]
  show ?thesis
  proof (cases "tail_mutex s = Some i")
    case True
    then have "holds_tail (pcs s i)" using li by (simp add: lock_ok_def)
    then show ?thesis
      using t True adv q_invD(3) [OF inv, of i]
      by (cases "pcs s i")
        (auto simp: tail_ok_def new_ok_def blank_def advance_def step_defs deref_def split: if_splits option.splits)
  next
    case False
    then have nh: "\<not> holds_tail (pcs s i)" using li by (simp add: lock_ok_def)
    have dj: "dummy_of (pcs s' j) = dummy_of (pcs s j)" if "tail_mutex s = Some j" for j
    proof -
      have hj: "holds_tail (pcs s j)" using q_invD(2) [OF inv, of j] that by (simp add: lock_ok_def)
      have "j \<noteq> i" using that False by auto
      have "pcs s' j = pcs s j"
      proof (cases "pcs s i = Push_notify")
        case True
        from advance_notify [OF this adv q_invD(1) [OF inv]] show ?thesis
          using hj \<open>j \<noteq> i\<close> by cases auto
      next
        case False
        then show ?thesis
          using adv nh \<open>j \<noteq> i\<close>
          by (cases "pcs s i")
            (auto simp: advance_def step_defs deref_def split: if_splits option.splits call.splits)
      qed
      then show ?thesis by simp
    qed
    show ?thesis
    proof (cases "pcs s i = Push_notify")
      case True
      from advance_notify [OF this adv q_invD(1) [OF inv]] show ?thesis
        using t dj by cases (auto simp: tail_ok_def split: option.splits)
    next
      case nn: False
      have h': "t_tail s' = t_tail s \<and> t_heap s' (t_tail s) = t_heap s (t_tail s)"
      proof (cases "\<exists>tk old. pcs s i = Pop_moved tk old \<or> pcs s i = Pop_own tk old")
        case True
        then show ?thesis
        proof (elim exE disjE)
          fix tk old assume o: "pcs s i = Pop_moved tk old"
          from moved_node [OF inv this] obtain h v n where "old = Some h"
            "t_heap s h = Some \<lparr>node_data = Some v, node_next = Some n\<rparr>" "h \<noteq> t_tail s" .
          then show ?thesis using adv o by (auto simp: advance_def step_defs)
        next
          fix tk old assume o: "pcs s i = Pop_own tk old"
          from owned_node [OF inv this] obtain a v where "old = Some a"
            "t_heap s a = Some \<lparr>node_data = Some v, node_next = None\<rparr>" "a \<noteq> t_tail s" .
          then show ?thesis using adv o by (auto simp: advance_def step_defs)
        qed
      next
        case False
        then show ?thesis
          using adv nn nh tail_fresh [OF inv]
          by (cases "pcs s i")
            (auto simp: advance_def step_defs deref_def split: if_splits option.splits call.splits)
      qed
      have m: "tail_mutex s' = tail_mutex s \<or> tail_mutex s = None \<and> tail_mutex s' = Some i \<and> dummy_of (pcs s' i) = blank"
        using adv nn nh
        by (cases "pcs s i")
          (auto simp: advance_def step_defs deref_def split: if_splits option.splits call.splits)
      then show ?thesis using t h' dj by (auto simp: tail_ok_def split: option.splits)
    qed
  qed
qed

section \<open>The linked nodes\<close>

text \<open>A step that leaves the nodes alone.\<close>

lemma links_frame:
  assumes l: "links_ok s h vs"
    and eq: "t_heap s' = t_heap s" "t_tail s' = t_tail s" "t_head s' = t_head s"
      "pushed s' = pushed s" "popped s' = popped s"
    and m: "t_head s = Some h \<or> head_mutex s' \<noteq> None"
    and i: "\<And>j. link_ok s' h vs j"
  shows "links_ok s' h vs"
  using assms by (simp add: links_ok_def)

lemma link_ok_mono:
  "link_ok s h vs j \<Longrightarrow> t_head s' = t_head s \<Longrightarrow> pcs s' j = pcs s j \<Longrightarrow> vs' = vs @ ws \<Longrightarrow> link_ok s' h vs' j"
  by (auto simp: link_ok_def split: pc.splits)

lemma link_ok_free: "\<not> holds_head (pcs s j) \<Longrightarrow> link_ok s h vs j"
  by (cases "pcs s j") (simp_all add: link_ok_def)

lemma others_free:
  assumes "q_inv s" "head_mutex s = Some i \<or> head_mutex s = None" "j \<noteq> i"
  shows "\<not> holds_head (pcs s j)"
  using q_invD(2) [OF assms(1), of j] assms(2,3) by (auto simp: lock_ok_def)

text \<open>A step of a thread that neither holds nor takes the head mutex.\<close>

lemma links_outside:
  assumes inv: "q_inv s" and l: "links_ok s h vs"
    and eq: "t_head s' = t_head s" "head_mutex s' = head_mutex s" "popped s' = popped s"
    and p: "\<And>j. pcs s' j = pcs s j \<or> \<not> holds_head (pcs s' j)"
    and c: "chain (t_heap s') h vs' (t_tail s')" "pushed s' = pushed s @ ws" "vs' = vs @ ws"
  shows "links_ok s' h vs'"
proof -
  have "link_ok s' h vs' j" for j
    using p [of j]
  proof
    assume "pcs s' j = pcs s j"
    then show ?thesis
      using l c by (intro link_ok_mono [of s h vs j s' vs' ws]) (auto simp: links_ok_def eq)
  next
    assume "\<not> holds_head (pcs s' j)"
    then show ?thesis by (rule link_ok_free)
  qed
  then show ?thesis using l c eq by (simp add: links_ok_def)
qed

text \<open>A step of a thread that holds or takes the head mutex and leaves the nodes alone.\<close>

lemma links_inside:
  assumes inv: "q_inv s" and l: "links_ok s h vs"
    and eq: "t_heap s' = t_heap s" "t_tail s' = t_tail s" "pushed s' = pushed s" "popped s' = popped s"
    and m: "head_mutex s = Some i \<or> head_mutex s = None"
    and p: "\<And>j. j \<noteq> i \<Longrightarrow> pcs s' j = pcs s j" and i: "link_ok s' h vs i"
    and hd: "t_head s' = Some h \<or> head_mutex s' \<noteq> None"
  shows "links_ok s' h vs"
proof -
  have "link_ok s' h vs j" for j
    using i p [of j] others_free [OF inv m, of j] link_ok_free [of s' j] by (cases "j = i") auto
  then show ?thesis using l eq hd by (simp add: links_ok_def)
qed

lemma links_step:
  assumes inv: "q_inv s" and adv: "advance i call k s = Returns s'"
  shows "\<exists>h vs. links_ok s' h vs"
proof -
  obtain h vs where l: "links_ok s h vs" using q_invD(8) [OF inv] by blast
  have c: "chain (t_heap s) h vs (t_tail s)" and li: "link_ok s h vs i" using l by (simp_all add: links_ok_def)
  note lock = q_invD(2) [OF inv, of i]
  have fresh: "t_heap s (t_fresh s) = None" using q_invD(6) [OF inv, of "t_fresh s"] by (simp add: fresh_ok_def)
  have same: "links_ok s' h vs"
    if "t_heap s' = t_heap s" "t_tail s' = t_tail s" "t_head s' = t_head s" "head_mutex s' = head_mutex s"
      "pushed s' = pushed s" "popped s' = popped s" "\<And>j. pcs s' j = pcs s j \<or> \<not> holds_head (pcs s' j)"
    using that c by (intro links_outside [OF inv l, of s' vs "[]"]) auto
  show ?thesis
  proof (cases "pcs s i")
    case Idle
    have "chain ((t_heap s)(t_fresh s \<mapsto> blank)) h vs (t_tail s)"
      by (rule chain_update_other [OF c]) (simp add: fresh)
    then have "links_ok s' h vs"
      using adv Idle c
      by (intro links_outside [OF inv l, of s' vs "[]"])
        (auto simp: advance_def step_defs split: call.splits if_splits)
    then show ?thesis by blast
  next
    case (Push_start v n)
    then have "links_ok s' h vs"
      using adv by (intro same) (auto simp: advance_def step_defs split: if_splits)
    then show ?thesis by blast
  next
    case (Push_locked v n)
    then have "links_ok s' h vs"
      using adv chain_update_end [OF c]
      by (intro links_outside [OF inv l, of s' vs "[]"])
        (auto simp: advance_def step_defs deref_def split: option.splits if_splits)
    then show ?thesis by blast
  next
    case (Push_data v n)
    then have "links_ok s' h vs"
      using adv chain_update_end [OF c]
      by (intro links_outside [OF inv l, of s' vs "[]"])
        (auto simp: advance_def step_defs deref_def split: option.splits if_splits)
    then show ?thesis by blast
  next
    case (Push_linked v n)
    have "tail_mutex s = Some i" using lock Push_linked by (simp add: lock_ok_def)
    then have "t_heap s (t_tail s) = Some \<lparr>node_data = Some v, node_next = Some n\<rparr>"
      using q_invD(7) [OF inv] Push_linked by (simp add: tail_ok_def)
    moreover have "t_heap s n = Some blank" "n \<noteq> t_tail s"
      using q_invD(3) [OF inv, of i] Push_linked by (simp_all add: new_ok_def)
    ultimately have "chain (t_heap s) h (vs @ [v]) n"
      by (intro chain_append [OF c, where m = blank]) (auto simp: blank_def)
    then have "links_ok s' h (vs @ [v])"
      using adv Push_linked
      by (intro links_outside [OF inv l, of s' "vs @ [v]" "[v]"]) (auto simp: advance_def step_defs split: if_splits)
    then show ?thesis by blast
  next
    case Push_notify
    from advance_notify [OF this adv q_invD(1) [OF inv]] have "links_ok s' h vs"
      by cases (intro same; auto split: if_splits)+
    then show ?thesis by blast
  next
    case (Pop_start w r)
    then have m: "head_mutex s = None" and s': "s' = goto i (Pop_locked w r) (s\<lparr>head_mutex := Some i\<rparr>)"
      using adv by (auto simp: advance_def lock_head_def split: if_splits)
    have "t_head s = Some h" using l m by (simp add: links_ok_def)
    then have "links_ok s' h vs"
      using s' m by (intro links_inside [OF inv l, of s' i]) (auto simp: link_ok_def)
    then show ?thesis by blast
  next
    case (Pop_locked w r)
    then have m: "head_mutex s = Some i" using lock by (simp add: lock_ok_def)
    have s': "s' = goto i (Pop_checked w r (t_tail s)) s"
      using adv Pop_locked by (auto simp: advance_def get_tail_step_def split: if_splits)
    have "h = t_tail s \<or> vs \<noteq> []" using c by (cases vs) auto
    then have "links_ok s' h vs"
      using s' m li Pop_locked by (intro links_inside [OF inv l, of s' i]) (auto simp: link_ok_def)
    then show ?thesis by blast
  next
    case (Pop_checked w r t)
    then have m: "head_mutex s = Some i" using lock by (simp add: lock_ok_def)
    have "links_ok s' h vs"
      using adv m li Pop_checked
      by (intro links_inside [OF inv l, of s' i])
        (auto simp: link_ok_def advance_def step_defs split: if_splits)
    then show ?thesis by blast
  next
    case (Pop_ready r)
    then have m: "head_mutex s = Some i" using lock by (simp add: lock_ok_def)
    have "links_ok s' h vs"
    proof (cases r)
      case True
      obtain v ws where vs: "vs = v # ws" using li Pop_ready by (cases vs) (auto simp: link_ok_def)
      then obtain n where "t_heap s h = Some \<lparr>node_data = Some v, node_next = Some n\<rparr>" using c by auto
      then show ?thesis
        using adv m li Pop_ready True vs
        by (intro links_inside [OF inv l, of s' i]) (auto simp: link_ok_def advance_def take_value_def)
    next
      case False
      then show ?thesis
        using adv m li Pop_ready
        by (intro links_inside [OF inv l, of s' i]) (auto simp: link_ok_def advance_def pop_head_old_def)
    qed
    then show ?thesis by blast
  next
    case (Pop_valued v)
    then have m: "head_mutex s = Some i" using lock by (simp add: lock_ok_def)
    have "links_ok s' h vs"
      using adv m li Pop_valued
      by (intro links_inside [OF inv l, of s' i]) (auto simp: link_ok_def advance_def pop_head_old_def)
    then show ?thesis by blast
  next
    case (Pop_moved tk old)
    then have m: "head_mutex s = Some i" using lock by (simp add: lock_ok_def)
    have o: "old = Some h" "vs \<noteq> []" using li Pop_moved by (simp_all add: link_ok_def)
    then obtain v ws where vs: "vs = v # ws" by (cases vs) auto
    then obtain n where n: "t_heap s h = Some \<lparr>node_data = Some v, node_next = Some n\<rparr>" using c by auto
    have s': "s' = goto i (Pop_own tk old) (s\<lparr>t_heap := (t_heap s)(h \<mapsto> \<lparr>node_data = Some v, node_next = None\<rparr>),
        t_head := Some n, head_mutex := None, popped := popped s @ [(i, Some v)]\<rparr>)"
      using adv Pop_moved n o by (simp add: advance_def pop_head_next_def)
    have "chain (t_heap s') n ws (t_tail s')"
      using chain_free_first [OF c [unfolded vs] n] by (simp add: s')
    moreover have "link_ok s' n ws j" for j
      by (rule link_ok_free) (use others_free [OF inv, of i j] m in \<open>auto simp: s'\<close>)
    ultimately have "links_ok s' n ws" using l by (simp add: links_ok_def s' vs)
    then show ?thesis by blast
  next
    case (Pop_own tk old)
    from owned_node [OF inv this] obtain a v where a: "old = Some a"
      "t_heap s a = Some \<lparr>node_data = Some v, node_next = None\<rparr>" .
    have "chain ((t_heap s)(a := None)) h vs (t_tail s)"
      by (rule chain_update_other [OF c]) (simp add: a)
    then have "links_ok s' h vs"
      using adv Pop_own a
      by (intro links_outside [OF inv l, of s' vs "[]"]) (auto simp: advance_def pop_return_def split: if_splits)
    then show ?thesis by blast
  next
    case (Asleep r)
    then have "links_ok s' h vs"
      using adv by (intro same) (auto simp: advance_def wake_def split: if_splits)
    then show ?thesis by blast
  next
    case (Woken r)
    then have m: "head_mutex s = None" and s': "s' = goto i (Pop_locked True r) (s\<lparr>head_mutex := Some i\<rparr>)"
      using adv by (auto simp: advance_def lock_head_def split: if_splits)
    have "t_head s = Some h" using l m by (simp add: links_ok_def)
    then have "links_ok s' h vs"
      using s' m by (intro links_inside [OF inv l, of s' i]) (auto simp: link_ok_def)
    then show ?thesis by blast
  qed
qed

section \<open>Results\<close>

lemma result_step:
  assumes inv: "q_inv s" and adv: "advance i call k s = Returns s'"
  shows "result_ok s' j"
proof -
  note r = q_invD(9) [OF inv, of j]
  note o = q_invD(4) [OF inv, of j]
  have f: "own_of (pcs s j) = Some a \<Longrightarrow> a \<noteq> t_fresh s" for a
    using o q_invD(6) [OF inv, of "t_fresh s"] by (auto simp: own_ok_def fresh_ok_def)
  show ?thesis
  proof (cases "pcs s i = Push_notify")
    case True
    from advance_notify [OF this adv q_invD(1) [OF inv]] show ?thesis
      using r True by cases (auto simp: result_ok_def split: option.splits)
  next
    case nn: False
    show ?thesis
    proof (cases "\<exists>tk old. pcs s i = Pop_moved tk old \<or> pcs s i = Pop_own tk old")
      case True
      then show ?thesis
      proof (elim exE disjE)
        fix tk old assume p: "pcs s i = Pop_moved tk old"
        from moved_node [OF inv this] obtain h v n where "old = Some h"
          "t_heap s h = Some \<lparr>node_data = Some v, node_next = Some n\<rparr>" .
        then show ?thesis
          using adv p r o
          by (cases "j = i")
            (auto simp: result_ok_def own_ok_def advance_def pop_head_next_def split: option.splits)
      next
        fix tk old assume p: "pcs s i = Pop_own tk old"
        from owned_node [OF inv this] obtain a v where "old = Some a"
          "t_heap s a = Some \<lparr>node_data = Some v, node_next = None\<rparr>" .
        then show ?thesis
          using adv p r o q_invD(5) [OF inv, of i j]
          by (cases "j = i")
            (auto simp: result_ok_def own_ok_def apart_def advance_def pop_return_def split: option.splits)
      qed
    next
      case False
      then show ?thesis
        using nn adv r o f
        by (cases "pcs s i"; cases "j = i")
          (auto simp: result_ok_def own_ok_def advance_def step_defs deref_def
            split: if_splits option.splits call.splits)
    qed
  qed
qed

section \<open>Reachable states\<close>

lemma q_inv_step:
  assumes inv: "q_inv s" and adv: "advance i call k s = Returns s'"
  shows "q_inv s'"
  unfolding q_inv_def [of s']
proof (intro conjI allI)
  show "sleepers_ok s'" by (rule sleepers_step [OF q_invD(1) [OF inv] adv])
  show "lock_ok s' j" for j by (rule lock_step [OF q_invD(1,2) [OF inv] adv])
  show "new_ok s' j" "own_ok s' j" "result_ok s' j" for j
    by (rule new_step [OF inv adv] own_step [OF inv adv] result_step [OF inv adv])+
  show "apart s' a b" "fresh_ok s' a" for a b by (rule apart_step [OF inv adv] fresh_step [OF inv adv])+
  show "tail_ok s'" "\<exists>h vs. links_ok s' h vs" by (rule tail_step [OF inv adv] links_step [OF inv adv])+
qed

lemma q_inv_new: "q_inv threads_new"
proof -
  have "links_ok threads_new 0 []" by (simp add: links_ok_def threads_new_def link_ok_def)
  then have "\<exists>h vs. links_ok threads_new h vs" by blast
  then show ?thesis
    by (simp add: q_inv_def threads_new_def sleepers_ok_def sleeper_ok_def lock_ok_def new_ok_def own_ok_def
        apart_def fresh_ok_def tail_ok_def result_ok_def)
qed

lemma q_inv_reachable: "q_step\<^sup>*\<^sup>* threads_new s \<Longrightarrow> q_inv s"
  by (induction rule: rtranclp_induct) (auto simp: q_inv_new elim!: q_stepE intro: q_inv_step)

text \<open>No action is undefined.\<close>

lemma advance_defined:
  assumes inv: "q_inv s"
  shows "advance i call k s \<noteq> Undefined"
proof (cases "\<exists>tk old. pcs s i = Pop_moved tk old \<or> pcs s i = Pop_own tk old")
  case True
  then show ?thesis
  proof (elim exE disjE)
    fix tk old assume p: "pcs s i = Pop_moved tk old"
    from moved_node [OF inv this] obtain h v n where "old = Some h"
      "t_heap s h = Some \<lparr>node_data = Some v, node_next = Some n\<rparr>" .
    then show ?thesis using p by (simp add: advance_def pop_head_next_def)
  next
    fix tk old assume p: "pcs s i = Pop_own tk old"
    from owned_node [OF inv this] obtain a v where "old = Some a"
      "t_heap s a = Some \<lparr>node_data = Some v, node_next = None\<rparr>" .
    then show ?thesis using p by (simp add: advance_def pop_return_def)
  qed
next
  case nm: False
  show ?thesis
  proof (cases "\<exists>r. pcs s i = Pop_ready r")
    case True
    with ready_node [OF inv] obtain h v n where "t_head s = Some h" "t_heap s h = Some \<lparr>node_data = Some v, node_next = Some n\<rparr>"
      by metis
    then show ?thesis using True by (auto simp: advance_def take_value_def split: if_splits)
  next
    case False
    then show ?thesis
      using nm q_invD(7) [OF inv]
      by (cases "pcs s i") (auto simp: tail_ok_def advance_def step_defs split: if_splits)
  qed
qed

text \<open>The holder of the tail mutex can always go on, and so can the holder of the head mutex unless
  the tail mutex is held.\<close>

lemma no_deadlock:
  assumes inv: "q_inv s" and i: "pcs s i \<noteq> Idle" "\<nexists>r. pcs s i = Asleep r"
  obtains j where "pcs s j \<noteq> Idle" "\<nexists>r. pcs s j = Asleep r" "\<And>call k. advance j call k s \<noteq> Blocks"
proof (cases "tail_mutex s")
  case (Some j)
  then have "holds_tail (pcs s j)" using q_invD(2) [OF inv, of j] by (simp add: lock_ok_def)
  then show ?thesis
    using q_invD(7) [OF inv]
    by (intro that [of j]; cases "pcs s j") (auto simp: advance_def step_defs tail_ok_def)
next
  case None
  show ?thesis
  proof (cases "head_mutex s")
    case (Some j)
    then have "holds_head (pcs s j)" using q_invD(2) [OF inv, of j] by (simp add: lock_ok_def)
    then show ?thesis
      using None
      by (intro that [of j]; cases "pcs s j") (auto simp: advance_def step_defs deref_def split: option.splits)
  next
    case h: None
    then show ?thesis
      using None i
      by (intro that [of i]; cases "pcs s i") (auto simp: advance_def step_defs deref_def split: option.splits)
  qed
qed

section \<open>Schedules\<close>

text \<open>Runs of a given schedule: which thread acts, and what it calls if it is idle.\<close>

fun q_run :: "(nat \<times> 'a call) list \<Rightarrow> 'a threads \<Rightarrow> 'a threads outcome" where
  "q_run [] s = Returns s"
| "q_run ((i, call) # sched) s = and_then (advance i call 0 s) (q_run sched)"

lemma q_run_reachable: "q_run sched s = Returns s' \<Longrightarrow> q_step\<^sup>*\<^sup>* s s'"
proof (induction sched arbitrary: s)
  case (Cons a sched)
  obtain i call where a: "a = (i, call)" by fastforce
  with Cons.prems obtain t where t: "advance i call 0 s = Returns t" "q_run sched t = Returns s'"
    by (cases "advance i call 0 s") auto
  have "q_step s t" using t(1) by (rule q_step.q_step)
  then show ?case using Cons.IH [OF t(2)] by (rule converse_rtranclp_into_rtranclp)
qed simp

text \<open>A consumer checks the empty queue; a producer pushes and notifies; the consumer falls asleep.\<close>

definition lost_wakeup :: "'a \<Rightarrow> (nat \<times> 'a call) list" where
  "lost_wakeup v = replicate 3 (0, Call_wait_and_pop) @ replicate 6 (1, Call_push v) @ [(0, Call_wait_and_pop)]"

section \<open>Properties\<close>

text \<open>
  C3. Under every interleaving of any number of threads the queue is safe and refines a list that
  changes in single steps: no action follows a null or a deleted pointer; at any time the values
  popped so far are the first ones pushed, in the same order; and the values a thread's calls
  returned are the values it popped, in order, except for at most one that is on its way.
\<close>

theorem queue_refines_list:
  assumes "q_step\<^sup>*\<^sup>* threads_new s"
  shows "advance i call k s \<noteq> Undefined
    \<and> (\<exists>rest. List.map Some (pushed s) = List.map snd (popped s) @ List.map Some rest)
    \<and> (\<exists>on_its_way. length on_its_way \<le> 1
        \<and> List.map snd (filter (\<lambda>(j, r). j = i) (popped s))
          = List.map snd (filter (\<lambda>(j, r). j = i \<and> r \<noteq> None) (returned s)) @ on_its_way)"
proof (intro conjI)
  have inv: "q_inv s" using q_inv_reachable [OF assms] .
  then show "advance i call k s \<noteq> Undefined" by (rule advance_defined)
  show "\<exists>rest. List.map Some (pushed s) = List.map snd (popped s) @ List.map Some rest"
    using q_invD(8) [OF inv] by (auto simp: links_ok_def)
  show "\<exists>own. length own \<le> 1
        \<and> List.map snd (filter (\<lambda>(j, r). j = i) (popped s))
          = List.map snd (filter (\<lambda>(j, r). j = i \<and> r \<noteq> None) (returned s)) @ own"
    using q_invD(9) [OF inv, of i] unfolding result_ok_def
    by (intro exI [of _ "case own_of (pcs s i) of None \<Rightarrow> [] | Some a \<Rightarrow> [node_data (the (t_heap s a))]"])
      (auto split: option.splits)
qed

definition two_threads :: "(nat \<times> nat call) list" where
  "two_threads = replicate 6 (1, Call_push 7) @ replicate 6 (0, Call_try_pop) @ [(0, Call_try_pop)]"

theorem queue_refines_list_witness:
  "advance 0 Call_try_pop 0 (case q_run two_threads threads_new of Returns s \<Rightarrow> s | _ \<Rightarrow> threads_new) \<noteq> Undefined"
proof -
  have "q_run two_threads threads_new \<noteq> Blocks" "q_run two_threads threads_new \<noteq> Undefined"
    by (simp_all add: two_threads_def eval_nat_numeral advance_def step_defs notify_one_def threads_new_def blank_def)
  then obtain s where s: "q_run two_threads threads_new = Returns s"
    by (cases "q_run two_threads threads_new") auto
  from queue_refines_list [OF q_run_reachable [OF s], of 0 Call_try_pop 0] show ?thesis by (simp add: s)
qed

text \<open>
  C17. No deadlock: in every reachable state in which some call is under way and not asleep, some
  such call can take its next step, whatever the others do.
\<close>

theorem queue_progress:
  assumes "q_step\<^sup>*\<^sup>* threads_new s" "pcs s i \<noteq> Idle" "\<nexists>r. pcs s i = Asleep r"
  shows "\<exists>j. pcs s j \<noteq> Idle \<and> (\<nexists>r. pcs s j = Asleep r) \<and> (\<exists>s'. advance j call k s = Returns s')"
proof -
  have inv: "q_inv s" using q_inv_reachable [OF assms(1)] .
  obtain j where j: "pcs s j \<noteq> Idle" "\<nexists>r. pcs s j = Asleep r" "\<And>call k. advance j call k s \<noteq> Blocks"
    using no_deadlock [OF inv assms(2,3)] by metis
  have "\<exists>s'. advance j call k s = Returns s'"
    using j(3) [of call k] advance_defined [OF inv, of j call k] by (cases "advance j call k s") simp_all
  then show ?thesis using j by blast
qed

theorem queue_progress_witness:
  "\<exists>j. pcs (push_enter 1 (5 :: nat) threads_new) j \<noteq> Idle \<and> (\<nexists>r. pcs (push_enter 1 (5 :: nat) threads_new) j = Asleep r)
    \<and> (\<exists>s'. advance j Call_try_pop 0 (push_enter 1 (5 :: nat) threads_new) = Returns s')"
proof (rule queue_progress [of _ 1])
  have "advance 1 (Call_push 5) 0 threads_new = Returns (push_enter 1 (5 :: nat) threads_new)"
    by (simp add: advance_def threads_new_def)
  then show "q_step\<^sup>*\<^sup>* threads_new (push_enter 1 (5 :: nat) threads_new)" by (blast intro: q_step.q_step)
qed (simp_all add: push_enter_def)

text \<open>
  C27. A wake-up can be lost. \<open>push\<close> moves the tail and notifies without the head mutex, so it can
  do both between the check in \<open>wait_for_data\<close> and the moment its caller falls asleep: the state
  is reachable in which a thread sleeps in \<open>wait_and_pop\<close> although the queue holds a value, and
  no other thread is active.
\<close>

theorem wake_up_lost:
  "\<exists>s. q_step\<^sup>*\<^sup>* threads_new s \<and> pcs s 0 = Asleep False \<and> (\<forall>i. i = 0 \<or> pcs s i = Idle)
     \<and> pushed s = [v] \<and> popped s = []"
proof -
  obtain s where s: "q_run (lost_wakeup v) threads_new = Returns s" "pcs s 0 = Asleep False"
      "\<And>i. i = 0 \<or> pcs s i = Idle" "pushed s = [v]" "popped s = []"
    by (simp add: lost_wakeup_def eval_nat_numeral advance_def step_defs notify_one_def threads_new_def blank_def)
  then show ?thesis using q_run_reachable [OF s(1)] by blast
qed

end
