(* ===== verification/Messaging.thy ===== *)
theory Messaging
  imports Node_Heap
begin

text \<open>
  \<open>cpp-concurrency-in-action/4.x5.ATM/messaging.hpp\<close>: a queue of messages of any type, and the
  dispatchers that wait for a message of one of several types. A message is a value of one type
  here, and the \<open>dynamic_cast\<close> of a handler is a test on it.
\<close>

section \<open>\<open>messaging::queue\<close>\<close>

definition queue_push :: "'m \<Rightarrow> 'm list \<Rightarrow> 'm list" where
  "queue_push msg q = q @ [msg]"

definition queue_wait_and_pop :: "'m list \<Rightarrow> ('m \<times> 'm list) outcome" where
  "queue_wait_and_pop q = (if q = [] then Blocks else Returns (hd q, tl q))"

section \<open>Dispatchers\<close>

text \<open>A message was handled, no handler was for it, or it closed the queue (an exception).\<close>

datatype 's dispatched = Handled 's | Unhandled | Closed

text \<open>\<open>TemplateDispatcher\<close>: the type of its message and its function.\<close>

type_synonym ('m, 's) handler = "('m \<Rightarrow> bool) \<times> ('m \<Rightarrow> 's \<Rightarrow> 's)"

text \<open>
  \<open>dispatch\<close> of the dispatcher at the end of a chain; each hands a message that is not its own to
  the previous one, and the first, the plain \<open>dispatcher\<close>, knows only the message that closes the
  queue. The list holds the chain from its end.
\<close>

fun dispatch :: "('m \<Rightarrow> bool) \<Rightarrow> ('m, 's) handler list \<Rightarrow> 'm \<Rightarrow> 's \<Rightarrow> 's dispatched" where
  "dispatch is_close [] msg s = (if is_close msg then Closed else Unhandled)"
| "dispatch is_close ((is_mine, f) # prev) msg s =
     (if is_mine msg then Handled (f msg s) else dispatch is_close prev msg s)"

text \<open>
  \<open>wait_and_dispatch\<close>, the loop that the destructor of the last dispatcher runs: it drops the
  messages that nobody handles. The result has the queue that is left.
\<close>

fun wait_and_dispatch :: "('m \<Rightarrow> bool) \<Rightarrow> ('m, 's) handler list \<Rightarrow> 'm list \<Rightarrow> 's \<Rightarrow> ('s dispatched \<times> 'm list) outcome" where
  "wait_and_dispatch is_close hs [] s = Blocks"
| "wait_and_dispatch is_close hs (msg # q) s =
     (case dispatch is_close hs msg s of
        Unhandled \<Rightarrow> wait_and_dispatch is_close hs q s
      | d \<Rightarrow> Returns (d, q))"

definition accepts :: "('m, 's) handler list \<Rightarrow> 'm \<Rightarrow> bool" where
  "accepts hs msg \<longleftrightarrow> list_ex (\<lambda>h. fst h msg) hs"

lemma dispatch_unhandled:
  "\<not> accepts hs msg \<Longrightarrow> dispatch is_close hs msg s = (if is_close msg then Closed else Unhandled)"
  by (induction hs) (auto simp: accepts_def)

text \<open>What a dispatcher waits for: the first message that a handler accepts or that closes the queue.\<close>

lemma wait_and_dispatch_first:
  assumes "list_all (\<lambda>m. \<not> is_close m \<and> \<not> accepts hs m) dropped"
    and "dispatch is_close hs msg s \<noteq> Unhandled"
  shows "wait_and_dispatch is_close hs (dropped @ msg # q) s = Returns (dispatch is_close hs msg s, q)"
  using assms
proof (induction dropped)
  case Nil
  then show ?case by (simp split: dispatched.splits)
next
  case (Cons m dropped)
  then show ?case by (simp add: dispatch_unhandled)
qed

end
