(* ===== verification/Atm.thy ===== *)
theory Atm
  imports Messaging Prelude
begin

text \<open>
  \<open>cpp-concurrency-in-action/4.x5.ATM/4.x5.ATM.cpp\<close>: an automatic teller machine, the bank and
  the machine's hardware, three threads that exchange messages, and the keyboard loop of \<open>main\<close>.
  A thread takes a message, decides what to do and changes its own variables in one step; each message
  that it then sends is a step of its own, and so is the debit, which the bank makes after it has sent its
  answer. Between two of them the other threads may run.
\<close>

section \<open>Messages\<close>

text \<open>A \<open>sender\<close> holds a pointer to the queue of one of the three machines, or null.\<close>

datatype machine = Atm_machine | Bank_machine | Interface_machine

type_synonym sender = "machine option"

datatype message =
    Withdraw (account_of: string) (amount_of: nat) (atm_queue_of: sender)
  | Withdraw_ok
  | Withdraw_denied
  | Cancel_withdrawal (account_of: string) (amount_of: nat)
  | Withdrawal_processed (account_of: string) (amount_of: nat)
  | Card_inserted (account_of: string)
  | Digit_pressed (digit_of: char)
  | Clear_last_pressed
  | Eject_card
  | Withdraw_pressed (amount_of: nat)
  | Cancel_pressed
  | Issue_money (amount_of: nat)
  | Verify_pin (account_of: string) (pin_of: string) (atm_queue_of: sender)
  | Pin_verified
  | Pin_incorrect
  | Display_enter_pin
  | Display_enter_card
  | Display_insufficient_funds
  | Display_withdrawal_cancelled
  | Display_pin_incorrect_message
  | Display_withdrawal_options
  | Get_balance (account_of: string) (atm_queue_of: sender)
  | Balance (amount_of: nat)
  | Display_balance (amount_of: nat)
  | Balance_pressed
  | Close_queue

section \<open>State\<close>

text \<open>The threads: one per machine, and the one of \<open>main\<close>. What a thread still has to do for the message
  it has taken: messages to send, and the debit of the bank.\<close>

datatype thread = Machine machine | Keyboard

datatype effect = Send sender message | Debit nat

text \<open>The member function the pointer \<open>state\<close> of the machine holds.\<close>

datatype atm_state =
    Waiting_for_card | Getting_pin | Verifying_pin | Wait_for_action | Process_balance
  | Process_withdrawal | Done_processing

text \<open>
  \<open>entered\<close>: the current state function has done what comes before its \<open>wait\<close>. \<open>screen\<close> is what
  the hardware has printed, \<open>paid_out\<close> the money it has issued.
\<close>

record system =
  queues :: "machine \<Rightarrow> message list"
  running :: "machine \<Rightarrow> bool"
  atm_state :: atm_state
  entered :: bool
  account :: string
  withdrawal_amount :: nat
  pin :: string
  bank_balance :: nat
  screen :: string
  paid_out :: nat
  main_running :: bool
  todo :: "thread \<Rightarrow> effect list"

definition send :: "sender \<Rightarrow> message \<Rightarrow> system \<Rightarrow> system" where
  "send to msg s = (case to of None \<Rightarrow> s | Some m \<Rightarrow> s\<lparr>queues := (queues s)(m := queue_push msg (queues s m))\<rparr>)"

definition later :: "thread \<Rightarrow> effect \<Rightarrow> system \<Rightarrow> system" where
  "later t e s = s\<lparr>todo := (todo s)(t := todo s t @ [e])\<rparr>"

definition perform :: "effect \<Rightarrow> system \<Rightarrow> system" where
  "perform e s =
     (case e of Send to msg \<Rightarrow> send to msg s | Debit amount \<Rightarrow> s\<lparr>bank_balance := bank_balance s - amount\<rparr>)"

definition atm_sends :: "sender \<Rightarrow> message \<Rightarrow> system \<Rightarrow> system" where
  "atm_sends to msg = later (Machine Atm_machine) (Send to msg)"

definition bank_sends :: "sender \<Rightarrow> message \<Rightarrow> system \<Rightarrow> system" where
  "bank_sends to msg = later (Machine Bank_machine) (Send to msg)"

definition main_sends :: "sender \<Rightarrow> message \<Rightarrow> system \<Rightarrow> system" where
  "main_sends to msg = later Keyboard (Send to msg)"

abbreviation bank :: sender where "bank \<equiv> Some Bank_machine"
abbreviation hardware :: sender where "hardware \<equiv> Some Interface_machine"
abbreviation atm_incoming :: sender where "atm_incoming \<equiv> Some Atm_machine"

definition next_state :: "atm_state \<Rightarrow> system \<Rightarrow> system" where
  "next_state st s = s\<lparr>atm_state := st, entered := False\<rparr>"

type_synonym handlers = "(message, system) handler list"

section \<open>\<open>atm\<close>: the state functions\<close>

text \<open>The handlers of a state function, from the end of its chain.\<close>

definition process_withdrawal :: handlers where
  "process_withdrawal =
     [(\<lambda>m. m = Cancel_pressed, \<lambda>m s.
         next_state Done_processing (atm_sends hardware Display_withdrawal_cancelled
           (atm_sends bank (Cancel_withdrawal (account s) (withdrawal_amount s)) s))),
      (\<lambda>m. m = Withdraw_denied, \<lambda>m s. next_state Done_processing (atm_sends hardware Display_insufficient_funds s)),
      (\<lambda>m. m = Withdraw_ok, \<lambda>m s.
         next_state Done_processing (atm_sends bank (Withdrawal_processed (account s) (withdrawal_amount s))
           (atm_sends hardware (Issue_money (withdrawal_amount s)) s)))]"

definition process_balance :: handlers where
  "process_balance =
     [(\<lambda>m. m = Cancel_pressed, \<lambda>m s. next_state Done_processing s),
      (is_Balance, \<lambda>m s. next_state Wait_for_action (atm_sends hardware (Display_balance (amount_of m)) s))]"

definition wait_for_action :: handlers where
  "wait_for_action =
     [(\<lambda>m. m = Cancel_pressed, \<lambda>m s. next_state Done_processing s),
      (\<lambda>m. m = Balance_pressed, \<lambda>m s.
         next_state Process_balance (atm_sends bank (Get_balance (account s) atm_incoming) s)),
      (is_Withdraw_pressed, \<lambda>m s.
         next_state Process_withdrawal
           (atm_sends bank (Withdraw (account s) (amount_of m) atm_incoming) (s\<lparr>withdrawal_amount := amount_of m\<rparr>)))]"

definition verifying_pin :: handlers where
  "verifying_pin =
     [(\<lambda>m. m = Cancel_pressed, \<lambda>m s. next_state Done_processing s),
      (\<lambda>m. m = Pin_incorrect, \<lambda>m s. next_state Done_processing (atm_sends hardware Display_pin_incorrect_message s)),
      (\<lambda>m. m = Pin_verified, \<lambda>m s. next_state Wait_for_action s)]"

text \<open>\<open>next_state\<close> with the same state: the function is called again.\<close>

definition getting_pin :: handlers where
  "getting_pin =
     [(\<lambda>m. m = Cancel_pressed, \<lambda>m s. next_state Done_processing s),
      (\<lambda>m. m = Clear_last_pressed, \<lambda>m s.
         next_state Getting_pin (if pin s \<noteq> [] then s\<lparr>pin := butlast (pin s)\<rparr> else s)),
      (is_Digit_pressed, \<lambda>m s.
         let s = s\<lparr>pin := pin s @ [digit_of m]\<rparr>
         in if length (pin s) = 4
            then next_state Verifying_pin (atm_sends bank (Verify_pin (account s) (pin s) atm_incoming) s)
            else next_state Getting_pin s)]"

definition waiting_for_card :: handlers where
  "waiting_for_card =
     [(is_Card_inserted, \<lambda>m s.
         next_state Getting_pin (atm_sends hardware Display_enter_pin (s\<lparr>account := account_of m, pin := []\<rparr>)))]"

definition done_processing :: "system \<Rightarrow> system" where
  "done_processing s = next_state Waiting_for_card (atm_sends hardware Eject_card s)"

text \<open>What a state function does before it waits, and for whom it waits.\<close>

fun atm_enter :: "atm_state \<Rightarrow> system \<Rightarrow> system" where
  "atm_enter Wait_for_action s = (atm_sends hardware Display_withdrawal_options s)\<lparr>entered := True\<rparr>"
| "atm_enter Waiting_for_card s = (atm_sends hardware Display_enter_card s)\<lparr>entered := True\<rparr>"
| "atm_enter Done_processing s = done_processing s"
| "atm_enter _ s = s\<lparr>entered := True\<rparr>"

fun atm_handlers :: "atm_state \<Rightarrow> handlers" where
  "atm_handlers Waiting_for_card = waiting_for_card"
| "atm_handlers Getting_pin = getting_pin"
| "atm_handlers Verifying_pin = verifying_pin"
| "atm_handlers Wait_for_action = wait_for_action"
| "atm_handlers Process_balance = process_balance"
| "atm_handlers Process_withdrawal = process_withdrawal"
| "atm_handlers Done_processing = []"

section \<open>\<open>bank_machine\<close>\<close>

definition bank_handlers :: handlers where
  "bank_handlers =
     [(is_Cancel_withdrawal, \<lambda>m s. s),
      (is_Withdrawal_processed, \<lambda>m s. s),
      (is_Get_balance, \<lambda>m s. bank_sends (atm_queue_of m) (Balance (bank_balance s)) s),
      (is_Withdraw, \<lambda>m s.
         if bank_balance s \<ge> amount_of m
         then later (Machine Bank_machine) (Debit (amount_of m)) (bank_sends (atm_queue_of m) Withdraw_ok s)
         else bank_sends (atm_queue_of m) Withdraw_denied s),
      (is_Verify_pin, \<lambda>m s.
         if pin_of m = ''1937'' then bank_sends (atm_queue_of m) Pin_verified s
         else bank_sends (atm_queue_of m) Pin_incorrect s)]"

section \<open>\<open>interface_machine\<close>\<close>

definition print :: "string \<Rightarrow> system \<Rightarrow> system" where
  "print line s = s\<lparr>screen := screen s @ line @ [CHR 0x0A]\<rparr>"

definition interface_handlers :: handlers where
  "interface_handlers =
     [(\<lambda>m. m = Eject_card, \<lambda>m. print ''Ejecting card''),
      (\<lambda>m. m = Display_pin_incorrect_message, \<lambda>m. print ''PIN incorrect''),
      (\<lambda>m. m = Display_withdrawal_cancelled, \<lambda>m. print ''Withdrawal cancelled''),
      (\<lambda>m. m = Display_withdrawal_options, \<lambda>m s.
         print ''Cancel? (c)'' (print ''Display Balance? (b)'' (print ''Withdraw 50? (w)'' s))),
      (is_Display_balance, \<lambda>m. print (''The balance of your account is '' @ decimal (amount_of m))),
      (\<lambda>m. m = Display_enter_card, \<lambda>m. print ''Please enter your card (I)''),
      (\<lambda>m. m = Display_enter_pin, \<lambda>m. print ''Please enter your PIN (0-9)''),
      (\<lambda>m. m = Display_insufficient_funds, \<lambda>m. print ''Insufficient funds''),
      (is_Issue_money, \<lambda>m s.
         (print (''Issuing '' @ decimal (amount_of m)) s)\<lparr>paid_out := paid_out s + amount_of m\<rparr>)]"

section \<open>\<open>main\<close>\<close>

text \<open>The keys of the loop; \<open>q\<close> ends it and closes the three queues.\<close>

definition press :: "char \<Rightarrow> system \<Rightarrow> system" where
  "press c s =
     (if c \<in> set ''0123456789'' then main_sends atm_incoming (Digit_pressed c) s
      else if c = CHR ''b'' then main_sends atm_incoming Balance_pressed s
      else if c = CHR ''w'' then main_sends atm_incoming (Withdraw_pressed 50) s
      else if c = CHR ''c'' then main_sends atm_incoming Cancel_pressed s
      else if c = CHR ''q'' then
        (main_sends hardware Close_queue (main_sends atm_incoming Close_queue (main_sends bank Close_queue s)))\<lparr>main_running := False\<rparr>
      else if c = CHR ''i'' then main_sends atm_incoming (Card_inserted ''acc1234'') s
      else s)"

text \<open>The constructors: \<open>garbage\<close> is what the uninitialised amount holds.\<close>

definition system_new :: "nat \<Rightarrow> system" where
  "system_new garbage =
     \<lparr>queues = (\<lambda>_. []), running = (\<lambda>_. True), atm_state = Waiting_for_card, entered = False,
      account = [], withdrawal_amount = garbage, pin = [], bank_balance = 199, screen = [],
      paid_out = 0, main_running = True, todo = (\<lambda>_. [])\<rparr>"

section \<open>Steps\<close>

text \<open>A thread takes the first message of its queue and dispatches it; a message that closes the
  queue ends the thread.\<close>

definition deliver :: "machine \<Rightarrow> handlers \<Rightarrow> message \<Rightarrow> system \<Rightarrow> system" where
  "deliver m hs msg s =
     (case dispatch (\<lambda>c. c = Close_queue) hs msg s of
        Handled s' \<Rightarrow> s'
      | Unhandled \<Rightarrow> s
      | Closed \<Rightarrow> s\<lparr>running := (running s)(m := False)\<rparr>)"

definition take_message :: "machine \<Rightarrow> handlers \<Rightarrow> system \<Rightarrow> system outcome" where
  "take_message m hs s =
     and_then (queue_wait_and_pop (queues s m)) (\<lambda>(msg, q).
       Returns (deliver m hs msg (s\<lparr>queues := (queues s)(m := q)\<rparr>)))"

text \<open>One iteration of \<open>run\<close>, up to what is to be sent and debited.\<close>

fun iteration :: "machine \<Rightarrow> system \<Rightarrow> system outcome" where
  "iteration Atm_machine s =
     (if \<not> entered s then Returns (atm_enter (atm_state s) s)
      else take_message Atm_machine (atm_handlers (atm_state s)) s)"
| "iteration Bank_machine s = take_message Bank_machine bank_handlers s"
| "iteration Interface_machine s = take_message Interface_machine interface_handlers s"

text \<open>The next step of a thread that has something to send or to debit.\<close>

definition next_effect :: "thread \<Rightarrow> system \<Rightarrow> system outcome" where
  "next_effect t s =
     (case todo s t of [] \<Rightarrow> Blocks | e # es \<Rightarrow> Returns (perform e (s\<lparr>todo := (todo s)(t := es)\<rparr>)))"

definition machine_step :: "machine \<Rightarrow> system \<Rightarrow> system outcome" where
  "machine_step m s = (if todo s (Machine m) \<noteq> [] then next_effect (Machine m) s else iteration m s)"

inductive atm_step :: "system \<Rightarrow> system \<Rightarrow> bool" where
  key: "main_running s \<Longrightarrow> todo s Keyboard = [] \<Longrightarrow> atm_step s (press c s)"
| sending: "next_effect Keyboard s = Returns s' \<Longrightarrow> atm_step s s'"
| thread: "running s m \<Longrightarrow> machine_step m s = Returns s' \<Longrightarrow> atm_step s s'"

inductive_cases atm_stepE: "atm_step s t"

end
