(* ===== verification/Atm_Safety.thy ===== *)
theory Atm_Safety
  imports Atm
begin

text \<open>
  What the teller machine guarantees under every interleaving of its threads and every sequence of
  keys, and what the messages that a cancelled action leaves behind do to it.
\<close>

section \<open>No more money than the bank has debited\<close>

definition issued :: "message list \<Rightarrow> nat" where
  "issued q = sum_list (List.map amount_of (filter is_Issue_money q))"

definition granted :: "message list \<Rightarrow> nat" where
  "granted q = length (filter (\<lambda>m. m = Withdraw_ok) q)"

text \<open>The messages a thread is about to send, and the debits it is about to make.\<close>

definition sent :: "effect list \<Rightarrow> message list" where
  "sent es = concat (List.map (\<lambda>e. case e of Send to m \<Rightarrow> [m] | Debit a \<Rightarrow> []) es)"

definition debits :: "effect list \<Rightarrow> nat" where
  "debits es = sum_list (List.map (\<lambda>e. case e of Send to m \<Rightarrow> 0 | Debit a \<Rightarrow> a) es)"

abbreviation debit_due :: "system \<Rightarrow> nat" where
  "debit_due s \<equiv> debits (todo s (Machine Bank_machine))"

text \<open>All withdrawals are of the 50 that the key asks for; the money on its way is bounded by what
  the bank has debited or is about to debit.\<close>

definition fifty :: "message \<Rightarrow> bool" where
  "fifty m \<longleftrightarrow> (is_Withdraw m \<or> is_Withdraw_pressed m \<longrightarrow> amount_of m = 50)"

definition money_bound :: "system \<Rightarrow> bool" where
  "money_bound s \<longleftrightarrow>
     paid_out s + issued (queues s Interface_machine) + issued (sent (todo s (Machine Atm_machine)))
       + 50 * granted (queues s Atm_machine) + 50 * granted (sent (todo s (Machine Bank_machine))) + bank_balance s
     \<le> 199 + debit_due s"

definition money_ok :: "system \<Rightarrow> bool" where
  "money_ok s \<longleftrightarrow> list_all fifty (queues s Bank_machine) \<and> list_all fifty (queues s Atm_machine)
     \<and> (\<forall>t. list_all fifty (sent (todo s t)))
     \<and> (\<forall>t. t \<noteq> Machine Atm_machine \<longrightarrow> issued (sent (todo s t)) = 0)
     \<and> (\<forall>t. t \<noteq> Machine Bank_machine \<longrightarrow> granted (sent (todo s t)) = 0 \<and> debits (todo s t) = 0)
     \<and> (atm_state s = Process_withdrawal \<longrightarrow> withdrawal_amount s = 50)
     \<and> debit_due s \<le> bank_balance s \<and> money_bound s"

lemma queue_counts [simp]:
  "issued [] = 0" "issued (m # q) = (if is_Issue_money m then amount_of m else 0) + issued q"
  "issued (queue_push m q) = (if is_Issue_money m then amount_of m else 0) + issued q"
  "granted [] = 0" "granted (m # q) = (if m = Withdraw_ok then 1 else 0) + granted q"
  "granted (queue_push m q) = (if m = Withdraw_ok then 1 else 0) + granted q"
  "list_all fifty (queue_push m q) \<longleftrightarrow> fifty m \<and> list_all fifty q"
  by (auto simp: issued_def granted_def queue_push_def)

lemma effect_counts [simp]:
  "sent [] = []" "sent (Send to m # es) = m # sent es" "sent (Debit a # es) = sent es" "sent (es @ fs) = sent es @ sent fs"
  "debits [] = 0" "debits (Send to m # es) = debits es" "debits (Debit a # es) = a + debits es"
  "debits (es @ fs) = debits es + debits fs"
  "issued (p @ q) = issued p + issued q" "granted (p @ q) = granted p + granted q"
  by (simp_all add: sent_def debits_def issued_def granted_def)

text \<open>Sending a message and debiting keep the bound.\<close>

lemma money_perform:
  assumes ok: "money_ok s" and t: "todo s t = e # es"
  shows "money_ok (perform e (s\<lparr>todo := (todo s)(t := es)\<rparr>))"
proof (cases e)
  case (Debit a)
  have "t = Machine Bank_machine \<or> a = 0" using ok t Debit by (auto simp: money_ok_def dest: spec [of _ t])
  then show ?thesis
    using ok t Debit by (auto simp: money_ok_def money_bound_def perform_def dest: spec [of _ t])
next
  case (Send to m)
  have f: "fifty m" using ok t Send by (auto simp: money_ok_def dest: spec [of _ t])
  have i: "t = Machine Atm_machine \<or> (is_Issue_money m \<longrightarrow> amount_of m = 0)"
    using ok t Send by (auto simp: money_ok_def dest: spec [of _ t])
  have g: "t = Machine Bank_machine \<or> m \<noteq> Withdraw_ok"
    using ok t Send by (force simp: money_ok_def dest: spec [of _ t])
  have other: "list_all fifty (sent es)" "t \<noteq> Machine Atm_machine \<Longrightarrow> issued (sent es) = 0"
    "t \<noteq> Machine Bank_machine \<Longrightarrow> granted (sent es) = 0 \<and> debits es = 0"
    using ok t Send unfolding money_ok_def by (force dest: spec [of _ t])+
  have bound: "money_bound (send to m (s\<lparr>todo := (todo s)(t := es)\<rparr>))"
    using ok t Send i g
    by (cases to; cases "the to") (auto simp: money_ok_def money_bound_def send_def split: if_splits)
  show ?thesis
    using ok t f other bound Send
    by (cases to) (auto simp: money_ok_def perform_def send_def)
qed

lemma money_next_effect: "money_ok s \<Longrightarrow> next_effect t s = Returns s' \<Longrightarrow> money_ok s'"
  by (auto simp: next_effect_def money_perform split: list.splits)

lemma money_later:
  "money_ok s \<Longrightarrow> fifty m \<Longrightarrow> m \<noteq> Withdraw_ok \<Longrightarrow> \<not> is_Issue_money m \<Longrightarrow> money_ok (later t (Send to m) s)"
  by (auto simp: money_ok_def money_bound_def later_def)

lemmas sends_defs = atm_sends_def bank_sends_def main_sends_def

lemma money_fields [simp]:
  "money_ok (s\<lparr>pin := p\<rparr>) = money_ok s" "money_ok (s\<lparr>account := a\<rparr>) = money_ok s"
  "money_ok (s\<lparr>running := r\<rparr>) = money_ok s" "money_ok (s\<lparr>entered := e\<rparr>) = money_ok s"
  "money_ok (s\<lparr>main_running := b\<rparr>) = money_ok s" "money_ok (s\<lparr>screen := sc\<rparr>) = money_ok s"
  by (simp_all add: money_ok_def money_bound_def)

lemma money_next: "money_ok s \<Longrightarrow> st \<noteq> Process_withdrawal \<Longrightarrow> money_ok (next_state st s)"
  by (simp add: money_ok_def money_bound_def next_state_def)

lemma money_press: "money_ok s \<Longrightarrow> money_ok (press c s)"
  by (simp add: press_def money_later fifty_def sends_defs)

lemma money_enter: "money_ok s \<Longrightarrow> money_ok (atm_enter st s)"
  by (cases st) (simp_all add: money_later money_next fifty_def done_processing_def sends_defs)

lemma take_messageE:
  assumes "take_message m hs s = Returns s'"
  obtains msg q where "queues s m = msg # q" "s' = deliver m hs msg (s\<lparr>queues := (queues s)(m := q)\<rparr>)"
  using assms by (cases "queues s m") (auto simp: take_message_def queue_wait_and_pop_def)

text \<open>Taking a message off a queue.\<close>

lemma money_drop:
  assumes "money_ok s" "queues s m = msg # q"
  shows "money_ok (s\<lparr>queues := (queues s)(m := q)\<rparr>)"
    "m \<noteq> Interface_machine \<Longrightarrow> fifty msg"
  using assms by (cases m; force simp: money_ok_def money_bound_def)+

lemmas state_functions = waiting_for_card_def getting_pin_def verifying_pin_def wait_for_action_def
  process_balance_def process_withdrawal_def

text \<open>A message goes to the handler that accepts it, or the state stays as it is.\<close>

lemma deliver_ok:
  assumes "list_all (\<lambda>(t, f). t msg \<longrightarrow> P (f msg s)) hs" "P s" "P (s\<lparr>running := (running s)(m := False)\<rparr>)"
  shows "P (deliver m hs msg s)"
proof -
  have "list_all (\<lambda>(t, f). t msg \<longrightarrow> P (f msg s)) hs \<Longrightarrow> dispatch (\<lambda>c. c = Close_queue) hs msg s = Handled t \<Longrightarrow> P t" for t
    by (induction hs) (auto split: if_splits)
  then show ?thesis
    using assms by (simp add: deliver_def split: dispatched.splits)
qed

lemma money_bank:
  assumes ok: "money_ok s" and idle: "todo s (Machine Bank_machine) = []"
    and take: "take_message Bank_machine bank_handlers s = Returns s'"
  shows "money_ok s'"
proof -
  from take obtain msg q where q: "queues s Bank_machine = msg # q"
    and s': "s' = deliver Bank_machine bank_handlers msg (s\<lparr>queues := (queues s)(Bank_machine := q)\<rparr>)"
    by (rule take_messageE)
  define s1 where "s1 = s\<lparr>queues := (queues s)(Bank_machine := q)\<rparr>"
  have ok1: "money_ok s1" and f: "fifty msg" unfolding s1_def by (rule money_drop [OF ok q]; simp)+
  have idle1: "todo s1 (Machine Bank_machine) = []" using idle by (simp add: s1_def)
  have "money_ok (later (Machine Bank_machine) (Debit 50) (bank_sends to Withdraw_ok s1))"
    if "bank_balance s1 \<ge> 50" for to
    using ok1 idle1 that by (auto simp: money_ok_def money_bound_def later_def bank_sends_def fifty_def)
  then have "list_all (\<lambda>(t, f). t msg \<longrightarrow> money_ok (f msg s1)) bank_handlers"
    using ok1 f by (auto simp: bank_handlers_def money_later bank_sends_def fifty_def)
  then have "money_ok (deliver Bank_machine bank_handlers msg s1)"
    by (rule deliver_ok) (simp_all add: ok1)
  then show ?thesis by (simp add: s' s1_def)
qed

lemma money_interface:
  assumes "money_ok s" "take_message Interface_machine interface_handlers s = Returns s'"
  shows "money_ok s'"
proof -
  from assms(2) obtain msg q where "queues s Interface_machine = msg # q"
    "s' = deliver Interface_machine interface_handlers msg (s\<lparr>queues := (queues s)(Interface_machine := q)\<rparr>)"
    by (rule take_messageE)
  then show ?thesis
    using assms(1)
    by (cases msg) (simp_all add: deliver_def interface_handlers_def money_ok_def money_bound_def print_def)
qed

lemma money_issue:
  assumes "money_ok s" "queues s Atm_machine = Withdraw_ok # q" "atm_state s = Process_withdrawal"
  shows "money_ok (atm_sends hardware (Issue_money (withdrawal_amount s)) (s\<lparr>queues := (queues s)(Atm_machine := q)\<rparr>))"
  using assms by (simp add: money_ok_def money_bound_def later_def atm_sends_def fifty_def)

lemma money_withdraw:
  assumes "money_ok s" "a = 50"
  shows "money_ok (next_state Process_withdrawal (atm_sends to (Withdraw acc a from) (s\<lparr>withdrawal_amount := a\<rparr>)))"
  using assms by (auto simp: money_ok_def money_bound_def next_state_def later_def atm_sends_def fifty_def)

lemma money_handlers:
  assumes "money_ok s" "fifty msg"
    and "msg = Withdraw_ok \<Longrightarrow> st = Process_withdrawal \<Longrightarrow> money_ok (atm_sends hardware (Issue_money (withdrawal_amount s)) s)"
  shows "list_all (\<lambda>(t, f). t msg \<longrightarrow> money_ok (f msg s)) (atm_handlers st)"
proof (cases st)
  case Wait_for_action
  then show ?thesis
    using assms money_withdraw [OF assms(1)]
    by (simp add: wait_for_action_def money_next money_later fifty_def atm_sends_def)
next
  case Process_withdrawal
  then show ?thesis
    using assms by (simp add: process_withdrawal_def money_next money_later fifty_def atm_sends_def)
qed (use assms in \<open>simp_all add: state_functions money_next money_later fifty_def atm_sends_def Let_def\<close>)

lemma money_atm:
  assumes ok: "money_ok s" and take: "take_message Atm_machine (atm_handlers (atm_state s)) s = Returns s'"
  shows "money_ok s'"
proof -
  from take obtain msg q where q: "queues s Atm_machine = msg # q"
    and s': "s' = deliver Atm_machine (atm_handlers (atm_state s)) msg (s\<lparr>queues := (queues s)(Atm_machine := q)\<rparr>)"
    by (rule take_messageE)
  define s1 where "s1 = s\<lparr>queues := (queues s)(Atm_machine := q)\<rparr>"
  have ok1: "money_ok s1" and f: "fifty msg" unfolding s1_def by (rule money_drop [OF ok q]; simp)+
  have iss: "money_ok (atm_sends hardware (Issue_money (withdrawal_amount s1)) s1)"
    if "msg = Withdraw_ok" "atm_state s = Process_withdrawal"
    using money_issue [OF ok _ that(2), of q] q that(1) by (simp add: s1_def)
  have "money_ok (deliver Atm_machine (atm_handlers (atm_state s)) msg s1)"
    by (rule deliver_ok) (use money_handlers [OF ok1 f iss] ok1 in simp_all)
  then show ?thesis by (simp add: s' s1_def)
qed

lemma money_step:
  assumes ok: "money_ok s" and step: "machine_step m s = Returns s'"
  shows "money_ok s'"
proof (cases "todo s (Machine m) = []")
  case False
  then show ?thesis using assms money_next_effect [OF ok] by (auto simp: machine_step_def)
next
  case True
  then have it: "iteration m s = Returns s'" using step by (simp add: machine_step_def)
  show ?thesis
    using it True ok money_enter [OF ok] money_atm [OF ok] money_bank [OF ok] money_interface [OF ok]
    by (cases m; cases "entered s") auto
qed

lemma money_reachable: "atm_step\<^sup>*\<^sup>* (system_new garbage) s \<Longrightarrow> money_ok s"
proof (induction rule: rtranclp_induct)
  case base
  show ?case by (simp add: money_ok_def money_bound_def system_new_def)
next
  case (step s t)
  from step.hyps(2) step.IH show ?case
    by (cases rule: atm_step.cases) (auto intro: money_press money_next_effect money_step)
qed

section \<open>Runs\<close>

text \<open>A schedule: keys and steps of the three threads.\<close>

datatype act = Key char | Sends | Run machine

fun atm_act :: "act \<Rightarrow> system \<Rightarrow> system outcome" where
  "atm_act (Key c) s = (if main_running s \<and> todo s Keyboard = [] then Returns (press c s) else Blocks)"
| "atm_act Sends s = next_effect Keyboard s"
| "atm_act (Run m) s = (if running s m then machine_step m s else Blocks)"

fun atm_run :: "act list \<Rightarrow> system \<Rightarrow> system outcome" where
  "atm_run [] s = Returns s"
| "atm_run (a # as) s = and_then (atm_act a s) (atm_run as)"

lemma atm_run_reachable: "atm_run as s = Returns t \<Longrightarrow> atm_step\<^sup>*\<^sup>* s t"
proof (induction as arbitrary: s)
  case (Cons a as)
  then obtain u where u: "atm_act a s = Returns u" "atm_run as u = Returns t"
    by (cases "atm_act a s") auto
  have "atm_step s u"
    using u(1) by (cases a) (auto intro: atm_step.intros split: if_splits)
  then show ?case using Cons.IH [OF u(2)] by (rule converse_rtranclp_into_rtranclp)
qed simp

text \<open>Parts of schedules: a key and its message, a card, a PIN, and the three machines; \<open>atm2\<close> takes a
  message, or enters a state, and sends one message, \<open>bnk2\<close> likewise.\<close>

definition key_pressed :: "char \<Rightarrow> act list" where
  "key_pressed c = [Key c, Sends]"

abbreviation "atm \<equiv> Run Atm_machine"
abbreviation "bnk \<equiv> Run Bank_machine"
abbreviation "scr \<equiv> Run Interface_machine"
abbreviation "atm2 \<equiv> [atm, atm]"
abbreviation "bnk2 \<equiv> [bnk, bnk]"

definition insert_card :: "act list" where
  "insert_card = atm2 @ key_pressed CHR ''i'' @ atm2 @ [atm]"

text \<open>With the fourth digit the machine asks the bank.\<close>

definition enter_pin :: "string \<Rightarrow> act list" where
  "enter_pin p = concat (List.map (\<lambda>c. key_pressed c @ atm2) p) @ [atm]"

text \<open>The machine takes the answer about the PIN, shows the options, and takes the wish for money.\<close>

definition ask_for_money :: "act list" where
  "ask_for_money = [atm] @ atm2 @ key_pressed CHR ''w'' @ atm2 @ [atm]"

text \<open>A customer enters the right PIN and takes the money.\<close>

definition withdrawal :: "act list" where
  "withdrawal = insert_card @ enter_pin ''1937'' @ bnk2 @ ask_for_money @ bnk2 @ [bnk, atm, atm] @ replicate 4 scr"

text \<open>The same, but the money comes out before the bank debits it.\<close>

definition early_money :: "act list" where
  "early_money = insert_card @ enter_pin ''1937'' @ bnk2 @ ask_for_money @ bnk2 @ [atm, atm] @ replicate 4 scr"



definition ends_in :: "(system \<Rightarrow> bool) \<Rightarrow> act list \<Rightarrow> bool" where
  "ends_in P as = (case atm_run as (system_new 0) of Returns s \<Rightarrow> P s | _ \<Rightarrow> False)"

lemma ends_in_reachable: "ends_in P as \<Longrightarrow> \<exists>s. atm_step\<^sup>*\<^sup>* (system_new 0) s \<and> P s"
  using atm_run_reachable by (auto simp: ends_in_def split: outcome.splits)

section \<open>Properties\<close>

text \<open>
  C13. Whatever keys are pressed and however the steps of the three threads and of \<open>main\<close> interleave, the
  money paid out and the balance, less what the bank has granted and is about to debit, never exceed the
  199 the account started with, and there is always enough to debit: the machine never pays out more than
  the bank has debited or is about to debit, messages that arrive late after a cancelled withdrawal
  included. While the bank has no debit to make, what is paid out and the balance are at most 199. (The
  debit comes after the answer, so for a while money can be out that is still in the balance.)
\<close>

theorem atm_pays_what_is_debited:
  assumes "atm_step\<^sup>*\<^sup>* (system_new garbage) s"
  shows "paid_out s + (bank_balance s - debit_due s) \<le> 199 \<and> debit_due s \<le> bank_balance s
    \<and> (todo s (Machine Bank_machine) = [] \<longrightarrow> paid_out s + bank_balance s \<le> 199)"
  using money_reachable [OF assms] by (auto simp: money_ok_def money_bound_def)

text \<open>The money is out before the debit, and after it.\<close>

theorem atm_pays_what_is_debited_witness:
  "\<exists>(s :: system) (t :: system). paid_out s = 50 \<and> bank_balance s = 199 \<and> debit_due s = 50
     \<and> paid_out t = 50 \<and> bank_balance t = 149 \<and> paid_out t + bank_balance t \<le> 199"
proof -
  have "ends_in (\<lambda>s. paid_out s = 50 \<and> bank_balance s = 199 \<and> debit_due s = 50) early_money" by code_simp
  then obtain s where s: "atm_step\<^sup>*\<^sup>* (system_new 0) s" "paid_out s = 50" "bank_balance s = 199" "debit_due s = 50"
    using ends_in_reachable by blast
  have "ends_in (\<lambda>s. paid_out s = 50 \<and> bank_balance s = 149 \<and> todo s (Machine Bank_machine) = []) withdrawal"
    by code_simp
  then obtain t where t: "atm_step\<^sup>*\<^sup>* (system_new 0) t" "paid_out t = 50" "bank_balance t = 149"
      "todo t (Machine Bank_machine) = []"
    using ends_in_reachable by blast
  show ?thesis using atm_pays_what_is_debited [OF t(1)] s(2-) t(2-) by blast
qed


end
