(* ===== verification/Lookup_Table.thy ===== *)
theory Lookup_Table
  imports Node_Heap
begin

text \<open>
  \<open>cpp-concurrency-in-action/6.lock_based/threadsafe_lookup_table.hpp\<close>: a hash table of buckets,
  each a list of pairs under a mutex of its own. An operation locks one bucket for as long as it
  runs, so operations on a bucket follow one another; here they are taken one at a time. The hash
  function is a parameter, as it is in the code.
\<close>

section \<open>The contract of a dictionary\<close>

datatype ('k, 'v) dict_op = Value_for 'k 'v | Add_or_update 'k 'v | Remove 'k

fun dict_spec :: "('k, 'v) dict_op list \<Rightarrow> ('k \<rightharpoonup> 'v) \<Rightarrow> 'v list" where
  "dict_spec [] m = []"
| "dict_spec (Value_for k d # ops) m = (case m k of None \<Rightarrow> d | Some v \<Rightarrow> v) # dict_spec ops m"
| "dict_spec (Add_or_update k v # ops) m = dict_spec ops (m(k \<mapsto> v))"
| "dict_spec (Remove k # ops) m = dict_spec ops (m(k := None))"

fun dict_run :: "('k \<Rightarrow> 'v \<Rightarrow> 's \<Rightarrow> 'v outcome) \<Rightarrow> ('k \<Rightarrow> 'v \<Rightarrow> 's \<Rightarrow> 's outcome) \<Rightarrow> ('k \<Rightarrow> 's \<Rightarrow> 's outcome)
    \<Rightarrow> ('k, 'v) dict_op list \<Rightarrow> 's \<Rightarrow> 'v list outcome" where
  "dict_run look upd rem [] s = Returns []"
| "dict_run look upd rem (Value_for k d # ops) s =
     and_then (look k d s) (\<lambda>v. and_then (dict_run look upd rem ops s) (\<lambda>vs. Returns (v # vs)))"
| "dict_run look upd rem (Add_or_update k v # ops) s = and_then (upd k v s) (dict_run look upd rem ops)"
| "dict_run look upd rem (Remove k # ops) s = and_then (rem k s) (dict_run look upd rem ops)"

locale dictionary =
  fixes look :: "'k \<Rightarrow> 'v \<Rightarrow> 's \<Rightarrow> 'v outcome"
    and upd :: "'k \<Rightarrow> 'v \<Rightarrow> 's \<Rightarrow> 's outcome"
    and rem :: "'k \<Rightarrow> 's \<Rightarrow> 's outcome"
    and rep :: "'s \<Rightarrow> ('k \<rightharpoonup> 'v) \<Rightarrow> bool"
  assumes look_rep: "rep s m \<Longrightarrow> look k d s = Returns (case m k of None \<Rightarrow> d | Some v \<Rightarrow> v)"
    and upd_rep: "rep s m \<Longrightarrow> \<exists>s'. upd k v s = Returns s' \<and> rep s' (m(k \<mapsto> v))"
    and rem_rep: "rep s m \<Longrightarrow> \<exists>s'. rem k s = Returns s' \<and> rep s' (m(k := None))"
begin

lemma run_rep: "rep s m \<Longrightarrow> dict_run look upd rem ops s = Returns (dict_spec ops m)"
proof (induction ops m arbitrary: s rule: dict_spec.induct)
  case (2 k d ops m)
  then show ?case by (simp add: look_rep)
next
  case (3 k v ops m)
  obtain s' where "upd k v s = Returns s'" "rep s' (m(k \<mapsto> v))"
    using upd_rep [OF "3.prems"] by blast
  then show ?case using "3.IH" [OF \<open>rep s' (m(k \<mapsto> v))\<close>] by (simp add: fun_upd_def)
next
  case (4 k ops m)
  obtain s' where "rem k s = Returns s'" "rep s' (m(k := None))"
    using rem_rep [OF "4.prems"] by blast
  then show ?case using "4.IH" [OF \<open>rep s' (m(k := None))\<close>] by (simp add: fun_upd_def)
qed simp

end

section \<open>\<open>bucket_type\<close>\<close>

type_synonym ('k, 'v) bucket = "('k \<times> 'v) list"

text \<open>An iterator is a position; \<open>std::find_if\<close> returns the first match or the end.\<close>

fun find_entry_for :: "'k \<Rightarrow> ('k, 'v) bucket \<Rightarrow> nat" where
  "find_entry_for key [] = 0"
| "find_entry_for key (item # data) = (if fst item = key then 0 else Suc (find_entry_for key data))"

definition bucket_value_for :: "'k \<Rightarrow> 'v \<Rightarrow> ('k, 'v) bucket \<Rightarrow> 'v" where
  "bucket_value_for key default_value data =
     (let found_entry = find_entry_for key data
      in if found_entry = length data then default_value else snd (data ! found_entry))"

definition bucket_add_or_update :: "'k \<Rightarrow> 'v \<Rightarrow> ('k, 'v) bucket \<Rightarrow> ('k, 'v) bucket" where
  "bucket_add_or_update key value data =
     (let found_entry = find_entry_for key data
      in if found_entry = length data then data @ [(key, value)]
         else data[found_entry := (fst (data ! found_entry), value)])"

definition bucket_remove :: "'k \<Rightarrow> ('k, 'v) bucket \<Rightarrow> ('k, 'v) bucket" where
  "bucket_remove key data =
     (let found_entry = find_entry_for key data
      in if found_entry \<noteq> length data then take found_entry data @ drop (Suc found_entry) data else data)"

text \<open>Keys occur once; then a bucket is a map.\<close>

definition bucket_ok :: "('k, 'v) bucket \<Rightarrow> bool" where
  "bucket_ok data \<longleftrightarrow> distinct (List.map fst data)"

lemma find_entry_le: "find_entry_for k data \<le> length data"
  by (induction data) auto

lemma find_entry_end: "find_entry_for k data = length data \<longleftrightarrow> k \<notin> fst ` set data"
  by (induction data) auto

lemma bucket_value_for_map: "bucket_value_for k d data = (case map_of data k of None \<Rightarrow> d | Some v \<Rightarrow> v)"
  unfolding bucket_value_for_def Let_def by (induction data) auto

lemma bucket_add_Cons:
  "bucket_add_or_update k v (item # data) =
     (if fst item = k then (fst item, v) # data else item # bucket_add_or_update k v data)"
  by (auto simp: bucket_add_or_update_def Let_def)

lemma bucket_add_map: "map_of (bucket_add_or_update k v data) = (map_of data)(k \<mapsto> v)"
proof (induction data)
  case (Cons item data)
  then show ?case by (cases item) (auto simp: bucket_add_Cons)
qed (simp add: bucket_add_or_update_def)

lemma bucket_add_keys: "fst ` set (bucket_add_or_update k v data) = insert k (fst ` set data)"
proof (induction data)
  case (Cons item data)
  then show ?case by (auto simp: bucket_add_Cons)
qed (simp add: bucket_add_or_update_def)

lemma bucket_add_ok: "bucket_ok data \<Longrightarrow> bucket_ok (bucket_add_or_update k v data)"
proof (induction data)
  case (Cons item data)
  then show ?case
    using bucket_add_keys [of k v data] by (auto simp: bucket_add_Cons bucket_ok_def)
qed (simp add: bucket_add_or_update_def bucket_ok_def)

lemma bucket_remove_Cons:
  "bucket_remove k (item # data) = (if fst item = k then data else item # bucket_remove k data)"
  by (auto simp: bucket_remove_def Let_def)

lemma bucket_remove_keys: "fst ` set (bucket_remove k data) \<subseteq> fst ` set data"
proof (induction data)
  case (Cons item data)
  then show ?case by (auto simp: bucket_remove_Cons)
qed (simp add: bucket_remove_def)

lemma bucket_remove_ok: "bucket_ok data \<Longrightarrow> bucket_ok (bucket_remove k data)"
proof (induction data)
  case (Cons item data)
  then show ?case
    using bucket_remove_keys [of k data] by (auto simp: bucket_remove_Cons bucket_ok_def)
qed (simp add: bucket_remove_def)

lemma bucket_remove_map: "bucket_ok data \<Longrightarrow> map_of (bucket_remove k data) = (map_of data)(k := None)"
proof (induction data)
  case (Cons item data)
  then have d: "bucket_ok data" "fst item \<notin> fst ` set data" by (auto simp: bucket_ok_def)
  show ?case
  proof (cases "fst item = k")
    case True
    then have "map_of data k = None" using d by (simp add: map_of_eq_None_iff)
    then show ?thesis using True by (cases item) (auto simp: bucket_remove_Cons)
  next
    case False
    then show ?thesis using Cons.IH [OF d(1)] by (cases item) (auto simp: bucket_remove_Cons)
  qed
qed (simp add: bucket_remove_def)

interpretation bucket: dictionary
  "\<lambda>k d b. Returns (bucket_value_for k d b)" "\<lambda>k v b. Returns (bucket_add_or_update k v b)"
  "\<lambda>k b. Returns (bucket_remove k b)" "\<lambda>b m. bucket_ok b \<and> map_of b = m"
  by unfold_locales (auto simp: bucket_value_for_map bucket_add_map bucket_add_ok bucket_remove_map bucket_remove_ok)

section \<open>\<open>threadsafe_lookup_table\<close>\<close>

type_synonym ('k, 'v) table = "('k, 'v) bucket list"

definition table_new :: "nat \<Rightarrow> ('k, 'v) table" where
  "table_new num_buckets = replicate num_buckets []"

text \<open>The index of the bucket of a key; with no buckets, a division by zero.\<close>

definition get_bucket :: "('k \<Rightarrow> nat) \<Rightarrow> 'k \<Rightarrow> ('k, 'v) table \<Rightarrow> nat outcome" where
  "get_bucket hasher key t = (if length t = 0 then Undefined else Returns (hasher key mod length t))"

definition table_value_for :: "('k \<Rightarrow> nat) \<Rightarrow> 'k \<Rightarrow> 'v \<Rightarrow> ('k, 'v) table \<Rightarrow> 'v outcome" where
  "table_value_for hasher key default_value t =
     and_then (get_bucket hasher key t) (\<lambda>i. Returns (bucket_value_for key default_value (t ! i)))"

definition table_add_or_update :: "('k \<Rightarrow> nat) \<Rightarrow> 'k \<Rightarrow> 'v \<Rightarrow> ('k, 'v) table \<Rightarrow> ('k, 'v) table outcome" where
  "table_add_or_update hasher key value t =
     and_then (get_bucket hasher key t) (\<lambda>i. Returns (t[i := bucket_add_or_update key value (t ! i)]))"

definition table_remove :: "('k \<Rightarrow> nat) \<Rightarrow> 'k \<Rightarrow> ('k, 'v) table \<Rightarrow> ('k, 'v) table outcome" where
  "table_remove hasher key t =
     and_then (get_bucket hasher key t) (\<lambda>i. Returns (t[i := bucket_remove key (t ! i)]))"

definition table_rep :: "('k \<Rightarrow> nat) \<Rightarrow> ('k, 'v) table \<Rightarrow> ('k \<rightharpoonup> 'v) \<Rightarrow> bool" where
  "table_rep hasher t m \<longleftrightarrow> t \<noteq> []
     \<and> (\<forall>i<length t. bucket_ok (t ! i) \<and> (\<forall>k\<in>fst ` set (t ! i). hasher k mod length t = i))
     \<and> (\<forall>k. m k = map_of (t ! (hasher k mod length t)) k)"

lemma table_new_rep: "0 < n \<Longrightarrow> table_rep hasher (table_new n) Map.empty"
  by (simp add: table_rep_def table_new_def bucket_ok_def)

lemma table_update_rep:
  assumes rep: "table_rep hasher t m" and i: "i = hasher k mod length t"
    and b: "bucket_ok b" "fst ` set b \<subseteq> insert k (fst ` set (t ! i))"
    and map: "map_of b = (map_of (t ! i))(k := x)"
  shows "table_rep hasher (t[i := b]) (m(k := x))"
proof -
  have t: "t \<noteq> []" and il: "i < length t" using rep i by (auto simp: table_rep_def)
  have others: "hasher k' mod length t = j" if "j < length t" "k' \<in> fst ` set (t ! j)" for j k'
    using rep that unfolding table_rep_def by blast
  have keys: "hasher k' mod length t = i" if "k' \<in> fst ` set b" for k'
    using subsetD [OF b(2) that] others [OF il] i by blast
  have ok: "bucket_ok (t ! j)" if "j < length t" for j
    using rep that by (simp add: table_rep_def)
  have map': "(m(k := x)) k' = map_of (t[i := b] ! (hasher k' mod length t)) k'" for k'
  proof (cases "hasher k' mod length t = i")
    case True
    then show ?thesis using rep il map by (simp add: table_rep_def)
  next
    case False
    then have "k' \<noteq> k" using i by blast
    then show ?thesis using rep False by (simp add: table_rep_def)
  qed
  show ?thesis
    unfolding table_rep_def length_list_update
  proof (intro conjI allI impI ballI)
    fix j k' assume j: "j < length t"
    show "bucket_ok (t[i := b] ! j)" using ok [OF j] b(1) il by (simp add: nth_list_update)
    show "hasher k' mod length t = j" if "k' \<in> fst ` set (t[i := b] ! j)"
      using that keys others [OF j] il by (cases "i = j") simp_all
  qed (use t map' in simp_all)
qed

lemma get_bucket_rep:
  assumes "table_rep hasher t m"
  shows "get_bucket hasher k t = Returns (hasher k mod length t)"
    and "bucket_ok (t ! (hasher k mod length t))"
    and "m k = map_of (t ! (hasher k mod length t)) k"
  using assms by (auto simp: table_rep_def get_bucket_def)

lemma table_value_for_rep:
  "table_rep hasher t m \<Longrightarrow> table_value_for hasher k d t = Returns (case m k of None \<Rightarrow> d | Some v \<Rightarrow> v)"
  by (simp add: table_value_for_def get_bucket_rep bucket_value_for_map)

lemma table_add_rep:
  assumes "table_rep hasher t m"
  shows "\<exists>t'. table_add_or_update hasher k v t = Returns t' \<and> table_rep hasher t' (m(k \<mapsto> v))"
  using table_update_rep [OF assms refl bucket_add_ok [OF get_bucket_rep(2) [OF assms]] _ bucket_add_map]
  by (simp add: table_add_or_update_def get_bucket_rep(1) [OF assms] bucket_add_keys)

lemma table_remove_rep:
  assumes "table_rep hasher t m"
  shows "\<exists>t'. table_remove hasher k t = Returns t' \<and> table_rep hasher t' (m(k := None))"
  using table_update_rep [OF assms refl bucket_remove_ok [OF get_bucket_rep(2) [OF assms]]
      subset_insertI2 [OF bucket_remove_keys] bucket_remove_map [OF get_bucket_rep(2) [OF assms]]]
  by (simp add: table_remove_def get_bucket_rep(1) [OF assms])

interpretation table: dictionary "table_value_for hasher" "table_add_or_update hasher" "table_remove hasher"
  "table_rep hasher" for hasher
  by unfold_locales (rule table_value_for_rep table_add_rep table_remove_rep, assumption)+

text \<open>C18. A table made with any number of buckets but 0 answers every sequence of operations the way
  one map does, whatever the hash function; made with 0 buckets, its first operation divides by zero.\<close>

theorem lookup_table_is_a_map:
  "dict_run (table_value_for hasher) (table_add_or_update hasher) (table_remove hasher) ops (table_new n) =
     (if n = 0 \<and> ops \<noteq> [] then Undefined else Returns (dict_spec ops Map.empty))"
proof (cases "n = 0")
  case True
  show ?thesis
  proof (cases ops)
    case (Cons op ops')
    then show ?thesis using True by (cases op)
      (simp_all add: table_value_for_def table_add_or_update_def table_remove_def get_bucket_def table_new_def)
  qed simp
next
  case False
  then show ?thesis using table.run_rep [OF table_new_rep] by simp
qed

end
