(* ===== verification/Hierarchical_Mutex.thy ===== *)
theory Hierarchical_Mutex
  imports Node_Heap "HOL-Library.Word"
begin

text \<open>
  \<open>cpp-concurrency-in-action/3.8.hierarchical_mutex/3.8.hierarchical_mutex.cpp\<close>: a mutex that throws
  when a thread takes the mutexes of its program out of the order of their hierarchy values. Any number
  of threads and mutexes, interleaved: \<open>lock\<close> checks, then waits for the mutex, and the two are
  separate steps. The hierarchy value of every mutex (\<open>h\<close>) is a parameter, and so is the value a
  thread starts with, since the static member that holds it is declared but never defined.
\<close>

section \<open>The class\<close>

text \<open>\<open>unsigned long\<close> has 32 bits with the compiler of the project file.\<close>

type_synonym level = "32 word"

text \<open>
  Per mutex its owner and \<open>_previous_hierarchy_value\<close>, per thread \<open>_this_thread_hierarchy_value\<close> and
  the mutex it waits for inside \<open>lock\<close>; and, for the statements only, the mutexes it holds, the last
  one first.
\<close>

record hier =
  owner :: "nat \<Rightarrow> nat option"
  previous_value :: "nat \<Rightarrow> level"
  this_value :: "nat \<Rightarrow> level"
  locking :: "nat \<Rightarrow> nat option"
  held :: "nat \<Rightarrow> nat list"

definition hier_new :: "level \<Rightarrow> hier" where
  "hier_new init =
     \<lparr>owner = (\<lambda>_. None), previous_value = (\<lambda>_. 0), this_value = (\<lambda>_. init), locking = (\<lambda>_. None), held = (\<lambda>_. [])\<rparr>"

definition check_for_hierarchy_violation :: "(nat \<Rightarrow> level) \<Rightarrow> nat \<Rightarrow> nat \<Rightarrow> hier \<Rightarrow> string + unit" where
  "check_for_hierarchy_violation h m i s =
     (if this_value s i \<le> h m then Inl ''mutex hierarchy violated'' else Inr ())"

definition update_hierarchy_value :: "(nat \<Rightarrow> level) \<Rightarrow> nat \<Rightarrow> nat \<Rightarrow> hier \<Rightarrow> hier" where
  "update_hierarchy_value h m i s =
     s\<lparr>previous_value := (previous_value s)(m := this_value s i), this_value := (this_value s)(i := h m)\<rparr>"

text \<open>\<open>_mutex.lock()\<close>; a thread that owns the mutex must not lock it again.\<close>

definition mutex_lock :: "nat \<Rightarrow> nat \<Rightarrow> hier \<Rightarrow> hier outcome" where
  "mutex_lock m i s =
     (case owner s m of
        None \<Rightarrow> Returns (s\<lparr>owner := (owner s)(m \<mapsto> i), held := (held s)(i := m # held s i)\<rparr>)
      | Some j \<Rightarrow> if j = i then Undefined else Blocks)"

text \<open>\<open>lock\<close>: the check, and what follows it.\<close>

definition lock_check :: "(nat \<Rightarrow> level) \<Rightarrow> nat \<Rightarrow> nat \<Rightarrow> hier \<Rightarrow> string + hier" where
  "lock_check h m i s =
     (case check_for_hierarchy_violation h m i s of
        Inl e \<Rightarrow> Inl e
      | Inr _ \<Rightarrow> Inr (s\<lparr>locking := (locking s)(i \<mapsto> m)\<rparr>))"

definition lock_wait :: "(nat \<Rightarrow> level) \<Rightarrow> nat \<Rightarrow> nat \<Rightarrow> hier \<Rightarrow> hier outcome" where
  "lock_wait h m i s =
     and_then (mutex_lock m i s) (\<lambda>s.
       Returns (update_hierarchy_value h m i (s\<lparr>locking := (locking s)(i := None)\<rparr>)))"

text \<open>\<open>_mutex.unlock()\<close> is for the owner only.\<close>

definition unlock :: "nat \<Rightarrow> nat \<Rightarrow> hier \<Rightarrow> hier outcome" where
  "unlock m i s =
     (let s = s\<lparr>this_value := (this_value s)(i := previous_value s m)\<rparr>
      in if owner s m = Some i
         then Returns (s\<lparr>owner := (owner s)(m := None), held := (held s)(i := remove1 m (held s i))\<rparr>)
         else Undefined)"

text \<open>\<open>try_lock\<close> may fail although the mutex is free (\<open>spurious\<close>).\<close>

definition trylock :: "(nat \<Rightarrow> level) \<Rightarrow> nat \<Rightarrow> nat \<Rightarrow> bool \<Rightarrow> hier \<Rightarrow> (string + bool \<times> hier) outcome" where
  "trylock h m i spurious s =
     (case check_for_hierarchy_violation h m i s of
        Inl e \<Rightarrow> Returns (Inl e)
      | Inr _ \<Rightarrow>
          (case mutex_lock m i s of
             Undefined \<Rightarrow> Undefined
           | Blocks \<Rightarrow> Returns (Inr (False, s))
           | Returns s' \<Rightarrow> if spurious then Returns (Inr (False, s))
               else Returns (Inr (True, update_hierarchy_value h m i s'))))"

section \<open>Threads\<close>

text \<open>
  A thread that is not inside \<open>lock\<close> calls anything, but unlocks only what it holds; when \<open>scoped\<close>,
  as lock guards do it, the last one it took.
\<close>

inductive hier_step :: "(nat \<Rightarrow> level) \<Rightarrow> bool \<Rightarrow> hier \<Rightarrow> hier \<Rightarrow> bool" for h scoped where
  lock_check: "locking s i = None \<Longrightarrow> lock_check h m i s = Inr s' \<Longrightarrow> hier_step h scoped s s'"
| lock_wait: "locking s i = Some m \<Longrightarrow> lock_wait h m i s = Returns s' \<Longrightarrow> hier_step h scoped s s'"
| trylock: "locking s i = None \<Longrightarrow> trylock h m i spurious s = Returns (Inr (b, s')) \<Longrightarrow> hier_step h scoped s s'"
| unlock: "locking s i = None \<Longrightarrow> m \<in> set (held s i) \<Longrightarrow> (scoped \<longrightarrow> m = hd (held s i)) \<Longrightarrow>
    unlock m i s = Returns s' \<Longrightarrow> hier_step h scoped s s'"

section \<open>The order of the locks\<close>

fun level_of :: "(nat \<Rightarrow> level) \<Rightarrow> level \<Rightarrow> nat list \<Rightarrow> level" where
  "level_of h init [] = init"
| "level_of h init (m # ms) = h m"

fun levels_ok :: "(nat \<Rightarrow> level) \<Rightarrow> level \<Rightarrow> (nat \<Rightarrow> level) \<Rightarrow> nat list \<Rightarrow> bool" where
  "levels_ok h init prev [] = True"
| "levels_ok h init prev (m # ms) =
     (prev m = level_of h init ms \<and> h m < level_of h init ms \<and> levels_ok h init prev ms)"

definition thread_ok :: "(nat \<Rightarrow> level) \<Rightarrow> level \<Rightarrow> hier \<Rightarrow> nat \<Rightarrow> bool" where
  "thread_ok h init s i \<longleftrightarrow>
     this_value s i = level_of h init (held s i) \<and> levels_ok h init (previous_value s) (held s i)
     \<and> (\<forall>m. owner s m = Some i \<longleftrightarrow> m \<in> set (held s i))
     \<and> (\<forall>m. locking s i = Some m \<longrightarrow> h m < this_value s i)"

lemma levels_below: "levels_ok h init prev ms \<Longrightarrow> x \<in> set ms \<Longrightarrow> level_of h init ms \<le> h x"
proof (induction ms)
  case (Cons m ms)
  then show ?case by (cases "x = m") auto
qed simp

lemma levels_frame: "m \<notin> set ms \<Longrightarrow> levels_ok h init (prev(m := v)) ms = levels_ok h init prev ms"
  by (induction ms) auto

lemma thread_ok_new: "thread_ok h init (hier_new init) i"
  by (simp add: thread_ok_def hier_new_def)

lemma thread_acquire:
  assumes ok: "\<And>j. thread_ok h init s j" and l: "h m < this_value s i" and free: "owner s m = None"
  shows "thread_ok h init (update_hierarchy_value h m i
      (s\<lparr>owner := (owner s)(m \<mapsto> i), held := (held s)(i := m # held s i), locking := (locking s)(i := None)\<rparr>)) j"
proof -
  have "m \<notin> set (held s j)" for j using ok [of j] free by (simp add: thread_ok_def) (metis option.distinct(1))
  then show ?thesis
    using ok [of j] ok [of i] l
    by (cases "j = i") (auto simp: thread_ok_def update_hierarchy_value_def levels_frame)
qed

lemma thread_release:
  assumes ok: "\<And>j. thread_ok h init s j" and held: "held s i = m # ms" and idle: "locking s i = None"
    and un: "unlock m i s = Returns s'"
  shows "thread_ok h init s' j"
proof -
  have "m \<notin> set ms" using ok [of i] held levels_below [of h init "previous_value s" ms m]
    by (auto simp: thread_ok_def)
  moreover have "m \<notin> set (held s j)" if "j \<noteq> i"
  proof -
    have "owner s m = Some i" using ok [of i] held by (simp add: thread_ok_def)
    then show ?thesis using ok [of j] that by (metis option.inject thread_ok_def)
  qed
  ultimately show ?thesis
    using ok [of j] ok [of i] held idle un
    by (cases "j = i") (auto simp: thread_ok_def unlock_def Let_def split: if_splits)
qed

lemma thread_step:
  assumes "hier_step h True s s'" and ok: "\<And>j. thread_ok h init s j"
  shows "thread_ok h init s' j"
  using assms(1)
proof cases
  case (lock_check i m)
  then show ?thesis using ok [of j]
    by (cases "j = i")
      (auto simp: lock_check_def check_for_hierarchy_violation_def thread_ok_def split: if_splits)
next
  case (lock_wait i m)
  then have free: "owner s m = None" and s': "s' = update_hierarchy_value h m i
      (s\<lparr>owner := (owner s)(m \<mapsto> i), held := (held s)(i := m # held s i), locking := (locking s)(i := None)\<rparr>)"
    by (auto simp: lock_wait_def mutex_lock_def split: option.splits if_splits)
  have "h m < this_value s i" using ok [of i] lock_wait(1) unfolding thread_ok_def by blast
  then show ?thesis unfolding s' by (rule thread_acquire [OF ok _ free])
next
  case (trylock i m spurious b)
  have idle: "s\<lparr>locking := (locking s)(i := None)\<rparr> = s" using trylock(1) by (simp add: fun_upd_idem)
  show ?thesis
  proof (cases b)
    case True
    then have free: "owner s m = None" and l: "h m < this_value s i" and s': "s' = update_hierarchy_value h m i
      (s\<lparr>owner := (owner s)(m \<mapsto> i), held := (held s)(i := m # held s i), locking := (locking s)(i := None)\<rparr>)"
      using trylock by (auto simp: trylock_def mutex_lock_def check_for_hierarchy_violation_def fun_upd_idem
          split: option.splits if_splits)
    show ?thesis unfolding s' by (rule thread_acquire [OF ok l free])
  next
    case False
    then have "s' = s" using trylock
      by (auto simp: trylock_def mutex_lock_def check_for_hierarchy_violation_def split: option.splits if_splits)
    then show ?thesis using ok by simp
  qed
next
  case (unlock i m)
  then obtain ms where "held s i = m # ms" by (cases "held s i") auto
  then show ?thesis using thread_release [OF ok _ unlock(1) unlock(4)] by blast
qed

lemma thread_ok_reachable: "(hier_step h True)\<^sup>*\<^sup>* (hier_new init) s \<Longrightarrow> thread_ok h init s i"
proof (induction arbitrary: i rule: rtranclp_induct)
  case (step s s')
  show ?case using thread_step [OF step.hyps(2) step.IH] .
qed (rule thread_ok_new)

section \<open>Deadlock\<close>

definition waits_for :: "hier \<Rightarrow> nat \<Rightarrow> nat \<Rightarrow> bool" where
  "waits_for s i j \<longleftrightarrow> (case locking s i of None \<Rightarrow> False | Some m \<Rightarrow> owner s m = Some j)"

text \<open>A thread that can go on: it is not inside \<open>lock\<close>, or the mutex it waits for is free.\<close>

definition can_go_on :: "(nat \<Rightarrow> level) \<Rightarrow> hier \<Rightarrow> nat \<Rightarrow> bool" where
  "can_go_on h s i \<longleftrightarrow>
     (case locking s i of None \<Rightarrow> True | Some m \<Rightarrow> (case lock_wait h m i s of Returns _ \<Rightarrow> True | _ \<Rightarrow> False))"

text \<open>Waiting threads wait for ever lower mutexes.\<close>

lemma waits_lower:
  assumes "\<And>j. thread_ok h init s j" "locking s i = Some m" "owner s m = Some j" "locking s j = Some m'"
  shows "h m' < h m"
proof -
  have "h m' < level_of h init (held s j)" "levels_ok h init (previous_value s) (held s j)" "m \<in> set (held s j)"
    using assms(1) [of j] assms(3,4) by (auto simp: thread_ok_def)
  then show ?thesis using levels_below [of h init "previous_value s" "held s j" m] by simp
qed

lemma blocked_waits:
  assumes ok: "\<And>j. thread_ok h init s j" and i: "locking s i = Some m" "\<not> can_go_on h s i"
  shows "\<exists>j. j \<noteq> i \<and> owner s m = Some j"
proof -
  have "owner s m \<noteq> None" using i by (auto simp: can_go_on_def lock_wait_def mutex_lock_def split: option.splits)
  moreover have "owner s m \<noteq> Some i" using waits_lower [OF ok i(1) _ i(1)] by auto
  ultimately show ?thesis by auto
qed

lemma someone_goes_on:
  assumes ok: "\<And>j. thread_ok h init s j"
  shows "locking s i = Some m \<Longrightarrow> \<exists>j. (waits_for s)\<^sup>*\<^sup>* i j \<and> can_go_on h s j"
proof (induction "unat (h m)" arbitrary: i m rule: less_induct)
  case less
  show ?case
  proof (cases "can_go_on h s i")
    case False
    from blocked_waits [OF ok less.prems this] obtain j where j: "owner s m = Some j" by blast
    have w: "waits_for s i j" using less.prems j by (simp add: waits_for_def)
    show ?thesis
    proof (cases "locking s j")
      case None
      then show ?thesis using w by (auto simp: can_go_on_def)
    next
      case (Some m')
      then obtain k where "(waits_for s)\<^sup>*\<^sup>* j k" "can_go_on h s k"
        using less.hyps [of m' j] waits_lower [OF ok less.prems j] by (auto simp: word_less_nat_alt)
      then show ?thesis using w by (blast intro: converse_rtranclp_into_rtranclp)
    qed
  qed blast
qed

lemma waits_chain:
  assumes ok: "\<And>j. thread_ok h init s j"
  shows "(waits_for s)\<^sup>+\<^sup>+ i j \<Longrightarrow> locking s i = Some m \<Longrightarrow> locking s j = Some m' \<Longrightarrow> h m' < h m"
proof (induction arbitrary: m' rule: tranclp_induct)
  case (base j)
  then show ?case using waits_lower [OF ok] by (auto simp: waits_for_def)
next
  case (step j k)
  then obtain m2 where m2: "locking s j = Some m2" "owner s m2 = Some k"
    by (auto simp: waits_for_def split: option.splits)
  then show ?case using step waits_lower [OF ok m2 step.prems(2)] by (meson order.strict_trans)
qed

lemma no_waiting_cycle:
  assumes ok: "\<And>j. thread_ok h init s j"
  shows "\<not> (waits_for s)\<^sup>+\<^sup>+ i i"
proof
  assume c: "(waits_for s)\<^sup>+\<^sup>+ i i"
  then obtain j where "waits_for s i j" by (meson tranclpD)
  then obtain m where "locking s i = Some m" by (auto simp: waits_for_def split: option.splits)
  then show False using waits_chain [OF ok c] by blast
qed

lemma violation_iff:
  assumes "thread_ok h init s i"
  shows "this_value s i \<le> h m \<longleftrightarrow> (if held s i = [] then init \<le> h m else \<exists>x\<in>set (held s i). h x \<le> h m)"
proof (cases "held s i")
  case (Cons x xs)
  then show ?thesis
    using assms levels_below [of h init "previous_value s" "held s i"] by (auto simp: thread_ok_def intro: order.trans)
qed (use assms in \<open>simp add: thread_ok_def\<close>)

section \<open>The properties\<close>

text \<open>
  C12. As long as every thread unlocks the mutex it locked last, threads never wait for each other
  in a cycle; every thread can go on or waits, directly or through others, for one that can; and
  \<open>lock\<close> throws exactly when the thread already holds a mutex that is not above the new one (or
  holds none and starts too low).
\<close>

theorem hierarchy_no_deadlock:
  assumes "(hier_step h True)\<^sup>*\<^sup>* (hier_new init) s"
  shows "\<not> (waits_for s)\<^sup>+\<^sup>+ i i \<and> (\<exists>j. (waits_for s)\<^sup>*\<^sup>* i j \<and> can_go_on h s j)
    \<and> (lock_check h m i s = Inl ''mutex hierarchy violated'' \<longleftrightarrow>
        (if held s i = [] then init \<le> h m else \<exists>x\<in>set (held s i). h x \<le> h m))"
proof (intro conjI)
  note ok = thread_ok_reachable [OF assms]
  show "\<not> (waits_for s)\<^sup>+\<^sup>+ i i" by (rule no_waiting_cycle [OF ok])
  show "\<exists>j. (waits_for s)\<^sup>*\<^sup>* i j \<and> can_go_on h s j"
  proof (cases "locking s i")
    case None
    then have "can_go_on h s i" by (simp add: can_go_on_def)
    then show ?thesis by blast
  next
    case (Some m)
    then show ?thesis by (rule someone_goes_on [OF ok])
  qed
  show "lock_check h m i s = Inl ''mutex hierarchy violated'' \<longleftrightarrow>
      (if held s i = [] then init \<le> h m else \<exists>x\<in>set (held s i). h x \<le> h m)"
    unfolding violation_iff [OF ok, symmetric]
    by (simp add: lock_check_def check_for_hierarchy_violation_def)
qed

text \<open>A schedule: each entry is one action of a thread.\<close>

datatype hier_action = Check nat | Wait | Unlock nat

fun perform :: "(nat \<Rightarrow> level) \<Rightarrow> nat \<Rightarrow> hier_action \<Rightarrow> hier \<Rightarrow> hier option" where
  "perform h i (Check m) s =
     (if locking s i \<noteq> None then None
      else case lock_check h m i s of Inl e \<Rightarrow> None | Inr s' \<Rightarrow> Some s')"
| "perform h i Wait s =
     (case locking s i of
        None \<Rightarrow> None
      | Some m \<Rightarrow> (case lock_wait h m i s of Returns s' \<Rightarrow> Some s' | _ \<Rightarrow> None))"
| "perform h i (Unlock m) s =
     (if locking s i \<noteq> None \<or> m \<notin> set (held s i) then None
      else case unlock m i s of Returns s' \<Rightarrow> Some s' | _ \<Rightarrow> None)"

fun schedule :: "(nat \<Rightarrow> level) \<Rightarrow> (nat \<times> hier_action) list \<Rightarrow> hier \<Rightarrow> hier option" where
  "schedule h [] s = Some s"
| "schedule h ((i, a) # as) s = (case perform h i a s of None \<Rightarrow> None | Some s' \<Rightarrow> schedule h as s')"

lemma perform_step: "perform h i a s = Some s' \<Longrightarrow> hier_step h False s s'"
proof (cases a)
  case (Check m)
  then show "perform h i a s = Some s' \<Longrightarrow> ?thesis"
    by (auto split: if_splits sum.splits intro: hier_step.lock_check)
next
  case Wait
  then show "perform h i a s = Some s' \<Longrightarrow> ?thesis"
    by (auto split: option.splits outcome.splits intro: hier_step.lock_wait)
next
  case (Unlock m)
  then show "perform h i a s = Some s' \<Longrightarrow> ?thesis"
    by (auto split: if_splits outcome.splits intro: hier_step.unlock)
qed

lemma schedule_reachable: "schedule h as s = Some s' \<Longrightarrow> (hier_step h False)\<^sup>*\<^sup>* s s'"
proof (induction h as s rule: schedule.induct)
  case (2 h i a as s)
  then show ?case
    by (auto split: option.splits intro: perform_step converse_rtranclp_into_rtranclp)
qed simp

text \<open>
  Unlocking in another order defeats the class: \<open>unlock\<close> restores the value from before its
  own mutex was locked, although lower mutexes are still held. Two threads that pass every check
  then wait for each other for ever.
\<close>

theorem hierarchy_unlock_order:
  assumes "h 1 < h 0" "h 0 < init"
  shows "\<exists>s. (hier_step h False)\<^sup>*\<^sup>* (hier_new init) s \<and> waits_for s 0 1 \<and> waits_for s 1 0
    \<and> \<not> can_go_on h s 0 \<and> \<not> can_go_on h s 1"
proof -
  have l: "\<not> h 0 \<le> h 1" "\<not> init \<le> h 0" "\<not> init \<le> h 1" using assms by auto
  obtain s where s: "schedule h [(0, Check 0), (0, Wait), (0, Check 1), (0, Wait), (0, Unlock 0), (1, Check 0),
      (1, Wait), (1, Check 1), (0, Check 0)] (hier_new init) = Some s"
      "locking s 0 = Some 0" "owner s 0 = Some 1" "locking s 1 = Some 1" "owner s 1 = Some 0"
    using l
    by (simp add: hier_new_def lock_check_def check_for_hierarchy_violation_def lock_wait_def mutex_lock_def
        update_hierarchy_value_def unlock_def Let_def)
  have "waits_for s 0 1 \<and> waits_for s 1 0 \<and> \<not> can_go_on h s 0 \<and> \<not> can_go_on h s 1"
    using s by (simp add: waits_for_def can_go_on_def lock_wait_def mutex_lock_def)
  then show ?thesis using schedule_reachable [OF s(1)] by blast
qed

theorem hierarchy_unlock_order_witness:
  "\<exists>s. (hier_step (\<lambda>m. if m = 0 then 2 else 1) False)\<^sup>*\<^sup>* (hier_new 3) s \<and> waits_for s 0 1 \<and> waits_for s 1 0
    \<and> \<not> can_go_on (\<lambda>m. if m = 0 then 2 else 1) s 0 \<and> \<not> can_go_on (\<lambda>m. if m = 0 then 2 else 1) s 1"
  by (rule hierarchy_unlock_order) (simp_all add: word_less_nat_alt)

theorem hierarchy_no_deadlock_witness:
  "\<exists>s. locking s 0 = Some 1 \<and> \<not> (waits_for s)\<^sup>+\<^sup>+ 0 0 \<and> (\<exists>j. (waits_for s)\<^sup>*\<^sup>* 0 j \<and> can_go_on (\<lambda>_. 1) s j)
    \<and> (lock_check (\<lambda>_. 1) 5 0 s = Inl ''mutex hierarchy violated'' \<longleftrightarrow>
        (if held s 0 = [] then 3 \<le> (1 :: level) else \<exists>x\<in>set (held s 0). (1 :: level) \<le> 1))"
proof -
  let ?s = "(hier_new 3)\<lparr>locking := (locking (hier_new 3))(0 \<mapsto> 1)\<rparr>"
  have "hier_step (\<lambda>_. 1) True (hier_new 3) ?s"
    by (rule hier_step.lock_check [of _ 0 _ 1])
      (simp_all add: hier_new_def lock_check_def check_for_hierarchy_violation_def word_le_nat_alt)
  then have r: "(hier_step (\<lambda>_. 1) True)\<^sup>*\<^sup>* (hier_new 3) ?s" by blast
  have "locking ?s 0 = Some 1" by simp
  then show ?thesis using hierarchy_no_deadlock [OF r, of 0 5] by blast
qed

end
