(* ===== verification/Lock_Free_Stack.thy ===== *)
theory Lock_Free_Stack
  imports Node_Heap "HOL-Library.Word"
begin

text \<open>
  \<open>cpp-concurrency-in-action/7.lock_free/lock_free_stack.hpp\<close> under any interleaving of its threads: a
  stack of linked nodes that is changed by compare-and-exchange, with a counter of the threads inside
  \<open>pop\<close> that decides when unlinked nodes may be deleted. A step is one access of one thread to an
  atomic variable, together with the accesses to variables and nodes no other thread can reach, or one
  access to a node another thread may reach. Atomics are used with their default, sequentially
  consistent order. The constructor leaves \<open>_head\<close> and \<open>_to_be_deleted\<close> to the default constructor of
  \<open>std::atomic\<close>; the model takes both as null.
\<close>

section \<open>State\<close>

text \<open>
  Where a thread is in \<open>push\<close> or \<open>pop\<close> and the functions \<open>pop\<close> calls. \<open>old\<close> is \<open>old_head\<close> after the
  loop, \<open>res\<close> the value to return. The flag of the last steps of \<open>chain_pending_nodes\<close> tells
  the nodes claimed from \<open>_to_be_deleted\<close> (true) from a node of the thread's own.
\<close>

datatype 'a lf_pc =
    Outside
  | Push_start 'a nat
  | Push_cas 'a nat
  | Pop_start
  | Pop_next nat
  | Pop_cas nat "nat option"
  | Pop_got "nat option"
  | Reclaim "nat option" "'a option"
  | Claim "nat option" "'a option"
  | Leave_claimed "nat option" "'a option" "nat option"
  | Delete_nodes "nat option" "'a option" "nat option"
  | Find_last "nat option" "'a option" "nat option" "nat option"
  | Link bool "nat option" "'a option" "nat option" "nat option"
  | Publish bool "nat option" "'a option" "nat option" "nat option"
  | Delete_own "nat option" "'a option"
  | Leave "'a option"

datatype 'a stack_event = Pushed 'a | Popped "'a option"

text \<open>
  The members of the class, the heap, the threads; and, for the statements only, what happened to
  the stack in the order in which it happened, and what the calls of \<open>pop\<close> returned.
\<close>

record 'a lf_stack =
  lf_heap :: "'a heap"
  lf_head :: "nat option"
  threads_in_pop :: "32 word"
  to_be_deleted :: "nat option"
  lf_pcs :: "nat \<Rightarrow> 'a lf_pc"
  events :: "(nat \<times> 'a stack_event) list"
  results :: "(nat \<times> 'a option) list"

definition lf_new :: "'a lf_stack" where
  "lf_new = \<lparr>lf_heap = Map.empty, lf_head = None, threads_in_pop = 0, to_be_deleted = None,
     lf_pcs = (\<lambda>_. Outside), events = [], results = []\<rparr>"

definition go :: "nat \<Rightarrow> 'a lf_pc \<Rightarrow> 'a lf_stack \<Rightarrow> 'a lf_stack" where
  "go i pc s = s\<lparr>lf_pcs := (lf_pcs s)(i := pc)\<rparr>"

definition store :: "nat \<Rightarrow> 'a node \<Rightarrow> 'a lf_stack \<Rightarrow> 'a lf_stack" where
  "store a n s = s\<lparr>lf_heap := (lf_heap s)(a \<mapsto> n)\<rparr>"

text \<open>\<open>delete\<close>: nothing for null, undefined for an address that is not allocated.\<close>

definition delete_node :: "nat option \<Rightarrow> 'a lf_stack \<Rightarrow> 'a lf_stack outcome" where
  "delete_node p s =
     (case p of None \<Rightarrow> Returns s
      | Some a \<Rightarrow> and_then (deref (lf_heap s) p) (\<lambda>_. Returns (s\<lparr>lf_heap := (lf_heap s)(a := None)\<rparr>)))"

section \<open>\<open>push\<close>\<close>

text \<open>\<open>new node(data)\<close> at any address \<open>a\<close> that is free.\<close>

definition push_new :: "nat \<Rightarrow> 'a \<Rightarrow> nat \<Rightarrow> 'a lf_stack \<Rightarrow> 'a lf_stack" where
  "push_new i v a s = go i (Push_start v a) (store a \<lparr>node_data = Some v, node_next = None\<rparr> s)"

definition push_load :: "nat \<Rightarrow> 'a \<Rightarrow> nat \<Rightarrow> 'a lf_stack \<Rightarrow> 'a lf_stack outcome" where
  "push_load i v a s =
     and_then (deref (lf_heap s) (Some a)) (\<lambda>n.
       Returns (go i (Push_cas v a) (store a (n\<lparr>node_next := lf_head s\<rparr>) s)))"

text \<open>\<open>compare_exchange_weak\<close> may fail although the values agree (\<open>spurious\<close>); when it fails it
  stores the value it found in the expected one.\<close>

definition push_exchange :: "nat \<Rightarrow> 'a \<Rightarrow> nat \<Rightarrow> bool \<Rightarrow> 'a lf_stack \<Rightarrow> 'a lf_stack outcome" where
  "push_exchange i v a spurious s =
     and_then (deref (lf_heap s) (Some a)) (\<lambda>n.
       Returns
         (if lf_head s = node_next n \<and> \<not> spurious
          then go i Outside (s\<lparr>lf_head := Some a, events := events s @ [(i, Pushed v)]\<rparr>)
          else go i (Push_cas v a) (store a (n\<lparr>node_next := lf_head s\<rparr>) s)))"

section \<open>\<open>pop\<close>\<close>

definition pop_enter :: "nat \<Rightarrow> 'a lf_stack \<Rightarrow> 'a lf_stack" where
  "pop_enter i s = go i Pop_start (s\<lparr>threads_in_pop := threads_in_pop s + 1\<rparr>)"

text \<open>\<open>old_head\<close> has been read; the loop goes on unless it is null.\<close>

definition pop_loaded :: "nat \<Rightarrow> 'a lf_stack \<Rightarrow> 'a lf_stack" where
  "pop_loaded i s =
     (case lf_head s of
        None \<Rightarrow> go i (Pop_got None) (s\<lparr>events := events s @ [(i, Popped None)]\<rparr>)
      | Some a \<Rightarrow> go i (Pop_next a) s)"

text \<open>\<open>old_head->next\<close>, an argument of the exchange.\<close>

definition pop_next :: "nat \<Rightarrow> nat \<Rightarrow> 'a lf_stack \<Rightarrow> 'a lf_stack outcome" where
  "pop_next i old s =
     and_then (deref (lf_heap s) (Some old)) (\<lambda>n. Returns (go i (Pop_cas old (node_next n)) s))"

definition pop_exchange :: "nat \<Rightarrow> nat \<Rightarrow> nat option \<Rightarrow> bool \<Rightarrow> 'a lf_stack \<Rightarrow> 'a lf_stack" where
  "pop_exchange i old nxt spurious s =
     (if lf_head s = Some old \<and> \<not> spurious
      then go i (Pop_got (Some old))
        (s\<lparr>lf_head := nxt, events := events s @ [(i, Popped (Option.bind (lf_heap s old) node_data))]\<rparr>)
      else pop_loaded i s)"

text \<open>\<open>res.swap(old_head->data)\<close> unless \<open>old_head\<close> is null.\<close>

definition pop_swap :: "nat \<Rightarrow> nat option \<Rightarrow> 'a lf_stack \<Rightarrow> 'a lf_stack outcome" where
  "pop_swap i old s =
     (case old of
        None \<Rightarrow> Returns (go i (Reclaim None None) s)
      | Some a \<Rightarrow> and_then (deref (lf_heap s) old) (\<lambda>n.
          Returns (go i (Reclaim old (node_data n)) (store a (n\<lparr>node_data := None\<rparr>) s))))"

definition pop_return :: "nat \<Rightarrow> 'a option \<Rightarrow> 'a lf_stack \<Rightarrow> 'a lf_stack" where
  "pop_return i res s = go i Outside (s\<lparr>results := results s @ [(i, res)]\<rparr>)"

section \<open>\<open>try_reclaim\<close>\<close>

definition reclaim_test :: "nat \<Rightarrow> nat option \<Rightarrow> 'a option \<Rightarrow> 'a lf_stack \<Rightarrow> 'a lf_stack" where
  "reclaim_test i old res s =
     (if threads_in_pop s = 1 then go i (Claim old res) s else go i (Link False old res old old) s)"

definition reclaim_claim :: "nat \<Rightarrow> nat option \<Rightarrow> 'a option \<Rightarrow> 'a lf_stack \<Rightarrow> 'a lf_stack" where
  "reclaim_claim i old res s = go i (Leave_claimed old res (to_be_deleted s)) (s\<lparr>to_be_deleted := None\<rparr>)"

definition reclaim_leave :: "nat \<Rightarrow> nat option \<Rightarrow> 'a option \<Rightarrow> nat option \<Rightarrow> 'a lf_stack \<Rightarrow> 'a lf_stack" where
  "reclaim_leave i old res nodes s =
     (let s = s\<lparr>threads_in_pop := threads_in_pop s - 1\<rparr>
      in if threads_in_pop s = 0 then go i (Delete_nodes old res nodes) s
         else if nodes \<noteq> None then go i (Find_last old res nodes nodes) s
         else go i (Delete_own old res) s)"

definition delete_nodes :: "nat \<Rightarrow> nat option \<Rightarrow> 'a option \<Rightarrow> nat option \<Rightarrow> 'a lf_stack \<Rightarrow> 'a lf_stack outcome" where
  "delete_nodes i old res nodes s =
     (if nodes = None then Returns (go i (Delete_own old res) s)
      else and_then (deref (lf_heap s) nodes) (\<lambda>n.
        and_then (delete_node nodes s) (\<lambda>s. Returns (go i (Delete_nodes old res (node_next n)) s))))"

definition delete_own :: "nat \<Rightarrow> nat option \<Rightarrow> 'a option \<Rightarrow> 'a lf_stack \<Rightarrow> 'a lf_stack outcome" where
  "delete_own i old res s = and_then (delete_node old s) (\<lambda>s. Returns (pop_return i res s))"

definition reclaim_done :: "nat \<Rightarrow> 'a option \<Rightarrow> 'a lf_stack \<Rightarrow> 'a lf_stack" where
  "reclaim_done i res s = pop_return i res (s\<lparr>threads_in_pop := threads_in_pop s - 1\<rparr>)"

section \<open>\<open>chain_pending_nodes\<close>\<close>

definition find_last :: "nat \<Rightarrow> nat option \<Rightarrow> 'a option \<Rightarrow> nat option \<Rightarrow> nat option \<Rightarrow> 'a lf_stack \<Rightarrow> 'a lf_stack outcome" where
  "find_last i old res nodes last_node s =
     and_then (deref (lf_heap s) last_node) (\<lambda>n.
       Returns
         (if node_next n \<noteq> None then go i (Find_last old res nodes (node_next n)) s
          else go i (Link True old res nodes last_node) s))"

definition chain_link :: "nat \<Rightarrow> bool \<Rightarrow> nat option \<Rightarrow> 'a option \<Rightarrow> nat option \<Rightarrow> nat option \<Rightarrow> 'a lf_stack \<Rightarrow> 'a lf_stack outcome" where
  "chain_link i claimed old res first last_node s =
     and_then (deref (lf_heap s) last_node) (\<lambda>n.
       Returns (go i (Publish claimed old res first last_node)
         (store (the last_node) (n\<lparr>node_next := to_be_deleted s\<rparr>) s)))"

definition chain_publish :: "nat \<Rightarrow> bool \<Rightarrow> nat option \<Rightarrow> 'a option \<Rightarrow> nat option \<Rightarrow> nat option \<Rightarrow> bool
    \<Rightarrow> 'a lf_stack \<Rightarrow> 'a lf_stack outcome" where
  "chain_publish i claimed old res first last_node spurious s =
     and_then (deref (lf_heap s) last_node) (\<lambda>n.
       Returns
         (if to_be_deleted s = node_next n \<and> \<not> spurious
          then go i (if claimed then Delete_own old res else Leave res) (s\<lparr>to_be_deleted := first\<rparr>)
          else go i (Publish claimed old res first last_node)
            (store (the last_node) (n\<lparr>node_next := to_be_deleted s\<rparr>) s)))"

section \<open>Threads\<close>

datatype 'a lf_call = Call_push 'a nat | Call_pop

definition lf_advance :: "nat \<Rightarrow> 'a lf_call \<Rightarrow> bool \<Rightarrow> 'a lf_stack \<Rightarrow> 'a lf_stack outcome" where
  "lf_advance i call spurious s =
     (case lf_pcs s i of
        Outside \<Rightarrow> (case call of
            Call_push v a \<Rightarrow> if lf_heap s a = None then Returns (push_new i v a s) else Blocks
          | Call_pop \<Rightarrow> Returns (pop_enter i s))
      | Push_start v a \<Rightarrow> push_load i v a s
      | Push_cas v a \<Rightarrow> push_exchange i v a spurious s
      | Pop_start \<Rightarrow> Returns (pop_loaded i s)
      | Pop_next old \<Rightarrow> pop_next i old s
      | Pop_cas old nxt \<Rightarrow> Returns (pop_exchange i old nxt spurious s)
      | Pop_got old \<Rightarrow> pop_swap i old s
      | Reclaim old res \<Rightarrow> Returns (reclaim_test i old res s)
      | Claim old res \<Rightarrow> Returns (reclaim_claim i old res s)
      | Leave_claimed old res nodes \<Rightarrow> Returns (reclaim_leave i old res nodes s)
      | Delete_nodes old res nodes \<Rightarrow> delete_nodes i old res nodes s
      | Find_last old res nodes last_node \<Rightarrow> find_last i old res nodes last_node s
      | Link claimed old res first last_node \<Rightarrow> chain_link i claimed old res first last_node s
      | Publish claimed old res first last_node \<Rightarrow> chain_publish i claimed old res first last_node spurious s
      | Delete_own old res \<Rightarrow> delete_own i old res s
      | Leave res \<Rightarrow> Returns (reclaim_done i res s))"

text \<open>The steps of \<open>n\<close> threads.\<close>

inductive lf_step :: "nat \<Rightarrow> 'a lf_stack \<Rightarrow> 'a lf_stack \<Rightarrow> bool" for n where
  lf_step: "i < n \<Longrightarrow> lf_advance i call spurious s = Returns s' \<Longrightarrow> lf_step n s s'"

inductive_cases lf_stepE: "lf_step n s s'"

section \<open>The stack that the events describe\<close>

fun replay :: "(nat \<times> 'a stack_event) list \<Rightarrow> 'a list \<Rightarrow> 'a list option" where
  "replay [] st = Some st"
| "replay ((i, Pushed v) # es) st = replay es (v # st)"
| "replay ((i, Popped None) # es) st = (if st = [] then replay es [] else None)"
| "replay ((i, Popped (Some v)) # es) st = (case st of [] \<Rightarrow> None | w # st \<Rightarrow> if w = v then replay es st else None)"

lemma replay_append: "replay (es @ fs) st = Option.bind (replay es st) (replay fs)"
  by (induction es st rule: replay.induct) (auto split: list.splits)

end
