(* ===== verification/Lock_Free_Invariant.thy ===== *)
theory Lock_Free_Invariant
  imports Lock_Free_Stack
begin

text \<open>
  The invariant of \<open>lock_free_stack\<close>: where every node is at every moment, which nodes a thread inside
  \<open>pop\<close> may still follow, what the counter counts, and that the events describe the stack. A step of
  one thread keeps the invariant of the others under the conditions of \<open>lf_inv_step\<close>; the steps
  themselves are in \<open>Lock_Free_Safety\<close>.
\<close>

section \<open>Linked nodes\<close>

text \<open>From \<open>p\<close>, the nodes \<open>as\<close> in this order lead to the pointer \<open>q\<close>.\<close>

fun linked :: "'a heap \<Rightarrow> nat option \<Rightarrow> nat list \<Rightarrow> nat option \<Rightarrow> bool" where
  "linked H p [] q \<longleftrightarrow> p = q"
| "linked H p (a # as) q \<longleftrightarrow> p = Some a \<and> (\<exists>n. H a = Some n \<and> linked H (node_next n) as q)"

lemma linked_cong: "(\<And>a. a \<in> set as \<Longrightarrow> H' a = H a) \<Longrightarrow> linked H' p as q = linked H p as q"
  by (induction as arbitrary: p) auto

lemma linked_append: "linked H p (as @ bs) q \<longleftrightarrow> (\<exists>r. linked H p as r \<and> linked H r bs q)"
  by (induction as arbitrary: p) auto

lemma linked_hd: "linked H p as q \<Longrightarrow> as \<noteq> [] \<Longrightarrow> p = Some (hd as)"
  by (cases as) auto

lemma linked_None: "linked H None as None \<longleftrightarrow> as = []"
  by (cases as) auto

lemma linked_Some: "linked H (Some a) as None \<longleftrightarrow> (\<exists>n bs. as = a # bs \<and> H a = Some n \<and> linked H (node_next n) bs None)"
  by (cases as) auto

lemma linked_last: "linked H p as q \<Longrightarrow> as \<noteq> [] \<Longrightarrow> \<exists>n. H (last as) = Some n \<and> node_next n = q"
  by (induction as arbitrary: p) (auto split: if_splits)

lemma linked_member: "linked H p as q \<Longrightarrow> a \<in> set as \<Longrightarrow> H a \<noteq> None"
  by (induction as arbitrary: p) auto

lemma linked_next:
  "linked H p as None \<Longrightarrow> a \<in> set as \<Longrightarrow> H a = Some n \<Longrightarrow> node_next n = Some b \<Longrightarrow> b \<in> set as"
proof (induction as arbitrary: p)
  case (Cons c as)
  then show ?case by (cases "c = a"; cases as) auto
qed simp

lemma linked_end:
  "linked H p as None \<Longrightarrow> a \<in> set as \<Longrightarrow> H a = Some n \<Longrightarrow> node_next n = None \<Longrightarrow> a = last as"
proof (induction as arbitrary: p)
  case (Cons c as)
  then show ?case by (cases "c = a"; cases as) auto
qed simp

lemma linked_store_last:
  assumes "linked H p as q" "as \<noteq> []" "distinct as"
  shows "linked (H(last as \<mapsto> n\<lparr>node_next := r\<rparr>)) p as r"
  using assms
proof (induction as arbitrary: p)
  case (Cons a as)
  show ?case
  proof (cases "as = []")
    case False
    then have "a \<noteq> last as" using Cons.prems(3) by auto
    then show ?thesis using Cons False by auto
  qed (use Cons in simp)
qed simp

section \<open>Where a node is\<close>

datatype place = Stacked | Pending | Private nat

definition opt_list :: "'b option \<Rightarrow> 'b list" where
  "opt_list p = (case p of None \<Rightarrow> [] | Some a \<Rightarrow> [a])"

lemma opt_list_simps [simp]: "opt_list None = []" "opt_list (Some a) = [a]"
  by (simp_all add: opt_list_def)

text \<open>The node a thread has made or unlinked; the nodes it is chaining are a list of their own.\<close>

fun own_list :: "'a lf_pc \<Rightarrow> nat list" where
  "own_list (Push_start v a) = [a]"
| "own_list (Push_cas v a) = [a]"
| "own_list (Pop_got p) = opt_list p"
| "own_list (Reclaim p res) = opt_list p"
| "own_list (Claim p res) = opt_list p"
| "own_list (Leave_claimed p res ns) = opt_list p"
| "own_list (Delete_nodes p res ns) = opt_list p"
| "own_list (Find_last p res ns l) = opt_list p"
| "own_list (Link claimed p res f l) = (if claimed then opt_list p else [])"
| "own_list (Publish claimed p res f l) = (if claimed then opt_list p else [])"
| "own_list (Delete_own p res) = opt_list p"
| "own_list _ = []"

text \<open>What the position says of the nodes \<open>c\<close> that the thread is chaining or deleting.\<close>

fun shape_ok :: "'a heap \<Rightarrow> 'a lf_pc \<Rightarrow> nat list \<Rightarrow> bool" where
  "shape_ok H (Push_start v a) c \<longleftrightarrow> c = [] \<and> Option.bind (H a) node_data = Some v"
| "shape_ok H (Push_cas v a) c \<longleftrightarrow> c = [] \<and> Option.bind (H a) node_data = Some v"
| "shape_ok H (Pop_got p) c \<longleftrightarrow> c = [] \<and> (\<forall>a. p = Some a \<longrightarrow> Option.bind (H a) node_data \<noteq> None)"
| "shape_ok H (Leave_claimed p res ns) c \<longleftrightarrow> linked H ns c None"
| "shape_ok H (Delete_nodes p res ns) c \<longleftrightarrow> linked H ns c None"
| "shape_ok H (Find_last p res ns l) c \<longleftrightarrow> linked H ns c None \<and> (\<exists>a\<in>set c. l = Some a)"
| "shape_ok H (Link claimed p res f l) c \<longleftrightarrow>
     (if c = [] then \<not> claimed \<and> p = None \<and> f = None \<and> l = None else (\<exists>q. linked H f c q) \<and> l = Some (last c))"
| "shape_ok H (Publish claimed p res f l) c \<longleftrightarrow> c \<noteq> [] \<and> (\<exists>q. linked H f c q) \<and> l = Some (last c)"
| "shape_ok H pc c \<longleftrightarrow> c = []"

text \<open>A node that \<open>pop\<close> has read from \<open>_head\<close> and may follow, though others may unlink it.\<close>

fun ref_of :: "'a lf_pc \<Rightarrow> nat option" where
  "ref_of (Pop_next a) = Some a"
| "ref_of (Pop_cas a q) = Some a"
| "ref_of _ = None"

text \<open>The nodes of a thread that no thread refers to: those not yet pushed, and those it may delete.\<close>

fun hidden :: "'a lf_pc \<Rightarrow> nat list \<Rightarrow> nat set" where
  "hidden (Push_start v a) c = {a}"
| "hidden (Push_cas v a) c = {a}"
| "hidden (Claim p res) c = set (opt_list p)"
| "hidden (Leave_claimed p res ns) c = set (opt_list p)"
| "hidden (Delete_nodes p res ns) c = set (opt_list p) \<union> set c"
| "hidden (Find_last p res ns l) c = set (opt_list p)"
| "hidden (Link claimed p res f l) c = (if claimed then set (opt_list p) else {})"
| "hidden (Publish claimed p res f l) c = (if claimed then set (opt_list p) else {})"
| "hidden (Delete_own p res) c = set (opt_list p)"
| "hidden _ c = {}"

text \<open>The threads that \<open>_threads_in_pop\<close> counts.\<close>

fun in_pop :: "'a lf_pc \<Rightarrow> bool" where
  "in_pop Outside \<longleftrightarrow> False"
| "in_pop (Push_start v a) \<longleftrightarrow> False"
| "in_pop (Push_cas v a) \<longleftrightarrow> False"
| "in_pop (Delete_nodes p res ns) \<longleftrightarrow> False"
| "in_pop (Find_last p res ns l) \<longleftrightarrow> False"
| "in_pop (Link claimed p res f l) \<longleftrightarrow> \<not> claimed"
| "in_pop (Publish claimed p res f l) \<longleftrightarrow> \<not> claimed"
| "in_pop (Delete_own p res) \<longleftrightarrow> False"
| "in_pop _ \<longleftrightarrow> True"

text \<open>The result that a thread has taken from the stack and not yet returned.\<close>

fun in_flight :: "'a heap \<Rightarrow> 'a lf_pc \<Rightarrow> 'a option list" where
  "in_flight H (Pop_got p) = [Option.bind p (\<lambda>a. Option.bind (H a) node_data)]"
| "in_flight H (Reclaim p res) = [res]"
| "in_flight H (Claim p res) = [res]"
| "in_flight H (Leave_claimed p res ns) = [res]"
| "in_flight H (Delete_nodes p res ns) = [res]"
| "in_flight H (Find_last p res ns l) = [res]"
| "in_flight H (Link claimed p res f l) = [res]"
| "in_flight H (Publish claimed p res f l) = [res]"
| "in_flight H (Delete_own p res) = [res]"
| "in_flight H (Leave res) = [res]"
| "in_flight H _ = []"

definition pops_of :: "nat \<Rightarrow> (nat \<times> 'a stack_event) list \<Rightarrow> 'a option list" where
  "pops_of i es = List.map_filter (\<lambda>(j, e). case e of Popped r \<Rightarrow> if j = i then Some r else None | _ \<Rightarrow> None) es"

definition results_of :: "nat \<Rightarrow> (nat \<times> 'a option) list \<Rightarrow> 'a option list" where
  "results_of i rs = List.map snd (filter (\<lambda>(j, r). j = i) rs)"

lemma pops_of_simps [simp]:
  "pops_of i [] = []" "pops_of i (es @ fs) = pops_of i es @ pops_of i fs"
  "pops_of i [(j, Pushed v)] = []" "pops_of i [(j, Popped r)] = (if j = i then [r] else [])"
  by (simp_all add: pops_of_def List.map_filter_def)

lemma results_of_simps [simp]:
  "results_of i [] = []" "results_of i (rs @ [(j, r)]) = results_of i rs @ (if j = i then [r] else [])"
  by (simp_all add: results_of_def)

section \<open>The invariant\<close>

text \<open>
  \<open>S\<close> and \<open>P\<close> are the nodes on the stack and in \<open>_to_be_deleted\<close>, \<open>C i\<close> those that thread \<open>i\<close> is
  chaining or deleting, \<open>pl\<close> tells for every address where it is. The parts speak of single threads
  and addresses.
\<close>

definition lists_ok :: "nat list \<Rightarrow> nat list \<Rightarrow> 'a lf_stack \<Rightarrow> bool" where
  "lists_ok S P s \<longleftrightarrow> linked (lf_heap s) (lf_head s) S None \<and> linked (lf_heap s) (to_be_deleted s) P None
     \<and> distinct S \<and> distinct P"

definition values_ok :: "nat list \<Rightarrow> 'a lf_stack \<Rightarrow> bool" where
  "values_ok S s \<longleftrightarrow> (\<exists>vs. List.map (\<lambda>a. Option.bind (lf_heap s a) node_data) S = List.map Some vs
     \<and> replay (events s) [] = Some vs)"

definition place_ok :: "nat list \<Rightarrow> nat list \<Rightarrow> (nat \<Rightarrow> place option) \<Rightarrow> 'a lf_stack \<Rightarrow> nat \<Rightarrow> bool" where
  "place_ok S P pl s a \<longleftrightarrow> (a \<in> set S \<longleftrightarrow> pl a = Some Stacked) \<and> (a \<in> set P \<longleftrightarrow> pl a = Some Pending)
     \<and> (lf_heap s a = None \<longleftrightarrow> pl a = None)"

definition mine_ok :: "(nat \<Rightarrow> nat list) \<Rightarrow> (nat \<Rightarrow> place option) \<Rightarrow> 'a lf_stack \<Rightarrow> nat \<Rightarrow> nat \<Rightarrow> bool" where
  "mine_ok C pl s k a \<longleftrightarrow> (a \<in> set (own_list (lf_pcs s k) @ C k) \<longleftrightarrow> pl a = Some (Private k))"

definition own_ok :: "(nat \<Rightarrow> nat list) \<Rightarrow> 'a lf_stack \<Rightarrow> nat \<Rightarrow> bool" where
  "own_ok C s k \<longleftrightarrow> shape_ok (lf_heap s) (lf_pcs s k) (C k) \<and> distinct (own_list (lf_pcs s k) @ C k)"

definition ref_ok :: "(nat \<Rightarrow> nat list) \<Rightarrow> 'a lf_stack \<Rightarrow> nat \<Rightarrow> nat \<Rightarrow> bool" where
  "ref_ok C s j k \<longleftrightarrow> (\<forall>a. ref_of (lf_pcs s j) = Some a \<longrightarrow> lf_heap s a \<noteq> None \<and> a \<notin> hidden (lf_pcs s k) (C k))"

definition next_ok :: "nat list \<Rightarrow> 'a lf_stack \<Rightarrow> nat \<Rightarrow> bool" where
  "next_ok S s j \<longleftrightarrow> (\<forall>a q. lf_pcs s j = Pop_cas a q \<longrightarrow> a \<in> set S \<longrightarrow> (\<exists>n. lf_heap s a = Some n \<and> node_next n = q))"

definition count_ok :: "nat \<Rightarrow> 'a lf_stack \<Rightarrow> bool" where
  "count_ok n s \<longleftrightarrow> threads_in_pop s = of_nat (card {k. k < n \<and> in_pop (lf_pcs s k)})
     \<and> (\<forall>k. n \<le> k \<longrightarrow> lf_pcs s k = Outside)"

definition return_ok :: "'a lf_stack \<Rightarrow> nat \<Rightarrow> bool" where
  "return_ok s i \<longleftrightarrow> pops_of i (events s) = results_of i (results s) @ in_flight (lf_heap s) (lf_pcs s i)"

definition lf_inv :: "nat \<Rightarrow> nat list \<Rightarrow> nat list \<Rightarrow> (nat \<Rightarrow> nat list) \<Rightarrow> (nat \<Rightarrow> place option) \<Rightarrow> 'a lf_stack \<Rightarrow> bool" where
  "lf_inv n S P C pl s \<longleftrightarrow> lists_ok S P s \<and> values_ok S s \<and> (\<forall>a. place_ok S P pl s a) \<and> (\<forall>k a. mine_ok C pl s k a)
     \<and> (\<forall>k. own_ok C s k) \<and> (\<forall>j k. ref_ok C s j k) \<and> (\<forall>j. next_ok S s j) \<and> count_ok n s \<and> (\<forall>i. return_ok s i)"

lemma lf_invD:
  assumes "lf_inv n S P C pl s"
  shows "lists_ok S P s" "values_ok S s" "place_ok S P pl s a" "mine_ok C pl s k a" "own_ok C s k" "ref_ok C s j k"
    "next_ok S s j" "count_ok n s" "return_ok s i"
  using assms by (simp_all add: lf_inv_def)

lemma lf_inv_new: "lf_inv n [] [] (\<lambda>_. []) (\<lambda>_. None) lf_new"
  by (simp add: lf_inv_def lists_ok_def values_ok_def place_ok_def mine_ok_def own_ok_def ref_ok_def next_ok_def
      count_ok_def return_ok_def lf_new_def)

text \<open>What other threads see of a private node.\<close>

lemma shape_cong:
  assumes "\<And>a. a \<in> set (own_list pc @ c) \<Longrightarrow> H' a = H a"
  shows "shape_ok H' pc c = shape_ok H pc c" and "in_flight H' pc = in_flight H pc"
proof -
  have "linked H' p c q = linked H p c q" for p q using assms by (intro linked_cong) simp
  then show "shape_ok H' pc c = shape_ok H pc c" using assms by (cases pc) auto
  show "in_flight H' pc = in_flight H pc"
  proof (cases pc)
    case (Pop_got p)
    then show ?thesis using assms by (cases p) auto
  qed simp_all
qed

text \<open>
  A step of thread \<open>i\<close> keeps the invariant when it keeps what it touches in order: its own position and
  nodes, the lists, and the nodes that other threads refer to.
\<close>

lemma lf_inv_step:
  assumes inv: "lf_inv n S P C pl s"
    and pcs: "lf_pcs s' = (lf_pcs s)(i := q)"
    and lists: "lists_ok S' P' s'" and vals: "values_ok S' s'" and place: "\<And>a. place_ok S' P' pl' s' a"
    and mine: "\<And>a. a \<in> set (own_list q @ c) \<longleftrightarrow> pl' a = Some (Private i)"
    and others: "\<And>a k. k \<noteq> i \<Longrightarrow> pl' a = Some (Private k) \<longleftrightarrow> pl a = Some (Private k)"
    and heap: "\<And>a k. k \<noteq> i \<Longrightarrow> pl a = Some (Private k) \<Longrightarrow> lf_heap s' a = lf_heap s a"
    and own: "shape_ok (lf_heap s') q c" "distinct (own_list q @ c)"
    and refs: "\<And>j a. j \<noteq> i \<Longrightarrow> ref_of (lf_pcs s j) = Some a \<Longrightarrow> lf_heap s' a \<noteq> None \<and> a \<notin> hidden q c"
    and ref: "\<And>a k. ref_of q = Some a \<Longrightarrow> lf_heap s' a \<noteq> None \<and> (k \<noteq> i \<longrightarrow> a \<notin> hidden (lf_pcs s k) (C k))"
    and stay: "\<And>j a. j \<noteq> i \<Longrightarrow> ref_of (lf_pcs s j) = Some a \<Longrightarrow> a \<in> set S' \<Longrightarrow> a \<in> set S \<and> lf_heap s' a = lf_heap s a"
    and nxt: "\<And>a r. q = Pop_cas a r \<Longrightarrow> a \<in> set S' \<Longrightarrow> \<exists>n. lf_heap s' a = Some n \<and> node_next n = r"
    and count: "count_ok n s'"
    and ret: "\<And>j. j \<noteq> i \<Longrightarrow> pops_of j (events s') = pops_of j (events s) \<and> results_of j (results s') = results_of j (results s)"
      "pops_of i (events s') = results_of i (results s') @ in_flight (lf_heap s') q"
  shows "lf_inv n S' P' (C(i := c)) pl' s'"
proof -
  have frame: "lf_heap s' a = lf_heap s a" if "k \<noteq> i" "a \<in> set (own_list (lf_pcs s k) @ C k)" for k a
    using heap [OF that(1)] lf_invD(4) [OF inv, of k a] that(2) by (simp add: mine_ok_def)
  have "mine_ok (C(i := c)) pl' s' k a" for k a
    using mine [of a] others [of k a] lf_invD(4) [OF inv, of k a] by (simp add: mine_ok_def pcs)
  moreover have "own_ok (C(i := c)) s' k" for k
  proof (cases "k = i")
    case False
    then show ?thesis
      using lf_invD(5) [OF inv, of k] shape_cong(1) [OF frame [OF False]] by (simp add: own_ok_def pcs)
  qed (use own in \<open>simp add: own_ok_def pcs\<close>)
  moreover have "ref_ok (C(i := c)) s' j k" for j k
  proof -
    have "hidden q c = {} \<or> ref_of q = None" by (cases q) auto
    then show ?thesis
      using refs [of j] ref lf_invD(6) [OF inv, of j k] by (cases "j = i"; cases "k = i") (auto simp: ref_ok_def pcs)
  qed
  moreover have "next_ok S' s' j" for j
  proof (cases "j = i")
    case False
    then show ?thesis
      using stay [OF False] lf_invD(7) [OF inv, of j] by (fastforce simp: next_ok_def pcs)
  qed (use nxt in \<open>simp add: next_ok_def pcs\<close>)
  moreover have "return_ok s' j" for j
  proof (cases "j = i")
    case False
    then show ?thesis
      using ret(1) [OF False] lf_invD(9) [OF inv, of j] shape_cong(2) [OF frame [OF False]]
      by (simp add: return_ok_def pcs)
  qed (use ret(2) in \<open>simp add: return_ok_def pcs\<close>)
  ultimately show ?thesis using lists vals place count by (simp add: lf_inv_def)
qed

text \<open>The counter.\<close>

lemma count_same:
  assumes "count_ok n s" "i < n" "lf_pcs s' = (lf_pcs s)(i := q)" "in_pop q = in_pop (lf_pcs s i)"
    "threads_in_pop s' = threads_in_pop s"
  shows "count_ok n s'"
proof -
  have "{k. k < n \<and> in_pop (lf_pcs s' k)} = {k. k < n \<and> in_pop (lf_pcs s k)}" using assms(3,4) by auto
  then show ?thesis using assms by (simp add: count_ok_def)
qed

lemma count_enter:
  assumes "count_ok n s" "i < n" "lf_pcs s' = (lf_pcs s)(i := q)" "in_pop q" "\<not> in_pop (lf_pcs s i)"
    "threads_in_pop s' = threads_in_pop s + 1"
  shows "count_ok n s'"
proof -
  have "{k. k < n \<and> in_pop (lf_pcs s' k)} = insert i {k. k < n \<and> in_pop (lf_pcs s k)}" using assms(2-4) by auto
  then show ?thesis using assms by (simp add: count_ok_def)
qed

lemma count_leave:
  assumes "count_ok n s" "i < n" "lf_pcs s' = (lf_pcs s)(i := q)" "\<not> in_pop q" "in_pop (lf_pcs s i)"
    "threads_in_pop s' = threads_in_pop s - 1"
  shows "count_ok n s'"
proof -
  have e: "{k. k < n \<and> in_pop (lf_pcs s k)} = insert i {k. k < n \<and> in_pop (lf_pcs s' k)}" using assms(2-5) by auto
  have "card {k. k < n \<and> in_pop (lf_pcs s k)} = Suc (card {k. k < n \<and> in_pop (lf_pcs s' k)})"
    unfolding e using assms(3,4) by simp
  then show ?thesis using assms by (simp add: count_ok_def)
qed

lemma count_value:
  assumes "count_ok n s" "n < 2 ^ 32"
  shows "unat (threads_in_pop s) = card {k. k < n \<and> in_pop (lf_pcs s k)}"
proof -
  have "card {k. k < n \<and> in_pop (lf_pcs s k)} \<le> card {..<n}" by (rule card_mono) auto
  then show ?thesis using assms by (simp add: count_ok_def unat_of_nat take_bit_nat_eq_self)
qed

lemma in_pop_less: "count_ok n s \<Longrightarrow> in_pop (lf_pcs s k) \<Longrightarrow> k < n"
  by (metis count_ok_def in_pop.simps(1) not_le)

lemma count_none:
  assumes "count_ok n s" "n < 2 ^ 32" "threads_in_pop s = 0"
  shows "\<not> in_pop (lf_pcs s j)"
  using count_value [OF assms(1,2)] in_pop_less [OF assms(1)] assms(3) by auto

lemma count_one:
  assumes "count_ok n s" "n < 2 ^ 32" "threads_in_pop s = 1" "in_pop (lf_pcs s i)" "j \<noteq> i"
  shows "\<not> in_pop (lf_pcs s j)"
proof
  assume j: "in_pop (lf_pcs s j)"
  have "{i, j} \<subseteq> {k. k < n \<and> in_pop (lf_pcs s k)}" using j assms(4) in_pop_less [OF assms(1)] by auto
  then have "card {i, j} \<le> card {k. k < n \<and> in_pop (lf_pcs s k)}" by (intro card_mono) auto
  then show False using count_value [OF assms(1,2)] assms(3,5) by simp
qed

lemma ref_in_pop: "ref_of pc = Some a \<Longrightarrow> in_pop pc"
  by (cases pc) auto

lemma lists_frame:
  assumes "lists_ok S P s" "\<And>a. a \<in> set S \<or> a \<in> set P \<Longrightarrow> lf_heap s' a = lf_heap s a"
    "lf_head s' = lf_head s" "to_be_deleted s' = to_be_deleted s"
  shows "lists_ok S P s'"
proof -
  have "linked (lf_heap s') p S None = linked (lf_heap s) p S None"
      "linked (lf_heap s') p P None = linked (lf_heap s) p P None" for p
    using assms(2) by (auto intro!: linked_cong)
  then show ?thesis using assms(1,3,4) by (simp add: lists_ok_def)
qed

lemma values_frame:
  assumes "values_ok S s" "\<And>a. a \<in> set S \<Longrightarrow> lf_heap s' a = lf_heap s a" "replay (events s') [] = replay (events s) []"
  shows "values_ok S s'"
proof -
  have "List.map (\<lambda>a. Option.bind (lf_heap s' a) node_data) S = List.map (\<lambda>a. Option.bind (lf_heap s a) node_data) S"
    using assms(2) by simp
  then show ?thesis using assms(1) by (simp only: values_ok_def assms(3))
qed

text \<open>A step that leaves every node where it is and touches at most the thread's own nodes.\<close>

lemma lf_inv_local:
  assumes inv: "lf_inv n S P C pl s"
    and pcs: "lf_pcs s' = (lf_pcs s)(i := q)"
    and same: "lf_head s' = lf_head s" "to_be_deleted s' = to_be_deleted s"
    and heap: "\<And>a. pl a \<noteq> Some (Private i) \<Longrightarrow> lf_heap s' a = lf_heap s a"
      "\<And>a. lf_heap s' a = None \<longleftrightarrow> lf_heap s a = None"
    and mine: "set (own_list q @ c) = set (own_list (lf_pcs s i) @ C i)"
    and own: "shape_ok (lf_heap s') q c" "distinct (own_list q @ c)"
    and refs: "\<And>j a. j \<noteq> i \<Longrightarrow> ref_of (lf_pcs s j) = Some a \<Longrightarrow> a \<notin> hidden q c"
    and ref: "\<And>a k. ref_of q = Some a \<Longrightarrow> lf_heap s' a \<noteq> None \<and> (k \<noteq> i \<longrightarrow> a \<notin> hidden (lf_pcs s k) (C k))"
    and nxt: "\<And>a r. q = Pop_cas a r \<Longrightarrow> a \<in> set S \<Longrightarrow> \<exists>n. lf_heap s' a = Some n \<and> node_next n = r"
    and count: "count_ok n s'"
    and replay: "replay (events s') [] = replay (events s) []"
    and ret: "\<And>j. j \<noteq> i \<Longrightarrow> pops_of j (events s') = pops_of j (events s) \<and> results_of j (results s') = results_of j (results s)"
      "pops_of i (events s') = results_of i (results s') @ in_flight (lf_heap s') q"
  shows "lf_inv n S P (C(i := c)) pl s'"
proof (rule lf_inv_step [OF inv pcs])
  have shared: "lf_heap s' a = lf_heap s a" if "a \<in> set S \<or> a \<in> set P" for a
    using heap(1) [of a] lf_invD(3) [OF inv, of a] that by (auto simp: place_ok_def)
  show "lists_ok S P s'" by (rule lists_frame [OF lf_invD(1) [OF inv] shared same])
  show "values_ok S s'" using shared by (intro values_frame [OF lf_invD(2) [OF inv] _ replay]) simp
  show "place_ok S P pl s' a" for a using lf_invD(3) [OF inv, of a] heap(2) [of a] by (simp add: place_ok_def)
  show "a \<in> set (own_list q @ c) \<longleftrightarrow> pl a = Some (Private i)" for a
    using lf_invD(4) [OF inv, of i a] unfolding mine mine_ok_def by simp
  show "lf_heap s' a = lf_heap s a" if "k \<noteq> i" "pl a = Some (Private k)" for a k
    using heap(1) [of a] that by simp
  show "lf_heap s' a \<noteq> None \<and> a \<notin> hidden q c" if "j \<noteq> i" "ref_of (lf_pcs s j) = Some a" for j a
    using refs [OF that] lf_invD(6) [OF inv, of j j] that(2) heap(2) [of a] by (simp add: ref_ok_def)
  show "a \<in> set S \<and> lf_heap s' a = lf_heap s a" if "a \<in> set S" for a using shared that by simp
qed (use own ref nxt count ret in auto)

end
