(* ===== verification/Lock_Free_Safety.thy ===== *)
theory Lock_Free_Safety
  imports Lock_Free_Invariant
begin

text \<open>
  Safety of \<open>lock_free_stack\<close>: every step keeps the invariant, so no thread uses a deleted node and the
  stack behaves as one whose operations take effect in single steps; and the one way in which it
  fails.
\<close>

section \<open>Steps\<close>

text \<open>A step keeps the invariant, or it is the one that follows a null pointer.\<close>

definition lf_good :: "nat \<Rightarrow> 'a lf_stack \<Rightarrow> bool" where
  "lf_good n s \<longleftrightarrow> (\<exists>S P C pl. lf_inv n S P C pl s)"

definition step_ok :: "nat \<Rightarrow> 'a lf_stack \<Rightarrow> nat \<Rightarrow> 'a lf_stack outcome \<Rightarrow> bool" where
  "step_ok n s i r \<longleftrightarrow>
     (case r of
        Returns s' \<Rightarrow> lf_good n s'
      | Blocks \<Rightarrow> lf_pcs s i = Outside
      | Undefined \<Rightarrow> (\<exists>res. lf_pcs s i = Link False None res None None))"

lemma step_okI: "lf_inv n S P C pl s' \<Longrightarrow> step_ok n s i (Returns s')"
  by (auto simp: step_ok_def lf_good_def)

lemmas lf_part_defs = place_ok_def mine_ok_def own_ok_def ref_ok_def next_ok_def return_ok_def

lemma hidden_own: "hidden pc c \<subseteq> set (own_list pc @ c)"
  by (cases pc) auto

lemma stacked_not_hidden:
  assumes "lf_inv n S P C pl s" "pl a = Some Stacked \<or> pl a = Some Pending \<or> pl a = None"
  shows "a \<notin> hidden (lf_pcs s k) (C k)"
  using lf_invD(4) [OF assms(1), of k a] hidden_own [of "lf_pcs s k" "C k"] assms(2) by (auto simp: mine_ok_def)

lemma push_new_ok:
  assumes inv: "lf_inv n S P C pl s" and i: "i < n" and pc: "lf_pcs s i = Outside" and a: "lf_heap s a = None"
  shows "step_ok n s i (Returns (push_new i v a s))"
proof (rule step_okI)
  have pa: "pl a = None" "a \<notin> set S" "a \<notin> set P" using lf_invD(3) [OF inv, of a] a by (auto simp: place_ok_def)
  have frame: "lf_heap (push_new i v a s) b = lf_heap s b" if "b \<in> set S \<or> b \<in> set P" for b
    using that pa by (auto simp: push_new_def go_def store_def)
  have ci: "C i = []" using lf_invD(5) [OF inv, of i] pc by (simp add: own_ok_def)
  show "lf_inv n S P (C(i := [])) (pl(a \<mapsto> Private i)) (push_new i v a s)"
  proof (rule lf_inv_step [OF inv, where q = "Push_start v a"])
    show "count_ok n (push_new i v a s)"
      by (rule count_same [OF lf_invD(8) [OF inv] i, where q = "Push_start v a"]) (simp_all add: push_new_def go_def store_def pc)
    show "b \<in> set (own_list (Push_start v a) @ []) \<longleftrightarrow> (pl(a \<mapsto> Private i)) b = Some (Private i)" for b
      using lf_invD(4) [OF inv, of i b] pc ci by (simp add: mine_ok_def)
    show "place_ok S P (pl(a \<mapsto> Private i)) (push_new i v a s) b" for b
      using lf_invD(3) [OF inv, of b] pa by (auto simp: place_ok_def push_new_def go_def store_def)
    show "lf_heap (push_new i v a s) b \<noteq> None \<and> b \<notin> hidden (Push_start v a) []"
      if "ref_of (lf_pcs s j) = Some b" for b j
      using lf_invD(6) [OF inv, of j j] that a by (auto simp: ref_ok_def push_new_def go_def store_def)
    show "lists_ok S P (push_new i v a s)"
      by (rule lists_frame [OF lf_invD(1) [OF inv] frame]) (simp_all add: push_new_def go_def store_def)
    show "values_ok S (push_new i v a s)"
      by (rule values_frame [OF lf_invD(2) [OF inv] frame]) (simp_all add: push_new_def go_def store_def)
    show "b \<in> set S \<and> lf_heap (push_new i v a s) b = lf_heap s b" if "b \<in> set S" for b
      using that frame by blast
  qed (use lf_invD(9) [OF inv, of i] pa pc in \<open>auto simp: push_new_def go_def store_def return_ok_def\<close>)
qed

lemma pop_enter_ok:
  assumes inv: "lf_inv n S P C pl s" and i: "i < n" and pc: "lf_pcs s i = Outside"
  shows "step_ok n s i (Returns (pop_enter i s))"
proof (rule step_okI)
  have ci: "C i = []" using lf_invD(5) [OF inv, of i] pc by (simp add: own_ok_def)
  show "lf_inv n S P (C(i := [])) pl (pop_enter i s)"
  proof (rule lf_inv_local [OF inv, where q = Pop_start])
    show "count_ok n (pop_enter i s)"
      by (rule count_enter [OF lf_invD(8) [OF inv] i, where q = Pop_start]) (simp_all add: pop_enter_def go_def pc)
  qed (use lf_invD(9) [OF inv, of i] pc ci in \<open>simp_all add: pop_enter_def go_def return_ok_def\<close>)
qed

lemma push_load_ok:
  assumes inv: "lf_inv n S P C pl s" and i: "i < n" and pc: "lf_pcs s i = Push_start v a"
  shows "step_ok n s i (push_load i v a s)"
proof -
  obtain m where m: "lf_heap s a = Some m" "node_data m = Some v" and ci: "C i = []"
    using lf_invD(5) [OF inv, of i] pc by (cases "lf_heap s a") (auto simp: own_ok_def)
  have pa: "pl a = Some (Private i)" using lf_invD(4) [OF inv, of i a] pc by (simp add: mine_ok_def)
  have r: "push_load i v a s = Returns (go i (Push_cas v a) (store a (m\<lparr>node_next := lf_head s\<rparr>) s))"
    using m by (simp add: push_load_def)
  show ?thesis unfolding r
  proof (rule step_okI)
    show "lf_inv n S P (C(i := [])) pl (go i (Push_cas v a) (store a (m\<lparr>node_next := lf_head s\<rparr>) s))" (is "lf_inv _ _ _ _ _ ?s")
    proof (rule lf_inv_local [OF inv, where q = "Push_cas v a"])
      show "count_ok n ?s" by (rule count_same [OF lf_invD(8) [OF inv] i, where q = "Push_cas v a"]) (simp_all add: go_def store_def pc)
      show "b \<notin> hidden (Push_cas v a) []" if "ref_of (lf_pcs s j) = Some b" for b j
        using lf_invD(6) [OF inv, of j i] that pc by (simp add: ref_ok_def)
    qed (use lf_invD(9) [OF inv, of i] pc ci pa m in \<open>auto simp: go_def store_def return_ok_def\<close>)
  qed
qed

lemma push_exchange_ok:
  assumes inv: "lf_inv n S P C pl s" and i: "i < n" and pc: "lf_pcs s i = Push_cas v a"
  shows "step_ok n s i (push_exchange i v a spurious s)"
proof -
  obtain m where m: "lf_heap s a = Some m" "node_data m = Some v" and ci: "C i = []"
    using lf_invD(5) [OF inv, of i] pc by (cases "lf_heap s a") (auto simp: own_ok_def)
  have pa: "pl a = Some (Private i)" using lf_invD(4) [OF inv, of i a] pc by (simp add: mine_ok_def)
  show ?thesis
  proof (cases "lf_head s = node_next m \<and> \<not> spurious")
    case False
    then have r: "push_exchange i v a spurious s = Returns (go i (Push_cas v a) (store a (m\<lparr>node_next := lf_head s\<rparr>) s))"
      using m by (auto simp: push_exchange_def)
    show ?thesis unfolding r
    proof (rule step_okI)
      show "lf_inv n S P (C(i := [])) pl (go i (Push_cas v a) (store a (m\<lparr>node_next := lf_head s\<rparr>) s))" (is "lf_inv _ _ _ _ _ ?s")
      proof (rule lf_inv_local [OF inv, where q = "Push_cas v a"])
        show "count_ok n ?s"
          by (rule count_same [OF lf_invD(8) [OF inv] i, where q = "Push_cas v a"]) (simp_all add: go_def store_def pc)
        show "b \<notin> hidden (Push_cas v a) []" if "ref_of (lf_pcs s j) = Some b" for b j
          using lf_invD(6) [OF inv, of j i] that pc by (simp add: ref_ok_def)
      qed (use lf_invD(9) [OF inv, of i] pc ci pa m in \<open>auto simp: go_def store_def return_ok_def\<close>)
    qed
  next
    case True
    let ?s = "go i Outside (s\<lparr>lf_head := Some a, events := events s @ [(i, Pushed v)]\<rparr>)"
    have r: "push_exchange i v a spurious s = Returns ?s" using m True by (simp add: push_exchange_def)
    have new: "a \<notin> set S" using lf_invD(3) [OF inv, of a] pa by (simp add: place_ok_def)
    show ?thesis unfolding r
    proof (rule step_okI)
      show "lf_inv n (a # S) P (C(i := [])) (pl(a \<mapsto> Stacked)) ?s"
      proof (rule lf_inv_step [OF inv, where q = Outside])
        show "lists_ok (a # S) P ?s" using lf_invD(1) [OF inv] m True new by (simp add: lists_ok_def go_def)
        obtain vs where "List.map (\<lambda>a. Option.bind (lf_heap s a) node_data) S = List.map Some vs" "replay (events s) [] = Some vs"
          using lf_invD(2) [OF inv] by (auto simp: values_ok_def)
        then show "values_ok (a # S) ?s"
          using m by (auto simp: values_ok_def go_def replay_append intro: exI [of _ "v # vs"])
        show "place_ok (a # S) P (pl(a \<mapsto> Stacked)) ?s b" for b
          using lf_invD(3) [OF inv, of b] pa m by (auto simp: place_ok_def go_def)
        show "b \<in> set (own_list Outside @ []) \<longleftrightarrow> (pl(a \<mapsto> Stacked)) b = Some (Private i)" for b
          using lf_invD(4) [OF inv, of i b] pc ci by (auto simp: mine_ok_def)
        show "count_ok n ?s"
          by (rule count_same [OF lf_invD(8) [OF inv] i, where q = Outside]) (simp_all add: go_def pc)
        show "lf_heap ?s b \<noteq> None \<and> b \<notin> hidden Outside []" if "ref_of (lf_pcs s j) = Some b" for b j
          using lf_invD(6) [OF inv, of j j] that by (simp add: ref_ok_def go_def)
        show "b \<in> set S \<and> lf_heap ?s b = lf_heap s b" if "ref_of (lf_pcs s j) = Some b" "b \<in> set (a # S)" for b j
          using lf_invD(6) [OF inv, of j i] that pc by (auto simp: ref_ok_def go_def)
      qed (use lf_invD(9) [OF inv, of i] pa pc in \<open>auto simp: go_def return_ok_def\<close>)
    qed
  qed
qed

text \<open>Reading \<open>_head\<close> in \<open>pop\<close>.\<close>

lemma pop_loaded_ok:
  assumes inv: "lf_inv n S P C pl s" and i: "i < n"
    and pc: "in_pop (lf_pcs s i)" "own_list (lf_pcs s i) = []" "C i = []" "in_flight (lf_heap s) (lf_pcs s i) = []"
  shows "step_ok n s i (Returns (pop_loaded i s))"
proof (cases "lf_head s")
  case None
  let ?s = "go i (Pop_got None) (s\<lparr>events := events s @ [(i, Popped None)]\<rparr>)"
  have r: "pop_loaded i s = ?s" using None by (simp add: pop_loaded_def)
  have "S = []" using lf_invD(1) [OF inv] None by (simp add: lists_ok_def linked_None)
  then have empty: "replay (events s) [] = Some []" using lf_invD(2) [OF inv] by (auto simp: values_ok_def)
  show ?thesis unfolding r
  proof (rule step_okI)
    show "lf_inv n S P (C(i := [])) pl ?s"
    proof (rule lf_inv_local [OF inv, where q = "Pop_got None"])
      show "count_ok n ?s"
        by (rule count_same [OF lf_invD(8) [OF inv] i, where q = "Pop_got None"]) (simp_all add: go_def pc)
    qed (use lf_invD(9) [OF inv, of i] pc empty in \<open>simp_all add: go_def return_ok_def replay_append\<close>)
  qed
next
  case (Some a)
  let ?s = "go i (Pop_next a) s"
  have r: "pop_loaded i s = ?s" using Some by (simp add: pop_loaded_def)
  obtain m S' where S: "S = a # S'" "lf_heap s a = Some m"
    using lf_invD(1) [OF inv] Some by (auto simp: lists_ok_def linked_Some)
  then have "pl a = Some Stacked" using lf_invD(3) [OF inv, of a] by (simp add: place_ok_def)
  then have nh: "a \<notin> hidden (lf_pcs s k) (C k)" for k using stacked_not_hidden [OF inv] by blast
  show ?thesis unfolding r
  proof (rule step_okI)
    show "lf_inv n S P (C(i := [])) pl ?s"
    proof (rule lf_inv_local [OF inv, where q = "Pop_next a"])
      show "count_ok n ?s"
        by (rule count_same [OF lf_invD(8) [OF inv] i, where q = "Pop_next a"]) (simp_all add: go_def pc)
    qed (use lf_invD(9) [OF inv, of i] pc S nh in \<open>simp_all add: go_def return_ok_def\<close>)
  qed
qed

lemma pop_next_ok:
  assumes inv: "lf_inv n S P C pl s" and i: "i < n" and pc: "lf_pcs s i = Pop_next a"
  shows "step_ok n s i (pop_next i a s)"
proof -
  obtain m where m: "lf_heap s a = Some m" using lf_invD(6) [OF inv, of i i] pc by (auto simp: ref_ok_def)
  have ci: "C i = []" using lf_invD(5) [OF inv, of i] pc by (simp add: own_ok_def)
  let ?s = "go i (Pop_cas a (node_next m)) s"
  have r: "pop_next i a s = Returns ?s" using m by (simp add: pop_next_def)
  show ?thesis unfolding r
  proof (rule step_okI)
    show "lf_inv n S P (C(i := [])) pl ?s"
    proof (rule lf_inv_local [OF inv, where q = "Pop_cas a (node_next m)"])
      show "count_ok n ?s"
        by (rule count_same [OF lf_invD(8) [OF inv] i, where q = "Pop_cas a (node_next m)"]) (simp_all add: go_def pc)
      show "lf_heap ?s b \<noteq> None \<and> (k \<noteq> i \<longrightarrow> b \<notin> hidden (lf_pcs s k) (C k))"
        if "ref_of (Pop_cas a (node_next m) :: 'a lf_pc) = Some b" for b k
        using lf_invD(6) [OF inv, of i k] that pc by (simp add: ref_ok_def go_def)
    qed (use lf_invD(9) [OF inv, of i] pc ci m in \<open>simp_all add: go_def return_ok_def\<close>)
  qed
qed

lemma pop_exchange_ok:
  assumes inv: "lf_inv n S P C pl s" and i: "i < n" and pc: "lf_pcs s i = Pop_cas a nxt"
  shows "step_ok n s i (Returns (pop_exchange i a nxt spurious s))"
proof -
  have ci: "C i = []" using lf_invD(5) [OF inv, of i] pc by (simp add: own_ok_def)
  show ?thesis
  proof (cases "lf_head s = Some a \<and> \<not> spurious")
    case False
    then have "pop_exchange i a nxt spurious s = pop_loaded i s" by (auto simp: pop_exchange_def)
    then show ?thesis using pop_loaded_ok [OF inv i] pc ci by simp
  next
    case True
    then obtain m S' where S: "S = a # S'" "lf_heap s a = Some m" "linked (lf_heap s) (node_next m) S' None"
      using lf_invD(1) [OF inv] by (auto simp: lists_ok_def linked_Some)
    have nxt: "node_next m = nxt" using lf_invD(7) [OF inv, of i] pc S by (simp add: next_ok_def)
    have pa: "pl a = Some Stacked" using lf_invD(3) [OF inv, of a] S by (simp add: place_ok_def)
    have new: "a \<notin> set S'" "distinct S'" using lf_invD(1) [OF inv] S by (auto simp: lists_ok_def)
    let ?s = "go i (Pop_got (Some a)) (s\<lparr>lf_head := nxt, events := events s @ [(i, Popped (node_data m))]\<rparr>)"
    have r: "pop_exchange i a nxt spurious s = ?s" using True S by (simp add: pop_exchange_def)
    obtain vs where vs: "List.map (\<lambda>a. Option.bind (lf_heap s a) node_data) S = List.map Some vs" "replay (events s) [] = Some vs"
      using lf_invD(2) [OF inv] by (auto simp: values_ok_def)
    then obtain v vs' where v: "vs = v # vs'" "node_data m = Some v" using S by (cases vs) auto
    show ?thesis unfolding r
    proof (rule step_okI)
      show "lf_inv n S' P (C(i := [])) (pl(a \<mapsto> Private i)) ?s"
      proof (rule lf_inv_step [OF inv, where q = "Pop_got (Some a)"])
        show "lists_ok S' P ?s" using lf_invD(1) [OF inv] S nxt new by (simp add: lists_ok_def go_def)
        show "values_ok S' ?s" using vs v S by (simp add: values_ok_def go_def replay_append)
        show "place_ok S' P (pl(a \<mapsto> Private i)) ?s b" for b
          using lf_invD(3) [OF inv, of b] pa S new by (auto simp: place_ok_def go_def)
        show "b \<in> set (own_list (Pop_got (Some a) :: 'a lf_pc) @ []) \<longleftrightarrow> (pl(a \<mapsto> Private i)) b = Some (Private i)" for b
          using lf_invD(4) [OF inv, of i b] pc ci by (auto simp: mine_ok_def)
        show "count_ok n ?s"
          by (rule count_same [OF lf_invD(8) [OF inv] i, where q = "Pop_got (Some a)"]) (simp_all add: go_def pc)
        show "lf_heap ?s b \<noteq> None \<and> b \<notin> hidden (Pop_got (Some a) :: 'a lf_pc) []" if "ref_of (lf_pcs s j) = Some b" for b j
          using lf_invD(6) [OF inv, of j j] that by (simp add: ref_ok_def go_def)
      qed (use lf_invD(9) [OF inv, of i] pa pc S v in \<open>auto simp: go_def return_ok_def\<close>)
    qed
  qed
qed

lemma pop_swap_ok:
  assumes inv: "lf_inv n S P C pl s" and i: "i < n" and pc: "lf_pcs s i = Pop_got old"
  shows "step_ok n s i (pop_swap i old s)"
proof -
  have ci: "C i = []" using lf_invD(5) [OF inv, of i] pc by (simp add: own_ok_def)
  show ?thesis
  proof (cases old)
    case None
    let ?s = "go i (Reclaim None None) s"
    have r: "pop_swap i old s = Returns ?s" using None by (simp add: pop_swap_def)
    show ?thesis unfolding r
    proof (rule step_okI)
      show "lf_inv n S P (C(i := [])) pl ?s"
      proof (rule lf_inv_local [OF inv, where q = "Reclaim None None"])
        show "count_ok n ?s"
          by (rule count_same [OF lf_invD(8) [OF inv] i, where q = "Reclaim None None"]) (simp_all add: go_def pc)
      qed (use lf_invD(9) [OF inv, of i] pc ci None in \<open>simp_all add: go_def return_ok_def\<close>)
    qed
  next
    case (Some a)
    then obtain m where m: "lf_heap s a = Some m"
      using lf_invD(5) [OF inv, of i] pc by (cases "lf_heap s a") (auto simp: own_ok_def)
    have pa: "pl a = Some (Private i)" using lf_invD(4) [OF inv, of i a] pc Some by (simp add: mine_ok_def)
    let ?s = "go i (Reclaim old (node_data m)) (store a (m\<lparr>node_data := None\<rparr>) s)"
    have r: "pop_swap i old s = Returns ?s" using Some m by (simp add: pop_swap_def)
    show ?thesis unfolding r
    proof (rule step_okI)
      show "lf_inv n S P (C(i := [])) pl ?s"
      proof (rule lf_inv_local [OF inv, where q = "Reclaim old (node_data m)"])
        show "count_ok n ?s"
          by (rule count_same [OF lf_invD(8) [OF inv] i, where q = "Reclaim old (node_data m)"])
            (simp_all add: go_def store_def pc)
      qed (use lf_invD(9) [OF inv, of i] pc ci Some m pa in \<open>auto simp: go_def store_def return_ok_def\<close>)
    qed
  qed
qed

text \<open>The nodes of a thread are allocated.\<close>

lemma private_allocated:
  assumes "lf_inv n S P C pl s" "a \<in> set (own_list (lf_pcs s i) @ C i)"
  shows "\<exists>m. lf_heap s a = Some m" "pl a = Some (Private i)"
  using lf_invD(3) [OF assms(1), of a] lf_invD(4) [OF assms(1), of i a] assms(2)
  by (auto simp: place_ok_def mine_ok_def)

lemma reclaim_test_ok:
  assumes inv: "lf_inv n S P C pl s" and i: "i < n" and n: "n < 2 ^ 32" and pc: "lf_pcs s i = Reclaim old res"
  shows "step_ok n s i (Returns (reclaim_test i old res s))"
proof -
  have ci: "C i = []" using lf_invD(5) [OF inv, of i] pc by (simp add: own_ok_def)
  show ?thesis
  proof (cases "threads_in_pop s = 1")
    case True
    let ?s = "go i (Claim old res) s"
    have r: "reclaim_test i old res s = ?s" using True by (simp add: reclaim_test_def)
    have alone: "ref_of (lf_pcs s j) \<noteq> Some b" if "j \<noteq> i" for j b
      using count_one [OF lf_invD(8) [OF inv] n True _ that] ref_in_pop [of "lf_pcs s j" b] pc by auto
    show ?thesis unfolding r
    proof (rule step_okI)
      show "lf_inv n S P (C(i := [])) pl ?s"
      proof (rule lf_inv_local [OF inv, where q = "Claim old res"])
        show "count_ok n ?s"
          by (rule count_same [OF lf_invD(8) [OF inv] i, where q = "Claim old res"]) (simp_all add: go_def pc)
        show "distinct (own_list (Claim old res) @ [])" by (cases old) simp_all
      qed (use lf_invD(9) [OF inv, of i] pc ci alone in \<open>simp_all add: go_def return_ok_def\<close>)
    qed
  next
    case False
    let ?s = "go i (Link False old res old old) s"
    have r: "reclaim_test i old res s = ?s" using False by (simp add: reclaim_test_def)
    have al: "\<exists>m. lf_heap s a = Some m" if "old = Some a" for a
      using private_allocated(1) [OF inv, of a i] pc that by simp
    show ?thesis unfolding r
    proof (rule step_okI)
      show "lf_inv n S P (C(i := opt_list old)) pl ?s"
      proof (rule lf_inv_local [OF inv, where q = "Link False old res old old"])
        show "count_ok n ?s"
          by (rule count_same [OF lf_invD(8) [OF inv] i, where q = "Link False old res old old"]) (simp_all add: go_def pc)
        show "shape_ok (lf_heap ?s) (Link False old res old old) (opt_list old)"
          using al by (cases old) (auto simp: go_def)
        show "distinct (own_list (Link False old res old old) @ opt_list old)" by (cases old) simp_all
      qed (use lf_invD(9) [OF inv, of i] pc ci in \<open>simp_all add: go_def return_ok_def\<close>)
    qed
  qed
qed

lemma reclaim_claim_ok:
  assumes inv: "lf_inv n S P C pl s" and i: "i < n" and pc: "lf_pcs s i = Claim old res"
  shows "step_ok n s i (Returns (reclaim_claim i old res s))"
proof (rule step_okI)
  let ?q = "Leave_claimed old res (to_be_deleted s) :: 'a lf_pc"
  let ?s = "go i ?q (s\<lparr>to_be_deleted := None\<rparr>)"
  let ?pl = "\<lambda>a. if a \<in> set P then Some (Private i) else pl a"
  have ci: "C i = []" using lf_invD(5) [OF inv, of i] pc by (simp add: own_ok_def)
  have pP: "a \<in> set P \<longleftrightarrow> pl a = Some Pending" for a using lf_invD(3) [OF inv, of a] by (simp add: place_ok_def)
  have own: "a \<in> set (opt_list old) \<longleftrightarrow> pl a = Some (Private i)" for a
    using lf_invD(4) [OF inv, of i a] pc ci by (simp add: mine_ok_def)
  have "lf_inv n S [] (C(i := P)) ?pl ?s"
  proof (rule lf_inv_step [OF inv, where q = ?q])
    show "lists_ok S [] ?s" using lf_invD(1) [OF inv] by (simp add: lists_ok_def go_def)
    show "values_ok S ?s" by (rule values_frame [OF lf_invD(2) [OF inv]]) (simp_all add: go_def)
    show "place_ok S [] ?pl ?s a" for a
      using lf_invD(3) [OF inv, of a] by (auto simp: place_ok_def go_def)
    show "a \<in> set (own_list ?q @ P) \<longleftrightarrow> ?pl a = Some (Private i)" for a
      using own [of a] by auto
    show "?pl a = Some (Private k) \<longleftrightarrow> pl a = Some (Private k)" if "k \<noteq> i" for a k
      using that pP [of a] by auto
    show "shape_ok (lf_heap ?s) ?q P" using lf_invD(1) [OF inv] by (simp add: lists_ok_def go_def)
    have "set (opt_list old) \<inter> set P = {}" using own pP by auto
    then show "distinct (own_list ?q @ P)"
      using lf_invD(1) [OF inv] by (cases old) (simp_all add: lists_ok_def)
    show "count_ok n ?s"
      by (rule count_same [OF lf_invD(8) [OF inv] i, where q = ?q]) (simp_all add: go_def pc)
    show "lf_heap ?s b \<noteq> None \<and> b \<notin> hidden ?q P" if "ref_of (lf_pcs s j) = Some b" for b j
      using lf_invD(6) [OF inv, of j i] that pc by (simp add: ref_ok_def go_def)
  qed (use lf_invD(9) [OF inv, of i] pc in \<open>simp_all add: go_def return_ok_def\<close>)
  then show "lf_inv n S [] (C(i := P)) ?pl (reclaim_claim i old res s)" by (simp add: reclaim_claim_def)
qed

lemma reclaim_leave_ok:
  assumes inv: "lf_inv n S P C pl s" and i: "i < n" and n: "n < 2 ^ 32" and pc: "lf_pcs s i = Leave_claimed old res ns"
  shows "step_ok n s i (Returns (reclaim_leave i old res ns s))"
proof (rule step_okI)
  let ?t = "s\<lparr>threads_in_pop := threads_in_pop s - 1\<rparr>"
  define q :: "'a lf_pc" where "q = (if threads_in_pop ?t = 0 then Delete_nodes old res ns
    else if ns \<noteq> None then Find_last old res ns ns else Delete_own old res)"
  have r: "reclaim_leave i old res ns s = go i q ?t" by (simp add: reclaim_leave_def q_def Let_def)
  have c: "linked (lf_heap s) ns (C i) None" "distinct (opt_list old @ C i)"
    using lf_invD(5) [OF inv, of i] pc by (simp_all add: own_ok_def)
  have empty: "C i = []" if "ns = None" using c(1) that by (simp add: linked_None)
  have q: "in_flight (lf_heap (go i q ?t)) q = [res]" "own_list q = opt_list old" "ref_of q = None"
    "\<not> in_pop q" "\<And>a r. q \<noteq> Pop_cas a r"
    by (simp_all add: q_def)
  have cnt: "count_ok n (go i q ?t)"
    by (rule count_leave [OF lf_invD(8) [OF inv] i, where q = q]) (simp_all add: go_def pc q)
  show "lf_inv n S P (C(i := C i)) pl (reclaim_leave i old res ns s)"
    unfolding r
  proof (rule lf_inv_local [OF inv, where q = q])
    show "set (own_list q @ C i) = set (own_list (lf_pcs s i) @ C i)" using pc q by simp
    show "shape_ok (lf_heap (go i q ?t)) q (C i)"
    proof (cases "ns = None")
      case False
      then obtain a where a: "ns = Some a" by auto
      then have "a \<in> set (C i)" using c(1) by (auto simp: linked_Some)
      then show ?thesis using c(1) a by (simp add: q_def go_def)
    qed (use c(1) empty in \<open>simp add: q_def go_def\<close>)
    show "b \<notin> hidden q (C i)" if "j \<noteq> i" "ref_of (lf_pcs s j) = Some b" for j b
    proof (cases "threads_in_pop ?t = 0")
      case True
      have "\<not> in_pop (lf_pcs (go i q ?t) j)" by (rule count_none [OF cnt n]) (use True in \<open>simp add: go_def\<close>)
      then show ?thesis using that ref_in_pop [of "lf_pcs s j" b] by (simp add: go_def)
    next
      case False
      then have "hidden q (C i) = set (opt_list old)" by (simp add: q_def)
      then show ?thesis using lf_invD(6) [OF inv, of j i] that pc by (simp add: ref_ok_def)
    qed
  qed (use lf_invD(9) [OF inv, of i] pc c q cnt in \<open>simp_all add: go_def return_ok_def\<close>)
qed

text \<open>Deleting a node that no thread refers to.\<close>

lemma delete_inv:
  assumes inv: "lf_inv n S P C pl s" and i: "i < n"
    and a: "a \<in> hidden (lf_pcs s i) (C i)"
    and s': "lf_heap s' = (lf_heap s)(a := None)" "lf_head s' = lf_head s" "to_be_deleted s' = to_be_deleted s"
      "lf_pcs s' = (lf_pcs s)(i := q)" "threads_in_pop s' = threads_in_pop s" "events s' = events s"
    and q: "ref_of q = None" "\<And>a r. q \<noteq> Pop_cas a r" "in_pop q = in_pop (lf_pcs s i)"
      "hidden q c \<subseteq> hidden (lf_pcs s i) (C i)"
    and mine: "set (own_list q @ c) = set (own_list (lf_pcs s i) @ C i) - {a}" "distinct (own_list q @ c)"
    and shape: "shape_ok (lf_heap s') q c"
    and ret: "\<And>j. j \<noteq> i \<Longrightarrow> results_of j (results s') = results_of j (results s)"
      "pops_of i (events s) = results_of i (results s') @ in_flight (lf_heap s') q"
  shows "lf_inv n S P (C(i := c)) (pl(a := None)) s'"
proof (rule lf_inv_step [OF inv, where q = q])
  have pa: "pl a = Some (Private i)" using private_allocated(2) [OF inv] a hidden_own by blast
  have shared: "lf_heap s' b = lf_heap s b" if "b \<in> set S \<or> b \<in> set P" for b
    using lf_invD(3) [OF inv, of b] that pa by (auto simp: place_ok_def s')
  show "lists_ok S P s'" by (rule lists_frame [OF lf_invD(1) [OF inv] shared]) (simp_all add: s')
  show "values_ok S s'" using shared by (intro values_frame [OF lf_invD(2) [OF inv]]) (simp_all add: s')
  show "place_ok S P (pl(a := None)) s' b" for b
    using lf_invD(3) [OF inv, of b] pa by (auto simp: place_ok_def s')
  show "b \<in> set (own_list q @ c) \<longleftrightarrow> (pl(a := None)) b = Some (Private i)" for b
    using lf_invD(4) [OF inv, of i b] unfolding mine(1) by (auto simp: mine_ok_def)
  show "lf_heap s' b \<noteq> None \<and> b \<notin> hidden q c" if "ref_of (lf_pcs s j) = Some b" for j b
    using lf_invD(6) [OF inv, of j i] lf_invD(6) [OF inv, of j j] that a q(4) by (auto simp: ref_ok_def s')
  show "b \<in> set S \<and> lf_heap s' b = lf_heap s b" if "b \<in> set S" for b using that shared by blast
  show "count_ok n s'" by (rule count_same [OF lf_invD(8) [OF inv] i s'(4) q(3) s'(5)])
  show "(pl(a := None)) b = Some (Private k) \<longleftrightarrow> pl b = Some (Private k)" if "k \<noteq> i" for b k
    using pa that by auto
  show "lf_heap s' b = lf_heap s b" if "k \<noteq> i" "pl b = Some (Private k)" for b k
    using pa that by (auto simp: s')
qed (use s' q mine shape ret in auto)

lemma delete_nodes_ok:
  assumes inv: "lf_inv n S P C pl s" and i: "i < n" and pc: "lf_pcs s i = Delete_nodes old res ns"
  shows "step_ok n s i (delete_nodes i old res ns s)"
proof -
  have c: "linked (lf_heap s) ns (C i) None" "distinct (opt_list old @ C i)"
    using lf_invD(5) [OF inv, of i] pc by (simp_all add: own_ok_def)
  show ?thesis
  proof (cases ns)
    case None
    then have ci: "C i = []" using c by (simp add: linked_None)
    let ?s = "go i (Delete_own old res) s"
    have r: "delete_nodes i old res ns s = Returns ?s" using None by (simp add: delete_nodes_def)
    show ?thesis unfolding r
    proof (rule step_okI)
      show "lf_inv n S P (C(i := [])) pl ?s"
      proof (rule lf_inv_local [OF inv, where q = "Delete_own old res"])
        show "count_ok n ?s"
          by (rule count_same [OF lf_invD(8) [OF inv] i, where q = "Delete_own old res"]) (simp_all add: go_def pc)
        show "b \<notin> hidden (Delete_own old res) []" if "ref_of (lf_pcs s j) = Some b" for j b
          using lf_invD(6) [OF inv, of j i] that pc by (simp add: ref_ok_def)
      qed (use lf_invD(9) [OF inv, of i] pc ci c in \<open>simp_all add: go_def return_ok_def\<close>)
    qed
  next
    case (Some a)
    then obtain m c' where m: "C i = a # c'" "lf_heap s a = Some m" "linked (lf_heap s) (node_next m) c' None"
      using c by (auto simp: linked_Some)
    let ?q = "Delete_nodes old res (node_next m)"
    let ?s = "go i ?q (s\<lparr>lf_heap := (lf_heap s)(a := None)\<rparr>)"
    have r: "delete_nodes i old res ns s = Returns ?s" using Some m by (simp add: delete_nodes_def delete_node_def)
    have "a \<notin> set c'" using c m by simp
    then have "linked ((lf_heap s)(a := None)) (node_next m) c' None"
      using m(3) by (subst linked_cong [where H = "lf_heap s"]) auto
    then show ?thesis unfolding r
      by (intro step_okI [OF delete_inv [OF inv i, where a = a and q = ?q and c = c']])
        (use lf_invD(9) [OF inv, of i] pc m c in \<open>auto simp: go_def return_ok_def\<close>)
  qed
qed

lemma delete_own_ok:
  assumes inv: "lf_inv n S P C pl s" and i: "i < n" and pc: "lf_pcs s i = Delete_own old res"
  shows "step_ok n s i (delete_own i old res s)"
proof -
  have ci: "C i = []" using lf_invD(5) [OF inv, of i] pc by (simp add: own_ok_def)
  show ?thesis
  proof (cases old)
    case None
    have r: "delete_own i old res s = Returns (pop_return i res s)" using None by (simp add: delete_own_def delete_node_def)
    show ?thesis unfolding r
    proof (rule step_okI)
      show "lf_inv n S P (C(i := [])) pl (pop_return i res s)"
      proof (rule lf_inv_local [OF inv, where q = Outside])
        show "count_ok n (pop_return i res s)"
          by (rule count_same [OF lf_invD(8) [OF inv] i, where q = Outside]) (simp_all add: go_def pop_return_def pc)
      qed (use lf_invD(9) [OF inv, of i] pc ci None in \<open>simp_all add: go_def pop_return_def return_ok_def\<close>)
    qed
  next
    case (Some a)
    then obtain m where m: "lf_heap s a = Some m" using private_allocated(1) [OF inv, of a i] pc by auto
    have r: "delete_own i old res s = Returns (pop_return i res (s\<lparr>lf_heap := (lf_heap s)(a := None)\<rparr>))"
      using Some m by (simp add: delete_own_def delete_node_def)
    show ?thesis unfolding r
      by (intro step_okI [OF delete_inv [OF inv i, where a = a and q = Outside and c = "[]"]])
        (use lf_invD(9) [OF inv, of i] pc ci Some in \<open>auto simp: go_def pop_return_def return_ok_def\<close>)
  qed
qed

lemma find_last_ok:
  assumes inv: "lf_inv n S P C pl s" and i: "i < n" and pc: "lf_pcs s i = Find_last old res ns l"
  shows "step_ok n s i (find_last i old res ns l s)"
proof -
  obtain a where c: "linked (lf_heap s) ns (C i) None" "distinct (opt_list old @ C i)" "a \<in> set (C i)" "l = Some a"
    using lf_invD(5) [OF inv, of i] pc by (auto simp: own_ok_def)
  obtain m where m: "lf_heap s a = Some m" using linked_member [OF c(1,3)] by blast
  define q where "q = (if node_next m \<noteq> None then Find_last old res ns (node_next m) else Link True old res ns l)"
  have r: "find_last i old res ns l s = Returns (go i q s)" using c m by (simp add: find_last_def q_def)
  have q: "in_flight (lf_heap s) q = [res]" "own_list q = opt_list old" "ref_of q = None"
    "\<not> in_pop q" "\<And>a r. q \<noteq> Pop_cas a r" "hidden q (C i) = set (opt_list old)"
    by (simp_all add: q_def)
  have ne: "C i \<noteq> []" using c(3) by auto
  have shape: "shape_ok (lf_heap s) q (C i)"
  proof (cases "node_next m")
    case None
    then show ?thesis using c ne linked_end [OF c(1,3) m None] by (auto simp: q_def)
  next
    case (Some b)
    then show ?thesis using c linked_next [OF c(1,3) m Some] by (auto simp: q_def)
  qed
  show ?thesis unfolding r
  proof (rule step_okI)
    show "lf_inv n S P (C(i := C i)) pl (go i q s)"
    proof (rule lf_inv_local [OF inv, where q = q])
      show "count_ok n (go i q s)"
        by (rule count_same [OF lf_invD(8) [OF inv] i, where q = q]) (simp_all add: go_def pc q)
      show "b \<notin> hidden q (C i)" if "ref_of (lf_pcs s j) = Some b" for j b
        using lf_invD(6) [OF inv, of j i] that pc q by (simp add: ref_ok_def)
    qed (use lf_invD(9) [OF inv, of i] pc c q shape in \<open>simp_all add: go_def return_ok_def\<close>)
  qed
qed

text \<open>Storing the pointer of the last node of a list that the thread is chaining.\<close>

lemma chain_store_ok:
  assumes inv: "lf_inv n S P C pl s" and i: "i < n"
    and pc: "lf_pcs s i = Link claimed old res f l \<or> lf_pcs s i = Publish claimed old res f l"
    and c: "C i \<noteq> []" "l = Some (last (C i))" "linked (lf_heap s) f (C i) r"
    and m: "lf_heap s (last (C i)) = Some m"
  shows "step_ok n s i (Returns (go i (Publish claimed old res f l) (store (the l) (m\<lparr>node_next := to_be_deleted s\<rparr>) s)))"
    (is "step_ok _ _ _ (Returns ?s)")
proof (rule step_okI)
  let ?q = "Publish claimed old res f l"
  have d: "distinct (own_list ?q @ C i)" using lf_invD(5) [OF inv, of i] pc by (auto simp: own_ok_def)
  have pa: "pl (last (C i)) = Some (Private i)" using private_allocated(2) [OF inv, of "last (C i)" i] c(1) by simp
  show "lf_inv n S P (C(i := C i)) pl ?s"
  proof (rule lf_inv_local [OF inv, where q = ?q])
    show "count_ok n ?s"
      by (rule count_same [OF lf_invD(8) [OF inv] i, where q = ?q]) (use pc in \<open>auto simp: go_def store_def\<close>)
    show "b \<notin> hidden ?q (C i)" if "ref_of (lf_pcs s j) = Some b" for j b
      using lf_invD(6) [OF inv, of j i] that pc by (auto simp: ref_ok_def)
    have "linked (lf_heap ?s) f (C i) (to_be_deleted s)"
      using linked_store_last [OF c(3,1), where n = m and r = "to_be_deleted s"] d c(2) by (simp add: go_def store_def)
    then show "shape_ok (lf_heap ?s) ?q (C i)" using c by auto
  qed (use lf_invD(9) [OF inv, of i] pc c d pa m in \<open>auto simp: go_def store_def return_ok_def\<close>)
qed

lemma chain_link_ok:
  assumes inv: "lf_inv n S P C pl s" and i: "i < n" and pc: "lf_pcs s i = Link claimed old res f l"
  shows "step_ok n s i (chain_link i claimed old res f l s)"
proof (cases "C i = []")
  case True
  then have "\<not> claimed \<and> old = None \<and> f = None \<and> l = None" using lf_invD(5) [OF inv, of i] pc by (simp add: own_ok_def)
  then show ?thesis using pc by (simp add: chain_link_def step_ok_def)
next
  case False
  then obtain r where c: "linked (lf_heap s) f (C i) r" "l = Some (last (C i))"
    using lf_invD(5) [OF inv, of i] pc by (auto simp: own_ok_def)
  obtain m where "lf_heap s (last (C i)) = Some m" using linked_last [OF c(1) False] by blast
  then show ?thesis
    using chain_store_ok [OF inv i _ False c(2,1)] pc c(2) by (simp add: chain_link_def)
qed

lemma chain_publish_ok:
  assumes inv: "lf_inv n S P C pl s" and i: "i < n" and pc: "lf_pcs s i = Publish claimed old res f l"
  shows "step_ok n s i (chain_publish i claimed old res f l spurious s)"
proof -
  obtain r where c: "linked (lf_heap s) f (C i) r" "l = Some (last (C i))" "C i \<noteq> []"
      and d: "distinct (own_list (lf_pcs s i) @ C i)"
    using lf_invD(5) [OF inv, of i] pc by (auto simp: own_ok_def)
  obtain m where m: "lf_heap s (last (C i)) = Some m" "node_next m = r" using linked_last [OF c(1,3)] by blast
  show ?thesis
  proof (cases "to_be_deleted s = node_next m \<and> \<not> spurious")
    case False
    then show ?thesis using chain_store_ok [OF inv i _ c(3,2,1) m(1)] pc c(2) m by (auto simp: chain_publish_def)
  next
    case True
    define q where "q = (if claimed then Delete_own old res else Leave res)"
    let ?s = "go i q (s\<lparr>to_be_deleted := f\<rparr>)"
    let ?pl = "\<lambda>a. if a \<in> set (C i) then Some Pending else pl a"
    have r: "chain_publish i claimed old res f l spurious s = Returns ?s"
      using True m c(2) by (simp add: chain_publish_def q_def)
    have q: "own_list q = own_list (lf_pcs s i)" "ref_of q = None" "in_pop q = in_pop (lf_pcs s i)"
      "\<And>a r. q \<noteq> Pop_cas a r" "in_flight H q = [res]" "shape_ok H q []" "hidden q [] = hidden (lf_pcs s i) (C i)" for H
      by (simp_all add: q_def pc)
    have mine: "a \<in> set (C i) \<Longrightarrow> pl a = Some (Private i)" for a
      using private_allocated(2) [OF inv, of a i] by simp
    have new: "set (C i) \<inter> set P = {}"
      using mine lf_invD(3) [OF inv] by (fastforce simp: place_ok_def)
    show ?thesis unfolding r
    proof (rule step_okI)
      show "lf_inv n S (C i @ P) (C(i := [])) ?pl ?s"
      proof (rule lf_inv_step [OF inv, where q = q])
        show "lists_ok S (C i @ P) ?s"
          using lf_invD(1) [OF inv] c m True new d by (auto simp: lists_ok_def go_def linked_append)
        show "values_ok S ?s" by (rule values_frame [OF lf_invD(2) [OF inv]]) (simp_all add: go_def)
        show "place_ok S (C i @ P) ?pl ?s a" for a
          using lf_invD(3) [OF inv, of a] mine [of a] by (auto simp: place_ok_def go_def)
        show "a \<in> set (own_list q @ []) \<longleftrightarrow> ?pl a = Some (Private i)" for a
          using lf_invD(4) [OF inv, of i a] d q(1) by (auto simp: mine_ok_def)
        show "?pl a = Some (Private k) \<longleftrightarrow> pl a = Some (Private k)" if "k \<noteq> i" for a k
          using that mine [of a] by auto
        show "count_ok n ?s"
          by (rule count_same [OF lf_invD(8) [OF inv] i, where q = q]) (simp_all add: go_def q)
        show "lf_heap ?s b \<noteq> None \<and> b \<notin> hidden q []" if "ref_of (lf_pcs s j) = Some b" for b j
          using lf_invD(6) [OF inv, of j i] that by (simp add: ref_ok_def go_def q)
      qed (use lf_invD(9) [OF inv, of i] pc d q in \<open>simp_all add: go_def return_ok_def\<close>)
    qed
  qed
qed

lemma reclaim_done_ok:
  assumes inv: "lf_inv n S P C pl s" and i: "i < n" and pc: "lf_pcs s i = Leave res"
  shows "step_ok n s i (Returns (reclaim_done i res s))"
proof (rule step_okI)
  have ci: "C i = []" using lf_invD(5) [OF inv, of i] pc by (simp add: own_ok_def)
  show "lf_inv n S P (C(i := [])) pl (reclaim_done i res s)"
  proof (rule lf_inv_local [OF inv, where q = Outside])
    show "count_ok n (reclaim_done i res s)"
      by (rule count_leave [OF lf_invD(8) [OF inv] i, where q = Outside])
        (simp_all add: go_def reclaim_done_def pop_return_def pc)
  qed (use lf_invD(9) [OF inv, of i] pc ci in \<open>simp_all add: go_def reclaim_done_def pop_return_def return_ok_def\<close>)
qed

lemma lf_advance_ok:
  assumes "lf_good n s" "i < n" "n < 2 ^ 32"
  shows "step_ok n s i (lf_advance i call spurious s)"
proof -
  obtain S P C pl where inv: "lf_inv n S P C pl s" using assms(1) by (auto simp: lf_good_def)
  note i = assms(2)
  show ?thesis
  proof (cases "lf_pcs s i")
    case Outside
    show ?thesis
    proof (cases call)
      case (Call_push v a)
      then show ?thesis
        using push_new_ok [OF inv i Outside, of a v] Outside by (simp add: lf_advance_def) (simp add: step_ok_def)
    next
      case Call_pop
      then show ?thesis using pop_enter_ok [OF inv i Outside] Outside by (simp add: lf_advance_def)
    qed
  next
    case Pop_start
    moreover have "C i = []" using lf_invD(5) [OF inv, of i] Pop_start by (simp add: own_ok_def)
    ultimately show ?thesis using pop_loaded_ok [OF inv i] by (simp add: lf_advance_def)
  qed (use push_load_ok [OF inv i] push_exchange_ok [OF inv i] pop_next_ok [OF inv i] pop_exchange_ok [OF inv i]
      pop_swap_ok [OF inv i] reclaim_test_ok [OF inv i assms(3)] reclaim_claim_ok [OF inv i]
      reclaim_leave_ok [OF inv i assms(3)] delete_nodes_ok [OF inv i] find_last_ok [OF inv i]
      chain_link_ok [OF inv i] chain_publish_ok [OF inv i] delete_own_ok [OF inv i] reclaim_done_ok [OF inv i]
      in \<open>simp_all add: lf_advance_def\<close>)
qed

lemma lf_good_reachable: "(lf_step n)\<^sup>*\<^sup>* lf_new s \<Longrightarrow> n < 2 ^ 32 \<Longrightarrow> lf_good n s"
proof (induction rule: rtranclp_induct)
  case base
  show ?case unfolding lf_good_def using lf_inv_new by blast
next
  case (step s s')
  from step.hyps(2) obtain i call spurious where "i < n" "lf_advance i call spurious s = Returns s'" by (rule lf_stepE)
  then show ?case using lf_advance_ok [of n s i call spurious] step by (simp add: step_ok_def)
qed

section \<open>Schedules\<close>

text \<open>A schedule: each entry is a thread, what it calls when it is outside, and whether its exchange fails spuriously.\<close>

fun lf_run :: "(nat \<times> 'a lf_call \<times> bool) list \<Rightarrow> 'a lf_stack \<Rightarrow> 'a lf_stack outcome" where
  "lf_run [] s = Returns s"
| "lf_run ((i, call, spurious) # sched) s = and_then (lf_advance i call spurious s) (lf_run sched)"

lemma lf_run_reachable:
  "lf_run sched s = Returns s' \<Longrightarrow> \<forall>e\<in>set sched. fst e < n \<Longrightarrow> (lf_step n)\<^sup>*\<^sup>* s s'"
proof (induction sched s rule: lf_run.induct)
  case (2 i call spurious sched s)
  then obtain s1 where s1: "lf_advance i call spurious s = Returns s1" "lf_run sched s1 = Returns s'"
    by (cases "lf_advance i call spurious s") auto
  then have "lf_step n s s1" "(lf_step n)\<^sup>*\<^sup>* s1 s'" using 2 by (auto intro: lf_step.lf_step)
  then show ?case by (rule converse_rtranclp_into_rtranclp)
qed simp

lemmas lf_step_defs = lf_advance_def push_new_def push_load_def push_exchange_def pop_enter_def pop_loaded_def
  pop_next_def pop_exchange_def pop_swap_def reclaim_test_def reclaim_claim_def reclaim_leave_def delete_nodes_def
  delete_own_def delete_node_def find_last_def chain_link_def chain_publish_def reclaim_done_def pop_return_def
  go_def store_def lf_new_def

definition push_alone :: "nat \<Rightarrow> 'a \<Rightarrow> nat \<Rightarrow> (nat \<times> 'a lf_call \<times> bool) list" where
  "push_alone i v a = replicate 3 (i, Call_push v a, False)"

definition pop_steps :: "nat \<Rightarrow> nat \<Rightarrow> (nat \<times> 'a lf_call \<times> bool) list" where
  "pop_steps k i = replicate k (i, Call_pop, False)"

section \<open>Properties\<close>

text \<open>
  C4. Under every interleaving of fewer than \<open>2 ^ 32\<close> threads: the only step of \<open>lock_free_stack\<close> that
  is not defined is chaining the null pointer that \<open>pop\<close> found on an empty stack; the nodes from
  \<open>_head\<close> hold what the pushes and pops so far, taken as single steps in the order of their
  exchanges, make of an empty stack; every call of \<open>pop\<close> returns what its step took; and when no
  thread is inside, every allocated node is on the stack or waits in \<open>_to_be_deleted\<close>.
\<close>

theorem lock_free_stack_safe:
  assumes "(lf_step n)\<^sup>*\<^sup>* lf_new s" "n < 2 ^ 32" "i < n"
  shows "(lf_advance i call spurious s = Undefined \<longrightarrow> (\<exists>res. lf_pcs s i = Link False None res None None))
    \<and> (\<exists>ns ps vs. linked (lf_heap s) (lf_head s) ns None \<and> linked (lf_heap s) (to_be_deleted s) ps None
        \<and> List.map (\<lambda>a. Option.bind (lf_heap s a) node_data) ns = List.map Some vs
        \<and> replay (events s) [] = Some vs
        \<and> ((\<forall>k. lf_pcs s k = Outside) \<longrightarrow> dom (lf_heap s) = set ns \<union> set ps))
    \<and> (\<exists>on_its_way. length on_its_way \<le> 1 \<and> pops_of i (events s) = results_of i (results s) @ on_its_way)"
proof (intro conjI)
  have good: "lf_good n s" by (rule lf_good_reachable [OF assms(1,2)])
  show "lf_advance i call spurious s = Undefined \<longrightarrow> (\<exists>res. lf_pcs s i = Link False None res None None)"
    using lf_advance_ok [OF good assms(3,2), of call spurious] by (auto simp: step_ok_def)
  obtain S P C pl where inv: "lf_inv n S P C pl s" using good by (auto simp: lf_good_def)
  obtain vs where vs: "List.map (\<lambda>a. Option.bind (lf_heap s a) node_data) S = List.map Some vs" "replay (events s) [] = Some vs"
    using lf_invD(2) [OF inv] by (auto simp: values_ok_def)
  have "dom (lf_heap s) = set S \<union> set P" if out: "\<forall>k. lf_pcs s k = Outside"
  proof -
    have "pl a \<noteq> Some (Private k)" for a k
      using lf_invD(4) [OF inv, of k a] lf_invD(5) [OF inv, of k] out by (simp add: mine_ok_def own_ok_def)
    then have "lf_heap s a \<noteq> None \<longleftrightarrow> a \<in> set S \<union> set P" for a
      using lf_invD(3) [OF inv, of a] by (cases "pl a"; cases "the (pl a)") (auto simp: place_ok_def)
    then show ?thesis by blast
  qed
  then show "\<exists>ns ps vs. linked (lf_heap s) (lf_head s) ns None \<and> linked (lf_heap s) (to_be_deleted s) ps None
        \<and> List.map (\<lambda>a. Option.bind (lf_heap s a) node_data) ns = List.map Some vs
        \<and> replay (events s) [] = Some vs
        \<and> ((\<forall>k. lf_pcs s k = Outside) \<longrightarrow> dom (lf_heap s) = set ns \<union> set ps)"
    using lf_invD(1) [OF inv] vs unfolding lists_ok_def by blast
  have "length (in_flight (lf_heap s) (lf_pcs s i)) \<le> 1" by (cases "lf_pcs s i") simp_all
  then show "\<exists>on_its_way. length on_its_way \<le> 1 \<and> pops_of i (events s) = results_of i (results s) @ on_its_way"
    using lf_invD(9) [OF inv, of i] unfolding return_ok_def by blast
qed

text \<open>
  C26. What can go wrong. A \<open>pop\<close> that finds the stack empty while another thread is inside \<open>pop\<close>
  chains its null pointer and follows it; and one thread may read \<open>next\<close> of a node while another,
  which has popped that node, is about to write it, although \<open>next\<close> is not atomic.
\<close>

theorem lock_free_stack_faults:
  "(\<exists>s. (lf_step 2)\<^sup>*\<^sup>* lf_new s \<and> lf_head s = None \<and> lf_advance 1 call spurious s = Undefined)
    \<and> (\<exists>s. (lf_step 2)\<^sup>*\<^sup>* lf_new s \<and> lf_pcs s 0 = Pop_next a \<and> lf_pcs s 1 = Link False (Some a) (Some v) (Some a) (Some a))"
proof
  obtain s where s: "lf_run ((0, Call_pop, False) # pop_steps 4 1) lf_new = Returns s" "lf_head s = None"
      "lf_advance 1 call spurious s = Undefined"
    by (simp add: pop_steps_def eval_nat_numeral lf_step_defs)
  have "(lf_step 2)\<^sup>*\<^sup>* lf_new s" by (rule lf_run_reachable [OF s(1)]) (simp add: pop_steps_def)
  then show "\<exists>s. (lf_step 2)\<^sup>*\<^sup>* lf_new s \<and> lf_head s = None \<and> lf_advance 1 call spurious s = Undefined" using s by blast
next
  obtain s where s: "lf_run (push_alone 0 v a @ pop_steps 2 0 @ pop_steps 6 1) lf_new = Returns s"
      "lf_pcs s 0 = Pop_next a" "lf_pcs s 1 = Link False (Some a) (Some v) (Some a) (Some a)"
    by (simp add: push_alone_def pop_steps_def eval_nat_numeral lf_step_defs)
  have "(lf_step 2)\<^sup>*\<^sup>* lf_new s" by (rule lf_run_reachable [OF s(1)]) (auto simp: push_alone_def pop_steps_def)
  then show "\<exists>s. (lf_step 2)\<^sup>*\<^sup>* lf_new s \<and> lf_pcs s 0 = Pop_next a \<and> lf_pcs s 1 = Link False (Some a) (Some v) (Some a) (Some a)"
    using s by blast
qed

theorem lock_free_stack_safe_witness:
  "\<exists>s :: nat lf_stack. (\<forall>k. lf_pcs s k = Outside) \<and> results s = [(1, Some 9)]
    \<and> (lf_advance 1 Call_pop False s = Undefined \<longrightarrow> (\<exists>res. lf_pcs s 1 = Link False None res None None))
    \<and> (\<exists>ns ps vs. linked (lf_heap s) (lf_head s) ns None \<and> linked (lf_heap s) (to_be_deleted s) ps None
        \<and> List.map (\<lambda>a. Option.bind (lf_heap s a) node_data) ns = List.map Some vs
        \<and> replay (events s) [] = Some vs
        \<and> ((\<forall>k. lf_pcs s k = Outside) \<longrightarrow> dom (lf_heap s) = set ns \<union> set ps))
    \<and> (\<exists>on_its_way. length on_its_way \<le> 1 \<and> pops_of 1 (events s) = results_of 1 (results s) @ on_its_way)"
proof -
  obtain s :: "nat lf_stack" where s: "lf_run (push_alone 0 7 3 @ push_alone 0 9 5 @ pop_steps 10 1) lf_new = Returns s"
      "\<forall>k. lf_pcs s k = Outside" "results s = [(1, Some 9)]"
    by (simp add: push_alone_def pop_steps_def eval_nat_numeral lf_step_defs)
  have r: "(lf_step 2)\<^sup>*\<^sup>* lf_new s" by (rule lf_run_reachable [OF s(1)]) (auto simp: push_alone_def pop_steps_def)
  show ?thesis
    by (rule exI [of _ s], rule conjI [OF s(2) conjI [OF s(3) lock_free_stack_safe [OF r]]]) simp_all
qed

end
