(* ===== verification/Hazard_Stack.thy ===== *)
theory Hazard_Stack
  imports Lock_Free_Stack
begin

text \<open>
  \<open>cpp-concurrency-in-action/7.lock_free/lock_free_stack_with_hp.hpp\<close> under any interleaving of any
  number of threads: the stack that announces the node a thread is about to follow in one of 100
  hazard pointers, and keeps unlinked nodes that are announced on a list to be reclaimed later. As in
  \<open>Lock_Free_Stack\<close>, a step is one access to an atomic variable, or one access to a node that
  other threads may reach, with the accesses to private memory around it; \<open>_head\<close> is taken as null
  at the start.
\<close>

section \<open>State\<close>

text \<open>
  Where a thread is. \<open>Find_slot\<close> is the constructor of \<open>hp_owner\<close>, \<open>Release_id\<close> the second half of its
  destructor; \<open>Hp_store\<close> and \<open>Hp_check\<close> are the inner loop of \<open>pop\<close>; \<open>Scan_own\<close> and \<open>Scan_entry\<close> are
  \<open>outstanding_hazard_pointers_for\<close> called from \<open>pop\<close> and from \<open>delete_nodes_with_no_hazards\<close>, whose
  loop is \<open>Sweep\<close>. The second argument of \<open>Add_cas\<close> tells where \<open>add_to_reclaim_list\<close> returns to: to
  \<open>pop\<close>, or to the loop with the next entry.
\<close>

datatype 'a hp_pc =
    Outside
  | Push_start 'a nat
  | Push_cas 'a nat
  | Find_slot nat
  | Pop_load
  | Hp_store "nat option"
  | Hp_check "nat option"
  | Pop_next nat
  | Pop_cas nat "nat option"
  | Hp_clear "nat option"
  | Pop_swap "nat option"
  | Scan_own nat "'a option" nat
  | Retire nat "'a option"
  | Add_cas nat "nat option option" "'a option"
  | Take "'a option"
  | Sweep "nat option" "'a option"
  | Scan_entry nat "nat option" "'a option" nat
  | Add_load nat "nat option" "'a option"
  | Release_id nat

text \<open>
  The stack, the array \<open>hazard_pointers\<close>, the list \<open>nodes_to_reclaim\<close> of \<open>data_to_reclaim\<close> objects
  (each with the address of its node as data), the slot each thread's \<open>hp_owner\<close> holds, the threads;
  and, for the statements, the events on the stack, the results and the exceptions.
\<close>

record 'a hp_stack =
  hs_heap :: "'a heap"
  hs_head :: "nat option"
  slot_id :: "nat \<Rightarrow> nat option"
  slot_pointer :: "nat \<Rightarrow> nat option"
  entries :: "nat heap"
  nodes_to_reclaim :: "nat option"
  my_slot :: "nat \<Rightarrow> nat option"
  hs_pcs :: "nat \<Rightarrow> 'a hp_pc"
  hs_events :: "(nat \<times> 'a stack_event) list"
  hs_results :: "(nat \<times> 'a option) list"
  hs_throws :: "nat list"

definition max_hazard_pointers :: nat where
  "max_hazard_pointers = 100"

definition hs_new :: "'a hp_stack" where
  "hs_new = \<lparr>hs_heap = Map.empty, hs_head = None, slot_id = (\<lambda>_. None), slot_pointer = (\<lambda>_. None),
     entries = Map.empty, nodes_to_reclaim = None, my_slot = (\<lambda>_. None), hs_pcs = (\<lambda>_. Outside),
     hs_events = [], hs_results = [], hs_throws = []\<rparr>"

definition hgo :: "nat \<Rightarrow> 'a hp_pc \<Rightarrow> 'a hp_stack \<Rightarrow> 'a hp_stack" where
  "hgo i pc s = s\<lparr>hs_pcs := (hs_pcs s)(i := pc)\<rparr>"

definition hstore :: "nat \<Rightarrow> 'a node \<Rightarrow> 'a hp_stack \<Rightarrow> 'a hp_stack" where
  "hstore a n s = s\<lparr>hs_heap := (hs_heap s)(a \<mapsto> n)\<rparr>"

definition estore :: "nat \<Rightarrow> nat node \<Rightarrow> 'a hp_stack \<Rightarrow> 'a hp_stack" where
  "estore e n s = s\<lparr>entries := (entries s)(e \<mapsto> n)\<rparr>"

section \<open>\<open>hp_owner\<close>\<close>

text \<open>One round of the loop of the constructor; without a free slot it throws.\<close>

definition hp_owner_try :: "nat \<Rightarrow> nat \<Rightarrow> 'a hp_stack \<Rightarrow> 'a hp_stack" where
  "hp_owner_try i k s =
     (if k \<ge> max_hazard_pointers then hgo i Outside (s\<lparr>hs_throws := hs_throws s @ [i]\<rparr>)
      else if slot_id s k = None
      then hgo i Pop_load (s\<lparr>slot_id := (slot_id s)(k \<mapsto> i), my_slot := (my_slot s)(i \<mapsto> k)\<rparr>)
      else hgo i (Find_slot (Suc k)) s)"

text \<open>The destructor, when the thread ends.\<close>

definition hp_owner_clear :: "nat \<Rightarrow> 'a hp_stack \<Rightarrow> 'a hp_stack" where
  "hp_owner_clear i s =
     (case my_slot s i of
        None \<Rightarrow> s
      | Some k \<Rightarrow> hgo i (Release_id k) (s\<lparr>slot_pointer := (slot_pointer s)(k := None)\<rparr>))"

definition hp_owner_release :: "nat \<Rightarrow> nat \<Rightarrow> 'a hp_stack \<Rightarrow> 'a hp_stack" where
  "hp_owner_release i k s =
     hgo i Outside (s\<lparr>slot_id := (slot_id s)(k := None), my_slot := (my_slot s)(i := None)\<rparr>)"

text \<open>\<open>get_hazard_pointer_for_current_thread\<close>: the slot is acquired at the first call in a thread.\<close>

definition get_hazard_pointer :: "nat \<Rightarrow> 'a hp_stack \<Rightarrow> 'a hp_stack" where
  "get_hazard_pointer i s = (if my_slot s i = None then hgo i (Find_slot 0) s else hgo i Pop_load s)"

text \<open>\<open>hp.store\<close>.\<close>

definition set_hazard :: "nat \<Rightarrow> nat option \<Rightarrow> 'a hp_stack \<Rightarrow> 'a hp_stack outcome" where
  "set_hazard i p s =
     (case my_slot s i of
        None \<Rightarrow> Undefined
      | Some k \<Rightarrow> Returns (s\<lparr>slot_pointer := (slot_pointer s)(k := p)\<rparr>))"

section \<open>\<open>push\<close>\<close>

definition hs_push_new :: "nat \<Rightarrow> 'a \<Rightarrow> nat \<Rightarrow> 'a hp_stack \<Rightarrow> 'a hp_stack" where
  "hs_push_new i v a s = hgo i (Push_start v a) (hstore a \<lparr>node_data = Some v, node_next = None\<rparr> s)"

definition hs_push_load :: "nat \<Rightarrow> 'a \<Rightarrow> nat \<Rightarrow> 'a hp_stack \<Rightarrow> 'a hp_stack outcome" where
  "hs_push_load i v a s =
     and_then (deref (hs_heap s) (Some a)) (\<lambda>n.
       Returns (hgo i (Push_cas v a) (hstore a (n\<lparr>node_next := hs_head s\<rparr>) s)))"

definition hs_push_exchange :: "nat \<Rightarrow> 'a \<Rightarrow> nat \<Rightarrow> bool \<Rightarrow> 'a hp_stack \<Rightarrow> 'a hp_stack outcome" where
  "hs_push_exchange i v a spurious s =
     and_then (deref (hs_heap s) (Some a)) (\<lambda>n.
       Returns
         (if hs_head s = node_next n \<and> \<not> spurious
          then hgo i Outside (s\<lparr>hs_head := Some a, hs_events := hs_events s @ [(i, Pushed v)]\<rparr>)
          else hgo i (Push_cas v a) (hstore a (n\<lparr>node_next := hs_head s\<rparr>) s)))"

section \<open>\<open>pop\<close>\<close>

definition hs_pop_load :: "nat \<Rightarrow> 'a hp_stack \<Rightarrow> 'a hp_stack" where
  "hs_pop_load i s = hgo i (Hp_store (hs_head s)) s"

definition hs_set_hp :: "nat \<Rightarrow> nat option \<Rightarrow> 'a hp_stack \<Rightarrow> 'a hp_stack outcome" where
  "hs_set_hp i old s = and_then (set_hazard i old s) (\<lambda>s. Returns (hgo i (Hp_check old) s))"

text \<open>\<open>old_head = _head.load()\<close> again; the inner loop ends when it has not changed, and the outer loop
  ends when it is null.\<close>

definition hs_check :: "nat \<Rightarrow> nat option \<Rightarrow> 'a hp_stack \<Rightarrow> 'a hp_stack" where
  "hs_check i temp s =
     (if hs_head s \<noteq> temp then hgo i (Hp_store (hs_head s)) s
      else (case temp of
          None \<Rightarrow> hgo i (Hp_clear None) (s\<lparr>hs_events := hs_events s @ [(i, Popped None)]\<rparr>)
        | Some a \<Rightarrow> hgo i (Pop_next a) s))"

definition hs_next :: "nat \<Rightarrow> nat \<Rightarrow> 'a hp_stack \<Rightarrow> 'a hp_stack outcome" where
  "hs_next i old s = and_then (deref (hs_heap s) (Some old)) (\<lambda>n. Returns (hgo i (Pop_cas old (node_next n)) s))"

definition hs_exchange :: "nat \<Rightarrow> nat \<Rightarrow> nat option \<Rightarrow> 'a hp_stack \<Rightarrow> 'a hp_stack" where
  "hs_exchange i old nxt s =
     (if hs_head s = Some old
      then hgo i (Hp_clear (Some old))
        (s\<lparr>hs_head := nxt, hs_events := hs_events s @ [(i, Popped (Option.bind (hs_heap s old) node_data))]\<rparr>)
      else hgo i (Hp_store (hs_head s)) s)"

definition hs_clear :: "nat \<Rightarrow> nat option \<Rightarrow> 'a hp_stack \<Rightarrow> 'a hp_stack outcome" where
  "hs_clear i old s = and_then (set_hazard i None s) (\<lambda>s. Returns (hgo i (Pop_swap old) s))"

definition hs_return :: "nat \<Rightarrow> 'a option \<Rightarrow> 'a hp_stack \<Rightarrow> 'a hp_stack" where
  "hs_return i res s = hgo i Outside (s\<lparr>hs_results := hs_results s @ [(i, res)]\<rparr>)"

definition hs_swap :: "nat \<Rightarrow> nat option \<Rightarrow> 'a hp_stack \<Rightarrow> 'a hp_stack outcome" where
  "hs_swap i old s =
     (case old of
        None \<Rightarrow> Returns (hs_return i None s)
      | Some a \<Rightarrow> and_then (deref (hs_heap s) old) (\<lambda>n.
          Returns (hgo i (Scan_own a (node_data n) 0) (hstore a (n\<lparr>node_data := None\<rparr>) s))))"

definition hs_delete :: "nat \<Rightarrow> 'a hp_stack \<Rightarrow> 'a hp_stack outcome" where
  "hs_delete a s = and_then (deref (hs_heap s) (Some a)) (\<lambda>_. Returns (s\<lparr>hs_heap := (hs_heap s)(a := None)\<rparr>))"

text \<open>One round of the loop of \<open>outstanding_hazard_pointers_for(p)\<close>: its result, or no result yet.\<close>

definition outstanding_round :: "nat \<Rightarrow> nat option \<Rightarrow> 'a hp_stack \<Rightarrow> bool option" where
  "outstanding_round k p s =
     (if k < max_hazard_pointers then (if slot_pointer s k = p then Some True else None) else Some False)"

text \<open>The call for \<open>old_head\<close>, and what \<open>pop\<close> does with its result.\<close>

definition hs_scan_own :: "nat \<Rightarrow> nat \<Rightarrow> 'a option \<Rightarrow> nat \<Rightarrow> 'a hp_stack \<Rightarrow> 'a hp_stack outcome" where
  "hs_scan_own i a res k s =
     (case outstanding_round k (Some a) s of
        None \<Rightarrow> Returns (hgo i (Scan_own a res (Suc k)) s)
      | Some outstanding \<Rightarrow>
          if outstanding then Returns (hgo i (Retire a res) s)
          else and_then (hs_delete a s) (\<lambda>s. Returns (hgo i (Take res) s)))"

section \<open>Reclaiming\<close>

text \<open>\<open>reclaim_later\<close>: \<open>new data_to_reclaim\<close> at any free address \<open>e\<close>, and the load in \<open>add_to_reclaim_list\<close>.\<close>

definition reclaim_later :: "nat \<Rightarrow> nat \<Rightarrow> 'a option \<Rightarrow> nat \<Rightarrow> 'a hp_stack \<Rightarrow> 'a hp_stack" where
  "reclaim_later i a res e s =
     hgo i (Add_cas e None res) (estore e \<lparr>node_data = Some a, node_next = nodes_to_reclaim s\<rparr> s)"

definition add_load :: "nat \<Rightarrow> nat \<Rightarrow> nat option \<Rightarrow> 'a option \<Rightarrow> 'a hp_stack \<Rightarrow> 'a hp_stack outcome" where
  "add_load i e nxt res s =
     and_then (deref (entries s) (Some e)) (\<lambda>n.
       Returns (hgo i (Add_cas e (Some nxt) res) (estore e (n\<lparr>node_next := nodes_to_reclaim s\<rparr>) s)))"

definition add_exchange :: "nat \<Rightarrow> nat \<Rightarrow> nat option option \<Rightarrow> 'a option \<Rightarrow> 'a hp_stack \<Rightarrow> 'a hp_stack outcome" where
  "add_exchange i e cont res s =
     and_then (deref (entries s) (Some e)) (\<lambda>n.
       Returns
         (if nodes_to_reclaim s = node_next n
          then hgo i (case cont of None \<Rightarrow> Take res | Some nxt \<Rightarrow> Sweep nxt res) (s\<lparr>nodes_to_reclaim := Some e\<rparr>)
          else hgo i (Add_cas e cont res) (estore e (n\<lparr>node_next := nodes_to_reclaim s\<rparr>) s)))"

text \<open>\<open>delete_nodes_with_no_hazards\<close>: the exchange, the head of the loop, one round of the scan.\<close>

definition sweep_take :: "nat \<Rightarrow> 'a option \<Rightarrow> 'a hp_stack \<Rightarrow> 'a hp_stack" where
  "sweep_take i res s = hgo i (Sweep (nodes_to_reclaim s) res) (s\<lparr>nodes_to_reclaim := None\<rparr>)"

definition sweep_next :: "nat \<Rightarrow> nat option \<Rightarrow> 'a option \<Rightarrow> 'a hp_stack \<Rightarrow> 'a hp_stack outcome" where
  "sweep_next i current res s =
     (case current of
        None \<Rightarrow> Returns (hs_return i res s)
      | Some e \<Rightarrow> and_then (deref (entries s) current) (\<lambda>n. Returns (hgo i (Scan_entry e (node_next n) res 0) s)))"

text \<open>\<open>delete current\<close> calls the deleter of the entry, which deletes the node.\<close>

definition delete_entry :: "nat \<Rightarrow> 'a hp_stack \<Rightarrow> 'a hp_stack outcome" where
  "delete_entry e s =
     and_then (deref (entries s) (Some e)) (\<lambda>n.
       (case node_data n of
          None \<Rightarrow> Undefined
        | Some a \<Rightarrow> and_then (hs_delete a s) (\<lambda>s. Returns (s\<lparr>entries := (entries s)(e := None)\<rparr>))))"

definition scan_entry :: "nat \<Rightarrow> nat \<Rightarrow> nat option \<Rightarrow> 'a option \<Rightarrow> nat \<Rightarrow> 'a hp_stack \<Rightarrow> 'a hp_stack outcome" where
  "scan_entry i e nxt res k s =
     and_then (deref (entries s) (Some e)) (\<lambda>n.
       case outstanding_round k (node_data n) s of
         None \<Rightarrow> Returns (hgo i (Scan_entry e nxt res (Suc k)) s)
       | Some outstanding \<Rightarrow>
           if outstanding then Returns (hgo i (Add_load e nxt res) s)
           else and_then (delete_entry e s) (\<lambda>s. Returns (hgo i (Sweep nxt res) s)))"

section \<open>Threads\<close>

datatype 'a hp_call = Hp_push 'a | Hp_pop | Hp_exit

text \<open>\<open>fresh\<close> is the address that \<open>new\<close> returns, if the step allocates.\<close>

definition hp_advance :: "nat \<Rightarrow> 'a hp_call \<Rightarrow> nat \<Rightarrow> bool \<Rightarrow> 'a hp_stack \<Rightarrow> 'a hp_stack outcome" where
  "hp_advance i call fresh spurious s =
     (case hs_pcs s i of
        Outside \<Rightarrow> (case call of
            Hp_push v \<Rightarrow> if hs_heap s fresh = None then Returns (hs_push_new i v fresh s) else Blocks
          | Hp_pop \<Rightarrow> Returns (get_hazard_pointer i s)
          | Hp_exit \<Rightarrow> Returns (hp_owner_clear i s))
      | Push_start v a \<Rightarrow> hs_push_load i v a s
      | Push_cas v a \<Rightarrow> hs_push_exchange i v a spurious s
      | Find_slot k \<Rightarrow> Returns (hp_owner_try i k s)
      | Pop_load \<Rightarrow> Returns (hs_pop_load i s)
      | Hp_store old \<Rightarrow> hs_set_hp i old s
      | Hp_check temp \<Rightarrow> Returns (hs_check i temp s)
      | Pop_next old \<Rightarrow> hs_next i old s
      | Pop_cas old nxt \<Rightarrow> Returns (hs_exchange i old nxt s)
      | Hp_clear old \<Rightarrow> hs_clear i old s
      | Pop_swap old \<Rightarrow> hs_swap i old s
      | Scan_own a res k \<Rightarrow> hs_scan_own i a res k s
      | Retire a res \<Rightarrow> if entries s fresh = None then Returns (reclaim_later i a res fresh s) else Blocks
      | Add_cas e cont res \<Rightarrow> add_exchange i e cont res s
      | Take res \<Rightarrow> Returns (sweep_take i res s)
      | Sweep current res \<Rightarrow> sweep_next i current res s
      | Scan_entry e nxt res k \<Rightarrow> scan_entry i e nxt res k s
      | Add_load e nxt res \<Rightarrow> add_load i e nxt res s
      | Release_id k \<Rightarrow> Returns (hp_owner_release i k s))"

inductive hp_step :: "'a hp_stack \<Rightarrow> 'a hp_stack \<Rightarrow> bool" where
  hp_step: "hp_advance i call fresh spurious s = Returns s' \<Longrightarrow> hp_step s s'"

inductive_cases hp_stepE: "hp_step s s'"

end
