(* ===== verification/Hazard_Invariant.thy ===== *)
theory Hazard_Invariant
  imports Hazard_Stack Lock_Free_Invariant
begin

text \<open>
  The invariant of the stack with hazard pointers: where every node and every entry of the reclaim
  lists is, that a node a thread may follow is announced in the thread's slot, and that a thread
  looking for announcements of a node has passed no slot that announces it.
\<close>

section \<open>Parts of the invariant\<close>

datatype hp_place = On_stack | Mine nat | Held nat

fun hp_own :: "'a hp_pc \<Rightarrow> nat list" where
  "hp_own (Push_start v a) = [a]"
| "hp_own (Push_cas v a) = [a]"
| "hp_own (Hp_clear p) = opt_list p"
| "hp_own (Pop_swap p) = opt_list p"
| "hp_own (Scan_own a res k) = [a]"
| "hp_own (Retire a res) = [a]"
| "hp_own _ = []"

text \<open>The position of a thread, its nodes, and the entries \<open>c\<close> it has taken from the list or made.\<close>

fun hp_shape :: "'a heap \<Rightarrow> nat heap \<Rightarrow> 'a hp_pc \<Rightarrow> nat list \<Rightarrow> bool" where
  "hp_shape H E (Push_start v a) c \<longleftrightarrow> c = [] \<and> Option.bind (H a) node_data = Some v"
| "hp_shape H E (Push_cas v a) c \<longleftrightarrow> c = [] \<and> Option.bind (H a) node_data = Some v"
| "hp_shape H E (Hp_clear p) c \<longleftrightarrow> c = [] \<and> (\<forall>a. p = Some a \<longrightarrow> Option.bind (H a) node_data \<noteq> None)"
| "hp_shape H E (Pop_swap p) c \<longleftrightarrow> c = [] \<and> (\<forall>a. p = Some a \<longrightarrow> Option.bind (H a) node_data \<noteq> None)"
| "hp_shape H E (Add_cas e cont res) c \<longleftrightarrow>
     (\<exists>c'. c = e # c' \<and> (case cont of None \<Rightarrow> c' = [] | Some nxt \<Rightarrow> linked E nxt c' None))"
| "hp_shape H E (Sweep p res) c \<longleftrightarrow> linked E p c None"
| "hp_shape H E (Scan_entry e nxt res k) c \<longleftrightarrow> (\<exists>c'. c = e # c' \<and> linked E nxt c' None)"
| "hp_shape H E (Add_load e nxt res) c \<longleftrightarrow> (\<exists>c'. c = e # c' \<and> linked E nxt c' None)"
| "hp_shape H E pc c \<longleftrightarrow> c = []"

fun hp_ref :: "'a hp_pc \<Rightarrow> nat option" where
  "hp_ref (Pop_next a) = Some a"
| "hp_ref (Pop_cas a q) = Some a"
| "hp_ref _ = None"

text \<open>The slot of a thread, and what it holds, at its position.\<close>

fun slot_ok :: "nat option \<Rightarrow> (nat \<Rightarrow> nat option) \<Rightarrow> 'a hp_pc \<Rightarrow> bool" where
  "slot_ok sl ptr Pop_load \<longleftrightarrow> sl \<noteq> None"
| "slot_ok sl ptr (Hp_store p) \<longleftrightarrow> sl \<noteq> None"
| "slot_ok sl ptr (Hp_check p) \<longleftrightarrow> (\<exists>k. sl = Some k \<and> ptr k = p)"
| "slot_ok sl ptr (Pop_next a) \<longleftrightarrow> (\<exists>k. sl = Some k \<and> ptr k = Some a)"
| "slot_ok sl ptr (Pop_cas a q) \<longleftrightarrow> (\<exists>k. sl = Some k \<and> ptr k = Some a)"
| "slot_ok sl ptr (Hp_clear p) \<longleftrightarrow> sl \<noteq> None"
| "slot_ok sl ptr (Find_slot k) \<longleftrightarrow> sl = None"
| "slot_ok sl ptr (Release_id k) \<longleftrightarrow> sl = Some k"
| "slot_ok sl ptr _ \<longleftrightarrow> True"

text \<open>No slot below this one may announce the node \<open>a\<close> for a thread that follows it.\<close>

fun guard :: "nat heap \<Rightarrow> 'a hp_pc \<Rightarrow> nat \<Rightarrow> nat" where
  "guard E (Push_start v b) a = (if a = b then max_hazard_pointers else 0)"
| "guard E (Push_cas v b) a = (if a = b then max_hazard_pointers else 0)"
| "guard E (Scan_own b res k) a = (if a = b then k else 0)"
| "guard E (Scan_entry e nxt res k) a = (if Option.bind (E e) node_data = Some a then k else 0)"
| "guard E _ a = 0"

fun hp_in_flight :: "'a heap \<Rightarrow> 'a hp_pc \<Rightarrow> 'a option list" where
  "hp_in_flight H (Hp_clear p) = [Option.bind p (\<lambda>a. Option.bind (H a) node_data)]"
| "hp_in_flight H (Pop_swap p) = [Option.bind p (\<lambda>a. Option.bind (H a) node_data)]"
| "hp_in_flight H (Scan_own a res k) = [res]"
| "hp_in_flight H (Retire a res) = [res]"
| "hp_in_flight H (Add_cas e cont res) = [res]"
| "hp_in_flight H (Take res) = [res]"
| "hp_in_flight H (Sweep p res) = [res]"
| "hp_in_flight H (Scan_entry e nxt res k) = [res]"
| "hp_in_flight H (Add_load e nxt res) = [res]"
| "hp_in_flight H _ = []"

definition hs_lists :: "nat list \<Rightarrow> nat list \<Rightarrow> 'a hp_stack \<Rightarrow> bool" where
  "hs_lists S R s \<longleftrightarrow> linked (hs_heap s) (hs_head s) S None \<and> linked (entries s) (nodes_to_reclaim s) R None
     \<and> distinct S \<and> distinct R"

definition hs_values :: "nat list \<Rightarrow> 'a hp_stack \<Rightarrow> bool" where
  "hs_values S s \<longleftrightarrow> (\<exists>vs. List.map (\<lambda>a. Option.bind (hs_heap s a) node_data) S = List.map Some vs
     \<and> replay (hs_events s) [] = Some vs)"

definition node_place_ok :: "nat list \<Rightarrow> (nat \<Rightarrow> hp_place option) \<Rightarrow> 'a hp_stack \<Rightarrow> nat \<Rightarrow> bool" where
  "node_place_ok S pl s a \<longleftrightarrow> (a \<in> set S \<longleftrightarrow> pl a = Some On_stack) \<and> (hs_heap s a = None \<longleftrightarrow> pl a = None)"

definition node_mine_ok :: "(nat \<Rightarrow> hp_place option) \<Rightarrow> 'a hp_stack \<Rightarrow> nat \<Rightarrow> nat \<Rightarrow> bool" where
  "node_mine_ok pl s k a \<longleftrightarrow> (a \<in> set (hp_own (hs_pcs s k)) \<longleftrightarrow> pl a = Some (Mine k))"

definition held_ok :: "(nat \<Rightarrow> hp_place option) \<Rightarrow> 'a hp_stack \<Rightarrow> nat \<Rightarrow> nat \<Rightarrow> bool" where
  "held_ok pl s e a \<longleftrightarrow> (Option.bind (entries s e) node_data = Some a \<longleftrightarrow> pl a = Some (Held e))
     \<and> (entries s e \<noteq> None \<longrightarrow> Option.bind (entries s e) node_data \<noteq> None)"

definition entry_place_ok :: "nat list \<Rightarrow> (nat \<Rightarrow> place option) \<Rightarrow> 'a hp_stack \<Rightarrow> nat \<Rightarrow> bool" where
  "entry_place_ok R ep s e \<longleftrightarrow> (e \<in> set R \<longleftrightarrow> ep e = Some Pending) \<and> (entries s e = None \<longleftrightarrow> ep e = None) \<and> ep e \<noteq> Some Stacked"

definition entry_mine_ok :: "(nat \<Rightarrow> nat list) \<Rightarrow> (nat \<Rightarrow> place option) \<Rightarrow> nat \<Rightarrow> nat \<Rightarrow> bool" where
  "entry_mine_ok C ep k e \<longleftrightarrow> (e \<in> set (C k) \<longleftrightarrow> ep e = Some (Private k))"

definition hs_own_ok :: "(nat \<Rightarrow> nat list) \<Rightarrow> 'a hp_stack \<Rightarrow> nat \<Rightarrow> bool" where
  "hs_own_ok C s k \<longleftrightarrow> hp_shape (hs_heap s) (entries s) (hs_pcs s k) (C k) \<and> distinct (C k)"

definition hs_slot_ok :: "'a hp_stack \<Rightarrow> nat \<Rightarrow> bool" where
  "hs_slot_ok s i \<longleftrightarrow> slot_ok (my_slot s i) (slot_pointer s) (hs_pcs s i)
     \<and> (\<forall>k. my_slot s i = Some k \<longrightarrow> k < max_hazard_pointers \<and> slot_id s k = Some i)"

definition hs_ref_ok :: "'a hp_stack \<Rightarrow> nat \<Rightarrow> nat \<Rightarrow> bool" where
  "hs_ref_ok s j i \<longleftrightarrow> (\<forall>a. hp_ref (hs_pcs s j) = Some a \<longrightarrow>
     hs_heap s a \<noteq> None \<and> guard (entries s) (hs_pcs s i) a \<le> the (my_slot s j))"

definition hs_next_ok :: "nat list \<Rightarrow> 'a hp_stack \<Rightarrow> nat \<Rightarrow> bool" where
  "hs_next_ok S s j \<longleftrightarrow> (\<forall>a q. hs_pcs s j = Pop_cas a q \<longrightarrow> a \<in> set S \<longrightarrow> (\<exists>n. hs_heap s a = Some n \<and> node_next n = q))"

definition hs_return_ok :: "'a hp_stack \<Rightarrow> nat \<Rightarrow> bool" where
  "hs_return_ok s i \<longleftrightarrow> pops_of i (hs_events s) = results_of i (hs_results s) @ hp_in_flight (hs_heap s) (hs_pcs s i)"

definition hp_inv :: "nat list \<Rightarrow> nat list \<Rightarrow> (nat \<Rightarrow> nat list) \<Rightarrow> (nat \<Rightarrow> hp_place option) \<Rightarrow> (nat \<Rightarrow> place option)
    \<Rightarrow> 'a hp_stack \<Rightarrow> bool" where
  "hp_inv S R C pl ep s \<longleftrightarrow> hs_lists S R s \<and> hs_values S s \<and> (\<forall>a. node_place_ok S pl s a)
     \<and> (\<forall>k a. node_mine_ok pl s k a) \<and> (\<forall>e a. held_ok pl s e a) \<and> (\<forall>e. entry_place_ok R ep s e)
     \<and> (\<forall>k e. entry_mine_ok C ep k e) \<and> (\<forall>k. hs_own_ok C s k) \<and> (\<forall>i. hs_slot_ok s i)
     \<and> (\<forall>j i. hs_ref_ok s j i) \<and> (\<forall>j. hs_next_ok S s j) \<and> (\<forall>i. hs_return_ok s i)"

lemma hp_invD:
  assumes "hp_inv S R C pl ep s"
  shows "hs_lists S R s" "hs_values S s" "node_place_ok S pl s a" "node_mine_ok pl s k a" "held_ok pl s e a"
    "entry_place_ok R ep s e" "entry_mine_ok C ep k e" "hs_own_ok C s k" "hs_slot_ok s i" "hs_ref_ok s j i"
    "hs_next_ok S s j" "hs_return_ok s i"
  using assms by (simp_all add: hp_inv_def)

lemma hp_inv_new: "hp_inv [] [] (\<lambda>_. []) (\<lambda>_. None) (\<lambda>_. None) hs_new"
  by (simp add: hp_inv_def hs_lists_def hs_values_def node_place_ok_def node_mine_ok_def held_ok_def entry_place_ok_def
      entry_mine_ok_def hs_own_ok_def hs_slot_ok_def hs_ref_ok_def hs_next_ok_def hs_return_ok_def hs_new_def)

section \<open>Steps of one thread\<close>

text \<open>What a thread says of its own nodes and entries does not depend on others.\<close>

lemma hp_shape_cong:
  assumes "\<And>a. a \<in> set (hp_own pc) \<Longrightarrow> H' a = H a" "\<And>e. e \<in> set c \<Longrightarrow> E' e = E e"
  shows "hp_shape H' E' pc c = hp_shape H E pc c" and "hp_in_flight H' pc = hp_in_flight H pc"
proof -
  have l: "linked E' p c' q = linked E p c' q" if "set c' \<subseteq> set c" for p q c'
    using assms(2) that by (intro linked_cong) auto
  have lt: "linked E' p c' q = linked E p c' q" if "c = e # c'" for e p q c'
    using that by (intro l) auto
  show "hp_shape H' E' pc c = hp_shape H E pc c"
  proof (cases pc)
    case (Add_cas e cont res)
    then show ?thesis using lt by (cases cont) auto
  next
    case (Scan_entry e nxt res k)
    then show ?thesis using lt by auto
  next
    case (Add_load e nxt res)
    then show ?thesis using lt by auto
  qed (use assms l in auto)
  show "hp_in_flight H' pc = hp_in_flight H pc"
  proof (cases pc)
    case (Hp_clear p)
    then show ?thesis using assms by (cases p) auto
  next
    case (Pop_swap p)
    then show ?thesis using assms by (cases p) auto
  qed simp_all
qed

lemma guard_cong:
  assumes "hp_shape H E pc c" "\<And>e. e \<in> set c \<Longrightarrow> E' e = E e"
  shows "guard E' pc a = guard E pc a"
  using assms by (cases pc) auto

lemma hp_inv_step:
  assumes inv: "hp_inv S R C pl ep s"
    and pcs: "hs_pcs s' = (hs_pcs s)(i := q)"
    and lists: "hs_lists S' R' s'" and vals: "hs_values S' s'" and place: "\<And>a. node_place_ok S' pl' s' a"
    and mine: "\<And>a. a \<in> set (hp_own q) \<longleftrightarrow> pl' a = Some (Mine i)"
    and others: "\<And>a k. k \<noteq> i \<Longrightarrow> pl' a = Some (Mine k) \<longleftrightarrow> pl a = Some (Mine k)"
    and heap: "\<And>a k. k \<noteq> i \<Longrightarrow> pl a = Some (Mine k) \<Longrightarrow> hs_heap s' a = hs_heap s a"
    and held: "\<And>e a. held_ok pl' s' e a" and eplace: "\<And>e. entry_place_ok R' ep' s' e"
    and emine: "\<And>e. e \<in> set c \<longleftrightarrow> ep' e = Some (Private i)"
    and eothers: "\<And>e k. k \<noteq> i \<Longrightarrow> ep' e = Some (Private k) \<longleftrightarrow> ep e = Some (Private k)"
    and eheap: "\<And>e k. k \<noteq> i \<Longrightarrow> ep e = Some (Private k) \<Longrightarrow> entries s' e = entries s e"
    and own: "hp_shape (hs_heap s') (entries s') q c" "distinct c"
    and slot: "hs_slot_ok s' i"
    and slots: "\<And>j. j \<noteq> i \<Longrightarrow> my_slot s' j = my_slot s j"
      "\<And>j k. j \<noteq> i \<Longrightarrow> my_slot s j = Some k \<Longrightarrow> slot_pointer s' k = slot_pointer s k \<and> slot_id s' k = slot_id s k"
    and refs: "\<And>j a. j \<noteq> i \<Longrightarrow> hp_ref (hs_pcs s j) = Some a \<Longrightarrow>
      hs_heap s' a \<noteq> None \<and> guard (entries s') q a \<le> the (my_slot s j)"
    and ref: "\<And>a k. hp_ref q = Some a \<Longrightarrow>
      hs_heap s' a \<noteq> None \<and> (k \<noteq> i \<longrightarrow> guard (entries s) (hs_pcs s k) a \<le> the (my_slot s' i))"
    and stay: "\<And>j a. j \<noteq> i \<Longrightarrow> hp_ref (hs_pcs s j) = Some a \<Longrightarrow> a \<in> set S' \<Longrightarrow> a \<in> set S \<and> hs_heap s' a = hs_heap s a"
    and nxt: "\<And>a r. q = Pop_cas a r \<Longrightarrow> a \<in> set S' \<Longrightarrow> \<exists>n. hs_heap s' a = Some n \<and> node_next n = r"
    and ret: "\<And>j. j \<noteq> i \<Longrightarrow> pops_of j (hs_events s') = pops_of j (hs_events s) \<and> results_of j (hs_results s') = results_of j (hs_results s)"
      "pops_of i (hs_events s') = results_of i (hs_results s') @ hp_in_flight (hs_heap s') q"
  shows "hp_inv S' R' (C(i := c)) pl' ep' s'"
proof -
  have frame: "hs_heap s' a = hs_heap s a" if "k \<noteq> i" "a \<in> set (hp_own (hs_pcs s k))" for k a
    using heap [OF that(1)] hp_invD(4) [OF inv, of k a] that(2) by (simp add: node_mine_ok_def)
  have eframe: "entries s' e = entries s e" if "k \<noteq> i" "e \<in> set (C k)" for k e
    using eheap [OF that(1)] hp_invD(7) [OF inv, of k e] that(2) by (simp add: entry_mine_ok_def)
  have g: "guard (entries s') (hs_pcs s k) a = guard (entries s) (hs_pcs s k) a" if "k \<noteq> i" for k a
    using guard_cong [OF _ eframe [OF that]] hp_invD(8) [OF inv, of k] by (auto simp: hs_own_ok_def)
  have "node_mine_ok pl' s' k a" for k a
    using mine [of a] others [of k a] hp_invD(4) [OF inv, of k a] by (simp add: node_mine_ok_def pcs)
  moreover have "entry_mine_ok (C(i := c)) ep' k e" for k e
    using emine [of e] eothers [of k e] hp_invD(7) [OF inv, of k e] by (simp add: entry_mine_ok_def)
  moreover have "hs_own_ok (C(i := c)) s' k" for k
  proof (cases "k = i")
    case False
    then show ?thesis
      using hp_invD(8) [OF inv, of k] hp_shape_cong(1) [OF frame [OF False] eframe [OF False]]
      by (simp add: hs_own_ok_def pcs)
  qed (use own in \<open>simp add: hs_own_ok_def pcs\<close>)
  moreover have "hs_slot_ok s' j" for j
  proof (cases "j = i")
    case False
    have "slot_ok (my_slot s' j) (slot_pointer s') (hs_pcs s j) = slot_ok (my_slot s j) (slot_pointer s) (hs_pcs s j)"
      using slots(1) [OF False] slots(2) [OF False] by (cases "hs_pcs s j") auto
    then show ?thesis
      using hp_invD(9) [OF inv, of j] slots(1) [OF False] slots(2) [OF False] False by (simp add: hs_slot_ok_def pcs)
  qed (use slot in simp)
  moreover have "hs_ref_ok s' j k" for j k
  proof (cases "j = i")
    case True
    have "guard E q a = 0 \<or> hp_ref q = None" for E a by (cases q) auto
    then show ?thesis using True ref g by (cases "k = i") (fastforce simp: hs_ref_ok_def pcs)+
  next
    case False
    then show ?thesis
      using refs [OF False] hp_invD(10) [OF inv, of j k] g slots(1) [OF False]
      by (cases "k = i") (auto simp: hs_ref_ok_def pcs)
  qed
  moreover have "hs_next_ok S' s' j" for j
  proof (cases "j = i")
    case False
    then show ?thesis
      using stay [OF False] hp_invD(11) [OF inv, of j] by (fastforce simp: hs_next_ok_def pcs)
  qed (use nxt in \<open>simp add: hs_next_ok_def pcs\<close>)
  moreover have "hs_return_ok s' j" for j
  proof (cases "j = i")
    case False
    then show ?thesis
      using ret(1) [OF False] hp_invD(12) [OF inv, of j] hp_shape_cong(2) [where pc = "hs_pcs s j" and c = "C j", OF frame [OF False] eframe [OF False]]
      by (simp add: hs_return_ok_def pcs)
  qed (use ret(2) in \<open>simp add: hs_return_ok_def pcs\<close>)
  ultimately show ?thesis using lists vals place held eplace by (simp add: hp_inv_def)
qed

lemma hs_lists_frame:
  assumes "hs_lists S R s" "\<And>a. a \<in> set S \<Longrightarrow> hs_heap s' a = hs_heap s a" "\<And>e. e \<in> set R \<Longrightarrow> entries s' e = entries s e"
    "hs_head s' = hs_head s" "nodes_to_reclaim s' = nodes_to_reclaim s"
  shows "hs_lists S R s'"
proof -
  have "linked (hs_heap s') p S None = linked (hs_heap s) p S None" for p using assms(2) by (intro linked_cong)
  moreover have "linked (entries s') p R None = linked (entries s) p R None" for p using assms(3) by (intro linked_cong)
  ultimately show ?thesis using assms(1,4,5) by (simp add: hs_lists_def)
qed

lemma hs_values_frame:
  assumes "hs_values S s" "\<And>a. a \<in> set S \<Longrightarrow> hs_heap s' a = hs_heap s a" "replay (hs_events s') [] = replay (hs_events s) []"
  shows "hs_values S s'"
proof -
  have "List.map (\<lambda>a. Option.bind (hs_heap s' a) node_data) S = List.map (\<lambda>a. Option.bind (hs_heap s a) node_data) S"
    using assms(2) by simp
  then show ?thesis using assms(1) by (simp only: hs_values_def assms(3))
qed

text \<open>A step that leaves every node and entry where it is.\<close>

lemma hp_inv_local:
  assumes inv: "hp_inv S R C pl ep s"
    and pcs: "hs_pcs s' = (hs_pcs s)(i := q)"
    and same: "hs_head s' = hs_head s" "nodes_to_reclaim s' = nodes_to_reclaim s"
    and heap: "\<And>a. pl a \<noteq> Some (Mine i) \<Longrightarrow> hs_heap s' a = hs_heap s a"
      "\<And>a. hs_heap s' a = None \<longleftrightarrow> hs_heap s a = None"
    and eheap: "\<And>e. ep e \<noteq> Some (Private i) \<Longrightarrow> entries s' e = entries s e"
      "\<And>e. entries s' e = None \<longleftrightarrow> entries s e = None"
      "\<And>e. Option.bind (entries s' e) node_data = Option.bind (entries s e) node_data"
    and mine: "set (hp_own q) = set (hp_own (hs_pcs s i))" "set c = set (C i)"
    and own: "hp_shape (hs_heap s') (entries s') q c" "distinct c"
    and slot: "hs_slot_ok s' i"
    and slots: "\<And>j. j \<noteq> i \<Longrightarrow> my_slot s' j = my_slot s j"
      "\<And>j k. j \<noteq> i \<Longrightarrow> my_slot s j = Some k \<Longrightarrow> slot_pointer s' k = slot_pointer s k \<and> slot_id s' k = slot_id s k"
    and refs: "\<And>j a. j \<noteq> i \<Longrightarrow> hp_ref (hs_pcs s j) = Some a \<Longrightarrow> guard (entries s') q a \<le> the (my_slot s j)"
    and ref: "\<And>a k. hp_ref q = Some a \<Longrightarrow>
      hs_heap s' a \<noteq> None \<and> (k \<noteq> i \<longrightarrow> guard (entries s) (hs_pcs s k) a \<le> the (my_slot s' i))"
    and nxt: "\<And>a r. q = Pop_cas a r \<Longrightarrow> a \<in> set S \<Longrightarrow> \<exists>n. hs_heap s' a = Some n \<and> node_next n = r"
    and replay: "replay (hs_events s') [] = replay (hs_events s) []"
    and ret: "\<And>j. j \<noteq> i \<Longrightarrow> pops_of j (hs_events s') = pops_of j (hs_events s) \<and> results_of j (hs_results s') = results_of j (hs_results s)"
      "pops_of i (hs_events s') = results_of i (hs_results s') @ hp_in_flight (hs_heap s') q"
  shows "hp_inv S R (C(i := c)) pl ep s'"
proof (rule hp_inv_step [OF inv pcs])
  have shared: "hs_heap s' a = hs_heap s a" if "a \<in> set S" for a
    using heap(1) [of a] hp_invD(3) [OF inv, of a] that by (auto simp: node_place_ok_def)
  have eshared: "entries s' e = entries s e" if "e \<in> set R" for e
    using eheap(1) [of e] hp_invD(6) [OF inv, of e] that by (auto simp: entry_place_ok_def)
  show "hs_lists S R s'" by (rule hs_lists_frame [OF hp_invD(1) [OF inv] shared eshared same])
  show "hs_values S s'" by (rule hs_values_frame [OF hp_invD(2) [OF inv] shared replay])
  show "node_place_ok S pl s' a" for a using hp_invD(3) [OF inv, of a] heap(2) [of a] by (simp add: node_place_ok_def)
  show "entry_place_ok R ep s' e" for e using hp_invD(6) [OF inv, of e] eheap(2) [of e] by (simp add: entry_place_ok_def)
  show "held_ok pl s' e a" for e a using hp_invD(5) [OF inv, of e a] eheap(2,3) [of e] by (simp add: held_ok_def)
  show "a \<in> set (hp_own q) \<longleftrightarrow> pl a = Some (Mine i)" for a
    using hp_invD(4) [OF inv, of i a] unfolding mine node_mine_ok_def by simp
  show "e \<in> set c \<longleftrightarrow> ep e = Some (Private i)" for e
    using hp_invD(7) [OF inv, of i e] unfolding mine entry_mine_ok_def by simp
  show "hs_heap s' a = hs_heap s a" if "k \<noteq> i" "pl a = Some (Mine k)" for a k using heap(1) [of a] that by simp
  show "entries s' e = entries s e" if "k \<noteq> i" "ep e = Some (Private k)" for e k using eheap(1) [of e] that by simp
  show "hs_heap s' a \<noteq> None \<and> guard (entries s') q a \<le> the (my_slot s j)" if "j \<noteq> i" "hp_ref (hs_pcs s j) = Some a" for j a
    using refs [OF that] hp_invD(10) [OF inv, of j j] that(2) heap(2) [of a] by (simp add: hs_ref_ok_def)
  show "a \<in> set S \<and> hs_heap s' a = hs_heap s a" if "a \<in> set S" for a using shared that by simp
qed (use own slot slots ref nxt ret in auto)

text \<open>Facts about the thread that takes the step.\<close>

lemma slot_distinct:
  assumes "hp_inv S R C pl ep s" "my_slot s i = Some k" "my_slot s j = Some k"
  shows "i = j"
  using hp_invD(9) [OF assms(1), of i] hp_invD(9) [OF assms(1), of j] assms(2,3) by (auto simp: hs_slot_ok_def)

lemma ref_slot:
  assumes "hp_inv S R C pl ep s" "hp_ref (hs_pcs s j) = Some a"
  shows "\<exists>k. my_slot s j = Some k \<and> slot_pointer s k = Some a \<and> k < max_hazard_pointers"
  using hp_invD(9) [OF assms(1), of j] assms(2) by (cases "hs_pcs s j") (auto simp: hs_slot_ok_def)

lemma mine_allocated:
  assumes "hp_inv S R C pl ep s" "a \<in> set (hp_own (hs_pcs s i))"
  shows "\<exists>m. hs_heap s a = Some m" "pl a = Some (Mine i)"
  using hp_invD(3) [OF assms(1), of a] hp_invD(4) [OF assms(1), of i a] assms(2)
  by (auto simp: node_place_ok_def node_mine_ok_def)

lemma entry_allocated:
  assumes "hp_inv S R C pl ep s" "e \<in> set (C i)"
  obtains n a m where "entries s e = Some n" "node_data n = Some a" "hs_heap s a = Some m" "pl a = Some (Held e)"
    "ep e = Some (Private i)"
proof -
  have ep: "ep e = Some (Private i)" using hp_invD(7) [OF assms(1), of i e] assms(2) by (simp add: entry_mine_ok_def)
  then obtain n where n: "entries s e = Some n" using hp_invD(6) [OF assms(1), of e] by (auto simp: entry_place_ok_def)
  then obtain a where a: "node_data n = Some a" using hp_invD(5) [OF assms(1), of e undefined] by (auto simp: held_ok_def)
  then have "pl a = Some (Held e)" using hp_invD(5) [OF assms(1), of e a] n by (simp add: held_ok_def)
  moreover from this obtain m where "hs_heap s a = Some m" using hp_invD(3) [OF assms(1), of a] by (auto simp: node_place_ok_def)
  ultimately show thesis using n a ep that by blast
qed

lemma stacked_guard:
  assumes "hp_inv S R C pl ep s" "pl a = Some On_stack \<or> pl a = None"
  shows "guard (entries s) (hs_pcs s k) a = 0"
  using hp_invD(4) [OF assms(1), of k a] hp_invD(5) [OF assms(1), of _ a] assms(2)
  by (cases "hs_pcs s k") (auto simp: node_mine_ok_def held_ok_def)

end
