(* ===== verification/Hazard_Safety.thy ===== *)
theory Hazard_Safety
  imports Hazard_Invariant
begin

text \<open>
  Safety of the stack with hazard pointers: every step keeps the invariant and is defined, so no thread
  follows a pointer to a node that another thread has deleted, and the stack behaves as one whose
  operations take effect in single steps.
\<close>

section \<open>Steps\<close>

definition hp_good :: "'a hp_stack \<Rightarrow> bool" where
  "hp_good s \<longleftrightarrow> (\<exists>S R C pl ep. hp_inv S R C pl ep s)"

definition hp_step_ok :: "'a hp_stack outcome \<Rightarrow> bool" where
  "hp_step_ok r \<longleftrightarrow> (case r of Returns s' \<Rightarrow> hp_good s' | Blocks \<Rightarrow> True | Undefined \<Rightarrow> False)"

lemma hp_step_okI: "hp_inv S R C pl ep s' \<Longrightarrow> hp_step_ok (Returns s')"
  unfolding hp_step_ok_def hp_good_def by simp blast

lemmas hs_defs = hgo_def hstore_def estore_def

text \<open>A step that changes nothing but the position of the thread.\<close>

lemma hp_inv_move:
  assumes inv: "hp_inv S R C pl ep s"
    and q: "hp_own q = hp_own (hs_pcs s i)" "hp_shape (hs_heap s) (entries s) q (C i)"
      "slot_ok (my_slot s i) (slot_pointer s) q" "hp_in_flight (hs_heap s) q = hp_in_flight (hs_heap s) (hs_pcs s i)"
    and refs: "\<And>j a. j \<noteq> i \<Longrightarrow> hp_ref (hs_pcs s j) = Some a \<Longrightarrow> guard (entries s) q a \<le> the (my_slot s j)"
    and ref: "\<And>a k. hp_ref q = Some a \<Longrightarrow>
      hs_heap s a \<noteq> None \<and> (k \<noteq> i \<longrightarrow> guard (entries s) (hs_pcs s k) a \<le> the (my_slot s i))"
    and nxt: "\<And>a r. q = Pop_cas a r \<Longrightarrow> a \<in> set S \<Longrightarrow> \<exists>n. hs_heap s a = Some n \<and> node_next n = r"
  shows "hp_step_ok (Returns (hgo i q s))"
proof (rule hp_step_okI)
  show "hp_inv S R (C(i := C i)) pl ep (hgo i q s)"
    by (rule hp_inv_local [OF inv, where q = q])
      (use assms hp_invD(8) [OF inv, of i] hp_invD(9) [OF inv, of i] hp_invD(12) [OF inv, of i] in
        \<open>simp_all add: hs_defs hs_own_ok_def hs_slot_ok_def hs_return_ok_def\<close>)
qed

lemma no_entries:
  assumes "hp_inv S R C pl ep s" "\<And>c. hp_shape (hs_heap s) (entries s) (hs_pcs s i) c \<Longrightarrow> c = []"
  shows "C i = []"
  using hp_invD(8) [OF assms(1), of i] assms(2) by (auto simp: hs_own_ok_def)

lemma hs_push_new_ok:
  assumes inv: "hp_inv S R C pl ep s" and pc: "hs_pcs s i = Outside" and a: "hs_heap s a = None"
  shows "hp_step_ok (Returns (hs_push_new i v a s))"
proof (rule hp_step_okI)
  have ci: "C i = []" by (rule no_entries [OF inv]) (simp add: pc)
  have pa: "pl a = None" "a \<notin> set S" using hp_invD(3) [OF inv, of a] a by (auto simp: node_place_ok_def)
  let ?s = "hs_push_new i v a s"
  have frame: "hs_heap ?s b = hs_heap s b" if "b \<in> set S" for b
    using that pa by (auto simp: hs_push_new_def hs_defs)
  show "hp_inv S R (C(i := [])) (pl(a \<mapsto> Mine i)) ep ?s"
  proof (rule hp_inv_step [OF inv, where q = "Push_start v a"])
    show "hs_lists S R ?s"
      by (rule hs_lists_frame [OF hp_invD(1) [OF inv] frame]) (simp_all add: hs_push_new_def hs_defs)
    show "hs_values S ?s"
      by (rule hs_values_frame [OF hp_invD(2) [OF inv] frame]) (simp_all add: hs_push_new_def hs_defs)
    show "node_place_ok S (pl(a \<mapsto> Mine i)) ?s b" for b
      using hp_invD(3) [OF inv, of b] pa by (auto simp: node_place_ok_def hs_push_new_def hs_defs)
    show "b \<in> set (hp_own (Push_start v a)) \<longleftrightarrow> (pl(a \<mapsto> Mine i)) b = Some (Mine i)" for b
      using hp_invD(4) [OF inv, of i b] pc by (simp add: node_mine_ok_def)
    show "held_ok (pl(a \<mapsto> Mine i)) ?s e b" for e b
      using hp_invD(5) [OF inv, of e b] pa by (auto simp: held_ok_def hs_push_new_def hs_defs)
    show "entry_place_ok R ep ?s e" for e
      using hp_invD(6) [OF inv, of e] by (simp add: entry_place_ok_def hs_push_new_def hs_defs)
    show "e \<in> set [] \<longleftrightarrow> ep e = Some (Private i)" for e
      using hp_invD(7) [OF inv, of i e] ci by (simp add: entry_mine_ok_def)
    show "hs_slot_ok ?s i"
      using hp_invD(9) [OF inv, of i] by (simp add: hs_slot_ok_def hs_push_new_def hs_defs)
    show "hs_heap ?s b \<noteq> None \<and> guard (entries ?s) (Push_start v a) b \<le> the (my_slot s j)"
      if "hp_ref (hs_pcs s j) = Some b" for j b
      using hp_invD(10) [OF inv, of j j] that a by (auto simp: hs_ref_ok_def hs_push_new_def hs_defs)
    show "b \<in> set S \<and> hs_heap ?s b = hs_heap s b" if "b \<in> set S" for b using that frame by blast
  qed (use hp_invD(12) [OF inv, of i] pa pc in \<open>auto simp: hs_push_new_def hs_defs hs_return_ok_def\<close>)
qed

lemma get_hazard_pointer_ok:
  assumes inv: "hp_inv S R C pl ep s" and pc: "hs_pcs s i = Outside"
  shows "hp_step_ok (Returns (get_hazard_pointer i s))"
  using hp_invD(8) [OF inv, of i] pc
  by (auto simp: get_hazard_pointer_def hs_own_ok_def intro!: hp_inv_move [OF inv])

lemma hp_owner_clear_ok:
  assumes inv: "hp_inv S R C pl ep s" and pc: "hs_pcs s i = Outside"
  shows "hp_step_ok (Returns (hp_owner_clear i s))"
proof (cases "my_slot s i")
  case None
  then show ?thesis using hp_step_okI [OF inv] by (simp add: hp_owner_clear_def)
next
  case (Some k)
  let ?s = "hgo i (Release_id k) (s\<lparr>slot_pointer := (slot_pointer s)(k := None)\<rparr>)"
  have r: "hp_owner_clear i s = ?s" using Some by (simp add: hp_owner_clear_def)
  have ci: "C i = []" by (rule no_entries [OF inv]) (simp add: pc)
  show ?thesis unfolding r
  proof (rule hp_step_okI)
    show "hp_inv S R (C(i := [])) pl ep ?s"
    proof (rule hp_inv_local [OF inv, where q = "Release_id k"])
      show "hs_slot_ok ?s i" using hp_invD(9) [OF inv, of i] Some by (simp add: hs_slot_ok_def hs_defs)
      show "slot_pointer ?s m = slot_pointer s m \<and> slot_id ?s m = slot_id s m" if "j \<noteq> i" "my_slot s j = Some m" for j m
        using slot_distinct [OF inv Some, of j] that by (auto simp: hs_defs)
    qed (use hp_invD(12) [OF inv, of i] pc ci in \<open>simp_all add: hs_defs hs_return_ok_def\<close>)
  qed
qed

lemma hp_owner_release_ok:
  assumes inv: "hp_inv S R C pl ep s" and pc: "hs_pcs s i = Release_id k"
  shows "hp_step_ok (Returns (hp_owner_release i k s))"
proof (rule hp_step_okI)
  have k: "my_slot s i = Some k" using hp_invD(9) [OF inv, of i] pc by (simp add: hs_slot_ok_def)
  have ci: "C i = []" by (rule no_entries [OF inv]) (simp add: pc)
  let ?s = "hp_owner_release i k s"
  show "hp_inv S R (C(i := [])) pl ep ?s"
  proof (rule hp_inv_local [OF inv, where q = Outside])
    show "slot_pointer ?s m = slot_pointer s m \<and> slot_id ?s m = slot_id s m" if "j \<noteq> i" "my_slot s j = Some m" for j m
      using slot_distinct [OF inv k, of j] that by (auto simp: hp_owner_release_def hs_defs)
  qed (use hp_invD(12) [OF inv, of i] pc ci in \<open>simp_all add: hp_owner_release_def hs_defs hs_return_ok_def hs_slot_ok_def\<close>)
qed

lemma hp_owner_try_ok:
  assumes inv: "hp_inv S R C pl ep s" and pc: "hs_pcs s i = Find_slot k"
  shows "hp_step_ok (Returns (hp_owner_try i k s))"
proof -
  have none: "my_slot s i = None" using hp_invD(9) [OF inv, of i] pc by (simp add: hs_slot_ok_def)
  have ci: "C i = []" by (rule no_entries [OF inv]) (simp add: pc)
  consider "k \<ge> max_hazard_pointers" | "k < max_hazard_pointers" "slot_id s k = None"
    | "k < max_hazard_pointers" "slot_id s k \<noteq> None" by linarith
  then show ?thesis
  proof cases
    case 1
    then have r: "hp_owner_try i k s = hgo i Outside (s\<lparr>hs_throws := hs_throws s @ [i]\<rparr>)" by (simp add: hp_owner_try_def)
    show ?thesis unfolding r
      by (rule hp_step_okI [OF hp_inv_local [OF inv, where q = Outside and c = "[]"]])
        (use hp_invD(9) [OF inv, of i] hp_invD(12) [OF inv, of i] pc ci in
          \<open>simp_all add: hs_defs hs_slot_ok_def hs_return_ok_def\<close>)
  next
    case 2
    let ?s = "hgo i Pop_load (s\<lparr>slot_id := (slot_id s)(k \<mapsto> i), my_slot := (my_slot s)(i \<mapsto> k)\<rparr>)"
    have r: "hp_owner_try i k s = ?s" using 2 by (simp add: hp_owner_try_def)
    show ?thesis unfolding r
    proof (rule hp_step_okI)
      show "hp_inv S R (C(i := [])) pl ep ?s"
      proof (rule hp_inv_local [OF inv, where q = Pop_load])
        show "slot_pointer ?s m = slot_pointer s m \<and> slot_id ?s m = slot_id s m" if "my_slot s j = Some m" for j m
          using hp_invD(9) [OF inv, of j] that 2 by (auto simp: hs_slot_ok_def hs_defs)
      qed (use hp_invD(12) [OF inv, of i] pc ci 2 in \<open>simp_all add: hs_defs hs_return_ok_def hs_slot_ok_def\<close>)
    qed
  next
    case 3
    then have "hp_owner_try i k s = hgo i (Find_slot (Suc k)) s" by (auto simp: hp_owner_try_def)
    then show ?thesis using pc none ci by (auto intro!: hp_inv_move [OF inv])
  qed
qed

text \<open>Storing into the next pointer of the node to push.\<close>

lemma hs_push_store_ok:
  assumes inv: "hp_inv S R C pl ep s" and pc: "hs_pcs s i = Push_start v a \<or> hs_pcs s i = Push_cas v a"
    and m: "hs_heap s a = Some m"
  shows "hp_step_ok (Returns (hgo i (Push_cas v a) (hstore a (m\<lparr>node_next := p\<rparr>) s)))" (is "hp_step_ok (Returns ?s)")
proof (rule hp_step_okI)
  have sh: "C i = []" "node_data m = Some v" using hp_invD(8) [OF inv, of i] pc m by (auto simp: hs_own_ok_def)
  have pa: "pl a = Some (Mine i)" using mine_allocated(2) [OF inv, of a i] pc by auto
  show "hp_inv S R (C(i := [])) pl ep ?s"
  proof (rule hp_inv_local [OF inv, where q = "Push_cas v a"])
    show "guard (entries ?s) (Push_cas v a) b \<le> the (my_slot s j)" if "hp_ref (hs_pcs s j) = Some b" for j b
      using hp_invD(10) [OF inv, of j i] that pc by (auto simp: hs_ref_ok_def)
    show "hs_slot_ok ?s i" using hp_invD(9) [OF inv, of i] by (simp add: hs_slot_ok_def hs_defs)
  qed (use hp_invD(12) [OF inv, of i] pc sh pa m in \<open>auto simp: hs_defs hs_return_ok_def\<close>)
qed

lemma hs_push_load_ok:
  assumes inv: "hp_inv S R C pl ep s" and pc: "hs_pcs s i = Push_start v a"
  shows "hp_step_ok (hs_push_load i v a s)"
  using mine_allocated(1) [OF inv, of a i] hs_push_store_ok [OF inv] pc by (auto simp: hs_push_load_def)

lemma hs_push_exchange_ok:
  assumes inv: "hp_inv S R C pl ep s" and pc: "hs_pcs s i = Push_cas v a"
  shows "hp_step_ok (hs_push_exchange i v a spurious s)"
proof -
  obtain m where m: "hs_heap s a = Some m" using mine_allocated(1) [OF inv, of a i] pc by auto
  have sh: "C i = []" "node_data m = Some v" using hp_invD(8) [OF inv, of i] pc m by (auto simp: hs_own_ok_def)
  have pa: "pl a = Some (Mine i)" using mine_allocated(2) [OF inv, of a i] pc by auto
  show ?thesis
  proof (cases "hs_head s = node_next m \<and> \<not> spurious")
    case False
    then show ?thesis using hs_push_store_ok [OF inv _ m] pc m by (auto simp: hs_push_exchange_def)
  next
    case True
    let ?s = "hgo i Outside (s\<lparr>hs_head := Some a, hs_events := hs_events s @ [(i, Pushed v)]\<rparr>)"
    have r: "hs_push_exchange i v a spurious s = Returns ?s" using m True by (simp add: hs_push_exchange_def)
    have new: "a \<notin> set S" using hp_invD(3) [OF inv, of a] pa by (simp add: node_place_ok_def)
    obtain vs where vs: "List.map (\<lambda>a. Option.bind (hs_heap s a) node_data) S = List.map Some vs" "replay (hs_events s) [] = Some vs"
      using hp_invD(2) [OF inv] by (auto simp: hs_values_def)
    show ?thesis unfolding r
    proof (rule hp_step_okI)
      show "hp_inv (a # S) R (C(i := [])) (pl(a \<mapsto> On_stack)) ep ?s"
      proof (rule hp_inv_step [OF inv, where q = Outside])
        show "hs_lists (a # S) R ?s" using hp_invD(1) [OF inv] m True new by (simp add: hs_lists_def hs_defs)
        show "hs_values (a # S) ?s"
          using m sh vs by (auto simp: hs_values_def hs_defs replay_append intro: exI [of _ "v # vs"])
        show "node_place_ok (a # S) (pl(a \<mapsto> On_stack)) ?s b" for b
          using hp_invD(3) [OF inv, of b] m by (auto simp: node_place_ok_def hs_defs)
        show "b \<in> set (hp_own Outside) \<longleftrightarrow> (pl(a \<mapsto> On_stack)) b = Some (Mine i)" for b
          using hp_invD(4) [OF inv, of i b] pc by (auto simp: node_mine_ok_def)
        show "held_ok (pl(a \<mapsto> On_stack)) ?s e b" for e b
          using hp_invD(5) [OF inv, of e b] pa by (auto simp: held_ok_def hs_defs)
        show "entry_place_ok R ep ?s e" for e using hp_invD(6) [OF inv, of e] by (simp add: entry_place_ok_def hs_defs)
        show "e \<in> set [] \<longleftrightarrow> ep e = Some (Private i)" for e
          using hp_invD(7) [OF inv, of i e] sh by (simp add: entry_mine_ok_def)
        show "hs_slot_ok ?s i" using hp_invD(9) [OF inv, of i] by (simp add: hs_slot_ok_def hs_defs)
        show "hs_heap ?s b \<noteq> None \<and> guard (entries ?s) Outside b \<le> the (my_slot s j)" if "hp_ref (hs_pcs s j) = Some b" for j b
          using hp_invD(10) [OF inv, of j j] that by (simp add: hs_ref_ok_def hs_defs)
        show "b \<in> set S \<and> hs_heap ?s b = hs_heap s b" if j: "hp_ref (hs_pcs s j) = Some b" "b \<in> set (a # S)" for b j
        proof -
          obtain k where "my_slot s j = Some k" "k < max_hazard_pointers" using ref_slot [OF inv j(1)] by blast
          then show ?thesis using hp_invD(10) [OF inv, of j i] j pc by (auto simp: hs_ref_ok_def hs_defs)
        qed
      qed (use hp_invD(12) [OF inv, of i] pa pc in \<open>auto simp: hs_defs hs_return_ok_def\<close>)
    qed
  qed
qed

lemma hs_pop_load_ok:
  assumes inv: "hp_inv S R C pl ep s" and pc: "hs_pcs s i = Pop_load"
  shows "hp_step_ok (Returns (hs_pop_load i s))"
  using hp_invD(8) [OF inv, of i] hp_invD(9) [OF inv, of i] pc
  by (auto simp: hs_pop_load_def hs_own_ok_def hs_slot_ok_def intro!: hp_inv_move [OF inv])

text \<open>Storing into the slot of the thread, when it does not follow a node.\<close>

lemma set_hazard_ok:
  assumes inv: "hp_inv S R C pl ep s" and pc: "hs_pcs s i = Hp_store p \<and> q = Hp_check p \<or> (\<exists>old. hs_pcs s i = Hp_clear old \<and> p = None \<and> q = Pop_swap old)"
  shows "hp_step_ok (and_then (set_hazard i p s) (\<lambda>s. Returns (hgo i q s)))"
proof -
  obtain k where k: "my_slot s i = Some k" using hp_invD(9) [OF inv, of i] pc by (auto simp: hs_slot_ok_def)
  let ?s = "hgo i q (s\<lparr>slot_pointer := (slot_pointer s)(k := p)\<rparr>)"
  have r: "and_then (set_hazard i p s) (\<lambda>s. Returns (hgo i q s)) = Returns ?s" using k by (simp add: set_hazard_def)
  have q: "hp_own q = hp_own (hs_pcs s i)" "hp_shape H E q c = hp_shape H E (hs_pcs s i) c"
    "hp_in_flight H q = hp_in_flight H (hs_pcs s i)" "hp_ref q = None" "guard E q a = 0" "\<And>a r. q \<noteq> Pop_cas a r" for H E c a
    using pc by auto
  show ?thesis unfolding r
  proof (rule hp_step_okI)
    show "hp_inv S R (C(i := C i)) pl ep ?s"
    proof (rule hp_inv_local [OF inv, where q = q])
      show "slot_pointer ?s m = slot_pointer s m \<and> slot_id ?s m = slot_id s m" if "j \<noteq> i" "my_slot s j = Some m" for j m
        using slot_distinct [OF inv k, of j] that by (auto simp: hs_defs)
      show "hs_slot_ok ?s i" using hp_invD(9) [OF inv, of i] k pc by (auto simp: hs_slot_ok_def hs_defs)
    qed (use hp_invD(8) [OF inv, of i] hp_invD(12) [OF inv, of i] q in
        \<open>simp_all add: hs_defs hs_own_ok_def hs_return_ok_def\<close>)
  qed
qed

lemma hs_check_ok:
  assumes inv: "hp_inv S R C pl ep s" and pc: "hs_pcs s i = Hp_check p"
  shows "hp_step_ok (Returns (hs_check i p s))"
proof -
  have ci: "C i = []" by (rule no_entries [OF inv]) (simp add: pc)
  have sl: "my_slot s i \<noteq> None" "slot_pointer s (the (my_slot s i)) = p"
    using hp_invD(9) [OF inv, of i] pc by (auto simp: hs_slot_ok_def)
  consider "hs_head s \<noteq> p" | "hs_head s = p" "p = None" | a where "hs_head s = p" "p = Some a" by (cases p) auto
  then show ?thesis
  proof cases
    case 1
    then have "hs_check i p s = hgo i (Hp_store (hs_head s)) s" by (simp add: hs_check_def)
    then show ?thesis using pc ci sl by (auto intro!: hp_inv_move [OF inv])
  next
    case 2
    let ?s = "hgo i (Hp_clear None) (s\<lparr>hs_events := hs_events s @ [(i, Popped None)]\<rparr>)"
    have r: "hs_check i p s = ?s" using 2 by (simp add: hs_check_def)
    have "S = []" using hp_invD(1) [OF inv] 2 by (simp add: hs_lists_def linked_None)
    then have empty: "replay (hs_events s) [] = Some []" using hp_invD(2) [OF inv] by (auto simp: hs_values_def)
    show ?thesis unfolding r
    proof (rule hp_step_okI)
      show "hp_inv S R (C(i := [])) pl ep ?s"
        by (rule hp_inv_local [OF inv, where q = "Hp_clear None"])
          (use hp_invD(9) [OF inv, of i] hp_invD(12) [OF inv, of i] pc ci sl empty in
            \<open>auto simp: hs_defs hs_slot_ok_def hs_return_ok_def replay_append\<close>)
    qed
  next
    case (3 a)
    then have r: "hs_check i p s = hgo i (Pop_next a) s" by (simp add: hs_check_def)
    obtain m S' where S: "S = a # S'" "hs_heap s a = Some m"
      using hp_invD(1) [OF inv] 3 by (auto simp: hs_lists_def linked_Some)
    then have "pl a = Some On_stack" using hp_invD(3) [OF inv, of a] by (simp add: node_place_ok_def)
    then have g: "guard (entries s) (hs_pcs s k) a = 0" for k using stacked_guard [OF inv] by blast
    show ?thesis unfolding r
      by (rule hp_inv_move [OF inv]) (use pc ci sl S g 3 in auto)
  qed
qed

lemma hs_next_step_ok:
  assumes inv: "hp_inv S R C pl ep s" and pc: "hs_pcs s i = Pop_next a"
  shows "hp_step_ok (hs_next i a s)"
proof -
  have ci: "C i = []" by (rule no_entries [OF inv]) (simp add: pc)
  obtain m where m: "hs_heap s a = Some m" using hp_invD(10) [OF inv, of i i] pc by (auto simp: hs_ref_ok_def)
  have r: "hs_next i a s = Returns (hgo i (Pop_cas a (node_next m)) s)" using m by (simp add: hs_next_def)
  show ?thesis unfolding r
  proof (rule hp_inv_move [OF inv])
    show "hs_heap s b \<noteq> None \<and> (k \<noteq> i \<longrightarrow> guard (entries s) (hs_pcs s k) b \<le> the (my_slot s i))"
      if "hp_ref (Pop_cas a (node_next m) :: 'a hp_pc) = Some b" for b k
      using hp_invD(10) [OF inv, of i k] that pc by (simp add: hs_ref_ok_def)
  qed (use hp_invD(9) [OF inv, of i] pc ci m in \<open>auto simp: hs_slot_ok_def\<close>)
qed

lemma hs_exchange_ok:
  assumes inv: "hp_inv S R C pl ep s" and pc: "hs_pcs s i = Pop_cas a nxt"
  shows "hp_step_ok (Returns (hs_exchange i a nxt s))"
proof -
  have ci: "C i = []" by (rule no_entries [OF inv]) (simp add: pc)
  have sl: "my_slot s i \<noteq> None" using hp_invD(9) [OF inv, of i] pc by (auto simp: hs_slot_ok_def)
  show ?thesis
  proof (cases "hs_head s = Some a")
    case False
    then have "hs_exchange i a nxt s = hgo i (Hp_store (hs_head s)) s" by (simp add: hs_exchange_def)
    then show ?thesis using pc ci sl by (auto intro!: hp_inv_move [OF inv])
  next
    case True
    then obtain m S' where S: "S = a # S'" "hs_heap s a = Some m" "linked (hs_heap s) (node_next m) S' None"
      using hp_invD(1) [OF inv] by (auto simp: hs_lists_def linked_Some)
    have nxt: "node_next m = nxt" using hp_invD(11) [OF inv, of i] pc S by (simp add: hs_next_ok_def)
    have pa: "pl a = Some On_stack" using hp_invD(3) [OF inv, of a] S by (simp add: node_place_ok_def)
    have new: "a \<notin> set S'" "distinct S'" using hp_invD(1) [OF inv] S by (auto simp: hs_lists_def)
    let ?q = "Hp_clear (Some a) :: 'a hp_pc"
    let ?s = "hgo i ?q (s\<lparr>hs_head := nxt, hs_events := hs_events s @ [(i, Popped (node_data m))]\<rparr>)"
    have r: "hs_exchange i a nxt s = ?s" using True S by (simp add: hs_exchange_def)
    obtain vs where vs: "List.map (\<lambda>a. Option.bind (hs_heap s a) node_data) S = List.map Some vs" "replay (hs_events s) [] = Some vs"
      using hp_invD(2) [OF inv] by (auto simp: hs_values_def)
    then obtain v vs' where v: "vs = v # vs'" "node_data m = Some v" using S by (cases vs) auto
    show ?thesis unfolding r
    proof (rule hp_step_okI)
      show "hp_inv S' R (C(i := [])) (pl(a \<mapsto> Mine i)) ep ?s"
      proof (rule hp_inv_step [OF inv, where q = ?q])
        show "hs_lists S' R ?s" using hp_invD(1) [OF inv] S nxt new by (simp add: hs_lists_def hs_defs)
        show "hs_values S' ?s" using vs v S by (simp add: hs_values_def hs_defs replay_append)
        show "node_place_ok S' (pl(a \<mapsto> Mine i)) ?s b" for b
          using hp_invD(3) [OF inv, of b] S new by (auto simp: node_place_ok_def hs_defs)
        show "b \<in> set (hp_own ?q) \<longleftrightarrow> (pl(a \<mapsto> Mine i)) b = Some (Mine i)" for b
          using hp_invD(4) [OF inv, of i b] pc by (auto simp: node_mine_ok_def)
        show "held_ok (pl(a \<mapsto> Mine i)) ?s e b" for e b
          using hp_invD(5) [OF inv, of e b] pa by (auto simp: held_ok_def hs_defs)
        show "entry_place_ok R ep ?s e" for e using hp_invD(6) [OF inv, of e] by (simp add: entry_place_ok_def hs_defs)
        show "e \<in> set [] \<longleftrightarrow> ep e = Some (Private i)" for e
          using hp_invD(7) [OF inv, of i e] ci by (simp add: entry_mine_ok_def)
        show "hs_slot_ok ?s i" using hp_invD(9) [OF inv, of i] sl by (simp add: hs_slot_ok_def hs_defs)
        show "hs_heap ?s b \<noteq> None \<and> guard (entries ?s) ?q b \<le> the (my_slot s j)" if "hp_ref (hs_pcs s j) = Some b" for j b
          using hp_invD(10) [OF inv, of j j] that by (simp add: hs_ref_ok_def hs_defs)
      qed (use hp_invD(12) [OF inv, of i] pa pc S v in \<open>auto simp: hs_defs hs_return_ok_def\<close>)
    qed
  qed
qed

text \<open>Returning from \<open>pop\<close>.\<close>

lemma hs_return_step_ok:
  assumes inv: "hp_inv S R C pl ep s" and pc: "hp_own (hs_pcs s i) = []" "C i = []" "hp_in_flight (hs_heap s) (hs_pcs s i) = [res]"
  shows "hp_step_ok (Returns (hs_return i res s))"
  by (rule hp_step_okI [OF hp_inv_local [OF inv, where q = Outside and c = "[]"]])
    (use hp_invD(9) [OF inv, of i] hp_invD(12) [OF inv, of i] pc in
      \<open>auto simp: hs_return_def hs_defs hs_slot_ok_def hs_return_ok_def\<close>)

lemma hs_swap_ok:
  assumes inv: "hp_inv S R C pl ep s" and pc: "hs_pcs s i = Pop_swap old"
  shows "hp_step_ok (hs_swap i old s)"
proof -
  have ci: "C i = []" by (rule no_entries [OF inv]) (simp add: pc)
  show ?thesis
  proof (cases old)
    case None
    then show ?thesis using hs_return_step_ok [OF inv, of i None] pc ci by (simp add: hs_swap_def)
  next
    case (Some a)
    then obtain m where m: "hs_heap s a = Some m" and pa: "pl a = Some (Mine i)"
      using mine_allocated [OF inv, of a i] pc by auto
    let ?s = "hgo i (Scan_own a (node_data m) 0) (hstore a (m\<lparr>node_data := None\<rparr>) s)"
    have r: "hs_swap i old s = Returns ?s" using Some m by (simp add: hs_swap_def)
    show ?thesis unfolding r
    proof (rule hp_step_okI)
      show "hp_inv S R (C(i := [])) pl ep ?s"
        by (rule hp_inv_local [OF inv, where q = "Scan_own a (node_data m) 0"])
          (use hp_invD(9) [OF inv, of i] hp_invD(12) [OF inv, of i] pc ci Some m pa in
            \<open>auto simp: hs_defs hs_slot_ok_def hs_return_ok_def\<close>)
    qed
  qed
qed

text \<open>A thread that follows \<open>a\<close> announces it in its slot, which a scan has not passed.\<close>

lemma scan_guard:
  assumes inv: "hp_inv S R C pl ep s" and ref: "hp_ref (hs_pcs s j) = Some a"
    and k: "k \<le> the (my_slot s j)" "slot_pointer s k \<noteq> Some a"
  shows "Suc k \<le> the (my_slot s j)"
proof -
  obtain m where "my_slot s j = Some m" "slot_pointer s m = Some a" using ref_slot [OF inv ref] by blast
  then show ?thesis using k by (cases "k = m") auto
qed

lemma scan_done:
  assumes inv: "hp_inv S R C pl ep s" and g: "max_hazard_pointers \<le> guard (entries s) (hs_pcs s i) a"
  shows "hp_ref (hs_pcs s j) \<noteq> Some a"
proof
  assume ref: "hp_ref (hs_pcs s j) = Some a"
  obtain m where "my_slot s j = Some m" "m < max_hazard_pointers" using ref_slot [OF inv ref] by blast
  then show False using hp_invD(10) [OF inv, of j i] ref g by (auto simp: hs_ref_ok_def)
qed

lemma hs_scan_own_ok:
  assumes inv: "hp_inv S R C pl ep s" and pc: "hs_pcs s i = Scan_own a res k"
  shows "hp_step_ok (hs_scan_own i a res k s)"
proof -
  have ci: "C i = []" by (rule no_entries [OF inv]) (simp add: pc)
  obtain m where m: "hs_heap s a = Some m" and pa: "pl a = Some (Mine i)" using mine_allocated [OF inv, of a i] pc by auto
  consider "k < max_hazard_pointers" "slot_pointer s k = Some a" | "k < max_hazard_pointers" "slot_pointer s k \<noteq> Some a"
    | "max_hazard_pointers \<le> k" by linarith
  then show ?thesis
  proof cases
    case 1
    then have "hs_scan_own i a res k s = Returns (hgo i (Retire a res) s)" by (simp add: hs_scan_own_def outstanding_round_def)
    then show ?thesis using pc ci by (auto intro!: hp_inv_move [OF inv])
  next
    case 2
    then have r: "hs_scan_own i a res k s = Returns (hgo i (Scan_own a res (Suc k)) s)" by (simp add: hs_scan_own_def outstanding_round_def)
    show ?thesis unfolding r
    proof (rule hp_inv_move [OF inv])
      show "guard (entries s) (Scan_own a res (Suc k)) b \<le> the (my_slot s j)" if ref: "hp_ref (hs_pcs s j) = Some b" for j b
      proof (cases "b = a")
        case True
        then have "k \<le> the (my_slot s j)" using hp_invD(10) [OF inv, of j i] ref pc by (simp add: hs_ref_ok_def)
        then show ?thesis using scan_guard [OF inv ref] True 2 by simp
      qed simp
    qed (use pc ci in simp_all)
  next
    case 3
    let ?s = "hgo i (Take res) (s\<lparr>hs_heap := (hs_heap s)(a := None)\<rparr>)"
    have r: "hs_scan_own i a res k s = Returns ?s" using 3 m by (simp add: hs_scan_own_def outstanding_round_def hs_delete_def)
    have free: "hp_ref (hs_pcs s j) \<noteq> Some a" for j using scan_done [OF inv, of i a] pc 3 by simp
    have new: "a \<notin> set S" using hp_invD(3) [OF inv, of a] pa by (simp add: node_place_ok_def)
    have frame: "hs_heap ?s b = hs_heap s b" if "b \<in> set S" for b using that new by (auto simp: hs_defs)
    show ?thesis unfolding r
    proof (rule hp_step_okI)
      show "hp_inv S R (C(i := [])) (pl(a := None)) ep ?s"
      proof (rule hp_inv_step [OF inv, where q = "Take res"])
        show "hs_lists S R ?s" by (rule hs_lists_frame [OF hp_invD(1) [OF inv] frame]) (simp_all add: hs_defs)
        show "hs_values S ?s" by (rule hs_values_frame [OF hp_invD(2) [OF inv] frame]) (simp_all add: hs_defs)
        show "node_place_ok S (pl(a := None)) ?s b" for b
          using hp_invD(3) [OF inv, of b] new by (auto simp: node_place_ok_def hs_defs)
        show "b \<in> set (hp_own (Take res :: 'a hp_pc)) \<longleftrightarrow> (pl(a := None)) b = Some (Mine i)" for b
          using hp_invD(4) [OF inv, of i b] pc by (auto simp: node_mine_ok_def)
        show "held_ok (pl(a := None)) ?s e b" for e b
          using hp_invD(5) [OF inv, of e b] pa by (auto simp: held_ok_def hs_defs)
        show "entry_place_ok R ep ?s e" for e using hp_invD(6) [OF inv, of e] by (simp add: entry_place_ok_def hs_defs)
        show "e \<in> set [] \<longleftrightarrow> ep e = Some (Private i)" for e
          using hp_invD(7) [OF inv, of i e] ci by (simp add: entry_mine_ok_def)
        show "hs_slot_ok ?s i" using hp_invD(9) [OF inv, of i] by (simp add: hs_slot_ok_def hs_defs)
        show "hs_heap ?s b \<noteq> None \<and> guard (entries ?s) (Take res) b \<le> the (my_slot s j)" if "hp_ref (hs_pcs s j) = Some b" for j b
          using hp_invD(10) [OF inv, of j j] that free [of j] by (auto simp: hs_ref_ok_def hs_defs)
        show "b \<in> set S \<and> hs_heap ?s b = hs_heap s b" if "b \<in> set S" for b using that frame by blast
      qed (use hp_invD(12) [OF inv, of i] pa pc in \<open>auto simp: hs_defs hs_return_ok_def\<close>)
    qed
  qed
qed

lemma reclaim_later_ok:
  assumes inv: "hp_inv S R C pl ep s" and pc: "hs_pcs s i = Retire a res" and e: "entries s e = None"
  shows "hp_step_ok (Returns (reclaim_later i a res e s))"
proof (rule hp_step_okI)
  have ci: "C i = []" by (rule no_entries [OF inv]) (simp add: pc)
  obtain m where m: "hs_heap s a = Some m" and pa: "pl a = Some (Mine i)" using mine_allocated [OF inv, of a i] pc by auto
  have pe: "ep e = None" "e \<notin> set R" using hp_invD(6) [OF inv, of e] e by (auto simp: entry_place_ok_def)
  have fresh: "pl b \<noteq> Some (Held e)" for b using hp_invD(5) [OF inv, of e b] e by (simp add: held_ok_def)
  let ?s = "reclaim_later i a res e s"
  have frame: "entries ?s f = entries s f" if "f \<in> set R" for f
    using that pe by (auto simp: reclaim_later_def hs_defs)
  show "hp_inv S R (C(i := [e])) (pl(a \<mapsto> Held e)) (ep(e \<mapsto> Private i)) ?s"
  proof (rule hp_inv_step [OF inv, where q = "Add_cas e None res"])
    show "hs_lists S R ?s"
      by (rule hs_lists_frame [OF hp_invD(1) [OF inv] _ frame]) (simp_all add: reclaim_later_def hs_defs)
    show "hs_values S ?s" by (rule hs_values_frame [OF hp_invD(2) [OF inv]]) (simp_all add: reclaim_later_def hs_defs)
    show "node_place_ok S (pl(a \<mapsto> Held e)) ?s b" for b
      using hp_invD(3) [OF inv, of b] pa m by (auto simp: node_place_ok_def reclaim_later_def hs_defs)
    show "b \<in> set (hp_own (Add_cas e None res :: 'a hp_pc)) \<longleftrightarrow> (pl(a \<mapsto> Held e)) b = Some (Mine i)" for b
      using hp_invD(4) [OF inv, of i b] pc by (auto simp: node_mine_ok_def)
    show "held_ok (pl(a \<mapsto> Held e)) ?s f b" for f b
      using hp_invD(5) [OF inv, of f b] pa fresh [of b] by (auto simp: held_ok_def reclaim_later_def hs_defs)
    show "entry_place_ok R (ep(e \<mapsto> Private i)) ?s f" for f
      using hp_invD(6) [OF inv, of f] pe by (auto simp: entry_place_ok_def reclaim_later_def hs_defs)
    show "f \<in> set [e] \<longleftrightarrow> (ep(e \<mapsto> Private i)) f = Some (Private i)" for f
      using hp_invD(7) [OF inv, of i f] ci by (simp add: entry_mine_ok_def)
    show "hs_slot_ok ?s i" using hp_invD(9) [OF inv, of i] by (simp add: hs_slot_ok_def reclaim_later_def hs_defs)
    show "hs_heap ?s b \<noteq> None \<and> guard (entries ?s) (Add_cas e None res) b \<le> the (my_slot s j)"
      if "hp_ref (hs_pcs s j) = Some b" for j b
      using hp_invD(10) [OF inv, of j j] that by (simp add: hs_ref_ok_def reclaim_later_def hs_defs)
  qed (use hp_invD(12) [OF inv, of i] pa pe pc in \<open>auto simp: reclaim_later_def hs_defs hs_return_ok_def\<close>)
qed

text \<open>Storing into the next pointer of an entry that the thread owns.\<close>

lemma add_store_ok:
  assumes inv: "hp_inv S R C pl ep s" and c: "C i = e # c'" and n: "entries s e = Some n"
    and pc: "hs_pcs s i = Add_cas e cont res \<or> (\<exists>nxt. cont = Some nxt \<and> hs_pcs s i = Add_load e nxt res)"
  shows "hp_step_ok (Returns (hgo i (Add_cas e cont res) (estore e (n\<lparr>node_next := p\<rparr>) s)))" (is "hp_step_ok (Returns ?s)")
proof (rule hp_step_okI)
  have own: "hp_shape (hs_heap s) (entries s) (Add_cas e cont res) (C i)" "distinct (C i)"
    using hp_invD(8) [OF inv, of i] pc c by (auto simp: hs_own_ok_def)
  have pe: "ep e = Some (Private i)" using hp_invD(7) [OF inv, of i e] c by (simp add: entry_mine_ok_def)
  have "linked (entries ?s) q c' r = linked (entries s) q c' r" for q r
    using own(2) c by (intro linked_cong) (auto simp: hs_defs)
  then have sh: "hp_shape (hs_heap ?s) (entries ?s) (Add_cas e cont res) (C i)"
    using own(1) c by (auto split: option.splits)
  show "hp_inv S R (C(i := C i)) pl ep ?s"
  proof (rule hp_inv_local [OF inv, where q = "Add_cas e cont res"])
    show "hs_slot_ok ?s i" using hp_invD(9) [OF inv, of i] by (simp add: hs_slot_ok_def hs_defs)
  qed (use hp_invD(12) [OF inv, of i] pc own(2) sh pe n in \<open>auto simp: hs_defs hs_return_ok_def\<close>)
qed

lemma add_load_ok:
  assumes inv: "hp_inv S R C pl ep s" and pc: "hs_pcs s i = Add_load e nxt res"
  shows "hp_step_ok (add_load i e nxt res s)"
proof -
  obtain c' where c: "C i = e # c'" using hp_invD(8) [OF inv, of i] pc by (auto simp: hs_own_ok_def)
  then obtain n where n: "entries s e = Some n" using entry_allocated [OF inv, of e i] by auto
  show ?thesis using add_store_ok [OF inv c n] pc n by (simp add: add_load_def)
qed

lemma add_exchange_ok:
  assumes inv: "hp_inv S R C pl ep s" and pc: "hs_pcs s i = Add_cas e cont res"
  shows "hp_step_ok (add_exchange i e cont res s)"
proof -
  obtain c' where c: "C i = e # c'" "case cont of None \<Rightarrow> c' = [] | Some nxt \<Rightarrow> linked (entries s) nxt c' None"
      and d: "distinct (C i)"
    using hp_invD(8) [OF inv, of i] pc by (auto simp: hs_own_ok_def)
  obtain n where n: "entries s e = Some n" and pe: "ep e = Some (Private i)"
    using entry_allocated [OF inv, of e i] c by auto
  show ?thesis
  proof (cases "nodes_to_reclaim s = node_next n")
    case False
    then show ?thesis using add_store_ok [OF inv c(1) n] pc n by (simp add: add_exchange_def)
  next
    case True
    define q :: "'a hp_pc" where "q = (case cont of None \<Rightarrow> Take res | Some nxt \<Rightarrow> Sweep nxt res)"
    let ?s = "hgo i q (s\<lparr>nodes_to_reclaim := Some e\<rparr>)"
    have r: "add_exchange i e cont res s = Returns ?s" using True n by (simp add: add_exchange_def q_def)
    have q: "hp_own q = []" "hp_ref q = None" "hp_in_flight H q = [res]" "guard E q a = 0" "\<And>a r. q \<noteq> Pop_cas a r"
      "slot_ok sl ptr q" "hp_shape (hs_heap s) (entries s) q c'" for H E a sl ptr
      using c(2) by (simp_all add: q_def split: option.splits)
    have new: "e \<notin> set R" using hp_invD(6) [OF inv, of e] pe by (simp add: entry_place_ok_def)
    show ?thesis unfolding r
    proof (rule hp_step_okI)
      show "hp_inv S (e # R) (C(i := c')) pl (ep(e \<mapsto> Pending)) ?s"
      proof (rule hp_inv_step [OF inv, where q = q])
        show "hs_lists S (e # R) ?s" using hp_invD(1) [OF inv] n True new by (simp add: hs_lists_def hs_defs)
        show "hs_values S ?s" by (rule hs_values_frame [OF hp_invD(2) [OF inv]]) (simp_all add: hs_defs)
        show "node_place_ok S pl ?s b" for b using hp_invD(3) [OF inv, of b] by (simp add: node_place_ok_def hs_defs)
        show "b \<in> set (hp_own q) \<longleftrightarrow> pl b = Some (Mine i)" for b
          using hp_invD(4) [OF inv, of i b] pc q(1) by (simp add: node_mine_ok_def)
        show "held_ok pl ?s f b" for f b using hp_invD(5) [OF inv, of f b] by (simp add: held_ok_def hs_defs)
        show "entry_place_ok (e # R) (ep(e \<mapsto> Pending)) ?s f" for f
          using hp_invD(6) [OF inv, of f] n by (auto simp: entry_place_ok_def hs_defs)
        show "f \<in> set c' \<longleftrightarrow> (ep(e \<mapsto> Pending)) f = Some (Private i)" for f
          using hp_invD(7) [OF inv, of i f] c(1) d by (auto simp: entry_mine_ok_def)
        show "hs_slot_ok ?s i" using hp_invD(9) [OF inv, of i] q by (simp add: hs_slot_ok_def hs_defs)
        show "hs_heap ?s b \<noteq> None \<and> guard (entries ?s) q b \<le> the (my_slot s j)" if "hp_ref (hs_pcs s j) = Some b" for j b
          using hp_invD(10) [OF inv, of j j] that q by (simp add: hs_ref_ok_def hs_defs)
      qed (use hp_invD(12) [OF inv, of i] pc pe q d c(1) in \<open>auto simp: hs_defs hs_return_ok_def\<close>)
    qed
  qed
qed

lemma sweep_take_ok:
  assumes inv: "hp_inv S R C pl ep s" and pc: "hs_pcs s i = Take res"
  shows "hp_step_ok (Returns (sweep_take i res s))"
proof (rule hp_step_okI)
  have ci: "C i = []" by (rule no_entries [OF inv]) (simp add: pc)
  let ?s = "sweep_take i res s"
  let ?q = "Sweep (nodes_to_reclaim s) res :: 'a hp_pc"
  let ?ep = "\<lambda>e. if e \<in> set R then Some (Private i) else ep e"
  have pR: "e \<in> set R \<longleftrightarrow> ep e = Some Pending" for e using hp_invD(6) [OF inv, of e] by (simp add: entry_place_ok_def)
  show "hp_inv S [] (C(i := R)) pl ?ep ?s"
  proof (rule hp_inv_step [OF inv, where q = ?q])
    show "hs_lists S [] ?s" using hp_invD(1) [OF inv] by (simp add: hs_lists_def sweep_take_def hs_defs)
    show "hs_values S ?s" by (rule hs_values_frame [OF hp_invD(2) [OF inv]]) (simp_all add: sweep_take_def hs_defs)
    show "node_place_ok S pl ?s b" for b
      using hp_invD(3) [OF inv, of b] by (simp add: node_place_ok_def sweep_take_def hs_defs)
    show "b \<in> set (hp_own ?q) \<longleftrightarrow> pl b = Some (Mine i)" for b
      using hp_invD(4) [OF inv, of i b] pc by (simp add: node_mine_ok_def)
    show "held_ok pl ?s f b" for f b using hp_invD(5) [OF inv, of f b] by (simp add: held_ok_def sweep_take_def hs_defs)
    show "entry_place_ok [] ?ep ?s f" for f
      using hp_invD(6) [OF inv, of f] by (auto simp: entry_place_ok_def sweep_take_def hs_defs)
    show "f \<in> set R \<longleftrightarrow> ?ep f = Some (Private i)" for f
      using hp_invD(7) [OF inv, of i f] ci by (simp add: entry_mine_ok_def)
    show "?ep f = Some (Private k) \<longleftrightarrow> ep f = Some (Private k)" if "k \<noteq> i" for f k
      using that pR [of f] by auto
    show "hp_shape (hs_heap ?s) (entries ?s) ?q R" "distinct R"
      using hp_invD(1) [OF inv] by (simp_all add: hs_lists_def sweep_take_def hs_defs)
    show "hs_slot_ok ?s i" using hp_invD(9) [OF inv, of i] by (simp add: hs_slot_ok_def sweep_take_def hs_defs)
    show "hs_heap ?s b \<noteq> None \<and> guard (entries ?s) ?q b \<le> the (my_slot s j)" if "hp_ref (hs_pcs s j) = Some b" for j b
      using hp_invD(10) [OF inv, of j j] that by (simp add: hs_ref_ok_def sweep_take_def hs_defs)
  qed (use hp_invD(12) [OF inv, of i] pc in \<open>auto simp: sweep_take_def hs_defs hs_return_ok_def\<close>)
qed

lemma sweep_next_ok:
  assumes inv: "hp_inv S R C pl ep s" and pc: "hs_pcs s i = Sweep p res"
  shows "hp_step_ok (sweep_next i p res s)"
proof -
  have c: "linked (entries s) p (C i) None" using hp_invD(8) [OF inv, of i] pc by (simp add: hs_own_ok_def)
  show ?thesis
  proof (cases p)
    case None
    then show ?thesis using hs_return_step_ok [OF inv, of i res] pc c by (simp add: sweep_next_def linked_None)
  next
    case (Some e)
    then obtain n c' where n: "C i = e # c'" "entries s e = Some n" "linked (entries s) (node_next n) c' None"
      using c by (auto simp: linked_Some)
    have r: "sweep_next i p res s = Returns (hgo i (Scan_entry e (node_next n) res 0) s)"
      using Some n by (simp add: sweep_next_def)
    show ?thesis unfolding r by (rule hp_inv_move [OF inv]) (use pc n in simp_all)
  qed
qed

lemma scan_entry_ok:
  assumes inv: "hp_inv S R C pl ep s" and pc: "hs_pcs s i = Scan_entry e nxt res k"
  shows "hp_step_ok (scan_entry i e nxt res k s)"
proof -
  obtain c' where c: "C i = e # c'" "linked (entries s) nxt c' None" and d: "distinct (C i)"
    using hp_invD(8) [OF inv, of i] pc by (auto simp: hs_own_ok_def)
  obtain n a m where n: "entries s e = Some n" "node_data n = Some a" "hs_heap s a = Some m"
      and pa: "pl a = Some (Held e)" and pe: "ep e = Some (Private i)"
    using entry_allocated [OF inv, of e i] c by auto
  consider "k < max_hazard_pointers" "slot_pointer s k = Some a" | "k < max_hazard_pointers" "slot_pointer s k \<noteq> Some a"
    | "max_hazard_pointers \<le> k" by linarith
  then show ?thesis
  proof cases
    case 1
    then have "scan_entry i e nxt res k s = Returns (hgo i (Add_load e nxt res) s)" using n by (simp add: scan_entry_def outstanding_round_def)
    then show ?thesis using pc c by (auto intro!: hp_inv_move [OF inv])
  next
    case 2
    then have r: "scan_entry i e nxt res k s = Returns (hgo i (Scan_entry e nxt res (Suc k)) s)"
      using n by (simp add: scan_entry_def outstanding_round_def)
    show ?thesis unfolding r
    proof (rule hp_inv_move [OF inv])
      show "guard (entries s) (Scan_entry e nxt res (Suc k)) b \<le> the (my_slot s j)" if ref: "hp_ref (hs_pcs s j) = Some b" for j b
      proof (cases "b = a")
        case True
        then have "k \<le> the (my_slot s j)" using hp_invD(10) [OF inv, of j i] ref pc n by (simp add: hs_ref_ok_def)
        then show ?thesis using scan_guard [OF inv ref] True 2 n by simp
      qed (use n in simp)
    qed (use pc c in simp_all)
  next
    case 3
    let ?q = "Sweep nxt res :: 'a hp_pc"
    let ?s = "hgo i ?q (s\<lparr>hs_heap := (hs_heap s)(a := None), entries := (entries s)(e := None)\<rparr>)"
    have r: "scan_entry i e nxt res k s = Returns ?s" using 3 n by (simp add: scan_entry_def outstanding_round_def delete_entry_def hs_delete_def)
    have free: "hp_ref (hs_pcs s j) \<noteq> Some a" for j using scan_done [OF inv, of i a] pc 3 n by simp
    have new: "a \<notin> set S" "e \<notin> set R"
      using hp_invD(3) [OF inv, of a] hp_invD(6) [OF inv, of e] pa pe by (simp_all add: node_place_ok_def entry_place_ok_def)
    have frame: "hs_heap ?s b = hs_heap s b" if "b \<in> set S" for b using that new by (auto simp: hs_defs)
    have eframe: "entries ?s f = entries s f" if "f \<in> set R" for f using that new by (auto simp: hs_defs)
    have "linked (entries ?s) q c' r = linked (entries s) q c' r" for q r
      using d c by (intro linked_cong) (auto simp: hs_defs)
    then have sh: "hp_shape (hs_heap ?s) (entries ?s) ?q c'" using c by simp
    show ?thesis unfolding r
    proof (rule hp_step_okI)
      show "hp_inv S R (C(i := c')) (pl(a := None)) (ep(e := None)) ?s"
      proof (rule hp_inv_step [OF inv, where q = ?q])
        show "hs_lists S R ?s" by (rule hs_lists_frame [OF hp_invD(1) [OF inv] frame eframe]) (simp_all add: hs_defs)
        show "hs_values S ?s" by (rule hs_values_frame [OF hp_invD(2) [OF inv] frame]) (simp_all add: hs_defs)
        show "node_place_ok S (pl(a := None)) ?s b" for b
          using hp_invD(3) [OF inv, of b] new by (auto simp: node_place_ok_def hs_defs)
        show "b \<in> set (hp_own ?q) \<longleftrightarrow> (pl(a := None)) b = Some (Mine i)" for b
          using hp_invD(4) [OF inv, of i b] pc by (auto simp: node_mine_ok_def)
        show "held_ok (pl(a := None)) ?s f b" for f b
          using hp_invD(5) [OF inv, of f b] hp_invD(5) [OF inv, of e b] pa n by (auto simp: held_ok_def hs_defs)
        show "entry_place_ok R (ep(e := None)) ?s f" for f
          using hp_invD(6) [OF inv, of f] new by (auto simp: entry_place_ok_def hs_defs)
        show "f \<in> set c' \<longleftrightarrow> (ep(e := None)) f = Some (Private i)" for f
          using hp_invD(7) [OF inv, of i f] c(1) d by (auto simp: entry_mine_ok_def)
        show "hs_slot_ok ?s i" using hp_invD(9) [OF inv, of i] by (simp add: hs_slot_ok_def hs_defs)
        show "hs_heap ?s b \<noteq> None \<and> guard (entries ?s) ?q b \<le> the (my_slot s j)" if "hp_ref (hs_pcs s j) = Some b" for j b
          using hp_invD(10) [OF inv, of j j] that free [of j] by (auto simp: hs_ref_ok_def hs_defs)
        show "b \<in> set S \<and> hs_heap ?s b = hs_heap s b" if "b \<in> set S" for b using that frame by blast
      qed (use hp_invD(12) [OF inv, of i] pa pe pc d c(1) sh in \<open>auto simp: hs_defs hs_return_ok_def\<close>)
    qed
  qed
qed

lemma hp_advance_ok:
  assumes "hp_good s"
  shows "hp_step_ok (hp_advance i call fresh spurious s)"
proof -
  obtain S R C pl ep where inv: "hp_inv S R C pl ep s" using assms by (auto simp: hp_good_def)
  show ?thesis
  proof (cases "hs_pcs s i")
    case Outside
    then show ?thesis
      using hs_push_new_ok [OF inv Outside, of fresh] get_hazard_pointer_ok [OF inv Outside] hp_owner_clear_ok [OF inv Outside]
      by (cases call) (simp_all add: hp_advance_def hp_step_ok_def)
  next
    case (Retire a res)
    then show ?thesis
      using reclaim_later_ok [OF inv Retire, of fresh] by (simp add: hp_advance_def) (simp add: hp_step_ok_def)
  next
    case (Hp_store p)
    then show ?thesis using set_hazard_ok [OF inv, of i p "Hp_check p"] by (simp add: hp_advance_def hs_set_hp_def)
  next
    case (Hp_clear old)
    then show ?thesis using set_hazard_ok [OF inv, of i None "Pop_swap old"] by (simp add: hp_advance_def hs_clear_def)
  qed (use hs_push_load_ok [OF inv] hs_push_exchange_ok [OF inv] hp_owner_try_ok [OF inv] hs_pop_load_ok [OF inv]
      hs_check_ok [OF inv] hs_next_step_ok [OF inv] hs_exchange_ok [OF inv] hs_swap_ok [OF inv] hs_scan_own_ok [OF inv]
      add_exchange_ok [OF inv] sweep_take_ok [OF inv] sweep_next_ok [OF inv] scan_entry_ok [OF inv] add_load_ok [OF inv]
      hp_owner_release_ok [OF inv] in \<open>simp_all add: hp_advance_def\<close>)
qed

lemma hp_good_reachable: "hp_step\<^sup>*\<^sup>* hs_new s \<Longrightarrow> hp_good s"
proof (induction rule: rtranclp_induct)
  case base
  show ?case unfolding hp_good_def using hp_inv_new by blast
next
  case (step s s')
  from step.hyps(2) obtain i call fresh spurious where "hp_advance i call fresh spurious s = Returns s'" by (rule hp_stepE)
  then show ?case using hp_advance_ok [OF step.IH, of i call fresh spurious] by (simp add: hp_step_ok_def)
qed

section \<open>Schedules\<close>

fun hp_run :: "(nat \<times> 'a hp_call \<times> nat) list \<Rightarrow> 'a hp_stack \<Rightarrow> 'a hp_stack outcome" where
  "hp_run [] s = Returns s"
| "hp_run ((i, call, fresh) # sched) s = and_then (hp_advance i call fresh False s) (hp_run sched)"

lemma hp_run_reachable: "hp_run sched s = Returns s' \<Longrightarrow> hp_step\<^sup>*\<^sup>* s s'"
proof (induction sched s rule: hp_run.induct)
  case (2 i call fresh sched s)
  then obtain s1 where s1: "hp_advance i call fresh False s = Returns s1" "hp_run sched s1 = Returns s'"
    by (cases "hp_advance i call fresh False s") auto
  then have "hp_step s s1" "hp_step\<^sup>*\<^sup>* s1 s'" using 2 by (auto intro: hp_step.hp_step)
  then show ?case by (rule converse_rtranclp_into_rtranclp)
qed simp

lemmas hp_step_defs = hp_advance_def hs_push_new_def hs_push_load_def hs_push_exchange_def get_hazard_pointer_def
  hp_owner_try_def hs_pop_load_def hs_set_hp_def set_hazard_def hs_check_def hs_next_def hs_exchange_def hs_clear_def
  hs_return_def hs_swap_def hs_defs hs_new_def max_hazard_pointers_def

section \<open>Properties\<close>

text \<open>
  C29. Under every interleaving of any number of threads no step of the stack with hazard pointers is
  undefined: no thread follows a pointer to a deleted node or entry. The nodes from \<open>_head\<close> hold
  what the pushes and pops so far, taken as single steps, make of an empty stack; every call of
  \<open>pop\<close> that returns returns what its step took; and when no thread is inside, every allocated node
  is on the stack or held by an entry of \<open>nodes_to_reclaim\<close>.
\<close>

theorem hazard_stack_safe:
  assumes "hp_step\<^sup>*\<^sup>* hs_new s"
  shows "hp_advance i call fresh spurious s \<noteq> Undefined
    \<and> (\<exists>ns es vs. linked (hs_heap s) (hs_head s) ns None \<and> linked (entries s) (nodes_to_reclaim s) es None
        \<and> List.map (\<lambda>a. Option.bind (hs_heap s a) node_data) ns = List.map Some vs
        \<and> replay (hs_events s) [] = Some vs
        \<and> ((\<forall>k. hs_pcs s k = Outside) \<longrightarrow>
            (\<forall>a. hs_heap s a \<noteq> None \<longleftrightarrow> a \<in> set ns \<or> (\<exists>e\<in>set es. Option.bind (entries s e) node_data = Some a))))
    \<and> (\<exists>on_its_way. length on_its_way \<le> 1 \<and> pops_of i (hs_events s) = results_of i (hs_results s) @ on_its_way)"
proof (intro conjI)
  have good: "hp_good s" by (rule hp_good_reachable [OF assms])
  show "hp_advance i call fresh spurious s \<noteq> Undefined"
    using hp_advance_ok [OF good, of i call fresh spurious] by (auto simp: hp_step_ok_def)
  obtain S R C pl ep where inv: "hp_inv S R C pl ep s" using good by (auto simp: hp_good_def)
  obtain vs where vs: "List.map (\<lambda>a. Option.bind (hs_heap s a) node_data) S = List.map Some vs" "replay (hs_events s) [] = Some vs"
    using hp_invD(2) [OF inv] by (auto simp: hs_values_def)
  have "hs_heap s a \<noteq> None \<longleftrightarrow> a \<in> set S \<or> (\<exists>e\<in>set R. Option.bind (entries s e) node_data = Some a)"
    if out: "\<forall>k. hs_pcs s k = Outside" for a
  proof -
    have no: "pl a \<noteq> Some (Mine k)" "ep e \<noteq> Some (Private k)" for k e
      using hp_invD(4) [OF inv, of k a] hp_invD(7) [OF inv, of k e] hp_invD(8) [OF inv, of k] out
      by (auto simp: node_mine_ok_def entry_mine_ok_def hs_own_ok_def)
    have R: "e \<in> set R \<longleftrightarrow> entries s e \<noteq> None" for e
      using hp_invD(6) [OF inv, of e] no(2) [of e] by (cases "ep e"; cases "the (ep e)") (auto simp: entry_place_ok_def)
    have "pl a = Some (Held e) \<longleftrightarrow> Option.bind (entries s e) node_data = Some a" for e
      using hp_invD(5) [OF inv, of e a] by (simp add: held_ok_def)
    moreover have "a \<in> set S \<longleftrightarrow> pl a = Some On_stack" "hs_heap s a = None \<longleftrightarrow> pl a = None"
      using hp_invD(3) [OF inv, of a] by (simp_all add: node_place_ok_def)
    moreover have "pl a = None \<or> pl a = Some On_stack \<or> (\<exists>e. pl a = Some (Held e))"
      using no(1) by (cases "pl a"; cases "the (pl a)") auto
    ultimately show ?thesis using R by (cases "pl a") (auto split: Option.bind_splits)
  qed
  then show "\<exists>ns es vs. linked (hs_heap s) (hs_head s) ns None \<and> linked (entries s) (nodes_to_reclaim s) es None
        \<and> List.map (\<lambda>a. Option.bind (hs_heap s a) node_data) ns = List.map Some vs
        \<and> replay (hs_events s) [] = Some vs
        \<and> ((\<forall>k. hs_pcs s k = Outside) \<longrightarrow>
            (\<forall>a. hs_heap s a \<noteq> None \<longleftrightarrow> a \<in> set ns \<or> (\<exists>e\<in>set es. Option.bind (entries s e) node_data = Some a)))"
    using hp_invD(1) [OF inv] vs unfolding hs_lists_def by blast
  have "length (hp_in_flight (hs_heap s) (hs_pcs s i)) \<le> 1" by (cases "hs_pcs s i") simp_all
  then show "\<exists>on_its_way. length on_its_way \<le> 1 \<and> pops_of i (hs_events s) = results_of i (hs_results s) @ on_its_way"
    using hp_invD(12) [OF inv, of i] unfolding hs_return_ok_def by blast
qed

theorem hazard_stack_safe_witness:
  "\<exists>s :: nat hp_stack. hs_pcs s 1 = Pop_cas 3 None \<and> slot_pointer s 0 = Some 3
    \<and> hp_advance 1 Hp_pop 0 False s \<noteq> Undefined
    \<and> (\<exists>ns es vs. linked (hs_heap s) (hs_head s) ns None \<and> linked (entries s) (nodes_to_reclaim s) es None
        \<and> List.map (\<lambda>a. Option.bind (hs_heap s a) node_data) ns = List.map Some vs
        \<and> replay (hs_events s) [] = Some vs
        \<and> ((\<forall>k. hs_pcs s k = Outside) \<longrightarrow>
            (\<forall>a. hs_heap s a \<noteq> None \<longleftrightarrow> a \<in> set ns \<or> (\<exists>e\<in>set es. Option.bind (entries s e) node_data = Some a))))
    \<and> (\<exists>on_its_way. length on_its_way \<le> 1 \<and> pops_of 1 (hs_events s) = results_of 1 (hs_results s) @ on_its_way)"
proof -
  obtain s :: "nat hp_stack" where s: "hp_run (replicate 3 (0, Hp_push 7, 3) @ replicate 6 (1, Hp_pop, 0)) hs_new = Returns s"
      "hs_pcs s 1 = Pop_cas 3 None" "slot_pointer s 0 = Some 3"
    by (simp add: eval_nat_numeral hp_step_defs)
  show ?thesis
    by (rule exI [of _ s], rule conjI [OF s(2) conjI [OF s(3) hazard_stack_safe [OF hp_run_reachable [OF s(1)]]]])
qed

end
