(* ===== verification/Counted_Stack.thy ===== *)
theory Counted_Stack
  imports Lock_Free_Stack
begin

text \<open>
  \<open>cpp-concurrency-in-action/7.lock_free/lock_free_stack_with_rc.hpp\<close> under any interleaving of its
  threads: a stack of linked nodes in which every pointer to a node carries a count of the threads
  that took it (\<open>external_count\<close>) and every node a count of those that let go (\<open>internal_count\<close>). A step
  is one access of one thread to an atomic variable, together with what no other thread can reach,
  or one access to a node another thread may reach. The counts are \<open>int\<close>, with 32 bits; the model
  lets them wrap, and the increment from the greatest \<open>int\<close>, which is undefined, is the subject of
  \<open>count_overflows\<close> in \<open>Counted_Safety\<close>. The exchange compares both members of \<open>counted_node_ptr\<close> and no padding. Events and results are those of
  \<open>Lock_Free_Stack\<close>.
\<close>

section \<open>State\<close>

record counted_node_ptr =
  external_count :: "32 word"
  ptr :: "nat option"

record 'a counted_node =
  counted_data :: "'a option"
  internal_count :: "32 word"
  counted_next :: counted_node_ptr

text \<open>\<open>old\<close> is \<open>old_head\<close>, \<open>res\<close> the value to return. \<open>Increase\<close> is the loop of \<open>increase_head_count\<close>,
  \<open>Let_go\<close> the \<open>fetch_sub\<close> after an exchange that failed.\<close>

datatype 'a rc_pc =
    Outside
  | Push_start 'a nat
  | Push_cas 'a nat
  | Pop_start
  | Increase counted_node_ptr
  | Pop_next counted_node_ptr
  | Pop_cas counted_node_ptr counted_node_ptr
  | Pop_swap counted_node_ptr
  | Pop_add counted_node_ptr "'a option"
  | Pop_delete nat "'a option"
  | Let_go nat counted_node_ptr
  | Drop nat counted_node_ptr

record 'a rc_stack =
  rc_heap :: "nat \<Rightarrow> 'a counted_node option"
  rc_head :: counted_node_ptr
  rc_pcs :: "nat \<Rightarrow> 'a rc_pc"
  rc_events :: "(nat \<times> 'a stack_event) list"
  rc_results :: "(nat \<times> 'a option) list"

text \<open>The constructor leaves \<open>_head\<close> to the default constructor of \<open>std::atomic\<close>; the model takes the
  pointer as null and the count as any number.\<close>

definition rc_new :: "32 word \<Rightarrow> 'a rc_stack" where
  "rc_new garbage = \<lparr>rc_heap = Map.empty, rc_head = \<lparr>external_count = garbage, ptr = None\<rparr>,
     rc_pcs = (\<lambda>_. Outside), rc_events = [], rc_results = []\<rparr>"

definition rgo :: "nat \<Rightarrow> 'a rc_pc \<Rightarrow> 'a rc_stack \<Rightarrow> 'a rc_stack" where
  "rgo i pc s = s\<lparr>rc_pcs := (rc_pcs s)(i := pc)\<rparr>"

definition rstore :: "nat \<Rightarrow> 'a counted_node \<Rightarrow> 'a rc_stack \<Rightarrow> 'a rc_stack" where
  "rstore a m s = s\<lparr>rc_heap := (rc_heap s)(a \<mapsto> m)\<rparr>"

definition rc_deref :: "nat option \<Rightarrow> 'a rc_stack \<Rightarrow> 'a counted_node outcome" where
  "rc_deref p s =
     (case p of None \<Rightarrow> Undefined | Some a \<Rightarrow> (case rc_heap s a of None \<Rightarrow> Undefined | Some m \<Rightarrow> Returns m))"

definition rc_delete :: "nat \<Rightarrow> 'a rc_stack \<Rightarrow> 'a rc_stack outcome" where
  "rc_delete a s = and_then (rc_deref (Some a) s) (\<lambda>_. Returns (s\<lparr>rc_heap := (rc_heap s)(a := None)\<rparr>))"

definition rc_return :: "nat \<Rightarrow> 'a option \<Rightarrow> 'a rc_stack \<Rightarrow> 'a rc_stack" where
  "rc_return i res s = rgo i Outside (s\<lparr>rc_results := rc_results s @ [(i, res)]\<rparr>)"

section \<open>\<open>push\<close>\<close>

text \<open>The members of \<open>next\<close> are not set before the load.\<close>

definition rc_push_new :: "nat \<Rightarrow> 'a \<Rightarrow> nat \<Rightarrow> counted_node_ptr \<Rightarrow> 'a rc_stack \<Rightarrow> 'a rc_stack" where
  "rc_push_new i v a garbage s =
     rgo i (Push_start v a) (rstore a \<lparr>counted_data = Some v, internal_count = 0, counted_next = garbage\<rparr> s)"

definition rc_push_load :: "nat \<Rightarrow> 'a \<Rightarrow> nat \<Rightarrow> 'a rc_stack \<Rightarrow> 'a rc_stack outcome" where
  "rc_push_load i v a s =
     and_then (rc_deref (Some a) s) (\<lambda>m. Returns (rgo i (Push_cas v a) (rstore a (m\<lparr>counted_next := rc_head s\<rparr>) s)))"

text \<open>\<open>compare_exchange_weak\<close> may fail although the values agree.\<close>

definition rc_push_exchange :: "nat \<Rightarrow> 'a \<Rightarrow> nat \<Rightarrow> bool \<Rightarrow> 'a rc_stack \<Rightarrow> 'a rc_stack outcome" where
  "rc_push_exchange i v a spurious s =
     and_then (rc_deref (Some a) s) (\<lambda>m.
       Returns
         (if rc_head s = counted_next m \<and> \<not> spurious
          then rgo i Outside (s\<lparr>rc_head := \<lparr>external_count = 1, ptr = Some a\<rparr>, rc_events := rc_events s @ [(i, Pushed v)]\<rparr>)
          else rgo i (Push_cas v a) (rstore a (m\<lparr>counted_next := rc_head s\<rparr>) s)))"

section \<open>\<open>pop\<close>\<close>

definition rc_pop_load :: "nat \<Rightarrow> 'a rc_stack \<Rightarrow> 'a rc_stack" where
  "rc_pop_load i s = rgo i (Increase (rc_head s)) s"

text \<open>A round of \<open>increase_head_count\<close>; when it succeeds, the test of the pointer follows.\<close>

definition increase_head_count :: "nat \<Rightarrow> counted_node_ptr \<Rightarrow> 'a rc_stack \<Rightarrow> 'a rc_stack" where
  "increase_head_count i old_counter s =
     (let new_counter = old_counter\<lparr>external_count := external_count old_counter + 1\<rparr>
      in if rc_head s = old_counter
         then if ptr new_counter = None
              then rc_return i None (s\<lparr>rc_head := new_counter, rc_events := rc_events s @ [(i, Popped None)]\<rparr>)
              else rgo i (Pop_next new_counter) (s\<lparr>rc_head := new_counter\<rparr>)
         else rgo i (Increase (rc_head s)) s)"

text \<open>\<open>ptr->next\<close>, an argument of the exchange.\<close>

definition rc_pop_next :: "nat \<Rightarrow> counted_node_ptr \<Rightarrow> 'a rc_stack \<Rightarrow> 'a rc_stack outcome" where
  "rc_pop_next i old s = and_then (rc_deref (ptr old) s) (\<lambda>m. Returns (rgo i (Pop_cas old (counted_next m)) s))"

definition rc_pop_exchange :: "nat \<Rightarrow> counted_node_ptr \<Rightarrow> counted_node_ptr \<Rightarrow> 'a rc_stack \<Rightarrow> 'a rc_stack" where
  "rc_pop_exchange i old nxt s =
     (if rc_head s = old
      then rgo i (Pop_swap old)
        (s\<lparr>rc_head := nxt,
           rc_events := rc_events s @ [(i, Popped (Option.bind (ptr old) (\<lambda>a. Option.bind (rc_heap s a) counted_data)))]\<rparr>)
      else rgo i (Let_go (the (ptr old)) (rc_head s)) s)"

definition rc_pop_swap :: "nat \<Rightarrow> counted_node_ptr \<Rightarrow> 'a rc_stack \<Rightarrow> 'a rc_stack outcome" where
  "rc_pop_swap i old s =
     and_then (rc_deref (ptr old) s) (\<lambda>m.
       Returns (rgo i (Pop_add old (counted_data m)) (rstore (the (ptr old)) (m\<lparr>counted_data := None\<rparr>) s)))"

text \<open>\<open>fetch_add\<close> of the threads that took the pointer, less this one and the first.\<close>

definition rc_pop_add :: "nat \<Rightarrow> counted_node_ptr \<Rightarrow> 'a option \<Rightarrow> 'a rc_stack \<Rightarrow> 'a rc_stack outcome" where
  "rc_pop_add i old res s =
     and_then (rc_deref (ptr old) s) (\<lambda>m.
       let count_increase = external_count old - 2;
           s = rstore (the (ptr old)) (m\<lparr>internal_count := internal_count m + count_increase\<rparr>) s
       in Returns (if internal_count m = - count_increase then rgo i (Pop_delete (the (ptr old)) res) s
                   else rc_return i res s))"

definition rc_pop_delete :: "nat \<Rightarrow> nat \<Rightarrow> 'a option \<Rightarrow> 'a rc_stack \<Rightarrow> 'a rc_stack outcome" where
  "rc_pop_delete i a res s = and_then (rc_delete a s) (\<lambda>s. Returns (rc_return i res s))"

text \<open>The branch of a failed exchange; the loop goes on with the head that the exchange found.\<close>

definition rc_let_go :: "nat \<Rightarrow> nat \<Rightarrow> counted_node_ptr \<Rightarrow> 'a rc_stack \<Rightarrow> 'a rc_stack outcome" where
  "rc_let_go i a old_head s =
     and_then (rc_deref (Some a) s) (\<lambda>m.
       let s = rstore a (m\<lparr>internal_count := internal_count m - 1\<rparr>) s
       in Returns (if internal_count m = 1 then rgo i (Drop a old_head) s else rgo i (Increase old_head) s))"

definition rc_drop :: "nat \<Rightarrow> nat \<Rightarrow> counted_node_ptr \<Rightarrow> 'a rc_stack \<Rightarrow> 'a rc_stack outcome" where
  "rc_drop i a old_head s = and_then (rc_delete a s) (\<lambda>s. Returns (rgo i (Increase old_head) s))"

section \<open>Threads\<close>

datatype 'a rc_call = Call_push 'a nat counted_node_ptr | Call_pop

definition rc_advance :: "nat \<Rightarrow> 'a rc_call \<Rightarrow> bool \<Rightarrow> 'a rc_stack \<Rightarrow> 'a rc_stack outcome" where
  "rc_advance i call spurious s =
     (case rc_pcs s i of
        Outside \<Rightarrow> (case call of
            Call_push v a garbage \<Rightarrow> if rc_heap s a = None then Returns (rc_push_new i v a garbage s) else Blocks
          | Call_pop \<Rightarrow> Returns (rgo i Pop_start s))
      | Push_start v a \<Rightarrow> rc_push_load i v a s
      | Push_cas v a \<Rightarrow> rc_push_exchange i v a spurious s
      | Pop_start \<Rightarrow> Returns (rc_pop_load i s)
      | Increase old \<Rightarrow> Returns (increase_head_count i old s)
      | Pop_next old \<Rightarrow> rc_pop_next i old s
      | Pop_cas old nxt \<Rightarrow> Returns (rc_pop_exchange i old nxt s)
      | Pop_swap old \<Rightarrow> rc_pop_swap i old s
      | Pop_add old res \<Rightarrow> rc_pop_add i old res s
      | Pop_delete a res \<Rightarrow> rc_pop_delete i a res s
      | Let_go a old \<Rightarrow> rc_let_go i a old s
      | Drop a old \<Rightarrow> rc_drop i a old s)"

inductive rc_step :: "nat \<Rightarrow> 'a rc_stack \<Rightarrow> 'a rc_stack \<Rightarrow> bool" for n where
  rc_step: "i < n \<Longrightarrow> rc_advance i call spurious s = Returns s' \<Longrightarrow> rc_step n s s'"

inductive_cases rc_stepE: "rc_step n s s'"

end
