(* ===== verification/Thread_Pool.thy ===== *)
theory Thread_Pool
  imports "HOL-Library.Multiset"
begin

text \<open>
  The thread pools of \<open>cpp-concurrency-in-action/9.thread_pool/thread_pool.hpp\<close>. The tasks are a
  parameter; a task is a value here, and running it is the business of the program that uses the pool
  (\<open>Pool_Sort\<close>). The queue is the one whose operations \<open>Queue_Safety\<close> shows to take effect in single
  steps.
\<close>

section \<open>\<open>thread_pool\<close>\<close>

text \<open>The flag, the shared queue, and the local queue of each thread that has one.\<close>

record 'task pool =
  pool_done :: bool
  pool_queue :: "'task list"
  local_queue :: "nat \<Rightarrow> 'task list option"

definition pool_new :: "'task pool" where
  "pool_new = \<lparr>pool_done = False, pool_queue = [], local_queue = (\<lambda>_. None)\<rparr>"

text \<open>The beginning of \<open>worker_thread\<close> of thread \<open>i\<close>.\<close>

definition worker_start :: "bool \<Rightarrow> nat \<Rightarrow> 'task pool \<Rightarrow> 'task pool" where
  "worker_start use_local i p = (if use_local then p\<lparr>local_queue := (local_queue p)(i \<mapsto> [])\<rparr> else p)"

text \<open>The constructor: \<open>thread_count\<close> workers, numbered from 1; thread 0 is the one that made the pool.\<close>

definition pool_start :: "bool \<Rightarrow> nat \<Rightarrow> 'task pool" where
  "pool_start use_local thread_count = fold (worker_start use_local) [1..<Suc thread_count] pool_new"

definition pool_destroy :: "'task pool \<Rightarrow> 'task pool" where
  "pool_destroy p = p\<lparr>pool_done := True\<rparr>"

definition submit :: "nat \<Rightarrow> 'task \<Rightarrow> 'task pool \<Rightarrow> 'task pool" where
  "submit i task p =
     (case local_queue p i of
        Some q \<Rightarrow> p\<lparr>local_queue := (local_queue p)(i \<mapsto> q @ [task])\<rparr>
      | None \<Rightarrow> p\<lparr>pool_queue := pool_queue p @ [task]\<rparr>)"

text \<open>\<open>run_pending_task\<close>: the task that it runs, or none when it yields.\<close>

definition run_pending_task :: "nat \<Rightarrow> 'task pool \<Rightarrow> ('task \<times> 'task pool) option" where
  "run_pending_task i p =
     (case local_queue p i of
        Some (task # q) \<Rightarrow> Some (task, p\<lparr>local_queue := (local_queue p)(i \<mapsto> q)\<rparr>)
      | _ \<Rightarrow>
        (case pool_queue p of
           task # q \<Rightarrow> Some (task, p\<lparr>pool_queue := q\<rparr>)
         | [] \<Rightarrow> None))"

text \<open>
  Where a worker is: before it makes its local queue, before the test of the flag, past the test and
  before \<open>run_pending_task\<close>, in a task, or out of the loop. The flag may be set between the test and the
  call.
\<close>

datatype worker_pc = Starting | Testing | Taking | Running | Gone

text \<open>A step of \<open>worker_thread\<close>: where it goes, the task that it takes, and the pool.\<close>

fun worker_step :: "bool \<Rightarrow> nat \<Rightarrow> worker_pc \<Rightarrow> 'task pool \<Rightarrow> (worker_pc \<times> 'task option \<times> 'task pool) option" where
  "worker_step use_local i Starting p = Some (Testing, None, worker_start use_local i p)"
| "worker_step use_local i Testing p = Some (if pool_done p then Gone else Taking, None, p)"
| "worker_step use_local i Taking p =
     (case run_pending_task i p of
        Some (task, p') \<Rightarrow> Some (Running, Some task, p')
      | None \<Rightarrow> Some (Testing, None, p))"
| "worker_step use_local i Running p = Some (Testing, None, p)"
| "worker_step use_local i Gone p = None"

section \<open>The tasks in a pool\<close>

text \<open>A sum over threads when one of them changes.\<close>

lemma sum_fun_upd:
  "i < n \<Longrightarrow> (\<Sum>j<n. F ((f(i := v)) j)) + F (f i) = (\<Sum>j<n. F (f j)) + (F v :: 'b :: comm_monoid_add)" for n :: nat
proof (induction n)
  case (Suc n)
  show ?case
  proof (cases "i = n")
    case True
    then have "(\<Sum>j<n. F ((f(i := v)) j)) = (\<Sum>j<n. F (f j))" by (intro sum.cong) auto
    then show ?thesis using True by (simp add: ac_simps)
  next
    case False
    then have "(\<Sum>j<n. F ((f(i := v)) j)) + F (f i) = (\<Sum>j<n. F (f j)) + F v" using Suc by simp
    then have "(\<Sum>j<n. F ((f(i := v)) j)) + F (f i) + F (f n) = (\<Sum>j<n. F (f j)) + F v + F (f n)" by simp
    then show ?thesis using False by (simp add: ac_simps)
  qed
qed simp

definition local_tasks :: "'task list option \<Rightarrow> 'task multiset" where
  "local_tasks q = (case q of None \<Rightarrow> {#} | Some q \<Rightarrow> mset q)"

definition pending :: "nat \<Rightarrow> 'task pool \<Rightarrow> 'task multiset" where
  "pending n p = mset (pool_queue p) + (\<Sum>i<n. local_tasks (local_queue p i))"

lemma pending_submit:
  assumes "i < n"
  shows "pending n (submit i task p) = add_mset task (pending n p)"
proof (cases "local_queue p i")
  case (Some q)
  have "(\<Sum>j<n. local_tasks (((local_queue p)(i := Some (q @ [task]))) j)) + mset q
      = add_mset task (\<Sum>j<n. local_tasks (local_queue p j)) + mset q"
    using sum_fun_upd [OF assms, of local_tasks "local_queue p" "Some (q @ [task])"] Some by (simp add: local_tasks_def)
  then show ?thesis using Some by (simp add: pending_def submit_def)
qed (simp add: pending_def submit_def)

lemma run_pending_task_cases:
  assumes "run_pending_task i p = Some (task, p')"
  obtains q where "local_queue p i = Some (task # q)" "p' = p\<lparr>local_queue := (local_queue p)(i \<mapsto> q)\<rparr>"
  | q where "pool_queue p = task # q" "p' = p\<lparr>pool_queue := q\<rparr>" "local_queue p i = None \<or> local_queue p i = Some []"
  using assms by (auto simp: run_pending_task_def split: option.splits list.splits)

lemma pending_run:
  assumes "i < n" "run_pending_task i p = Some (task, p')"
  shows "pending n p = add_mset task (pending n p')"
  using assms(2)
proof (cases rule: run_pending_task_cases)
  case (1 q)
  have "(\<Sum>j<n. local_tasks (((local_queue p)(i := Some q)) j)) + mset (task # q)
      = (\<Sum>j<n. local_tasks (local_queue p j)) + mset q"
    using sum_fun_upd [OF assms(1), of local_tasks "local_queue p" "Some q"] 1 by (simp add: local_tasks_def)
  then show ?thesis using 1 by (simp add: pending_def)
qed (simp add: pending_def)

lemma run_pending_none: "run_pending_task i p = None \<longleftrightarrow> pool_queue p = [] \<and> local_tasks (local_queue p i) = {#}"
  by (auto simp: run_pending_task_def local_tasks_def split: option.splits list.splits)

lemma pending_empty:
  assumes "\<And>i. i < n \<Longrightarrow> run_pending_task i p = None" "0 < n"
  shows "pending n p = {#}"
  using assms by (simp add: pending_def run_pending_none)

lemma pending_start: "pending n (pool_start use_local m) = {#}"
proof -
  have "pool_queue (fold (worker_start use_local) is p) = pool_queue p
      \<and> ((\<forall>i. local_tasks (local_queue p i) = {#}) \<longrightarrow> (\<forall>i. local_tasks (local_queue (fold (worker_start use_local) is p) i) = {#}))"
    for "is" and p :: "'a pool"
    by (induction "is" arbitrary: p) (auto simp: worker_start_def local_tasks_def)
  from this [of "[1..<Suc m]" pool_new] show ?thesis
    by (simp add: pending_def pool_start_def pool_new_def local_tasks_def)
qed

section \<open>\<open>thread_pool_simple\<close>\<close>

text \<open>The pool without futures and local queues.\<close>

record 'task simple_pool =
  simple_done :: bool
  simple_tasks :: "'task list"

definition simple_pool_new :: "'task simple_pool" where
  "simple_pool_new = \<lparr>simple_done = False, simple_tasks = []\<rparr>"

definition simple_destroy :: "'task simple_pool \<Rightarrow> 'task simple_pool" where
  "simple_destroy p = p\<lparr>simple_done := True\<rparr>"

definition simple_submit :: "'task \<Rightarrow> 'task simple_pool \<Rightarrow> 'task simple_pool" where
  "simple_submit f p = p\<lparr>simple_tasks := simple_tasks p @ [f]\<rparr>"

text \<open>A step of \<open>worker_thread\<close>.\<close>

fun simple_worker_step :: "worker_pc \<Rightarrow> 'task simple_pool \<Rightarrow> (worker_pc \<times> 'task option \<times> 'task simple_pool) option" where
  "simple_worker_step Starting p = Some (Testing, None, p)"
| "simple_worker_step Testing p = Some (if simple_done p then Gone else Taking, None, p)"
| "simple_worker_step Taking p =
     (case simple_tasks p of
        task # q \<Rightarrow> Some (Running, Some task, p\<lparr>simple_tasks := q\<rparr>)
      | [] \<Rightarrow> Some (Testing, None, p))"
| "simple_worker_step Running p = Some (Testing, None, p)"
| "simple_worker_step Gone p = None"

text \<open>It is \<open>thread_pool\<close> seen through the shared queue, when there are no local queues.\<close>

definition as_simple :: "'task pool \<Rightarrow> 'task simple_pool" where
  "as_simple p = \<lparr>simple_done = pool_done p, simple_tasks = pool_queue p\<rparr>"

lemma simple_pool_refines:
  assumes "local_queue p = (\<lambda>_. None)"
  shows "as_simple (submit i task p) = simple_submit task (as_simple p) \<and> local_queue (submit i task p) = (\<lambda>_. None)"
    "map_option (\<lambda>(at, taken, p'). (at, taken, as_simple p')) (worker_step False i at p) = simple_worker_step at (as_simple p)"
    "worker_step False i at p = Some (at', taken, p') \<Longrightarrow> local_queue p' = (\<lambda>_. None)"
  using assms
  by (cases at; auto simp: as_simple_def submit_def simple_submit_def worker_start_def run_pending_task_def
      split: list.splits)+

section \<open>Programs that use a pool\<close>

text \<open>
  The pool, where each worker is, the tasks that were taken, in order, and how many tasks the loop of each
  worker took. The workers are numbered from 1; other threads, such as the one that made the pool, use it
  as well.
\<close>

record 'task pool_system =
  the_pool :: "'task pool"
  worker_at :: "nat \<Rightarrow> worker_pc"
  executed :: "'task list"
  loop_took :: "nat \<Rightarrow> nat"

definition pool_system_new :: "'task pool_system" where
  "pool_system_new = \<lparr>the_pool = pool_new, worker_at = (\<lambda>_. Starting), executed = [], loop_took = (\<lambda>_. 0)\<rparr>"

text \<open>
  What the threads do, one step each: worker \<open>i\<close> makes a step of its loop (also the end of its task);
  thread \<open>i\<close>, when it is not a worker or runs a task, submits a task or runs a pending one; the pool is
  being destroyed. A step that the thread cannot make yields none.
\<close>

datatype 'task pool_op = Works nat | Submits nat 'task | Runs_pending nat | Destroys

definition worker_act :: "bool \<Rightarrow> nat \<Rightarrow> 'task pool_system \<Rightarrow> 'task pool_system option" where
  "worker_act use_local i s =
     (case worker_step use_local i (worker_at s i) (the_pool s) of
        Some (at, Some task, p) \<Rightarrow>
          Some (s\<lparr>the_pool := p, worker_at := (worker_at s)(i := at), executed := executed s @ [task],
            loop_took := (loop_took s)(i := Suc (loop_took s i))\<rparr>)
      | Some (at, None, p) \<Rightarrow> Some (s\<lparr>the_pool := p, worker_at := (worker_at s)(i := at)\<rparr>)
      | None \<Rightarrow> None)"

definition may_call :: "nat \<Rightarrow> nat \<Rightarrow> 'task pool_system \<Rightarrow> bool" where
  "may_call n i s \<longleftrightarrow> \<not> (1 \<le> i \<and> i \<le> n) \<or> worker_at s i = Running"

fun pool_act :: "bool \<Rightarrow> nat \<Rightarrow> 'task pool_op \<Rightarrow> 'task pool_system \<Rightarrow> 'task pool_system option" where
  "pool_act use_local n (Works i) s = (if 1 \<le> i \<and> i \<le> n then worker_act use_local i s else None)"
| "pool_act use_local n (Submits i task) s =
     (if may_call n i s then Some (s\<lparr>the_pool := submit i task (the_pool s)\<rparr>) else None)"
| "pool_act use_local n (Runs_pending i) s =
     (if may_call n i s
      then case run_pending_task i (the_pool s) of
          Some (task, p) \<Rightarrow> Some (s\<lparr>the_pool := p, executed := executed s @ [task]\<rparr>)
        | None \<Rightarrow> Some s
      else None)"
| "pool_act use_local n Destroys s = Some (s\<lparr>the_pool := pool_destroy (the_pool s)\<rparr>)"

fun pool_run :: "bool \<Rightarrow> nat \<Rightarrow> 'task pool_op list \<Rightarrow> 'task pool_system \<Rightarrow> 'task pool_system option" where
  "pool_run use_local n [] s = Some s"
| "pool_run use_local n (op # ops) s = Option.bind (pool_act use_local n op s) (pool_run use_local n ops)"

fun submitted :: "'task pool_op list \<Rightarrow> 'task list" where
  "submitted [] = []"
| "submitted (Submits i task # ops) = task # submitted ops"
| "submitted (_ # ops) = submitted ops"

text \<open>Only workers that have started have local queues.\<close>

definition local_ok :: "nat \<Rightarrow> 'task pool_system \<Rightarrow> bool" where
  "local_ok n s \<longleftrightarrow> (\<forall>i. \<not> (1 \<le> i \<and> i \<le> n \<and> worker_at s i \<noteq> Starting) \<longrightarrow> local_queue (the_pool s) i = None)"

lemma pending_destroy: "pending n (pool_destroy p) = pending n p"
  by (simp add: pending_def pool_destroy_def)

lemma pending_worker_start:
  assumes "local_queue p i = None" "i < n"
  shows "pending n (worker_start use_local i p) = pending n p"
  using sum_fun_upd [OF assms(2), of local_tasks "local_queue p" "Some []"] assms(1)
  by (simp add: pending_def worker_start_def local_tasks_def)

lemma pending_submit_any:
  assumes "i < n \<or> local_queue p i = None"
  shows "pending n (submit i task p) = add_mset task (pending n p)"
  using assms pending_submit [of i n task p] by (auto simp: pending_def submit_def)

lemma pending_run_any:
  assumes "i < n \<or> local_queue p i = None" "run_pending_task i p = Some (task, p')"
  shows "pending n p = add_mset task (pending n p')"
  using assms pending_run [of i n p task p'] by (auto simp: pending_def run_pending_task_def split: list.splits)

lemma submit_kept [simp]:
  "local_queue (submit i task p) j = None \<longleftrightarrow> local_queue p j = None" "pool_done (submit i task p) = pool_done p"
  by (auto simp: submit_def split: option.splits)

lemma run_pending_kept:
  assumes "run_pending_task i p = Some (t, p')"
  shows "local_queue p' j = None \<longleftrightarrow> local_queue p j = None" "pool_done p' = pool_done p"
  using assms by (cases rule: run_pending_task_cases; auto)+

text \<open>Each step keeps the tasks together.\<close>

definition accounted :: "nat \<Rightarrow> 'task pool_system \<Rightarrow> 'task multiset" where
  "accounted n s = mset (executed s) + pending (Suc n) (the_pool s)"

lemma worker_act_cases:
  assumes "worker_act use_local i s = Some s'"
  obtains (start) "worker_at s i = Starting"
      "s' = s\<lparr>the_pool := worker_start use_local i (the_pool s), worker_at := (worker_at s)(i := Testing)\<rparr>"
  | (test) "worker_at s i = Testing" "s' = s\<lparr>worker_at := (worker_at s)(i := if pool_done (the_pool s) then Gone else Taking)\<rparr>"
  | (took) task p where "worker_at s i = Taking" "run_pending_task i (the_pool s) = Some (task, p)"
      "s' = s\<lparr>the_pool := p, worker_at := (worker_at s)(i := Running), executed := executed s @ [task],
          loop_took := (loop_took s)(i := Suc (loop_took s i))\<rparr>"
  | (idle) "worker_at s i = Taking \<or> worker_at s i = Running" "s' = s\<lparr>worker_at := (worker_at s)(i := Testing)\<rparr>"
  using assms by (cases "worker_at s i") (auto simp: worker_act_def split: option.splits)

lemma pool_act_ok:
  assumes "pool_act use_local n op s = Some s'" "local_ok n s"
  shows "accounted n s' = accounted n s + mset (submitted [op]) \<and> local_ok n s'"
proof (cases op)
  case (Works i)
  then have i: "1 \<le> i" "i \<le> n" and act: "worker_act use_local i s = Some s'" using assms(1) by (auto split: if_splits)
  show ?thesis
    using act
  proof (cases rule: worker_act_cases)
    case start
    then show ?thesis
      using assms(2) i Works pending_worker_start [of "the_pool s" i "Suc n"]
      by (auto simp: local_ok_def accounted_def worker_start_def)
  next
    case (took task p)
    then show ?thesis
      using assms(2) i Works pending_run [OF _ took(2), of "Suc n"] run_pending_kept(1) [OF took(2)]
      by (auto simp: local_ok_def accounted_def)
  qed (use assms(2) Works in \<open>auto simp: local_ok_def accounted_def\<close>)
next
  case (Submits i task)
  have "i < Suc n \<or> local_queue (the_pool s) i = None"
    using assms(2) by (cases "i \<le> n") (auto simp: local_ok_def)
  then show ?thesis
    using assms Submits pending_submit_any [of i "Suc n" "the_pool s" task]
    by (auto simp: local_ok_def accounted_def split: if_splits)
next
  case (Runs_pending i)
  have i: "i < Suc n \<or> local_queue (the_pool s) i = None"
    using assms(2) by (cases "i \<le> n") (auto simp: local_ok_def)
  show ?thesis
  proof (cases "run_pending_task i (the_pool s)")
    case (Some tp)
    obtain t p where tp: "tp = (t, p)" by fastforce
    then have s': "s' = s\<lparr>the_pool := p, executed := executed s @ [t]\<rparr>"
      using assms(1) Runs_pending Some by (simp split: if_splits)
    show ?thesis
      using assms(2) Runs_pending pending_run_any [OF i Some [unfolded tp]] run_pending_kept(1) [OF Some [unfolded tp]]
      by (simp add: s' local_ok_def accounted_def)
  qed (use assms Runs_pending in \<open>simp split: if_splits\<close>)
next
  case Destroys
  then show ?thesis using assms by (auto simp: local_ok_def accounted_def pending_destroy) (simp_all add: pool_destroy_def)
qed

lemma submitted_append: "submitted (ops @ ops') = submitted ops @ submitted ops'"
  by (induction ops rule: submitted.induct) simp_all

lemma pool_run_ok:
  "pool_run use_local n ops s = Some s' \<Longrightarrow> local_ok n s \<Longrightarrow> accounted n s' = accounted n s + mset (submitted ops) \<and> local_ok n s'"
proof (induction ops arbitrary: s)
  case (Cons op ops)
  then obtain t where t: "pool_act use_local n op s = Some t" "pool_run use_local n ops t = Some s'"
    by (auto split: Option.bind_splits)
  have "mset (submitted (op # ops)) = mset (submitted [op]) + mset (submitted ops)" by (cases op) simp_all
  then show ?case using Cons.IH [OF t(2)] pool_act_ok [OF t(1) Cons.prems(2)] by simp
qed simp

section \<open>Destruction\<close>

text \<open>The steps that a worker makes at most, once the pool is being destroyed.\<close>

fun steps_left :: "worker_pc \<Rightarrow> nat" where
  "steps_left Starting = 2"
| "steps_left Testing = 1"
| "steps_left Taking = 3"
| "steps_left Running = 2"
| "steps_left Gone = 0"

definition works :: "nat \<Rightarrow> 'task pool_op list \<Rightarrow> nat" where
  "works i ops = length (filter (\<lambda>op. op = Works i) ops)"

lemma pool_act_done:
  assumes "pool_act use_local n op s = Some s'" "pool_done (the_pool s)"
  shows "pool_done (the_pool s') \<and> works i [op] + steps_left (worker_at s' i) \<le> steps_left (worker_at s i)
    \<and> loop_took s' i + (if worker_at s' i = Taking then 1 else 0) \<le> loop_took s i + (if worker_at s i = Taking then 1 else 0)"
proof (cases op)
  case (Works j)
  have act: "worker_act use_local j s = Some s'" using assms(1) Works by (simp split: if_splits)
  then show ?thesis
  proof (cases rule: worker_act_cases)
    case (took task p)
    then show ?thesis using assms(2) Works run_pending_kept(2) [OF took(2)] by (simp add: works_def)
  qed (use assms(2) Works in \<open>auto simp: worker_start_def works_def\<close>)
next
  case (Submits j task)
  then have "s' = s\<lparr>the_pool := submit j task (the_pool s)\<rparr>" using assms(1) by (simp split: if_splits)
  then show ?thesis using assms(2) Submits by (simp add: works_def)
next
  case (Runs_pending j)
  have "worker_at s' = worker_at s \<and> loop_took s' = loop_took s \<and> pool_done (the_pool s')"
  proof (cases "run_pending_task j (the_pool s)")
    case (Some tp)
    obtain t p where tp: "tp = (t, p)" by fastforce
    then have "s' = s\<lparr>the_pool := p, executed := executed s @ [t]\<rparr>"
      using assms(1) Runs_pending Some by (simp split: if_splits)
    then show ?thesis using assms(2) run_pending_kept(2) [OF Some [unfolded tp]] by simp
  qed (use assms Runs_pending in \<open>simp split: if_splits\<close>)
  then show ?thesis using Runs_pending by (simp add: works_def)
next
  case Destroys
  then show ?thesis using assms by (auto simp: works_def pool_destroy_def)
qed

lemma pool_run_done:
  "pool_run use_local n ops s = Some s' \<Longrightarrow> pool_done (the_pool s) \<Longrightarrow>
     works i ops + steps_left (worker_at s' i) \<le> steps_left (worker_at s i)
     \<and> loop_took s' i \<le> loop_took s i + (if worker_at s i = Taking then 1 else 0)"
proof (induction ops arbitrary: s)
  case (Cons op ops)
  then obtain t where t: "pool_act use_local n op s = Some t" "pool_run use_local n ops t = Some s'"
    by (auto split: Option.bind_splits)
  have "works i (op # ops) = works i [op] + works i ops" by (simp add: works_def)
  then show ?case using Cons.IH [OF t(2)] pool_act_done [OF t(1) Cons.prems(2), of i] by simp
qed (simp add: works_def)

text \<open>
  C32. For every interleaving of the steps of the workers, of the tasks and of other threads, also while the
  pool is being destroyed: the tasks that were submitted are, with their multiplicities, those that have
  been taken to run and those that wait in a queue, so none is lost and none is run twice. Once the pool is
  being destroyed, a worker makes at most three more steps of its loop, the return from its task included,
  and then has left, so the threads can be joined if the tasks return; its loop takes no task any more, but
  for one if the worker had already passed the test of the flag. (A task may go on to run pending tasks.)
\<close>

theorem pool_runs_each_once:
  assumes "pool_run use_local n ops pool_system_new = Some s"
    and "pool_run use_local n ops' (s\<lparr>the_pool := pool_destroy (the_pool s)\<rparr>) = Some s'"
  shows "mset (submitted ops) = mset (executed s) + pending (Suc n) (the_pool s)
    \<and> mset (submitted (ops @ ops')) = mset (executed s') + pending (Suc n) (the_pool s')
    \<and> works i ops' + steps_left (worker_at s' i) \<le> 3 \<and> (steps_left (worker_at s' i) = 0 \<longleftrightarrow> worker_at s' i = Gone)
    \<and> loop_took s' i \<le> loop_took s i + (if worker_at s i = Taking then 1 else 0)"
proof -
  let ?d = "s\<lparr>the_pool := pool_destroy (the_pool s)\<rparr>"
  have new: "local_ok n pool_system_new" "accounted n pool_system_new = {#}"
    by (simp_all add: local_ok_def accounted_def pool_system_new_def pool_new_def pending_def local_tasks_def)
  have s: "accounted n s = mset (submitted ops)" "local_ok n s" using pool_run_ok [OF assms(1) new(1)] new(2) by simp_all
  have d: "local_ok n ?d" "accounted n ?d = accounted n s"
    using s(2) by (simp_all add: local_ok_def accounted_def pending_destroy) (simp add: pool_destroy_def)
  have s': "accounted n s' = mset (submitted ops) + mset (submitted ops')"
    using pool_run_ok [OF assms(2) d(1)] d(2) s(1) by simp
  have "pool_done (the_pool ?d)" by (simp add: pool_destroy_def)
  from pool_run_done [OF assms(2) this, of i]
  have left: "works i ops' + steps_left (worker_at s' i) \<le> steps_left (worker_at s i)"
    "loop_took s' i \<le> loop_took s i + (if worker_at s i = Taking then 1 else 0)"
    by (simp_all split: if_splits)
  have "steps_left at \<le> 3" "steps_left at = 0 \<longleftrightarrow> at = Gone" for at by (cases at; simp)+
  then show ?thesis
    using s(1) s' left order.trans [OF left(1)] by (simp add: accounted_def submitted_append)
qed

text \<open>A worker has passed the test when the pool is destroyed: it takes one more task, leaves, and the other
  task stays in the queue.\<close>

theorem pool_runs_each_once_witness:
  "\<exists>s s'. pool_run False 1 [Works 1, Submits 0 (7 :: nat), Works 1] pool_system_new = Some s
     \<and> pool_run False 1 [Submits 0 8, Works 1, Works 1, Works 1] (s\<lparr>the_pool := pool_destroy (the_pool s)\<rparr>) = Some s'
     \<and> executed s' = [7] \<and> {#7, 8#} = {#7#} + pending 2 (the_pool s') \<and> worker_at s' 1 = Gone \<and> loop_took s' 1 = 1"
proof -
  let ?ops = "[Works 1, Submits 0 (7 :: nat), Works 1]"
  let ?ops' = "[Submits 0 (8 :: nat), Works 1, Works 1, Works 1]"
  note defs = pool_system_new_def pool_new_def worker_act_def may_call_def submit_def run_pending_task_def worker_start_def
    pool_destroy_def
  obtain s where s: "pool_run False 1 ?ops pool_system_new = Some s" "worker_at s 1 = Taking" "loop_took s 1 = 0"
    "executed s = []" "pool_queue (the_pool s) = [7]" "local_queue (the_pool s) = (\<lambda>_. None)"
    by (simp add: defs)
  obtain s' where s': "pool_run False 1 ?ops' (s\<lparr>the_pool := pool_destroy (the_pool s)\<rparr>) = Some s'" "executed s' = [7]"
      "loop_took s' 1 = 1"
    using s(2-) by (simp add: defs)
  have "works 1 ?ops' = 3" by (simp add: works_def)
  with pool_runs_each_once [OF s(1) s'(1), of 1]
  have "{#7, 8#} = mset (executed s') + pending (Suc 1) (the_pool s')" "worker_at s' 1 = Gone" by auto
  then have "{#7, 8#} = {#7#} + pending 2 (the_pool s')" "worker_at s' 1 = Gone"
    unfolding s'(2) by (simp_all add: numeral_2_eq_2)
  then show ?thesis using s(1) s' by blast
qed

end
