(* ===== verification/Counted_Safety.thy ===== *)
theory Counted_Safety
  imports Counted_Stack Lock_Free_Invariant Thread_Pool
begin

text \<open>
  Safety of the stack with reference counts. The invariant says of every node on the stack that the
  count of the pointer to it, less the count in it, is the number of threads that hold it, of a node
  whose taker has not yet added the counts the same with what the taker is about to add, and of any
  other node that the count in it is the number of threads that hold it.
\<close>

section \<open>Counting\<close>

text \<open>A thread that holds a node: it has raised the external count and not yet let go.\<close>

fun rc_ref :: "'a rc_pc \<Rightarrow> nat option" where
  "rc_ref (Pop_next old) = ptr old"
| "rc_ref (Pop_cas old nxt) = ptr old"
| "rc_ref (Let_go a old) = Some a"
| "rc_ref _ = None"

text \<open>The node that a thread has made, taken or is about to delete.\<close>

fun rc_own :: "'a rc_pc \<Rightarrow> nat option" where
  "rc_own (Push_start v a) = Some a"
| "rc_own (Push_cas v a) = Some a"
| "rc_own (Pop_swap old) = ptr old"
| "rc_own (Pop_add old res) = ptr old"
| "rc_own (Pop_delete a res) = Some a"
| "rc_own (Drop a old) = Some a"
| "rc_own _ = None"

definition holders :: "nat \<Rightarrow> (nat \<Rightarrow> 'a rc_pc) \<Rightarrow> nat \<Rightarrow> nat" where
  "holders n pcs a = (\<Sum>j<n. if rc_ref (pcs j) = Some a then 1 else 0)"

lemma holders_upd:
  "i < n \<Longrightarrow> holders n (pcs(i := q)) a + (if rc_ref (pcs i) = Some a then 1 else 0)
     = holders n pcs a + (if rc_ref q = Some a then 1 else 0)"
  using sum_fun_upd [of i n "\<lambda>pc. if rc_ref pc = Some a then 1 else 0" pcs q] by (simp add: holders_def)

lemma holders_same:
  assumes "i < n" "rc_ref q = rc_ref (pcs i)"
  shows "holders n (pcs(i := q)) a = holders n pcs a"
  using holders_upd [OF assms(1), of pcs q a] assms(2) by simp

lemma holders_pos: "j < n \<Longrightarrow> rc_ref (pcs j) = Some a \<Longrightarrow> 0 < holders n pcs a"
  unfolding holders_def by (rule sum_pos2 [of _ j]) simp_all

text \<open>The external count \<open>e\<close>, the number \<open>r\<close> of threads that hold the node, the internal count \<open>c\<close>,
  after at most \<open>k\<close> steps: on the stack, and between the exchange and the addition.\<close>

definition counted :: "nat \<Rightarrow> 32 word \<Rightarrow> nat \<Rightarrow> 32 word \<Rightarrow> bool" where
  "counted k e r c \<longleftrightarrow> r + 1 \<le> unat e \<and> unat e \<le> k + 1 \<and> c = of_nat r + 1 - e"

definition taken :: "nat \<Rightarrow> 32 word \<Rightarrow> nat \<Rightarrow> 32 word \<Rightarrow> bool" where
  "taken k e r c \<longleftrightarrow> r + 2 \<le> unat e \<and> unat e \<le> k + 1 \<and> c = of_nat r + 2 - e"

lemma word_unat_eq: "(e :: 32 word) = of_nat r \<Longrightarrow> r < 2 ^ 32 \<Longrightarrow> unat e = r"
  by (simp add: unat_of_nat take_bit_nat_eq_self)

lemma counted_less: "counted k e r c \<Longrightarrow> r < 2 ^ 32"
  unfolding counted_def using unsigned_less [of e, where ?'a = nat] by simp

lemma counted_not_last: "counted k e r c \<Longrightarrow> c \<noteq> 1"
proof
  assume c: "counted k e r c" "c = 1"
  then have "e = of_nat r" by (simp add: counted_def algebra_simps)
  then show False using word_unat_eq [of e r] counted_less [OF c(1)] c(1) by (simp add: counted_def)
qed

lemma taken_not_last: "taken k e r c \<Longrightarrow> c \<noteq> 1"
proof
  assume c: "taken k e r c" "c = 1"
  have r: "r + 1 < 2 ^ 32" using c(1) unsigned_less [of e, where ?'a = nat] by (simp add: taken_def)
  have "e = of_nat r + 2 - 1" using c by (simp add: taken_def algebra_simps)
  also have "\<dots> = of_nat (r + 1)" by simp
  finally show False using word_unat_eq [of e "r + 1"] r c(1) by (simp add: taken_def)
qed

lemma counted_release: "counted k e (Suc r) c \<Longrightarrow> counted k e r (c - 1)"
  by (simp add: counted_def)

lemma taken_release: "taken k e (Suc r) c \<Longrightarrow> taken k e r (c - 1)"
  by (simp add: taken_def)

lemma counted_mono: "counted k e r c \<Longrightarrow> k \<le> k' \<Longrightarrow> counted k' e r c"
  by (simp add: counted_def)

lemma taken_mono: "taken k e r c \<Longrightarrow> k \<le> k' \<Longrightarrow> taken k' e r c"
  by (simp add: taken_def)

lemma counted_raise:
  assumes "counted k e r c" "k + 2 < 2 ^ 32"
  shows "counted (Suc k) (e + 1) (Suc r) c"
proof -
  have "unat e < 2 ^ 32 - 1" using assms by (simp add: counted_def)
  then have "unat (e + 1) = unat e + 1" by (simp add: unat_word_ariths)
  then show ?thesis using assms(1) by (simp add: counted_def)
qed

lemma counted_take: "counted k e (Suc r) c \<Longrightarrow> taken k e r c"
  by (simp add: counted_def taken_def)

text \<open>The taker adds \<open>e - 2\<close>: the sum counts the holders, and it knows when there are none.\<close>

lemma taken_add:
  assumes "taken k e r c"
  shows "c + (e - 2) = of_nat r" "c = - (e - 2) \<longleftrightarrow> r = 0"
proof -
  show s: "c + (e - 2) = of_nat r" using assms by (simp add: taken_def)
  have "r < 2 ^ 32" using assms unsigned_less [of e, where ?'a = nat] by (simp add: taken_def)
  then have "of_nat r = (0 :: 32 word) \<longleftrightarrow> r = 0" using word_unat_eq [of 0 r] by auto
  then show "c = - (e - 2) \<longleftrightarrow> r = 0" using s by (metis add.commute add_eq_0_iff2 eq_neg_iff_add_eq_0)
qed

section \<open>The invariant\<close>

text \<open>The nodes on the stack, from a pointer with its count; \<open>R\<close> tells how many threads hold a node.\<close>

fun stacked :: "nat \<Rightarrow> (nat \<Rightarrow> 'a counted_node option) \<Rightarrow> (nat \<Rightarrow> nat) \<Rightarrow> counted_node_ptr \<Rightarrow> nat list \<Rightarrow> bool" where
  "stacked k H R p [] \<longleftrightarrow> ptr p = None"
| "stacked k H R p (a # as) \<longleftrightarrow> ptr p = Some a \<and>
     (\<exists>m. H a = Some m \<and> counted k (external_count p) (R a) (internal_count m) \<and> stacked k H R (counted_next m) as)"

fun thread_ok :: "nat \<Rightarrow> (nat \<Rightarrow> 'a counted_node option) \<Rightarrow> (nat \<Rightarrow> nat) \<Rightarrow> 'a rc_pc \<Rightarrow> bool" where
  "thread_ok k H R (Push_start v a) \<longleftrightarrow> (\<exists>m. H a = Some m \<and> counted_data m = Some v \<and> internal_count m = 0 \<and> R a = 0)"
| "thread_ok k H R (Push_cas v a) \<longleftrightarrow> (\<exists>m. H a = Some m \<and> counted_data m = Some v \<and> internal_count m = 0 \<and> R a = 0)"
| "thread_ok k H R (Pop_next old) \<longleftrightarrow> ptr old \<noteq> None"
| "thread_ok k H R (Pop_cas old nxt) \<longleftrightarrow> (\<exists>a m. ptr old = Some a \<and> H a = Some m \<and> counted_next m = nxt)"
| "thread_ok k H R (Pop_swap old) \<longleftrightarrow> (\<exists>a m. ptr old = Some a \<and> H a = Some m \<and> counted_data m \<noteq> None
     \<and> taken k (external_count old) (R a) (internal_count m))"
| "thread_ok k H R (Pop_add old res) \<longleftrightarrow> (\<exists>a m. ptr old = Some a \<and> H a = Some m
     \<and> taken k (external_count old) (R a) (internal_count m))"
| "thread_ok k H R (Pop_delete a res) \<longleftrightarrow> H a \<noteq> None \<and> R a = 0"
| "thread_ok k H R (Drop a old) \<longleftrightarrow> H a \<noteq> None \<and> R a = 0"
| "thread_ok k H R _ \<longleftrightarrow> True"

text \<open>A node that was taken and that only holders will see.\<close>

definition orphan :: "nat \<Rightarrow> 'a counted_node option \<Rightarrow> nat \<Rightarrow> bool" where
  "orphan k h r \<longleftrightarrow> (\<exists>m. h = Some m \<and> internal_count m = of_nat r) \<and> 0 < r \<and> r \<le> k"

definition rc_values :: "nat list \<Rightarrow> 'a rc_stack \<Rightarrow> bool" where
  "rc_values S s \<longleftrightarrow> (\<exists>vs. List.map (\<lambda>a. Option.bind (rc_heap s a) counted_data) S = List.map Some vs
     \<and> replay (rc_events s) [] = Some vs)"

fun rc_in_flight :: "(nat \<Rightarrow> 'a counted_node option) \<Rightarrow> 'a rc_pc \<Rightarrow> 'a option list" where
  "rc_in_flight H (Pop_swap old) = [Option.bind (ptr old) (\<lambda>a. Option.bind (H a) counted_data)]"
| "rc_in_flight H (Pop_add old res) = [res]"
| "rc_in_flight H (Pop_delete a res) = [res]"
| "rc_in_flight H _ = []"

definition rc_returns :: "'a rc_stack \<Rightarrow> nat \<Rightarrow> bool" where
  "rc_returns s i \<longleftrightarrow> pops_of i (rc_events s) = results_of i (rc_results s) @ rc_in_flight (rc_heap s) (rc_pcs s i)"

definition owns_apart :: "nat list \<Rightarrow> (nat \<Rightarrow> 'a rc_pc) \<Rightarrow> nat \<Rightarrow> nat \<Rightarrow> bool" where
  "owns_apart S pcs i j \<longleftrightarrow> (\<forall>a. rc_own (pcs i) = Some a \<longrightarrow> a \<notin> set S \<and> (i \<noteq> j \<longrightarrow> rc_own (pcs j) \<noteq> Some a))"

text \<open>Every allocated node is on the stack, owned by a thread, or an orphan.\<close>

definition node_ok :: "nat \<Rightarrow> nat \<Rightarrow> nat list \<Rightarrow> 'a rc_stack \<Rightarrow> nat \<Rightarrow> bool" where
  "node_ok n k S s a \<longleftrightarrow> (rc_heap s a = None \<longrightarrow> holders n (rc_pcs s) a = 0) \<and>
     (rc_heap s a \<noteq> None \<longrightarrow> a \<notin> set S \<longrightarrow> (\<forall>i. rc_own (rc_pcs s i) \<noteq> Some a)
        \<longrightarrow> orphan k (rc_heap s a) (holders n (rc_pcs s) a))"

definition rc_inv :: "nat \<Rightarrow> nat \<Rightarrow> nat list \<Rightarrow> 'a rc_stack \<Rightarrow> bool" where
  "rc_inv n k S s \<longleftrightarrow> stacked k (rc_heap s) (holders n (rc_pcs s)) (rc_head s) S \<and> distinct S \<and> rc_values S s
     \<and> (\<forall>i. thread_ok k (rc_heap s) (holders n (rc_pcs s)) (rc_pcs s i)) \<and> (\<forall>i j. owns_apart S (rc_pcs s) i j)
     \<and> (\<forall>a. node_ok n k S s a) \<and> (\<forall>i. rc_returns s i) \<and> (\<forall>i. n \<le> i \<longrightarrow> rc_pcs s i = Outside)"

lemma rc_invD:
  assumes "rc_inv n k S s"
  shows "stacked k (rc_heap s) (holders n (rc_pcs s)) (rc_head s) S" "distinct S" "rc_values S s"
    "thread_ok k (rc_heap s) (holders n (rc_pcs s)) (rc_pcs s i)" "owns_apart S (rc_pcs s) i j" "node_ok n k S s a"
    "rc_returns s i" "n \<le> i \<Longrightarrow> rc_pcs s i = Outside"
  using assms by (simp_all add: rc_inv_def)

lemma rc_inv_new: "rc_inv n k [] (rc_new g)"
  by (simp add: rc_inv_def rc_new_def rc_values_def owns_apart_def node_ok_def rc_returns_def holders_def)

section \<open>What other threads see\<close>

text \<open>A node and its holders as they were, or one holder less and counted as such.\<close>

definition kept :: "'a counted_node option \<Rightarrow> nat \<Rightarrow> 'a counted_node option \<Rightarrow> nat \<Rightarrow> bool" where
  "kept h r h' r' \<longleftrightarrow> h' = h \<and> r' = r
     \<or> (\<exists>m. h = Some m \<and> h' = Some (m\<lparr>internal_count := internal_count m - 1\<rparr>) \<and> r = Suc r')"

lemma kept_refl [simp]: "kept h r h r"
  by (simp add: kept_def)

lemma kept_None: "kept h r h' r' \<Longrightarrow> h' = None \<longleftrightarrow> h = None"
  by (auto simp: kept_def)

lemma kept_data: "kept h r h' r' \<Longrightarrow> Option.bind h' counted_data = Option.bind h counted_data"
  by (auto simp: kept_def)

lemma stacked_kept:
  "stacked k H R p as \<Longrightarrow> \<forall>a\<in>set as. kept (H a) (R a) (H' a) (R' a) \<Longrightarrow> k \<le> k' \<Longrightarrow> stacked k' H' R' p as"
proof (induction as arbitrary: p)
  case (Cons a as)
  from Cons.prems(1) obtain m where m: "ptr p = Some a" "H a = Some m"
      "counted k (external_count p) (R a) (internal_count m)" "stacked k H R (counted_next m) as" by auto
  have "stacked k' H' R' (counted_next m) as" using Cons.IH [OF m(4)] Cons.prems by simp
  moreover have "kept (H a) (R a) (H' a) (R' a)" using Cons.prems(2) by simp
  ultimately show ?case
    using m counted_mono [OF m(3) Cons.prems(3)] counted_mono [OF _ Cons.prems(3)] counted_release [of k "external_count p"]
    by (auto simp: kept_def)
qed simp

lemma thread_ok_kept:
  assumes "thread_ok k H R pc" "\<And>a. rc_own pc = Some a \<Longrightarrow> kept (H a) (R a) (H' a) (R' a)" "k \<le> k'"
    and "\<And>a. rc_ref pc = Some a \<Longrightarrow> map_option counted_next (H' a) = map_option counted_next (H a)"
  shows "thread_ok k' H' R' pc"
proof (cases pc)
  case (Pop_swap old)
  then obtain a m where m: "ptr old = Some a" "H a = Some m" "counted_data m \<noteq> None"
      "taken k (external_count old) (R a) (internal_count m)" using assms(1) by auto
  have "kept (H a) (R a) (H' a) (R' a)" using assms(2) Pop_swap m(1) by simp
  then show ?thesis
    using m taken_mono [OF m(4) assms(3)] taken_mono [OF taken_release assms(3)] by (auto simp: kept_def Pop_swap)
next
  case (Pop_add old res)
  then obtain a m where m: "ptr old = Some a" "H a = Some m" "taken k (external_count old) (R a) (internal_count m)"
    using assms(1) by auto
  have "kept (H a) (R a) (H' a) (R' a)" using assms(2) Pop_add m(1) by simp
  then show ?thesis
    using m taken_mono [OF m(3) assms(3)] taken_mono [OF taken_release assms(3)] by (auto simp: kept_def Pop_add)
next
  case (Pop_cas old nxt)
  then obtain a m where m: "ptr old = Some a" "H a = Some m" "counted_next m = nxt" using assms(1) by auto
  then show ?thesis using assms(4) [of a] by (cases "H' a") (auto simp: Pop_cas)
qed (use assms in \<open>auto simp: kept_def\<close>)

lemma in_flight_kept:
  assumes "\<And>a. rc_own pc = Some a \<Longrightarrow> kept (H a) (R a) (H' a) (R' a)"
  shows "rc_in_flight H' pc = rc_in_flight H pc"
proof (cases pc)
  case (Pop_swap old)
  then show ?thesis using assms kept_data by (cases "ptr old") fastforce+
qed simp_all

text \<open>A step of thread \<open>i\<close>, with position \<open>q\<close> after it.\<close>

lemma rc_inv_step:
  assumes inv: "rc_inv n k S s" and i: "i < n" and pcs: "rc_pcs s' = (rc_pcs s)(i := q)"
    and chain: "stacked (Suc k) (rc_heap s') (holders n (rc_pcs s')) (rc_head s') S'" "distinct S'" and vals: "rc_values S' s'"
    and own: "thread_ok (Suc k) (rc_heap s') (holders n (rc_pcs s')) q"
    and mine: "\<And>a. rc_own q = Some a \<Longrightarrow> a \<notin> set S' \<and> (\<forall>j. j \<noteq> i \<longrightarrow> rc_own (rc_pcs s j) \<noteq> Some a)"
    and others: "\<And>j a. j \<noteq> i \<Longrightarrow> rc_own (rc_pcs s j) = Some a \<Longrightarrow>
      a \<notin> set S' \<and> kept (rc_heap s a) (holders n (rc_pcs s) a) (rc_heap s' a) (holders n (rc_pcs s') a)"
    and links: "\<And>j a. j \<noteq> i \<Longrightarrow> rc_ref (rc_pcs s j) = Some a \<Longrightarrow>
      map_option counted_next (rc_heap s' a) = map_option counted_next (rc_heap s a)"
    and nodes: "\<And>a. node_ok n (Suc k) S' s' a"
    and ret: "\<And>j. j \<noteq> i \<Longrightarrow> pops_of j (rc_events s') = pops_of j (rc_events s)
        \<and> results_of j (rc_results s') = results_of j (rc_results s)"
      "pops_of i (rc_events s') = results_of i (rc_results s') @ rc_in_flight (rc_heap s') q"
  shows "rc_inv n (Suc k) S' s'"
proof -
  have "thread_ok (Suc k) (rc_heap s') (holders n (rc_pcs s')) (rc_pcs s' j)" for j
  proof (cases "j = i")
    case False
    have "thread_ok (Suc k) (rc_heap s') (holders n (rc_pcs s')) (rc_pcs s j)"
      by (rule thread_ok_kept [OF rc_invD(4) [OF inv, of j]]) (use others [OF False] links [OF False] in simp_all)
    then show ?thesis using False pcs by simp
  qed (use own pcs in simp)
  moreover have "owns_apart S' (rc_pcs s') j l" for j l
    using rc_invD(5) [OF inv, of j l] mine others [of j] pcs unfolding owns_apart_def by auto
  moreover have "rc_returns s' j" for j
  proof (cases "j = i")
    case False
    have "rc_in_flight (rc_heap s') (rc_pcs s j) = rc_in_flight (rc_heap s) (rc_pcs s j)"
      by (rule in_flight_kept) (use others [OF False] in blast)
    then show ?thesis using ret(1) [OF False] rc_invD(7) [OF inv, of j] False pcs by (simp add: rc_returns_def)
  qed (use ret(2) pcs in \<open>simp add: rc_returns_def\<close>)
  moreover have "rc_pcs s' j = Outside" if "n \<le> j" for j using rc_invD(8) [OF inv that] i that pcs by simp
  ultimately show ?thesis using chain vals nodes by (simp add: rc_inv_def)
qed

section \<open>Steps\<close>

definition rc_good :: "nat \<Rightarrow> nat \<Rightarrow> 'a rc_stack outcome \<Rightarrow> bool" where
  "rc_good n k r \<longleftrightarrow> (case r of Returns s \<Rightarrow> (\<exists>S. rc_inv n k S s) | Blocks \<Rightarrow> True | Undefined \<Rightarrow> False)"

lemma rc_goodI: "rc_inv n k S s \<Longrightarrow> rc_good n k (Returns s)"
  by (auto simp: rc_good_def)

lemma rc_deref_simps [simp]:
  "rc_heap s a = Some m \<Longrightarrow> rc_deref (Some a) s = Returns m"
  by (simp add: rc_deref_def)

lemmas rc_state_defs = rgo_def rstore_def rc_return_def

lemma rc_apart: "rc_inv n k S s \<Longrightarrow> rc_own (rc_pcs s i) = Some a \<Longrightarrow> a \<notin> set S \<and> (\<forall>j. j \<noteq> i \<longrightarrow> rc_own (rc_pcs s j) \<noteq> Some a)"
  using rc_invD(5) [of n k S s i] unfolding owns_apart_def by metis

lemma node_ok_frame:
  assumes "node_ok n k S s a" "rc_heap s' a = rc_heap s a" "holders n (rc_pcs s') a = holders n (rc_pcs s) a"
    and "a \<in> set S \<Longrightarrow> a \<in> set S' \<or> (\<exists>j. rc_own (rc_pcs s' j) = Some a)"
    and "\<And>j. rc_own (rc_pcs s j) = Some a \<Longrightarrow> a \<in> set S' \<or> (\<exists>j. rc_own (rc_pcs s' j) = Some a)"
  shows "node_ok n (Suc k) S' s' a"
proof -
  have o: "orphan (Suc k) h r" if "orphan k h r" for h :: "'a counted_node option" and r using that by (auto simp: orphan_def)
  show ?thesis
    using assms(1,4,5) o unfolding node_ok_def assms(2,3) by meson
qed

lemma stacked_counted:
  "stacked k H R p as \<Longrightarrow> a \<in> set as \<Longrightarrow> \<exists>m e. H a = Some m \<and> counted k e (R a) (internal_count m)"
  by (induction as arbitrary: p) auto

lemma owned_counted:
  "thread_ok k H R pc \<Longrightarrow> rc_own pc = Some a \<Longrightarrow> R a = 0 \<or> (\<exists>m e. H a = Some m \<and> taken k e (R a) (internal_count m))"
  by (cases pc) auto

text \<open>A node with a holder is allocated, and nobody is about to delete it or has not yet pushed it.\<close>

lemma holder_allocated:
  assumes "rc_inv n k S s" "i < n" "rc_ref (rc_pcs s i) = Some a"
  obtains m r where "rc_heap s a = Some m" "holders n (rc_pcs s) a = Suc r"
proof -
  have "0 < holders n (rc_pcs s) a" using holders_pos [of i n "rc_pcs s" a] assms(2,3) by simp
  then obtain r where r: "holders n (rc_pcs s) a = Suc r" using gr0_implies_Suc by blast
  then have "rc_heap s a \<noteq> None" using rc_invD(6) [OF assms(1), of a] by (auto simp: node_ok_def)
  then show thesis using that r by blast
qed

lemma stacked_allocated: "stacked k H R p as \<Longrightarrow> a \<in> set as \<Longrightarrow> H a \<noteq> None"
  by (induction as arbitrary: p) auto

lemma owned_allocated: "thread_ok k H R pc \<Longrightarrow> rc_own pc = Some a \<Longrightarrow> H a \<noteq> None"
  by (cases pc) auto

lemma rc_values_frame:
  assumes "rc_values S s" "\<And>a. a \<in> set S \<Longrightarrow> Option.bind (rc_heap s' a) counted_data = Option.bind (rc_heap s a) counted_data"
    "rc_events s' = rc_events s"
  shows "rc_values S s'"
proof -
  have "List.map (\<lambda>a. Option.bind (rc_heap s' a) counted_data) S = List.map (\<lambda>a. Option.bind (rc_heap s a) counted_data) S"
    using assms(2) by simp
  then show ?thesis using assms(1) by (simp only: rc_values_def assms(3))
qed

text \<open>A step that changes only the position of its thread.\<close>

lemma rc_inv_local:
  assumes inv: "rc_inv n k S s" and i: "i < n"
    and s': "rc_pcs s' = (rc_pcs s)(i := q)" "rc_heap s' = rc_heap s" "rc_head s' = rc_head s"
    and q: "rc_ref q = rc_ref (rc_pcs s i)" "rc_own q = rc_own (rc_pcs s i)"
    and own: "thread_ok (Suc k) (rc_heap s) (holders n (rc_pcs s)) q"
    and events: "rc_events s' = rc_events s"
    and ret: "\<And>j. j \<noteq> i \<Longrightarrow> results_of j (rc_results s') = results_of j (rc_results s)"
      "results_of i (rc_results s') @ rc_in_flight (rc_heap s) q = results_of i (rc_results s) @ rc_in_flight (rc_heap s) (rc_pcs s i)"
  shows "rc_inv n (Suc k) S s'"
proof (rule rc_inv_step [OF inv i s'(1)])
  have h: "holders n (rc_pcs s') = holders n (rc_pcs s)"
    unfolding s'(1) by (rule ext, rule holders_same [where i = i]) (simp_all add: i q(1))
  show "stacked (Suc k) (rc_heap s') (holders n (rc_pcs s')) (rc_head s') S"
    unfolding h s'(2,3) by (rule stacked_kept [OF rc_invD(1) [OF inv]]) simp_all
  show "thread_ok (Suc k) (rc_heap s') (holders n (rc_pcs s')) q" unfolding h s'(2,3) by (rule own)
  show "a \<notin> set S \<and> kept (rc_heap s a) (holders n (rc_pcs s) a) (rc_heap s' a) (holders n (rc_pcs s') a)"
    if "rc_own (rc_pcs s j) = Some a" for j a
    using rc_apart [OF inv that] unfolding h s'(2,3) by simp
  have o: "rc_own (rc_pcs s' j) = rc_own (rc_pcs s j)" for j using q(2) s'(1) by simp
  show "node_ok n (Suc k) S s' a" for a
    by (rule node_ok_frame [OF rc_invD(6) [OF inv, of a]]) (auto simp: h s'(2,3) o)
  show "rc_values S s'" using rc_invD(3) [OF inv] by (simp add: rc_values_def s' events)
  show "pops_of i (rc_events s') = results_of i (rc_results s') @ rc_in_flight (rc_heap s') q"
    using rc_invD(7) [OF inv, of i] ret(2) by (simp add: rc_returns_def events s')
qed (use rc_invD(2) [OF inv] rc_apart [OF inv] q ret events s' in auto)

lemma rc_pop_enter_ok:
  assumes inv: "rc_inv n k S s" and i: "i < n" and pc: "rc_pcs s i = Outside"
  shows "rc_good n (Suc k) (Returns (rgo i Pop_start s))"
  by (rule rc_goodI, rule rc_inv_local [OF inv i, where q = Pop_start]) (simp_all add: rc_state_defs pc)

lemma rc_pop_load_ok:
  assumes inv: "rc_inv n k S s" and i: "i < n" and pc: "rc_pcs s i = Pop_start"
  shows "rc_good n (Suc k) (Returns (rc_pop_load i s))"
  by (rule rc_goodI, rule rc_inv_local [OF inv i, where q = "Increase (rc_head s)"])
    (simp_all add: rc_pop_load_def rc_state_defs pc)

lemma rc_pop_next_ok:
  assumes inv: "rc_inv n k S s" and i: "i < n" and pc: "rc_pcs s i = Pop_next old"
  shows "rc_good n (Suc k) (rc_pop_next i old s)"
proof -
  obtain a where a: "ptr old = Some a" using rc_invD(4) [OF inv, of i] pc by auto
  obtain m where m: "rc_heap s a = Some m" using holder_allocated [OF inv i, of a] pc a by auto
  have "rc_inv n (Suc k) S (rgo i (Pop_cas old (counted_next m)) s)"
    by (rule rc_inv_local [OF inv i, where q = "Pop_cas old (counted_next m)"]) (simp_all add: rc_state_defs pc a m)
  then show ?thesis using a m by (simp add: rc_pop_next_def rc_goodI)
qed

text \<open>The thread's own node changes, and stays its own: other threads do not see it.\<close>

lemma rc_inv_own:
  assumes inv: "rc_inv n k S s" and i: "i < n"
    and s': "rc_pcs s' = (rc_pcs s)(i := q)" "rc_heap s' = (rc_heap s)(a \<mapsto> m')" "rc_head s' = rc_head s"
    and a: "rc_own (rc_pcs s i) = Some a" "rc_own q = Some a" and m: "rc_heap s a = Some m"
    and nxt: "counted_next m' = counted_next m \<or> holders n (rc_pcs s) a = 0"
    and q: "rc_ref (rc_pcs s i) = None" "rc_ref q = None"
    and own: "thread_ok (Suc k) ((rc_heap s)(a \<mapsto> m')) (holders n (rc_pcs s)) q"
    and events: "rc_events s' = rc_events s" "rc_results s' = rc_results s"
    and ret: "rc_in_flight ((rc_heap s)(a \<mapsto> m')) q = rc_in_flight (rc_heap s) (rc_pcs s i)"
  shows "rc_inv n (Suc k) S s'"
proof (rule rc_inv_step [OF inv i s'(1)])
  have h: "holders n (rc_pcs s') = holders n (rc_pcs s)"
    unfolding s'(1) by (rule ext, rule holders_same [where i = i]) (simp_all add: i q)
  note apart = rc_apart [OF inv a(1)]
  show "stacked (Suc k) (rc_heap s') (holders n (rc_pcs s')) (rc_head s') S"
    unfolding h s'(2,3) by (rule stacked_kept [OF rc_invD(1) [OF inv]]) (use apart in auto)
  show "thread_ok (Suc k) (rc_heap s') (holders n (rc_pcs s')) q" unfolding h s'(2,3) by (rule own)
  show "b \<notin> set S \<and> kept (rc_heap s b) (holders n (rc_pcs s) b) (rc_heap s' b) (holders n (rc_pcs s') b)"
    if "j \<noteq> i" "rc_own (rc_pcs s j) = Some b" for j b
    using that apart rc_apart [OF inv that(2)] unfolding h s'(2,3) by auto
  show "map_option counted_next (rc_heap s' b) = map_option counted_next (rc_heap s b)"
    if "rc_ref (rc_pcs s j) = Some b" for j b
  proof -
    have "j < n" using rc_invD(8) [OF inv, of j] that by (cases "j < n") auto
    then show ?thesis using holders_pos [of j n "rc_pcs s" b] that nxt m s'(2) by auto
  qed
  show "node_ok n (Suc k) S s' b" for b
  proof (cases "b = a")
    case True
    then show ?thesis using a s' holder_allocated [OF inv] rc_invD(6) [OF inv, of a] by (auto simp: node_ok_def)
  next
    case False
    have o: "rc_own (rc_pcs s' j) = rc_own (rc_pcs s j)" for j using a s'(1) by simp
    show ?thesis by (rule node_ok_frame [OF rc_invD(6) [OF inv, of b]]) (use False in \<open>auto simp: h s'(2,3) o\<close>)
  qed
  show "rc_values S s'"
    by (rule rc_values_frame [OF rc_invD(3) [OF inv]]) (use apart s'(2) events in auto)
  show "pops_of i (rc_events s') = results_of i (rc_results s') @ rc_in_flight (rc_heap s') q"
    using rc_invD(7) [OF inv, of i] ret by (simp add: rc_returns_def events s')
qed (use rc_invD(2) [OF inv] rc_apart [OF inv a(1)] a events in auto)

lemma rc_push_new_ok:
  assumes inv: "rc_inv n k S s" and i: "i < n" and pc: "rc_pcs s i = Outside" and a: "rc_heap s a = None"
  shows "rc_good n (Suc k) (Returns (rc_push_new i v a g s))"
proof -
  let ?s = "rc_push_new i v a g s" and ?q = "Push_start v a"
  have h: "holders n (rc_pcs ?s) = holders n (rc_pcs s)"
    by (rule ext) (simp add: rc_push_new_def rc_state_defs holders_same [OF i] pc)
  have none: "holders n (rc_pcs s) a = 0" using rc_invD(6) [OF inv, of a] a by (simp add: node_ok_def)
  have new: "a \<notin> set S"
  proof
    assume "a \<in> set S"
    then have "rc_heap s a \<noteq> None" using rc_invD(1) [OF inv] by (rule stacked_allocated [rotated])
    then show False using a by simp
  qed
  have new': "rc_own (rc_pcs s j) \<noteq> Some a" for j
    using owned_allocated [OF rc_invD(4) [OF inv, of j], of a] a by auto
  have "rc_inv n (Suc k) S ?s"
  proof (rule rc_inv_step [OF inv i, where q = ?q])
    show "stacked (Suc k) (rc_heap ?s) (holders n (rc_pcs ?s)) (rc_head ?s) S"
      unfolding h by (rule stacked_kept [OF _ _ le_SucI [OF order_refl], where H = "rc_heap s" and R = "holders n (rc_pcs s)"])
        (use rc_invD(1) [OF inv] new in \<open>auto simp: rc_push_new_def rc_state_defs\<close>)
    show "rc_values S ?s"
      by (rule rc_values_frame [OF rc_invD(3) [OF inv]]) (use new in \<open>auto simp: rc_push_new_def rc_state_defs\<close>)
    show "b \<notin> set S \<and> kept (rc_heap s b) (holders n (rc_pcs s) b) (rc_heap ?s b) (holders n (rc_pcs ?s) b)"
      if "rc_own (rc_pcs s j) = Some b" for j b
      using rc_apart [OF inv that] new' that unfolding h by (auto simp: rc_push_new_def rc_state_defs)
    show "thread_ok (Suc k) (rc_heap ?s) (holders n (rc_pcs ?s)) ?q"
      unfolding h using none by (simp add: rc_push_new_def rc_state_defs)
    show "node_ok n (Suc k) S ?s b" for b
    proof (cases "b = a")
      case True
      then show ?thesis using none unfolding node_ok_def h by (auto simp: rc_push_new_def rc_state_defs)
    next
      case False
      show ?thesis
      proof (rule node_ok_frame [OF rc_invD(6) [OF inv, of b] _ fun_cong [OF h]])
        show "b \<in> set S \<or> (\<exists>j. rc_own (rc_pcs ?s j) = Some b)" if "rc_own (rc_pcs s j) = Some b" for j
          using that pc by (cases "j = i") (auto simp: rc_push_new_def rc_state_defs)
      qed (use False in \<open>simp_all add: rc_push_new_def rc_state_defs\<close>)
    qed
    show "map_option counted_next (rc_heap ?s b) = map_option counted_next (rc_heap s b)"
      if "rc_ref (rc_pcs s j) = Some b" for j b
    proof -
      have "j < n" using rc_invD(8) [OF inv, of j] that by (cases "j < n") auto
      then have "b \<noteq> a" using holders_pos [of j n "rc_pcs s" b] that none by auto
      then show ?thesis by (simp add: rc_push_new_def rc_state_defs)
    qed
  qed (use rc_invD(2) [OF inv] rc_invD(7) [OF inv, of i] new new' pc in
      \<open>simp_all add: rc_push_new_def rc_state_defs rc_returns_def\<close>)
  then show ?thesis by (rule rc_goodI)
qed

lemma rc_push_stores_ok:
  assumes inv: "rc_inv n k S s" and i: "i < n" and pc: "rc_pcs s i = Push_start v a \<or> rc_pcs s i = Push_cas v a"
    and m: "rc_heap s a = Some m"
  shows "rc_inv n (Suc k) S (rgo i (Push_cas v a) (rstore a (m\<lparr>counted_next := rc_head s\<rparr>) s))"
proof -
  have t: "counted_data m = Some v" "internal_count m = 0" "holders n (rc_pcs s) a = 0"
    using rc_invD(4) [OF inv, of i] pc m by auto
  have "rc_own (rc_pcs s i) = Some a" "rc_ref (rc_pcs s i) = None" "rc_in_flight H (rc_pcs s i) = []" for H using pc by auto
  then show ?thesis
    by (intro rc_inv_own [OF inv i, where q = "Push_cas v a" and m = m and a = a and m' = "m\<lparr>counted_next := rc_head s\<rparr>"])
      (simp_all add: rc_state_defs m t)
qed

lemma rc_push_load_ok:
  assumes inv: "rc_inv n k S s" and i: "i < n" and pc: "rc_pcs s i = Push_start v a"
  shows "rc_good n (Suc k) (rc_push_load i v a s)"
proof -
  obtain m where m: "rc_heap s a = Some m" using rc_invD(4) [OF inv, of i] pc by auto
  then show ?thesis using rc_push_stores_ok [OF inv i disjI1 [OF pc] m] by (simp add: rc_push_load_def rc_goodI)
qed

lemma rc_push_exchange_ok:
  assumes inv: "rc_inv n k S s" and i: "i < n" and pc: "rc_pcs s i = Push_cas v a"
  shows "rc_good n (Suc k) (rc_push_exchange i v a spurious s)"
proof -
  obtain m where m: "rc_heap s a = Some m" "counted_data m = Some v" "internal_count m = 0" "holders n (rc_pcs s) a = 0"
    using rc_invD(4) [OF inv, of i] pc by auto
  show ?thesis
  proof (cases "rc_head s = counted_next m \<and> \<not> spurious")
    case False
    then show ?thesis
      using rc_push_stores_ok [OF inv i disjI2 [OF pc] m(1)] m(1) by (auto simp: rc_push_exchange_def intro: rc_goodI)
  next
    case True
    let ?s = "rgo i Outside (s\<lparr>rc_head := \<lparr>external_count = 1, ptr = Some a\<rparr>, rc_events := rc_events s @ [(i, Pushed v)]\<rparr>)"
    have h: "holders n (rc_pcs ?s) = holders n (rc_pcs s)"
      by (rule ext) (simp add: rc_state_defs holders_same [OF i] pc)
    have own: "rc_own (rc_pcs s i) = Some a" using pc by simp
    note apart = rc_apart [OF inv own]
    have heap: "rc_heap ?s = rc_heap s" by (simp add: rc_state_defs)
    have "rc_inv n (Suc k) (a # S) ?s"
    proof (rule rc_inv_step [OF inv i, where q = Outside])
      have "stacked (Suc k) (rc_heap s) (holders n (rc_pcs s)) (counted_next m) S"
        using stacked_kept [OF rc_invD(1) [OF inv], of "rc_heap s" "holders n (rc_pcs s)" "Suc k"] True by simp
      then show "stacked (Suc k) (rc_heap ?s) (holders n (rc_pcs ?s)) (rc_head ?s) (a # S)"
        unfolding h heap using m by (simp add: rc_state_defs counted_def)
      obtain vs where "List.map (\<lambda>a. Option.bind (rc_heap s a) counted_data) S = List.map Some vs" "replay (rc_events s) [] = Some vs"
        using rc_invD(3) [OF inv] by (auto simp: rc_values_def)
      then show "rc_values (a # S) ?s"
        using m by (auto simp: rc_values_def rc_state_defs replay_append intro: exI [of _ "v # vs"])
      show "b \<notin> set (a # S) \<and> kept (rc_heap s b) (holders n (rc_pcs s) b) (rc_heap ?s b) (holders n (rc_pcs ?s) b)"
        if "j \<noteq> i" "rc_own (rc_pcs s j) = Some b" for j b
        using rc_apart [OF inv that(2)] own that(1) unfolding h heap by auto
      show "node_ok n (Suc k) (a # S) ?s b" for b
      proof (rule node_ok_frame [OF rc_invD(6) [OF inv, of b] _ fun_cong [OF h]])
        show "b \<in> set (a # S) \<or> (\<exists>j. rc_own (rc_pcs ?s j) = Some b)" if "rc_own (rc_pcs s j) = Some b" for j
          using that own by (cases "j = i") (auto simp: rc_state_defs)
      qed (simp_all add: rc_state_defs)
    qed (use rc_invD(2) [OF inv] rc_invD(7) [OF inv, of i] apart pc in \<open>simp_all add: rc_state_defs rc_returns_def\<close>)
    then show ?thesis using True m(1) by (simp add: rc_push_exchange_def rc_goodI)
  qed
qed

text \<open>Raising the count of the head: one holder more.\<close>

lemma increase_ok:
  assumes inv: "rc_inv n k S s" and i: "i < n" and pc: "rc_pcs s i = Increase old" and k: "k + 2 < 2 ^ 32"
  shows "rc_good n (Suc k) (Returns (increase_head_count i old s))"
proof -
  let ?new = "old\<lparr>external_count := external_count old + 1\<rparr>"
  consider "rc_head s \<noteq> old" | "rc_head s = old" "ptr old = None" | a where "rc_head s = old" "ptr old = Some a" by auto
  then show ?thesis
  proof cases
    case 1
    have "rc_inv n (Suc k) S (rgo i (Increase (rc_head s)) s)"
      by (rule rc_inv_local [OF inv i, where q = "Increase (rc_head s)"]) (simp_all add: rc_state_defs pc)
    then show ?thesis using 1 by (simp add: increase_head_count_def rc_goodI)
  next
    case 2
    let ?s = "rc_return i None (s\<lparr>rc_head := ?new, rc_events := rc_events s @ [(i, Popped None)]\<rparr>)"
    have S: "S = []" using rc_invD(1) [OF inv] 2 by (cases S) auto
    have h: "holders n (rc_pcs ?s) = holders n (rc_pcs s)"
      by (rule ext) (simp add: rc_state_defs holders_same [OF i] pc)
    have heap: "rc_heap ?s = rc_heap s" by (simp add: rc_state_defs)
    have "rc_inv n (Suc k) [] ?s"
    proof (rule rc_inv_step [OF inv i, where q = Outside])
      show "rc_values [] ?s" using rc_invD(3) [OF inv] S by (simp add: rc_values_def rc_state_defs replay_append)
      show "b \<notin> set [] \<and> kept (rc_heap s b) (holders n (rc_pcs s) b) (rc_heap ?s b) (holders n (rc_pcs ?s) b)" for b
        unfolding h heap by simp
      show "node_ok n (Suc k) [] ?s b" for b
      proof (rule node_ok_frame [OF rc_invD(6) [OF inv, of b] _ fun_cong [OF h]])
        show "b \<in> set [] \<or> (\<exists>j. rc_own (rc_pcs ?s j) = Some b)" if "rc_own (rc_pcs s j) = Some b" for j
          using that pc by (cases "j = i") (auto simp: rc_state_defs)
      qed (simp_all add: S rc_state_defs)
    qed (use rc_invD(7) [OF inv, of i] 2 pc in \<open>simp_all add: rc_state_defs rc_returns_def\<close>)
    then show ?thesis using 2 by (simp add: increase_head_count_def rc_goodI)
  next
    case (3 a)
    let ?s = "rgo i (Pop_next ?new) (s\<lparr>rc_head := ?new\<rparr>)"
    obtain as m where S: "S = a # as" and m: "rc_heap s a = Some m"
        "counted k (external_count old) (holders n (rc_pcs s) a) (internal_count m)"
        "stacked k (rc_heap s) (holders n (rc_pcs s)) (counted_next m) as"
      using rc_invD(1) [OF inv] 3 by (cases S) auto
    have h: "holders n (rc_pcs ?s) b = (if b = a then Suc (holders n (rc_pcs s) b) else holders n (rc_pcs s) b)" for b
      using holders_upd [OF i, of "rc_pcs s" "Pop_next ?new" b] 3 pc by (auto simp: rc_state_defs)
    have heap: "rc_heap ?s = rc_heap s" by (simp add: rc_state_defs)
    have a: "a \<notin> set as" "\<And>j. rc_own (rc_pcs s j) \<noteq> Some a" using rc_invD(2) [OF inv] S rc_apart [OF inv] by auto
    have "rc_inv n (Suc k) S ?s"
    proof (rule rc_inv_step [OF inv i, where q = "Pop_next ?new"])
      have "stacked (Suc k) (rc_heap s) (holders n (rc_pcs ?s)) (counted_next m) as"
        by (rule stacked_kept [OF m(3)]) (use a in \<open>auto simp: h\<close>)
      then show "stacked (Suc k) (rc_heap ?s) (holders n (rc_pcs ?s)) (rc_head ?s) S"
        unfolding heap S using m(1) counted_raise [OF m(2) k] 3 h [of a] by (simp add: rc_state_defs)
      show "b \<notin> set S \<and> kept (rc_heap s b) (holders n (rc_pcs s) b) (rc_heap ?s b) (holders n (rc_pcs ?s) b)"
        if "rc_own (rc_pcs s j) = Some b" for j b
        using rc_apart [OF inv that] a(2) [of j] that unfolding heap h by auto
      show "node_ok n (Suc k) S ?s b" for b
      proof (cases "b = a")
        case True
        then show ?thesis using m(1) S by (simp add: node_ok_def rc_state_defs)
      next
        case False
        show ?thesis
        proof (rule node_ok_frame [OF rc_invD(6) [OF inv, of b]])
          show "b \<in> set S \<or> (\<exists>j. rc_own (rc_pcs ?s j) = Some b)" if "rc_own (rc_pcs s j) = Some b" for j
            using that pc by (cases "j = i") (auto simp: rc_state_defs)
        qed (use False in \<open>simp_all only: h heap if_False, simp_all\<close>)
      qed
      show "rc_values S ?s" by (rule rc_values_frame [OF rc_invD(3) [OF inv]]) (simp_all add: rc_state_defs)
    qed (use rc_invD(2) [OF inv] rc_invD(7) [OF inv, of i] 3 pc in \<open>simp_all add: rc_state_defs rc_returns_def\<close>)
    then show ?thesis using 3 by (simp add: increase_head_count_def Let_def rc_goodI)
  qed
qed

text \<open>The exchange of \<open>pop\<close>: the head becomes the thread's own.\<close>

lemma rc_pop_exchange_ok:
  assumes inv: "rc_inv n k S s" and i: "i < n" and pc: "rc_pcs s i = Pop_cas old nxt"
  shows "rc_good n (Suc k) (Returns (rc_pop_exchange i old nxt s))"
proof -
  obtain a m where m: "ptr old = Some a" "rc_heap s a = Some m" "counted_next m = nxt"
    using rc_invD(4) [OF inv, of i] pc by auto
  show ?thesis
  proof (cases "rc_head s = old")
    case False
    have "rc_inv n (Suc k) S (rgo i (Let_go a (rc_head s)) s)"
      by (rule rc_inv_local [OF inv i, where q = "Let_go a (rc_head s)"]) (simp_all add: rc_state_defs pc m)
    then show ?thesis using False m by (simp add: rc_pop_exchange_def rc_goodI)
  next
    case True
    let ?s = "rc_pop_exchange i old nxt s"
    obtain as where S: "S = a # as" and c: "counted k (external_count old) (holders n (rc_pcs s) a) (internal_count m)"
        "stacked k (rc_heap s) (holders n (rc_pcs s)) nxt as"
      using rc_invD(1) [OF inv] m True by (cases S) auto
    obtain r where r: "holders n (rc_pcs s) a = Suc r" using holder_allocated [OF inv i, of a] pc m by auto
    have pcs: "rc_pcs ?s = (rc_pcs s)(i := Pop_swap old)" and heap: "rc_heap ?s = rc_heap s" and head: "rc_head ?s = nxt"
      using True by (simp_all add: rc_pop_exchange_def rc_state_defs)
    have h: "holders n (rc_pcs ?s) b = (if b = a then r else holders n (rc_pcs s) b)" for b
      using holders_upd [OF i, of "rc_pcs s" "Pop_swap old" b] m pc r unfolding pcs by auto
    have a: "a \<notin> set as" "\<And>j. rc_own (rc_pcs s j) \<noteq> Some a" using rc_invD(2) [OF inv] S rc_apart [OF inv] by auto
    obtain v vs where v: "counted_data m = Some v" "List.map (\<lambda>a. Option.bind (rc_heap s a) counted_data) as = List.map Some vs"
        "replay (rc_events s) [] = Some (v # vs)"
      using rc_invD(3) [OF inv] m S by (auto simp: rc_values_def Cons_eq_map_conv)
    have events: "rc_events ?s = rc_events s @ [(i, Popped (Some v))]" "rc_results ?s = rc_results s"
      using True m v by (simp_all add: rc_pop_exchange_def rc_state_defs)
    have "rc_inv n (Suc k) as ?s"
    proof (rule rc_inv_step [OF inv i pcs])
      show "stacked (Suc k) (rc_heap ?s) (holders n (rc_pcs ?s)) (rc_head ?s) as"
        unfolding heap head by (rule stacked_kept [OF c(2)]) (use a in \<open>auto simp: h\<close>)
      show "rc_values as ?s" using v by (auto simp: rc_values_def heap events replay_append)
      show "thread_ok (Suc k) (rc_heap ?s) (holders n (rc_pcs ?s)) (Pop_swap old)"
        unfolding heap using m v(1) taken_mono [OF counted_take [OF c(1) [unfolded r]]] by (simp add: h)
      show "b \<notin> set as \<and> kept (rc_heap s b) (holders n (rc_pcs s) b) (rc_heap ?s b) (holders n (rc_pcs ?s) b)"
        if "rc_own (rc_pcs s j) = Some b" for j b
        using rc_apart [OF inv that] a(2) [of j] that S unfolding heap h by auto
      show "node_ok n (Suc k) as ?s b" for b
      proof (cases "b = a")
        case True
        then show ?thesis using m by (auto simp: node_ok_def pcs heap)
      next
        case False
        show ?thesis
        proof (rule node_ok_frame [OF rc_invD(6) [OF inv, of b]])
          show "b \<in> set as \<or> (\<exists>j. rc_own (rc_pcs ?s j) = Some b)" if "rc_own (rc_pcs s j) = Some b" for j
            using that pc by (cases "j = i") (auto simp: pcs)
        qed (use False S in \<open>simp_all add: h heap\<close>)
      qed
    qed (use rc_invD(2) [OF inv] rc_invD(7) [OF inv, of i] a m S pc v in \<open>simp_all add: rc_returns_def events heap\<close>)
    then show ?thesis by (rule rc_goodI)
  qed
qed

lemma rc_pop_swap_ok:
  assumes inv: "rc_inv n k S s" and i: "i < n" and pc: "rc_pcs s i = Pop_swap old"
  shows "rc_good n (Suc k) (rc_pop_swap i old s)"
proof -
  obtain a m where m: "ptr old = Some a" "rc_heap s a = Some m"
      "taken k (external_count old) (holders n (rc_pcs s) a) (internal_count m)"
    using rc_invD(4) [OF inv, of i] pc by auto
  have "rc_inv n (Suc k) S (rgo i (Pop_add old (counted_data m)) (rstore a (m\<lparr>counted_data := None\<rparr>) s))"
    by (rule rc_inv_own [OF inv i, where q = "Pop_add old (counted_data m)" and m = m and a = a and m' = "m\<lparr>counted_data := None\<rparr>"])
      (use taken_mono [OF m(3), of "Suc k"] in \<open>simp_all add: rc_state_defs m pc\<close>)
  then show ?thesis using m by (simp add: rc_pop_swap_def rc_goodI)
qed

text \<open>The taker's addition: the node is its own to delete, or is left to those that hold it.\<close>

lemma rc_pop_add_ok:
  assumes inv: "rc_inv n k S s" and i: "i < n" and pc: "rc_pcs s i = Pop_add old res"
  shows "rc_good n (Suc k) (rc_pop_add i old res s)"
proof -
  let ?e = "external_count old"
  obtain a m where m: "ptr old = Some a" "rc_heap s a = Some m" "taken k ?e (holders n (rc_pcs s) a) (internal_count m)"
    using rc_invD(4) [OF inv, of i] pc by auto
  let ?m = "m\<lparr>internal_count := internal_count m + (?e - 2)\<rparr>"
  note add = taken_add [OF m(3)]
  have own: "rc_own (rc_pcs s i) = Some a" using pc m(1) by simp
  show ?thesis
  proof (cases "holders n (rc_pcs s) a = 0")
    case True
    have "rc_inv n (Suc k) S (rgo i (Pop_delete a res) (rstore a ?m s))"
      by (rule rc_inv_own [OF inv i, where q = "Pop_delete a res" and a = a and m = m and m' = ?m])
        (use True in \<open>simp_all add: rc_state_defs m pc\<close>)
    then show ?thesis using m True add(2) by (simp add: rc_pop_add_def Let_def rc_goodI)
  next
    case False
    let ?s = "rc_return i res (rstore a ?m s)"
    have h: "holders n (rc_pcs ?s) = holders n (rc_pcs s)"
      by (rule ext) (simp add: rc_state_defs holders_same [OF i] pc)
    have heap: "rc_heap ?s = (rc_heap s)(a \<mapsto> ?m)" by (simp add: rc_state_defs)
    note apart = rc_apart [OF inv own]
    have "rc_inv n (Suc k) S ?s"
    proof (rule rc_inv_step [OF inv i, where q = Outside])
      show "stacked (Suc k) (rc_heap ?s) (holders n (rc_pcs ?s)) (rc_head ?s) S"
        unfolding h heap using apart
        by (auto simp: rc_state_defs intro!: stacked_kept [OF rc_invD(1) [OF inv], of _ _ "Suc k"])
      show "rc_values S ?s"
        by (rule rc_values_frame [OF rc_invD(3) [OF inv]]) (auto simp: heap m, simp add: rc_state_defs)
      show "b \<notin> set S \<and> kept (rc_heap s b) (holders n (rc_pcs s) b) (rc_heap ?s b) (holders n (rc_pcs ?s) b)"
        if "j \<noteq> i" "rc_own (rc_pcs s j) = Some b" for j b
        using rc_apart [OF inv that(2)] apart that unfolding h heap by auto
      show "node_ok n (Suc k) S ?s b" for b
      proof (cases "b = a")
        case True
        have "holders n (rc_pcs s) a \<le> Suc k" using m(3) by (simp add: taken_def)
        then show ?thesis using True False add(1) unfolding node_ok_def h heap by (simp add: orphan_def)
      next
        case False
        show ?thesis
        proof (rule node_ok_frame [OF rc_invD(6) [OF inv, of b] _ fun_cong [OF h]])
          show "b \<in> set S \<or> (\<exists>j. rc_own (rc_pcs ?s j) = Some b)" if "rc_own (rc_pcs s j) = Some b" for j
            using that own False by (cases "j = i") (auto simp: rc_state_defs)
        qed (use False in \<open>simp_all add: heap\<close>)
      qed
    qed (use rc_invD(2) [OF inv] rc_invD(7) [OF inv, of i] m pc in \<open>auto simp: rc_state_defs rc_returns_def\<close>)
    then show ?thesis using m False add(2) by (simp add: rc_pop_add_def Let_def rc_goodI)
  qed
qed

lemma rc_inv_delete:
  assumes inv: "rc_inv n k S s" and i: "i < n"
    and s': "rc_pcs s' = (rc_pcs s)(i := q)" "rc_heap s' = (rc_heap s)(a := None)" "rc_head s' = rc_head s"
    and a: "rc_own (rc_pcs s i) = Some a" "holders n (rc_pcs s) a = 0"
    and q: "rc_ref (rc_pcs s i) = None" "rc_ref q = None" "rc_own q = None"
    and own: "thread_ok (Suc k) (rc_heap s') (holders n (rc_pcs s)) q"
    and events: "rc_events s' = rc_events s"
    and ret: "\<And>j. j \<noteq> i \<Longrightarrow> results_of j (rc_results s') = results_of j (rc_results s)"
      "pops_of i (rc_events s) = results_of i (rc_results s') @ rc_in_flight (rc_heap s') q"
  shows "rc_inv n (Suc k) S s'"
proof (rule rc_inv_step [OF inv i s'(1)])
  have h: "holders n (rc_pcs s') = holders n (rc_pcs s)"
    unfolding s'(1) by (rule ext, rule holders_same [where i = i]) (simp_all add: i q)
  note apart = rc_apart [OF inv a(1)]
  show "stacked (Suc k) (rc_heap s') (holders n (rc_pcs s')) (rc_head s') S"
    unfolding h s'(2,3) by (rule stacked_kept [OF rc_invD(1) [OF inv]]) (use apart in auto)
  show "thread_ok (Suc k) (rc_heap s') (holders n (rc_pcs s')) q" unfolding h by (rule own)
  show "rc_values S s'"
    by (rule rc_values_frame [OF rc_invD(3) [OF inv]]) (use apart s'(2) events in auto)
  show "b \<notin> set S \<and> kept (rc_heap s b) (holders n (rc_pcs s) b) (rc_heap s' b) (holders n (rc_pcs s') b)"
    if "j \<noteq> i" "rc_own (rc_pcs s j) = Some b" for j b
    using rc_apart [OF inv that(2)] apart that unfolding h s'(2) by auto
  show "map_option counted_next (rc_heap s' b) = map_option counted_next (rc_heap s b)"
    if "rc_ref (rc_pcs s j) = Some b" for j b
  proof -
    have "j < n" using rc_invD(8) [OF inv, of j] that by (cases "j < n") auto
    then show ?thesis using holders_pos [of j n "rc_pcs s" b] that a(2) s'(2) by auto
  qed
  show "node_ok n (Suc k) S s' b" for b
  proof (cases "b = a")
    case True
    then show ?thesis using a(2) unfolding node_ok_def h s'(2) by simp
  next
    case False
    show ?thesis
    proof (rule node_ok_frame [OF rc_invD(6) [OF inv, of b] _ fun_cong [OF h]])
      show "b \<in> set S \<or> (\<exists>j. rc_own (rc_pcs s' j) = Some b)" if "rc_own (rc_pcs s j) = Some b" for j
        using that a(1) False s'(1) by (cases "j = i") (auto intro: exI [of _ j])
    qed (use False s'(2) in simp_all)
  qed
qed (use rc_invD(2) [OF inv] q events ret in simp_all)

lemma rc_delete_allocated: "rc_heap s a \<noteq> None \<Longrightarrow> rc_delete a s = Returns (s\<lparr>rc_heap := (rc_heap s)(a := None)\<rparr>)"
  by (auto simp: rc_delete_def)

lemma rc_pop_delete_ok:
  assumes inv: "rc_inv n k S s" and i: "i < n" and pc: "rc_pcs s i = Pop_delete a res"
  shows "rc_good n (Suc k) (rc_pop_delete i a res s)"
proof -
  have t: "rc_heap s a \<noteq> None" "holders n (rc_pcs s) a = 0" using rc_invD(4) [OF inv, of i] pc by auto
  have "rc_inv n (Suc k) S (rc_return i res (s\<lparr>rc_heap := (rc_heap s)(a := None)\<rparr>))"
    by (rule rc_inv_delete [OF inv i, where q = Outside and a = a])
      (use t rc_invD(7) [OF inv, of i] in \<open>simp_all add: rc_state_defs pc rc_returns_def\<close>)
  then show ?thesis by (simp add: rc_pop_delete_def rc_delete_allocated [OF t(1)] rc_goodI)
qed

lemma rc_drop_ok:
  assumes inv: "rc_inv n k S s" and i: "i < n" and pc: "rc_pcs s i = Drop a old"
  shows "rc_good n (Suc k) (rc_drop i a old s)"
proof -
  have t: "rc_heap s a \<noteq> None" "holders n (rc_pcs s) a = 0" using rc_invD(4) [OF inv, of i] pc by auto
  have "rc_inv n (Suc k) S (rgo i (Increase old) (s\<lparr>rc_heap := (rc_heap s)(a := None)\<rparr>))"
    by (rule rc_inv_delete [OF inv i, where q = "Increase old" and a = a])
      (use t rc_invD(7) [OF inv, of i] in \<open>simp_all add: rc_state_defs pc rc_returns_def\<close>)
  then show ?thesis by (simp add: rc_drop_def rc_delete_allocated [OF t(1)] rc_goodI)
qed

text \<open>The last of the holders of an orphan sees the count 1; nobody sees it on another node.\<close>

lemma last_holder:
  assumes "rc_inv n k S s" "k < 2 ^ 32" "rc_heap s a = Some m" "holders n (rc_pcs s) a = Suc r" "internal_count m = 1"
  shows "r = 0 \<and> a \<notin> set S \<and> (\<forall>j. rc_own (rc_pcs s j) \<noteq> Some a)"
proof -
  have S: "a \<notin> set S"
    using stacked_counted [OF rc_invD(1) [OF assms(1)], of a] counted_not_last assms(3,5) by fastforce
  have o: "rc_own (rc_pcs s j) \<noteq> Some a" for j
    using owned_counted [OF rc_invD(4) [OF assms(1), of j], of a] taken_not_last assms(3-5) by fastforce
  have "orphan k (rc_heap s a) (Suc r)"
    using rc_invD(6) [OF assms(1), of a] S o assms(3,4) by (auto simp: node_ok_def)
  then have "(1 :: 32 word) = of_nat (Suc r)" "Suc r \<le> k" using assms(3,5) by (auto simp: orphan_def)
  then have "unat (1 :: 32 word) = Suc r" using assms(2) by (intro word_unat_eq) simp_all
  then show ?thesis using S o by simp
qed

lemma rc_let_go_ok:
  fixes s :: "'a rc_stack"
  assumes inv: "rc_inv n k S s" and i: "i < n" and pc: "rc_pcs s i = Let_go a old" and k: "k < 2 ^ 32"
  shows "rc_good n (Suc k) (rc_let_go i a old s)"
proof -
  obtain m r where m: "rc_heap s a = Some m" "holders n (rc_pcs s) a = Suc r"
    using holder_allocated [OF inv i, of a] pc by auto
  let ?m = "m\<lparr>internal_count := internal_count m - 1\<rparr>"
  define q :: "'a rc_pc" where "q = (if internal_count m = 1 then Drop a old else Increase old)"
  let ?s = "rgo i q (rstore a ?m s)"
  have q: "rc_ref q = None" "rc_in_flight H q = []" for H by (simp_all add: q_def)
  have h: "holders n (rc_pcs ?s) b = (if b = a then r else holders n (rc_pcs s) b)" for b
    using holders_upd [OF i, of "rc_pcs s" q b] pc m(2) q(1) by (auto simp: rc_state_defs)
  have heap: "rc_heap ?s = (rc_heap s)(a \<mapsto> ?m)" by (simp add: rc_state_defs)
  have kept: "kept (rc_heap s b) (holders n (rc_pcs s) b) (rc_heap ?s b) (holders n (rc_pcs ?s) b)" for b
    unfolding h heap using m by (auto simp: kept_def)
  have "rc_inv n (Suc k) S ?s"
  proof (rule rc_inv_step [OF inv i, where q = q])
    show "stacked (Suc k) (rc_heap ?s) (holders n (rc_pcs ?s)) (rc_head ?s) S"
      using stacked_kept [OF rc_invD(1) [OF inv], of "rc_heap ?s" "holders n (rc_pcs ?s)" "Suc k"] kept
      by (simp add: rc_state_defs)
    show "rc_values S ?s"
      by (rule rc_values_frame [OF rc_invD(3) [OF inv]]) (use kept_data [OF kept] in \<open>simp_all add: rc_state_defs\<close>)
    have "H a = Some ?m \<Longrightarrow> R a = r \<Longrightarrow> thread_ok (Suc k) H R q" for H R
      using last_holder [OF inv k m] by (simp add: q_def)
    then show "thread_ok (Suc k) (rc_heap ?s) (holders n (rc_pcs ?s)) q" by (simp add: h heap)
    show "b \<notin> set S \<and> (\<forall>j. j \<noteq> i \<longrightarrow> rc_own (rc_pcs s j) \<noteq> Some b)" if "rc_own q = Some b" for b
      using that last_holder [OF inv k m] by (auto simp: q_def split: if_splits)
    show "b \<notin> set S \<and> kept (rc_heap s b) (holders n (rc_pcs s) b) (rc_heap ?s b) (holders n (rc_pcs ?s) b)"
      if "rc_own (rc_pcs s j) = Some b" for j b
      using rc_apart [OF inv that] kept by blast
    show "map_option counted_next (rc_heap ?s b) = map_option counted_next (rc_heap s b)" for b
      using m by (simp add: heap)
    show "node_ok n (Suc k) S ?s b" for b
    proof (cases "b = a")
      case False
      show ?thesis
      proof (rule node_ok_frame [OF rc_invD(6) [OF inv, of b]])
        show "b \<in> set S \<or> (\<exists>j. rc_own (rc_pcs ?s j) = Some b)" if "rc_own (rc_pcs s j) = Some b" for j
          using that pc by (cases "j = i") (auto simp: rc_state_defs)
      qed (use False in \<open>simp_all add: h heap\<close>)
    next
      case True
      have "orphan (Suc k) (rc_heap ?s a) r" if "a \<notin> set S" "\<forall>j. rc_own (rc_pcs ?s j) \<noteq> Some a"
      proof -
        have "rc_own (rc_pcs s j) \<noteq> Some a" for j
          using spec [OF that(2), of j] pc by (cases "j = i") (auto simp: rc_state_defs)
        then have o: "orphan k (Some m) (Suc r)" using rc_invD(6) [OF inv, of a] that(1) m by (auto simp: node_ok_def)
        moreover have "rc_own q \<noteq> Some a" using spec [OF that(2), of i] by (simp add: rc_state_defs)
        then have "internal_count m \<noteq> 1" by (auto simp: q_def)
        then have "0 < r" using o by (cases r) (auto simp: orphan_def)
        ultimately show ?thesis unfolding heap by (simp add: orphan_def)
      qed
      then show ?thesis using True unfolding node_ok_def by (simp add: h heap)
    qed
  qed (use rc_invD(2) [OF inv] rc_invD(7) [OF inv, of i] pc q in \<open>simp_all add: rc_state_defs rc_returns_def\<close>)
  then show ?thesis using m by (auto simp: rc_let_go_def q_def Let_def intro: rc_goodI split: if_splits)
qed

lemma rc_advance_ok:
  assumes inv: "rc_inv n k S s" and i: "i < n" and k: "k + 2 < 2 ^ 32"
  shows "rc_good n (Suc k) (rc_advance i call spurious s)"
proof (cases "rc_pcs s i")
  case Outside
  show ?thesis
  proof (cases call)
    case (Call_push v a g)
    then show ?thesis
      using rc_push_new_ok [OF inv i Outside, of a v g] Outside by (simp add: rc_advance_def) (simp add: rc_good_def)
  next
    case Call_pop
    then show ?thesis using rc_pop_enter_ok [OF inv i Outside] Outside by (simp add: rc_advance_def)
  qed
qed (use rc_push_load_ok [OF inv i] rc_push_exchange_ok [OF inv i] rc_pop_load_ok [OF inv i] increase_ok [OF inv i _ k]
    rc_pop_next_ok [OF inv i] rc_pop_exchange_ok [OF inv i] rc_pop_swap_ok [OF inv i] rc_pop_add_ok [OF inv i]
    rc_pop_delete_ok [OF inv i] rc_let_go_ok [OF inv i] rc_drop_ok [OF inv i] k
    in \<open>simp_all add: rc_advance_def\<close>)

lemma rc_reaches: "(rc_step n ^^ k) (rc_new g) s \<Longrightarrow> k + 1 < 2 ^ 32 \<Longrightarrow> \<exists>S. rc_inv n k S s"
proof (induction k arbitrary: s)
  case 0
  then show ?case using rc_inv_new by auto
next
  case (Suc k)
  then obtain t where t: "(rc_step n ^^ k) (rc_new g) t" "rc_step n t s" by auto
  then obtain S where "rc_inv n k S t" using Suc by fastforce
  moreover obtain i call spurious where "i < n" "rc_advance i call spurious t = Returns s" using t(2) by (rule rc_stepE)
  ultimately show ?case
    using rc_advance_ok [of n k S t i call spurious] Suc.prems(2) by (simp add: rc_good_def)
qed

section \<open>Schedules\<close>

fun rc_run :: "(nat \<times> 'a rc_call) list \<Rightarrow> 'a rc_stack \<Rightarrow> 'a rc_stack outcome" where
  "rc_run [] s = Returns s"
| "rc_run ((i, call) # sched) s = and_then (rc_advance i call False s) (rc_run sched)"

lemma rc_run_steps:
  "rc_run sched s = Returns s' \<Longrightarrow> \<forall>e\<in>set sched. fst e < n \<Longrightarrow> (rc_step n ^^ length sched) s s'"
proof (induction sched s rule: rc_run.induct)
  case (2 i call sched s)
  then obtain s1 where s1: "rc_advance i call False s = Returns s1" "rc_run sched s1 = Returns s'"
    by (cases "rc_advance i call False s") auto
  then have "rc_step n s s1" "(rc_step n ^^ length sched) s1 s'" using 2 by (auto intro: rc_step.rc_step)
  then show ?case by (auto intro!: relpowp_Suc_I2 simp del: relpowp.simps)
qed simp

lemma rc_run_reachable: "rc_run sched s = Returns s' \<Longrightarrow> \<forall>e\<in>set sched. fst e < n \<Longrightarrow> (rc_step n)\<^sup>*\<^sup>* s s'"
  using rc_run_steps [of sched s s' n] relpowp_imp_rtranclp by metis

lemmas rc_step_defs = rc_advance_def rc_push_new_def rc_push_load_def rc_push_exchange_def rc_pop_load_def
  increase_head_count_def rc_pop_next_def rc_pop_exchange_def rc_pop_swap_def rc_pop_add_def rc_pop_delete_def
  rc_let_go_def rc_drop_def rc_delete_def rc_deref_def rc_state_defs rc_new_def Let_def

text \<open>Two threads that take turns on one node: the first is about to exchange the head, the second raises
  the count and makes the exchange fail.\<close>

definition duel :: "nat \<Rightarrow> nat \<Rightarrow> 32 word \<Rightarrow> nat \<Rightarrow> 'a \<Rightarrow> 32 word \<Rightarrow> 'a rc_stack" where
  "duel i j g a v e =
     \<lparr>rc_heap = [a \<mapsto> \<lparr>counted_data = Some v, internal_count = 2 - e, counted_next = \<lparr>external_count = g, ptr = None\<rparr>\<rparr>],
      rc_head = \<lparr>external_count = e, ptr = Some a\<rparr>,
      rc_pcs = (\<lambda>_. Outside)(i := Pop_cas \<lparr>external_count = e, ptr = Some a\<rparr> \<lparr>external_count = g, ptr = None\<rparr>,
        j := Increase \<lparr>external_count = e, ptr = Some a\<rparr>),
      rc_events = [(0, Pushed v)], rc_results = []\<rparr>"

definition duel_round :: "nat \<Rightarrow> nat \<Rightarrow> (nat \<times> 'a rc_call) list" where
  "duel_round i j = [(j, Call_pop), (i, Call_pop), (i, Call_pop), (j, Call_pop)]"

lemma duel_start:
  "rc_run (replicate 3 (0, Call_push v a x) @ replicate 4 (1, Call_pop) @ replicate 2 (2, Call_pop)) (rc_new g)
     = Returns (duel 1 2 g a v 2)"
  by (simp add: eval_nat_numeral rc_step_defs duel_def fun_eq_iff)

lemma duel_turn: "i \<noteq> j \<Longrightarrow> e \<noteq> 1 \<Longrightarrow> rc_run (duel_round i j) (duel i j g a v e) = Returns (duel j i g a v (e + 1))"
  by (simp add: duel_round_def rc_step_defs duel_def fun_upd_twist)

lemma steps_trans: "(R ^^ k) x y \<Longrightarrow> (R ^^ l) y z \<Longrightarrow> (R ^^ (k + l)) x z"
  by (auto simp: relpowp_add)

lemma duel_goes_on:
  "m < 2 ^ 32 \<Longrightarrow> \<exists>i j. (i = 1 \<and> j = 2 \<or> i = 2 \<and> j = 1) \<and> (rc_step 3 ^^ (9 + 4 * m)) (rc_new g) (duel i j g a v (2 + of_nat m))"
proof (induction m)
  case 0
  have "(rc_step 3 ^^ 9) (rc_new g) (duel 1 2 g a v 2)" using rc_run_steps [where n = 3, OF duel_start] by (simp del: relpowp.simps)
  then show ?case by (intro exI [of _ 1] exI [of _ 2]) simp
next
  case (Suc m)
  then obtain i j where ij: "i = 1 \<and> j = 2 \<or> i = 2 \<and> j = (1 :: nat)"
      and r: "(rc_step 3 ^^ (9 + 4 * m)) (rc_new g) (duel i j g a v (2 + of_nat m))" by fastforce
  have "2 + of_nat m \<noteq> (1 :: 32 word)"
  proof
    assume "2 + of_nat m = (1 :: 32 word)"
    then have "of_nat (Suc m) = (0 :: 32 word)" by (simp add: algebra_simps)
    then show False using word_unat_eq [of 0 "Suc m"] Suc.prems by simp
  qed
  then have turn: "rc_run (duel_round i j) (duel i j g a v (2 + of_nat m)) = Returns (duel j i g a v (2 + of_nat (Suc m)))"
    using duel_turn [of i j "2 + of_nat m"] ij by (auto simp: algebra_simps)
  have "length (duel_round i j) = 4" "\<forall>e\<in>set (duel_round i j). fst e < 3"
    using ij by (auto simp: duel_round_def)
  with rc_run_steps [where n = 3, OF turn]
  have "(rc_step 3 ^^ 4) (duel i j g a v (2 + of_nat m)) (duel j i g a v (2 + of_nat (Suc m)))" by metis
  from steps_trans [OF r this] have "(rc_step 3 ^^ (9 + 4 * Suc m)) (rc_new g) (duel j i g a v (2 + of_nat (Suc m)))"
    by (simp add: algebra_simps del: relpowp.simps)
  then show ?case using ij by blast
qed

text \<open>One thread that pops from the empty stack: each call raises the count.\<close>

definition no_nodes :: "(nat \<times> 'a stack_event) list \<Rightarrow> (nat \<times> 'a option) list \<Rightarrow> 32 word \<Rightarrow> 'a rc_stack" where
  "no_nodes es rs e = \<lparr>rc_heap = Map.empty, rc_head = \<lparr>external_count = e, ptr = None\<rparr>, rc_pcs = (\<lambda>_. Outside),
     rc_events = es, rc_results = rs\<rparr>"

lemma empty_pops:
  "\<exists>es rs. (rc_step 1 ^^ (3 * m)) (rc_new 0) (no_nodes es rs (of_nat m) :: 'a rc_stack)"
proof (induction m)
  case 0
  show ?case by (auto simp: rc_new_def no_nodes_def)
next
  case (Suc m)
  then obtain es rs where r: "(rc_step 1 ^^ (3 * m)) (rc_new 0) (no_nodes es rs (of_nat m) :: 'a rc_stack)" by blast
  have "rc_run (replicate 3 (0, Call_pop)) (no_nodes es rs (of_nat m))
      = Returns (no_nodes (es @ [(0, Popped None)]) (rs @ [(0, None :: 'a option)]) (of_nat (Suc m)))"
    by (simp add: eval_nat_numeral rc_step_defs no_nodes_def fun_eq_iff)
  from rc_run_steps [OF this, of 1]
  have "(rc_step 1 ^^ 3) (no_nodes es rs (of_nat m)) (no_nodes (es @ [(0, Popped None)]) (rs @ [(0, None :: 'a option)]) (of_nat (Suc m)))"
    by (simp del: relpowp.simps)
  from steps_trans [OF r this] show ?case by (intro exI) (simp add: algebra_simps del: relpowp.simps)
qed

section \<open>Properties\<close>

fun points :: "(nat \<Rightarrow> 'a counted_node option) \<Rightarrow> counted_node_ptr \<Rightarrow> nat list \<Rightarrow> bool" where
  "points H p [] \<longleftrightarrow> ptr p = None"
| "points H p (a # as) \<longleftrightarrow> ptr p = Some a \<and> (\<exists>m. H a = Some m \<and> points H (counted_next m) as)"

lemma stacked_points: "stacked k H R p as \<Longrightarrow> points H p as"
  by (induction as arbitrary: p) auto

text \<open>
  C33. For any number of threads and every interleaving of fewer than \<open>2 ^ 32 - 1\<close> steps, so that the
  counts do not wrap: no step of the stack with reference counts uses a null or deleted pointer; the
  nodes from \<open>_head\<close> hold what the pushes and pops so far, taken as single steps in the order of their
  exchanges, make of an empty stack; every call of \<open>pop\<close> returns what its step took; and when no thread
  is inside, the allocated nodes are those on the stack, so every node that was popped has been deleted.
\<close>

theorem counted_stack_safe:
  assumes "(rc_step n ^^ k) (rc_new g) s" "k + 2 < 2 ^ 32" "i < n"
  shows "rc_advance i call spurious s \<noteq> Undefined
    \<and> (\<exists>ns vs. points (rc_heap s) (rc_head s) ns
        \<and> List.map (\<lambda>a. Option.bind (rc_heap s a) counted_data) ns = List.map Some vs \<and> replay (rc_events s) [] = Some vs
        \<and> ((\<forall>j. rc_pcs s j = Outside) \<longrightarrow> dom (rc_heap s) = set ns))
    \<and> (\<exists>on_its_way. length on_its_way \<le> 1 \<and> pops_of i (rc_events s) = results_of i (rc_results s) @ on_its_way)"
proof (intro conjI)
  obtain S where inv: "rc_inv n k S s" using rc_reaches [OF assms(1)] assms(2) by auto
  show "rc_advance i call spurious s \<noteq> Undefined"
    using rc_advance_ok [OF inv assms(3,2), of call spurious] by (auto simp: rc_good_def)
  obtain vs where vs: "List.map (\<lambda>a. Option.bind (rc_heap s a) counted_data) S = List.map Some vs" "replay (rc_events s) [] = Some vs"
    using rc_invD(3) [OF inv] by (auto simp: rc_values_def)
  have "dom (rc_heap s) = set S" if out: "\<forall>j. rc_pcs s j = Outside"
  proof -
    have "holders n (rc_pcs s) a = 0" for a using out by (simp add: holders_def)
    then have "rc_heap s a \<noteq> None \<Longrightarrow> a \<in> set S" for a
      using rc_invD(6) [OF inv, of a] out by (auto simp: node_ok_def orphan_def)
    then show ?thesis using stacked_allocated [OF rc_invD(1) [OF inv]] by auto
  qed
  then show "\<exists>ns vs. points (rc_heap s) (rc_head s) ns
        \<and> List.map (\<lambda>a. Option.bind (rc_heap s a) counted_data) ns = List.map Some vs \<and> replay (rc_events s) [] = Some vs
        \<and> ((\<forall>j. rc_pcs s j = Outside) \<longrightarrow> dom (rc_heap s) = set ns)"
    using stacked_points [OF rc_invD(1) [OF inv]] vs by blast
  have "length (rc_in_flight (rc_heap s) (rc_pcs s i)) \<le> 1" by (cases "rc_pcs s i") simp_all
  then show "\<exists>on_its_way. length on_its_way \<le> 1 \<and> pops_of i (rc_events s) = results_of i (rc_results s) @ on_its_way"
    using rc_invD(7) [OF inv, of i] unfolding rc_returns_def by blast
qed

theorem counted_stack_safe_witness:
  "\<exists>s :: nat rc_stack. (\<forall>j. rc_pcs s j = Outside) \<and> rc_results s = [(1, Some 9)]
    \<and> (rc_advance 1 Call_pop False s \<noteq> Undefined
    \<and> (\<exists>ns vs. points (rc_heap s) (rc_head s) ns
        \<and> List.map (\<lambda>a. Option.bind (rc_heap s a) counted_data) ns = List.map Some vs \<and> replay (rc_events s) [] = Some vs
        \<and> ((\<forall>j. rc_pcs s j = Outside) \<longrightarrow> dom (rc_heap s) = set ns))
    \<and> (\<exists>on_its_way. length on_its_way \<le> 1 \<and> pops_of 1 (rc_events s) = results_of 1 (rc_results s) @ on_its_way))"
proof -
  let ?x = "\<lparr>external_count = 5, ptr = None\<rparr>"
  let ?sched = "replicate 3 (0, Call_push 7 3 ?x) @ replicate 3 (0, Call_push 9 5 ?x) @ replicate 8 (1, Call_pop)"
  obtain s :: "nat rc_stack" where s: "rc_run ?sched (rc_new 0) = Returns s"
      "\<forall>j. rc_pcs s j = Outside" "rc_results s = [(1, Some 9)]"
    by (simp add: eval_nat_numeral rc_step_defs)
  have r: "(rc_step 2 ^^ 14) (rc_new 0) s" using rc_run_steps [OF s(1), of 2] by auto
  show ?thesis
    by (rule exI [of _ s], rule conjI [OF s(2) conjI [OF s(3) counted_stack_safe [OF r]]]) simp_all
qed

text \<open>The increment of \<open>external_count\<close>, an \<open>int\<close>, is undefined when it holds the greatest \<open>int\<close>.\<close>

definition count_overflows :: "nat \<Rightarrow> 'a rc_stack \<Rightarrow> bool" where
  "count_overflows i s \<longleftrightarrow>
     (case rc_pcs s i of Increase old_counter \<Rightarrow> sint (external_count old_counter) = 2 ^ 31 - 1 | _ \<Rightarrow> False)"

text \<open>
  C34. The signed count of the pointer to the head overflows, which is undefined behaviour, after as many
  steps as it takes to raise it one by one: with one value on the stack and two threads in \<open>pop\<close> whose
  exchanges fail in turn, each failed exchange raises the count of the node, and after \<open>2 ^ 31 - 3\<close> rounds of four
  steps, with nothing popped and the node in place, a thread is about to increment the greatest \<open>int\<close>;
  and so is a single thread after \<open>2 ^ 31 - 1\<close> calls of \<open>pop\<close> on an empty stack whose count was 0.
\<close>

theorem counted_stack_overflows:
  "(\<exists>s j. (rc_step 3 ^^ (9 + 4 * (2 ^ 31 - 3))) (rc_new g) s \<and> rc_events s = [(0, Pushed v)] \<and> rc_results s = []
      \<and> ptr (rc_head s) = Some a \<and> rc_heap s a \<noteq> None \<and> count_overflows j s)
   \<and> (\<exists>s :: 'a rc_stack. (rc_step 1 ^^ (3 * (2 ^ 31 - 1) + 2)) (rc_new 0) s \<and> rc_heap s = Map.empty \<and> count_overflows 0 s)"
proof
  obtain m :: nat where m: "m = 2 ^ 31 - 3" by blast
  have e: "2 + of_nat m = (0x7FFFFFFF :: 32 word)" "m < 2 ^ 32" unfolding m by simp_all
  obtain i j where ij: "i = 1 \<and> j = 2 \<or> i = 2 \<and> j = (1 :: nat)"
      and r: "(rc_step 3 ^^ (9 + 4 * m)) (rc_new g) (duel i j g a v 0x7FFFFFFF)"
    using duel_goes_on [OF e(2), of g a v] e(1) by auto
  show "\<exists>s j. (rc_step 3 ^^ (9 + 4 * (2 ^ 31 - 3))) (rc_new g) s \<and> rc_events s = [(0, Pushed v)] \<and> rc_results s = []
      \<and> ptr (rc_head s) = Some a \<and> rc_heap s a \<noteq> None \<and> count_overflows j s"
    unfolding m [symmetric]
    by (intro exI [of _ "duel i j g a v 0x7FFFFFFF"] exI [of _ j] conjI r) (simp_all add: duel_def count_overflows_def)
next
  obtain m :: nat where m: "m = 2 ^ 31 - 1" by blast
  have e: "of_nat m = (0x7FFFFFFF :: 32 word)" unfolding m by simp
  obtain es rs where r: "(rc_step 1 ^^ (3 * m)) (rc_new 0) (no_nodes es rs 0x7FFFFFFF :: 'a rc_stack)"
    using empty_pops [of m] unfolding e by blast
  obtain s :: "'a rc_stack" where s: "rc_run (replicate 2 (0, Call_pop)) (no_nodes es rs 0x7FFFFFFF) = Returns s"
      "rc_heap s = Map.empty" "count_overflows 0 s"
    by (simp add: eval_nat_numeral rc_step_defs no_nodes_def count_overflows_def)
  have "(rc_step 1 ^^ 2) (no_nodes es rs 0x7FFFFFFF) s" using rc_run_steps [OF s(1), of 1] by (simp del: relpowp.simps)
  from steps_trans [OF r this] s(2,3)
  show "\<exists>s :: 'a rc_stack. (rc_step 1 ^^ (3 * (2 ^ 31 - 1) + 2)) (rc_new 0) s \<and> rc_heap s = Map.empty \<and> count_overflows 0 s"
    unfolding m by blast
qed

end
