(* ===== verification/Quick_Sort.thy ===== *)
theory Quick_Sort
  imports "HOL-Library.Multiset"
begin

text \<open>
  Quicksort on lists, as \<open>cpp-concurrency-in-action/4.x3.parallel_quick_sort\<close> has it twice: one thread,
  and with \<open>std::async\<close> for the lower part. \<open>std::partition\<close> puts the elements that satisfy a
  predicate first and may otherwise reorder them as it likes, so it is a parameter (\<open>part\<close>) of which
  only this is assumed.
\<close>

definition partitions :: "(('a \<Rightarrow> bool) \<Rightarrow> 'a list \<Rightarrow> 'a list \<times> 'a list) \<Rightarrow> bool" where
  "partitions part \<longleftrightarrow> (\<forall>P xs lower higher. part P xs = (lower, higher) \<longrightarrow>
     mset lower + mset higher = mset xs \<and> (\<forall>x\<in>set lower. P x) \<and> (\<forall>x\<in>set higher. \<not> P x))"

lemma partitionsD:
  assumes "partitions part" "part P xs = (lower, higher)"
  shows "mset lower + mset higher = mset xs" "\<forall>x\<in>set lower. P x" "\<forall>x\<in>set higher. \<not> P x"
    "length lower + length higher = length xs" "set lower \<union> set higher = set xs"
proof -
  show m: "mset lower + mset higher = mset xs" "\<forall>x\<in>set lower. P x" "\<forall>x\<in>set higher. \<not> P x"
    using assms unfolding partitions_def by blast+
  have a: "mset (lower @ higher) = mset xs" using m(1) by simp
  show "length lower + length higher = length xs" using mset_eq_length [OF a] by simp
  show "set lower \<union> set higher = set xs" using mset_eq_setD [OF a] by simp
qed

lemma partitions_filter: "partitions (\<lambda>P xs. (filter P xs, filter (\<lambda>x. \<not> P x) xs))"
  by (auto simp: partitions_def)

text \<open>The pivot between the sorted parts.\<close>

lemma sort_partition:
  assumes "partitions part" "part (\<lambda>t. t < x) xs = (lower, higher)"
  shows "sort (x # xs) = sort lower @ x # sort (higher :: 'a :: linorder list)"
proof (rule properties_for_sort)
  note p = partitionsD [OF assms]
  show "mset (sort lower @ x # sort higher) = mset (x # xs)" using p(1) by simp
  show "sorted (sort lower @ x # sort higher)" using p(2,3) by (fastforce simp: sorted_append)
qed

partial_function (option) sequential_quick_sort ::
  "(('a :: linorder \<Rightarrow> bool) \<Rightarrow> 'a list \<Rightarrow> 'a list \<times> 'a list) \<Rightarrow> 'a list \<Rightarrow> 'a list option" where
  "sequential_quick_sort part input =
     (case input of
        [] \<Rightarrow> Some []
      | pivot # input \<Rightarrow>
          (let (lower_part, input) = part (\<lambda>t. t < pivot) input
           in Option.bind (sequential_quick_sort part lower_part) (\<lambda>new_lower.
              Option.bind (sequential_quick_sort part input) (\<lambda>new_higher.
                Some (new_lower @ pivot # new_higher)))))"

text \<open>
  \<open>std::async\<close> starts the function in another thread, or when its result is asked for; the caller
  sorts the higher part first and then asks.
\<close>

partial_function (option) parallel_quick_sort ::
  "(('a :: linorder \<Rightarrow> bool) \<Rightarrow> 'a list \<Rightarrow> 'a list \<times> 'a list) \<Rightarrow> 'a list \<Rightarrow> 'a list option" where
  "parallel_quick_sort part input =
     (case input of
        [] \<Rightarrow> Some []
      | pivot # input \<Rightarrow>
          (let (lower_part, input) = part (\<lambda>t. t < pivot) input
           in Option.bind (parallel_quick_sort part input) (\<lambda>new_higher.
              Option.bind (parallel_quick_sort part lower_part) (\<lambda>new_lower.
                Some (new_lower @ pivot # new_higher)))))"

lemma sequential_quick_sort_sorts: "partitions part \<Longrightarrow> sequential_quick_sort part xs = Some (sort xs)"
proof (induction "length xs" arbitrary: xs rule: less_induct)
  case less
  show ?case
  proof (cases xs)
    case (Cons x ys)
    obtain lower higher where p: "part (\<lambda>t. t < x) ys = (lower, higher)" by fastforce
    then have "length lower < length xs" "length higher < length xs"
      using partitionsD(4) [OF less.prems p] Cons by simp_all
    then have "sequential_quick_sort part lower = Some (sort lower)" "sequential_quick_sort part higher = Some (sort higher)"
      using less.hyps less.prems by simp_all
    then show ?thesis
      unfolding Cons by (subst sequential_quick_sort.simps) (use p sort_partition [OF less.prems p] in simp)
  qed (simp add: sequential_quick_sort.simps)
qed

lemma parallel_quick_sort_sorts: "partitions part \<Longrightarrow> parallel_quick_sort part xs = Some (sort xs)"
proof (induction "length xs" arbitrary: xs rule: less_induct)
  case less
  show ?case
  proof (cases xs)
    case (Cons x ys)
    obtain lower higher where p: "part (\<lambda>t. t < x) ys = (lower, higher)" by fastforce
    then have "length lower < length xs" "length higher < length xs"
      using partitionsD(4) [OF less.prems p] Cons by simp_all
    then have "parallel_quick_sort part lower = Some (sort lower)" "parallel_quick_sort part higher = Some (sort higher)"
      using less.hyps less.prems by simp_all
    then show ?thesis
      unfolding Cons by (subst parallel_quick_sort.simps) (use p sort_partition [OF less.prems p] in simp)
  qed (simp add: parallel_quick_sort.simps)
qed

text \<open>
  Both versions return, and return the sorted list, however \<open>std::partition\<close> reorders.
\<close>

theorem quick_sorts_sort:
  assumes "partitions part"
  shows "sequential_quick_sort part xs = Some (sort xs) \<and> parallel_quick_sort part xs = Some (sort xs)"
  using assms by (simp add: sequential_quick_sort_sorts parallel_quick_sort_sorts)

theorem quick_sorts_sort_witness:
  "sequential_quick_sort (\<lambda>P xs. (filter P xs, filter (\<lambda>x. \<not> P x) xs)) [5, 7, 3 :: nat] = Some [3, 5, 7]
    \<and> parallel_quick_sort (\<lambda>P xs. (filter P xs, filter (\<lambda>x. \<not> P x) xs)) [5, 7, 3 :: nat] = Some [3, 5, 7]"
  using quick_sorts_sort [OF partitions_filter, of "[5, 7, 3 :: nat]"] by simp

end
