(* ===== verification/Pool_Sort.thy ===== *)
theory Pool_Sort
  imports Thread_Pool Quick_Sort
begin

text \<open>
  \<open>sorter_using_tp\<close> and \<open>parallel_quick_sort_using_tp\<close> of
  \<open>cpp-concurrency-in-action/9.thread_pool/thread_pool.hpp\<close>: quicksort that submits the lower part to a
  thread pool, sorts the higher part itself and, while the lower part is not ready, runs pending tasks.
  Any number of threads run the code at the same time; a step is one operation on the pool or a
  future, or local work up to the next call or return.
\<close>

section \<open>Threads\<close>

text \<open>
  A task is a future and the chunk to sort for it. A thread is a stack of calls, the innermost first:
  a call of \<open>do_sort\<close> that has the pivot and the future of the lower part and either waits for its own
  recursive call on the higher part to return, or has that result and waits for the future; and a
  task, whose result goes into its future.
\<close>

datatype 'a frame =
    In_higher 'a nat
  | Waiting 'a "'a list" nat
  | In_task nat

text \<open>What the thread does at the top of its stack.\<close>

datatype 'a activity = Calling "'a list" | Returning "'a list" | Polling | At_rest

text \<open>The futures that were made are those below \<open>next_future\<close>; for each, its chunk is kept for the
  statements, and its value when it is ready.\<close>

record 'a sorter =
  sort_pool :: "(nat \<times> 'a list) pool"
  futures :: "nat \<Rightarrow> 'a list option"
  next_future :: nat
  chunk_of :: "nat \<Rightarrow> 'a list"
  stack :: "nat \<Rightarrow> 'a frame list"
  activity :: "nat \<Rightarrow> 'a activity"

text \<open>Thread 0 calls \<open>do_sort\<close>; the others are the workers.\<close>

definition sorter_new :: "bool \<Rightarrow> nat \<Rightarrow> 'a list \<Rightarrow> 'a sorter" where
  "sorter_new use_local thread_count input =
     \<lparr>sort_pool = pool_start use_local thread_count, futures = (\<lambda>_. None), next_future = 0, chunk_of = (\<lambda>_. []),
      stack = (\<lambda>_. []), activity = (\<lambda>i. if i = 0 then Calling input else At_rest)\<rparr>"

section \<open>\<open>do_sort\<close>\<close>

text \<open>Up to the recursive call.\<close>

definition do_sort_call :: "(('a :: linorder \<Rightarrow> bool) \<Rightarrow> 'a list \<Rightarrow> 'a list \<times> 'a list) \<Rightarrow> nat \<Rightarrow> 'a list \<Rightarrow> 'a sorter \<Rightarrow> 'a sorter" where
  "do_sort_call part i chunk s =
     (case chunk of
        [] \<Rightarrow> s\<lparr>activity := (activity s)(i := Returning [])\<rparr>
      | partition_value # chunk \<Rightarrow>
          (let (new_lower_chunk, chunk) = part (\<lambda>val. val < partition_value) chunk;
               new_lower = next_future s
           in s\<lparr>sort_pool := submit i (new_lower, new_lower_chunk) (sort_pool s), next_future := Suc new_lower,
                chunk_of := (chunk_of s)(new_lower := new_lower_chunk),
                stack := (stack s)(i := In_higher partition_value new_lower # stack s i),
                activity := (activity s)(i := Calling chunk)\<rparr>))"

text \<open>A call that returns: to the call of \<open>do_sort\<close> around it, or to the task, whose future becomes
  ready; the thread then goes on polling, or is at rest. The last call of thread 0 has nowhere to
  return to.\<close>

definition do_sort_return :: "nat \<Rightarrow> 'a list \<Rightarrow> 'a sorter \<Rightarrow> 'a sorter option" where
  "do_sort_return i result s =
     (case stack s i of
        In_higher pivot new_lower # rest \<Rightarrow>
          Some (s\<lparr>stack := (stack s)(i := Waiting pivot result new_lower # rest), activity := (activity s)(i := Polling)\<rparr>)
      | In_task f # rest \<Rightarrow>
          Some (s\<lparr>futures := (futures s)(f \<mapsto> result), stack := (stack s)(i := rest),
              activity := (activity s)(i := if rest = [] then At_rest else Polling)\<rparr>)
      | _ \<Rightarrow> None)"

text \<open>Starting a task that \<open>run_pending_task\<close> has taken.\<close>

definition start_task :: "nat \<Rightarrow> (nat \<times> 'a list) \<times> (nat \<times> 'a list) pool \<Rightarrow> 'a sorter \<Rightarrow> 'a sorter" where
  "start_task i tp s =
     (case tp of ((f, chunk), p) \<Rightarrow>
        s\<lparr>sort_pool := p, stack := (stack s)(i := In_task f # stack s i), activity := (activity s)(i := Calling chunk)\<rparr>)"

text \<open>One round of the loop that waits for the lower part: the result if it is ready, otherwise a pending
  task, otherwise nothing. The test of the future and the taking of the task are one step.\<close>

definition do_sort_poll :: "nat \<Rightarrow> 'a sorter \<Rightarrow> 'a sorter option" where
  "do_sort_poll i s =
     (case stack s i of
        Waiting pivot new_higher new_lower # rest \<Rightarrow>
          (case futures s new_lower of
             Some lower \<Rightarrow> Some (s\<lparr>stack := (stack s)(i := rest), activity := (activity s)(i := Returning (lower @ pivot # new_higher))\<rparr>)
           | None \<Rightarrow> map_option (\<lambda>tp. start_task i tp s) (run_pending_task i (sort_pool s)))
      | _ \<Rightarrow> None)"

text \<open>The loop of a worker. The destructor of the pool sets the flag only after \<open>do_sort\<close> has returned, and
  nothing here sets it, so testing it and taking a task are one step.\<close>

definition worker_poll :: "nat \<Rightarrow> 'a sorter \<Rightarrow> 'a sorter option" where
  "worker_poll i s =
     (if pool_done (sort_pool s) then None
      else map_option (\<lambda>tp. start_task i tp s) (run_pending_task i (sort_pool s)))"

text \<open>The next step of thread \<open>i\<close>; none when it yields, or when thread 0 has its result.\<close>

definition sorter_advance :: "(('a :: linorder \<Rightarrow> bool) \<Rightarrow> 'a list \<Rightarrow> 'a list \<times> 'a list) \<Rightarrow> nat \<Rightarrow> 'a sorter \<Rightarrow> 'a sorter option" where
  "sorter_advance part i s =
     (case activity s i of
        Calling chunk \<Rightarrow> Some (do_sort_call part i chunk s)
      | Returning result \<Rightarrow> do_sort_return i result s
      | Polling \<Rightarrow> do_sort_poll i s
      | At_rest \<Rightarrow> if i = 0 then None else worker_poll i s)"

text \<open>Threads 0 to \<open>n\<close>.\<close>

inductive sorter_step :: "(('a :: linorder \<Rightarrow> bool) \<Rightarrow> 'a list \<Rightarrow> 'a list \<times> 'a list) \<Rightarrow> nat \<Rightarrow> 'a sorter \<Rightarrow> 'a sorter \<Rightarrow> bool"
  for part n where
  sorter_step: "i \<le> n \<Longrightarrow> sorter_advance part i s = Some s' \<Longrightarrow> sorter_step part n s s'"

inductive_cases sorter_stepE: "sorter_step part n s s'"

definition sorter_result :: "'a sorter \<Rightarrow> 'a list option" where
  "sorter_result s = (case (activity s 0, stack s 0) of (Returning result, []) \<Rightarrow> Some result | _ \<Rightarrow> None)"

section \<open>Results\<close>

text \<open>The value that a stack is going to return, if the call on top of it returns \<open>v\<close>: the frames above
  the innermost task.\<close>

fun frames_ok :: "(nat \<Rightarrow> 'a :: linorder list) \<Rightarrow> 'a list option \<Rightarrow> 'a list \<Rightarrow> 'a frame list \<Rightarrow> bool" where
  "frames_ok ch goal v [] \<longleftrightarrow> (case goal of None \<Rightarrow> False | Some input \<Rightarrow> v = sort input)"
| "frames_ok ch goal v (In_higher x f # fs) \<longleftrightarrow> frames_ok ch goal (sort (ch f) @ x # v) fs"
| "frames_ok ch goal v (Waiting x h f # fs) \<longleftrightarrow> False"
| "frames_ok ch goal v (In_task f # fs) \<longleftrightarrow> v = sort (ch f) \<and>
     (case fs of
        [] \<Rightarrow> goal = None
      | Waiting x h g # rest \<Rightarrow> frames_ok ch goal (sort (ch g) @ x # h) rest
      | _ \<Rightarrow> False)"

text \<open>The goal of thread 0 is to sort the input; a worker has none, and its stack ends in a task.\<close>

definition activity_ok :: "(nat \<Rightarrow> 'a :: linorder list) \<Rightarrow> 'a list option \<Rightarrow> 'a activity \<Rightarrow> 'a frame list \<Rightarrow> bool" where
  "activity_ok ch goal act fs \<longleftrightarrow>
     (case act of
        Calling c \<Rightarrow> frames_ok ch goal (sort c) fs
      | Returning r \<Rightarrow> frames_ok ch goal r fs
      | Polling \<Rightarrow> (case fs of Waiting x h f # rest \<Rightarrow> frames_ok ch goal (sort (ch f) @ x # h) rest | _ \<Rightarrow> False)
      | At_rest \<Rightarrow> goal = None \<and> fs = [])"

fun future_of :: "'a frame \<Rightarrow> nat" where
  "future_of (In_higher x f) = f"
| "future_of (Waiting x h f) = f"
| "future_of (In_task f) = f"

text \<open>A call above a task was made after the task was taken, so its future is newer.\<close>

fun newer :: "'a frame list \<Rightarrow> bool" where
  "newer [] \<longleftrightarrow> True"
| "newer (In_task f # fs) \<longleftrightarrow> newer fs"
| "newer (fr # fs) \<longleftrightarrow> newer fs \<and> (\<forall>g. In_task g \<in> set fs \<longrightarrow> g < future_of fr)"

definition thread_sorts :: "'a :: linorder list \<Rightarrow> 'a sorter \<Rightarrow> nat \<Rightarrow> bool" where
  "thread_sorts input s i \<longleftrightarrow> activity_ok (chunk_of s) (if i = 0 then Some input else None) (activity s i) (stack s i)
     \<and> (\<forall>fr\<in>set (stack s i). future_of fr < next_future s) \<and> newer (stack s i)"

definition future_ok :: "'a :: linorder sorter \<Rightarrow> nat \<Rightarrow> bool" where
  "future_ok s f \<longleftrightarrow> (\<forall>v. futures s f = Some v \<longrightarrow> f < next_future s \<and> v = sort (chunk_of s f))"

definition task_ok :: "nat \<Rightarrow> 'a sorter \<Rightarrow> nat \<Rightarrow> 'a list \<Rightarrow> bool" where
  "task_ok n s f c \<longleftrightarrow> ((f, c) \<in># pending (Suc n) (sort_pool s) \<longrightarrow> f < next_future s \<and> c = chunk_of s f)"

text \<open>A future that is not ready is pending or has been taken by a thread.\<close>

definition located :: "nat \<Rightarrow> 'a sorter \<Rightarrow> nat \<Rightarrow> bool" where
  "located n s f \<longleftrightarrow> (f < next_future s \<longrightarrow> futures s f \<noteq> None \<or> (f, chunk_of s f) \<in># pending (Suc n) (sort_pool s)
     \<or> (\<exists>i\<le>n. In_task f \<in> set (stack s i)))"

definition sorter_inv :: "nat \<Rightarrow> 'a :: linorder list \<Rightarrow> 'a sorter \<Rightarrow> bool" where
  "sorter_inv n input s \<longleftrightarrow> (\<forall>i\<le>n. thread_sorts input s i) \<and> (\<forall>f. future_ok s f) \<and> (\<forall>f c. task_ok n s f c) \<and> (\<forall>f. located n s f)"

text \<open>The chunk of a new future.\<close>

lemma frames_ok_upd:
  "\<forall>fr\<in>set fs. future_of fr \<noteq> n \<Longrightarrow> frames_ok (ch(n := c)) goal v fs = frames_ok ch goal v fs"
proof (induction ch goal v fs rule: frames_ok.induct)
  case (4 ch goal v f fs)
  then show ?case by (auto split: list.splits frame.splits)
qed auto

lemma activity_ok_upd:
  "\<forall>fr\<in>set fs. future_of fr \<noteq> n \<Longrightarrow> activity_ok (ch(n := c)) goal act fs = activity_ok ch goal act fs"
  by (auto simp: activity_ok_def frames_ok_upd split: activity.splits list.splits frame.splits)

lemma sorter_inv_new: "sorter_inv n input (sorter_new use_local n input)"
  by (simp add: sorter_inv_def sorter_new_def thread_sorts_def future_ok_def task_ok_def located_def activity_ok_def pending_start)

section \<open>Steps\<close>

lemma sorter_invD:
  assumes "sorter_inv n input s"
  shows "i \<le> n \<Longrightarrow> thread_sorts input s i" "future_ok s f" "task_ok n s f c" "located n s f"
  using assms by (simp_all add: sorter_inv_def)

text \<open>The new call has the newest future.\<close>

lemma do_sort_call_inv:
  assumes part: "partitions part" and inv: "sorter_inv n input s" and i: "i \<le> n" and act: "activity s i = Calling chunk"
  shows "sorter_inv n input (do_sort_call part i chunk s)"
proof (cases chunk)
  case Nil
  let ?s = "do_sort_call part i chunk s"
  have "thread_sorts input ?s j" if "j \<le> n" for j
    using sorter_invD(1) [OF inv that] act Nil by (auto simp: thread_sorts_def do_sort_call_def activity_ok_def)
  moreover have "future_ok ?s f" "task_ok n ?s f c" "located n ?s f" for f c
    using sorter_invD(2) [OF inv, of f] sorter_invD(3) [OF inv, of f c] sorter_invD(4) [OF inv, of f] Nil
    by (simp_all add: future_ok_def task_ok_def located_def do_sort_call_def)
  ultimately show ?thesis by (simp add: sorter_inv_def)
next
  case (Cons x xs)
  obtain lower higher where p: "part (\<lambda>val. val < x) xs = (lower, higher)" by fastforce
  let ?s = "do_sort_call part i chunk s"
  let ?f = "next_future s"
  have s: "chunk_of ?s = (chunk_of s)(?f := lower)" "next_future ?s = Suc ?f" "futures ?s = futures s"
    "stack ?s = (stack s)(i := In_higher x ?f # stack s i)" "activity ?s = (activity s)(i := Calling higher)"
    "pending (Suc n) (sort_pool ?s) = add_mset (?f, lower) (pending (Suc n) (sort_pool s))"
    using p Cons i by (simp_all add: do_sort_call_def pending_submit Let_def)
  have old: "\<forall>fr\<in>set (stack s j). future_of fr < ?f" if "j \<le> n" for j
    using sorter_invD(1) [OF inv that] by (simp add: thread_sorts_def)
  then have old': "\<forall>fr\<in>set (stack s j). future_of fr \<noteq> ?f" if "j \<le> n" for j using that by fastforce
  have "sort chunk = sort lower @ x # sort higher" using sort_partition [OF part p] Cons by simp
  then have thread_i: "thread_sorts input ?s i"
    using sorter_invD(1) [OF inv i] act old [OF i] frames_ok_upd [OF old' [OF i]]
    by (fastforce simp: thread_sorts_def s activity_ok_def)
  have "thread_sorts input ?s j" if j: "j \<le> n" for j
  proof (cases "j = i")
    case False
    then show ?thesis
      using sorter_invD(1) [OF inv j] activity_ok_upd [OF old' [OF j]] by (auto simp: thread_sorts_def s)
  qed (use thread_i in simp)
  moreover have "future_ok ?s f" for f
    using sorter_invD(2) [OF inv, of f] by (auto simp: future_ok_def s)
  moreover have "task_ok n ?s f c" for f c
    using sorter_invD(3) [OF inv, of f c] by (auto simp: task_ok_def s)
  moreover have "located n ?s f" for f
    using sorter_invD(4) [OF inv, of f] by (auto simp: located_def s less_Suc_eq)
  ultimately show ?thesis by (simp add: sorter_inv_def)
qed

lemma start_task_inv:
  assumes inv: "sorter_inv n input s" and i: "i \<le> n"
    and act: "activity s i = At_rest \<and> i \<noteq> 0 \<or> (\<exists>x h g rest. activity s i = Polling \<and> stack s i = Waiting x h g # rest)"
    and run: "run_pending_task i (sort_pool s) = Some (t, p)"
  shows "sorter_inv n input (start_task i (t, p) s)"
proof -
  obtain f c where t: "t = (f, c)" by fastforce
  let ?s = "start_task i (t, p) s"
  have s: "chunk_of ?s = chunk_of s" "next_future ?s = next_future s" "futures ?s = futures s"
    "stack ?s = (stack s)(i := In_task f # stack s i)" "activity ?s = (activity s)(i := Calling c)" "sort_pool ?s = p"
    by (simp_all add: start_task_def t)
  have pend: "pending (Suc n) (sort_pool s) = add_mset (f, c) (pending (Suc n) p)"
    using pending_run [OF _ run, of "Suc n"] i t by simp
  then have fc: "f < next_future s" "c = chunk_of s f" using sorter_invD(3) [OF inv, of f c] by (simp_all add: task_ok_def)
  have "thread_sorts input ?s j" if j: "j \<le> n" for j
  proof (cases "j = i")
    case True
    then show ?thesis using sorter_invD(1) [OF inv i] act fc by (auto simp: thread_sorts_def s activity_ok_def)
  qed (use sorter_invD(1) [OF inv j] in \<open>simp add: thread_sorts_def s\<close>)
  moreover have "future_ok ?s g" "task_ok n ?s g u" for g u
    using sorter_invD(2) [OF inv, of g] sorter_invD(3) [OF inv, of g u] pend by (simp_all add: future_ok_def task_ok_def s)
  moreover have "located n ?s g" for g
    using sorter_invD(4) [OF inv, of g] i fc by (cases "g = f") (auto simp: located_def s pend)
  ultimately show ?thesis by (simp add: sorter_inv_def)
qed

lemma do_sort_return_inv:
  assumes inv: "sorter_inv n input s" and i: "i \<le> n" and act: "activity s i = Returning r"
    and ret: "do_sort_return i r s = Some s'"
  shows "sorter_inv n input s'"
proof -
  note ti = sorter_invD(1) [OF inv i]
  consider x f rest where "stack s i = In_higher x f # rest" | f rest where "stack s i = In_task f # rest"
    using ret by (auto simp: do_sort_return_def split: list.splits frame.splits)
  then show ?thesis
  proof cases
    case (1 x f rest)
    then have s': "s' = s\<lparr>stack := (stack s)(i := Waiting x r f # rest), activity := (activity s)(i := Polling)\<rparr>"
      using ret by (simp add: do_sort_return_def)
    have "thread_sorts input s' j" if j: "j \<le> n" for j
    proof (cases "j = i")
      case True
      then show ?thesis using ti act 1 by (auto simp: thread_sorts_def s' activity_ok_def)
    qed (use sorter_invD(1) [OF inv j] in \<open>simp add: thread_sorts_def s'\<close>)
    moreover have "future_ok s' g" "task_ok n s' g u" for g u
      using sorter_invD(2) [OF inv, of g] sorter_invD(3) [OF inv, of g u] by (simp_all add: future_ok_def task_ok_def s')
    moreover have "located n s' g" for g
      using sorter_invD(4) [OF inv, of g] 1 by (auto simp: located_def s')
    ultimately show ?thesis by (simp add: sorter_inv_def)
  next
    case (2 f rest)
    then have s': "s' = s\<lparr>futures := (futures s)(f \<mapsto> r), stack := (stack s)(i := rest),
        activity := (activity s)(i := if rest = [] then At_rest else Polling)\<rparr>"
      using ret by (simp add: do_sort_return_def)
    have r: "r = sort (chunk_of s f)" "f < next_future s" using ti act 2 by (auto simp: thread_sorts_def activity_ok_def)
    have "thread_sorts input s' j" if j: "j \<le> n" for j
    proof (cases "j = i")
      case True
      then show ?thesis
        using ti act 2 by (auto simp: thread_sorts_def s' activity_ok_def split: list.splits frame.splits if_splits)
    qed (use sorter_invD(1) [OF inv j] in \<open>simp add: thread_sorts_def s'\<close>)
    moreover have "future_ok s' g" "task_ok n s' g u" for g u
      using sorter_invD(2) [OF inv, of g] sorter_invD(3) [OF inv, of g u] r by (simp_all add: future_ok_def task_ok_def s')
    moreover have "located n s' g" for g
      using sorter_invD(4) [OF inv, of g] 2 by (auto simp: located_def s')
    ultimately show ?thesis by (simp add: sorter_inv_def)
  qed
qed

lemma do_sort_poll_inv:
  assumes inv: "sorter_inv n input s" and i: "i \<le> n" and act: "activity s i = Polling"
    and poll: "do_sort_poll i s = Some s'"
  shows "sorter_inv n input s'"
proof -
  obtain x h f rest where st: "stack s i = Waiting x h f # rest"
    using poll by (auto simp: do_sort_poll_def split: list.splits frame.splits)
  show ?thesis
  proof (cases "futures s f")
    case None
    then obtain t p where "run_pending_task i (sort_pool s) = Some (t, p)" "s' = start_task i (t, p) s"
      using poll st by (auto simp: do_sort_poll_def)
    then show ?thesis using start_task_inv [OF inv i] act st by blast
  next
    case (Some lower)
    then have s': "s' = s\<lparr>stack := (stack s)(i := rest), activity := (activity s)(i := Returning (lower @ x # h))\<rparr>"
      using poll st by (simp add: do_sort_poll_def)
    have lower: "lower = sort (chunk_of s f)" using sorter_invD(2) [OF inv, of f] Some by (simp add: future_ok_def)
    have "thread_sorts input s' j" if j: "j \<le> n" for j
    proof (cases "j = i")
      case True
      then show ?thesis using sorter_invD(1) [OF inv i] act st lower by (auto simp: thread_sorts_def s' activity_ok_def)
    qed (use sorter_invD(1) [OF inv j] in \<open>simp add: thread_sorts_def s'\<close>)
    moreover have "future_ok s' g" "task_ok n s' g u" for g u
      using sorter_invD(2) [OF inv, of g] sorter_invD(3) [OF inv, of g u] by (simp_all add: future_ok_def task_ok_def s')
    moreover have "located n s' g" for g
      using sorter_invD(4) [OF inv, of g] st by (auto simp: located_def s')
    ultimately show ?thesis by (simp add: sorter_inv_def)
  qed
qed

lemma sorter_inv_step:
  assumes "partitions part" "sorter_inv n input s" "sorter_step part n s s'"
  shows "sorter_inv n input s'"
proof -
  from assms(3) obtain i where i: "i \<le> n" and adv: "sorter_advance part i s = Some s'" by (rule sorter_stepE)
  show ?thesis
  proof (cases "activity s i")
    case (Calling c)
    then show ?thesis using adv do_sort_call_inv [OF assms(1,2) i] by (auto simp: sorter_advance_def)
  next
    case (Returning r)
    then show ?thesis using adv do_sort_return_inv [OF assms(2) i] by (auto simp: sorter_advance_def)
  next
    case Polling
    then show ?thesis using adv do_sort_poll_inv [OF assms(2) i] by (auto simp: sorter_advance_def)
  next
    case At_rest
    then have "i \<noteq> 0" "worker_poll i s = Some s'" using adv by (auto simp: sorter_advance_def split: if_splits)
    then show ?thesis
      using start_task_inv [OF assms(2) i] At_rest by (auto simp: worker_poll_def split: if_splits)
  qed
qed

section \<open>Progress\<close>

text \<open>The workers run as long as the pool lives; nothing in the sorter ends it.\<close>

lemma pool_done_step: "sorter_step part n s s' \<Longrightarrow> pool_done (sort_pool s') = pool_done (sort_pool s)"
proof (erule sorter_stepE)
  fix i assume adv: "sorter_advance part i s = Some s'"
  have run: "pool_done p' = pool_done p" if "run_pending_task i p = Some (t, p')" for t and p p' :: "(nat \<times> 'a list) pool"
    using that by (cases rule: run_pending_task_cases) simp_all
  have "pool_done (submit i t p) = pool_done p" for t and p :: "(nat \<times> 'a list) pool"
    by (simp add: submit_def split: option.splits)
  then show "pool_done (sort_pool s') = pool_done (sort_pool s)"
    using adv run
    by (auto simp: sorter_advance_def do_sort_call_def do_sort_return_def do_sort_poll_def worker_poll_def
        start_task_def Let_def split: activity.splits list.splits frame.splits option.splits if_splits prod.splits)
qed

lemma pool_done_start: "\<not> pool_done (pool_start use_local m)"
proof -
  have "pool_done (fold (worker_start use_local) is p) = pool_done p" for "is" and p :: "'a pool"
    by (induction "is" arbitrary: p) (auto simp: worker_start_def)
  then show ?thesis by (simp add: pool_start_def pool_new_def)
qed

text \<open>A thread that cannot take a step has yielded, or has the result.\<close>

lemma stuck_cases:
  assumes inv: "sorter_inv n input s" and i: "i \<le> n" and stuck: "sorter_advance part i s = None"
    and alive: "\<not> pool_done (sort_pool s)" and none: "sorter_result s = None"
  obtains "i \<noteq> 0" "stack s i = []" "run_pending_task i (sort_pool s) = None"
  | x h f rest where "stack s i = Waiting x h f # rest" "futures s f = None" "run_pending_task i (sort_pool s) = None"
proof (cases "activity s i")
  case (Calling c)
  then show thesis using stuck by (simp add: sorter_advance_def)
next
  case (Returning r)
  then have "frames_ok (chunk_of s) (if i = 0 then Some input else None) r (stack s i)"
    using sorter_invD(1) [OF inv i] by (simp add: thread_sorts_def activity_ok_def)
  then show thesis using stuck Returning none
    by (cases "stack s i") (auto simp: sorter_advance_def do_sort_return_def sorter_result_def split: if_splits frame.splits)
next
  case Polling
  then obtain x h f rest where "stack s i = Waiting x h f # rest"
    using sorter_invD(1) [OF inv i] by (auto simp: thread_sorts_def activity_ok_def split: list.splits frame.splits)
  then show thesis using stuck Polling that(2) by (auto simp: sorter_advance_def do_sort_poll_def split: option.splits)
next
  case At_rest
  then have "i \<noteq> 0" "stack s i = []"
    using sorter_invD(1) [OF inv i] by (auto simp: thread_sorts_def activity_ok_def split: if_splits)
  then show thesis
    using stuck At_rest alive that(1) by (auto simp: sorter_advance_def worker_poll_def)
qed

text \<open>
  If nothing is pending and every thread waits, the future that a thread waits for has been taken by a
  thread that waits for a newer one.
\<close>

lemma waits_for_newer:
  assumes inv: "sorter_inv n input s" and empty: "pending (Suc n) (sort_pool s) = {#}"
    and stuck: "\<And>i. i \<le> n \<Longrightarrow> stack s i = [] \<or> (\<exists>x h f rest. stack s i = Waiting x h f # rest \<and> futures s f = None)"
    and i: "i \<le> n" "stack s i = Waiting x h f # rest" "futures s f = None"
  shows "\<exists>j x' h' f' rest'. j \<le> n \<and> stack s j = Waiting x' h' f' # rest' \<and> futures s f' = None \<and> f < f'"
proof -
  have "f < next_future s" using sorter_invD(1) [OF inv i(1)] i(2) by (simp add: thread_sorts_def)
  then obtain j where j: "j \<le> n" "In_task f \<in> set (stack s j)"
    using sorter_invD(4) [OF inv, of f] i(3) empty by (auto simp: located_def)
  then obtain x' h' f' rest' where w: "stack s j = Waiting x' h' f' # rest'" "futures s f' = None"
    using stuck [OF j(1)] by auto
  have "newer (stack s j)" using sorter_invD(1) [OF inv j(1)] by (simp add: thread_sorts_def)
  then have "f < f'" using w j(2) by simp
  then show ?thesis using w j(1) by blast
qed

lemma not_all_wait:
  assumes inv: "sorter_inv n input s" and empty: "pending (Suc n) (sort_pool s) = {#}"
    and stuck: "\<And>i. i \<le> n \<Longrightarrow> stack s i = [] \<or> (\<exists>x h f rest. stack s i = Waiting x h f # rest \<and> futures s f = None)"
  shows "i \<le> n \<Longrightarrow> stack s i = Waiting x h f # rest \<Longrightarrow> futures s f = None \<Longrightarrow> False"
proof (induction "next_future s - f" arbitrary: i x h f rest rule: less_induct)
  case less
  obtain j x' h' f' rest' where j: "j \<le> n" "stack s j = Waiting x' h' f' # rest'" "futures s f' = None" "f < f'"
    using waits_for_newer [OF inv empty stuck less.prems] by blast
  have "f' < next_future s" using sorter_invD(1) [OF inv j(1)] j(2) by (simp add: thread_sorts_def)
  then have "next_future s - f' < next_future s - f" using j(4) by simp
  then show False using less.hyps j(1-3) by blast
qed

lemma sorter_progress:
  assumes inv: "sorter_inv n input s" and alive: "\<not> pool_done (sort_pool s)" and none: "sorter_result s = None"
  shows "\<exists>s'. sorter_step part n s s'"
proof (rule ccontr)
  assume "\<nexists>s'. sorter_step part n s s'"
  then have st: "sorter_advance part i s = None" if "i \<le> n" for i
    using that by (metis not_Some_eq sorter_step.intros)
  have idle: "run_pending_task i (sort_pool s) = None" if "i \<le> n" for i
    by (rule stuck_cases [OF inv that st [OF that] alive none])
  have empty: "pending (Suc n) (sort_pool s) = {#}" using idle by (intro pending_empty) (simp_all add: less_Suc_eq_le)
  have stuck: "stack s i = [] \<or> (\<exists>x h f rest. stack s i = Waiting x h f # rest \<and> futures s f = None)" if "i \<le> n" for i
    by (rule stuck_cases [OF inv that st [OF that] alive none]) auto
  obtain x h f rest where "stack s 0 = Waiting x h f # rest" "futures s f = None"
    by (rule stuck_cases [OF inv _ st alive none, of 0]) auto
  then show False using not_all_wait [OF inv empty stuck, of 0] by blast
qed

section \<open>Termination\<close>

fun frame_work :: "'a frame \<Rightarrow> nat" where
  "frame_work (In_higher x f) = 3"
| "frame_work (Waiting x h f) = 2"
| "frame_work (In_task f) = 1"

fun activity_work :: "'a activity \<Rightarrow> nat" where
  "activity_work (Calling c) = 7 * length c + 1"
| "activity_work _ = 0"

definition task_work :: "nat \<times> 'a list \<Rightarrow> nat" where
  "task_work t = 7 * length (snd t) + 3"

definition thread_work :: "'a frame list \<times> 'a activity \<Rightarrow> nat" where
  "thread_work t = sum_list (List.map frame_work (fst t)) + activity_work (snd t)"

definition work_left :: "nat \<Rightarrow> 'a sorter \<Rightarrow> nat" where
  "work_left n s = (\<Sum>i<Suc n. thread_work (stack s i, activity s i)) + (\<Sum>t\<in>#pending (Suc n) (sort_pool s). task_work t)"

lemma work_left_change:
  assumes "i \<le> n" "stack s' = (stack s)(i := fs)" "activity s' = (activity s)(i := act)"
  shows "(\<Sum>j<Suc n. thread_work (stack s' j, activity s' j)) + thread_work (stack s i, activity s i)
    = (\<Sum>j<Suc n. thread_work (stack s j, activity s j)) + thread_work (fs, act)"
proof -
  let ?g = "\<lambda>j. (stack s j, activity s j)"
  have "(stack s' j, activity s' j) = (?g(i := (fs, act))) j" for j
    using assms(2,3) by simp
  then show ?thesis
    using sum_fun_upd [of i "Suc n" thread_work ?g "(fs, act)"] assms(1) by simp
qed

lemma work_run:
  assumes "i \<le> n" "run_pending_task i p = Some (t, p')"
  shows "(\<Sum>t\<in>#pending (Suc n) p. task_work t) = task_work t + (\<Sum>t\<in>#pending (Suc n) p'. task_work t)"
  using pending_run [OF _ assms(2), of "Suc n"] assms(1) by simp

lemma sorter_work:
  assumes part: "partitions part" and step: "sorter_step part n s s'"
  shows "work_left n s' < work_left n s"
proof -
  from step obtain i where i: "i \<le> n" and adv: "sorter_advance part i s = Some s'" by (rule sorter_stepE)
  have start: "work_left n (start_task i (t, p) s) < work_left n s"
    if "run_pending_task i (sort_pool s) = Some (t, p)" "activity_work (activity s i) = 0" for t p
  proof -
    obtain f c where t: "t = (f, c)" by fastforce
    have "(\<Sum>j<Suc n. thread_work (stack (start_task i (t, p) s) j, activity (start_task i (t, p) s) j))
        + thread_work (stack s i, activity s i)
      = (\<Sum>j<Suc n. thread_work (stack s j, activity s j)) + thread_work (In_task f # stack s i, Calling c)"
      by (rule work_left_change [OF i]) (simp_all add: start_task_def t)
    then show ?thesis
      using work_run [OF i that(1)] that(2)
      by (simp add: work_left_def thread_work_def task_work_def t start_task_def del: sum.lessThan_Suc)
  qed
  show ?thesis
  proof (cases "activity s i")
    case (Calling chunk)
    then have s': "s' = do_sort_call part i chunk s" using adv by (simp add: sorter_advance_def)
    show ?thesis
    proof (cases chunk)
      case Nil
      have "(\<Sum>j<Suc n. thread_work (stack s' j, activity s' j)) + thread_work (stack s i, activity s i)
        = (\<Sum>j<Suc n. thread_work (stack s j, activity s j)) + thread_work (stack s i, Returning [])"
        by (rule work_left_change [OF i]) (simp_all add: s' do_sort_call_def Nil fun_upd_triv)
      then show ?thesis
        by (simp add: work_left_def thread_work_def Calling Nil s' do_sort_call_def del: sum.lessThan_Suc)
    next
      case (Cons x xs)
      obtain lower higher where p: "part (\<lambda>val. val < x) xs = (lower, higher)" by fastforce
      have "(\<Sum>j<Suc n. thread_work (stack s' j, activity s' j)) + thread_work (stack s i, activity s i)
        = (\<Sum>j<Suc n. thread_work (stack s j, activity s j))
          + thread_work (In_higher x (next_future s) # stack s i, Calling higher)"
        by (rule work_left_change [OF i]) (simp_all add: s' do_sort_call_def Cons p Let_def)
      moreover have "pending (Suc n) (sort_pool s') = add_mset (next_future s, lower) (pending (Suc n) (sort_pool s))"
        using i by (simp add: s' do_sort_call_def Cons p Let_def pending_submit)
      ultimately show ?thesis
        using partitionsD(4) [OF part p]
        by (simp add: work_left_def thread_work_def task_work_def Calling Cons del: sum.lessThan_Suc)
    qed
  next
    case (Returning r)
    then have ret: "do_sort_return i r s = Some s'" using adv by (simp add: sorter_advance_def)
    then consider x f rest where "stack s i = In_higher x f # rest" | f rest where "stack s i = In_task f # rest"
      by (auto simp: do_sort_return_def split: list.splits frame.splits)
    then show ?thesis
    proof cases
      case (1 x f rest)
      have "(\<Sum>j<Suc n. thread_work (stack s' j, activity s' j)) + thread_work (stack s i, activity s i)
        = (\<Sum>j<Suc n. thread_work (stack s j, activity s j)) + thread_work (Waiting x r f # rest, Polling)"
        by (rule work_left_change [OF i]) (use ret 1 in \<open>auto simp: do_sort_return_def\<close>)
      moreover have "sort_pool s' = sort_pool s" using ret 1 by (auto simp: do_sort_return_def)
      ultimately show ?thesis
        by (simp add: work_left_def thread_work_def Returning 1 del: sum.lessThan_Suc)
    next
      case (2 f rest)
      have "(\<Sum>j<Suc n. thread_work (stack s' j, activity s' j)) + thread_work (stack s i, activity s i)
        = (\<Sum>j<Suc n. thread_work (stack s j, activity s j)) + thread_work (rest, if rest = [] then At_rest else Polling)"
        by (rule work_left_change [OF i]) (use ret 2 in \<open>auto simp: do_sort_return_def\<close>)
      moreover have "sort_pool s' = sort_pool s" using ret 2 by (auto simp: do_sort_return_def)
      ultimately show ?thesis
        by (simp add: work_left_def thread_work_def Returning 2 del: sum.lessThan_Suc split: if_splits)
    qed
  next
    case Polling
    then obtain x h f rest where st: "stack s i = Waiting x h f # rest" and poll: "do_sort_poll i s = Some s'"
      using adv by (auto simp: sorter_advance_def do_sort_poll_def split: list.splits frame.splits)
    show ?thesis
    proof (cases "futures s f")
      case None
      then obtain t p where "run_pending_task i (sort_pool s) = Some (t, p)" "s' = start_task i (t, p) s"
        using poll st by (auto simp: do_sort_poll_def)
      then show ?thesis using start Polling by simp
    next
      case (Some lower)
      have "(\<Sum>j<Suc n. thread_work (stack s' j, activity s' j)) + thread_work (stack s i, activity s i)
        = (\<Sum>j<Suc n. thread_work (stack s j, activity s j)) + thread_work (rest, Returning (lower @ x # h))"
        by (rule work_left_change [OF i]) (use poll st Some in \<open>auto simp: do_sort_poll_def\<close>)
      moreover have "sort_pool s' = sort_pool s" using poll st Some by (auto simp: do_sort_poll_def)
      ultimately show ?thesis
        by (simp add: work_left_def thread_work_def Polling st del: sum.lessThan_Suc)
    qed
  next
    case At_rest
    then obtain t p where "run_pending_task i (sort_pool s) = Some (t, p)" "s' = start_task i (t, p) s"
      using adv by (auto simp: sorter_advance_def worker_poll_def split: if_splits)
    then show ?thesis using start At_rest by simp
  qed
qed

lemma work_new: "work_left n (sorter_new use_local n input) = 7 * length input + 1"
proof -
  have "(\<Sum>i<Suc n. thread_work ([], if i = 0 then Calling input else At_rest)) = 7 * length input + 1"
    by (induction n) (simp_all add: thread_work_def)
  then show ?thesis by (simp add: work_left_def sorter_new_def pending_start del: sum.lessThan_Suc)
qed

lemma sorter_reaches:
  assumes part: "partitions part"
  shows "(sorter_step part n ^^ k) (sorter_new use_local n input) s \<Longrightarrow>
    sorter_inv n input s \<and> \<not> pool_done (sort_pool s) \<and> work_left n s + k \<le> 7 * length input + 1"
proof (induction k arbitrary: s)
  case 0
  then have "s = sorter_new use_local n input" by simp
  moreover have "\<not> pool_done (sort_pool (sorter_new use_local n input))" by (simp add: sorter_new_def pool_done_start)
  ultimately show ?case using sorter_inv_new [of n input use_local] work_new [of n use_local input] by simp
next
  case (Suc k)
  then obtain t where t: "(sorter_step part n ^^ k) (sorter_new use_local n input) t" "sorter_step part n t s" by auto
  then show ?case
    using Suc.IH [OF t(1)] sorter_inv_step [OF part _ t(2)] sorter_work [OF part t(2)] pool_done_step [OF t(2)] by auto
qed

section \<open>Properties\<close>

text \<open>
  C30. Sorting with the thread pool, with any number of workers, with or without local queues, under any
  interleaving, and however \<open>std::partition\<close> reorders: it cannot deadlock, because until thread 0 has
  its result some thread can do something other than yield, although every call waits for another;
  at most \<open>7 * length input + 1\<close> such steps are possible; and the result is the sorted input.
\<close>

theorem pool_sort_finishes:
  assumes "partitions part" "(sorter_step part n ^^ k) (sorter_new use_local n input) s"
  shows "k \<le> 7 * length input + 1
    \<and> (case sorter_result s of Some r \<Rightarrow> r = sort input | None \<Rightarrow> \<exists>s'. sorter_step part n s s')"
proof
  note r = sorter_reaches [OF assms]
  then show "k \<le> 7 * length input + 1" by simp
  show "case sorter_result s of Some r \<Rightarrow> r = sort input | None \<Rightarrow> \<exists>s'. sorter_step part n s s'"
  proof (cases "sorter_result s")
    case None
    have "\<exists>s'. sorter_step part n s s'" using r None by (intro sorter_progress [where input = input]) simp_all
    then show ?thesis using None by simp
  next
    case (Some v)
    then have "activity s 0 = Returning v" "stack s 0 = []"
      by (auto simp: sorter_result_def split: activity.splits list.splits)
    then have "v = sort input" using sorter_invD(1) [of n input s 0] r by (simp add: thread_sorts_def activity_ok_def)
    then show ?thesis using Some by simp
  qed
qed

text \<open>A schedule is a list of threads.\<close>

fun sorter_run :: "(('a :: linorder \<Rightarrow> bool) \<Rightarrow> 'a list \<Rightarrow> 'a list \<times> 'a list) \<Rightarrow> nat list \<Rightarrow> 'a sorter \<Rightarrow> 'a sorter option" where
  "sorter_run part [] s = Some s"
| "sorter_run part (i # sched) s = Option.bind (sorter_advance part i s) (sorter_run part sched)"

lemma sorter_run_steps:
  "sorter_run part sched s = Some s' \<Longrightarrow> \<forall>i\<in>set sched. i \<le> n \<Longrightarrow> (sorter_step part n ^^ length sched) s s'"
proof (induction part sched s rule: sorter_run.induct)
  case (2 part i sched s)
  then obtain t where "sorter_advance part i s = Some t" "sorter_run part sched t = Some s'"
    by (auto split: Option.bind_splits)
  then show ?case using 2 by (auto intro!: relpowp_Suc_I2 sorter_step.intros simp del: relpowp.simps)
qed simp

theorem pool_sort_finishes_witness:
  "\<exists>s. sorter_result s = Some [1, 2 :: nat] \<and> (13 :: nat) \<le> 7 * length [2, 1 :: nat] + 1
    \<and> (case sorter_result s of Some r \<Rightarrow> r = sort [2, 1]
       | None \<Rightarrow> \<exists>s'. sorter_step (\<lambda>P xs. (filter P xs, filter (\<lambda>x. \<not> P x) xs)) 1 s s')"
proof -
  let ?part = "\<lambda>P xs. (filter P xs, filter (\<lambda>x. \<not> P x) xs) :: nat list \<times> nat list"
  obtain s where s: "sorter_run ?part (replicate 13 0) (sorter_new False 1 [2, 1]) = Some s" "sorter_result s = Some [1, 2]"
    by (simp add: eval_nat_numeral sorter_advance_def do_sort_call_def do_sort_return_def do_sort_poll_def start_task_def
        sorter_new_def pool_start_def worker_start_def pool_new_def submit_def run_pending_task_def sorter_result_def Let_def)
  have "(sorter_step ?part 1 ^^ 13) (sorter_new False 1 [2, 1]) s" using sorter_run_steps [OF s(1), of 1] by simp
  from pool_sort_finishes [OF partitions_filter this] show ?thesis using s(2) by blast
qed

end
