(* ===== verification/Parallel_Accumulate.thy ===== *)
theory Parallel_Accumulate
  imports Node_Heap "HOL-Library.Word" "HOL-Library.Multiset"
begin

text \<open>
  The parallel algorithms of \<open>cpp-concurrency-in-action\<close>: \<open>2.8.accumulate\<close>,
  \<open>8.4.parallel_accumulate\<close>, \<open>8.5.parallel_accumulate\<close>, \<open>8.7.parallel_for_each\<close> and
  \<open>parallel_accmulate_using_tp\<close> of \<open>9.thread_pool/thread_pool.hpp\<close>. Values come from a monoid, whose
  unit is \<open>T()\<close>; iterators are positions in a list. \<open>unsigned long\<close> has 32 bits with the compiler of
  the project files, and \<open>std::distance\<close> is converted to it. The number of hardware threads and the
  order in which threads run are parameters.
\<close>

section \<open>\<open>std::accumulate\<close>\<close>

text \<open>A range whose end does not follow its beginning runs out of the sequence.\<close>

definition accumulate :: "'a :: monoid_add list \<Rightarrow> nat \<Rightarrow> nat \<Rightarrow> 'a \<Rightarrow> 'a outcome" where
  "accumulate xs first finish init =
     (if first \<le> finish \<and> finish \<le> length xs then Returns (foldl (+) init (take (finish - first) (drop first xs)))
      else Undefined)"

section \<open>The division into blocks\<close>

definition to_ulong :: "nat \<Rightarrow> 32 word" where
  "to_ulong n = of_nat n"

definition max_threads :: "32 word \<Rightarrow> 32 word" where
  "max_threads len = (len + 25 - 1) div 25"

definition num_threads :: "32 word \<Rightarrow> 32 word \<Rightarrow> 32 word" where
  "num_threads hardware_threads len = min (if 0 \<noteq> hardware_threads then hardware_threads else 2) (max_threads len)"

definition block_size :: "32 word \<Rightarrow> 32 word \<Rightarrow> 32 word outcome" where
  "block_size hardware_threads len =
     (if num_threads hardware_threads len = 0 then Undefined else Returns (len div num_threads hardware_threads len))"

text \<open>The loop over the blocks of the threads: where each begins and ends.\<close>

fun block_bounds :: "nat \<Rightarrow> nat \<Rightarrow> nat \<Rightarrow> (nat \<times> nat) list" where
  "block_bounds 0 block_start width = []"
| "block_bounds (Suc i) block_start width = (block_start, block_start + width) # block_bounds i (block_start + width) width"

definition all_blocks :: "nat \<Rightarrow> nat \<Rightarrow> nat \<Rightarrow> (nat \<times> nat) list" where
  "all_blocks threads width len = block_bounds (threads - 1) 0 width @ [((threads - 1) * width, len)]"

section \<open>\<open>accumulate_block\<close>, one thread after the other in any order\<close>

fun run_blocks :: "'a :: monoid_add list \<Rightarrow> (nat \<times> nat) list \<Rightarrow> nat list \<Rightarrow> 'a list \<Rightarrow> 'a list outcome" where
  "run_blocks xs blocks [] results = Returns results"
| "run_blocks xs blocks (i # order) results =
     and_then (accumulate xs (fst (blocks ! i)) (snd (blocks ! i)) (results ! i)) (\<lambda>r.
       run_blocks xs blocks order (results[i := r]))"

text \<open>\<open>2.8.accumulate.cpp\<close>: every thread, the calling one last in the vector, adds to its own result.\<close>

definition parallel_accumulate_2_8 :: "32 word \<Rightarrow> nat list \<Rightarrow> 'a :: monoid_add list \<Rightarrow> 'a \<Rightarrow> 'a outcome" where
  "parallel_accumulate_2_8 hardware_threads order xs init =
     (let len = to_ulong (length xs) in
      if len = 0 then Returns init
      else and_then (block_size hardware_threads len) (\<lambda>width.
        let threads = unat (num_threads hardware_threads len);
            blocks = all_blocks threads (unat width) (length xs)
        in and_then (run_blocks xs blocks order (replicate threads 0)) (\<lambda>results.
          accumulate results 0 (length results) init)))"

text \<open>\<open>8.4.parallel_accumulate.cpp\<close>: the threads fulfil futures, the caller keeps the last block.\<close>

definition parallel_accumulate_8_4 :: "32 word \<Rightarrow> nat list \<Rightarrow> 'a :: monoid_add list \<Rightarrow> 'a \<Rightarrow> 'a outcome" where
  "parallel_accumulate_8_4 hardware_threads order xs init =
     (let len = to_ulong (length xs) in
      if len = 0 then Returns init
      else and_then (block_size hardware_threads len) (\<lambda>width.
        let threads = unat (num_threads hardware_threads len);
            blocks = block_bounds (threads - 1) 0 (unat width)
        in and_then (run_blocks xs blocks order (replicate (threads - 1) 0)) (\<lambda>futures.
          and_then (accumulate xs ((threads - 1) * unat width) (length xs) 0) (\<lambda>last_result.
            Returns (foldl (+) init futures + last_result)))))"

lemma unat_to_ulong: "unat (to_ulong n) = n mod 2 ^ 32"
  by (simp add: to_ulong_def unat_of_nat take_bit_eq_mod)

text \<open>\<open>8.5.parallel_accumulate.cpp\<close>: halves, the first by a recursive call in another thread.\<close>

function parallel_accumulate_8_5 :: "'a :: monoid_add list \<Rightarrow> 'a \<Rightarrow> 'a" where
  "parallel_accumulate_8_5 xs init =
     (let len = unat (to_ulong (length xs)) in
      if len \<le> 25 then foldl (+) init xs
      else let mid_point = len div 2;
               first_half = parallel_accumulate_8_5 (take mid_point xs) init;
               second_half = foldl (+) 0 (drop mid_point xs)
           in first_half + second_half)"
  by pat_completeness auto

termination
proof (relation "measure (\<lambda>(xs, init). length xs)")
  fix xs :: "'a list" and init :: 'a and len mid
  assume "len = unat (to_ulong (length xs))" "\<not> len \<le> 25" "mid = len div 2"
  moreover have "unat (to_ulong (length xs)) \<le> length xs" by (simp add: unat_to_ulong)
  ultimately show "((take mid xs, init), (xs, init)) \<in> measure (\<lambda>(xs, init). length xs)" by simp
qed simp

text \<open>
  \<open>parallel_accmulate_using_tp\<close>: the loop advances \<open>block_start\<close> where \<open>block_end\<close> is meant, submits
  the range from there to \<open>block_end\<close>, and sets \<open>block_start\<close> back.
\<close>

fun tp_blocks :: "nat \<Rightarrow> nat \<Rightarrow> (nat \<times> nat) list \<times> nat" where
  "tp_blocks 0 block_start = ([], block_start)"
| "tp_blocks (Suc i) block_start =
     (let block_end = block_start;
          block_start = block_start + 25;
          task = (block_start, block_end);
          block_start = block_end;
          (tasks, block_start) = tp_blocks i block_start
      in (task # tasks, block_start))"

definition parallel_accmulate_using_tp :: "nat list \<Rightarrow> 'a :: monoid_add list \<Rightarrow> 'a \<Rightarrow> 'a outcome" where
  "parallel_accmulate_using_tp order xs init =
     (let len = to_ulong (length xs) in
      if len = 0 then Returns init
      else let num_blocks = (len + 25 - 1) div 25;
               (tasks, block_start) = tp_blocks (unat (num_blocks - 1)) 0
           in and_then (run_blocks xs tasks order (replicate (unat (num_blocks - 1)) 0)) (\<lambda>futures.
             and_then (accumulate xs block_start (length xs) 0) (\<lambda>last_result.
               Returns (foldl (+) init futures + last_result))))"

declare parallel_accumulate_8_5.simps [simp del]

section \<open>\<open>8.7.parallel_for_each.cpp\<close>\<close>

text \<open>
  Each thread walks its own range of one shared sequence, the caller the last one. A step of a thread
  applies \<open>f\<close> to the element it has reached, in place; a thread at the end of its range does nothing.
\<close>

definition for_each_step :: "('a \<Rightarrow> 'a) \<Rightarrow> nat \<Rightarrow> (nat \<times> nat) list \<times> 'a list \<Rightarrow> (nat \<times> nat) list \<times> 'a list" where
  "for_each_step f i s =
     (let (ranges, xs) = s; (at, finish) = ranges ! i in
      if at < finish then (ranges[i := (at + 1, finish)], xs[at := f (xs ! at)]) else (ranges, xs))"

definition parallel_for_each :: "32 word \<Rightarrow> ('a \<Rightarrow> 'a) \<Rightarrow> nat list \<Rightarrow> 'a list \<Rightarrow> ((nat \<times> nat) list \<times> 'a list) outcome" where
  "parallel_for_each hardware_threads f schedule xs =
     (let len = to_ulong (length xs) in
      if len = 0 then Returns ([], xs)
      else and_then (block_size hardware_threads len) (\<lambda>width.
        Returns (fold (for_each_step f) schedule
          (all_blocks (unat (num_threads hardware_threads len)) (unat width) (length xs), xs))))"

text \<open>The threads are joined when each has reached the end of its range.\<close>

definition joined :: "(nat \<times> nat) list \<Rightarrow> bool" where
  "joined ranges \<longleftrightarrow> list_all (\<lambda>(at, finish). at = finish) ranges"

section \<open>Sums\<close>

lemma foldl_sum: "foldl (+) init xs = init + sum_list (xs :: 'a :: monoid_add list)"
  by (induction xs arbitrary: init) (simp_all add: add.assoc)

lemma sum_concat: "sum_list (concat xss) = sum_list (List.map sum_list (xss :: 'a :: monoid_add list list))"
  by (induction xss) simp_all

definition slice :: "'a list \<Rightarrow> nat \<times> nat \<Rightarrow> 'a list" where
  "slice xs b = take (snd b - fst b) (drop (fst b) xs)"

definition in_range :: "'a list \<Rightarrow> nat \<times> nat \<Rightarrow> bool" where
  "in_range xs b \<longleftrightarrow> fst b \<le> snd b \<and> snd b \<le> length xs"

lemma accumulate_slice:
  "in_range xs b \<Longrightarrow> accumulate xs (fst b) (snd b) init = Returns (init + sum_list (slice xs b))"
  by (simp add: accumulate_def in_range_def slice_def foldl_sum)

lemma block_bounds_range: "b \<in> set (block_bounds k start width) \<Longrightarrow> start + k * width \<le> length xs \<Longrightarrow> in_range xs b"
proof (induction k arbitrary: start)
  case (Suc k)
  have e: "start + Suc k * width = (start + width) + k * width" by simp
  show ?case
  proof (cases "b = (start, start + width)")
    case True
    then show ?thesis using Suc.prems(2) unfolding e by (simp add: in_range_def)
  next
    case False
    then show ?thesis using Suc.IH [of "start + width"] Suc.prems unfolding e by simp
  qed
qed simp

lemma block_bounds_concat:
  "start + k * width \<le> length xs \<Longrightarrow>
     concat (List.map (slice xs) (block_bounds k start width)) @ drop (start + k * width) xs = drop start xs"
proof (induction k arbitrary: start)
  case (Suc k)
  have "start + width + k * width \<le> length xs" using Suc.prems by simp
  then have "concat (List.map (slice xs) (block_bounds k (start + width) width)) @ drop (start + width + k * width) xs
      = drop (start + width) xs" by (rule Suc.IH)
  then have "concat (List.map (slice xs) (block_bounds (Suc k) start width)) @ drop (start + Suc k * width) xs
      = take width (drop start xs) @ drop (start + width) xs"
    by (simp add: slice_def add.assoc)
  also have "drop (start + width) xs = drop width (drop start xs)" by (simp add: add.commute)
  finally show ?case by (simp only: append_take_drop_id)
qed simp

lemma length_block_bounds [simp]: "length (block_bounds k start width) = k"
  by (induction k arbitrary: start) simp_all

text \<open>The threads run in any order: each changes its own result only.\<close>

lemma run_blocks_order:
  assumes "distinct order" "\<forall>i\<in>set order. i < length results" "\<And>i. i \<in> set order \<Longrightarrow> in_range xs (blocks ! i)"
  shows "run_blocks xs blocks order results =
    Returns (List.map (\<lambda>i. if i \<in> set order then results ! i + sum_list (slice xs (blocks ! i)) else results ! i) [0..<length results])"
  using assms
proof (induction order arbitrary: results)
  case Nil
  then show ?case by (simp add: map_nth)
next
  case (Cons i order)
  let ?r = "results[i := results ! i + sum_list (slice xs (blocks ! i))]"
  have "run_blocks xs blocks (i # order) results = run_blocks xs blocks order ?r"
    using Cons.prems(3) [of i] by (simp add: accumulate_slice)
  also have "\<dots> = Returns (List.map (\<lambda>j. if j \<in> set order then ?r ! j + sum_list (slice xs (blocks ! j)) else ?r ! j) [0..<length ?r])"
    using Cons.prems by (intro Cons.IH) auto
  also have "\<dots> = Returns (List.map (\<lambda>j. if j \<in> set (i # order) then results ! j + sum_list (slice xs (blocks ! j)) else results ! j)
      [0..<length results])"
    using Cons.prems(1,2) by (auto simp: nth_list_update)
  finally show ?case .
qed

lemma run_all_blocks:
  assumes "mset order = mset [0..<length blocks]" "\<forall>b\<in>set blocks. in_range xs b"
  shows "run_blocks xs blocks order (replicate (length blocks) 0) = Returns (List.map (\<lambda>b. sum_list (slice xs b)) blocks)"
proof -
  have s: "set order = set [0..<length blocks]" by (rule mset_eq_setD [OF assms(1)])
  have d: "distinct order" using mset_eq_imp_distinct_iff [OF assms(1)] by (simp only: distinct_upt)
  have b: "\<forall>i\<in>set order. i < length (replicate (length blocks) (0 :: 'a))" unfolding s by simp
  have r: "in_range xs (blocks ! i)" if "i \<in> set order" for i using that assms(2) unfolding s by simp
  show ?thesis
    by (subst run_blocks_order [OF d b r], assumption, rule arg_cong [of _ _ Returns], rule nth_equalityI) (simp_all add: s)
qed

section \<open>The numbers\<close>

text \<open>As long as \<open>length + 24\<close> does not wrap, there is a thread, and the blocks fit.\<close>

lemma max_threads_value: "n + 24 < 2 ^ 32 \<Longrightarrow> unat (max_threads (to_ulong n)) = (n + 24) div 25"
proof -
  assume n: "n + 24 < 2 ^ 32"
  have "to_ulong n + 25 - 1 = to_ulong (n + 24)" by (simp add: to_ulong_def)
  then have "unat (to_ulong n + 25 - 1) = n + 24" using n by (simp add: unat_to_ulong)
  then show ?thesis by (simp add: max_threads_def unat_div_distrib)
qed

lemma block_size_value:
  assumes n: "0 < n" "n + 24 < 2 ^ 32"
  obtains threads width where "unat (num_threads hw (to_ulong n)) = threads" "0 < threads"
    "block_size hw (to_ulong n) = Returns width" "threads * unat width \<le> n"
proof -
  have "0 < unat (max_threads (to_ulong n))" using n max_threads_value [OF n(2)] by simp
  then have pos: "num_threads hw (to_ulong n) \<noteq> 0"
    by (auto simp: num_threads_def min_def unat_gt_0)
  let ?t = "unat (num_threads hw (to_ulong n))"
  have "unat (to_ulong n div num_threads hw (to_ulong n)) = n div ?t"
    using n by (simp add: unat_div_distrib unat_to_ulong)
  then have "?t * unat (to_ulong n div num_threads hw (to_ulong n)) \<le> n"
    by (metis div_times_less_eq_dividend mult.commute)
  then show thesis using that pos by (simp add: block_size_def unat_gt_0)
qed

section \<open>What the algorithms compute\<close>

lemma block_sums:
  assumes "k * width \<le> length xs" "mset order = mset [0..<k]"
  shows "\<exists>sums. run_blocks xs (block_bounds k 0 width) order (replicate k 0) = Returns sums
    \<and> length sums = k \<and> sum_list sums + sum_list (drop (k * width) xs) = sum_list xs"
proof -
  let ?bs = "block_bounds k 0 width"
  have "\<forall>b\<in>set ?bs. in_range xs b" using block_bounds_range [of _ k 0 width xs] assms(1) by simp
  then have r: "run_blocks xs ?bs order (replicate k 0) = Returns (List.map (\<lambda>b. sum_list (slice xs b)) ?bs)"
    using run_all_blocks [of order ?bs xs] assms(2) by simp
  have "sum_list (concat (List.map (slice xs) ?bs) @ drop (k * width) xs) = sum_list xs"
    using block_bounds_concat [of 0 k width xs] assms(1) by simp
  then have "sum_list (List.map (\<lambda>b. sum_list (slice xs b)) ?bs) + sum_list (drop (k * width) xs) = sum_list xs"
    by (simp add: sum_concat comp_def)
  then show ?thesis using r by simp
qed

lemma all_block_sums:
  assumes "0 < k" "k * width \<le> length xs" "mset order = mset [0..<k]"
  shows "\<exists>sums. run_blocks xs (all_blocks k width (length xs)) order (replicate k 0) = Returns sums
    \<and> sum_list sums = sum_list xs"
proof -
  let ?bs = "all_blocks k width (length xs)"
  have w: "(k - 1) * width \<le> length xs" using assms(1,2) by (metis diff_le_self le_trans mult_le_mono1)
  have len: "length ?bs = k" using assms(1) by (simp add: all_blocks_def)
  have "\<forall>b\<in>set ?bs. in_range xs b"
    using block_bounds_range [of _ "k - 1" 0 width xs] w by (auto simp: all_blocks_def in_range_def)
  then have r: "run_blocks xs ?bs order (replicate k 0) = Returns (List.map (\<lambda>b. sum_list (slice xs b)) ?bs)"
    using run_all_blocks [of order ?bs xs] assms(3) len by simp
  have "concat (List.map (slice xs) ?bs) = xs"
    using block_bounds_concat [of 0 "k - 1" width xs] w by (simp add: all_blocks_def slice_def)
  then have "sum_list (List.map (\<lambda>b. sum_list (slice xs b)) ?bs) = sum_list xs"
    using sum_concat [of "List.map (slice xs) ?bs"] by (simp add: comp_def)
  then show ?thesis using r by simp
qed

lemma to_ulong_0: "n < 2 ^ 32 \<Longrightarrow> to_ulong n = 0 \<longleftrightarrow> n = 0"
  using unat_to_ulong [of n] by (simp add: unat_eq_0 flip: unat_eq_0)

lemma parallel_accumulate_2_8_sums:
  assumes "length xs + 24 < 2 ^ 32" "mset order = mset [0..<unat (num_threads hw (to_ulong (length xs)))]"
  shows "parallel_accumulate_2_8 hw order xs init = Returns (foldl (+) init xs)"
proof (cases "xs = []")
  case False
  then obtain t w where t: "unat (num_threads hw (to_ulong (length xs))) = t" "0 < t"
      "block_size hw (to_ulong (length xs)) = Returns w" "t * unat w \<le> length xs"
    using block_size_value [of "length xs" hw] assms(1) by auto
  obtain sums where s: "run_blocks xs (all_blocks t (unat w) (length xs)) order (replicate t 0) = Returns sums"
      "sum_list sums = sum_list xs"
    using all_block_sums [OF t(2,4)] assms(2) t(1) by blast
  have "to_ulong (length xs) \<noteq> 0" using False to_ulong_0 [of "length xs"] assms(1) by simp
  then show ?thesis
    by (simp add: parallel_accumulate_2_8_def Let_def t s foldl_sum accumulate_def)
qed (simp add: parallel_accumulate_2_8_def to_ulong_def)

lemma parallel_accumulate_8_4_sums:
  assumes "length xs + 24 < 2 ^ 32" "mset order = mset [0..<unat (num_threads hw (to_ulong (length xs))) - 1]"
  shows "parallel_accumulate_8_4 hw order xs init = Returns (foldl (+) init xs)"
proof (cases "xs = []")
  case False
  then obtain t w where t: "unat (num_threads hw (to_ulong (length xs))) = t" "0 < t"
      "block_size hw (to_ulong (length xs)) = Returns w" "t * unat w \<le> length xs"
    using block_size_value [of "length xs" hw] assms(1) by auto
  have w: "(t - 1) * unat w \<le> length xs" using t(2,4) by (metis diff_le_self le_trans mult_le_mono1)
  obtain sums where s: "run_blocks xs (block_bounds (t - 1) 0 (unat w)) order (replicate (t - 1) 0) = Returns sums"
      "sum_list sums + sum_list (drop ((t - 1) * unat w) xs) = sum_list xs"
    using block_sums [OF w] assms(2) t(1) by blast
  have "to_ulong (length xs) \<noteq> 0" using False to_ulong_0 [of "length xs"] assms(1) by simp
  then show ?thesis
    by (simp add: parallel_accumulate_8_4_def Let_def t s foldl_sum accumulate_def w add.assoc del: One_nat_def)
qed (simp add: parallel_accumulate_8_4_def to_ulong_def)

lemma parallel_accumulate_8_5_sums: "parallel_accumulate_8_5 xs init = foldl (+) init xs"
proof (induction xs init rule: parallel_accumulate_8_5.induct)
  case (1 xs init)
  show ?case
  proof (cases "unat (to_ulong (length xs)) \<le> 25")
    case False
    let ?m = "unat (to_ulong (length xs)) div 2"
    have "sum_list (take ?m xs) + sum_list (drop ?m xs) = sum_list xs"
      by (metis append_take_drop_id sum_list.append)
    then show ?thesis
      using 1 [OF refl False refl] False
      by (simp add: parallel_accumulate_8_5.simps [of xs init] Let_def foldl_sum add.assoc)
  qed (simp add: parallel_accumulate_8_5.simps [of xs init])
qed

text \<open>With \<open>length + 24\<close> beyond \<open>unsigned long\<close>, \<open>max_threads\<close> is zero, and the length is divided by it.\<close>

lemma block_size_wraps:
  assumes "n < 2 ^ 32" "2 ^ 32 \<le> n + 24"
  shows "num_threads hw (to_ulong n) = 0" "to_ulong n \<noteq> 0"
proof -
  have "to_ulong n + 25 - 1 = to_ulong (n + 24)" by (simp add: to_ulong_def)
  then have "unat (to_ulong n + 25 - 1) < 25" 
    using assms by (simp add: unat_to_ulong) (simp add: mod_if, linarith)
  then have "max_threads (to_ulong n) = 0"
    by (simp add: max_threads_def unat_div_distrib flip: unat_eq_0)
  then show "num_threads hw (to_ulong n) = 0" by (simp add: num_threads_def min_def)
  show "to_ulong n \<noteq> 0" using to_ulong_0 [of n] assms by auto
qed

text \<open>
  C31. For every range of fewer than \<open>2 ^ 32 - 24\<close> elements, every number of hardware threads and every
  order in which the threads run, the three parallel versions return what \<open>std::accumulate\<close> returns.
\<close>

theorem parallel_accumulates_sum:
  assumes "length xs + 24 < 2 ^ 32"
    and "mset order = mset [0..<unat (num_threads hw (to_ulong (length xs)))]"
    and "mset futures = mset [0..<unat (num_threads hw (to_ulong (length xs))) - 1]"
  shows "accumulate xs 0 (length xs) init = Returns (foldl (+) init xs)
    \<and> parallel_accumulate_2_8 hw order xs init = Returns (foldl (+) init xs)
    \<and> parallel_accumulate_8_4 hw futures xs init = Returns (foldl (+) init xs)
    \<and> parallel_accumulate_8_5 xs init = foldl (+) init xs"
  using assms
  by (simp add: parallel_accumulate_2_8_sums parallel_accumulate_8_4_sums parallel_accumulate_8_5_sums accumulate_def)

lemma sixty_in_two: "unat (num_threads 2 (to_ulong 60)) = 2"
proof -
  have "max_threads (to_ulong 60) = 3" by (simp add: max_threads_def to_ulong_def)
  then show ?thesis by (simp add: num_threads_def)
qed

theorem parallel_accumulates_sum_witness:
  "parallel_accumulate_2_8 2 [1, 0] (replicate 60 2) 5 = Returns (125 :: nat)
    \<and> parallel_accumulate_8_4 2 [0] (replicate 60 2) 5 = Returns (125 :: nat)
    \<and> parallel_accumulate_8_5 (replicate 60 2) 5 = (125 :: nat)"
  using parallel_accumulates_sum [of "replicate 60 (2 :: nat)" "[1, 0]" 2 "[0]" 5]
  by (simp add: sixty_in_two foldl_sum sum_list_replicate upt_rec)

text \<open>
  A range whose length is just below \<open>2 ^ 32\<close> makes \<open>length + min_per_thread - 1\<close> wrap, and the
  number of threads zero: the division that determines the block size divides by it.
\<close>

theorem parallel_accumulate_wraps:
  assumes "length xs < 2 ^ 32" "2 ^ 32 \<le> length xs + 24"
  shows "num_threads hw (to_ulong (length xs)) = 0
    \<and> parallel_accumulate_2_8 hw order xs init = Undefined \<and> parallel_accumulate_8_4 hw order xs init = Undefined"
  using block_size_wraps [OF assms]
  by (simp add: parallel_accumulate_2_8_def parallel_accumulate_8_4_def Let_def block_size_def)

theorem parallel_accumulate_wraps_witness:
  "parallel_accumulate_2_8 8 [] (replicate (2 ^ 32 - 1) (1 :: nat)) 0 = Undefined"
  using parallel_accumulate_wraps [of "replicate (2 ^ 32 - 1) (1 :: nat)"] by simp

lemma tp_blocks_value: "tp_blocks n start = (replicate n (start + 25, start), start)"
  by (induction n) simp_all

text \<open>
  \<open>parallel_accmulate_using_tp\<close> agrees with \<open>std::accumulate\<close> for ranges of at most 25 elements. For a
  longer one it submits a range whose end precedes its beginning, whatever the order of the tasks.
\<close>

theorem using_tp_only_short:
  assumes "length xs + 24 < 2 ^ 32" "mset order = mset [0..<(length xs + 24) div 25 - 1]"
  shows "parallel_accmulate_using_tp order xs init = (if length xs \<le> 25 then Returns (foldl (+) init xs) else Undefined)"
proof (cases "xs = []")
  case False
  let ?n = "(length xs + 24) div 25 - 1"
  have nz: "to_ulong (length xs) \<noteq> 0" using False to_ulong_0 [of "length xs"] assms(1) by simp
  have m: "unat (max_threads (to_ulong (length xs))) = (length xs + 24) div 25" using max_threads_value [OF assms(1)] .
  moreover have "0 < (length xs + 24) div 25" using False by (cases xs) simp_all
  ultimately have n: "unat (max_threads (to_ulong (length xs)) - 1) = ?n"
    by (metis One_nat_def unat_gt_0 unat_minus_one)
  have run: "parallel_accmulate_using_tp order xs init =
      and_then (run_blocks xs (replicate ?n (25, 0)) order (replicate ?n 0)) (\<lambda>futures.
        Returns (foldl (+) init futures + sum_list xs))"
    unfolding parallel_accmulate_using_tp_def max_threads_def [symmetric]
    using nz n by (simp add: Let_def tp_blocks_value accumulate_def foldl_sum)
  show ?thesis
  proof (cases "length xs \<le> 25")
    case True
    then have "?n = 0" by simp
    then show ?thesis using True assms(2) unfolding run by (simp add: foldl_sum)
  next
    case False
    then have "length order \<noteq> 0" using mset_eq_length [OF assms(2)] by simp
    then obtain i rest where i: "order = i # rest" by (cases order) auto
    have "i \<in> set [0..<?n]" using mset_eq_setD [OF assms(2)] i by auto
    then have "run_blocks xs (replicate ?n (25, 0)) order (replicate ?n 0) = Undefined"
      unfolding i by (simp add: accumulate_def)
    then show ?thesis using False unfolding run by simp
  qed
qed (simp add: parallel_accmulate_using_tp_def to_ulong_def)

theorem using_tp_only_short_witness:
  "parallel_accmulate_using_tp [0] [0..<26] 0 = Undefined \<and> parallel_accmulate_using_tp [] [0..<10] 0 = Returns 45"
proof -
  have f: "foldl (+) 0 [0..<10] = 45" by (simp add: upt_rec)
  show ?thesis
    using using_tp_only_short [of "[0..<26]" "[0]" 0] using_tp_only_short [of "[0..<10]" "[]" 0, unfolded f] by simp
qed

section \<open>The walks of \<open>parallel_for_each\<close>\<close>

text \<open>What thread \<open>i\<close> has done of its block, and what is left.\<close>

definition walked :: "('a \<Rightarrow> 'a) \<Rightarrow> 'a list \<Rightarrow> nat \<times> nat \<Rightarrow> nat \<times> nat \<Rightarrow> 'a list \<Rightarrow> bool" where
  "walked f xs block rest ys \<longleftrightarrow> snd rest = snd block \<and> fst block \<le> fst rest \<and> fst rest \<le> snd rest \<and>
     (\<forall>p. fst block \<le> p \<longrightarrow> p < snd block \<longrightarrow> ys ! p = (if p < fst rest then f (xs ! p) else xs ! p))"

definition apart :: "(nat \<times> nat) list \<Rightarrow> bool" where
  "apart blocks \<longleftrightarrow> (\<forall>i j. i < j \<longrightarrow> j < length blocks \<longrightarrow> snd (blocks ! i) \<le> fst (blocks ! j))"

lemma apartD:
  assumes "apart blocks" "i < length blocks" "j < length blocks" "i \<noteq> j" "fst (blocks ! i) \<le> p" "p < snd (blocks ! i)"
    "fst (blocks ! j) \<le> p" "p < snd (blocks ! j)"
  shows False
proof (cases "i < j")
  case True
  then have "snd (blocks ! i) \<le> fst (blocks ! j)" using assms(1,3) unfolding apart_def by blast
  then show ?thesis using assms by simp
next
  case False
  then have "snd (blocks ! j) \<le> fst (blocks ! i)" using assms(1,2,4) unfolding apart_def by (meson linorder_neqE_nat)
  then show ?thesis using assms by simp
qed

definition walk_inv :: "('a \<Rightarrow> 'a) \<Rightarrow> 'a list \<Rightarrow> (nat \<times> nat) list \<Rightarrow> (nat \<times> nat) list \<Rightarrow> 'a list \<Rightarrow> bool" where
  "walk_inv f xs blocks ranges ys \<longleftrightarrow> length ranges = length blocks \<and> length ys = length xs \<and>
     (\<forall>i<length blocks. walked f xs (blocks ! i) (ranges ! i) ys)"

lemma walk_step:
  assumes inv: "walk_inv f xs blocks ranges ys" and "apart blocks" "\<forall>b\<in>set blocks. in_range xs b" "i < length blocks"
  shows "case_prod (walk_inv f xs blocks) (for_each_step f i (ranges, ys))"
proof -
  obtain a e where r: "ranges ! i = (a, e)" by fastforce
  have w: "walked f xs (blocks ! i) (a, e) ys" using inv assms(4) r unfolding walk_inv_def by metis
  show ?thesis
  proof (cases "a < e")
    case True
    have e: "e = snd (blocks ! i)" "fst (blocks ! i) \<le> a" "e \<le> length xs"
      using w assms(3,4) unfolding walked_def in_range_def by auto
    have len: "length ranges = length blocks" "length ys = length xs" using inv unfolding walk_inv_def by auto
    have "walked f xs (blocks ! j) (ranges[i := (Suc a, e)] ! j) (ys[a := f (ys ! a)])" if j: "j < length blocks" for j
    proof (cases "j = i")
      case True
      then show ?thesis using w \<open>a < e\<close> e len assms(4) unfolding walked_def by (auto simp: nth_list_update)
    next
      case False
      have "walked f xs (blocks ! j) (ranges ! j) ys" using inv j unfolding walk_inv_def by metis
      moreover have "\<not> (fst (blocks ! j) \<le> a \<and> a < snd (blocks ! j))"
        using apartD [OF assms(2,4) j, of a] False e \<open>a < e\<close> by auto
      ultimately show ?thesis using False unfolding walked_def by (auto simp: nth_list_update)
    qed
    then show ?thesis using True len by (simp add: for_each_step_def r walk_inv_def)
  qed (use inv r in \<open>simp add: for_each_step_def\<close>)
qed

lemma walk_steps:
  assumes "apart blocks" "\<forall>b\<in>set blocks. in_range xs b"
  shows "\<forall>i\<in>set schedule. i < length blocks \<Longrightarrow> walk_inv f xs blocks ranges ys \<Longrightarrow>
    case_prod (walk_inv f xs blocks) (fold (for_each_step f) schedule (ranges, ys))"
proof (induction schedule arbitrary: ranges ys)
  case (Cons i schedule)
  obtain ranges' ys' where s: "for_each_step f i (ranges, ys) = (ranges', ys')" by fastforce
  then have "walk_inv f xs blocks ranges' ys'" using walk_step [OF Cons.prems(2) assms, of i] Cons.prems(1) by simp
  then show ?case using Cons.IH [of ranges' ys'] Cons.prems(1) s by simp
qed simp

lemma block_bounds_nth: "i < k \<Longrightarrow> block_bounds k start width ! i = (start + i * width, start + Suc i * width)"
proof (induction k arbitrary: start i)
  case (Suc k)
  then show ?case by (cases i) simp_all
qed simp

lemma all_blocks_nth:
  assumes "i < k"
  shows "all_blocks k width n ! i = (i * width, if Suc i = k then n else Suc i * width)"
  using assms block_bounds_nth [of i "k - 1" 0 width] by (auto simp: all_blocks_def nth_append)

lemma all_blocks_apart: "0 < k \<Longrightarrow> apart (all_blocks k width n)"
proof -
  assume "0 < k"
  have len: "length (all_blocks k width n) = k" using \<open>0 < k\<close> by (simp add: all_blocks_def)
  have "snd (all_blocks k width n ! i) \<le> fst (all_blocks k width n ! j)" if "i < j" "j < k" for i j
  proof -
    have "Suc i * width \<le> j * width" using that(1) by (intro mult_le_mono1) simp
    then show ?thesis using that all_blocks_nth [of i k width n] all_blocks_nth [of j k width n] by simp
  qed
  then show ?thesis unfolding apart_def len by blast
qed

lemma all_blocks_cover:
  assumes "0 < k" "p < n"
  obtains i where "i < k" "fst (all_blocks k width n ! i) \<le> p" "p < snd (all_blocks k width n ! i)"
proof (cases "(k - 1) * width \<le> p")
  case True
  then show thesis using that [of "k - 1"] all_blocks_nth [of "k - 1" k width n] assms by simp
next
  case False
  then have w: "0 < width" by (cases width) auto
  have i: "p div width < k - 1" using False w by (simp add: less_mult_imp_div_less)
  have "p < Suc (p div width) * width" using dividend_less_div_times [OF w, of p] by simp
  moreover have "p div width * width \<le> p" by simp
  moreover have "Suc (p div width) \<noteq> k" "p div width < k" using i by linarith+
  then have "all_blocks k width n ! (p div width) = (p div width * width, Suc (p div width) * width)"
    using all_blocks_nth [of "p div width" k width n] by simp
  ultimately show thesis using that [of "p div width"] i by simp
qed

lemma joined_nth: "joined ranges \<longleftrightarrow> (\<forall>i<length ranges. fst (ranges ! i) = snd (ranges ! i))"
  by (simp add: joined_def list_all_length case_prod_beta)

lemma walked_elements:
  assumes inv: "walk_inv f xs (all_blocks t w (length xs)) ranges ys" and t: "0 < t" and p: "p < length xs"
  shows "ys ! p = xs ! p \<or> ys ! p = f (xs ! p)" "joined ranges \<Longrightarrow> ys ! p = f (xs ! p)"
proof -
  let ?bs = "all_blocks t w (length xs)"
  have len: "length ?bs = t" using t by (simp add: all_blocks_def)
  then have lens: "length ranges = t" using inv unfolding walk_inv_def by auto
  obtain i where i: "i < t" "fst (?bs ! i) \<le> p" "p < snd (?bs ! i)" by (rule all_blocks_cover [OF t p])
  have "walked f xs (?bs ! i) (ranges ! i) ys" using inv i(1) len unfolding walk_inv_def by metis
  then have w: "snd (ranges ! i) = snd (?bs ! i)" "ys ! p = (if p < fst (ranges ! i) then f (xs ! p) else xs ! p)"
    using i(2,3) unfolding walked_def by blast+
  show "ys ! p = xs ! p \<or> ys ! p = f (xs ! p)" using w(2) by simp
  assume "joined ranges"
  then have "fst (ranges ! i) = snd (ranges ! i)" using i(1) lens(1) by (simp add: joined_nth)
  then show "ys ! p = f (xs ! p)" using w i(3) by simp
qed

text \<open>The steps a thread still has to make.\<close>

definition left :: "nat \<Rightarrow> (nat \<times> nat) list \<times> 'a list \<Rightarrow> nat" where
  "left i s = snd (fst s ! i) - fst (fst s ! i)"

lemma left_step: "i < length (fst s) \<Longrightarrow> left i (for_each_step f j s) = (if j = i then left i s - 1 else left i s)
    \<and> length (fst (for_each_step f j s)) = length (fst s)"
  by (cases s; cases "fst s ! j") (auto simp: left_def for_each_step_def nth_list_update)

lemma left_steps: "i < length (fst s) \<Longrightarrow> left i (fold (for_each_step f) schedule s) = left i s - count_list schedule i"
  by (induction schedule arbitrary: s) (simp_all add: left_step)

text \<open>
  Whatever the schedule, \<open>parallel_for_each\<close> touches no element twice: each is as it was or is
  \<open>f\<close> of what it was; when the threads have been joined, the sequence is the map of \<open>f\<close> over it; and they
  are joined once each has run for as many steps as there are elements.
\<close>

theorem parallel_for_each_maps:
  assumes "length xs + 24 < 2 ^ 32" "\<forall>i\<in>set schedule. i < unat (num_threads hw (to_ulong (length xs)))"
  shows "\<exists>ranges ys. parallel_for_each hw f schedule xs = Returns (ranges, ys) \<and> length ys = length xs
    \<and> (\<forall>p<length xs. ys ! p = xs ! p \<or> ys ! p = f (xs ! p))
    \<and> (joined ranges \<longrightarrow> ys = List.map f xs)
    \<and> ((\<forall>i<unat (num_threads hw (to_ulong (length xs))). length xs \<le> count_list schedule i) \<longrightarrow> joined ranges)"
proof (cases "xs = []")
  case False
  then obtain t w where t: "unat (num_threads hw (to_ulong (length xs))) = t" "0 < t"
      "block_size hw (to_ulong (length xs)) = Returns w" "t * unat w \<le> length xs"
    using block_size_value [of "length xs" hw] assms(1) by auto
  have nz: "to_ulong (length xs) \<noteq> 0" using False to_ulong_0 [of "length xs"] assms(1) by simp
  let ?bs = "all_blocks t (unat w) (length xs)"
  obtain ranges ys where run: "fold (for_each_step f) schedule (?bs, xs) = (ranges, ys)" by fastforce
  have len: "length ?bs = t" using t(2) by (simp add: all_blocks_def)
  have wt: "(t - 1) * unat w \<le> length xs" using t(2,4) by (metis diff_le_self le_trans mult_le_mono1)
  have ranged: "\<forall>b\<in>set ?bs. in_range xs b"
    using block_bounds_range [of _ "t - 1" 0 "unat w" xs] wt by (auto simp: all_blocks_def in_range_def)
  have "walk_inv f xs ?bs ?bs xs" using ranged by (auto simp: walk_inv_def walked_def in_range_def)
  then have inv: "walk_inv f xs ?bs ranges ys"
    using walk_steps [OF all_blocks_apart [OF t(2)] ranged, of schedule f] assms(2) run len t(1) by fastforce
  have lens: "length ranges = t" "length ys = length xs" using inv len unfolding walk_inv_def by auto
  note at = walked_elements [OF inv t(2)]
  have "joined ranges" if c: "\<forall>i<t. length xs \<le> count_list schedule i"
  proof -
    have "fst (ranges ! i) = snd (ranges ! i)" if "i < t" for i
    proof -
      have "snd (?bs ! i) \<le> length xs" using ranged that len unfolding in_range_def by simp
      moreover have "length xs \<le> count_list schedule i" using c that by blast
      ultimately have "left i (ranges, ys) = 0"
        using left_steps [of i "(?bs, xs)" f schedule] that len run by (simp add: left_def)
      moreover have "fst (ranges ! i) \<le> snd (ranges ! i)" using inv that len unfolding walk_inv_def walked_def by metis
      ultimately show ?thesis by (simp add: left_def)
    qed
    then show ?thesis using lens(1) by (simp add: joined_nth)
  qed
  moreover have "joined ranges \<longrightarrow> ys = List.map f xs" using at(2) lens(2) by (auto intro: nth_equalityI)
  moreover have "parallel_for_each hw f schedule xs = Returns (ranges, ys)"
    using nz t(1,3) run by (simp add: parallel_for_each_def Let_def)
  ultimately show ?thesis using at(1) lens(2) unfolding t(1) by blast
qed (use assms(2) in \<open>simp add: parallel_for_each_def to_ulong_def joined_def\<close>)

theorem parallel_for_each_maps_witness:
  "\<exists>ranges. parallel_for_each 2 Suc (replicate 30 0 @ replicate 30 1) (replicate 30 4) = Returns (ranges, replicate 30 5)"
proof -
  have "max_threads (to_ulong 30) = 2" by (simp add: max_threads_def to_ulong_def)
  then have t: "unat (num_threads 2 (to_ulong 30)) = 2" by (simp add: num_threads_def)
  have c: "count_list (replicate n x) y = (if x = y then n else 0)" for n and x y :: nat
    by (induction n) (auto split: if_splits)
  have a: "count_list (us @ vs) y = count_list us y + count_list vs y" for us vs and y :: nat by (induction us) simp_all
  have "\<forall>i<2 :: nat. 30 \<le> count_list (replicate 30 0 @ replicate 30 1) i"
    by (auto simp: c a less_2_cases_iff)
  then show ?thesis
    using parallel_for_each_maps [of "replicate 30 (4 :: nat)" "replicate 30 0 @ replicate 30 1" 2 Suc]
    unfolding length_replicate t by auto
qed

end
