(* ===== verification/Thread_Basics.thy ===== *)
theory Thread_Basics
  imports Node_Heap Prelude Quick_Sort
begin

text \<open>
  First exercises of \<open>cpp-concurrency-in-action\<close>: \<open>2.2.raii\<close> and \<open>2.6.scoped_thread\<close>, where an object joins a
  thread that refers to a local variable of \<open>main\<close>, and \<open>4.x2a.splice_partition\<close>.
\<close>

section \<open>Threads that refer to a local variable\<close>

text \<open>What \<open>main\<close> does once the thread runs, to the destructors at its end, which run in reverse order of construction.\<close>

datatype action = Print string | Print_local | Wait_key | Guard_destroy | Scoped_destroy | Thread_destroy | Local_destroy

text \<open>The thread: not yet at the loop, in it, or at its end.\<close>

datatype worker = Starting | Counting nat | Ended

text \<open>
  The state has whether the \<open>std::thread\<close> is joinable, the local variable while it lives, and what was printed, by the
  thread (true) or by \<open>main\<close>. Undefined steps are those that use a dead variable or call \<open>std::terminate\<close>.
\<close>

record raii =
  todo :: "action list"
  joinable :: bool
  worker :: worker
  some_local_state :: "int option"
  printed :: "(bool \<times> string) list"

definition raii_print :: "bool \<Rightarrow> string \<Rightarrow> raii \<Rightarrow> raii" where
  "raii_print by_thread t s = s\<lparr>printed := printed s @ [(by_thread, t)]\<rparr>"

definition thread_join :: "raii \<Rightarrow> raii outcome" where
  "thread_join s = (if worker s = Ended then Returns (s\<lparr>joinable := False\<rparr>) else Blocks)"

definition thread_guard_destroy :: "raii \<Rightarrow> raii outcome" where
  "thread_guard_destroy s = (if joinable s then thread_join s else Returns s)"

text \<open>\<open>scoped_thread\<close>: the constructor throws (\<open>None\<close>) when there is no thread; \<open>join\<close> throws then, in a destructor.\<close>

definition scoped_thread_new :: "raii \<Rightarrow> raii option" where
  "scoped_thread_new s = (if \<not> joinable s then None else Some s)"

definition scoped_thread_destroy :: "raii \<Rightarrow> raii outcome" where
  "scoped_thread_destroy s = (if joinable s then thread_join s else Undefined)"

fun perform :: "action \<Rightarrow> raii \<Rightarrow> raii outcome" where
  "perform (Print t) s = Returns (raii_print False t s)"
| "perform Print_local s = (case some_local_state s of None \<Rightarrow> Undefined | Some v \<Rightarrow> Returns (raii_print False (int_text v) s))"
| "perform Wait_key s = Returns s"
| "perform Guard_destroy s = thread_guard_destroy s"
| "perform Scoped_destroy s = scoped_thread_destroy s"
| "perform Thread_destroy s = (if joinable s then Undefined else Returns s)"
| "perform Local_destroy s = Returns (s\<lparr>some_local_state := None\<rparr>)"

text \<open>\<open>func::operator()\<close>: the loop starts at the local variable as an unsigned number; \<open>sep\<close> ends what it prints.\<close>

definition func_step :: "nat \<Rightarrow> string \<Rightarrow> raii \<Rightarrow> raii outcome" where
  "func_step n sep s =
     (case worker s of
        Starting \<Rightarrow> (case some_local_state s of None \<Rightarrow> Undefined
          | Some v \<Rightarrow> Returns (s\<lparr>worker := Counting (nat (v mod 2 ^ 32))\<rparr>))
      | Counting i \<Rightarrow> Returns (if i < n then (raii_print True (decimal i @ sep) s)\<lparr>worker := Counting (i + 1)\<rparr> else s\<lparr>worker := Ended\<rparr>)
      | Ended \<Rightarrow> Blocks)"

definition main_step :: "raii \<Rightarrow> raii outcome" where
  "main_step s = (case todo s of [] \<Rightarrow> Blocks | a # as \<Rightarrow> perform a (s\<lparr>todo := as\<rparr>))"

inductive raii_step :: "nat \<Rightarrow> string \<Rightarrow> raii \<Rightarrow> raii \<Rightarrow> bool" for n sep where
  step_main: "main_step s = Returns s' \<Longrightarrow> raii_step n sep s s'"
| step_func: "func_step n sep s = Returns s' \<Longrightarrow> raii_step n sep s s'"

definition raii_new :: "action list \<Rightarrow> raii" where
  "raii_new prog = \<lparr>todo = prog, joinable = True, worker = Starting, some_local_state = Some 0, printed = []\<rparr>"

definition main_raii :: "action list" where
  "main_raii = [Print ''i = '', Print_local, Wait_key, Guard_destroy, Thread_destroy, Local_destroy]"

definition main_scoped :: "action list" where
  "main_scoped = [Wait_key, Scoped_destroy, Thread_destroy, Local_destroy]"

section \<open>The thread ends before the variable\<close>

fun joined_first :: "action list \<Rightarrow> bool" where
  "joined_first (Print t # as) = joined_first as"
| "joined_first (Print_local # as) = joined_first as"
| "joined_first (Wait_key # as) = joined_first as"
| "joined_first (Guard_destroy # as) = (set as \<subseteq> {Thread_destroy, Local_destroy})"
| "joined_first (Scoped_destroy # as) = (set as \<subseteq> {Thread_destroy, Local_destroy})"
| "joined_first _ = False"

fun main_prints :: "action list \<Rightarrow> string list" where
  "main_prints [] = []"
| "main_prints (Print t # as) = t # main_prints as"
| "main_prints (Print_local # as) = decimal 0 # main_prints as"
| "main_prints (_ # as) = main_prints as"

fun counted :: "nat \<Rightarrow> worker \<Rightarrow> nat" where
  "counted n Starting = 0"
| "counted n (Counting i) = i"
| "counted n Ended = n"

definition raii_inv :: "nat \<Rightarrow> string \<Rightarrow> action list \<Rightarrow> raii \<Rightarrow> bool" where
  "raii_inv n sep prog s \<longleftrightarrow>
     (if joinable s then joined_first (todo s) \<and> some_local_state s = Some 0
      else worker s = Ended \<and> set (todo s) \<subseteq> {Thread_destroy, Local_destroy})
     \<and> counted n (worker s) \<le> n
     \<and> map snd (filter fst (printed s)) = map (\<lambda>i. decimal i @ sep) [0..<counted n (worker s)]
     \<and> map snd (filter (\<lambda>x. \<not> fst x) (printed s)) @ main_prints (todo s) = main_prints prog"

lemmas raii_defs = raii_inv_def main_step_def func_step_def raii_print_def thread_join_def thread_guard_destroy_def
  scoped_thread_destroy_def int_text_def

lemma main_prints_after: "set as \<subseteq> {Thread_destroy, Local_destroy} \<Longrightarrow> main_prints as = []"
  by (induction as) auto

lemma raii_step_inv:
  assumes "raii_step n sep s s'" "raii_inv n sep prog s"
  shows "raii_inv n sep prog s'"
  using assms(1)
proof cases
  case step_main
  then obtain a as where a: "todo s = a # as" "perform a (s\<lparr>todo := as\<rparr>) = Returns s'"
    by (auto simp: main_step_def split: list.splits)
  then show ?thesis
    using assms(2) by (cases a) (auto simp: raii_defs main_prints_after split: if_splits option.splits)
next
  case step_func
  then show ?thesis
    using assms(2) by (auto simp: raii_defs split: worker.splits option.splits if_splits)
qed

lemma raii_reachable:
  assumes "joined_first prog" "(raii_step n sep)\<^sup>*\<^sup>* (raii_new prog) s"
  shows "raii_inv n sep prog s"
  using assms(2) by (induction rule: rtranclp_induct) (use assms(1) raii_step_inv in \<open>auto simp: raii_inv_def raii_new_def\<close>)

lemma raii_defined:
  assumes "raii_inv n sep prog s"
  shows "main_step s \<noteq> Undefined" "func_step n sep s \<noteq> Undefined"
proof -
  show "func_step n sep s \<noteq> Undefined"
    using assms by (auto simp: raii_defs split: worker.splits option.splits if_splits)
  show "main_step s \<noteq> Undefined"
  proof (cases "todo s")
    case (Cons a as)
    with assms show ?thesis by (cases a) (auto simp: raii_defs split: if_splits)
  qed (simp add: main_step_def)
qed

text \<open>A step makes what is left to do shorter, so every run ends.\<close>

definition raii_left :: "nat \<Rightarrow> raii \<Rightarrow> nat" where
  "raii_left n s = length (todo s) + (case worker s of Starting \<Rightarrow> n + 2 | Counting i \<Rightarrow> n - i + 1 | Ended \<Rightarrow> 0)"

lemma raii_step_left:
  assumes "raii_step n sep s s'" "raii_inv n sep prog s"
  shows "raii_left n s' < raii_left n s"
  using assms(1)
proof cases
  case step_main
  then obtain a as where a: "todo s = a # as" "perform a (s\<lparr>todo := as\<rparr>) = Returns s'"
    by (auto simp: main_step_def split: list.splits)
  then show ?thesis by (cases a) (auto simp: raii_left_def raii_defs split: if_splits option.splits)
next
  case step_func
  then show ?thesis
    using assms(2) by (auto simp: raii_left_def raii_defs split: worker.splits option.splits if_splits)
qed

text \<open>
  In both programs no step uses a dead variable or calls \<open>std::terminate\<close>; and where no step can be taken \<open>main\<close> has
  ended, the thread has been joined, and each of them has printed what it prints alone, in order.
\<close>

theorem threads_are_joined:
  assumes "prog \<in> {main_raii, main_scoped}" "(raii_step n sep)\<^sup>*\<^sup>* (raii_new prog) s"
  shows "main_step s \<noteq> Undefined \<and> func_step n sep s \<noteq> Undefined
    \<and> ((\<forall>s'. \<not> raii_step n sep s s') \<longrightarrow> todo s = [] \<and> \<not> joinable s
        \<and> map snd (filter fst (printed s)) = map (\<lambda>i. decimal i @ sep) [0..<n]
        \<and> map snd (filter (\<lambda>x. \<not> fst x) (printed s)) = main_prints prog)"
proof -
  have "joined_first prog" using assms(1) by (auto simp: main_raii_def main_scoped_def)
  then have inv: "raii_inv n sep prog s" using assms(2) by (rule raii_reachable)
  note def = raii_defined [OF inv]
  have final: "todo s = [] \<and> worker s = Ended" if stuck: "\<forall>s'. \<not> raii_step n sep s s'"
  proof -
    have "func_step n sep s = Blocks" using stuck def(2) step_func by (metis outcome.exhaust)
    then have e: "worker s = Ended" by (auto simp: func_step_def split: worker.splits option.splits)
    have m: "main_step s = Blocks" using stuck def(1) step_main by (metis outcome.exhaust)
    have "todo s = []"
    proof (cases "todo s")
      case (Cons a as)
      then show ?thesis using m e inv by (cases a) (auto simp: raii_defs split: if_splits)
    qed
    with e show ?thesis by simp
  qed
  have "\<not> joinable s" if "todo s = []" using inv that by (auto simp: raii_inv_def split: if_splits)
  moreover have "map snd (filter fst (printed s)) = map (\<lambda>i. decimal i @ sep) [0..<n]
      \<and> map snd (filter (\<lambda>x. \<not> fst x) (printed s)) = main_prints prog" if "todo s = []" "worker s = Ended"
    using inv that by (simp add: raii_inv_def)
  ultimately show ?thesis using def final by blast
qed

text \<open>Without the destructor of the guard the program would end in \<open>std::terminate\<close>.\<close>

lemma unguarded: "main_step (raii_new [Thread_destroy, Local_destroy]) = Undefined"
  by (simp add: main_step_def raii_new_def)

section \<open>\<open>splice_partition\<close>\<close>

text \<open>The lists \<open>l\<close>, \<open>r\<close> and \<open>lower\<close> at the end; \<open>std::partition\<close> is the parameter of \<open>Quick_Sort\<close>.\<close>

definition splice_partition :: "((int \<Rightarrow> bool) \<Rightarrow> int list \<Rightarrow> int list \<times> int list) \<Rightarrow> int list \<Rightarrow> int list \<times> int list \<times> int list" where
  "splice_partition part l =
     (let r = [hd l]; l = tl l; pivot = hd r; (front, back) = part (\<lambda>i. i < pivot) l;
          l = front @ back; lower = take (length front) l; l = drop (length front) l
      in (l, r, lower))"

lemma splice_partition_parts:
  assumes "partitions part"
  shows "case splice_partition part (pivot # xs) of (l, r, lower) \<Rightarrow>
    r = [pivot] \<and> mset (lower @ r @ l) = mset (pivot # xs) \<and> (\<forall>x\<in>set lower. x < pivot) \<and> (\<forall>x\<in>set l. pivot \<le> x)"
proof -
  obtain a b where p: "part (\<lambda>i. i < pivot) xs = (a, b)" by fastforce
  have eq: "splice_partition part (pivot # xs) = (b, [pivot], a)" by (simp add: splice_partition_def p)
  show ?thesis using partitionsD(1-3) [OF assms p] unfolding eq by auto
qed

end
