(* ===== verification/Producer_Consumer.thy ===== *)
theory Producer_Consumer
  imports Node_Heap
begin

text \<open>
  Containers under a single mutex (\<open>3.5.threadsafe_stack\<close>, \<open>6.lock_based/threadsafe_stack.hpp\<close> and the
  queue of \<open>4.5.threadsafe_queue\<close>, of \<open>cpp-concurrency-in-action\<close>), each operation one step, and the
  program of \<open>4.1.condition_variable\<close> and \<open>4.5.threadsafe_queue\<close>: a thread that prepares numbered
  chunks and one that processes them until 100 are done. Both threads use the counter of processed chunks
  without a lock; the model lets each access be one step. The counters are of type \<open>int\<close>: counting past
  \<open>int_max\<close> is undefined.
\<close>

section \<open>The stack\<close>

text \<open>\<open>empty_stack\<close> is the exception that \<open>pop\<close> throws.\<close>

datatype stack_error = Empty_stack

type_synonym 'a mutex_stack = "'a list"

definition stack_new :: "'a mutex_stack" where
  "stack_new = []"

definition stack_copy :: "'a mutex_stack \<Rightarrow> 'a mutex_stack" where
  "stack_copy other = other"

definition stack_push :: "'a \<Rightarrow> 'a mutex_stack \<Rightarrow> 'a mutex_stack" where
  "stack_push value data = value # data"

definition stack_pop :: "'a mutex_stack \<Rightarrow> stack_error + 'a \<times> 'a mutex_stack" where
  "stack_pop data = (case data of [] \<Rightarrow> Inl Empty_stack | v # rest \<Rightarrow> Inr (v, rest))"

text \<open>\<open>pop(T&)\<close>: the argument keeps its value when the stack is empty.\<close>

definition stack_pop_ref :: "'a \<Rightarrow> 'a mutex_stack \<Rightarrow> (stack_error + unit) \<times> 'a \<times> 'a mutex_stack" where
  "stack_pop_ref value data =
     (case data of [] \<Rightarrow> (Inl Empty_stack, value, data) | v # rest \<Rightarrow> (Inr (), v, rest))"

definition stack_empty :: "'a mutex_stack \<Rightarrow> bool" where
  "stack_empty data \<longleftrightarrow> data = []"

lemma stack_pop_push [simp]: "stack_pop (stack_push v s) = Inr (v, s)"
  by (simp add: stack_pop_def stack_push_def)

lemma stack_pop_iff: "(\<exists>r. stack_pop s = Inr r) \<longleftrightarrow> \<not> stack_empty s"
  by (simp add: stack_pop_def stack_empty_def split: list.splits)

section \<open>The queue of \<open>4.5.threadsafe_queue.cpp\<close>\<close>

type_synonym 'a mutex_queue = "'a list"

definition mq_new :: "'a mutex_queue" where
  "mq_new = []"

definition mq_copy :: "'a mutex_queue \<Rightarrow> 'a mutex_queue" where
  "mq_copy other = other"

definition mq_push :: "'a \<Rightarrow> 'a mutex_queue \<Rightarrow> 'a mutex_queue outcome" where
  "mq_push value q = Returns (q @ [value])"

text \<open>\<open>try_pop(T&)\<close> does not pop.\<close>

definition mq_try_pop_ref :: "'a \<Rightarrow> 'a mutex_queue \<Rightarrow> bool \<times> 'a \<times> 'a mutex_queue" where
  "mq_try_pop_ref value q = (if q = [] then (False, value, q) else (True, hd q, q))"

definition mq_try_pop :: "'a mutex_queue \<Rightarrow> ('a option \<times> 'a mutex_queue) outcome" where
  "mq_try_pop q = (if q = [] then Returns (None, q) else Returns (Some (hd q), tl q))"

definition mq_wait_and_pop :: "'a mutex_queue \<Rightarrow> ('a \<times> 'a mutex_queue) outcome" where
  "mq_wait_and_pop q = (if q = [] then Blocks else Returns (hd q, tl q))"

definition mq_empty :: "'a mutex_queue \<Rightarrow> bool" where
  "mq_empty q \<longleftrightarrow> q = []"

interpretation mq: fifo mq_new mq_push mq_try_pop "\<lambda>q xs. q = xs"
proof unfold_locales
  show "\<exists>s'. mq_try_pop s = Returns (fst (spec_op Try_pop xs), s') \<and> s' = snd (spec_op Try_pop xs)" if "s = xs"
    for s xs :: "'a mutex_queue"
    using that by (cases xs) (simp_all add: mq_try_pop_def)
qed (simp_all add: mq_new_def mq_push_def)

text \<open>Against the contract: with the variant that has a reference argument the queue never empties.\<close>

lemma mq_try_pop_ref_keeps: "snd (snd (mq_try_pop_ref value q)) = q"
  by (simp add: mq_try_pop_ref_def)

section \<open>The program\<close>

definition to_do :: int where
  "to_do = 100"

type_synonym data_chunk = "int \<times> int"

text \<open>Where the two threads are; \<open>Asleep\<close> is waiting on the condition variable.\<close>

datatype prepare_pc = Prep_test | Prep_push data_chunk | Prep_end

datatype process_pc = Take | Asleep | Process data_chunk | Is_last | Proc_end

record program =
  data_queue :: "data_chunk mutex_queue"
  g_done :: int
  g_i :: int
  g_j :: int
  prepare :: prepare_pc
  processing :: process_pc
  processed :: "data_chunk list"

definition program_new :: program where
  "program_new = \<lparr>data_queue = mq_new, g_done = 0, g_i = 0, g_j = 0, prepare = Prep_test, processing = Take, processed = []\<rparr>"

text \<open>\<open>more_data_to_prepare\<close> and \<open>prepare_data\<close>.\<close>

definition int_max :: int where
  "int_max = 2147483647"

definition prepare_data :: "program \<Rightarrow> (data_chunk \<times> program) outcome" where
  "prepare_data s =
     (if g_i s \<ge> int_max \<or> g_j s \<ge> int_max then Undefined
      else let s = s\<lparr>g_i := g_i s + 1, g_j := g_j s + 1\<rparr> in Returns ((g_i s, g_j s), s))"

definition more_data_to_prepare :: "program \<Rightarrow> bool" where
  "more_data_to_prepare s \<longleftrightarrow> \<not> g_done s \<ge> to_do"

definition process_data :: "data_chunk \<Rightarrow> program \<Rightarrow> program outcome" where
  "process_data data s =
     (if g_done s \<ge> int_max then Undefined
      else Returns (s\<lparr>g_done := g_done s + 1, processed := processed s @ [data]\<rparr>))"

definition is_last_chunk :: "program \<Rightarrow> bool" where
  "is_last_chunk s \<longleftrightarrow> g_done s \<ge> to_do"

text \<open>\<open>notify_one\<close> wakes the thread that processes when it sleeps. A thread that has ended has no step.\<close>

definition preparation_step :: "program \<Rightarrow> program outcome" where
  "preparation_step s =
     (case prepare s of
        Prep_test \<Rightarrow>
          if more_data_to_prepare s
          then and_then (prepare_data s) (\<lambda>(data, s). Returns (s\<lparr>prepare := Prep_push data\<rparr>))
          else Returns (s\<lparr>prepare := Prep_end\<rparr>)
      | Prep_push data \<Rightarrow>
          and_then (mq_push data (data_queue s)) (\<lambda>q. Returns (s\<lparr>data_queue := q, prepare := Prep_test,
               processing := (if processing s = Asleep then Take else processing s)\<rparr>))
      | Prep_end \<Rightarrow> Blocks)"

text \<open>\<open>wait\<close> tests the predicate under the mutex and sleeps when the queue is empty.\<close>

definition processing_step :: "program \<Rightarrow> program outcome" where
  "processing_step s =
     (case processing s of
        Take \<Rightarrow>
          (case mq_wait_and_pop (data_queue s) of
             Returns (data, q) \<Rightarrow> Returns (s\<lparr>data_queue := q, processing := Process data\<rparr>)
           | Blocks \<Rightarrow> Returns (s\<lparr>processing := Asleep\<rparr>)
           | Undefined \<Rightarrow> Undefined)
      | Asleep \<Rightarrow> Blocks
      | Process data \<Rightarrow> and_then (process_data data s) (\<lambda>s. Returns (s\<lparr>processing := Is_last\<rparr>))
      | Is_last \<Rightarrow> Returns (s\<lparr>processing := (if is_last_chunk s then Proc_end else Take)\<rparr>)
      | Proc_end \<Rightarrow> Blocks)"

text \<open>A sleeping thread may also wake up for no reason.\<close>

inductive program_step :: "program \<Rightarrow> program \<Rightarrow> bool" where
  prepares: "preparation_step s = Returns s' \<Longrightarrow> program_step s s'"
| processes: "processing_step s = Returns s' \<Longrightarrow> program_step s s'"
| wakes: "processing s = Asleep \<Longrightarrow> program_step s (s\<lparr>processing := Take\<rparr>)"

inductive_cases program_stepE: "program_step s s'"

section \<open>The invariant\<close>

text \<open>The chunks that are prepared and not yet in the queue, and taken and not yet processed.\<close>

definition on_the_way :: "program \<Rightarrow> data_chunk list" where
  "on_the_way s = (case prepare s of Prep_push data \<Rightarrow> [data] | _ \<Rightarrow> [])"

definition in_hand :: "program \<Rightarrow> data_chunk list" where
  "in_hand s = (case processing s of Process data \<Rightarrow> [data] | _ \<Rightarrow> [])"

definition chunks :: "nat \<Rightarrow> data_chunk list" where
  "chunks n = map (\<lambda>k. (int k + 1, int k + 1)) [0..<n]"

definition program_inv :: "program \<Rightarrow> bool" where
  "program_inv s \<longleftrightarrow>
     g_i s = g_j s \<and> 0 \<le> g_i s \<and> processed s @ in_hand s @ data_queue s @ on_the_way s = chunks (nat (g_i s))
     \<and> g_done s = int (length (processed s)) \<and> g_done s \<le> to_do
     \<and> (processing s \<noteq> Is_last \<and> processing s \<noteq> Proc_end \<longrightarrow> g_done s < to_do)
     \<and> (processing s = Proc_end \<longrightarrow> g_done s = to_do) \<and> (prepare s = Prep_end \<longrightarrow> g_done s = to_do)
     \<and> (processing s = Asleep \<longrightarrow> data_queue s = [])"

lemmas program_defs = program_inv_def on_the_way_def in_hand_def to_do_def

lemma chunks_Suc: "0 \<le> i \<Longrightarrow> chunks (nat (i + 1)) = chunks (nat i) @ [(i + 1, i + 1)]"
  by (simp add: chunks_def nat_add_distrib)

lemma program_inv_new: "program_inv program_new"
  by (simp add: program_defs program_new_def mq_new_def chunks_def)

lemma preparation_inv: "program_inv s \<Longrightarrow> preparation_step s = Returns s' \<Longrightarrow> program_inv s'"
proof (cases "prepare s")
  case Prep_test
  assume inv: "program_inv s" and step: "preparation_step s = Returns s'"
  show ?thesis
  proof (cases "more_data_to_prepare s")
    case True
    then have s': "s' = s\<lparr>g_i := g_i s + 1, g_j := g_j s + 1, prepare := Prep_push (g_i s + 1, g_j s + 1)\<rparr>"
      using step Prep_test by (simp add: preparation_step_def prepare_data_def Let_def split: if_splits)
    show ?thesis
      using inv Prep_test unfolding s' by (cases "processing s") (auto simp: program_defs chunks_Suc)
  next
    case False
    then have s': "s' = s\<lparr>prepare := Prep_end\<rparr>"
      using step Prep_test by (simp add: preparation_step_def)
    show ?thesis
      using inv Prep_test False unfolding s'
      by (cases "processing s") (simp_all add: program_defs more_data_to_prepare_def)
  qed
next
  case (Prep_push data)
  assume inv: "program_inv s" and step: "preparation_step s = Returns s'"
  then have s': "s' = s\<lparr>data_queue := data_queue s @ [data], prepare := Prep_test,
      processing := (if processing s = Asleep then Take else processing s)\<rparr>"
    using Prep_push by (simp add: preparation_step_def mq_push_def)
  show ?thesis
    using inv Prep_push unfolding s' by (cases "processing s") (auto simp: program_defs)
qed (simp add: preparation_step_def)

lemma processing_inv: "program_inv s \<Longrightarrow> processing_step s = Returns s' \<Longrightarrow> program_inv s'"
proof (cases "processing s")
  case Take
  assume inv: "program_inv s" and step: "processing_step s = Returns s'"
  show ?thesis
  proof (cases "data_queue s")
    case Nil
    then have s': "s' = s\<lparr>processing := Asleep\<rparr>"
      using step Take by (simp add: processing_step_def mq_wait_and_pop_def)
    show ?thesis using inv Take Nil unfolding s' by (auto simp: program_defs)
  next
    case (Cons data q)
    then have s': "s' = s\<lparr>data_queue := q, processing := Process data\<rparr>"
      using step Take by (simp add: processing_step_def mq_wait_and_pop_def)
    show ?thesis using inv Take Cons unfolding s' by (auto simp: program_defs)
  qed
next
  case (Process data)
  assume inv: "program_inv s" and step: "processing_step s = Returns s'"
  then have s': "s' = s\<lparr>g_done := g_done s + 1, processed := processed s @ [data], processing := Is_last\<rparr>"
    using Process by (simp add: processing_step_def process_data_def split: if_splits)
  show ?thesis using inv Process unfolding s' by (auto simp: program_defs)
next
  case Is_last
  assume inv: "program_inv s" and step: "processing_step s = Returns s'"
  then have s': "s' = s\<lparr>processing := (if g_done s \<ge> to_do then Proc_end else Take)\<rparr>"
    using Is_last by (simp add: processing_step_def is_last_chunk_def)
  show ?thesis using inv Is_last unfolding s' by (auto simp: program_defs)
qed (simp_all add: processing_step_def)

lemma wake_inv: "program_inv s \<Longrightarrow> processing s = Asleep \<Longrightarrow> program_inv (s\<lparr>processing := Take\<rparr>)"
  by (auto simp: program_defs)

lemma program_step_inv: "program_step s s' \<Longrightarrow> program_inv s \<Longrightarrow> program_inv s'"
  by (erule program_stepE) (auto intro: preparation_inv processing_inv wake_inv)

lemma program_reachable: "program_step\<^sup>*\<^sup>* program_new s \<Longrightarrow> program_inv s"
  by (induction rule: rtranclp_induct) (simp_all add: program_inv_new program_step_inv)

lemma processed_chunks:
  assumes "program_inv s"
  shows "processed s = chunks (length (processed s)) \<and> length (processed s) \<le> 100"
proof -
  have eq: "processed s @ in_hand s @ data_queue s @ on_the_way s = chunks (nat (g_i s))"
    using assms by (simp add: program_inv_def)
  have "length (processed s) \<le> nat (g_i s)" using arg_cong [OF eq, of length] by (simp add: chunks_def)
  moreover have "processed s = take (length (processed s)) (chunks (nat (g_i s)))" by (simp flip: eq)
  moreover have "length (processed s) \<le> 100" using assms by (simp add: program_inv_def to_do_def)
  ultimately show ?thesis by (simp add: chunks_def take_map)
qed

text \<open>Neither thread waits for the other longer than it must: the one that prepares never, the one that
  processes while the queue is empty.\<close>

lemma processing_moves:
  assumes "program_inv s" "data_queue s \<noteq> []" "processing s \<noteq> Proc_end"
  shows "\<exists>s'. processing_step s = Returns s'"
  using assms by (cases "processing s")
    (auto simp: processing_step_def process_data_def mq_wait_and_pop_def program_defs int_max_def)

lemma processing_defined:
  assumes "program_inv s"
  shows "processing_step s \<noteq> Undefined"
  using assms by (cases "processing s")
    (auto simp: processing_step_def process_data_def mq_wait_and_pop_def program_defs int_max_def)

lemma preparation_moves:
  assumes "program_inv s" "preparation_step s \<noteq> Undefined" "prepare s \<noteq> Prep_end"
  shows "\<exists>s'. preparation_step s = Returns s'"
  using assms by (cases "prepare s") (auto simp: preparation_step_def prepare_data_def mq_push_def Let_def)

lemma preparation_overflows:
  assumes "program_inv s" "preparation_step s = Undefined"
  shows "2147483547 \<le> length (data_queue s)"
proof -
  have eq: "processed s @ in_hand s @ data_queue s @ on_the_way s = chunks (nat (g_i s))"
    using assms by (simp add: program_inv_def)
  have prep: "prepare s = Prep_test" "more_data_to_prepare s" and i: "g_i s \<ge> int_max"
    using assms by (auto simp: preparation_step_def prepare_data_def mq_push_def program_inv_def Let_def
        split: prepare_pc.splits if_splits)
  have "length (processed s) \<le> 99"
    using assms(1) prep by (simp add: program_inv_def more_data_to_prepare_def to_do_def)
  moreover have "length (in_hand s) \<le> 1" by (simp add: in_hand_def split: process_pc.splits)
  moreover have "length (on_the_way s) = 0" using prep by (simp add: on_the_way_def)
  moreover have "length (processed s) + (length (in_hand s) + (length (data_queue s) + length (on_the_way s))) = nat (g_i s)"
    using arg_cong [OF eq, of length] by (simp add: chunks_def)
  ultimately show ?thesis using i by (simp add: int_max_def)
qed

section \<open>Properties\<close>

text \<open>
  C37. Whatever the interleaving: the chunks are processed in order, never more than 100. The thread that
  processes can always make a step while the queue has chunks, in particular no wake-up is lost: it
  sleeps only while the queue is empty and the thread that prepares has not ended. That thread never
  waits; it runs into the overflow of its counters, which is undefined, only when the other thread has
  left more than 2147483546 chunks in the queue. When both threads have ended, exactly the chunks 1 to 100
  were processed.
\<close>

theorem producer_consumer:
  assumes "program_step\<^sup>*\<^sup>* program_new s"
  shows "processed s = chunks (length (processed s)) \<and> length (processed s) \<le> 100
    \<and> (data_queue s \<noteq> [] \<and> processing s \<noteq> Proc_end \<longrightarrow> (\<exists>s'. processing_step s = Returns s'))
    \<and> (processing s = Asleep \<longrightarrow> data_queue s = [] \<and> prepare s \<noteq> Prep_end)
    \<and> (prepare s \<noteq> Prep_end \<and> length (data_queue s) < 2147483547 \<longrightarrow> (\<exists>s'. preparation_step s = Returns s'))
    \<and> processing_step s \<noteq> Undefined
    \<and> (prepare s = Prep_end \<and> processing s = Proc_end \<longrightarrow> processed s = chunks 100)"
proof -
  have inv: "program_inv s" by (rule program_reachable [OF assms])
  have p: "processed s = chunks (length (processed s))" "length (processed s) \<le> 100"
    using processed_chunks [OF inv] by simp_all
  have "processed s = chunks 100" if "prepare s = Prep_end"
  proof -
    have "length (processed s) = 100" using inv that by (simp add: program_inv_def to_do_def)
    then show ?thesis using p by simp
  qed
  moreover have "data_queue s = [] \<and> prepare s \<noteq> Prep_end" if "processing s = Asleep"
    using inv that by (auto simp: program_inv_def)
  moreover have "\<exists>s'. preparation_step s = Returns s'" if "prepare s \<noteq> Prep_end" "length (data_queue s) < 2147483547"
    using preparation_moves [OF inv _ that(1)] preparation_overflows [OF inv] that(2) by fastforce
  ultimately show ?thesis using p processing_moves [OF inv] processing_defined [OF inv] by blast
qed

text \<open>A schedule: for each step, whether the thread that prepares makes it.\<close>

fun program_run :: "bool list \<Rightarrow> program \<Rightarrow> program outcome" where
  "program_run [] s = Returns s"
| "program_run (b # bs) s = and_then (if b then preparation_step s else processing_step s) (program_run bs)"

lemma program_run_reachable: "program_run bs s = Returns s' \<Longrightarrow> program_step\<^sup>*\<^sup>* s s'"
proof (induction bs s rule: program_run.induct)
  case (2 b bs s)
  then obtain t where "(if b then preparation_step s else processing_step s) = Returns t" "program_run bs t = Returns s'"
    by (cases "if b then preparation_step s else processing_step s") simp_all
  then show ?case using 2 by (auto intro: converse_rtranclp_into_rtranclp program_step.intros split: if_splits)
qed simp

text \<open>The processing thread falls asleep, a chunk wakes it up; then it processes the chunk, with a second
  one in the queue.\<close>

theorem producer_consumer_witness:
  "\<exists>(s :: program) t. processing s = Asleep \<and> prepare s \<noteq> Prep_end \<and> processed t = [(1, 1)] \<and> data_queue t = [(2, 2)]
     \<and> (\<exists>t'. processing_step t = Returns t')"
proof -
  note defs = program_new_def preparation_step_def processing_step_def more_data_to_prepare_def prepare_data_def
    process_data_def is_last_chunk_def to_do_def mq_new_def mq_push_def mq_wait_and_pop_def int_max_def Let_def
  obtain s where s: "program_run [False] program_new = Returns s" "processing s = Asleep"
    by (simp add: defs)
  obtain t where t: "program_run [False, True, True, True, False, True, False, False] program_new = Returns t"
      "processed t = [(1, 1)]" "data_queue t = [(2, 2)]" "processing t = Take"
    by (simp add: defs)
  have "prepare s \<noteq> Prep_end"
    using producer_consumer [OF program_run_reachable [OF s(1)]] s(2) by blast
  moreover have "data_queue t \<noteq> []" "processing t \<noteq> Proc_end" using t by simp_all
  then have "\<exists>t'. processing_step t = Returns t'"
    using producer_consumer [OF program_run_reachable [OF t(1)]] by blast
  ultimately show ?thesis using s(2) t(2,3) by blast
qed

end
