(* ===== verification/Echo.thy ===== *)
theory Echo
  imports Prelude "HOL-Library.Sublist"
begin

text \<open>
  The echo servers of \<open>asio-examples\<close>: \<open>async_tcp_echo_server\<close>, whose sessions delete themselves,
  \<open>allocation\<close>, whose sessions are kept by the handlers bound to them and take the memory of their
  operations from a block of their own, and \<open>async_udp_echo_server\<close>.
\<close>

section \<open>Sessions and outstanding operations\<close>

text \<open>A write names how many bytes of the session's buffer to send; they are read when they are sent.\<close>

datatype echo_op = Accept_op nat | Read_op nat | Write_op nat nat

type_synonym buffer = string

text \<open>The sessions that exist with their \<open>data_\<close>, the operations with the memory they were given, and for
  each session what its peer has sent and received.\<close>

record 'p echo_net =
  sessions :: "nat \<Rightarrow> buffer option"
  fresh :: nat
  pending :: "(echo_op \<times> 'p) list"
  arrived :: "nat \<Rightarrow> string"
  echoed :: "nat \<Rightarrow> string"

definition max_length :: nat where
  "max_length = 1024"

definition start_op :: "echo_op \<Rightarrow> 'p \<Rightarrow> ('p, 'm) echo_net_scheme \<Rightarrow> ('p, 'm) echo_net_scheme" where
  "start_op op p s = s\<lparr>pending := pending s @ [(op, p)]\<rparr>"

definition delete_session :: "nat \<Rightarrow> ('p, 'm) echo_net_scheme \<Rightarrow> ('p, 'm) echo_net_scheme" where
  "delete_session i s = s\<lparr>sessions := (sessions s)(i := None)\<rparr>"

text \<open>A new session; its buffer holds what the memory held.\<close>

definition new_session :: "buffer \<Rightarrow> ('p, 'm) echo_net_scheme \<Rightarrow> ('p, 'm) echo_net_scheme" where
  "new_session garbage s = s\<lparr>sessions := (sessions s)(fresh s := Some garbage), fresh := fresh s + 1\<rparr>"

fun op_on :: "nat \<Rightarrow> echo_op \<Rightarrow> bool" where
  "op_on i (Accept_op j) = (i = j)"
| "op_on i (Read_op j) = (i = j)"
| "op_on i (Write_op j n) = (i = j)"

definition ops_of :: "('p, 'm) echo_net_scheme \<Rightarrow> nat \<Rightarrow> echo_op list" where
  "ops_of s i = filter (op_on i) (map fst (pending s))"

section \<open>What a server does when an operation completes\<close>

text \<open>The handlers of a server, each with the session it is bound to and the memory of its operation.\<close>

record ('p, 'm) server_class =
  on_accept :: "nat \<Rightarrow> 'p \<Rightarrow> error_code \<Rightarrow> ('p, 'm) echo_net_scheme \<Rightarrow> ('p, 'm) echo_net_scheme"
  on_read :: "nat \<Rightarrow> 'p \<Rightarrow> error_code \<Rightarrow> nat \<Rightarrow> ('p, 'm) echo_net_scheme \<Rightarrow> ('p, 'm) echo_net_scheme"
  on_write :: "nat \<Rightarrow> 'p \<Rightarrow> error_code \<Rightarrow> ('p, 'm) echo_net_scheme \<Rightarrow> ('p, 'm) echo_net_scheme"

text \<open>What the operating system does before the handler runs: bytes arrive in the buffer, bytes of the
  buffer are sent.\<close>

definition receive_bytes :: "nat \<Rightarrow> string \<Rightarrow> ('p, 'm) echo_net_scheme \<Rightarrow> ('p, 'm) echo_net_scheme" where
  "receive_bytes i d s = s\<lparr>sessions := (sessions s)(i := map_option (\<lambda>b. d @ drop (length d) b) (sessions s i)),
     arrived := (arrived s)(i := arrived s i @ d)\<rparr>"

definition send_bytes :: "nat \<Rightarrow> nat \<Rightarrow> ('p, 'm) echo_net_scheme \<Rightarrow> ('p, 'm) echo_net_scheme" where
  "send_bytes i n s = s\<lparr>echoed := (echoed s)(i := echoed s i @ take n (the (sessions s i)))\<rparr>"

text \<open>An operation completes. A read that succeeds has between 1 and 1024 bytes, a failed one none; a write
  that fails may have sent some.\<close>

inductive echo_step :: "('p, 'm) server_class \<Rightarrow> ('p, 'm) echo_net_scheme \<Rightarrow> ('p, 'm) echo_net_scheme \<Rightarrow> bool"
  for c :: "('p, 'm) server_class" where
  accept_done: "pending s = xs @ (Accept_op i, p) # ys \<Longrightarrow>
    echo_step c s (on_accept c i p e (s\<lparr>pending := xs @ ys\<rparr>))"
| read_done: "pending s = xs @ (Read_op i, p) # ys \<Longrightarrow> d \<noteq> [] \<Longrightarrow> length d \<le> max_length \<Longrightarrow>
    echo_step c s (on_read c i p No_error (length d) (receive_bytes i d (s\<lparr>pending := xs @ ys\<rparr>)))"
| read_failed: "pending s = xs @ (Read_op i, p) # ys \<Longrightarrow> e \<noteq> No_error \<Longrightarrow>
    echo_step c s (on_read c i p e 0 (s\<lparr>pending := xs @ ys\<rparr>))"
| write_done: "pending s = xs @ (Write_op i n, p) # ys \<Longrightarrow>
    echo_step c s (on_write c i p No_error (send_bytes i n (s\<lparr>pending := xs @ ys\<rparr>)))"
| write_failed: "pending s = xs @ (Write_op i n, p) # ys \<Longrightarrow> k \<le> n \<Longrightarrow> e \<noteq> No_error \<Longrightarrow>
    echo_step c s (on_write c i p e (send_bytes i k (s\<lparr>pending := xs @ ys\<rparr>)))"

inductive_cases echo_stepE: "echo_step c s s'"

section \<open>The server whose sessions delete themselves\<close>

definition session_start :: "nat \<Rightarrow> unit echo_net \<Rightarrow> unit echo_net" where
  "session_start i s = start_op (Read_op i) () s"

definition handle_read :: "nat \<Rightarrow> unit \<Rightarrow> error_code \<Rightarrow> nat \<Rightarrow> unit echo_net \<Rightarrow> unit echo_net" where
  "handle_read i p e n s = (if e = No_error then start_op (Write_op i n) () s else delete_session i s)"

definition handle_write :: "nat \<Rightarrow> unit \<Rightarrow> error_code \<Rightarrow> unit echo_net \<Rightarrow> unit echo_net" where
  "handle_write i p e s = (if e = No_error then start_op (Read_op i) () s else delete_session i s)"

definition start_accept :: "buffer \<Rightarrow> unit echo_net \<Rightarrow> unit echo_net" where
  "start_accept garbage s = start_op (Accept_op (fresh s)) () (new_session garbage s)"

definition handle_accept :: "buffer \<Rightarrow> nat \<Rightarrow> unit \<Rightarrow> error_code \<Rightarrow> unit echo_net \<Rightarrow> unit echo_net" where
  "handle_accept garbage i p e s =
     start_accept garbage (if e = No_error then session_start i s else delete_session i s)"

definition tcp_server :: "buffer \<Rightarrow> (unit, unit) server_class" where
  "tcp_server garbage = \<lparr>on_accept = handle_accept garbage, on_read = handle_read, on_write = handle_write\<rparr>"

definition tcp_new :: "buffer \<Rightarrow> unit echo_net" where
  "tcp_new garbage = start_accept garbage
     \<lparr>sessions = \<lambda>_. None, fresh = 0, pending = [], arrived = \<lambda>_. [], echoed = \<lambda>_. []\<rparr>"

section \<open>Its invariant\<close>

text \<open>Each session that exists has one operation outstanding; what its peer has received is a prefix of
  what it has sent, all of it while the session reads.\<close>

definition session_ok :: "unit echo_net \<Rightarrow> nat \<Rightarrow> bool" where
  "session_ok s i \<longleftrightarrow>
     (case sessions s i of
        None \<Rightarrow> ops_of s i = [] \<and> prefix (echoed s i) (arrived s i) \<and> (i \<ge> fresh s \<longrightarrow> arrived s i = [])
      | Some b \<Rightarrow> i < fresh s \<and>
          (ops_of s i = [Accept_op i] \<and> arrived s i = [] \<and> echoed s i = []
           \<or> ops_of s i = [Read_op i] \<and> echoed s i = arrived s i
           \<or> (\<exists>n\<le>max_length. ops_of s i = [Write_op i n] \<and> arrived s i = echoed s i @ take n b)))"

definition echo_inv :: "unit echo_net \<Rightarrow> bool" where
  "echo_inv s \<longleftrightarrow> (\<forall>i. session_ok s i)"

lemma echo_invI: "(\<And>i. session_ok s i) \<Longrightarrow> echo_inv s"
  by (simp add: echo_inv_def)

lemma echo_invD: "echo_inv s \<Longrightarrow> session_ok s i"
  by (simp add: echo_inv_def)

named_theorems echo_simps

lemma ops_of_simps [echo_simps]:
  "ops_of (start_op op p s) i = ops_of s i @ (if op_on i op then [op] else [])"
  "ops_of (delete_session j s) i = ops_of s i"
  "ops_of (new_session g s) i = ops_of s i"
  "ops_of (receive_bytes j d s) i = ops_of s i"
  "ops_of (send_bytes j n s) i = ops_of s i"
  by (simp_all add: ops_of_def start_op_def delete_session_def new_session_def receive_bytes_def send_bytes_def)

lemma echo_net_simps [echo_simps]:
  "sessions (start_op op p s) = sessions s" "fresh (start_op op p s) = fresh s"
  "arrived (start_op op p s) = arrived s" "echoed (start_op op p s) = echoed s"
  "sessions (delete_session j s) = (sessions s)(j := None)" "fresh (delete_session j s) = fresh s"
  "arrived (delete_session j s) = arrived s" "echoed (delete_session j s) = echoed s"
  "sessions (new_session g s) = (sessions s)(fresh s := Some g)" "fresh (new_session g s) = fresh s + 1"
  "arrived (new_session g s) = arrived s" "echoed (new_session g s) = echoed s"
  "sessions (receive_bytes j d s) = (sessions s)(j := map_option (\<lambda>b. d @ drop (length d) b) (sessions s j))"
  "fresh (receive_bytes j d s) = fresh s" "echoed (receive_bytes j d s) = echoed s"
  "arrived (receive_bytes j d s) = (arrived s)(j := arrived s j @ d)"
  "sessions (send_bytes j n s) = sessions s" "fresh (send_bytes j n s) = fresh s" "arrived (send_bytes j n s) = arrived s"
  "echoed (send_bytes j n s) = (echoed s)(j := echoed s j @ take n (the (sessions s j)))"
  by (simp_all add: start_op_def delete_session_def new_session_def receive_bytes_def send_bytes_def)

lemmas echo_defs = session_start_def handle_read_def handle_write_def start_accept_def handle_accept_def

lemma ops_of_other:
  "pending s = xs @ (op, p) # ys \<Longrightarrow> \<not> op_on j op \<Longrightarrow> ops_of (s\<lparr>pending := xs @ ys\<rparr>) j = ops_of s j"
  by (simp add: ops_of_def)

lemma ops_of_same:
  "pending s = xs @ (op, p) # ys \<Longrightarrow> op_on i op \<Longrightarrow> ops_of s i = [op'] \<Longrightarrow> ops_of (s\<lparr>pending := xs @ ys\<rparr>) i = []"
  by (cases "filter (op_on i) (map fst xs)") (auto simp: ops_of_def)

text \<open>The session an operation acts on exists, and the operation is its only one.\<close>

lemma op_session:
  assumes "echo_inv s" and "pending s = xs @ (op, p) # ys" and "op_on i op"
  obtains b where "sessions s i = Some b" and "ops_of s i = [op]" and "i < fresh s"
    and "ops_of (s\<lparr>pending := xs @ ys\<rparr>) i = []"
proof -
  have "op \<in> set (ops_of s i)" using assms(2,3) by (simp add: ops_of_def)
  then show thesis
    using echo_invD [OF assms(1), of i] ops_of_same [OF assms(2,3)] that
    by (auto simp: session_ok_def split: option.splits)
qed

text \<open>A step touches the session of its operation and, if a new session is accepted, that one.\<close>

lemma session_ok_cong:
  "session_ok s i \<Longrightarrow> sessions s' i = sessions s i \<Longrightarrow> ops_of s' i = ops_of s i \<Longrightarrow> fresh s \<le> fresh s' \<Longrightarrow>
    arrived s' i = arrived s i \<Longrightarrow> echoed s' i = echoed s i \<Longrightarrow> session_ok s' i"
  by (auto simp: session_ok_def split: option.splits)

lemma op_on_unique: "op_on i op \<Longrightarrow> op_on j op \<longleftrightarrow> j = i"
  by (cases op) auto

text \<open>While a handler of session \<open>i\<close> runs, the session has no operation.\<close>

definition handling :: "nat \<Rightarrow> buffer \<Rightarrow> unit echo_net \<Rightarrow> bool" where
  "handling i b s \<longleftrightarrow> (\<forall>j. j \<noteq> i \<longrightarrow> session_ok s j) \<and> sessions s i = Some b \<and> ops_of s i = [] \<and> i < fresh s"

lemma session_ok_update:
  "session_ok s j \<Longrightarrow> j \<noteq> i \<Longrightarrow> session_ok (delete_session i s) j"
  "session_ok s j \<Longrightarrow> j \<noteq> i \<Longrightarrow> session_ok (receive_bytes i d s) j"
  "session_ok s j \<Longrightarrow> j \<noteq> i \<Longrightarrow> session_ok (send_bytes i n s) j"
  "session_ok s j \<Longrightarrow> \<not> op_on j op \<Longrightarrow> session_ok (start_op op p s) j"
  by (erule session_ok_cong; simp add: echo_simps)+

lemma handling_remove:
  assumes inv: "echo_inv s" and s: "pending s = xs @ (op, p) # ys" "op_on i op"
  obtains b where "handling i b (s\<lparr>pending := xs @ ys\<rparr>)" and "sessions s i = Some b" and "ops_of s i = [op]"
proof -
  obtain b where b: "sessions s i = Some b" "ops_of s i = [op]" "i < fresh s" "ops_of (s\<lparr>pending := xs @ ys\<rparr>) i = []"
    using op_session [OF inv s] by blast
  have "session_ok (s\<lparr>pending := xs @ ys\<rparr>) j" if "j \<noteq> i" for j
    by (rule session_ok_cong [OF echo_invD [OF inv, of j]])
      (use ops_of_other [OF s(1), of j] op_on_unique [OF s(2)] that in auto)
  then show thesis using b by (intro that [of b]) (auto simp: handling_def)
qed

lemma handling_received: "handling i b s \<Longrightarrow> handling i (d @ drop (length d) b) (receive_bytes i d s)"
  by (auto simp: handling_def session_ok_update echo_simps)

lemma handling_sent: "handling i b s \<Longrightarrow> handling i b (send_bytes i n s)"
  by (auto simp: handling_def session_ok_update echo_simps)

lemma inv_reading:
  assumes "handling i b s" and "echoed s i = arrived s i"
  shows "echo_inv (start_op (Read_op i) p s)"
proof (rule echo_invI)
  fix j show "session_ok (start_op (Read_op i) p s) j"
    using assms by (cases "j = i") (auto simp: handling_def session_ok_update session_ok_def [of _ i] echo_simps)
qed

lemma inv_writing:
  assumes "handling i b s" and "n \<le> max_length" and "arrived s i = echoed s i @ take n b"
  shows "echo_inv (start_op (Write_op i n) p s)"
proof (rule echo_invI)
  fix j show "session_ok (start_op (Write_op i n) p s) j"
    using assms by (cases "j = i") (auto simp: handling_def session_ok_update session_ok_def [of _ i] echo_simps)
qed

lemma inv_deleted:
  assumes "handling i b s" and "prefix (echoed s i) (arrived s i)"
  shows "echo_inv (delete_session i s)"
proof (rule echo_invI)
  fix j show "session_ok (delete_session i s) j"
    using assms by (cases "j = i") (auto simp: handling_def session_ok_update session_ok_def [of _ i] echo_simps)
qed

lemma inv_accepting:
  assumes "echo_inv s" shows "echo_inv (start_accept g s)"
proof (rule echo_invI)
  fix j
  have j: "session_ok s j" by (rule echo_invD [OF assms])
  show "session_ok (start_accept g s) j"
  proof (cases "j = fresh s")
    case True
    then show ?thesis
      using j by (auto simp: session_ok_def start_accept_def echo_simps split: option.splits)
  next
    case False
    then show ?thesis
      by (intro session_ok_cong [OF j]) (auto simp: start_accept_def echo_simps)
  qed
qed

lemma echo_step_inv:
  assumes "echo_step (tcp_server g) s s'" and inv: "echo_inv s"
  shows "echo_inv s'"
  using assms(1)
proof cases
  case (accept_done xs i p ys e)
  obtain b where b: "handling i b (s\<lparr>pending := xs @ ys\<rparr>)" "sessions s i = Some b" "ops_of s i = [Accept_op i]"
    using handling_remove [OF inv accept_done(2), of i] by auto
  then have "echoed s i = [] \<and> arrived s i = []"
    using echo_invD [OF inv, of i] by (auto simp: session_ok_def)
  then show ?thesis
    using b inv_reading [OF b(1)] inv_deleted [OF b(1)] unfolding accept_done(1)
    by (auto simp: tcp_server_def handle_accept_def session_start_def intro!: inv_accepting)
next
  case (read_done xs i p ys d)
  obtain b where b: "handling i b (s\<lparr>pending := xs @ ys\<rparr>)" "sessions s i = Some b" "ops_of s i = [Read_op i]"
    using handling_remove [OF inv read_done(2), of i] by auto
  then have "echoed s i = arrived s i" using echo_invD [OF inv, of i] by (auto simp: session_ok_def)
  then show ?thesis
    using read_done(4) inv_writing [OF handling_received [OF b(1), of d], of "length d"] unfolding read_done(1)
    by (simp add: tcp_server_def echo_defs echo_simps)
next
  case (read_failed xs i p ys e)
  obtain b where b: "handling i b (s\<lparr>pending := xs @ ys\<rparr>)" "sessions s i = Some b" "ops_of s i = [Read_op i]"
    using handling_remove [OF inv read_failed(2), of i] by auto
  then have "echoed s i = arrived s i" using echo_invD [OF inv, of i] by (auto simp: session_ok_def)
  then show ?thesis
    using read_failed(3) inv_deleted [OF b(1)] unfolding read_failed(1) by (simp add: tcp_server_def echo_defs)
next
  case (write_done xs i n p ys)
  obtain b where b: "handling i b (s\<lparr>pending := xs @ ys\<rparr>)" "sessions s i = Some b" "ops_of s i = [Write_op i n]"
    using handling_remove [OF inv write_done(2), of i] by auto
  then have "arrived s i = echoed s i @ take n b" using echo_invD [OF inv, of i] by (auto simp: session_ok_def)
  then show ?thesis
    using b(2) inv_reading [OF handling_sent [OF b(1), of n]] unfolding write_done(1)
    by (simp add: tcp_server_def echo_defs echo_simps)
next
  case (write_failed xs i n p ys k e)
  obtain b where b: "handling i b (s\<lparr>pending := xs @ ys\<rparr>)" "sessions s i = Some b" "ops_of s i = [Write_op i n]"
    using handling_remove [OF inv write_failed(2), of i] by auto
  then have "arrived s i = echoed s i @ take n b" using echo_invD [OF inv, of i] by (auto simp: session_ok_def)
  moreover have "prefix (take k b) (take n b)"
    using write_failed(3) by (metis min.absorb1 take_is_prefix take_take)
  ultimately show ?thesis
    using write_failed(4) b(2) inv_deleted [OF handling_sent [OF b(1), of k]] unfolding write_failed(1)
    by (simp add: tcp_server_def echo_defs echo_simps)
qed

lemma tcp_new_inv: "echo_inv (tcp_new g)"
  unfolding tcp_new_def by (rule inv_accepting) (simp add: echo_inv_def session_ok_def ops_of_def)

lemma tcp_reachable: "(echo_step (tcp_server g))\<^sup>*\<^sup>* (tcp_new g) s \<Longrightarrow> echo_inv s"
  by (induction rule: rtranclp_induct) (auto intro: tcp_new_inv echo_step_inv)

section \<open>The server with memory of its own for operations\<close>

text \<open>Where the memory of an operation comes from: the block of its session, the global heap to which the
  session's \<open>handler_memory\<close> delegated the request, or the default allocator of the library, for operations
  whose handler is not one of \<open>make_custom_alloc_handler\<close>.\<close>

datatype mem_pointer = Storage | Heap_memory | Default_memory

text \<open>\<open>in_use\<close> is \<open>in_use_\<close> of the \<open>handler_memory\<close> of each session; \<open>delegated\<close> counts the requests that
  were delegated to the global heap, and \<open>started\<close> holds the operations that made a request, in order.\<close>

record alloc_net = "mem_pointer echo_net" +
  in_use :: "nat \<Rightarrow> bool"
  delegated :: nat
  started :: "echo_op list"

definition storage_size :: nat where
  "storage_size = 1024"

definition allocate :: "nat \<Rightarrow> nat \<Rightarrow> alloc_net \<Rightarrow> mem_pointer \<times> alloc_net" where
  "allocate i n s =
     (if \<not> in_use s i \<and> n < storage_size then (Storage, s\<lparr>in_use := (in_use s)(i := True)\<rparr>)
      else (Heap_memory, s\<lparr>delegated := delegated s + 1\<rparr>))"

definition deallocate :: "nat \<Rightarrow> mem_pointer \<Rightarrow> alloc_net \<Rightarrow> alloc_net" where
  "deallocate i p s = (if p = Storage then s\<lparr>in_use := (in_use s)(i := False)\<rparr> else s)"

text \<open>An operation with a handler from \<open>make_custom_alloc_handler\<close>; its size is the library's. The memory is
  returned before the handler is called. (The parts of a composed write follow each other in the same
  way; they are one operation here.)\<close>

definition start_alloc :: "(echo_op \<Rightarrow> nat) \<Rightarrow> nat \<Rightarrow> echo_op \<Rightarrow> alloc_net \<Rightarrow> alloc_net" where
  "start_alloc sz i op s = (let (p, s) = allocate i (sz op) s in start_op op p (s\<lparr>started := started s @ [op]\<rparr>))"

text \<open>The session is destroyed with the last handler bound to it.\<close>

definition release :: "nat \<Rightarrow> alloc_net \<Rightarrow> alloc_net" where
  "release i s = (if ops_of s i = [] then delete_session i s else s)"

definition alloc_start :: "(echo_op \<Rightarrow> nat) \<Rightarrow> nat \<Rightarrow> alloc_net \<Rightarrow> alloc_net" where
  "alloc_start sz i s = start_alloc sz i (Read_op i) s"

definition alloc_handle_read :: "(echo_op \<Rightarrow> nat) \<Rightarrow> nat \<Rightarrow> error_code \<Rightarrow> nat \<Rightarrow> alloc_net \<Rightarrow> alloc_net" where
  "alloc_handle_read sz i e n s = (if e = No_error then start_alloc sz i (Write_op i n) s else s)"

definition alloc_handle_write :: "(echo_op \<Rightarrow> nat) \<Rightarrow> nat \<Rightarrow> error_code \<Rightarrow> alloc_net \<Rightarrow> alloc_net" where
  "alloc_handle_write sz i e s = (if e = No_error then start_alloc sz i (Read_op i) s else s)"

definition alloc_next :: "buffer \<Rightarrow> alloc_net \<Rightarrow> alloc_net" where
  "alloc_next garbage s =
     (let s' = new_session garbage s in
      start_op (Accept_op (fresh s)) Default_memory (s'\<lparr>in_use := (in_use s')(fresh s := False)\<rparr>))"

definition alloc_handle_accept :: "(echo_op \<Rightarrow> nat) \<Rightarrow> buffer \<Rightarrow> nat \<Rightarrow> error_code \<Rightarrow> alloc_net \<Rightarrow> alloc_net" where
  "alloc_handle_accept sz garbage i e s = alloc_next garbage (if e = No_error then alloc_start sz i s else s)"

definition alloc_server :: "(echo_op \<Rightarrow> nat) \<Rightarrow> buffer \<Rightarrow>
    (mem_pointer, \<lparr>in_use :: nat \<Rightarrow> bool, delegated :: nat, started :: echo_op list\<rparr>) server_class" where
  "alloc_server sz garbage =
     \<lparr>on_accept = (\<lambda>i p e s. release i (alloc_handle_accept sz garbage i e s)),
      on_read = (\<lambda>i p e n s. release i (alloc_handle_read sz i e n (deallocate i p s))),
      on_write = (\<lambda>i p e s. release i (alloc_handle_write sz i e (deallocate i p s)))\<rparr>"

definition alloc_new :: "buffer \<Rightarrow> alloc_net" where
  "alloc_new garbage = alloc_next garbage
     \<lparr>sessions = \<lambda>_. None, fresh = 0, pending = [], arrived = \<lambda>_. [], echoed = \<lambda>_. [],
      in_use = \<lambda>_. False, delegated = 0, started = []\<rparr>"

text \<open>Without the memory of its operations this server is the other one.\<close>

definition view :: "alloc_net \<Rightarrow> unit echo_net" where
  "view s = \<lparr>sessions = sessions s, fresh = fresh s, pending = map (\<lambda>(op, p). (op, ())) (pending s),
     arrived = arrived s, echoed = echoed s\<rparr>"

lemma view_simps [simp]:
  "view (start_op op p s) = start_op op () (view s)"
  "view (start_alloc sz i op s) = start_op op () (view s)"
  "view (delete_session i s) = delete_session i (view s)"
  "view (new_session g s) = new_session g (view s)"
  "view (receive_bytes i d s) = receive_bytes i d (view s)"
  "view (send_bytes i n s) = send_bytes i n (view s)"
  "view (deallocate i p s) = view s"
  "view (s\<lparr>in_use := u\<rparr>) = view s" "view (s\<lparr>started := os\<rparr>) = view s"
  "view (s\<lparr>pending := q\<rparr>) = (view s)\<lparr>pending := map (\<lambda>(op, p). (op, ())) q\<rparr>"
  "fresh (view s) = fresh s" "sessions (view s) = sessions s"
  by (simp_all add: view_def start_op_def start_alloc_def allocate_def delete_session_def new_session_def receive_bytes_def
      send_bytes_def deallocate_def)

lemma ops_of_view: "ops_of (view s) i = ops_of s i"
  by (simp add: ops_of_def view_def comp_def case_prod_beta)

lemma view_alloc_next: "view (alloc_next g s) = start_accept g (view s)"
  by (simp add: alloc_next_def start_accept_def Let_def)

lemma fresh_start_alloc [echo_simps]: "fresh (start_alloc sz i op s) = fresh s"
  by (simp add: start_alloc_def allocate_def start_op_def)

lemma ops_of_alloc [echo_simps]:
  "ops_of (start_alloc sz i op s) j = ops_of s j @ (if op_on j op then [op] else [])"
  "ops_of (deallocate i p s) j = ops_of s j"
  "ops_of (alloc_next g s) j = ops_of s j @ (if j = fresh s then [Accept_op j] else [])"
  by (simp_all add: ops_of_view [symmetric] view_alloc_next start_accept_def echo_simps)

lemma delete_start_accept: "i \<noteq> fresh s \<Longrightarrow> delete_session i (start_accept g s) = start_accept g (delete_session i s)"
  by (simp add: start_accept_def delete_session_def start_op_def new_session_def fun_upd_twist)

lemma alloc_accept_refines:
  assumes "ops_of s i = []" "i < fresh s"
  shows "view (on_accept (alloc_server sz g) i p e s) = handle_accept g i () e (view s)"
proof -
  have "fresh (alloc_start sz i s) = fresh s"
    by (simp add: alloc_start_def start_alloc_def allocate_def start_op_def)
  then show ?thesis
    using assms delete_start_accept [of i "view s" g]
    by (auto simp: alloc_server_def alloc_handle_accept_def handle_accept_def release_def alloc_start_def session_start_def
        view_alloc_next echo_simps)
qed

lemma alloc_read_refines:
  "ops_of s i = [] \<Longrightarrow> view (on_read (alloc_server sz g) i p e n s) = handle_read i () e n (view s)"
  by (simp add: alloc_server_def alloc_handle_read_def handle_read_def release_def echo_simps)

lemma alloc_write_refines:
  "ops_of s i = [] \<Longrightarrow> view (on_write (alloc_server sz g) i p e s) = handle_write i () e (view s)"
  by (simp add: alloc_server_def alloc_handle_write_def handle_write_def release_def echo_simps)

lemma view_pending: "pending s = xs @ (op, p) # ys \<Longrightarrow>
    pending (view s) = map (\<lambda>(op, p). (op, ())) xs @ (op, ()) # map (\<lambda>(op, p). (op, ())) ys"
  by (simp add: view_def)

lemma alloc_ops_removed:
  assumes "echo_inv (view s)" and "pending s = xs @ (op, p) # ys" and "op_on i op"
  shows "ops_of (s\<lparr>pending := xs @ ys\<rparr>) i = [] \<and> i < fresh s"
proof -
  have "ops_of ((view s)\<lparr>pending := map (\<lambda>(op, p). (op, ())) xs @ map (\<lambda>(op, p). (op, ())) ys\<rparr>) i = [] \<and> i < fresh (view s)"
    by (rule op_session [OF assms(1) view_pending [OF assms(2)] assms(3)]) simp
  then show ?thesis by (simp flip: ops_of_view [of "s\<lparr>pending := xs @ ys\<rparr>"])
qed

lemma alloc_refines:
  assumes "echo_step (alloc_server sz g) s s'" and inv: "echo_inv (view s)"
  shows "echo_step (tcp_server g) (view s) (view s')"
  using assms(1)
proof cases
  case (accept_done xs i p ys e)
  note removed = alloc_ops_removed [OF inv accept_done(2), of i, simplified]
  show ?thesis
    using echo_step.accept_done [OF view_pending [OF accept_done(2)], of "tcp_server g" e]
    by (simp add: accept_done(1) alloc_accept_refines removed tcp_server_def echo_simps)
next
  case (read_done xs i p ys d)
  note removed = alloc_ops_removed [OF inv read_done(2), of i, simplified]
  show ?thesis
    using echo_step.read_done [OF view_pending [OF read_done(2)] read_done(3,4), of "tcp_server g"]
    by (simp add: read_done(1) alloc_read_refines removed tcp_server_def echo_simps)
next
  case (read_failed xs i p ys e)
  note removed = alloc_ops_removed [OF inv read_failed(2), of i, simplified]
  show ?thesis
    using echo_step.read_failed [OF view_pending [OF read_failed(2)] read_failed(3), of "tcp_server g"]
    by (simp add: read_failed(1) alloc_read_refines removed tcp_server_def echo_simps)
next
  case (write_done xs i n p ys)
  note removed = alloc_ops_removed [OF inv write_done(2), of i, simplified]
  show ?thesis
    using echo_step.write_done [OF view_pending [OF write_done(2)], of "tcp_server g"]
    by (simp add: write_done(1) alloc_write_refines removed tcp_server_def echo_simps)
next
  case (write_failed xs i n p ys k e)
  note removed = alloc_ops_removed [OF inv write_failed(2), of i, simplified]
  show ?thesis
    using echo_step.write_failed [OF view_pending [OF write_failed(2)] write_failed(3,4), of "tcp_server g"]
    by (simp add: write_failed(1) alloc_write_refines removed tcp_server_def echo_simps)
qed

lemma alloc_reachable:
  "(echo_step (alloc_server sz g))\<^sup>*\<^sup>* (alloc_new g) s \<Longrightarrow> (echo_step (tcp_server g))\<^sup>*\<^sup>* (tcp_new g) (view s)"
proof (induction rule: rtranclp_induct)
  case base
  have "view (alloc_new g) = tcp_new g"
    by (simp add: alloc_new_def view_alloc_next tcp_new_def) (simp add: view_def)
  then show ?case by simp
next
  case (step s s')
  then show ?case using alloc_refines tcp_reachable by (metis rtranclp.rtrancl_into_rtrancl)
qed

text \<open>Where the memory of the outstanding operations is.\<close>

fun own :: "echo_op \<Rightarrow> bool" where
  "own (Accept_op i) = False"
| "own (Read_op i) = True"
| "own (Write_op i n) = True"

definition fits :: "(echo_op \<Rightarrow> nat) \<Rightarrow> echo_op \<Rightarrow> bool" where
  "fits sz op \<longleftrightarrow> own op \<and> sz op < storage_size"

definition memory_ok :: "(echo_op \<Rightarrow> nat) \<Rightarrow> alloc_net \<Rightarrow> bool" where
  "memory_ok sz s \<longleftrightarrow>
     (\<forall>op p. (op, p) \<in> set (pending s) \<longrightarrow>
        p = (if \<not> own op then Default_memory else if sz op < storage_size then Storage else Heap_memory))
     \<and> (\<forall>i. in_use s i \<longleftrightarrow> (\<exists>op\<in>set (ops_of s i). fits sz op))
     \<and> delegated s = length (filter (\<lambda>op. storage_size \<le> sz op) (started s))"

lemma memory_ok_same:
  "memory_ok sz (receive_bytes i d s) = memory_ok sz s" "memory_ok sz (send_bytes i n s) = memory_ok sz s"
  "memory_ok sz (release i s) = memory_ok sz s"
  by (simp_all add: memory_ok_def ops_of_def receive_bytes_def send_bytes_def release_def delete_session_def)

lemma deallocate_commutes:
  "deallocate i p (receive_bytes i d s) = receive_bytes i d (deallocate i p s)"
  "deallocate i p (send_bytes i n s) = send_bytes i n (deallocate i p s)"
  by (simp_all add: deallocate_def receive_bytes_def send_bytes_def)

lemma memory_returned:
  assumes m: "memory_ok sz s" and inv: "echo_inv (view s)" and s: "pending s = xs @ (op, p) # ys" "op_on i op"
  shows "memory_ok sz (deallocate i p (s\<lparr>pending := xs @ ys\<rparr>))"
proof -
  let ?t = "s\<lparr>pending := xs @ ys\<rparr>"
  have none: "ops_of ?t i = []" using alloc_ops_removed [OF inv s] by simp
  have other: "ops_of ?t j = ops_of s j" if "j \<noteq> i" for j
    using ops_of_other [OF s(1), of j] op_on_unique [OF s(2), of j] that by blast
  have single: "ops_of s i = [op]"
    using op_session [OF inv view_pending [OF s(1)] s(2)] by (metis ops_of_view)
  have p: "p = Storage \<longleftrightarrow> fits sz op" using m s(1) by (auto simp: memory_ok_def fits_def split: if_splits)
  have use: "in_use (deallocate i p ?t) j \<longleftrightarrow> (\<exists>op\<in>set (ops_of ?t j). fits sz op)" for j
    using m single p none other [of j] by (cases "j = i") (auto simp: memory_ok_def deallocate_def)
  have "pending (deallocate i p ?t) = xs @ ys" "delegated (deallocate i p ?t) = delegated s"
      "started (deallocate i p ?t) = started s"
    by (simp_all add: deallocate_def)
  then show ?thesis
    using m s(1) unfolding memory_ok_def use ops_of_alloc by auto
qed

lemma memory_taken:
  assumes "memory_ok sz s" and "ops_of s i = []" and "op_on i op" and "own op"
  shows "memory_ok sz (start_alloc sz i op s)"
proof -
  have free: "\<not> in_use s i" using assms by (simp add: memory_ok_def)
  show ?thesis
  proof (cases "sz op < storage_size")
    case True
    then have eq: "start_alloc sz i op s = start_op op Storage (s\<lparr>in_use := (in_use s)(i := True), started := started s @ [op]\<rparr>)"
      using free by (simp add: start_alloc_def allocate_def)
    show ?thesis
      using assms True unfolding eq by (auto simp: memory_ok_def start_op_def ops_of_def fits_def dest: op_on_unique)
  next
    case False
    then have eq: "start_alloc sz i op s = start_op op Heap_memory (s\<lparr>delegated := delegated s + 1, started := started s @ [op]\<rparr>)"
      by (simp add: start_alloc_def allocate_def)
    show ?thesis
      using assms False unfolding eq by (auto simp: memory_ok_def start_op_def ops_of_def fits_def)
  qed
qed

lemma memory_next: "memory_ok sz s \<Longrightarrow> ops_of s (fresh s) = [] \<Longrightarrow> memory_ok sz (alloc_next g s)"
  by (auto simp: memory_ok_def alloc_next_def Let_def start_op_def new_session_def ops_of_def filter_empty_conv fits_def)

lemma alloc_step_memory:
  assumes step: "echo_step (alloc_server sz g) s s'" and inv: "echo_inv (view s)" and m: "memory_ok sz s"
  shows "memory_ok sz s'"
  using step
proof cases
  case (accept_done xs i p ys e)
  let ?t = "s\<lparr>pending := xs @ ys\<rparr>"
  have "p = Default_memory" using m accept_done(2) by (auto simp: memory_ok_def)
  then have t: "memory_ok sz ?t" using memory_returned [OF m inv accept_done(2), of i] by (simp add: deallocate_def)
  have i: "ops_of ?t i = []" "i < fresh s" using alloc_ops_removed [OF inv accept_done(2), of i] by simp_all
  have "ops_of (view s) (fresh s) = []"
    using echo_invD [OF inv, of "fresh s"] by (auto simp: session_ok_def split: option.splits)
  then have f: "ops_of ?t (fresh s) = []"
    using ops_of_other [OF accept_done(2), of "fresh s"] i(2) by (simp add: ops_of_view)
  have "memory_ok sz (alloc_start sz i ?t)" "fresh (alloc_start sz i ?t) = fresh s" "ops_of (alloc_start sz i ?t) (fresh s) = []"
    unfolding alloc_start_def using memory_taken [OF t i(1), of "Read_op i"] f i(2) by (simp_all add: echo_simps)
  then show ?thesis
    using t f unfolding accept_done(1) by (auto simp: alloc_server_def alloc_handle_accept_def memory_ok_same intro!: memory_next)
next
  case (read_done xs i p ys d)
  then show ?thesis
    using memory_returned [OF m inv read_done(2), of i] alloc_ops_removed [OF inv read_done(2), of i]
    by (auto simp: alloc_server_def alloc_handle_read_def memory_ok_same deallocate_commutes echo_simps intro!: memory_taken)
next
  case (read_failed xs i p ys e)
  then show ?thesis
    using memory_returned [OF m inv read_failed(2), of i]
    by (simp add: alloc_server_def alloc_handle_read_def memory_ok_same)
next
  case (write_done xs i n p ys)
  then show ?thesis
    using memory_returned [OF m inv write_done(2), of i] alloc_ops_removed [OF inv write_done(2), of i]
    by (auto simp: alloc_server_def alloc_handle_write_def memory_ok_same deallocate_commutes echo_simps intro!: memory_taken)
next
  case (write_failed xs i n p ys k e)
  then show ?thesis
    using memory_returned [OF m inv write_failed(2), of i]
    by (simp add: alloc_server_def alloc_handle_write_def memory_ok_same deallocate_commutes)
qed

lemma alloc_reachable_memory:
  assumes "(echo_step (alloc_server sz g))\<^sup>*\<^sup>* (alloc_new g) s"
  shows "memory_ok sz s"
  using assms(1)
proof (induction rule: rtranclp_induct)
  case base
  show ?case unfolding alloc_new_def by (rule memory_next) (simp_all add: memory_ok_def ops_of_def)
next
  case (step t u)
  then show ?case using alloc_step_memory [OF step(2) tcp_reachable [OF alloc_reachable [OF step(1)]]] by blast
qed

section \<open>The datagram server\<close>

type_synonym endpoint = nat

datatype udp_op = Receive_from | Send_to nat endpoint

record udp_server =
  udp_data :: buffer
  sender_endpoint :: endpoint
  udp_pending :: "udp_op list"

definition udp_start :: "udp_op \<Rightarrow> udp_server \<Rightarrow> udp_server" where
  "udp_start op s = s\<lparr>udp_pending := udp_pending s @ [op]\<rparr>"

definition udp_new :: "buffer \<Rightarrow> endpoint \<Rightarrow> udp_server" where
  "udp_new garbage ep = udp_start Receive_from \<lparr>udp_data = garbage, sender_endpoint = ep, udp_pending = []\<rparr>"

definition handle_receive_from :: "error_code \<Rightarrow> nat \<Rightarrow> udp_server \<Rightarrow> udp_server" where
  "handle_receive_from e n s =
     (if e = No_error \<and> n > 0 then udp_start (Send_to n (sender_endpoint s)) s else udp_start Receive_from s)"

definition handle_send_to :: "error_code \<Rightarrow> nat \<Rightarrow> udp_server \<Rightarrow> udp_server" where
  "handle_send_to e n s = udp_start Receive_from s"

text \<open>A run, with the datagrams that arrive, those that are sent, and how many could not be sent.\<close>

inductive udp_run :: "udp_server \<Rightarrow> (endpoint \<times> string) list \<Rightarrow> (endpoint \<times> string) list \<Rightarrow> nat \<Rightarrow> bool" where
  udp_init: "udp_run (udp_new garbage ep) [] [] 0"
| udp_received: "udp_run s ins outs lost \<Longrightarrow> udp_pending s = xs @ Receive_from # ys \<Longrightarrow> length d \<le> max_length \<Longrightarrow>
    udp_run (handle_receive_from No_error (length d)
      (s\<lparr>udp_pending := xs @ ys, udp_data := d @ drop (length d) (udp_data s), sender_endpoint := ep\<rparr>)) (ins @ [(ep, d)]) outs lost"
| udp_receive_failed: "udp_run s ins outs lost \<Longrightarrow> udp_pending s = xs @ Receive_from # ys \<Longrightarrow> e \<noteq> No_error \<Longrightarrow>
    udp_run (handle_receive_from e n (s\<lparr>udp_pending := xs @ ys, udp_data := b, sender_endpoint := ep\<rparr>)) ins outs lost"
| udp_sent: "udp_run s ins outs lost \<Longrightarrow> udp_pending s = xs @ Send_to n ep # ys \<Longrightarrow>
    udp_run (handle_send_to No_error n (s\<lparr>udp_pending := xs @ ys\<rparr>)) ins (outs @ [(ep, take n (udp_data s))]) lost"
| udp_send_failed: "udp_run s ins outs lost \<Longrightarrow> udp_pending s = xs @ Send_to n ep # ys \<Longrightarrow> e \<noteq> No_error \<Longrightarrow>
    udp_run (handle_send_to e k (s\<lparr>udp_pending := xs @ ys\<rparr>)) ins outs (lost + 1)"

definition to_answer :: "(endpoint \<times> string) list \<Rightarrow> (endpoint \<times> string) list" where
  "to_answer ins = filter (\<lambda>(ep, d). d \<noteq> []) ins"

definition sending :: "udp_server \<Rightarrow> (endpoint \<times> string) list" where
  "sending s = concat (map (\<lambda>op. case op of Send_to n ep \<Rightarrow> [(ep, take n (udp_data s))] | _ \<Rightarrow> []) (udp_pending s))"

lemma udp_run_inv:
  "udp_run s ins outs lost \<Longrightarrow> length (udp_pending s) = 1 \<and> subseq (outs @ sending s) (to_answer ins)
    \<and> length (to_answer ins) = length (outs @ sending s) + lost"
proof (induction rule: udp_run.induct)
  case (udp_received s ins outs lost xs ys d ep)
  then show ?case
    by (auto simp: handle_receive_from_def udp_start_def sending_def to_answer_def intro: list_emb_append_mono)
next
  case (udp_send_failed s ins outs lost xs n ep ys e k)
  then have "subseq outs (to_answer ins)"
    using prefix_imp_subseq subseq_order.trans by (metis prefixI)
  then show ?case
    using udp_send_failed by (auto simp: handle_send_to_def udp_start_def sending_def)
qed (auto simp: udp_new_def udp_start_def handle_receive_from_def handle_send_to_def sending_def to_answer_def)

section \<open>Properties\<close>

text \<open>
  C38. In any run of the TCP server every outstanding operation acts on a session that has not been
  deleted and is its only one; a session without an operation has been deleted; what a peer has received
  is a prefix of what it has sent, and all of it whenever the session reads.
\<close>

theorem echo_in_order:
  assumes "(echo_step (tcp_server g))\<^sup>*\<^sup>* (tcp_new g) s"
  shows "length (ops_of s i) = (if sessions s i = None then 0 else 1)
    \<and> prefix (echoed s i) (arrived s i) \<and> (ops_of s i = [Read_op i] \<longrightarrow> echoed s i = arrived s i)"
  using echo_invD [OF tcp_reachable [OF assms], of i]
  by (auto simp: session_ok_def split: option.splits)

text \<open>A session that reads two bytes and sends them back.\<close>

definition echo_s1 :: "unit echo_net" where
  "echo_s1 = handle_accept [] 0 () No_error ((tcp_new [])\<lparr>pending := []\<rparr>)"

definition echo_s2 :: "unit echo_net" where
  "echo_s2 = handle_read 0 () No_error 2 (receive_bytes 0 ''hi'' (echo_s1\<lparr>pending := [] @ [(Accept_op 1, ())]\<rparr>))"

definition echo_s3 :: "unit echo_net" where
  "echo_s3 = handle_write 0 () No_error (send_bytes 0 2 (echo_s2\<lparr>pending := [(Accept_op 1, ())] @ []\<rparr>))"

lemmas echo_example_defs = echo_s1_def echo_s2_def echo_s3_def tcp_new_def echo_defs start_op_def new_session_def
  receive_bytes_def send_bytes_def delete_session_def

lemma echo_example: "(echo_step (tcp_server []))\<^sup>*\<^sup>* (tcp_new []) echo_s3"
proof -
  have p: "pending (tcp_new []) = [] @ (Accept_op 0, ()) # []" "pending echo_s1 = [] @ (Read_op 0, ()) # [(Accept_op 1, ())]"
      "pending echo_s2 = [(Accept_op 1, ())] @ (Write_op 0 2, ()) # []"
    by (simp_all add: echo_example_defs)
  have "echo_step (tcp_server []) (tcp_new []) echo_s1"
    using echo_step.accept_done [OF p(1), of "tcp_server []" No_error] by (simp add: tcp_server_def echo_s1_def)
  moreover have "echo_step (tcp_server []) echo_s1 echo_s2"
    using echo_step.read_done [OF p(2), of "''hi''" "tcp_server []"] by (simp add: tcp_server_def echo_s2_def max_length_def numeral_2_eq_2)
  moreover have "echo_step (tcp_server []) echo_s2 echo_s3"
    using echo_step.write_done [OF p(3), of "tcp_server []"] by (simp add: tcp_server_def echo_s3_def)
  ultimately show ?thesis by (meson rtranclp.rtrancl_into_rtrancl rtranclp.rtrancl_refl)
qed

theorem echo_in_order_witness: "length (ops_of echo_s3 0) = 1 \<and> ops_of echo_s3 0 = [Read_op 0] \<and> arrived echo_s3 0 = ''hi''"
  using echo_in_order [OF echo_example, of 0] by (simp add: ops_of_def echo_example_defs)

text \<open>
  C39. The server of \<open>allocation\<close> does what the other does, with sessions that live as long as a handler is
  bound to them. Whatever sizes the library asks for: an outstanding read or write has the session's own
  block exactly if it needs less than 1024 bytes, and the block is in use exactly while there is such an
  operation; so the block is never found in use, and the requests delegated to the heap are those of at least
  1024 bytes. Operations that accept have the default memory of the library.
\<close>

theorem allocation_refines:
  assumes "(echo_step (alloc_server sz g))\<^sup>*\<^sup>* (alloc_new g) s"
  shows "(echo_step (tcp_server g))\<^sup>*\<^sup>* (tcp_new g) (view s)
    \<and> (\<forall>op p. (op, p) \<in> set (pending s) \<longrightarrow>
        p = (if \<not> own op then Default_memory else if sz op < storage_size then Storage else Heap_memory))
    \<and> (in_use s i \<longleftrightarrow> (\<exists>op\<in>set (ops_of s i). own op \<and> sz op < storage_size))
    \<and> delegated s = length (filter (\<lambda>op. storage_size \<le> sz op) (started s))"
  using alloc_reachable [OF assms(1)] alloc_reachable_memory [OF assms] by (simp add: memory_ok_def fits_def)

text \<open>Reads need 100 bytes, writes 2000: a session that has read one byte and writes it back.\<close>

theorem allocation_refines_witness:
  "\<exists>s :: alloc_net. pending s = [(Accept_op 1, Default_memory), (Write_op 0 1, Heap_memory)] \<and> started s = [Read_op 0, Write_op 0 1]
     \<and> delegated s = 1 \<and> \<not> in_use s 0"
proof -
  let ?sz = "\<lambda>op. case op of Write_op i n \<Rightarrow> (2000 :: nat) | _ \<Rightarrow> 100"
  let ?c = "alloc_server ?sz []"
  have p: "pending (alloc_new []) = [] @ (Accept_op 0, Default_memory) # []"
    by (simp add: alloc_new_def alloc_next_def start_op_def new_session_def)
  define s where "s = on_accept ?c 0 Default_memory No_error ((alloc_new [])\<lparr>pending := [] @ []\<rparr>)"
  note defs = alloc_server_def alloc_handle_accept_def alloc_handle_read_def alloc_start_def start_alloc_def allocate_def
    deallocate_def alloc_next_def alloc_new_def start_op_def new_session_def storage_size_def release_def ops_of_def receive_bytes_def
  have q: "pending s = [] @ (Read_op 0, Storage) # [(Accept_op 1, Default_memory)]"
    by (simp add: s_def defs)
  define t where "t = on_read ?c 0 Storage No_error (length ''x'') (receive_bytes 0 ''x'' (s\<lparr>pending := [] @ [(Accept_op 1, Default_memory)]\<rparr>))"
  have "echo_step ?c (alloc_new []) s" unfolding s_def by (rule echo_step.accept_done [OF p])
  moreover have "echo_step ?c s t" unfolding t_def by (rule echo_step.read_done [OF q]) (simp_all add: max_length_def)
  ultimately have r: "(echo_step ?c)\<^sup>*\<^sup>* (alloc_new []) t" by (meson rtranclp.rtrancl_into_rtrancl rtranclp.rtrancl_refl)
  have pend: "pending t = [(Accept_op 1, Default_memory), (Write_op 0 1, Heap_memory)]" "started t = [Read_op 0, Write_op 0 1]"
    by (simp_all add: t_def s_def defs)
  then have "ops_of t 0 = [Write_op 0 1]" by (simp add: ops_of_def)
  then have "delegated t = 1 \<and> \<not> in_use t 0"
    using allocation_refines [OF r, of 0] pend by (simp add: storage_size_def)
  then show ?thesis using pend by blast
qed

text \<open>
  The datagram server has one operation outstanding; it answers datagrams in order, each to its
  sender with its own bytes, and all but the empty ones and those whose sending fails.
\<close>

theorem udp_echoes:
  assumes "udp_run s ins outs lost"
  shows "length (udp_pending s) = 1 \<and> subseq outs (to_answer ins)
    \<and> (udp_pending s = [Receive_from] \<longrightarrow> length outs + lost = length (to_answer ins))"
proof -
  have "subseq outs (to_answer ins)"
    using udp_run_inv [OF assms] by (metis prefixI prefix_imp_subseq subseq_order.trans)
  then show ?thesis using udp_run_inv [OF assms] by (auto simp: sending_def)
qed

end
