(* ===== verification/Datagrams.thy ===== *)
theory Datagrams
  imports Echo Cxx_Streams
begin

text \<open>
  Datagram programs of \<open>asio-examples\<close>: \<open>multicast_sender\<close> and \<open>multicast_receiver\<close> over a network that may
  lose, repeat and reorder, and \<open>blocking_udp_echo_client\<close> with \<open>async_udp_echo_server\<close> over one that does not.
  Times are milliseconds of the steady clock.
\<close>

section \<open>\<open>multicast_sender\<close>\<close>

text \<open>A send refers to \<open>message_\<close>, which is read when it is sent; a wait holds the expiry of \<open>timer_\<close>.\<close>

datatype sender_op = Send_message | Wait_timer nat

record sender =
  message_count :: int
  message :: string
  sender_pending :: "sender_op list"

definition max_message_count :: int where
  "max_message_count = 10"

definition sender_start :: "sender_op \<Rightarrow> sender \<Rightarrow> sender" where
  "sender_start op s = s\<lparr>sender_pending := sender_pending s @ [op]\<rparr>"

definition message_text :: "int \<Rightarrow> string" where
  "message_text n = ''Message '' @ int_text n"

definition send_next :: "sender \<Rightarrow> sender" where
  "send_next s = (let n = message_count s + 1 in sender_start Send_message (s\<lparr>message_count := n, message := message_text n\<rparr>))"

definition sender_new :: sender where
  "sender_new = send_next \<lparr>message_count = 0, message = [], sender_pending = []\<rparr>"

definition sender_handle_send_to :: "error_code \<Rightarrow> nat \<Rightarrow> sender \<Rightarrow> sender" where
  "sender_handle_send_to e now s =
     (if e = No_error \<and> message_count s < max_message_count then sender_start (Wait_timer (now + 1000)) s else s)"

definition sender_handle_timeout :: "error_code \<Rightarrow> sender \<Rightarrow> sender" where
  "sender_handle_timeout e s = (if e = No_error then send_next s else s)"

text \<open>A run to a state and a time, with the datagrams sent and their times, and the number of failed operations.\<close>

inductive sender_run :: "sender \<Rightarrow> nat \<Rightarrow> (nat \<times> string) list \<Rightarrow> nat \<Rightarrow> bool" where
  sender_init: "sender_run sender_new t [] 0"
| sender_sent: "sender_run s t sent errs \<Longrightarrow> sender_pending s = xs @ Send_message # ys \<Longrightarrow> t \<le> t' \<Longrightarrow>
    sender_run (sender_handle_send_to No_error t' (s\<lparr>sender_pending := xs @ ys\<rparr>)) t' (sent @ [(t', message s)]) errs"
| sender_not_sent: "sender_run s t sent errs \<Longrightarrow> sender_pending s = xs @ Send_message # ys \<Longrightarrow> t \<le> t' \<Longrightarrow> e \<noteq> No_error \<Longrightarrow>
    sender_run (sender_handle_send_to e t' (s\<lparr>sender_pending := xs @ ys\<rparr>)) t' sent (errs + 1)"
| sender_waited: "sender_run s t sent errs \<Longrightarrow> sender_pending s = xs @ Wait_timer x # ys \<Longrightarrow> t \<le> t' \<Longrightarrow> x \<le> t' \<Longrightarrow>
    sender_run (sender_handle_timeout No_error (s\<lparr>sender_pending := xs @ ys\<rparr>)) t' sent errs"
| sender_not_waited: "sender_run s t sent errs \<Longrightarrow> sender_pending s = xs @ Wait_timer x # ys \<Longrightarrow> t \<le> t' \<Longrightarrow> e \<noteq> No_error \<Longrightarrow>
    sender_run (sender_handle_timeout e (s\<lparr>sender_pending := xs @ ys\<rparr>)) t' sent (errs + 1)"

definition spaced :: "nat list \<Rightarrow> bool" where
  "spaced ts \<longleftrightarrow> sorted_wrt (\<lambda>a b. a + 1000 \<le> b) ts"

definition messages_upto :: "nat \<Rightarrow> string list" where
  "messages_upto n = map (\<lambda>k. ''Message '' @ decimal k) [1..<Suc n]"

definition sender_inv :: "sender \<Rightarrow> nat \<Rightarrow> (nat \<times> string) list \<Rightarrow> nat \<Rightarrow> bool" where
  "sender_inv s t sent errs \<longleftrightarrow> map snd sent = messages_upto (length sent) \<and> spaced (map fst sent) \<and> length sent \<le> 10
     \<and> ((\<exists>x. sender_pending s = [Wait_timer x] \<and> length sent < 10 \<and> message_count s = int (length sent)
           \<and> (\<forall>u\<in>set (map fst sent). u + 1000 \<le> x))
        \<or> (sender_pending s = [Send_message] \<and> length sent < 10 \<and> message_count s = int (length sent) + 1
           \<and> message s = ''Message '' @ decimal (length sent + 1) \<and> (\<forall>u\<in>set (map fst sent). u + 1000 \<le> t))
        \<or> (sender_pending s = [] \<and> (errs > 0 \<or> length sent = 10)))"

lemma sender_invariant: "sender_run s t sent errs \<Longrightarrow> sender_inv s t sent errs"
proof (induction rule: sender_run.induct)
  case (sender_init t)
  have "message_text 1 = ''Message '' @ decimal 1" by (simp add: message_text_def int_text_def)
  then show ?case
    by (simp add: sender_inv_def sender_new_def send_next_def sender_start_def messages_upto_def spaced_def)
next
  case (sender_sent s t sent errs xs ys t')
  then have len: "length sent < 10" and nil: "xs = []" "ys = []" and count: "message_count s = int (length sent) + 1"
    and msg: "message s = ''Message '' @ decimal (length sent + 1)" and gap: "\<forall>u\<in>set (map fst sent). u + 1000 \<le> t"
    and old: "map snd sent = messages_upto (length sent)" "spaced (map fst sent)"
    by (auto simp: sender_inv_def append_eq_Cons_conv Cons_eq_append_conv)
  have "spaced (map fst (sent @ [(t', message s)]))"
    using old(2) gap sender_sent.hyps by (force simp: spaced_def sorted_wrt_append)
  moreover have "map snd (sent @ [(t', message s)]) = messages_upto (length sent + 1)"
    using old(1) msg by (simp add: messages_upto_def)
  moreover have "\<forall>u\<in>set (map fst (sent @ [(t', message s)])). u + 1000 \<le> t' + 1000"
    using gap sender_sent.hyps by force
  ultimately show ?case
    using len count nil
    by (auto simp: sender_inv_def sender_handle_send_to_def sender_start_def max_message_count_def)
next
  case (sender_waited s t sent errs xs x ys t')
  then have len: "length sent < 10" and nil: "xs = []" "ys = []" and count: "message_count s = int (length sent)"
    and gap: "\<forall>u\<in>set (map fst sent). u + 1000 \<le> x"
    by (auto simp: sender_inv_def append_eq_Cons_conv Cons_eq_append_conv)
  have "message_text (int (length sent) + 1) = ''Message '' @ decimal (length sent + 1)"
    by (simp add: message_text_def int_text_def nat_add_distrib)
  moreover have "\<forall>u\<in>set (map fst sent). u + 1000 \<le> t'" using gap sender_waited.hyps by force
  ultimately show ?case
    using sender_waited.IH len count nil
    by (auto simp: sender_inv_def sender_handle_timeout_def send_next_def sender_start_def Let_def)
qed (auto simp: sender_inv_def append_eq_Cons_conv Cons_eq_append_conv sender_handle_send_to_def sender_handle_timeout_def)

text \<open>The sender sends the messages 1 to 10 in order, a second apart or more, and stops early only after a failure.\<close>

theorem multicast_messages:
  assumes "sender_run s t sent errs"
  shows "map snd sent = messages_upto (length sent) \<and> length sent \<le> 10 \<and> spaced (map fst sent)
    \<and> (sender_pending s = [] \<longrightarrow> errs > 0 \<or> length sent = 10)"
  using sender_invariant [OF assms] by (auto simp: sender_inv_def)

section \<open>\<open>multicast_receiver\<close>\<close>

record receiver =
  rcv_data :: string
  rcv_sender :: endpoint
  rcv_pending :: nat
  rcv_output :: string

definition receiver_new :: "string \<Rightarrow> endpoint \<Rightarrow> receiver" where
  "receiver_new garbage ep = \<lparr>rcv_data = garbage, rcv_sender = ep, rcv_pending = 1, rcv_output = []\<rparr>"

definition receiver_handle_receive_from :: "error_code \<Rightarrow> nat \<Rightarrow> receiver \<Rightarrow> receiver" where
  "receiver_handle_receive_from e bytes_recvd r =
     (if e = No_error
      then r\<lparr>rcv_output := rcv_output r @ take bytes_recvd (rcv_data r) @ [CHR 0x0A], rcv_pending := rcv_pending r + 1\<rparr>
      else r)"

text \<open>A run in which any datagram of a set arrives, any number of times, with the datagrams that have arrived.\<close>

inductive receiver_run :: "string set \<Rightarrow> receiver \<Rightarrow> string list \<Rightarrow> bool" for ds where
  receiver_init: "receiver_run ds (receiver_new garbage ep) []"
| received: "receiver_run ds r got \<Longrightarrow> 0 < rcv_pending r \<Longrightarrow> d \<in> ds \<Longrightarrow> length d \<le> max_length \<Longrightarrow>
    receiver_run ds (receiver_handle_receive_from No_error (length d)
      (r\<lparr>rcv_pending := rcv_pending r - 1, rcv_sender := ep, rcv_data := d @ drop (length d) (rcv_data r)\<rparr>)) (got @ [d])"
| not_received: "receiver_run ds r got \<Longrightarrow> 0 < rcv_pending r \<Longrightarrow> e \<noteq> No_error \<Longrightarrow>
    receiver_run ds (receiver_handle_receive_from e n (r\<lparr>rcv_pending := rcv_pending r - 1, rcv_sender := ep, rcv_data := b\<rparr>)) got"

lemma receiver_prints:
  "receiver_run ds r got \<Longrightarrow> rcv_output r = concat (map (\<lambda>d. d @ [CHR 0x0A]) got) \<and> set got \<subseteq> ds \<and> rcv_pending r \<le> 1"
  by (induction rule: receiver_run.induct) (auto simp: receiver_new_def receiver_handle_receive_from_def)

text \<open>Whatever the network does, a receiver prints lines with numbers of messages that have been sent.\<close>

theorem multicast_received:
  assumes "sender_run s t sent errs" and "receiver_run (set (map snd sent)) r got"
  shows "\<exists>ks. rcv_output r = concat (map (\<lambda>k. ''Message '' @ decimal k @ [CHR 0x0A]) ks)
    \<and> set ks \<subseteq> {1..length sent} \<and> length sent \<le> 10"
proof -
  let ?m = "\<lambda>k. ''Message '' @ decimal k"
  have sent: "map snd sent = map ?m [1..<Suc (length sent)]"
    using sender_invariant [OF assms(1)] by (simp only: sender_inv_def messages_upto_def)
  have "set (map snd sent) = ?m ` {1..length sent}"
    using arg_cong [OF sent, of set] by (simp only: set_map set_upt atLeastLessThanSuc_atLeastAtMost)
  then have "got \<in> lists (?m ` {1..length sent})"
    using receiver_prints [OF assms(2)] by (simp only: in_lists_conv_set) blast
  then obtain ks where "got = map ?m ks" "set ks \<subseteq> {1..length sent}"
    unfolding lists_image by (auto simp: in_lists_conv_set)
  then show ?thesis
    using receiver_prints [OF assms(2)] sender_invariant [OF assms(1)] by (auto simp: sender_inv_def comp_def)
qed

section \<open>\<open>blocking_udp_echo_client\<close>\<close>

text \<open>A datagram at the server that waits for one, and its answer, when there is one.\<close>

definition exchange :: "endpoint \<Rightarrow> string \<Rightarrow> udp_server \<Rightarrow> udp_server \<times> string option" where
  "exchange ep d s =
     (if udp_pending s \<noteq> [Receive_from] then (s, None)
      else let s = handle_receive_from No_error (length d)
                 (s\<lparr>udp_pending := [], udp_data := d @ drop (length d) (udp_data s), sender_endpoint := ep\<rparr>)
        in case udp_pending s of
             [Send_to n _] \<Rightarrow> (handle_send_to No_error n (s\<lparr>udp_pending := []\<rparr>), Some (take n (udp_data s)))
           | _ \<Rightarrow> (s, None))"

lemma exchange_run:
  assumes "udp_run s ins outs lost" "udp_pending s = [Receive_from]" "length d \<le> max_length"
  shows "udp_run (fst (exchange ep d s)) (ins @ [(ep, d)])
    (outs @ (case snd (exchange ep d s) of None \<Rightarrow> [] | Some r \<Rightarrow> [(ep, r)])) lost"
proof -
  let ?s = "s\<lparr>udp_pending := [], udp_data := d @ drop (length d) (udp_data s), sender_endpoint := ep\<rparr>"
  have run: "udp_run (handle_receive_from No_error (length d) ?s) (ins @ [(ep, d)]) outs lost"
    using udp_received [OF assms(1) _ assms(3), of "[]" "[]" ep] assms(2) by simp
  show ?thesis
  proof (cases "d = []")
    case True
    then show ?thesis using run assms(2) by (simp add: exchange_def handle_receive_from_def udp_start_def)
  next
    case False
    then have s: "handle_receive_from No_error (length d) ?s = ?s\<lparr>udp_pending := [Send_to (length d) ep]\<rparr>"
      by (simp add: handle_receive_from_def udp_start_def)
    show ?thesis
      using udp_sent [OF run [unfolded s], of "[]" "length d" ep "[]"] assms(2) s
      by (simp add: exchange_def handle_receive_from_def udp_start_def)
  qed
qed

lemma exchange_simps:
  assumes "udp_pending s = [Receive_from]"
  shows "snd (exchange ep d s) = (if d = [] then None else Some d)" "udp_pending (fst (exchange ep d s)) = [Receive_from]"
  using assms by (simp_all add: exchange_def handle_receive_from_def handle_send_to_def udp_start_def)

lemma exchange_nil: "exchange ep [] s = (s', Some r) \<Longrightarrow> False"
  by (auto simp: exchange_def handle_receive_from_def udp_start_def split: if_splits)

text \<open>The loop of \<open>main\<close> up to a \<open>receive_from\<close> that is not answered: what is printed, the rest of the input, and the
  server.\<close>

function udp_client_loop :: "endpoint \<Rightarrow> istream \<Rightarrow> udp_server \<Rightarrow> string \<times> istream \<times> udp_server" where
  "udp_client_loop ep cin s =
     (let (line, cin') = cin_getline max_length cin; request = c_str line;
          (s', answer) = exchange ep request s
      in case answer of
           None \<Rightarrow> (''Enter message: '', cin', s')
         | Some reply \<Rightarrow> (let (out, rest) = udp_client_loop ep cin' s'
             in (''Enter message: '' @ ''Reply is: '' @ reply @ [CHR 0x0A] @ out, rest)))"
  by pat_completeness auto
termination
proof (relation "measure (\<lambda>(_, cin, _). length (unread cin))")
  fix ep cin s x line cin' request y s' answer reply
  assume "x = cin_getline max_length cin" "(line, cin') = x" "request = c_str line"
    and "y = exchange ep request s" "(s', answer) = y" "answer = Some reply"
  then have "cin_getline max_length cin = (line, cin')" "exchange ep (c_str line) s = (s', Some reply)" by simp_all
  moreover from this(2) have "line \<noteq> []" using exchange_nil [of ep s s' reply] by (auto simp: c_str_def)
  ultimately show "((ep, cin', s'), ep, cin, s) \<in> measure (\<lambda>(_, cin, _). length (unread cin))"
    using cin_getline_shorter [of max_length cin line cin'] by (simp add: max_length_def)
qed simp

declare udp_client_loop.simps [simp del]

definition sendable :: "string \<Rightarrow> bool" where
  "sendable l \<longleftrightarrow> length l < max_length \<and> CHR 0x0A \<notin> set l \<and> CHR 0x00 \<notin> set l"

lemma cin_getline_line:
  "sendable l \<Longrightarrow> good s \<Longrightarrow> unread s = l @ CHR 0x0A # rest \<Longrightarrow> cin_getline max_length s = (l, s\<lparr>unread := rest\<rparr>)"
  by (simp add: cin_getline_def sendable_def Let_def takeWhile_append dropWhile_append)

text \<open>Lines are answered one by one up to the first empty one or the end of the input, where the client sends an empty
  datagram, which the server does not answer, and waits for ever.\<close>

theorem udp_client_blocks:
  assumes "list_all sendable ls" and "udp_pending s = [Receive_from]" and "good cin" "unread cin = concat (map (\<lambda>l. l @ [CHR 0x0A]) ls)"
  shows "fst (udp_client_loop ep cin s)
      = concat (map (\<lambda>l. ''Enter message: Reply is: '' @ l @ [CHR 0x0A]) (takeWhile (\<lambda>l. l \<noteq> []) ls)) @ ''Enter message: ''
    \<and> udp_pending (snd (snd (udp_client_loop ep cin s))) = [Receive_from]"
  using assms
proof (induction ls arbitrary: cin s)
  case Nil
  then obtain cin' where line: "cin_getline max_length cin = ([], cin')" by (simp add: cin_getline_def max_length_def)
  obtain s' where "exchange ep [] s = (s', None)" "udp_pending s' = [Receive_from]"
    using exchange_simps [OF Nil(2), of ep "[]"] by (metis prod.collapse)
  with line show ?case by (subst (1 2) udp_client_loop.simps) (simp add: c_str_def)
next
  case (Cons l ls)
  let ?cin = "cin\<lparr>unread := concat (map (\<lambda>l. l @ [CHR 0x0A]) ls)\<rparr>"
  have line: "cin_getline max_length cin = (l, ?cin)" using Cons.prems by (simp add: cin_getline_line)
  have cstr: "c_str l = l" using Cons.prems by (auto simp: sendable_def c_str_def)
  obtain s' where s': "exchange ep l s = (s', if l = [] then None else Some l)" "udp_pending s' = [Receive_from]"
    using exchange_simps [OF Cons.prems(2), of ep l] by (cases "exchange ep l s") auto
  have "good ?cin" using Cons.prems by (simp add: good_def)
  with Cons.IH [OF _ s'(2) this] Cons.prems s' line cstr show ?case
    by (subst (1 2) udp_client_loop.simps) (auto split: prod.splits)
qed

theorem udp_client_blocks_witness:
  "fst (udp_client_loop 1 \<lparr>unread = concat (map (\<lambda>l. l @ [CHR 0x0A]) [''hi'', ''there'', [], ''x'']), eofbit = False, failbit = False\<rparr>
      (udp_new (replicate 8 CHR ''?'') 0))
    = concat (map (\<lambda>l. ''Enter message: Reply is: '' @ l @ [CHR 0x0A]) (takeWhile (\<lambda>l. l \<noteq> []) [''hi'', ''there'', [], ''x'']))
      @ ''Enter message: ''
    \<and> udp_pending (snd (snd (udp_client_loop 1 \<lparr>unread = concat (map (\<lambda>l. l @ [CHR 0x0A]) [''hi'', ''there'', [], ''x'']),
        eofbit = False, failbit = False\<rparr> (udp_new (replicate 8 CHR ''?'') 0)))) = [Receive_from]"
proof -
  have "list_all sendable [''hi'', ''there'', [], ''x'']" by code_simp
  then show ?thesis
    by (rule udp_client_blocks) (simp_all add: udp_new_def udp_start_def good_def)
qed

end
