(* ===== verification/Ssl_Echo.thy ===== *)
theory Ssl_Echo
  imports Datagrams "HOL-Library.Multiset"
begin

text \<open>
  \<open>asio-examples/ssl_server\<close> and \<open>ssl_client\<close>: an echo server whose sessions shake hands before they read, and a
  client that sends one line and prints the answer. What TLS does below the streams is the library's: a handshake
  succeeds or fails, and the client's certificate check is told what the library found.
\<close>

section \<open>The server\<close>

datatype ssl_op = Ssl_accept nat | Ssl_handshake nat | Ssl_read nat | Ssl_write nat nat

record ssl_net =
  ssl_sessions :: "nat \<Rightarrow> buffer option"
  ssl_fresh :: nat
  ssl_pending :: "ssl_op list"
  ssl_arrived :: "nat \<Rightarrow> string"
  ssl_echoed :: "nat \<Rightarrow> string"

definition ssl_start_op :: "ssl_op \<Rightarrow> ssl_net \<Rightarrow> ssl_net" where
  "ssl_start_op op s = s\<lparr>ssl_pending := ssl_pending s @ [op]\<rparr>"

definition ssl_delete :: "nat \<Rightarrow> ssl_net \<Rightarrow> ssl_net" where
  "ssl_delete i s = s\<lparr>ssl_sessions := (ssl_sessions s)(i := None)\<rparr>"

definition ssl_session_start :: "nat \<Rightarrow> ssl_net \<Rightarrow> ssl_net" where
  "ssl_session_start i s = ssl_start_op (Ssl_handshake i) s"

definition ssl_handle_handshake :: "nat \<Rightarrow> error_code \<Rightarrow> ssl_net \<Rightarrow> ssl_net" where
  "ssl_handle_handshake i e s = (if e = No_error then ssl_start_op (Ssl_read i) s else ssl_delete i s)"

definition ssl_handle_read :: "nat \<Rightarrow> error_code \<Rightarrow> nat \<Rightarrow> ssl_net \<Rightarrow> ssl_net" where
  "ssl_handle_read i e n s = (if e = No_error then ssl_start_op (Ssl_write i n) s else ssl_delete i s)"

definition ssl_handle_write :: "nat \<Rightarrow> error_code \<Rightarrow> ssl_net \<Rightarrow> ssl_net" where
  "ssl_handle_write i e s = (if e = No_error then ssl_start_op (Ssl_read i) s else ssl_delete i s)"

definition ssl_start_accept :: "buffer \<Rightarrow> ssl_net \<Rightarrow> ssl_net" where
  "ssl_start_accept garbage s =
     ssl_start_op (Ssl_accept (ssl_fresh s))
       (s\<lparr>ssl_sessions := (ssl_sessions s)(ssl_fresh s := Some garbage), ssl_fresh := ssl_fresh s + 1\<rparr>)"

definition ssl_handle_accept :: "buffer \<Rightarrow> nat \<Rightarrow> error_code \<Rightarrow> ssl_net \<Rightarrow> ssl_net" where
  "ssl_handle_accept garbage i e s =
     ssl_start_accept garbage (if e = No_error then ssl_session_start i s else ssl_delete i s)"

definition ssl_new :: "buffer \<Rightarrow> ssl_net" where
  "ssl_new garbage = ssl_start_accept garbage
     \<lparr>ssl_sessions = \<lambda>_. None, ssl_fresh = 0, ssl_pending = [], ssl_arrived = \<lambda>_. [], ssl_echoed = \<lambda>_. []\<rparr>"

definition ssl_receive :: "nat \<Rightarrow> string \<Rightarrow> ssl_net \<Rightarrow> ssl_net" where
  "ssl_receive i d s = s\<lparr>ssl_sessions := (ssl_sessions s)(i := map_option (\<lambda>b. d @ drop (length d) b) (ssl_sessions s i)),
     ssl_arrived := (ssl_arrived s)(i := ssl_arrived s i @ d)\<rparr>"

definition ssl_send :: "nat \<Rightarrow> nat \<Rightarrow> ssl_net \<Rightarrow> ssl_net" where
  "ssl_send i n s = s\<lparr>ssl_echoed := (ssl_echoed s)(i := ssl_echoed s i @ take n (the (ssl_sessions s i)))\<rparr>"

inductive ssl_step :: "buffer \<Rightarrow> ssl_net \<Rightarrow> ssl_net \<Rightarrow> bool" for g where
  ssl_accepted: "ssl_pending s = xs @ Ssl_accept i # ys \<Longrightarrow> ssl_step g s (ssl_handle_accept g i e (s\<lparr>ssl_pending := xs @ ys\<rparr>))"
| ssl_shaken: "ssl_pending s = xs @ Ssl_handshake i # ys \<Longrightarrow> ssl_step g s (ssl_handle_handshake i e (s\<lparr>ssl_pending := xs @ ys\<rparr>))"
| ssl_read_done: "ssl_pending s = xs @ Ssl_read i # ys \<Longrightarrow> d \<noteq> [] \<Longrightarrow> length d \<le> max_length \<Longrightarrow>
    ssl_step g s (ssl_handle_read i No_error (length d) (ssl_receive i d (s\<lparr>ssl_pending := xs @ ys\<rparr>)))"
| ssl_read_failed: "ssl_pending s = xs @ Ssl_read i # ys \<Longrightarrow> e \<noteq> No_error \<Longrightarrow>
    ssl_step g s (ssl_handle_read i e 0 (s\<lparr>ssl_pending := xs @ ys\<rparr>))"
| ssl_write_done: "ssl_pending s = xs @ Ssl_write i n # ys \<Longrightarrow>
    ssl_step g s (ssl_handle_write i No_error (ssl_send i n (s\<lparr>ssl_pending := xs @ ys\<rparr>)))"
| ssl_write_failed: "ssl_pending s = xs @ Ssl_write i n # ys \<Longrightarrow> k \<le> n \<Longrightarrow> e \<noteq> No_error \<Longrightarrow>
    ssl_step g s (ssl_handle_write i e (ssl_send i k (s\<lparr>ssl_pending := xs @ ys\<rparr>)))"

section \<open>It refines the plain server\<close>

text \<open>A session that shakes hands is, for the plain server, one that reads.\<close>

fun plain_op :: "ssl_op \<Rightarrow> echo_op" where
  "plain_op (Ssl_accept i) = Accept_op i"
| "plain_op (Ssl_handshake i) = Read_op i"
| "plain_op (Ssl_read i) = Read_op i"
| "plain_op (Ssl_write i n) = Write_op i n"

definition plain_net :: "ssl_net \<Rightarrow> (echo_op \<times> unit) list \<Rightarrow> unit echo_net" where
  "plain_net s ps = \<lparr>sessions = ssl_sessions s, fresh = ssl_fresh s, pending = ps, arrived = ssl_arrived s, echoed = ssl_echoed s\<rparr>"

definition plain_ops :: "ssl_op list \<Rightarrow> (echo_op \<times> unit) multiset" where
  "plain_ops ops = mset (map (\<lambda>op. (plain_op op, ())) ops)"

definition refines_plain :: "buffer \<Rightarrow> ssl_net \<Rightarrow> bool" where
  "refines_plain g s \<longleftrightarrow> (\<exists>ps. mset ps = plain_ops (ssl_pending s) \<and> (echo_step (tcp_server g))\<^sup>*\<^sup>* (tcp_new g) (plain_net s ps))"

lemma plain_ops_simps [simp]:
  "plain_ops [] = {#}" "plain_ops (op # ops) = add_mset (plain_op op, ()) (plain_ops ops)"
  "plain_ops (xs @ ys) = plain_ops xs + plain_ops ys"
  by (simp_all add: plain_ops_def)

lemma plain_split:
  assumes "mset ps = plain_ops (xs @ op # ys)"
  obtains as bs where "ps = as @ (plain_op op, ()) # bs" "mset (as @ bs) = plain_ops (xs @ ys)"
proof -
  have "(plain_op op, ()) \<in># mset ps" by (simp add: assms)
  then obtain as bs where ps: "ps = as @ (plain_op op, ()) # bs" by (meson in_multiset_in_set split_list)
  then have "mset (as @ bs) = plain_ops (xs @ ys)" using assms by simp
  with ps that show thesis by blast
qed

lemmas ssl_handlers = ssl_handle_accept_def ssl_handle_handshake_def ssl_handle_read_def ssl_handle_write_def
  ssl_session_start_def ssl_start_accept_def ssl_start_op_def ssl_delete_def ssl_receive_def ssl_send_def

lemmas plain_handlers = tcp_server_def Echo.handle_accept_def Echo.session_start_def Echo.handle_read_def Echo.handle_write_def
  Echo.start_accept_def new_session_def start_op_def delete_session_def receive_bytes_def send_bytes_def plain_net_def

text \<open>The plain server follows when it can complete the same operation with the same result.\<close>

lemma refines_plain_by:
  assumes "refines_plain g s" and "ssl_pending s = xs @ op # ys" and "plain_ops (ssl_pending s') = plain_ops (xs @ ys) + mset new"
    and step: "\<And>as bs. echo_step (tcp_server g) (plain_net s (as @ (plain_op op, ()) # bs)) (plain_net s' (as @ bs @ new))"
  shows "refines_plain g s'"
proof -
  obtain ps where ps: "mset ps = plain_ops (xs @ op # ys)" and run: "(echo_step (tcp_server g))\<^sup>*\<^sup>* (tcp_new g) (plain_net s ps)"
    using assms(1,2) by (auto simp: refines_plain_def)
  obtain as bs where as: "ps = as @ (plain_op op, ()) # bs" "mset (as @ bs) = plain_ops (xs @ ys)"
    using plain_split [OF ps] by blast
  then have "(echo_step (tcp_server g))\<^sup>*\<^sup>* (tcp_new g) (plain_net s' (as @ bs @ new))"
    using run step [of as bs] by (metis rtranclp.rtrancl_into_rtrancl)
  moreover have "mset (as @ bs @ new) = plain_ops (ssl_pending s')" using as(2) assms(3) by (simp flip: add.assoc)
  ultimately show ?thesis unfolding refines_plain_def by blast
qed

lemma refines_plain_step:
  assumes "ssl_step g s s'" and ref: "refines_plain g s"
  shows "refines_plain g s'"
  using assms(1)
proof cases
  case (ssl_accepted xs i ys e)
  show ?thesis
  proof (rule refines_plain_by [OF ref ssl_accepted(2), where new = "(if e = No_error then [(Read_op i, ())] else []) @ [(Accept_op (ssl_fresh s), ())]"])
    fix as bs
    show "echo_step (tcp_server g) (plain_net s (as @ (plain_op (Ssl_accept i), ()) # bs))
        (plain_net s' (as @ bs @ (if e = No_error then [(Read_op i, ())] else []) @ [(Accept_op (ssl_fresh s), ())]))"
      using accept_done [of "plain_net s (as @ (Accept_op i, ()) # bs)" as i "()" bs "tcp_server g" e]
      by (simp add: ssl_accepted ssl_handlers plain_handlers split: if_splits)
  qed (simp add: ssl_accepted ssl_handlers)
next
  case (ssl_shaken xs i ys e)
  show ?thesis
  proof (cases "e = No_error")
    case True
    then have "plain_ops (ssl_pending s') = plain_ops (ssl_pending s)" "plain_net s' ps = plain_net s ps" for ps
      by (simp_all add: ssl_shaken ssl_handlers plain_net_def)
    then show ?thesis using ref by (simp add: refines_plain_def)
  next
    case False
    show ?thesis
    proof (rule refines_plain_by [OF ref ssl_shaken(2), where new = "[]"])
      fix as bs
      show "echo_step (tcp_server g) (plain_net s (as @ (plain_op (Ssl_handshake i), ()) # bs)) (plain_net s' (as @ bs @ []))"
        using read_failed [of "plain_net s (as @ (Read_op i, ()) # bs)" as i "()" bs e "tcp_server g"] False
        by (simp add: ssl_shaken ssl_handlers plain_handlers)
    qed (use False in \<open>simp add: ssl_shaken ssl_handlers\<close>)
  qed
next
  case (ssl_read_done xs i ys d)
  show ?thesis
  proof (rule refines_plain_by [OF ref ssl_read_done(2), where new = "[(Write_op i (length d), ())]"])
    fix as bs
    show "echo_step (tcp_server g) (plain_net s (as @ (plain_op (Ssl_read i), ()) # bs))
        (plain_net s' (as @ bs @ [(Write_op i (length d), ())]))"
      using read_done [of "plain_net s (as @ (Read_op i, ()) # bs)" as i "()" bs d "tcp_server g"] ssl_read_done
      by (simp add: ssl_handlers plain_handlers)
  qed (simp add: ssl_read_done ssl_handlers)
next
  case (ssl_read_failed xs i ys e)
  show ?thesis
  proof (rule refines_plain_by [OF ref ssl_read_failed(2), where new = "[]"])
    fix as bs
    show "echo_step (tcp_server g) (plain_net s (as @ (plain_op (Ssl_read i), ()) # bs)) (plain_net s' (as @ bs @ []))"
      using read_failed [of "plain_net s (as @ (Read_op i, ()) # bs)" as i "()" bs e "tcp_server g"] ssl_read_failed
      by (simp add: ssl_handlers plain_handlers)
  qed (use ssl_read_failed in \<open>simp add: ssl_handlers\<close>)
next
  case (ssl_write_done xs i n ys)
  show ?thesis
  proof (rule refines_plain_by [OF ref ssl_write_done(2), where new = "[(Read_op i, ())]"])
    fix as bs
    show "echo_step (tcp_server g) (plain_net s (as @ (plain_op (Ssl_write i n), ()) # bs)) (plain_net s' (as @ bs @ [(Read_op i, ())]))"
      using write_done [of "plain_net s (as @ (Write_op i n, ()) # bs)" as i n "()" bs "tcp_server g"]
      by (simp add: ssl_write_done ssl_handlers plain_handlers)
  qed (simp add: ssl_write_done ssl_handlers)
next
  case (ssl_write_failed xs i n ys k e)
  show ?thesis
  proof (rule refines_plain_by [OF ref ssl_write_failed(2), where new = "[]"])
    fix as bs
    show "echo_step (tcp_server g) (plain_net s (as @ (plain_op (Ssl_write i n), ()) # bs)) (plain_net s' (as @ bs @ []))"
      using write_failed [of "plain_net s (as @ (Write_op i n, ()) # bs)" as i n "()" bs k e "tcp_server g"] ssl_write_failed
      by (simp add: ssl_handlers plain_handlers)
  qed (use ssl_write_failed in \<open>simp add: ssl_handlers\<close>)
qed

lemma ssl_refines: "(ssl_step g)\<^sup>*\<^sup>* (ssl_new g) s \<Longrightarrow> refines_plain g s"
proof (induction rule: rtranclp_induct)
  case base
  have "plain_net (ssl_new g) [(Accept_op 0, ())] = tcp_new g" by (simp add: ssl_new_def ssl_handlers tcp_new_def plain_handlers)
  then show ?case
    by (auto simp: refines_plain_def ssl_new_def ssl_handlers intro!: exI [of _ "[(Accept_op 0, ())]"])
qed (rule refines_plain_step)

section \<open>Sessions\<close>

fun ssl_op_on :: "nat \<Rightarrow> ssl_op \<Rightarrow> bool" where
  "ssl_op_on i (Ssl_accept j) = (i = j)"
| "ssl_op_on i (Ssl_handshake j) = (i = j)"
| "ssl_op_on i (Ssl_read j) = (i = j)"
| "ssl_op_on i (Ssl_write j n) = (i = j)"

lemma op_on_plain: "op_on i (plain_op op) = ssl_op_on i op"
  by (cases op) auto

lemma ssl_session_ok:
  assumes "(ssl_step g)\<^sup>*\<^sup>* (ssl_new g) s"
  obtains ps where "session_ok (plain_net s ps) i"
    and "mset (ops_of (plain_net s ps) i) = mset (map plain_op (filter (ssl_op_on i) (ssl_pending s)))"
proof -
  obtain ps where ps: "mset ps = plain_ops (ssl_pending s)" and run: "(echo_step (tcp_server g))\<^sup>*\<^sup>* (tcp_new g) (plain_net s ps)"
    using ssl_refines [OF assms] by (auto simp: refines_plain_def)
  have "mset (map fst ps) = image_mset fst (plain_ops (ssl_pending s))" by (simp flip: ps)
  also have "\<dots> = mset (map plain_op (ssl_pending s))" by (simp add: plain_ops_def image_mset.compositionality comp_def)
  finally have "mset (filter (op_on i) (map fst ps)) = mset (filter (op_on i) (map plain_op (ssl_pending s)))"
    by (simp only: mset_filter)
  moreover have "filter (op_on i) (map plain_op ops) = map plain_op (filter (ssl_op_on i) ops)" for ops
    by (simp add: filter_map comp_def op_on_plain)
  ultimately have "mset (ops_of (plain_net s ps) i) = mset (map plain_op (filter (ssl_op_on i) (ssl_pending s)))"
    by (simp only: ops_of_def plain_net_def echo_net.simps)
  then show thesis using that echo_invD [OF tcp_reachable [OF run], of i] by blast
qed

lemma ssl_echo:
  assumes "(ssl_step g)\<^sup>*\<^sup>* (ssl_new g) s"
  shows "length (filter (ssl_op_on i) (ssl_pending s)) = (if ssl_sessions s i = None then 0 else 1)
    \<and> prefix (ssl_echoed s i) (ssl_arrived s i)"
proof -
  obtain ps where ok: "session_ok (plain_net s ps) i"
    and ops: "mset (ops_of (plain_net s ps) i) = mset (map plain_op (filter (ssl_op_on i) (ssl_pending s)))"
    by (rule ssl_session_ok [OF assms])
  have "length (ops_of (plain_net s ps) i) = length (filter (ssl_op_on i) (ssl_pending s))"
    using mset_eq_length [OF ops] by simp
  with ok show ?thesis by (auto simp: session_ok_def plain_net_def split: option.splits)
qed

section \<open>The client\<close>

datatype ssl_client_op = Client_connect | Client_handshake | Client_write nat | Client_read nat

record ssl_client =
  sc_request :: string
  sc_reply :: string
  sc_cin :: istream
  sc_printed :: string
  sc_pending :: "ssl_client_op list"

definition sc_start :: "ssl_client_op \<Rightarrow> ssl_client \<Rightarrow> ssl_client" where
  "sc_start op c = c\<lparr>sc_pending := sc_pending c @ [op]\<rparr>"

definition sc_print :: "string \<Rightarrow> ssl_client \<Rightarrow> ssl_client" where
  "sc_print t c = c\<lparr>sc_printed := sc_printed c @ t\<rparr>"

definition ssl_client_new :: "string \<Rightarrow> string \<Rightarrow> istream \<Rightarrow> ssl_client" where
  "ssl_client_new garbage garbage' cin =
     sc_start Client_connect \<lparr>sc_request = garbage, sc_reply = garbage', sc_cin = cin, sc_printed = [], sc_pending = []\<rparr>"

text \<open>The library asks for each certificate of the chain; the answer is what it found itself.\<close>

definition verify_certificate :: "bool \<Rightarrow> string \<Rightarrow> ssl_client \<Rightarrow> bool \<times> ssl_client" where
  "verify_certificate preverified subject_name c =
     (preverified, sc_print (''Verifying '' @ subject_name @ [CHR 0x0A]) c)"

definition sc_handle_connect :: "(error_code \<Rightarrow> string) \<Rightarrow> error_code \<Rightarrow> ssl_client \<Rightarrow> ssl_client" where
  "sc_handle_connect msg e c =
     (if e = No_error then sc_start Client_handshake c else sc_print (''Connect failed: '' @ msg e @ [CHR 0x0A]) c)"

text \<open>\<open>getline\<close> overwrites the start of the array and ends it with a NUL.\<close>

definition sc_handle_handshake :: "(error_code \<Rightarrow> string) \<Rightarrow> error_code \<Rightarrow> ssl_client \<Rightarrow> ssl_client" where
  "sc_handle_handshake msg e c =
     (if e = No_error
      then let c = sc_print ''Enter message: '' c; (line, cin) = cin_getline max_length (sc_cin c);
               c = c\<lparr>sc_cin := cin, sc_request := line @ CHR 0x00 # drop (length line + 1) (sc_request c)\<rparr>;
               request_length = length (c_str (sc_request c))
        in sc_start (Client_write request_length) c
      else sc_print (''Handshake failed: '' @ msg e @ [CHR 0x0A]) c)"

definition sc_handle_write :: "(error_code \<Rightarrow> string) \<Rightarrow> error_code \<Rightarrow> nat \<Rightarrow> ssl_client \<Rightarrow> ssl_client" where
  "sc_handle_write msg e bytes_transferred c =
     (if e = No_error then sc_start (Client_read bytes_transferred) c
      else sc_print (''Write failed: '' @ msg e @ [CHR 0x0A]) c)"

definition sc_handle_read :: "(error_code \<Rightarrow> string) \<Rightarrow> error_code \<Rightarrow> nat \<Rightarrow> ssl_client \<Rightarrow> ssl_client" where
  "sc_handle_read msg e bytes_transferred c =
     (if e = No_error then sc_print (''Reply: '' @ take bytes_transferred (sc_reply c) @ [CHR 0x0A]) c
      else sc_print (''Read failed: '' @ msg e @ [CHR 0x0A]) c)"

text \<open>A run, with the names of the certificates, the bytes written and read, and whether an operation has failed.\<close>

inductive ssl_client_run :: "(error_code \<Rightarrow> string) \<Rightarrow> istream \<Rightarrow> ssl_client \<Rightarrow> string list \<Rightarrow> string \<Rightarrow> string \<Rightarrow> bool \<Rightarrow> bool"
  for msg cin where
  sc_init: "length garbage = max_length \<Longrightarrow> length garbage' = max_length \<Longrightarrow>
    ssl_client_run msg cin (ssl_client_new garbage garbage' cin) [] [] [] False"
| sc_connected: "ssl_client_run msg cin c names sent got failed \<Longrightarrow> sc_pending c = [Client_connect] \<Longrightarrow>
    ssl_client_run msg cin (sc_handle_connect msg e (c\<lparr>sc_pending := []\<rparr>)) names sent got (e \<noteq> No_error)"
| sc_verify: "ssl_client_run msg cin c names sent got failed \<Longrightarrow> sc_pending c = [Client_handshake] \<Longrightarrow>
    ssl_client_run msg cin (snd (verify_certificate preverified name c)) (names @ [name]) sent got failed"
| sc_shaken: "ssl_client_run msg cin c names sent got failed \<Longrightarrow> sc_pending c = [Client_handshake] \<Longrightarrow>
    ssl_client_run msg cin (sc_handle_handshake msg e (c\<lparr>sc_pending := []\<rparr>)) names sent got (e \<noteq> No_error)"
| sc_written: "ssl_client_run msg cin c names sent got failed \<Longrightarrow> sc_pending c = [Client_write n] \<Longrightarrow> k \<le> n \<Longrightarrow>
    e = No_error \<longrightarrow> k = n \<Longrightarrow>
    ssl_client_run msg cin (sc_handle_write msg e k (c\<lparr>sc_pending := []\<rparr>)) names (sent @ take k (sc_request c)) got (e \<noteq> No_error)"
| sc_read: "ssl_client_run msg cin c names sent got failed \<Longrightarrow> sc_pending c = [Client_read n] \<Longrightarrow> length d \<le> n \<Longrightarrow>
    e = No_error \<longrightarrow> length d = n \<Longrightarrow>
    ssl_client_run msg cin (sc_handle_read msg e (length d) (c\<lparr>sc_pending := [], sc_reply := d @ drop (length d) (sc_reply c)\<rparr>))
      names sent (got @ d) (e \<noteq> No_error)"

definition verified :: "string list \<Rightarrow> string" where
  "verified names = concat (map (\<lambda>n. ''Verifying '' @ n @ [CHR 0x0A]) names)"

definition typed :: "istream \<Rightarrow> string" where
  "typed cin = c_str (fst (cin_getline max_length cin))"

definition ssl_client_inv :: "istream \<Rightarrow> ssl_client \<Rightarrow> string list \<Rightarrow> string \<Rightarrow> string \<Rightarrow> bool \<Rightarrow> bool" where
  "ssl_client_inv cin c names sent got failed \<longleftrightarrow>
     (failed \<longrightarrow> sc_pending c = [])
     \<and> (\<not> failed \<longrightarrow>
         (sc_pending c = [Client_connect] \<or> sc_pending c = [Client_handshake])
           \<and> sent = [] \<and> got = [] \<and> sc_cin c = cin \<and> sc_printed c = verified names
       \<or> sc_pending c = [Client_write (length (typed cin))]
           \<and> take (length (typed cin)) (sc_request c) = typed cin \<and> sent = [] \<and> got = [] \<and> sc_printed c = verified names @ ''Enter message: ''
       \<or> sc_pending c = [Client_read (length (typed cin))]
           \<and> sent = typed cin \<and> got = [] \<and> sc_printed c = verified names @ ''Enter message: ''
       \<or> sc_pending c = [] \<and> sent = typed cin \<and> length got = length (typed cin)
           \<and> sc_printed c = verified names @ ''Enter message: Reply: '' @ got @ [CHR 0x0A])"

lemma typed_stored:
  assumes "cin_getline max_length cin = (line, cin')"
  shows "c_str (line @ CHR 0x00 # r) = typed cin" "take (length (typed cin)) (line @ r') = typed cin"
proof -
  have "c_str (l @ CHR 0x00 # r) = c_str l" "take (length (c_str l)) (l @ r') = c_str l" for l
    by (induction l) (simp_all add: c_str_def)
  then show "c_str (line @ CHR 0x00 # r) = typed cin" "take (length (typed cin)) (line @ r') = typed cin"
    by (simp_all add: typed_def assms)
qed

lemma ssl_client_invariant:
  "ssl_client_run msg cin c names sent got failed \<Longrightarrow> ssl_client_inv cin c names sent got failed"
proof (induction rule: ssl_client_run.induct)
  case (sc_init garbage garbage')
  show ?case by (simp add: ssl_client_inv_def ssl_client_new_def sc_start_def verified_def)
next
  case (sc_connected c names sent got failed e)
  then show ?case
    by (cases "e = No_error") (auto simp: ssl_client_inv_def sc_handle_connect_def sc_start_def sc_print_def)
next
  case (sc_verify c names sent got failed preverified name)
  then show ?case by (auto simp: ssl_client_inv_def verify_certificate_def sc_print_def verified_def)
next
  case (sc_shaken c names sent got failed e)
  obtain line cin' where line: "cin_getline max_length cin = (line, cin')" by force
  from sc_shaken have "\<not> failed" "sent = []" "got = []" "sc_cin c = cin" "sc_printed c = verified names"
    by (auto simp: ssl_client_inv_def)
  then show ?case
    by (cases "e = No_error")
      (simp_all add: ssl_client_inv_def sc_handle_handshake_def sc_start_def sc_print_def Let_def line typed_stored [OF line] del: take_append)
next
  case (sc_written c names sent got failed n k e)
  then have "\<not> failed" "sent = []" "got = []" "n = length (typed cin)" "take n (sc_request c) = typed cin"
    "sc_printed c = verified names @ ''Enter message: ''"
    by (auto simp: ssl_client_inv_def)
  with sc_written.hyps show ?case
    by (cases "e = No_error") (simp_all add: ssl_client_inv_def sc_handle_write_def sc_start_def sc_print_def)
next
  case (sc_read c names sent got failed n d e)
  then have "\<not> failed" "sent = typed cin" "got = []" "n = length (typed cin)" "sc_printed c = verified names @ ''Enter message: ''"
    by (auto simp: ssl_client_inv_def)
  with sc_read.hyps show ?case
    by (cases "e = No_error") (simp_all add: ssl_client_inv_def sc_handle_read_def sc_start_def sc_print_def)
qed

text \<open>
  The client and the server together: when nothing fails and the client has no operation left, it has printed the names of
  the certificates, the prompt, and as the reply the line that was typed, if what the session receives is what
  the client has written so far and the client reads what the session has echoed so far.
\<close>

theorem ssl_echo_end_to_end:
  assumes "(ssl_step g)\<^sup>*\<^sup>* (ssl_new g) s" and "ssl_client_run msg cin c names sent got False" and "sc_pending c = []"
    and "prefix (ssl_arrived s i) sent" and "prefix got (ssl_echoed s i)"
  shows "sc_printed c = verified names @ ''Enter message: Reply: '' @ typed cin @ [CHR 0x0A]
    \<and> ssl_arrived s i = typed cin"
proof -
  have c: "sent = typed cin" "length got = length (typed cin)"
    "sc_printed c = verified names @ ''Enter message: Reply: '' @ got @ [CHR 0x0A]"
    using ssl_client_invariant [OF assms(2)] assms(3) by (auto simp: ssl_client_inv_def)
  have "prefix got (ssl_arrived s i)" using ssl_echo [OF assms(1), of i] assms(5) by (meson prefix_order.trans)
  then have "got = ssl_arrived s i" "ssl_arrived s i = sent"
    using assms(4) c(1,2) by (auto simp: prefix_def)
  then show ?thesis using c by simp
qed

end
