(* ===== verification/Priority_Handlers.thy ===== *)
theory Priority_Handlers
  imports Prelude "HOL-Library.Multiset"
begin

text \<open>
  The queue of handlers with priorities of \<open>asio-examples/invocation/invocation.cpp\<close>. \<open>std::priority_queue\<close>
  promises that \<open>top\<close> is a handler of greatest priority and that \<open>pop\<close> removes the one that \<open>top\<close>
  returns; which one that is among equals is a parameter.
\<close>

section \<open>The queue\<close>

text \<open>A handler with its priority and its output; running it may add further handlers to the queue.\<close>

datatype handler = Queued_handler (priority: int) (prints: string) (adds: "handler list")

type_synonym selection = "handler list \<Rightarrow> handler"

definition selects :: "selection \<Rightarrow> bool" where
  "selects sel \<longleftrightarrow> (\<forall>q. q \<noteq> [] \<longrightarrow> sel q \<in> set q \<and> (\<forall>h\<in>set q. priority h \<le> priority (sel q)))"

definition add_handler :: "int \<Rightarrow> string \<Rightarrow> handler list \<Rightarrow> handler list \<Rightarrow> handler list" where
  "add_handler p text hs q = q @ [Queued_handler p text hs]"

text \<open>\<open>execute\<close> runs the function while the handler is still in the queue.\<close>

definition execute :: "handler \<Rightarrow> handler list \<Rightarrow> string \<times> handler list" where
  "execute h q = (prints h, foldl (\<lambda>q a. add_handler (priority a) (prints a) (adds a) q) q (adds h))"

definition pop_handler :: "selection \<Rightarrow> handler list \<Rightarrow> handler list" where
  "pop_handler sel q = remove1 (sel q) q"

text \<open>The loop may not end; the result is the text that is printed.\<close>

partial_function (option) execute_all :: "selection \<Rightarrow> handler list \<Rightarrow> string list option" where
  "execute_all sel q =
     (if q = [] then Some []
      else let h = sel q; (text, q') = execute h q in
        Option.bind (execute_all sel (pop_handler sel q')) (\<lambda>texts. Some (text # texts)))"

text \<open>The loop of \<open>main\<close>: \<open>run_one\<close> and \<open>poll_one\<close> move a batch of ready handlers into the queue. A batch
  has at least one, and the loop ends when no work is left.\<close>

fun main_loop :: "selection \<Rightarrow> (int \<times> string \<times> handler list) list list \<Rightarrow> string list option" where
  "main_loop sel [] = Some []"
| "main_loop sel (batch # batches) =
     Option.bind (execute_all sel (foldl (\<lambda>q (p, text, hs). add_handler p text hs q) [] batch)) (\<lambda>texts.
       Option.bind (main_loop sel batches) (\<lambda>rest. Some (texts @ rest)))"

lemma execute_eq [simp]: "execute h q = (prints h, q @ adds h)"
proof -
  have "foldl (\<lambda>q a. add_handler (priority a) (prints a) (adds a) q) q hs = q @ hs" for hs
    by (induction hs arbitrary: q) (simp_all add: add_handler_def)
  then show ?thesis by (simp add: execute_def)
qed

lemma selects_first: "selects (\<lambda>q. the (find (\<lambda>h. \<forall>k\<in>set q. priority k \<le> priority h) q))"
  unfolding selects_def
proof (intro allI impI)
  fix q :: "handler list" assume "q \<noteq> []"
  then obtain h where "h \<in> set q" "\<forall>k\<in>set q. priority k \<le> priority h"
    using Max_in [of "priority ` set q"] Max_ge [of "priority ` set q"] by (metis (no_types, lifting) List.finite_set
      finite_imageI image_iff image_is_empty set_empty)
  then obtain g where g: "find (\<lambda>h. \<forall>k\<in>set q. priority k \<le> priority h) q = Some g"
    by (cases "find (\<lambda>h. \<forall>k\<in>set q. priority k \<le> priority h) q") (auto simp: find_None_iff)
  then obtain i where "i < length q" "\<forall>k\<in>set q. priority k \<le> priority g" "g = q ! i"
    by (auto simp: find_Some_iff)
  then show "the (find (\<lambda>h. \<forall>k\<in>set q. priority k \<le> priority h) q) \<in> set q
      \<and> (\<forall>h\<in>set q. priority h \<le> priority (the (find (\<lambda>h. \<forall>k\<in>set q. priority k \<le> priority h) q)))"
    unfolding g by simp
qed

section \<open>Handlers that add less urgent ones\<close>

fun handlers_in :: "handler \<Rightarrow> handler list" where
  "handlers_in (Queued_handler p text hs) = Queued_handler p text hs # concat (map handlers_in hs)"

fun descending :: "handler \<Rightarrow> bool" where
  "descending (Queued_handler p text hs) \<longleftrightarrow> (\<forall>h\<in>set hs. priority h < p \<and> descending h)"

lemma handlers_in_unfold: "handlers_in h = h # concat (map handlers_in (adds h))"
  by (cases h) simp

lemma descending_adds: "descending h \<Longrightarrow> k \<in> set (adds h) \<Longrightarrow> priority k < priority h \<and> descending k"
  by (cases h) simp

lemma priority_bound: "descending h \<Longrightarrow> k \<in> set (handlers_in h) \<Longrightarrow> priority k \<le> priority h"
proof (induction h rule: handlers_in.induct)
  case (1 p t hs)
  then show ?case by fastforce
qed

text \<open>Every handler once, the most urgent first.\<close>

definition runs_to :: "handler list \<Rightarrow> handler list \<Rightarrow> bool" where
  "runs_to q run \<longleftrightarrow> mset run = mset (concat (map handlers_in q)) \<and> sorted_wrt (\<lambda>h k. priority k \<le> priority h) run"

text \<open>A handler that adds others shares its priority with none; so it is still the one at the top when \<open>pop\<close> is
  called. Among equals, \<open>top\<close> may return another one after a push.\<close>

definition adders_alone :: "handler list \<Rightarrow> bool" where
  "adders_alone hs \<longleftrightarrow> (\<forall>h\<in>set hs. adds h \<noteq> [] \<longrightarrow> length (filter (\<lambda>k. priority k = priority h) hs) = 1)"

lemma adders_alone_mset:
  assumes "adders_alone hs" "mset ks + {#h#} = mset hs"
  shows "adders_alone ks"
  unfolding adders_alone_def
proof (intro ballI impI)
  fix k assume k: "k \<in> set ks" "adds k \<noteq> []"
  let ?P = "\<lambda>g. priority g = priority k"
  have "size (filter_mset ?P (mset ks)) \<le> size (filter_mset ?P (mset hs))"
    by (simp flip: assms(2))
  moreover have "k \<in># mset hs" using k by (simp flip: assms(2))
  then have "size (filter_mset ?P (mset hs)) = 1"
    using assms(1) k(2) by (simp add: adders_alone_def flip: mset_filter)
  moreover have "filter ?P ks \<noteq> []" using k(1) by (auto simp: filter_empty_conv)
  ultimately show "length (filter ?P ks) = 1"
    by (cases "filter ?P ks") (simp_all flip: mset_filter)
qed

lemma top_stays:
  assumes "selects sel" "q \<noteq> []" "adders_alone (concat (map handlers_in q))"
    and less: "\<forall>k\<in>set (adds (sel q)). priority k < priority (sel q)"
  shows "sel (q @ adds (sel q)) = sel q"
proof (cases "adds (sel q) = []")
  case False
  let ?h = "sel q" and ?t = "sel (q @ adds (sel q))" and ?all = "concat (map handlers_in q)"
  have h: "?h \<in> set q" "\<forall>k\<in>set q. priority k \<le> priority ?h" using assms(1,2) by (simp_all add: selects_def)
  have t: "?t \<in> set (q @ adds ?h)" "priority ?h \<le> priority ?t"
    using assms(1) [unfolded selects_def, rule_format, of "q @ adds ?h"] assms(2) h(1) by auto
  then have "?t \<in> set q" using less by force
  have all: "k \<in> set q \<Longrightarrow> k \<in> set ?all" for k using handlers_in_unfold [of k] by force
  have "length (filter (\<lambda>k. priority k = priority ?h) ?all) = 1"
    using assms(3) [unfolded adders_alone_def] all [OF h(1)] False by blast
  then obtain g where g: "filter (\<lambda>k. priority k = priority ?h) ?all = [g]" by (auto simp: length_Suc_conv)
  have "?h \<in> set [g]" "?t \<in> set [g]"
    using all [OF h(1)] all [OF \<open>?t \<in> set q\<close>] h(2) t(2) \<open>?t \<in> set q\<close> by (auto simp flip: g intro: antisym)
  then show ?thesis by simp
qed simp

lemma execute_all_step:
  assumes "q \<noteq> []" "sel (q @ adds (sel q)) = sel q" "sel q \<in> set q"
  shows "execute_all sel q = Option.bind (execute_all sel (remove1 (sel q) q @ adds (sel q))) (\<lambda>texts. Some (prints (sel q) # texts))"
  using assms by (subst execute_all.simps) (simp add: pop_handler_def Let_def remove1_append)

lemma handlers_in_remove1:
  "h \<in> set q \<Longrightarrow> mset (concat (map handlers_in (remove1 h q @ adds h))) + {#h#} = mset (concat (map handlers_in q))"
  by (induction q) (auto simp: handlers_in_unfold [of h] ac_simps)

lemma runs_to_Cons:
  assumes sel: "selects sel" "q \<noteq> []" and d: "\<forall>h\<in>set q. descending h"
    and r: "runs_to (remove1 (sel q) q @ adds (sel q)) run"
  shows "runs_to q (sel q # run)"
proof -
  have h: "sel q \<in> set q" "\<And>k. k \<in> set q \<Longrightarrow> priority k \<le> priority (sel q)"
    using sel by (simp_all add: selects_def)
  have m: "mset (sel q # run) = mset (concat (map handlers_in q))"
    using r handlers_in_remove1 [OF h(1)] by (simp add: runs_to_def)
  have "priority k \<le> priority (sel q)" if "k \<in> set run" for k
  proof -
    have "k \<in> set (concat (map handlers_in q))" using that mset_eq_setD [OF m] by auto
    then obtain g where g: "g \<in> set q" "k \<in> set (handlers_in g)" by auto
    show ?thesis using priority_bound [of g k] d g h(2) [OF g(1)] by fastforce
  qed
  then show ?thesis using r m by (simp add: runs_to_def)
qed

lemma execute_all_runs:
  assumes "selects sel" "adders_alone (concat (map handlers_in q))" "\<forall>h\<in>set q. descending h"
  shows "\<exists>run. execute_all sel q = Some (map prints run) \<and> runs_to q run"
  using assms(2,3)
proof (induction "length (concat (map handlers_in q))" arbitrary: q rule: less_induct)
  case less
  show ?case
  proof (cases "q = []")
    case True
    then show ?thesis by (auto simp: runs_to_def execute_all.simps)
  next
    case False
    let ?h = "sel q" and ?q = "remove1 (sel q) q @ adds (sel q)"
    have h: "?h \<in> set q" using assms(1) False by (simp add: selects_def)
    have d: "priority k < priority ?h \<and> descending k" if "k \<in> set (adds ?h)" for k
      using descending_adds that h less.prems(2) by blast
    have top: "sel (q @ adds ?h) = ?h"
      using top_stays [OF assms(1) False less.prems(1)] d by blast
    have "length (concat (map handlers_in ?q)) < length (concat (map handlers_in q))"
      using arg_cong [OF handlers_in_remove1 [OF h], of size] by simp
    moreover have "adders_alone (concat (map handlers_in ?q))"
      by (rule adders_alone_mset [OF less.prems(1) handlers_in_remove1 [OF h]])
    moreover have "\<forall>h\<in>set ?q. descending h"
      using less.prems(2) d by (auto dest: notin_set_remove1)
    ultimately obtain run where run: "execute_all sel ?q = Some (map prints run)" "runs_to ?q run"
      using less.hyps by blast
    have "execute_all sel q = Some (map prints (?h # run))"
      by (subst execute_all_step [OF False top h]) (simp add: run(1))
    then show ?thesis using runs_to_Cons [OF assms(1) False less.prems(2) run(2)] by blast
  qed
qed

section \<open>Properties\<close>

text \<open>
  C40. For every \<open>top\<close> that returns a handler of greatest priority: if each handler adds only less urgent ones,
  and those that add any share their priority with no other handler, \<open>execute_all\<close> returns and has run every
  handler, the added ones included, exactly once, in order of priority. (Among handlers of equal priority
  the library does not say whether \<open>top\<close> stays the same when others are pushed, and \<open>pop\<close> removes the one
  that is then at the top.)
\<close>

theorem handlers_by_priority:
  assumes "selects sel" and "\<forall>h\<in>set q. descending h"
    and "\<forall>h\<in>set (concat (map handlers_in q)). adds h \<noteq> [] \<longrightarrow>
      length (filter (\<lambda>k. priority k = priority h) (concat (map handlers_in q))) = 1"
  shows "\<exists>run. execute_all sel q = Some (map prints run)
    \<and> mset run = mset (concat (map handlers_in q)) \<and> sorted_wrt (\<lambda>h k. priority k \<le> priority h) run"
  using execute_all_runs [OF assms(1) _ assms(2)] assms(3) by (simp add: runs_to_def adders_alone_def)

text \<open>The program's own handlers.\<close>

definition example_handlers :: "handler list" where
  "example_handlers = [Queued_handler 0 ''Low'' [], Queued_handler 100 ''High'' [], Queued_handler 42 ''Middle'' []]"

text \<open>The same, with two handlers that add others, one of them when it has been added itself.\<close>

definition adding_handlers :: "handler list" where
  "adding_handlers = [Queued_handler 0 ''Low'' [],
     Queued_handler 100 ''High'' [Queued_handler 7 ''Later'' [Queued_handler 0 ''Last'' []]], Queued_handler 42 ''Middle'' []]"

theorem handlers_by_priority_witness:
  "\<exists>sel run. selects sel \<and> execute_all sel adding_handlers = Some (map prints run)
     \<and> image_mset priority (mset run) = {#100, 42, 7, 0, 0#} \<and> sorted_wrt (\<lambda>h k. priority k \<le> priority h) run"
proof -
  have d: "\<forall>h\<in>set adding_handlers. descending h" by (simp add: adding_handlers_def)
  have a: "\<forall>h\<in>set (concat (map handlers_in adding_handlers)). adds h \<noteq> [] \<longrightarrow>
      length (filter (\<lambda>k. priority k = priority h) (concat (map handlers_in adding_handlers))) = 1"
    by (simp add: adding_handlers_def)
  obtain run where run: "execute_all (\<lambda>q. the (find (\<lambda>h. \<forall>k\<in>set q. priority k \<le> priority h) q)) adding_handlers = Some (map prints run)"
      "mset run = mset (concat (map handlers_in adding_handlers))" "sorted_wrt (\<lambda>h k. priority k \<le> priority h) run"
    using handlers_by_priority [OF selects_first d a] by blast
  have "image_mset priority (mset run) = {#100, 42, 7, 0, 0#}" unfolding run(2) by (simp add: adding_handlers_def)
  then show ?thesis using selects_first run by blast
qed

text \<open>
  Against the intention: the handler is popped only after it has run. One that adds a more urgent handler
  makes \<open>pop\<close> remove that instead; it never runs, and the other runs forever.
\<close>

theorem urgent_handler_lost:
  assumes "selects sel"
  shows "execute_all sel [Queued_handler 0 ''Low'' [Queued_handler 1 ''High'' []]] = None"
proof -
  let ?h = "Queued_handler 1 ''High'' []" 
  let ?l = "Queued_handler 0 ''Low'' [?h]"
  have top: "sel [?l] = ?l" "sel [?l, ?h] = ?h"
    using assms [unfolded selects_def, rule_format, of "[?l]"] assms [unfolded selects_def, rule_format, of "[?l, ?h]"] by auto
  have step: "execute_all sel [?l] = Option.bind (execute_all sel [?l]) (\<lambda>texts. Some (''Low'' # texts))"
    using top by (subst execute_all.simps) (simp add: pop_handler_def)
  have "False" if "execute_all sel [?l] = Some texts" for texts
    using step that by simp
  then show ?thesis by (cases "execute_all sel [?l]") simp_all
qed

end
