(* ===== verification/Daytime.thy ===== *)
theory Daytime
  imports Prelude "HOL-Library.Sublist" "HOL-Library.Multiset"
begin

text \<open>
  The daytime servers: \<open>asio-tutorial/2.Daytime.7/2.Daytime.7.cpp\<close>, one over TCP and one over UDP, and
  \<open>asio-examples/buffers/reference_counted.cpp\<close>, whose operations own what they send. The time as text is
  that of the host, an argument of the handlers.
\<close>

section \<open>The servers over TCP\<close>

text \<open>A write sends bytes of the \<open>_message\<close> of its connection or, in \<open>reference_counted\<close>, of the buffer it
  has a copy of.\<close>

datatype day_op = Accept_conn nat | Write_message nat nat | Write_shared nat string

record daytime =
  messages :: "nat \<Rightarrow> string option"
  next_conn :: nat
  day_pending :: "day_op list"
  sent_to :: "nat \<Rightarrow> string"

fun day_on :: "nat \<Rightarrow> day_op \<Rightarrow> bool" where
  "day_on i (Accept_conn j) = (i = j)"
| "day_on i (Write_message j n) = (i = j)"
| "day_on i (Write_shared j bs) = (i = j)"

definition start_day :: "day_op \<Rightarrow> daytime \<Rightarrow> daytime" where
  "start_day op s = s\<lparr>day_pending := day_pending s @ [op]\<rparr>"

definition create :: "daytime \<Rightarrow> nat \<times> daytime" where
  "create s = (next_conn s, s\<lparr>messages := (messages s)(next_conn s := Some []), next_conn := next_conn s + 1\<rparr>)"

text \<open>A connection is destroyed with the last handler bound to it.\<close>

definition release_conn :: "nat \<Rightarrow> daytime \<Rightarrow> daytime" where
  "release_conn i s = (if filter (day_on i) (day_pending s) = [] then s\<lparr>messages := (messages s)(i := None)\<rparr> else s)"

definition start_message :: "string \<Rightarrow> nat \<Rightarrow> daytime \<Rightarrow> daytime" where
  "start_message now i s = start_day (Write_message i (length now)) (s\<lparr>messages := (messages s)(i := Some now)\<rparr>)"

definition shared_const_buffer :: "string \<Rightarrow> string" where
  "shared_const_buffer data = data"

definition start_shared :: "string \<Rightarrow> nat \<Rightarrow> daytime \<Rightarrow> daytime" where
  "start_shared now i s = start_day (Write_shared i (shared_const_buffer now)) s"

definition day_start_accept :: "daytime \<Rightarrow> daytime" where
  "day_start_accept s = (let (i, s) = create s in start_day (Accept_conn i) s)"

text \<open>\<open>start\<close> is that of either server.\<close>

definition day_handle_accept :: "(nat \<Rightarrow> daytime \<Rightarrow> daytime) \<Rightarrow> nat \<Rightarrow> error_code \<Rightarrow> daytime \<Rightarrow> daytime" where
  "day_handle_accept start i e s = day_start_accept (if e = No_error then start i s else s)"

definition day_handle_write :: "nat \<Rightarrow> daytime \<Rightarrow> daytime" where
  "day_handle_write i s = s"

definition daytime_new :: daytime where
  "daytime_new = day_start_accept \<lparr>messages = \<lambda>_. None, next_conn = 0, day_pending = [], sent_to = \<lambda>_. []\<rparr>"

text \<open>The bytes of a write, read when they are sent.\<close>

fun bytes_of :: "daytime \<Rightarrow> day_op \<Rightarrow> string" where
  "bytes_of s (Write_message i n) = take n (the (messages s i))"
| "bytes_of s (Write_shared i bs) = bs"
| "bytes_of s (Accept_conn i) = []"

text \<open>A run of the server whose sessions \<open>start\<close>, with the times at which connections were accepted and the
  connections whose write failed.\<close>

inductive day_run :: "(string \<Rightarrow> nat \<Rightarrow> daytime \<Rightarrow> daytime) \<Rightarrow> daytime \<Rightarrow> (nat \<rightharpoonup> string) \<Rightarrow> nat set \<Rightarrow> bool"
  for start :: "string \<Rightarrow> nat \<Rightarrow> daytime \<Rightarrow> daytime" where
  day_init: "day_run start daytime_new Map.empty {}"
| day_accept: "day_run start s said failed \<Longrightarrow> day_pending s = xs @ Accept_conn i # ys \<Longrightarrow>
    day_run start (release_conn i (day_handle_accept (start now) i e (s\<lparr>day_pending := xs @ ys\<rparr>)))
      (if e = No_error then said(i \<mapsto> now) else said) failed"
| day_written: "day_run start s said failed \<Longrightarrow> day_pending s = xs @ op # ys \<Longrightarrow> op = Write_message i n \<or> op = Write_shared i bs \<Longrightarrow>
    day_run start (release_conn i (day_handle_write i (s\<lparr>day_pending := xs @ ys, sent_to := (sent_to s)(i := sent_to s i @ bytes_of s op)\<rparr>)))
      said failed"
| day_failed: "day_run start s said failed \<Longrightarrow> day_pending s = xs @ op # ys \<Longrightarrow> op = Write_message i n \<or> op = Write_shared i bs \<Longrightarrow>
    day_run start (release_conn i (day_handle_write i (s\<lparr>day_pending := xs @ ys, sent_to := (sent_to s)(i := sent_to s i @ take k (bytes_of s op))\<rparr>)))
      said (insert i failed)"

text \<open>Each connection that exists has one operation; a write has the message of its connection.\<close>

definition conn_ok :: "daytime \<Rightarrow> (nat \<rightharpoonup> string) \<Rightarrow> nat set \<Rightarrow> nat \<Rightarrow> bool" where
  "conn_ok s said failed i \<longleftrightarrow>
     (case filter (day_on i) (day_pending s) of
        [] \<Rightarrow> messages s i = None \<and> (case said i of None \<Rightarrow> sent_to s i = []
              | Some now \<Rightarrow> i < next_conn s \<and> prefix (sent_to s i) now \<and> (i \<notin> failed \<longrightarrow> sent_to s i = now))
      | [op] \<Rightarrow> i < next_conn s \<and> messages s i \<noteq> None \<and> sent_to s i = [] \<and>
          (if op = Accept_conn i then said i = None else said i = Some (bytes_of s op))
      | _ \<Rightarrow> False)"

lemma conn_ok_cong:
  assumes "conn_ok s said failed j" and "filter (day_on j) (day_pending s') = filter (day_on j) (day_pending s)"
    and "messages s' j = messages s j" and "sent_to s' j = sent_to s j" and "next_conn s \<le> next_conn s'"
    and "said' j = said j" and "j \<in> failed' \<longleftrightarrow> j \<in> failed"
  shows "conn_ok s' said' failed' j"
proof -
  have "bytes_of s' op = bytes_of s op" if "day_on j op" for op
    using that assms(3) by (cases op) auto
  moreover have "day_on j op" if "filter (day_on j) (day_pending s) = op # ops" for op ops
    using arg_cong [OF that, of set] by auto
  ultimately have "filter (day_on j) (day_pending s) = [op] \<Longrightarrow> bytes_of s' op = bytes_of s op" for op
    by blast
  then show ?thesis
    using assms by (cases "filter (day_on j) (day_pending s)"; cases "tl (filter (day_on j) (day_pending s))")
      (auto simp: conn_ok_def split: option.splits)
qed

lemma day_on_unique: "day_on i op \<Longrightarrow> day_on j op \<longleftrightarrow> j = i"
  by (cases op) auto

lemma day_op_single:
  assumes "conn_ok s said failed i" and "day_pending s = xs @ op # ys" and "day_on i op"
  shows "filter (day_on i) xs = [] \<and> filter (day_on i) ys = [] \<and> i < next_conn s \<and> sent_to s i = [] \<and> messages s i \<noteq> None
    \<and> (if op = Accept_conn i then said i = None else said i = Some (bytes_of s op))"
  using assms by (cases "filter (day_on i) xs") (auto simp: conn_ok_def split: list.splits)

text \<open>What both sessions do when they start.\<close>

definition starts :: "(string \<Rightarrow> nat \<Rightarrow> daytime \<Rightarrow> daytime) \<Rightarrow> bool" where
  "starts start \<longleftrightarrow> (\<forall>now i s. messages s i \<noteq> None \<longrightarrow> (\<exists>op m. day_on i op \<and> op \<noteq> Accept_conn i \<and>
     start now i s = s\<lparr>day_pending := day_pending s @ [op], messages := (messages s)(i := Some m)\<rparr> \<and> bytes_of (start now i s) op = now))"

lemma starts_both: "starts start_message" "starts start_shared"
proof -
  show "starts start_message"
    unfolding starts_def
  proof (intro allI impI)
    fix now i and s :: daytime
    show "\<exists>op m. day_on i op \<and> op \<noteq> Accept_conn i \<and>
        start_message now i s = s\<lparr>day_pending := day_pending s @ [op], messages := (messages s)(i := Some m)\<rparr> \<and> bytes_of (start_message now i s) op = now"
      by (rule exI [of _ "Write_message i (length now)"], rule exI [of _ now]) (simp add: start_message_def start_day_def)
  qed
  show "starts start_shared"
    unfolding starts_def
  proof (intro allI impI)
    fix now i and s :: daytime
    assume "messages s i \<noteq> None"
    then show "\<exists>op m. day_on i op \<and> op \<noteq> Accept_conn i \<and>
        start_shared now i s = s\<lparr>day_pending := day_pending s @ [op], messages := (messages s)(i := Some m)\<rparr> \<and> bytes_of (start_shared now i s) op = now"
      by (intro exI [of _ "Write_shared i now"] exI [of _ "the (messages s i)"])
        (auto simp: start_shared_def start_day_def shared_const_buffer_def fun_upd_idem)
  qed
qed

lemma day_accepting:
  "day_start_accept s = s\<lparr>messages := (messages s)(next_conn s := Some []), next_conn := next_conn s + 1,
     day_pending := day_pending s @ [Accept_conn (next_conn s)]\<rparr>"
  by (simp add: day_start_accept_def create_def start_day_def)

lemma release_accepting:
  "i < next_conn s \<Longrightarrow> release_conn i (day_start_accept s) = day_start_accept (release_conn i s)"
  by (auto simp: day_accepting release_conn_def fun_upd_twist)

lemma conn_ok_fresh: "conn_ok s said failed i \<Longrightarrow> next_conn s \<le> i \<Longrightarrow>
    filter (day_on i) (day_pending s) = [] \<and> said i = None \<and> sent_to s i = []"
  by (auto simp: conn_ok_def split: list.splits option.splits)

lemma conn_ok_accepting:
  assumes "conn_ok s said failed j"
  shows "conn_ok (day_start_accept s) said failed j"
proof (cases "j = next_conn s")
  case True
  then show ?thesis using conn_ok_fresh [OF assms] by (simp add: day_accepting conn_ok_def)
next
  case False
  then show ?thesis by (intro conn_ok_cong [OF assms]) (auto simp: day_accepting)
qed

lemma day_run_ok:
  assumes st: "starts start"
  shows "day_run start s said failed \<Longrightarrow> conn_ok s said failed j"
proof (induction arbitrary: j rule: day_run.induct)
  case day_init
  show ?case by (auto simp: conn_ok_def daytime_new_def day_accepting)
next
  case (day_accept s said failed xs i ys now e j)
  let ?t = "s\<lparr>day_pending := xs @ ys\<rparr>"
  note single = day_op_single [OF day_accept.IH [of i] day_accept.hyps(2), simplified]
  have other: "filter (day_on j) (day_pending s) = filter (day_on j) (xs @ ys)" if "j \<noteq> i"
    using day_accept.hyps(2) that by simp
  show ?case
  proof (cases "e = No_error")
    case True
    obtain op m where op: "day_on i op" "op \<noteq> Accept_conn i" "bytes_of (start now i ?t) op = now"
        and t: "start now i ?t = ?t\<lparr>day_pending := day_pending ?t @ [op], messages := (messages ?t)(i := Some m)\<rparr>"
      using st [unfolded starts_def, rule_format, of ?t i now] single by auto
    have r: "release_conn i (start now i ?t) = start now i ?t"
      using op(1) unfolding t by (simp add: release_conn_def)
    have "conn_ok (start now i ?t) (said(i \<mapsto> now)) failed j"
    proof (cases "j = i")
      case j: True
      have "filter (day_on i) (day_pending (start now i ?t)) = [op]"
        using single op(1) unfolding t by simp
      then show ?thesis
        using single op(2,3) unfolding j conn_ok_def by (simp add: t)
    next
      case False
      then show ?thesis
        using other day_on_unique [OF op(1), of j] by (intro conn_ok_cong [OF day_accept.IH [of j]]) (auto simp: t)
    qed
    moreover have eq: "release_conn i (day_handle_accept (start now) i e ?t) = day_start_accept (start now i ?t)"
      using True single r by (simp add: day_handle_accept_def release_accepting t)
    ultimately show ?thesis
      unfolding eq if_P [OF True] by (intro conn_ok_accepting)
  next
    case False
    have "conn_ok (release_conn i ?t) said failed j"
    proof (cases "j = i")
      case True
      then show ?thesis using single by (simp add: release_conn_def conn_ok_def)
    next
      case False
      then show ?thesis
        using other by (intro conn_ok_cong [OF day_accept.IH [of j]]) (auto simp: release_conn_def)
    qed
    then show ?thesis
      using False single by (simp add: day_handle_accept_def release_accepting conn_ok_accepting)
  qed
next
  case (day_written s said failed xs op ys i n bs j)
  then have on: "day_on i op" "op \<noteq> Accept_conn i" by auto
  note single = day_op_single [OF day_written.IH [of i] day_written.hyps(2) on(1)]
  show ?case
  proof (cases "j = i")
    case True
    then show ?thesis
      using single on by (auto simp: conn_ok_def release_conn_def day_handle_write_def)
  next
    case False
    then show ?thesis
      using day_on_unique [OF on(1), of j]
      by (intro conn_ok_cong [OF day_written.IH [of j]]) (auto simp: day_written.hyps(2) release_conn_def day_handle_write_def)
  qed
next
  case (day_failed s said failed xs op ys i n bs k j)
  then have on: "day_on i op" "op \<noteq> Accept_conn i" by auto
  note single = day_op_single [OF day_failed.IH [of i] day_failed.hyps(2) on(1)]
  show ?case
  proof (cases "j = i")
    case True
    then show ?thesis
      using single on by (auto simp: conn_ok_def release_conn_def day_handle_write_def take_is_prefix)
  next
    case False
    then show ?thesis
      using day_on_unique [OF on(1), of j]
      by (intro conn_ok_cong [OF day_failed.IH [of j]]) (auto simp: day_failed.hyps(2) release_conn_def day_handle_write_def)
  qed
qed

section \<open>The server over UDP\<close>

text \<open>The endpoint of the last datagram, the operations, and whether a message that is being sent is its own.\<close>

datatype udp_daytime_op = Receive | Send nat string

record udp_daytime =
  remote_endpoint :: nat
  udp_ops :: "udp_daytime_op list"

definition start_receive :: "udp_daytime \<Rightarrow> udp_daytime" where
  "start_receive s = s\<lparr>udp_ops := udp_ops s @ [Receive]\<rparr>"

definition handle_receive :: "string \<Rightarrow> error_code \<Rightarrow> udp_daytime \<Rightarrow> udp_daytime" where
  "handle_receive now e s =
     (if e = No_error then start_receive (s\<lparr>udp_ops := udp_ops s @ [Send (remote_endpoint s) now]\<rparr>) else s)"

definition udp_daytime_new :: "nat \<Rightarrow> udp_daytime" where
  "udp_daytime_new garbage = start_receive \<lparr>remote_endpoint = garbage, udp_ops = []\<rparr>"

text \<open>A run with the answers that are due, those that were sent (or failed), and whether a receive has failed. The
  buffer has room for one byte: where a longer datagram is an error, as it is on Windows, it is one here.\<close>

inductive udp_daytime_run :: "udp_daytime \<Rightarrow> (nat \<times> string) list \<Rightarrow> (nat \<times> string) list \<Rightarrow> bool \<Rightarrow> bool" where
  uday_init: "udp_daytime_run (udp_daytime_new g) [] [] False"
| uday_received: "udp_daytime_run s due sent bad \<Longrightarrow> udp_ops s = xs @ Receive # ys \<Longrightarrow>
    udp_daytime_run (handle_receive now No_error (s\<lparr>udp_ops := xs @ ys, remote_endpoint := ep\<rparr>)) (due @ [(ep, now)]) sent bad"
| uday_receive_failed: "udp_daytime_run s due sent bad \<Longrightarrow> udp_ops s = xs @ Receive # ys \<Longrightarrow> e \<noteq> No_error \<Longrightarrow>
    udp_daytime_run (handle_receive now e (s\<lparr>udp_ops := xs @ ys, remote_endpoint := ep\<rparr>)) due sent True"
| uday_sent: "udp_daytime_run s due sent bad \<Longrightarrow> udp_ops s = xs @ Send ep m # ys \<Longrightarrow>
    udp_daytime_run (s\<lparr>udp_ops := xs @ ys\<rparr>) due (sent @ [(ep, m)]) bad"

fun being_sent :: "udp_daytime_op list \<Rightarrow> (nat \<times> string) list" where
  "being_sent [] = []"
| "being_sent (Receive # ops) = being_sent ops"
| "being_sent (Send ep m # ops) = (ep, m) # being_sent ops"

lemma being_sent_append [simp]: "being_sent (xs @ ys) = being_sent xs @ being_sent ys"
  by (induction xs rule: being_sent.induct) simp_all

section \<open>Properties\<close>

text \<open>Both servers over TCP: a connection without an operation has been destroyed, no other has; and its peer was sent
  the time of its acceptance, once, or a beginning of it when the write failed.\<close>

theorem daytime_sent:
  assumes "day_run start s said failed" and "start = start_message \<or> start = start_shared"
  shows "(messages s i = None \<longleftrightarrow> filter (day_on i) (day_pending s) = [])
    \<and> (messages s i = None \<and> said i = Some now \<longrightarrow> prefix (sent_to s i) now \<and> (i \<notin> failed \<longrightarrow> sent_to s i = now))"
proof -
  have "conn_ok s said failed i"
    using day_run_ok [OF _ assms(1)] assms(2) starts_both by blast
  then show ?thesis by (auto simp: conn_ok_def split: list.splits)
qed

text \<open>The server over UDP owes each datagram the time of its arrival, sent to where it came from. Against the
  intention: after a receive that failed, if only because the datagram had more than one byte, it never
  receives again.\<close>

theorem udp_daytime_answers:
  assumes "udp_daytime_run s due sent bad"
  shows "mset due = mset sent + mset (being_sent (udp_ops s))
    \<and> length (filter (\<lambda>op. op = Receive) (udp_ops s)) = (if bad then 0 else 1)"
  using assms
proof (induction rule: udp_daytime_run.induct)
  case (uday_receive_failed s due sent bad xs ys e now ep)
  then show ?case by (cases bad) (auto simp: handle_receive_def)
qed (auto simp: udp_daytime_new_def start_receive_def handle_receive_def split: if_splits)

end
