(* ===== verification/Timers.thy ===== *)
theory Timers
  imports Prelude
begin

text \<open>
  The timers of \<open>asio-tutorial/1.Timer/1.Timer.cpp\<close>: a handler that counts to five and restarts its timer, and
  two such handlers that share a counter and run on two threads.
\<close>

section \<open>One timer\<close>

text \<open>The expiry time in seconds and the counter; what is printed comes with the time it is due.\<close>

record timer =
  expiry :: nat
  count :: int

definition timer_new :: timer where
  "timer_new = \<lparr>expiry = 1, count = 0\<rparr>"

text \<open>\<open>print3\<close> and \<open>Printer::print\<close>; the last result tells whether the timer was started again.\<close>

definition print3 :: "timer \<Rightarrow> (nat \<times> int) list \<times> timer \<times> bool" where
  "print3 t = (if count t < 5 then ([(expiry t, count t)], t\<lparr>count := count t + 1, expiry := expiry t + 1\<rparr>, True)
     else ([], t, False))"

text \<open>\<open>io.run()\<close> returns when no timer is running.\<close>

function io_run :: "timer \<Rightarrow> (nat \<times> int) list \<times> int" where
  "io_run t = (case print3 t of (out, t', again) \<Rightarrow>
     if again then let (out', n) = io_run t' in (out @ out', n) else (out, count t'))"
  by pat_completeness auto
termination
  by (relation "measure (\<lambda>t. nat (5 - count t))") (auto simp: print3_def split: if_splits)

theorem timer_counts: "io_run timer_new = ([(1, 0), (2, 1), (3, 2), (4, 3), (5, 4)], 5)"
  by (simp add: timer_new_def print3_def)

section \<open>Two timers and two threads\<close>

text \<open>The handler of one timer: waiting for the timer, past the test \<open>_count < 10\<close>, about to add one, with the
  value read by \<open>++_count\<close>, and done because the test failed. There is one thread for each.\<close>

datatype print_pc = Waiting | Tested | Printed | Read int | Done

record printer =
  pcs :: "bool \<Rightarrow> print_pc"
  shared_count :: int
  lines_out :: "(bool \<times> int) list"

definition printer_new :: printer where
  "printer_new = \<lparr>pcs = \<lambda>_. Waiting, shared_count = 0, lines_out = []\<rparr>"

text \<open>\<open>print1\<close> (for \<open>True\<close>) and \<open>print2\<close>: each access to the counter is a step of its own.\<close>

definition print_step :: "bool \<Rightarrow> printer \<Rightarrow> printer option" where
  "print_step i s =
     (case pcs s i of
        Waiting \<Rightarrow> Some (s\<lparr>pcs := (pcs s)(i := if shared_count s < 10 then Tested else Done)\<rparr>)
      | Tested \<Rightarrow> Some (s\<lparr>pcs := (pcs s)(i := Printed), lines_out := lines_out s @ [(i, shared_count s)]\<rparr>)
      | Printed \<Rightarrow> Some (s\<lparr>pcs := (pcs s)(i := Read (shared_count s))\<rparr>)
      | Read v \<Rightarrow> Some (s\<lparr>pcs := (pcs s)(i := Waiting), shared_count := v + 1\<rparr>)
      | Done \<Rightarrow> None)"

inductive printer_reachable :: "printer \<Rightarrow> bool" where
  printer_start: "printer_reachable printer_new"
| printer_step: "printer_reachable s \<Longrightarrow> print_step i s = Some s' \<Longrightarrow> printer_reachable s'"

text \<open>What a handler may still do to the counter, given where the other is.\<close>

fun early :: "print_pc \<Rightarrow> bool" where
  "early Tested = True"
| "early Printed = True"
| "early pc = False"

fun pair_ok :: "int \<Rightarrow> print_pc \<Rightarrow> print_pc \<Rightarrow> bool" where
  "pair_ok c (Read v) (Read w) \<longleftrightarrow> v \<le> 9 \<and> w \<le> 9"
| "pair_ok c (Read v) pc \<longleftrightarrow> (if early pc then c \<le> 9 \<and> v \<le> 9 else v \<le> 10 \<and> (v \<le> 9 \<or> c \<ge> 10))"
| "pair_ok c pc pc' \<longleftrightarrow> (early pc \<longrightarrow> (if early pc' then c \<le> 9 else c \<le> 10))"

definition printer_ok :: "printer \<Rightarrow> bool" where
  "printer_ok s \<longleftrightarrow> shared_count s \<le> 11 \<and> (\<forall>i. pair_ok (shared_count s) (pcs s i) (pcs s (\<not> i)))
     \<and> (pcs s True = Done \<and> pcs s False = Done \<longrightarrow> shared_count s \<ge> 10)"

lemma print_step_ok:
  assumes "printer_ok s" and "print_step i s = Some s'"
  shows "printer_ok s'"
  using assms
  by (cases i; cases "pcs s True"; cases "pcs s False")
    (auto simp: printer_ok_def print_step_def all_bool_eq split: if_splits)

lemma printer_reachable_ok: "printer_reachable s \<Longrightarrow> printer_ok s"
proof (induction rule: printer_reachable.induct)
  case printer_start
  show ?case by (auto simp: printer_ok_def printer_new_def)
qed (rule print_step_ok)

text \<open>The two handlers stop with a counter of 10 or 11; with the strand that the class has and does not use it
  would be 10.\<close>

theorem two_timers_bounded:
  assumes "printer_reachable s"
  shows "shared_count s \<le> 11 \<and> (pcs s True = Done \<and> pcs s False = Done \<longrightarrow> shared_count s \<in> {10, 11})"
  using printer_reachable_ok [OF assms] by (auto simp: printer_ok_def)

text \<open>A schedule: which handler makes each step.\<close>

fun schedule :: "bool list \<Rightarrow> printer \<Rightarrow> printer option" where
  "schedule [] s = Some s"
| "schedule (i # is) s = Option.bind (print_step i s) (schedule is)"

lemma printer_schedule_reachable: "schedule is s = Some s' \<Longrightarrow> printer_reachable s \<Longrightarrow> printer_reachable s'"
  by (induction "is" arbitrary: s) (auto split: Option.bind_splits intro: printer_step)

text \<open>An increment is lost, and the counter ends with 11.\<close>

theorem two_timers_race:
  "\<exists>s. printer_reachable s \<and> shared_count s = 1 \<and> length (lines_out s) = 2"
  "\<exists>s. printer_reachable s \<and> shared_count s = 11"
proof -
  have "schedule [True, True, True, False, False, False, True, False] printer_new \<noteq> None
    \<and> shared_count (the (schedule [True, True, True, False, False, False, True, False] printer_new)) = 1
    \<and> length (lines_out (the (schedule [True, True, True, False, False, False, True, False] printer_new))) = 2"
    by (simp add: printer_new_def print_step_def)
  then show "\<exists>s. printer_reachable s \<and> shared_count s = 1 \<and> length (lines_out s) = 2"
    using printer_schedule_reachable printer_start by (metis option.exhaust_sel)
  have "schedule (concat (replicate 9 [True, True, True, True]) @ [True, True, False, False, True, True, False, False]) printer_new \<noteq> None
    \<and> shared_count (the (schedule (concat (replicate 9 [True, True, True, True]) @ [True, True, False, False, True, True, False, False]) printer_new)) = 11"
    by (simp add: printer_new_def print_step_def eval_nat_numeral)
  then show "\<exists>s. printer_reachable s \<and> shared_count s = 11"
    using printer_schedule_reachable printer_start by (metis option.exhaust_sel)
qed

end
