(* ===== verification/Gumball.thy ===== *)
theory Gumball
  imports Prelude "HOL-Library.Word"
begin

text \<open>
  \<open>head-first-design-patterns/10.state\<close>: the gumball machine, whose behaviour is that of its
  current state object. The pointer \<open>_state\<close> to one of the four state objects is a value of an
  enumeration, a virtual call a case distinction on it. \<open>_count\<close> is an \<open>unsigned\<close> of 32 bits.
\<close>

section \<open>State\<close>

datatype gum_state = Sold_out_state | No_quarter_state | Has_quarter_state | Sold_state

text \<open>
  \<open>gum_out\<close> is what the machine has printed; the other three fields are a history: the quarters it
  took and gave back, and the balls that left the slot.
\<close>

record gumball =
  gum_state :: gum_state
  gum_count :: "32 word"
  gum_out :: string
  quarters_taken :: nat
  quarters_returned :: nat
  balls_out :: nat

definition say :: "string \<Rightarrow> gumball \<Rightarrow> gumball" where
  "say line g = g\<lparr>gum_out := gum_out g @ line @ [CHR 0x0A]\<rparr>"

text \<open>The apostrophe of two messages, in the code page of the source.\<close>

definition quote_mark :: string where
  "quote_mark = [CHR 0xA1, CHR 0xAF]"

definition set_state :: "gum_state \<Rightarrow> gumball \<Rightarrow> gumball" where
  "set_state st g = g\<lparr>gum_state := st\<rparr>"

definition release_ball :: "gumball \<Rightarrow> gumball" where
  "release_ball g =
     (let g = say ''A gumball comes rolling out the slot...'' g
      in if gum_count g \<noteq> 0 then g\<lparr>gum_count := gum_count g - 1, balls_out := Suc (balls_out g)\<rparr> else g)"

section \<open>\<open>NoQuarterState\<close>\<close>

definition no_quarter_insert :: "gumball \<Rightarrow> gumball" where
  "no_quarter_insert g =
     set_state Has_quarter_state
       ((say ''You inserted a quarter'' g)\<lparr>quarters_taken := Suc (quarters_taken g)\<rparr>)"

definition no_quarter_eject :: "gumball \<Rightarrow> gumball" where
  "no_quarter_eject g = say (''You haven'' @ quote_mark @ ''t inserted a quarter'') g"

definition no_quarter_turn :: "gumball \<Rightarrow> gumball" where
  "no_quarter_turn g = say (''You turned, but there'' @ quote_mark @ ''s no quarter'') g"

definition no_quarter_dispense :: "gumball \<Rightarrow> gumball" where
  "no_quarter_dispense g = say ''You need to pay first'' g"

section \<open>\<open>SoldState\<close>\<close>

definition sold_insert :: "gumball \<Rightarrow> gumball" where
  "sold_insert g = say (''Please wait, we'' @ [CHR 0x27] @ ''re already giving you a gumball'') g"

definition sold_eject :: "gumball \<Rightarrow> gumball" where
  "sold_eject g = say ''Sorry, you already turned the crank'' g"

definition sold_turn :: "gumball \<Rightarrow> gumball" where
  "sold_turn g = say (''Turning twice doesn'' @ [CHR 0x27] @ ''t get you another gumball!'') g"

definition sold_dispense :: "gumball \<Rightarrow> gumball" where
  "sold_dispense g =
     (let g = release_ball g
      in if gum_count g > 0 then set_state No_quarter_state g
         else set_state Sold_out_state (say ''Oops, out of gumballs!'' g))"

section \<open>\<open>SoldOutState\<close>\<close>

definition sold_out_insert :: "gumball \<Rightarrow> gumball" where
  "sold_out_insert g = say (''You can'' @ [CHR 0x27] @ ''t insert a quarter, the machine is sold out'') g"

definition sold_out_eject :: "gumball \<Rightarrow> gumball" where
  "sold_out_eject g =
     say (''You can'' @ [CHR 0x27] @ ''t eject, you haven'' @ [CHR 0x27] @ ''t inserted a quarter yet'') g"

definition sold_out_turn :: "gumball \<Rightarrow> gumball" where
  "sold_out_turn g = say ''You turned, but there are no gumballs'' g"

definition sold_out_dispense :: "gumball \<Rightarrow> gumball" where
  "sold_out_dispense g = say ''No gumball dispensed'' g"

definition sold_out_refill :: "gumball \<Rightarrow> gumball" where
  "sold_out_refill g = set_state No_quarter_state g"

section \<open>\<open>HasQuarterState\<close>\<close>

definition has_quarter_insert :: "gumball \<Rightarrow> gumball" where
  "has_quarter_insert g = say (''You can'' @ quote_mark @ ''t insert another quarter'') g"

definition has_quarter_eject :: "gumball \<Rightarrow> gumball" where
  "has_quarter_eject g =
     set_state No_quarter_state ((say ''Quarter returned'' g)\<lparr>quarters_returned := Suc (quarters_returned g)\<rparr>)"

definition has_quarter_turn :: "gumball \<Rightarrow> gumball" where
  "has_quarter_turn g = set_state Sold_state (say ''You turned...'' g)"

definition has_quarter_dispense :: "gumball \<Rightarrow> gumball" where
  "has_quarter_dispense g = say ''No gumball dispensed'' g"

section \<open>\<open>GumballMachine\<close>\<close>

definition gum_initialize :: "32 word \<Rightarrow> gumball" where
  "gum_initialize balls =
     \<lparr>gum_state = (if balls > 0 then No_quarter_state else Sold_out_state), gum_count = balls, gum_out = [],
      quarters_taken = 0, quarters_returned = 0, balls_out = 0\<rparr>"

definition insert_quarter :: "gumball \<Rightarrow> gumball" where
  "insert_quarter g =
     (case gum_state g of
        No_quarter_state \<Rightarrow> no_quarter_insert g | Sold_state \<Rightarrow> sold_insert g
      | Sold_out_state \<Rightarrow> sold_out_insert g | Has_quarter_state \<Rightarrow> has_quarter_insert g)"

definition eject_quarter :: "gumball \<Rightarrow> gumball" where
  "eject_quarter g =
     (case gum_state g of
        No_quarter_state \<Rightarrow> no_quarter_eject g | Sold_state \<Rightarrow> sold_eject g
      | Sold_out_state \<Rightarrow> sold_out_eject g | Has_quarter_state \<Rightarrow> has_quarter_eject g)"

text \<open>The crank is turned in one state, and the gumball dispensed in the state that follows.\<close>

definition state_turn_crank :: "gumball \<Rightarrow> gumball" where
  "state_turn_crank g =
     (case gum_state g of
        No_quarter_state \<Rightarrow> no_quarter_turn g | Sold_state \<Rightarrow> sold_turn g
      | Sold_out_state \<Rightarrow> sold_out_turn g | Has_quarter_state \<Rightarrow> has_quarter_turn g)"

definition state_dispense :: "gumball \<Rightarrow> gumball" where
  "state_dispense g =
     (case gum_state g of
        No_quarter_state \<Rightarrow> no_quarter_dispense g | Sold_state \<Rightarrow> sold_dispense g
      | Sold_out_state \<Rightarrow> sold_out_dispense g | Has_quarter_state \<Rightarrow> has_quarter_dispense g)"

definition turn_crank :: "gumball \<Rightarrow> gumball" where
  "turn_crank g = state_dispense (state_turn_crank g)"

text \<open>Only the sold-out state does something when the machine is refilled.\<close>

definition gum_refill :: "32 word \<Rightarrow> gumball \<Rightarrow> gumball" where
  "gum_refill n g =
     (let g = g\<lparr>gum_count := gum_count g + n\<rparr>;
          g = say (''The gumball machine was just refilled; it'' @ [CHR 0x27] @ ''s new count is: ''
                @ decimal (unat (gum_count g))) g
      in if gum_state g = Sold_out_state then sold_out_refill g else g)"

fun state_to_string :: "gum_state \<Rightarrow> string" where
  "state_to_string No_quarter_state = ''waiting for quarter''"
| "state_to_string Sold_state = ''dispensing a gumball''"
| "state_to_string Sold_out_state = ''sold out''"
| "state_to_string Has_quarter_state = ''waiting for turn of crank''"

definition gum_to_string :: "gumball \<Rightarrow> string" where
  "gum_to_string g =
     CHR 0x0A # ''Mighty Gumball, Inc.'' @ CHR 0x0A # ''C++-enabled Standing Gumball Model #2004''
     @ CHR 0x0A # ''Inventory: '' @ decimal (unat (gum_count g)) @ '' gumball''
     @ (if gum_count g \<noteq> 1 then ''s'' else []) @ CHR 0x0A
     # ''Machine is '' @ state_to_string (gum_state g) @ [CHR 0x0A]"

text \<open>\<open>main\<close>; \<open>toString\<close> is printed as it is.\<close>

definition show_machine :: "gumball \<Rightarrow> gumball" where
  "show_machine g = g\<lparr>gum_out := gum_out g @ gum_to_string g\<rparr>"

definition gum_main :: gumball where
  "gum_main =
     show_machine (turn_crank (insert_quarter (gum_refill 5
       (turn_crank (insert_quarter (turn_crank (insert_quarter
         (show_machine (turn_crank (insert_quarter
           (show_machine (gum_initialize 2))))))))))))"

section \<open>Runs\<close>

datatype gum_op = Insert_quarter | Eject_quarter | Turn_crank | Refill "32 word"

fun gum_do :: "gum_op \<Rightarrow> gumball \<Rightarrow> gumball" where
  "gum_do Insert_quarter g = insert_quarter g"
| "gum_do Eject_quarter g = eject_quarter g"
| "gum_do Turn_crank g = turn_crank g"
| "gum_do (Refill n) g = gum_refill n g"

definition gum_run :: "gum_op list \<Rightarrow> gumball \<Rightarrow> gumball" where
  "gum_run ops g = fold gum_do ops g"

text \<open>Every refill adds something, and the count does not wrap around.\<close>

fun refills_ok :: "gum_op list \<Rightarrow> gumball \<Rightarrow> bool" where
  "refills_ok [] g = True"
| "refills_ok (op # ops) g \<longleftrightarrow>
     (case op of Refill n \<Rightarrow> n > 0 \<and> unat (gum_count g) + unat n < 2 ^ 32 | _ \<Rightarrow> True)
     \<and> refills_ok ops (gum_do op g)"

definition refilled :: "gum_op list \<Rightarrow> nat" where
  "refilled ops = sum_list (List.map (\<lambda>op. case op of Refill n \<Rightarrow> unat n | _ \<Rightarrow> 0) ops)"

lemmas gum_defs = say_def set_state_def release_ball_def no_quarter_insert_def no_quarter_eject_def
  no_quarter_turn_def no_quarter_dispense_def sold_dispense_def sold_out_insert_def sold_out_eject_def
  sold_out_turn_def sold_out_dispense_def sold_out_refill_def has_quarter_insert_def has_quarter_eject_def
  has_quarter_turn_def has_quarter_dispense_def insert_quarter_def eject_quarter_def state_turn_crank_def
  state_dispense_def turn_crank_def gum_refill_def

definition gum_inv :: "nat \<Rightarrow> gumball \<Rightarrow> bool" where
  "gum_inv stock g \<longleftrightarrow>
     gum_state g \<noteq> Sold_state
   \<and> (gum_state g = Sold_out_state \<longleftrightarrow> gum_count g = 0)
   \<and> quarters_taken g = quarters_returned g + balls_out g + (if gum_state g = Has_quarter_state then 1 else 0)
   \<and> stock = unat (gum_count g) + balls_out g"

lemma gum_op_inv:
  assumes "gum_inv stock g"
    and "case op of Refill n \<Rightarrow> n > 0 \<and> unat (gum_count g) + unat n < 2 ^ 32 | _ \<Rightarrow> True"
  shows "gum_inv (stock + (case op of Refill n \<Rightarrow> unat n | _ \<Rightarrow> 0)) (gum_do op g)"
proof (cases op)
  case Insert_quarter
  then show ?thesis using assms by (cases "gum_state g") (auto simp: gum_inv_def gum_defs)
next
  case Eject_quarter
  then show ?thesis using assms by (cases "gum_state g") (auto simp: gum_inv_def gum_defs)
next
  case Turn_crank
  have dec: "unat (gum_count g - 1) = unat (gum_count g) - 1" if "gum_count g \<noteq> 0"
    using that by (simp add: unat_minus_one)
  show ?thesis
  proof (cases "gum_state g = Has_quarter_state")
    case True
    then have nz: "gum_count g \<noteq> 0" using assms(1) by (auto simp: gum_inv_def)
    then have "0 < unat (gum_count g)" by (simp add: unat_gt_0)
    then show ?thesis
      using True nz assms(1) dec [OF nz] Turn_crank
      by (auto simp: gum_inv_def gum_defs Let_def word_gt_0)
  next
    case False
    then show ?thesis
      using assms Turn_crank by (cases "gum_state g") (auto simp: gum_inv_def gum_defs)
  qed
next
  case (Refill n)
  then have n: "n > 0" "unat (gum_count g) + unat n < 2 ^ 32" using assms(2) by simp_all
  then have sum: "unat (gum_count g + n) = unat (gum_count g) + unat n" by (simp add: unat_word_ariths)
  have "0 < unat n" using n(1) by (simp add: word_gt_0 unat_gt_0)
  then have "gum_count g + n \<noteq> 0" using sum by (metis add_is_0 less_not_refl2 unsigned_0)
  then show ?thesis
    using assms(1) sum Refill by (cases "gum_state g") (auto simp: gum_inv_def gum_defs Let_def)
qed

lemma gum_run_inv: "gum_inv stock g \<Longrightarrow> refills_ok ops g \<Longrightarrow> gum_inv (stock + refilled ops) (gum_run ops g)"
proof (induction ops arbitrary: stock g)
  case (Cons op ops)
  from gum_op_inv [OF Cons.prems(1), of op] Cons.prems(2) Cons.IH show ?case
    by (simp add: gum_run_def refilled_def add.assoc [symmetric])
qed (simp add: gum_run_def refilled_def)

text \<open>
  A refill with nothing puts a machine that is sold out back into business: it takes the quarter,
  and the balls that leave the slot are none.
\<close>

lemma refill_nothing:
  "gum_state (gum_refill 0 (gum_initialize 0)) = No_quarter_state"
  "let g = gum_run [Refill 0, Insert_quarter, Turn_crank] (gum_initialize 0)
   in quarters_taken g = 1 \<and> quarters_returned g = 0 \<and> balls_out g = 0"
  by (simp_all add: gum_run_def gum_initialize_def gum_defs Let_def)

section \<open>Properties\<close>

text \<open>
  C20. Between operations the gumball machine is never dispensing and is sold out exactly when it
  has no balls; every quarter it took was given back, or is in the slot, or paid for a ball that
  came out; and no ball is lost. This holds for every sequence of operations in which a refill adds
  at least one ball and does not overflow the counter.
\<close>

theorem gumball_fair:
  assumes "refills_ok ops (gum_initialize n)"
  defines "g \<equiv> gum_run ops (gum_initialize n)"
  shows "gum_state g \<noteq> Sold_state
    \<and> (gum_state g = Sold_out_state \<longleftrightarrow> gum_count g = 0)
    \<and> quarters_taken g = quarters_returned g + balls_out g + (if gum_state g = Has_quarter_state then 1 else 0)
    \<and> unat n + refilled ops = unat (gum_count g) + balls_out g"
proof -
  have "gum_inv (unat n) (gum_initialize n)"
    by (simp add: gum_inv_def gum_initialize_def word_gt_0)
  from gum_run_inv [OF this assms(1)] show ?thesis by (simp add: gum_inv_def g_def)
qed

theorem gumball_fair_witness:
  "let g = gum_run [Insert_quarter, Turn_crank, Refill 5, Insert_quarter, Eject_quarter] (gum_initialize 1)
   in gum_state g \<noteq> Sold_state \<and> (gum_state g = Sold_out_state \<longleftrightarrow> gum_count g = 0)"
  using gumball_fair [of "[Insert_quarter, Turn_crank, Refill 5, Insert_quarter, Eject_quarter]" 1]
  by (simp add: gum_initialize_def gum_defs Let_def)

end
