(* ===== verification/Remote_Control.thy ===== *)
theory Remote_Control
  imports Prelude Node_Heap
begin

text \<open>
  \<open>head-first-design-patterns/06.command/06.command.cpp\<close>: the devices of a home, commands that hold
  shared pointers to them, and the remote control that holds shared pointers to commands. Two
  commands can share a device, so devices live in a store; a command has no state besides its
  pointer and is a value. \<open>06.command_with_bind\<close> has the same remote control over \<open>std::function\<close>.
\<close>

section \<open>Devices\<close>

definition endl :: string where
  "endl = [CHR 0x0A]"

record light =
  light_location :: string

definition light_on :: "light \<Rightarrow> string" where
  "light_on l = light_location l @ '' light is on'' @ endl"

definition light_off :: "light \<Rightarrow> string" where
  "light_off l = light_location l @ '' light is off'' @ endl"

datatype level = OFF | LOW | MEDIUM | HIGH

record ceiling_fan =
  fan_location :: string
  fan_level :: level

text \<open>The constructor does not set the level.\<close>

definition ceiling_fan_new :: "level \<Rightarrow> string \<Rightarrow> ceiling_fan" where
  "ceiling_fan_new garbage location = \<lparr>fan_location = location, fan_level = garbage\<rparr>"

definition fan_high :: "ceiling_fan \<Rightarrow> ceiling_fan \<times> string" where
  "fan_high f = (f\<lparr>fan_level := HIGH\<rparr>, fan_location f @ '' ceiling fan is on high'' @ endl)"

definition fan_medium :: "ceiling_fan \<Rightarrow> ceiling_fan \<times> string" where
  "fan_medium f = (f\<lparr>fan_level := MEDIUM\<rparr>, fan_location f @ '' ceiling fan is on medium'' @ endl)"

definition fan_low :: "ceiling_fan \<Rightarrow> ceiling_fan \<times> string" where
  "fan_low f = (f\<lparr>fan_level := LOW\<rparr>, fan_location f @ '' ceiling fan is on low'' @ endl)"

definition fan_off :: "ceiling_fan \<Rightarrow> ceiling_fan \<times> string" where
  "fan_off f = (f\<lparr>fan_level := OFF\<rparr>, fan_location f @ '' ceiling fan is off'' @ endl)"

definition get_speed :: "ceiling_fan \<Rightarrow> int" where
  "get_speed f = (case fan_level f of OFF \<Rightarrow> 0 | LOW \<Rightarrow> 1 | MEDIUM \<Rightarrow> 2 | HIGH \<Rightarrow> 3)"

record garage_door =
  door_location :: string

definition door_up :: "garage_door \<Rightarrow> string" where
  "door_up d = door_location d @ '' garage Door is Up'' @ endl"

definition door_down :: "garage_door \<Rightarrow> string" where
  "door_down d = door_location d @ '' garage Door is Down'' @ endl"

definition door_stop :: "garage_door \<Rightarrow> string" where
  "door_stop d = door_location d @ '' garage Door is Stopped'' @ endl"

definition door_light_on :: "garage_door \<Rightarrow> string" where
  "door_light_on d = door_location d @ '' garage light is on'' @ endl"

definition door_light_off :: "garage_door \<Rightarrow> string" where
  "door_light_off d = door_location d @ '' garage light is off'' @ endl"

record hottub =
  tub_on :: bool
  tub_temperature :: int

definition hottub_new :: "bool \<Rightarrow> int \<Rightarrow> hottub" where
  "hottub_new garbage_on garbage_temperature = \<lparr>tub_on = garbage_on, tub_temperature = garbage_temperature\<rparr>"

definition hottub_on :: "hottub \<Rightarrow> hottub" where
  "hottub_on t = t\<lparr>tub_on := True\<rparr>"

definition hottub_off :: "hottub \<Rightarrow> hottub" where
  "hottub_off t = t\<lparr>tub_on := False\<rparr>"

definition bubbles_on :: "hottub \<Rightarrow> string" where
  "bubbles_on t = (if tub_on t then ''Hottub is bubbling!'' @ endl else [])"

definition bubbles_off :: "hottub \<Rightarrow> string" where
  "bubbles_off t = (if tub_on t then ''Hottub is not bubbling'' @ endl else [])"

definition jets_on :: "hottub \<Rightarrow> string" where
  "jets_on t = (if tub_on t then ''Hottub jets are on'' @ endl else [])"

definition jets_off :: "hottub \<Rightarrow> string" where
  "jets_off t = (if tub_on t then ''Hottub jets are off'' @ endl else [])"

definition set_temperature :: "int \<Rightarrow> hottub \<Rightarrow> hottub" where
  "set_temperature n t = t\<lparr>tub_temperature := n\<rparr>"

definition hottub_heat :: "hottub \<Rightarrow> hottub \<times> string" where
  "hottub_heat t = (t\<lparr>tub_temperature := 105\<rparr>, ''Hottub is heating to a steaming 105 degrees'' @ endl)"

definition hottub_cool :: "hottub \<Rightarrow> hottub \<times> string" where
  "hottub_cool t = (t\<lparr>tub_temperature := 98\<rparr>, ''Hottub is cooling to 98 degrees'' @ endl)"

record stereo =
  stereo_location :: string

definition stereo_on :: "stereo \<Rightarrow> string" where
  "stereo_on r = stereo_location r @ '' stereo is on'' @ endl"

definition stereo_off :: "stereo \<Rightarrow> string" where
  "stereo_off r = stereo_location r @ '' stereo is off'' @ endl"

definition set_cd :: "stereo \<Rightarrow> string" where
  "set_cd r = stereo_location r @ '' stereo is set for CD input'' @ endl"

definition set_dvd :: "stereo \<Rightarrow> string" where
  "set_dvd r = stereo_location r @ '' stereo is set for DVD input'' @ endl"

definition set_radio :: "stereo \<Rightarrow> string" where
  "set_radio r = stereo_location r @ '' stereo is set for Radio'' @ endl"

definition print_int :: "int \<Rightarrow> string" where
  "print_int n = (if n < 0 then CHR ''-'' # decimal (nat (- n)) else decimal (nat n))"

definition set_volume :: "int \<Rightarrow> stereo \<Rightarrow> string" where
  "set_volume volume r = stereo_location r @ '' Stereo volume set to '' @ print_int volume @ endl"

record tv =
  tv_location :: string
  tv_channel :: int

definition tv_on :: "tv \<Rightarrow> string" where
  "tv_on t = ''TV is on'' @ endl"

definition tv_off :: "tv \<Rightarrow> string" where
  "tv_off t = ''TV is off'' @ endl"

definition set_input_channel :: "tv \<Rightarrow> tv \<times> string" where
  "set_input_channel t = (t\<lparr>tv_channel := 3\<rparr>, ''Channel is set for VCR'' @ endl)"

section \<open>The home\<close>

text \<open>The devices by address, and what \<open>std::cout\<close> has received.\<close>

record home =
  lights :: "nat \<Rightarrow> light"
  fans :: "nat \<Rightarrow> ceiling_fan"
  doors :: "nat \<Rightarrow> garage_door"
  tubs :: "nat \<Rightarrow> hottub"
  stereos :: "nat \<Rightarrow> stereo"
  cout :: string

definition put :: "string \<Rightarrow> home \<Rightarrow> home" where
  "put out h = h\<lparr>cout := cout h @ out\<rparr>"

section \<open>Commands\<close>

datatype command =
    No_command
  | Light_on_command "nat option"
  | Light_off_command "nat option"
  | Ceiling_fan_on_command "nat option"
  | Ceiling_fan_off_command "nat option"
  | Garage_door_up_command "nat option"
  | Garage_door_down_command "nat option"
  | Hottub_on_command "nat option"
  | Hottub_off_command "nat option"

definition execute_light_on :: "nat option \<Rightarrow> home \<Rightarrow> home outcome" where
  "execute_light_on p h = Returns (case p of None \<Rightarrow> h | Some a \<Rightarrow> put (light_on (lights h a)) h)"

definition execute_light_off :: "nat option \<Rightarrow> home \<Rightarrow> home outcome" where
  "execute_light_off p h = Returns (case p of None \<Rightarrow> h | Some a \<Rightarrow> put (light_off (lights h a)) h)"

text \<open>The other commands do not test their pointer.\<close>

definition execute_fan_on :: "nat option \<Rightarrow> home \<Rightarrow> home outcome" where
  "execute_fan_on p h =
     (case p of None \<Rightarrow> Undefined
      | Some a \<Rightarrow> let (f, out) = fan_high (fans h a) in Returns (put out (h\<lparr>fans := (fans h)(a := f)\<rparr>)))"

definition execute_fan_off :: "nat option \<Rightarrow> home \<Rightarrow> home outcome" where
  "execute_fan_off p h =
     (case p of None \<Rightarrow> Undefined
      | Some a \<Rightarrow> let (f, out) = fan_off (fans h a) in Returns (put out (h\<lparr>fans := (fans h)(a := f)\<rparr>)))"

definition execute_door_up :: "nat option \<Rightarrow> home \<Rightarrow> home outcome" where
  "execute_door_up p h = (case p of None \<Rightarrow> Undefined | Some a \<Rightarrow> Returns (put (door_up (doors h a)) h))"

definition execute_door_down :: "nat option \<Rightarrow> home \<Rightarrow> home outcome" where
  "execute_door_down p h = (case p of None \<Rightarrow> Undefined | Some a \<Rightarrow> Returns (put (door_down (doors h a)) h))"

definition execute_hottub_on :: "nat option \<Rightarrow> home \<Rightarrow> home outcome" where
  "execute_hottub_on p h =
     (case p of None \<Rightarrow> Undefined
      | Some a \<Rightarrow>
          let t = hottub_on (tubs h a); (t, heating) = hottub_heat t
          in Returns (put (heating @ bubbles_on t) (h\<lparr>tubs := (tubs h)(a := t)\<rparr>)))"

definition execute_hottub_off :: "nat option \<Rightarrow> home \<Rightarrow> home outcome" where
  "execute_hottub_off p h =
     (case p of None \<Rightarrow> Undefined
      | Some a \<Rightarrow> Returns (h\<lparr>tubs := (tubs h)(a := hottub_off (tubs h a))\<rparr>))"

fun execute :: "command \<Rightarrow> home \<Rightarrow> home outcome" where
  "execute No_command h = Returns h"
| "execute (Light_on_command p) h = execute_light_on p h"
| "execute (Light_off_command p) h = execute_light_off p h"
| "execute (Ceiling_fan_on_command p) h = execute_fan_on p h"
| "execute (Ceiling_fan_off_command p) h = execute_fan_off p h"
| "execute (Garage_door_up_command p) h = execute_door_up p h"
| "execute (Garage_door_down_command p) h = execute_door_down p h"
| "execute (Hottub_on_command p) h = execute_hottub_on p h"
| "execute (Hottub_off_command p) h = execute_hottub_off p h"

section \<open>\<open>SimpleRemocon\<close>\<close>

type_synonym simple_remocon = "command option"

definition remocon_new :: simple_remocon where
  "remocon_new = None"

text \<open>The pointer is moved: the caller's becomes null.\<close>

definition remocon_set_command :: "command option \<Rightarrow> simple_remocon \<Rightarrow> command option \<times> simple_remocon" where
  "remocon_set_command c r = (None, c)"

definition button_was_pressed :: "simple_remocon \<Rightarrow> home \<Rightarrow> home outcome" where
  "button_was_pressed r h = (case r of None \<Rightarrow> Returns h | Some c \<Rightarrow> execute c h)"

section \<open>\<open>RemoteControl\<close>\<close>

record 'c remote =
  on_commands :: "'c option list"
  off_commands :: "'c option list"

definition remote_new :: "'c remote" where
  "remote_new = \<lparr>on_commands = replicate 7 None, off_commands = replicate 7 None\<rparr>"

definition set_command :: "nat \<Rightarrow> 'c option \<Rightarrow> 'c option \<Rightarrow> 'c remote \<Rightarrow> 'c remote" where
  "set_command slot on off r =
     (if slot \<ge> length (on_commands r) then r
      else r\<lparr>on_commands := (on_commands r)[slot := on], off_commands := (off_commands r)[slot := off]\<rparr>)"

definition on_button_was_pushed :: "nat \<Rightarrow> command remote \<Rightarrow> home \<Rightarrow> home outcome" where
  "on_button_was_pushed slot r h =
     (if slot \<ge> length (on_commands r) \<or> on_commands r ! slot = None then Returns h
      else execute (the (on_commands r ! slot)) h)"

text \<open>The test is on the other vector, so the pointer that is followed may be null.\<close>

definition off_button_was_pushed :: "nat \<Rightarrow> command remote \<Rightarrow> home \<Rightarrow> home outcome" where
  "off_button_was_pushed slot r h =
     (if slot \<ge> length (on_commands r) \<or> on_commands r ! slot = None then Returns h
      else case off_commands r ! slot of None \<Rightarrow> Undefined | Some c \<Rightarrow> execute c h)"

text \<open>The names of types are the implementation's: a parameter.\<close>

fun slot_lines :: "(command \<Rightarrow> string) \<Rightarrow> nat \<Rightarrow> (command option \<times> command option) list \<Rightarrow> string outcome" where
  "slot_lines type_name i [] = Returns []"
| "slot_lines type_name i ((None, off) # cs) = slot_lines type_name (Suc i) cs"
| "slot_lines type_name i ((Some c, None) # cs) = Undefined"
| "slot_lines type_name i ((Some c, Some d) # cs) =
     and_then (slot_lines type_name (Suc i) cs) (\<lambda>rest.
       Returns (''[slot '' @ decimal i @ ''] '' @ type_name c @ ''    '' @ type_name d @ endl @ rest))"

definition remote_to_string :: "(command \<Rightarrow> string) \<Rightarrow> command remote \<Rightarrow> string outcome" where
  "remote_to_string type_name r =
     and_then (slot_lines type_name 0 (zip (on_commands r) (off_commands r))) (\<lambda>ls.
       Returns (CHR 0x0A # ''------ Remote Control -------'' @ endl @ ls))"

section \<open>\<open>main\<close>\<close>

text \<open>Lights 0 and 1 are those of the living room and the kitchen.\<close>

definition home_new :: "level \<Rightarrow> bool \<Rightarrow> int \<Rightarrow> home" where
  "home_new garbage_level garbage_on garbage_temperature =
     \<lparr>lights = (\<lambda>a. \<lparr>light_location = (if a = 0 then ''Living Room'' else ''Kitchen'')\<rparr>),
      fans = (\<lambda>_. ceiling_fan_new garbage_level ''Living Room''),
      doors = (\<lambda>_. \<lparr>door_location = ''Main house''\<rparr>),
      tubs = (\<lambda>_. hottub_new garbage_on garbage_temperature),
      stereos = (\<lambda>_. \<lparr>stereo_location = ''Living Room''\<rparr>), cout = []\<rparr>"

definition main_remote :: "command remote" where
  "main_remote =
     set_command 4 (Some (Garage_door_up_command (Some 0))) (Some (Garage_door_down_command (Some 0)))
       (set_command 2 (Some (Ceiling_fan_on_command (Some 0))) (Some (Ceiling_fan_off_command (Some 0)))
         (set_command 1 (Some (Light_on_command (Some 1))) (Some (Light_off_command (Some 1)))
           (set_command 0 (Some (Light_on_command (Some 0))) (Some (Light_off_command (Some 0)))
             remote_new)))"

fun push_buttons :: "nat list \<Rightarrow> command remote \<Rightarrow> home \<Rightarrow> home outcome" where
  "push_buttons [] r h = Returns h"
| "push_buttons (slot # slots) r h =
     and_then (on_button_was_pushed slot r h) (\<lambda>h.
     and_then (off_button_was_pushed slot r h) (\<lambda>h. push_buttons slots r h))"

definition command_main :: "(command \<Rightarrow> string) \<Rightarrow> home \<Rightarrow> home outcome" where
  "command_main type_name h =
     and_then (remote_to_string type_name main_remote) (\<lambda>str.
     and_then (push_buttons [0, 1, 2, 3, 4] main_remote (put (str @ endl @ ''Controlling...'' @ endl) h)) (\<lambda>h.
     on_button_was_pushed 5 main_remote h))"

section \<open>The remote control over \<open>std::function\<close>\<close>

text \<open>A command is a function on the home; a call of an empty \<open>std::function\<close> throws.\<close>

datatype 'r throwing = Done 'r | Bad_function_call

definition bind_set_command :: "nat \<Rightarrow> 'c option \<Rightarrow> 'c option \<Rightarrow> 'c remote \<Rightarrow> 'c remote" where
  "bind_set_command slot on off r =
     (if slot \<ge> length (on_commands r) then r
      else r\<lparr>on_commands := (on_commands r)[slot := on], off_commands := (off_commands r)[slot := off]\<rparr>)"

definition call_function :: "(home \<Rightarrow> home) option \<Rightarrow> home \<Rightarrow> home throwing" where
  "call_function f h = (case f of None \<Rightarrow> Bad_function_call | Some g \<Rightarrow> Done (g h))"

definition bind_on_button :: "nat \<Rightarrow> (home \<Rightarrow> home) remote \<Rightarrow> home \<Rightarrow> home throwing" where
  "bind_on_button slot r h =
     (if slot \<ge> length (on_commands r) \<or> on_commands r ! slot = None then Done h
      else call_function (on_commands r ! slot) h)"

definition bind_off_button :: "nat \<Rightarrow> (home \<Rightarrow> home) remote \<Rightarrow> home \<Rightarrow> home throwing" where
  "bind_off_button slot r h =
     (if slot \<ge> length (on_commands r) \<or> on_commands r ! slot = None then Done h
      else call_function (off_commands r ! slot) h)"

text \<open>The bound member functions of \<open>main\<close>, and its lambda for the stereo.\<close>

definition bind_light_on :: "nat \<Rightarrow> home \<Rightarrow> home" where
  "bind_light_on a h = put (light_on (lights h a)) h"

definition bind_light_off :: "nat \<Rightarrow> home \<Rightarrow> home" where
  "bind_light_off a h = put (light_off (lights h a)) h"

definition bind_fan_high :: "nat \<Rightarrow> home \<Rightarrow> home" where
  "bind_fan_high a h = (let (f, out) = fan_high (fans h a) in put out (h\<lparr>fans := (fans h)(a := f)\<rparr>))"

definition bind_fan_off :: "nat \<Rightarrow> home \<Rightarrow> home" where
  "bind_fan_off a h = (let (f, out) = fan_off (fans h a) in put out (h\<lparr>fans := (fans h)(a := f)\<rparr>))"

definition stereo_on_with_cd :: "nat \<Rightarrow> home \<Rightarrow> home" where
  "stereo_on_with_cd a h =
     put (set_volume 11 (stereos h a)) (put (set_cd (stereos h a)) (put (stereo_on (stereos h a)) h))"

definition bind_main_remote :: "(home \<Rightarrow> home) remote" where
  "bind_main_remote =
     bind_set_command 4 (Some (\<lambda>h. put (door_up (doors h 0)) h)) (Some (\<lambda>h. put (door_down (doors h 0)) h))
       (bind_set_command 3 (Some (stereo_on_with_cd 0)) (Some (\<lambda>h. put (stereo_off (stereos h 0)) h))
         (bind_set_command 2 (Some (bind_fan_high 0)) (Some (bind_fan_off 0))
           (bind_set_command 1 (Some (bind_light_on 1)) (Some (bind_light_off 1))
             (bind_set_command 0 (Some (bind_light_on 0)) (Some (bind_light_off 0)) remote_new))))"

fun bind_slot_lines :: "('c option \<Rightarrow> string) \<Rightarrow> nat \<Rightarrow> ('c option \<times> 'c option) list \<Rightarrow> string" where
  "bind_slot_lines type_name i [] = []"
| "bind_slot_lines type_name i ((on, off) # cs) =
     (if on \<noteq> None
      then ''[slot '' @ decimal i @ ''] '' @ type_name on @ ''    '' @ type_name off @ endl
      else []) @ bind_slot_lines type_name (Suc i) cs"

definition bind_to_string :: "('c option \<Rightarrow> string) \<Rightarrow> 'c remote \<Rightarrow> string" where
  "bind_to_string type_name r =
     CHR 0x0A # ''------ Remote Control -------'' @ endl
     @ bind_slot_lines type_name 0 (zip (on_commands r) (off_commands r))
     @ CHR 0x0A # ''-----------------------------'' @ endl"

fun bind_push_buttons :: "nat list \<Rightarrow> (home \<Rightarrow> home) remote \<Rightarrow> home \<Rightarrow> home throwing" where
  "bind_push_buttons [] r h = bind_on_button 5 r h"
| "bind_push_buttons (slot # slots) r h =
     (case bind_on_button slot r h of
        Bad_function_call \<Rightarrow> Bad_function_call
      | Done h \<Rightarrow> (case bind_off_button slot r h of
          Bad_function_call \<Rightarrow> Bad_function_call
        | Done h \<Rightarrow> bind_push_buttons slots r h))"

definition bind_main :: "((home \<Rightarrow> home) option \<Rightarrow> string) \<Rightarrow> home \<Rightarrow> home throwing" where
  "bind_main type_name h =
     bind_push_buttons [0, 1, 2, 3, 4] bind_main_remote (put (bind_to_string type_name bind_main_remote) h)"

section \<open>Slots\<close>

text \<open>What a sequence of \<open>setCommand\<close> calls leaves in the slots: the last pair for each, and nothing
  outside the seven.\<close>

definition set_all :: "(nat \<times> 'c option \<times> 'c option) list \<Rightarrow> 'c remote \<Rightarrow> 'c remote" where
  "set_all calls r = fold (\<lambda>(slot, on, off). set_command slot on off) calls r"

definition bind_set_all :: "(nat \<times> 'c option \<times> 'c option) list \<Rightarrow> 'c remote \<Rightarrow> 'c remote" where
  "bind_set_all calls r = fold (\<lambda>(slot, on, off). bind_set_command slot on off) calls r"

definition assigned :: "(nat \<times> 'c option \<times> 'c option) list \<Rightarrow> nat \<Rightarrow> 'c option \<times> 'c option" where
  "assigned calls = fold (\<lambda>(slot, on, off) f. if slot < 7 then f(slot := (on, off)) else f) calls (\<lambda>_. (None, None))"

definition slots :: "'c remote \<Rightarrow> (nat \<Rightarrow> 'c option \<times> 'c option) \<Rightarrow> bool" where
  "slots r f \<longleftrightarrow> length (on_commands r) = 7 \<and> length (off_commands r) = 7
     \<and> (\<forall>i<7. f i = (on_commands r ! i, off_commands r ! i)) \<and> (\<forall>i\<ge>7. f i = (None, None))"

lemma slots_set:
  "slots r f \<Longrightarrow> slots (set_command slot on off r) (if slot < 7 then f(slot := (on, off)) else f)"
  by (auto simp: slots_def set_command_def nth_list_update)

lemma slots_fold:
  "slots r f \<Longrightarrow> slots (fold (\<lambda>(slot, on, off). set_command slot on off) calls r)
     (fold (\<lambda>(slot, on, off) f. if slot < 7 then f(slot := (on, off)) else f) calls f)"
proof (induction calls arbitrary: r f)
  case (Cons c calls)
  obtain slot on off where c: "c = (slot, on, off)" by (cases c)
  show ?case using Cons.IH [OF slots_set [OF Cons.prems, of slot on off]] by (simp add: c)
qed simp

lemma slots_set_all: "slots (set_all calls remote_new) (assigned calls)"
  unfolding set_all_def assigned_def by (rule slots_fold) (simp add: slots_def remote_new_def)

lemma bind_set_command_eq: "bind_set_command = set_command"
  by (intro ext) (simp add: bind_set_command_def set_command_def)

lemma bind_set_all_eq: "bind_set_all calls r = set_all calls r"
  by (simp add: bind_set_all_def set_all_def bind_set_command_eq)

lemma slots_outside: "slots r f \<Longrightarrow> 7 \<le> slot \<Longrightarrow> f slot = (None, None)"
  by (simp add: slots_def)

section \<open>Properties\<close>

text \<open>
  The buttons do what the last \<open>setCommand\<close> for their slot says, whatever the sequence of
  calls, and nothing for a slot that does not exist or has no on-command. A slot with an on-command
  and no off-command is different: its off-button follows a null pointer, or throws in the variant
  over \<open>std::function\<close>.
\<close>

theorem remote_buttons:
  fixes calls :: "(nat \<times> command option \<times> command option) list"
    and bcalls :: "(nat \<times> (home \<Rightarrow> home) option \<times> (home \<Rightarrow> home) option) list"
  shows "on_button_was_pushed slot (set_all calls remote_new) h =
      (case assigned calls slot of (None, _) \<Rightarrow> Returns h | (Some c, _) \<Rightarrow> execute c h)
    \<and> off_button_was_pushed slot (set_all calls remote_new) h =
      (case assigned calls slot of
         (None, _) \<Rightarrow> Returns h | (Some c, Some d) \<Rightarrow> execute d h | (Some c, None) \<Rightarrow> Undefined)
    \<and> bind_on_button slot (bind_set_all bcalls remote_new) h =
      (case assigned bcalls slot of (None, _) \<Rightarrow> Done h | (Some f, _) \<Rightarrow> Done (f h))
    \<and> bind_off_button slot (bind_set_all bcalls remote_new) h =
      (case assigned bcalls slot of
         (None, _) \<Rightarrow> Done h | (Some f, Some g) \<Rightarrow> Done (g h) | (Some f, None) \<Rightarrow> Bad_function_call)"
proof -
  note a = slots_set_all [of calls] slots_set_all [of bcalls]
  show ?thesis
  proof (cases "slot < 7")
    case True
    then show ?thesis
      using a unfolding slots_def bind_set_all_eq
      by (auto simp: on_button_was_pushed_def off_button_was_pushed_def bind_on_button_def bind_off_button_def
          call_function_def split: option.splits)
  next
    case False
    then have "assigned calls slot = (None, None)" "assigned bcalls slot = (None, None)"
      using a slots_outside by (simp_all add: not_less)
    then show ?thesis
      using a False unfolding slots_def bind_set_all_eq
      by (simp add: on_button_was_pushed_def off_button_was_pushed_def bind_on_button_def bind_off_button_def)
  qed
qed

end
