(* ===== verification/Weather.thy ===== *)
theory Weather
  imports Complex_Main Node_Heap
begin

text \<open>
  The observer pattern (\<open>head-first-design-patterns/02.observer/02.observer.cpp\<close>). A display registers itself
  in its constructor through a pointer that does not own it (its deleter does nothing), so the list of the
  subject may point to displays that have been destroyed; using one is \<open>Undefined\<close>.
\<close>

section \<open>Displays\<close>

text \<open>Arithmetic and comparison of \<open>float\<close> are the machine's.\<close>

record 'f float_ops =
  fadd :: "'f \<Rightarrow> 'f \<Rightarrow> 'f"
  fdiv :: "'f \<Rightarrow> int \<Rightarrow> 'f"
  fgreater :: "'f \<Rightarrow> 'f \<Rightarrow> bool"
  fequal :: "'f \<Rightarrow> 'f \<Rightarrow> bool"
  fconst :: "rat \<Rightarrow> 'f"

text \<open>Temperature, humidity and pressure.\<close>

type_synonym 'f measurement = "'f \<times> 'f \<times> 'f"

datatype 'f display =
    Current_condition 'f 'f
  | Statistics 'f 'f 'f int
  | Forecast 'f 'f

datatype 'f shown = Conditions 'f 'f | Avg_max_min 'f 'f 'f | Improving | More_of_the_same | Cooler_rainy | No_forecast

text \<open>Members without an initialiser hold what the memory held.\<close>

definition current_condition_display :: "'f \<Rightarrow> 'f \<Rightarrow> 'f display" where
  "current_condition_display garbage1 garbage2 = Current_condition garbage1 garbage2"

definition statistics_display :: "'f float_ops \<Rightarrow> int \<Rightarrow> 'f display" where
  "statistics_display F garbage = Statistics (fconst F 0) (fconst F 200) (fconst F 0) garbage"

definition forecast_display :: "'f float_ops \<Rightarrow> 'f \<Rightarrow> 'f display" where
  "forecast_display F garbage = Forecast (fconst F (2992 / 100)) garbage"

definition show_statistics :: "'f float_ops \<Rightarrow> 'f \<Rightarrow> 'f \<Rightarrow> 'f \<Rightarrow> int \<Rightarrow> 'f shown" where
  "show_statistics F mx mn acc n = Avg_max_min (fdiv F acc n) mx mn"

definition show_forecast :: "'f float_ops \<Rightarrow> 'f \<Rightarrow> 'f \<Rightarrow> 'f shown" where
  "show_forecast F current last_pressure =
     (if fgreater F current last_pressure then Improving
      else if fequal F current last_pressure then More_of_the_same
      else if fgreater F last_pressure current then Cooler_rainy
      else No_forecast)"

fun show_display :: "'f float_ops \<Rightarrow> 'f display \<Rightarrow> 'f shown" where
  "show_display F (Current_condition t h) = Conditions t h"
| "show_display F (Statistics mx mn acc n) = show_statistics F mx mn acc n"
| "show_display F (Forecast current last_pressure) = show_forecast F current last_pressure"

text \<open>The counter of readings is an \<open>int\<close>, whose overflow is undefined.\<close>

definition update_statistics :: "'f float_ops \<Rightarrow> 'f \<Rightarrow> 'f \<Rightarrow> 'f \<Rightarrow> 'f \<Rightarrow> int \<Rightarrow> 'f display outcome" where
  "update_statistics F t mx mn acc n =
     (if n = 2 ^ 31 - 1 then Undefined
      else Returns (Statistics (if fgreater F t mx then t else mx) (if fgreater F mn t then t else mn) (fadd F acc t) (n + 1)))"

definition update_forecast :: "'f \<Rightarrow> 'f \<Rightarrow> 'f \<Rightarrow> 'f display" where
  "update_forecast p current last_pressure = Forecast p current"

fun update_display :: "'f float_ops \<Rightarrow> 'f measurement \<Rightarrow> 'f display \<Rightarrow> 'f display outcome" where
  "update_display F (t, h, p) (Current_condition t0 h0) = Returns (Current_condition t h)"
| "update_display F (t, h, p) (Statistics mx mn acc n) = update_statistics F t mx mn acc n"
| "update_display F (t, h, p) (Forecast current last_pressure) = Returns (update_forecast p current last_pressure)"

section \<open>The subject\<close>

text \<open>The displays that exist, the pointers in \<open>_observers\<close> (\<open>None\<close> for a null pointer) and what is printed.\<close>

record 'f weather_data =
  displays :: "nat \<Rightarrow> 'f display option"
  fresh_display :: nat
  observers :: "nat option list"
  measured :: "'f measurement"
  printed :: "'f shown list"

definition weather_new :: "'f measurement \<Rightarrow> 'f weather_data" where
  "weather_new garbage = \<lparr>displays = \<lambda>_. None, fresh_display = 0, observers = [], measured = garbage, printed = []\<rparr>"

definition register_observer :: "nat option \<Rightarrow> 'f weather_data \<Rightarrow> 'f weather_data" where
  "register_observer o1 s = s\<lparr>observers := observers s @ [o1]\<rparr>"

definition remove_observer :: "nat option \<Rightarrow> 'f weather_data \<Rightarrow> 'f weather_data" where
  "remove_observer o1 s = s\<lparr>observers := filter (\<lambda>o2. o2 \<noteq> o1) (observers s)\<rparr>"

text \<open>The constructors of the displays; \<open>reset\<close> on the only owner of a display destroys it.\<close>

definition make_display :: "'f display \<Rightarrow> 'f weather_data \<Rightarrow> nat \<times> 'f weather_data" where
  "make_display d s = (let i = fresh_display s in
     (i, register_observer (Some i) (s\<lparr>displays := (displays s)(i := Some d), fresh_display := i + 1\<rparr>)))"

definition reset_display :: "nat \<Rightarrow> 'f weather_data \<Rightarrow> 'f weather_data" where
  "reset_display i s = s\<lparr>displays := (displays s)(i := None)\<rparr>"

fun notify :: "'f float_ops \<Rightarrow> nat option list \<Rightarrow> 'f weather_data \<Rightarrow> 'f weather_data outcome" where
  "notify F [] s = Returns s"
| "notify F (None # os) s = notify F os s"
| "notify F (Some i # os) s =
     (case displays s i of
        None \<Rightarrow> Undefined
      | Some d \<Rightarrow> and_then (update_display F (measured s) d) (\<lambda>d.
          notify F os (s\<lparr>displays := (displays s)(i := Some d), printed := printed s @ [show_display F d]\<rparr>)))"

definition notify_observers :: "'f float_ops \<Rightarrow> 'f weather_data \<Rightarrow> 'f weather_data outcome" where
  "notify_observers F s = notify F (observers s) s"

definition set_measurements :: "'f float_ops \<Rightarrow> 'f measurement \<Rightarrow> 'f weather_data \<Rightarrow> 'f weather_data outcome" where
  "set_measurements F m s = notify_observers F (s\<lparr>measured := m\<rparr>)"

fun set_all :: "'f float_ops \<Rightarrow> 'f measurement list \<Rightarrow> 'f weather_data \<Rightarrow> 'f weather_data outcome" where
  "set_all F [] s = Returns s"
| "set_all F (m # ms) s = and_then (set_measurements F m s) (set_all F ms)"

section \<open>Displays that are alive follow the measurements\<close>

text \<open>What an update leaves of a display whose counter does not overflow.\<close>

fun after :: "'f float_ops \<Rightarrow> 'f display \<Rightarrow> 'f measurement \<Rightarrow> 'f display" where
  "after F (Current_condition t0 h0) (t, h, p) = Current_condition t h"
| "after F (Statistics mx mn acc n) (t, h, p) =
     Statistics (if fgreater F t mx then t else mx) (if fgreater F mn t then t else mn) (fadd F acc t) (n + 1)"
| "after F (Forecast current last_pressure) (t, h, p) = Forecast p current"

fun room_for :: "nat \<Rightarrow> 'f display \<Rightarrow> bool" where
  "room_for k (Statistics mx mn acc n) \<longleftrightarrow> n + int k < 2 ^ 31"
| "room_for k d \<longleftrightarrow> True"

definition following :: "nat \<Rightarrow> 'f weather_data \<Rightarrow> nat list \<Rightarrow> bool" where
  "following k s ids \<longleftrightarrow> observers s = map Some ids \<and> distinct ids \<and> (\<forall>i\<in>set ids. \<exists>d. displays s i = Some d \<and> room_for k d)"

lemma update_after: "room_for (Suc k) d \<Longrightarrow> update_display F m d = Returns (after F d m) \<and> room_for k (after F d m)"
  by (cases d; cases m) (auto simp: update_statistics_def update_forecast_def)

lemma notify_following:
  "distinct ids \<Longrightarrow> \<forall>i\<in>set ids. \<exists>d. displays s i = Some d \<and> room_for (Suc k) d \<Longrightarrow>
    notify F (map Some ids) s = Returns (s\<lparr>
      displays := (\<lambda>i. if i \<in> set ids then map_option (\<lambda>d. after F d (measured s)) (displays s i) else displays s i),
      printed := printed s @ map (\<lambda>i. show_display F (after F (the (displays s i)) (measured s))) ids\<rparr>)"
proof (induction ids arbitrary: s)
  case (Cons i ids)
  then obtain d where d: "displays s i = Some d" "room_for (Suc k) d" by auto
  let ?d = "after F d (measured s)"
  let ?s = "s\<lparr>displays := (displays s)(i := Some ?d), printed := printed s @ [show_display F ?d]\<rparr>"
  have same: "displays ?s j = displays s j" if "j \<in> set ids" for j
    using that Cons.prems(1) by auto
  have "notify F (map Some (i # ids)) s = notify F (map Some ids) ?s"
    using d by (simp add: update_after)
  also have "\<dots> = Returns (?s\<lparr>
      displays := (\<lambda>i. if i \<in> set ids then map_option (\<lambda>d. after F d (measured s)) (displays ?s i) else displays ?s i),
      printed := printed ?s @ map (\<lambda>i. show_display F (after F (the (displays ?s i)) (measured s))) ids\<rparr>)"
    using Cons.prems same by (subst Cons.IH) (auto cong: if_cong)
  also have "\<dots> = Returns (s\<lparr>
      displays := (\<lambda>j. if j \<in> set (i # ids) then map_option (\<lambda>d. after F d (measured s)) (displays s j) else displays s j),
      printed := printed s @ map (\<lambda>i. show_display F (after F (the (displays s i)) (measured s))) (i # ids)\<rparr>)"
    using d(1) Cons.prems(1) by (auto simp: fun_eq_iff intro!: weather_data.equality)
  finally show ?case .
qed simp

lemma set_measurements_following:
  assumes "following (Suc k) s ids"
  obtains s' where "set_measurements F m s = Returns s'" and "following k s' ids"
    and "\<And>i. i \<in> set ids \<Longrightarrow> displays s' i = map_option (\<lambda>d. after F d m) (displays s i)"
    and "printed s' = printed s @ map (\<lambda>i. show_display F (the (displays s' i))) ids"
proof -
  let ?s = "s\<lparr>measured := m\<rparr>"
  let ?t = "?s\<lparr>displays := (\<lambda>i. if i \<in> set ids then map_option (\<lambda>d. after F d m) (displays s i) else displays s i),
      printed := printed s @ map (\<lambda>i. show_display F (after F (the (displays s i)) m)) ids\<rparr>"
  have a: "distinct ids" "\<forall>i\<in>set ids. \<exists>d. displays ?s i = Some d \<and> room_for (Suc k) d" "observers s = map Some ids"
    using assms by (simp_all add: following_def)
  have "set_measurements F m s = Returns ?t"
    using notify_following [OF a(1,2), of F] a(3) by (simp add: set_measurements_def notify_observers_def cong: if_cong)
  moreover have "following k ?t ids"
    using a update_after [of k _ F m] by (fastforce simp: following_def)
  moreover have "printed ?t = printed s @ map (\<lambda>i. show_display F (the (displays ?t i))) ids"
    using a(2) by fastforce
  ultimately show thesis by (intro that [of ?t]) auto
qed

lemma set_all_following:
  "following (length ms) s ids \<Longrightarrow> \<exists>s'. set_all F ms s = Returns s' \<and> following 0 s' ids
    \<and> (\<forall>i\<in>set ids. displays s' i = map_option (\<lambda>d. foldl (after F) d ms) (displays s i))
    \<and> length (printed s') = length (printed s) + length ms * length ids"
proof (induction ms arbitrary: s)
  case Nil
  then show ?case by (auto simp: option.map_ident)
next
  case (Cons m ms)
  then obtain s1 where s1: "set_measurements F m s = Returns s1" "following (length ms) s1 ids"
      "\<And>i. i \<in> set ids \<Longrightarrow> displays s1 i = map_option (\<lambda>d. after F d m) (displays s i)"
      "printed s1 = printed s @ map (\<lambda>i. show_display F (the (displays s1 i))) ids"
    using set_measurements_following [of "length ms" s ids F m] by auto
  then show ?case using Cons.IH [OF s1(2)] by (auto simp: option.map_comp comp_def)
qed

section \<open>Properties\<close>

text \<open>
  Where float comparison is a linear order, as it is without NaN: the statistics after some readings are
  the greatest of these and 0, the least of these and 200, and their sum. The maximum is therefore
  wrong when all readings are negative, and the average is taken with a counter that was not initialised.
\<close>

theorem statistics_after:
  fixes F :: "'f::linorder float_ops"
  assumes "\<And>x y. fgreater F x y \<longleftrightarrow> y < x"
  shows "foldl (after F) (Statistics mx mn acc n) ms =
    Statistics (Max (insert mx (fst ` set ms))) (Min (insert mn (fst ` set ms))) (foldl (fadd F) acc (map fst ms)) (n + int (length ms))"
proof (induction ms arbitrary: mx mn acc n)
  case (Cons m ms)
  obtain t h p where m: "m = (t, h, p)" by (cases m)
  have "Max (insert (if mx < t then t else mx) (fst ` set ms)) = Max (insert mx (insert t (fst ` set ms)))"
    by (cases "ms = []") (auto simp: max_def insert_commute)
  moreover have "Min (insert (if t < mn then t else mn) (fst ` set ms)) = Min (insert mn (insert t (fst ` set ms)))"
    by (cases "ms = []") (auto simp: min_def insert_commute)
  ultimately show ?case using Cons m by (simp add: assms)
qed simp

text \<open>Every display that is alive gets every measurement, in order.\<close>

theorem displays_follow:
  assumes "observers s = map Some ids" and "distinct ids" and "i \<in> set ids"
    and "\<forall>i\<in>set ids. \<exists>d. displays s i = Some d \<and> room_for (length ms) d"
  shows "\<exists>s'. set_all F ms s = Returns s' \<and> displays s' i = map_option (\<lambda>d. foldl (after F) d ms) (displays s i)"
  using set_all_following [of ms s ids F] assms by (auto simp: following_def)

text \<open>
  Against the intention: a display that has been destroyed is still in the list unless it was removed, and
  the next measurement uses it.
\<close>

theorem destroyed_display_used:
  assumes "observers s = Some i # os" and "displays s i = Some d"
  shows "set_measurements F m (reset_display i s) = Undefined"
    and "Some i \<notin> set (observers (remove_observer (Some i) s))"
  using assms by (simp_all add: set_measurements_def notify_observers_def reset_display_def remove_observer_def)

end
