(* ===== verification/Beverages.thy ===== *)
theory Beverages
  imports Prelude
begin

text \<open>
  Two patterns with beverages: the decorators of \<open>head-first-design-patterns/03.decorator/03.decorator.cpp\<close> and the
  template method of \<open>08.template_method/08.template_method.cpp\<close>.
\<close>

section \<open>Decorators\<close>

datatype plain = Espresso | House_blend | Dark_roast | Decaf

datatype condiment = Mocha | Soy | Milk | Whip

text \<open>A decorator owns a beverage or, made from a pointer that had been moved from, none.\<close>

datatype beverage = Plain plain | Decorated condiment "beverage option"

fun plain_desc :: "plain \<Rightarrow> string" where
  "plain_desc Espresso = ''Espresso''"
| "plain_desc House_blend = ''House Blend Coffee''"
| "plain_desc Dark_roast = ''Dark Roast Coffee''"
| "plain_desc Decaf = ''Decaf Coffee''"

fun condiment_desc :: "condiment \<Rightarrow> string" where
  "condiment_desc Mocha = ''Mocha''"
| "condiment_desc Soy = ''Soy''"
| "condiment_desc Milk = ''Milk''"
| "condiment_desc Whip = ''Whip''"

text \<open>Prices in hundredths.\<close>

fun plain_price :: "plain \<Rightarrow> nat" where
  "plain_price Espresso = 199"
| "plain_price House_blend = 89"
| "plain_price Dark_roast = 99"
| "plain_price Decaf = 105"

fun condiment_price :: "condiment \<Rightarrow> nat" where
  "condiment_price Mocha = 20"
| "condiment_price Soy = 15"
| "condiment_price Milk = 10"
| "condiment_price Whip = 10"

fun get_description :: "beverage \<Rightarrow> string" where
  "get_description (Plain p) = plain_desc p"
| "get_description (Decorated c (Some b)) = get_description b @ '', '' @ condiment_desc c"
| "get_description (Decorated c None) = condiment_desc c"

text \<open>The \<open>double\<close> next to a number of hundredths, and addition of \<open>double\<close>, are the machine's.\<close>

fun cost :: "(nat \<Rightarrow> 'd) \<Rightarrow> ('d \<Rightarrow> 'd \<Rightarrow> 'd) \<Rightarrow> beverage \<Rightarrow> 'd" where
  "cost price add (Plain p) = price (plain_price p)"
| "cost price add (Decorated c (Some b)) = add (price (condiment_price c)) (cost price add b)"
| "cost price add (Decorated c None) = price (condiment_price c)"

text \<open>The constructor of a decorator moves from the pointer it is given: the results are the new object and
  what the pointer holds afterwards.\<close>

definition make_condiment :: "condiment \<Rightarrow> beverage option \<Rightarrow> beverage \<times> beverage option" where
  "make_condiment c ptr = (Decorated c ptr, None)"

text \<open>\<open>ptr = std::make_unique<C>(ptr)\<close> for each condiment, as in \<open>main\<close>.\<close>

fun order :: "condiment list \<Rightarrow> beverage option \<Rightarrow> beverage option" where
  "order [] ptr = ptr"
| "order (c # cs) ptr = (let (b, _) = make_condiment c ptr in order cs (Some b))"

section \<open>The template method\<close>

datatype hot_drink = Coffee | Tea | Coffee_with_hook

text \<open>Reading a \<open>char\<close> skips white space; at the end of the input the variable keeps what it held.\<close>

fun get_user_input :: "char \<Rightarrow> string \<Rightarrow> char \<times> string" where
  "get_user_input garbage [] = (garbage, [])"
| "get_user_input garbage (c # cs) =
     (if c \<in> {CHR '' '', CHR 0x09, CHR 0x0A, CHR 0x0B, CHR 0x0C, CHR 0x0D} then get_user_input garbage cs else (c, cs))"

fun boil_water :: "hot_drink \<Rightarrow> string" where
  "boil_water d = ''Boiling water''"

fun brew :: "hot_drink \<Rightarrow> string" where
  "brew Tea = ''Steeping the tea''"
| "brew d = ''Dripping through filter''"

fun pour_in_cup :: "hot_drink \<Rightarrow> string" where
  "pour_in_cup d = ''Pouring into cup''"

fun add_condiments :: "hot_drink \<Rightarrow> string" where
  "add_condiments Tea = ''Adding lemon''"
| "add_condiments d = ''Adding sugar and milk''"

fun wants_condiments :: "hot_drink \<Rightarrow> char \<Rightarrow> string \<Rightarrow> bool \<times> string list \<times> string" where
  "wants_condiments Coffee_with_hook garbage input =
     (let (answer, rest) = get_user_input garbage input in
      (answer = CHR ''y'' \<or> answer = CHR ''Y'', [''Would you like sugar and milk with your coffee (y/n)? ''], rest))"
| "wants_condiments d garbage input = (True, [], input)"

definition prepare_receipe :: "hot_drink \<Rightarrow> char \<Rightarrow> string \<Rightarrow> string list \<times> string" where
  "prepare_receipe d garbage input =
     (let (wants, asked, rest) = wants_condiments d garbage input in
      ([boil_water d, brew d, pour_in_cup d] @ asked @ (if wants then [add_condiments d] else []), rest))"

section \<open>Properties\<close>

fun joined :: "string list \<Rightarrow> string" where
  "joined [] = []"
| "joined (x # xs) = '', '' @ x @ joined xs"

text \<open>A beverage decorated in turn is described by its name and the condiments in order; with exact
  arithmetic it costs the sum of their prices.\<close>

theorem order_described:
  assumes "order cs (Some b) = Some b'"
  shows "get_description b' = get_description b @ joined (map condiment_desc cs)"
    and "cost (\<lambda>n. n) (+) b' = cost (\<lambda>n. n) (+) b + sum_list (map condiment_price cs)"
  using assms by (induction cs arbitrary: b) (auto simp: make_condiment_def)

text \<open>A pointer that was moved from makes a condiment with no beverage.\<close>

theorem moved_from: "get_description (fst (make_condiment c (snd (make_condiment c' ptr)))) = condiment_desc c"
  by (simp add: make_condiment_def)

text \<open>Tea and coffee come with condiments; coffee with a hook if the first character typed that is no white
  space is \<open>y\<close> or \<open>Y\<close>. At the end of the input the answer is uninitialised.\<close>

theorem prepare_receipe_steps:
  "prepare_receipe Tea g input = ([''Boiling water'', ''Steeping the tea'', ''Pouring into cup'', ''Adding lemon''], input)"
  "fst (prepare_receipe Coffee_with_hook g []) =
     [''Boiling water'', ''Dripping through filter'', ''Pouring into cup'', ''Would you like sugar and milk with your coffee (y/n)? '']
     @ (if g = CHR ''y'' \<or> g = CHR ''Y'' then [''Adding sugar and milk''] else [])"
  by (simp_all add: prepare_receipe_def)

end
