(* ===== verification/Ducks.thy ===== *)
theory Ducks
  imports Node_Heap
begin

text \<open>
  The strategy pattern (\<open>head-first-design-patterns/01.strategy/Duck.h\<close>): ducks whose ways of flying and quacking are
  objects they own and that can be replaced.
\<close>

datatype fly_behavior = Fly_with_wings | Fly_no_way | Fly_rocket_powered

datatype quack_behavior = Quack | Mute_quack | Squeak

fun fly :: "fly_behavior \<Rightarrow> string" where
  "fly Fly_with_wings = ''I'm flying!!''"
| "fly Fly_no_way = ''I can't fly''"
| "fly Fly_rocket_powered = ''I'm flying with a rocket!''"

fun quack :: "quack_behavior \<Rightarrow> string" where
  "quack Quack = ''Quack''"
| "quack Mute_quack = ''<< Silence >>''"
| "quack Squeak = ''Squeak''"

datatype duck_class = Duck | Mallard_duck | Model_duck

text \<open>A plain \<open>Duck\<close> has no behaviours, and a null pointer may be set; calling through one is undefined.\<close>

record duck =
  duck_is :: duck_class
  fly_with :: "fly_behavior option"
  quack_with :: "quack_behavior option"

definition make_duck :: duck where
  "make_duck = \<lparr>duck_is = Duck, fly_with = None, quack_with = None\<rparr>"

definition make_mallard_duck :: duck where
  "make_mallard_duck = \<lparr>duck_is = Mallard_duck, fly_with = Some Fly_with_wings, quack_with = Some Quack\<rparr>"

definition make_model_duck :: duck where
  "make_model_duck = \<lparr>duck_is = Model_duck, fly_with = Some Fly_no_way, quack_with = Some Quack\<rparr>"

fun display :: "duck_class \<Rightarrow> string option" where
  "display Duck = None"
| "display Mallard_duck = Some ''I'm a real mallard duck''"
| "display Model_duck = Some ''I'm a model duck''"

definition perform_fly :: "duck \<Rightarrow> string outcome" where
  "perform_fly d = (case fly_with d of None \<Rightarrow> Undefined | Some b \<Rightarrow> Returns (fly b))"

definition perform_quack :: "duck \<Rightarrow> string outcome" where
  "perform_quack d = (case quack_with d of None \<Rightarrow> Undefined | Some b \<Rightarrow> Returns (quack b))"

definition swim :: "duck \<Rightarrow> string" where
  "swim d = ''All ducks float, even decoys!''"

definition set_fly_behavior :: "fly_behavior option \<Rightarrow> duck \<Rightarrow> duck" where
  "set_fly_behavior fb d = d\<lparr>fly_with := fb\<rparr>"

definition set_quack_behavior :: "quack_behavior option \<Rightarrow> duck \<Rightarrow> duck" where
  "set_quack_behavior qb d = d\<lparr>quack_with := qb\<rparr>"

text \<open>The custom deleters, by the function that made the duck.\<close>

fun delete_message :: "duck_class \<Rightarrow> string" where
  "delete_message Model_duck = ''Model Duck is ...''"
| "delete_message d = ''Mallard Duck is being delete.''"

datatype duck_call = Set_fly "fly_behavior option" | Set_quack "quack_behavior option" | Perform_fly | Perform_quack | Swim

fun call :: "duck_call \<Rightarrow> duck \<Rightarrow> (string option \<times> duck) outcome" where
  "call (Set_fly fb) d = Returns (None, set_fly_behavior fb d)"
| "call (Set_quack qb) d = Returns (None, set_quack_behavior qb d)"
| "call Perform_fly d = and_then (perform_fly d) (\<lambda>m. Returns (Some m, d))"
| "call Perform_quack d = and_then (perform_quack d) (\<lambda>m. Returns (Some m, d))"
| "call Swim d = Returns (Some (swim d), d)"

fun calls :: "duck_call list \<Rightarrow> duck \<Rightarrow> (string option list \<times> duck) outcome" where
  "calls [] d = Returns ([], d)"
| "calls (c # cs) d = and_then (call c d) (\<lambda>(m, d). and_then (calls cs d) (\<lambda>(ms, d). Returns (m # ms, d)))"

text \<open>A duck with both behaviours flies and quacks the way it was last told to, unless it is given a null
  pointer; a plain duck cannot fly.\<close>

fun no_null :: "duck_call \<Rightarrow> bool" where
  "no_null (Set_fly fb) \<longleftrightarrow> fb \<noteq> None"
| "no_null (Set_quack qb) \<longleftrightarrow> qb \<noteq> None"
| "no_null c \<longleftrightarrow> True"

theorem ducks_never_undefined:
  assumes "\<forall>c\<in>set cs. no_null c" and "fly_with d \<noteq> None" and "quack_with d \<noteq> None"
  shows "\<exists>ms d'. calls cs d = Returns (ms, d') \<and> length ms = length cs"
  using assms
proof (induction cs arbitrary: d)
  case (Cons c cs)
  obtain m d1 where c: "call c d = Returns (m, d1)" "fly_with d1 \<noteq> None" "quack_with d1 \<noteq> None"
    using Cons.prems
    by (cases c) (auto simp: perform_fly_def perform_quack_def set_fly_behavior_def set_quack_behavior_def)
  then show ?case using Cons.IH [OF _ c(2,3)] Cons.prems(1) by fastforce
qed simp

theorem plain_duck_undefined: "perform_fly make_duck = Undefined" "perform_quack make_duck = Undefined"
  by (simp_all add: perform_fly_def perform_quack_def make_duck_def)

end
