(* ===== verification/Cards.thy ===== *)
theory Cards
  imports Node_Heap "HOL-Library.Multiset"
begin

text \<open>
  The card game of \<open>using-the-c++-standard-template-libraries/all/main.cpp\<close>: a deck of 52 cards is
  dealt at random to the hands, which are sorted and shown. The random number generator is a
  parameter: \<open>pick k m\<close> is the number that the call \<open>k\<close> of the distribution over 0 to \<open>m\<close> gives. A loop
  that does not end has the result \<open>None\<close>.
\<close>

section \<open>Cards\<close>

datatype suit = Clubs | Diamonds | Hearts | Spades

datatype face = Two | Three | Four | Five | Six | Seven | Eight | Nine | Ten | Jack | Queen | King | Ace

text \<open>The values of the enumerators, by which they are compared.\<close>

fun suit_value :: "suit \<Rightarrow> nat" where
  "suit_value Clubs = 0" | "suit_value Diamonds = 1" | "suit_value Hearts = 2" | "suit_value Spades = 3"

fun face_value :: "face \<Rightarrow> nat" where
  "face_value Two = 0" | "face_value Three = 1" | "face_value Four = 2" | "face_value Five = 3" | "face_value Six = 4"
| "face_value Seven = 5" | "face_value Eight = 6" | "face_value Nine = 7" | "face_value Ten = 8" | "face_value Jack = 9"
| "face_value Queen = 10" | "face_value King = 11" | "face_value Ace = 12"

lemma suit_value_inj: "suit_value s = suit_value t \<Longrightarrow> s = t"
  by (cases s; cases t) simp_all

lemma face_value_inj: "face_value v = face_value w \<Longrightarrow> v = w"
  by (cases v; cases w) simp_all

lemma face_value_less: "face_value v < 13"
  by (cases v) simp_all

instantiation suit :: linorder
begin

definition less_eq_suit :: "suit \<Rightarrow> suit \<Rightarrow> bool" where
  "less_eq_suit s t \<longleftrightarrow> suit_value s \<le> suit_value t"

definition less_suit :: "suit \<Rightarrow> suit \<Rightarrow> bool" where
  "less_suit s t \<longleftrightarrow> suit_value s < suit_value t"

instance
  by standard (auto simp: less_eq_suit_def less_suit_def intro: suit_value_inj)

end

instantiation face :: linorder
begin

definition less_eq_face :: "face \<Rightarrow> face \<Rightarrow> bool" where
  "less_eq_face v w \<longleftrightarrow> face_value v \<le> face_value w"

definition less_face :: "face \<Rightarrow> face \<Rightarrow> bool" where
  "less_face v w \<longleftrightarrow> face_value v < face_value w"

instance
  by standard (auto simp: less_eq_face_def less_face_def intro: face_value_inj)

end

type_synonym card = "suit \<times> face"

definition suit_names :: "string list" where
  "suit_names = [''C'', ''D'', ''H'', ''S'']"

definition face_names :: "string list" where
  "face_names = [''2'', ''3'', ''4'', ''5'', ''6'', ''7'', ''8'', ''9'', ''10'', ''J'', ''Q'', ''K'', ''A'']"

text \<open>\<open>setw(2)\<close> with \<open>right\<close>, for the value only.\<close>

definition print_card :: "card \<Rightarrow> string" where
  "print_card c =
     (let suit = suit_names ! suit_value (fst c); value = face_names ! face_value (snd c)
      in replicate (2 - length value) CHR '' '' @ value @ suit)"

section \<open>The game\<close>

definition deck_suits :: "suit list" where
  "deck_suits = [Clubs, Diamonds, Hearts, Spades]"

definition deck_values :: "face list" where
  "deck_values = [Two, Three, Four, Five, Six, Seven, Eight, Nine, Ten, Jack, Queen, King, Ace]"

definition init_deck :: "card list \<Rightarrow> card list" where
  "init_deck deck = fold (\<lambda>suit deck. fold (\<lambda>value deck. deck @ [(suit, value)]) deck_values deck) deck_suits []"

text \<open>
  One round of \<open>deal\<close>. On an empty deck \<open>deck.size() - 1\<close> wraps, and whatever the distribution gives
  the iterator is advanced to or past the end and dereferenced.
\<close>

fun deal_round :: "(nat \<Rightarrow> nat \<Rightarrow> nat) \<Rightarrow> nat \<Rightarrow> 'c list list \<Rightarrow> 'c list \<Rightarrow> (nat \<times> 'c list list \<times> 'c list) outcome" where
  "deal_round pick k [] deck = Returns (k, [], deck)"
| "deal_round pick k (hand # hands) deck =
     (let max_index = length deck - 1; i = pick k max_index
      in if deck = [] \<or> length deck \<le> i then Undefined
         else and_then (deal_round pick (Suc k) hands (take i deck @ drop (Suc i) deck)) (\<lambda>(k, hands, rest).
           Returns (k, (hand @ [deck ! i]) # hands, rest)))"

partial_function (option) deal ::
  "(nat \<Rightarrow> nat \<Rightarrow> nat) \<Rightarrow> nat \<Rightarrow> 'c list list \<Rightarrow> 'c list \<Rightarrow> 'c list list outcome option" where
  "deal pick k hands deck =
     (if deck = [] then Some (Returns hands)
      else case deal_round pick k hands deck of
        Returns r \<Rightarrow> deal pick (fst r) (fst (snd r)) (snd (snd r))
      | Blocks \<Rightarrow> Some Blocks
      | Undefined \<Rightarrow> Some Undefined)"

definition card_less :: "card \<Rightarrow> card \<Rightarrow> bool" where
  "card_less cd1 cd2 \<longleftrightarrow> fst cd1 < fst cd2 \<or> (fst cd1 = fst cd2 \<and> snd cd1 < snd cd2)"

text \<open>\<open>std::list::sort\<close>, which is stable: insertion under the comparison it is given.\<close>

fun insert_by :: "('c \<Rightarrow> 'c \<Rightarrow> bool) \<Rightarrow> 'c \<Rightarrow> 'c list \<Rightarrow> 'c list" where
  "insert_by before x [] = [x]"
| "insert_by before x (y # ys) = (if before y x then y # insert_by before x ys else x # y # ys)"

definition sort_by :: "('c \<Rightarrow> 'c \<Rightarrow> bool) \<Rightarrow> 'c list \<Rightarrow> 'c list" where
  "sort_by before xs = foldr (insert_by before) xs []"

definition sort_hands :: "card list list \<Rightarrow> card list list" where
  "sort_hands hands = map (sort_by card_less) hands"

definition show_hands :: "card list list \<Rightarrow> string" where
  "show_hands hands = concat (map (\<lambda>hand. concat (map (\<lambda>card. print_card card @ '' '') hand) @ [CHR 0x0A]) hands)"

definition test_card :: "(nat \<Rightarrow> nat \<Rightarrow> nat) \<Rightarrow> card list list outcome option" where
  "test_card pick =
     map_option (\<lambda>r. and_then r (\<lambda>hands. Returns (sort_hands hands))) (deal pick 0 (replicate 4 []) (init_deck []))"

section \<open>Sorting\<close>

definition card_key :: "card \<Rightarrow> nat" where
  "card_key c = 13 * suit_value (fst c) + face_value (snd c)"

lemma card_less_key: "card_less c d \<longleftrightarrow> card_key c < card_key d"
  using face_value_less [of "snd c"] face_value_less [of "snd d"] suit_value_inj [of "fst c" "fst d"]
  by (auto simp: card_less_def card_key_def less_suit_def less_face_def)

lemma card_key_inj: "card_key c = card_key d \<Longrightarrow> c = d"
proof -
  assume "card_key c = card_key d"
  then have "\<not> card_less c d" "\<not> card_less d c" by (simp_all add: card_less_key)
  then show "c = d" by (auto simp: card_less_def intro: prod_eqI)
qed

lemma mset_insert_by [simp]: "mset (insert_by before x xs) = add_mset x (mset xs)"
  by (induction xs) auto

lemma mset_sort_by [simp]: "mset (sort_by before xs) = mset xs"
  by (induction xs) (simp_all add: sort_by_def)

lemma set_insert_by [simp]: "set (insert_by before x xs) = insert x (set xs)"
  by (induction xs) auto

lemma sorted_insert_by:
  "sorted_wrt (\<lambda>c d. card_key c \<le> card_key d) xs \<Longrightarrow> sorted_wrt (\<lambda>c d. card_key c \<le> card_key d) (insert_by card_less x xs)"
proof (induction xs)
  case (Cons y ys)
  show ?case
  proof (cases "card_less y x")
    case True
    then have "card_key y \<le> card_key x" by (simp add: card_less_key)
    then show ?thesis using Cons True by simp
  next
    case False
    then have "card_key x \<le> card_key y" by (simp add: card_less_key)
    then show ?thesis using Cons.prems False by (auto intro: order.trans)
  qed
qed simp

lemma sorted_sort_by: "distinct xs \<Longrightarrow> sorted_wrt card_less (sort_by card_less xs)"
proof -
  assume "distinct xs"
  then have d: "distinct (sort_by card_less xs)" using mset_eq_imp_distinct_iff [OF mset_sort_by] by blast
  have "sorted_wrt (\<lambda>c d. card_key c \<le> card_key d) (foldr (insert_by card_less) xs [])"
    by (induction xs) (simp_all add: sorted_insert_by)
  then have s: "sorted_wrt (\<lambda>c d. card_key c \<le> card_key d) (sort_by card_less xs)" by (simp add: sort_by_def)
  have "card_less (ys ! i) (ys ! j)"
    if "sorted_wrt (\<lambda>c d. card_key c \<le> card_key d) ys" "distinct ys" "i < j" "j < length ys" for ys i j
  proof -
    have "card_key (ys ! i) \<le> card_key (ys ! j)" using that(3,4) by (rule sorted_wrt_nth_less [OF that(1)])
    moreover have "ys ! i \<noteq> ys ! j" using that by (simp add: nth_eq_iff_index_eq)
    then have "card_key (ys ! i) \<noteq> card_key (ys ! j)" using card_key_inj by blast
    ultimately show ?thesis by (simp add: card_less_key)
  qed
  from this [OF s d] show ?thesis by (simp add: sorted_wrt_iff_nth_less)
qed

section \<open>Dealing\<close>

definition picks :: "(nat \<Rightarrow> nat \<Rightarrow> nat) \<Rightarrow> bool" where
  "picks pick \<longleftrightarrow> (\<forall>k m. pick k m \<le> m)"

lemma take_out: "i < length xs \<Longrightarrow> mset xs = add_mset (xs ! i) (mset (take i xs @ drop (Suc i) xs))"
  by (metis id_take_nth_drop mset.simps(2) mset_append union_mset_add_mset_right)

text \<open>A round deals one card to each hand.\<close>

lemma deal_round_deals:
  assumes "picks pick"
  shows "length hands \<le> length deck \<Longrightarrow> \<exists>k' hands' deck'. deal_round pick k hands deck = Returns (k', hands', deck')
    \<and> mset (concat hands') + mset deck' = mset (concat hands) + mset deck
    \<and> list_all2 (\<lambda>h h'. \<exists>c. h' = h @ [c]) hands hands' \<and> length deck = length deck' + length hands"
proof (induction hands arbitrary: k deck)
  case (Cons hand hands)
  let ?i = "pick k (length deck - 1)"
  have "deck \<noteq> []" "?i \<le> length deck - 1" using assms Cons.prems by (auto simp: picks_def)
  then have i: "?i < length deck" "deck \<noteq> []" by (cases deck; simp)+
  let ?rest = "take ?i deck @ drop (Suc ?i) deck"
  have l: "length ?rest = length deck - 1" using i by simp
  then have "length hands \<le> length ?rest" using Cons.prems by simp
  then obtain k' hands' deck' where r: "deal_round pick (Suc k) hands ?rest = Returns (k', hands', deck')"
      "mset (concat hands') + mset deck' = mset (concat hands) + mset ?rest"
      "list_all2 (\<lambda>h h'. \<exists>c. h' = h @ [c]) hands hands'" "length ?rest = length deck' + length hands"
    using Cons.IH by blast
  have "deal_round pick k (hand # hands) deck = Returns (k', (hand @ [deck ! ?i]) # hands', deck')"
    using i r(1) by (simp add: Let_def)
  moreover have "mset (concat ((hand @ [deck ! ?i]) # hands')) + mset deck' = mset (concat (hand # hands)) + mset deck"
    using r(2) take_out [OF i(1)] by simp
  moreover have "length deck = length deck' + length (hand # hands)" using r(4) l i Cons.prems by simp
  ultimately show ?case using r(3) by auto
qed simp

lemma deal_round_short:
  assumes "picks pick"
  shows "length deck < length hands \<Longrightarrow> deal_round pick k hands deck = Undefined"
proof (induction hands arbitrary: k deck)
  case (Cons hand hands)
  let ?i = "pick k (length deck - 1)"
  show ?case
  proof (cases "deck = [] \<or> length deck \<le> ?i")
    case False
    then have "length (take ?i deck @ drop (Suc ?i) deck) < length hands" using Cons.prems by (cases deck) auto
    from Cons.IH [OF this] False show ?thesis by (simp add: Let_def)
  qed (simp add: Let_def)
qed simp

text \<open>The rounds, as long as there are cards.\<close>

lemma deal_empty [simp]: "deal pick k hands [] = Some (Returns hands)"
  by (simp add: deal.simps)

lemma deal_rounds:
  assumes "picks pick" "hands \<noteq> []"
  shows "length deck = length hands * m \<Longrightarrow> \<exists>hands'. deal pick k hands deck = Some (Returns hands')
    \<and> mset (concat hands') = mset (concat hands) + mset deck
    \<and> list_all2 (\<lambda>h h'. \<exists>cs. length cs = m \<and> h' = h @ cs) hands hands'"
  using assms(2)
proof (induction m arbitrary: k hands deck)
  case 0
  have "list_all2 (\<lambda>h h'. \<exists>cs. length cs = 0 \<and> h' = h @ cs) hands hands" by (simp add: list_all2_same)
  then show ?case using 0 by simp
next
  case (Suc m)
  have ne: "deck \<noteq> []" using Suc.prems by auto
  have "length hands \<le> length deck" using Suc.prems(1) by simp
  then obtain k' hands' deck' where r: "deal_round pick k hands deck = Returns (k', hands', deck')"
      "mset (concat hands') + mset deck' = mset (concat hands) + mset deck"
      "list_all2 (\<lambda>h h'. \<exists>c. h' = h @ [c]) hands hands'" "length deck = length deck' + length hands"
    using deal_round_deals [OF assms(1)] by blast
  have l: "length hands' = length hands" using r(3) by (simp add: list_all2_lengthD)
  have "length deck' = length hands' * m" "hands' \<noteq> []" using r(4) Suc.prems l by auto
  then obtain hands'' where s: "deal pick k' hands' deck' = Some (Returns hands'')"
      "mset (concat hands'') = mset (concat hands') + mset deck'"
      "list_all2 (\<lambda>h h'. \<exists>cs. length cs = m \<and> h' = h @ cs) hands' hands''"
    using Suc.IH by blast
  have "deal pick k hands deck = Some (Returns hands'')" using ne r(1) s(1) by (simp add: deal.simps [of pick k])
  moreover have "mset (concat hands'') = mset (concat hands) + mset deck" using s(2) r(2) by simp
  moreover have "list_all2 (\<lambda>h h'. \<exists>cs. length cs = Suc m \<and> h' = h @ cs) hands hands''"
    by (rule list_all2_trans [OF _ r(3) s(3)]) auto
  ultimately show ?case by blast
qed

lemma deal_runs_out:
  assumes "picks pick" "hands \<noteq> []"
  shows "\<not> length hands dvd length deck \<Longrightarrow> deal pick k hands deck = Some Undefined"
  using assms(2)
proof (induction "length deck" arbitrary: k hands deck rule: less_induct)
  case less
  have ne: "deck \<noteq> []" using less.prems(1) by auto
  show ?case
  proof (cases "length deck < length hands")
    case True
    then show ?thesis using ne deal_round_short [OF assms(1) True] by (simp add: deal.simps [of pick k])
  next
    case False
    then obtain k' hands' deck' where r: "deal_round pick k hands deck = Returns (k', hands', deck')"
        "list_all2 (\<lambda>h h'. \<exists>c. h' = h @ [c]) hands hands'" "length deck = length deck' + length hands"
      using deal_round_deals [OF assms(1), of hands deck k] by auto
    have l: "length hands' = length hands" using r(2) by (simp add: list_all2_lengthD)
    have "\<not> length hands' dvd length deck'" using less.prems(1) r(3) l by (simp add: dvd_add_left_iff)
    moreover have "length deck' < length deck" "hands' \<noteq> []" using r(3) l less.prems(2) by auto
    ultimately have "deal pick k' hands' deck' = Some Undefined" by (intro less.hyps)
    then show ?thesis using ne r(1) by (simp add: deal.simps [of pick k])
  qed
qed

lemma init_deck_eq: "init_deck deck = List.product deck_suits deck_values"
  by (simp add: init_deck_def deck_suits_def deck_values_def)

lemma init_deck_all: "set (init_deck deck) = UNIV" "distinct (init_deck deck)" "length (init_deck deck) = 52"
proof -
  have "s \<in> set deck_suits" "v \<in> set deck_values" for s v
    by (cases s; simp add: deck_suits_def) (cases v; simp add: deck_values_def)
  then show "set (init_deck deck) = UNIV" by (auto simp: init_deck_eq)
  show "distinct (init_deck deck)" by (simp add: init_deck_eq distinct_product deck_suits_def deck_values_def)
  show "length (init_deck deck) = 52" by (simp add: init_deck_eq deck_suits_def deck_values_def)
qed

text \<open>Without hands the loop does not end.\<close>

lemma deal_some_hands:
  assumes "deal pick k hands deck = Some r"
  shows "deck \<noteq> [] \<longrightarrow> hands \<noteq> []"
  by (rule deal.raw_induct [where P = "\<lambda>pick k hands deck r. deck \<noteq> [] \<longrightarrow> hands \<noteq> []", OF _ assms])
    (fastforce split: if_splits)

lemma deal_no_hands: "deck \<noteq> [] \<Longrightarrow> deal pick k [] deck = None"
  using deal_some_hands [of pick k "[]" deck] by (cases "deal pick k [] deck") auto

section \<open>Properties\<close>

text \<open>
  Whatever the random numbers, dealing gives every hand the same number of cards and every card to one
  hand, when the number of hands divides that of the cards; when it does not, the last round goes on
  with an empty deck and uses its end as an element.
\<close>

theorem deal_fair:
  assumes "\<forall>k m. pick k m \<le> m" "hands \<noteq> []"
  shows "if length hands dvd length deck
    then \<exists>hands'. deal pick k hands deck = Some (Returns hands') \<and> mset (concat hands') = mset (concat hands) + mset deck
      \<and> list_all2 (\<lambda>h h'. \<exists>cs. length cs = length deck div length hands \<and> h' = h @ cs) hands hands'
    else deal pick k hands deck = Some Undefined"
proof -
  have p: "picks pick" using assms(1) by (simp add: picks_def)
  show ?thesis
  proof (cases "length hands dvd length deck")
    case True
    then have "length deck = length hands * (length deck div length hands)" by simp
    from deal_rounds [OF p assms(2) this] show ?thesis using True by simp
  qed (use deal_runs_out [OF p assms(2)] in simp)
qed

theorem deal_fair_witness:
  "(\<exists>hands'. deal (\<lambda>k m. m div 2) 0 [[], []] [1, 2, 3, 4 :: nat] = Some (Returns hands')
      \<and> mset (concat hands') = {#1, 2, 3, 4#})
    \<and> deal (\<lambda>k m. 0) 0 [[], []] [1, 2, 3 :: nat] = Some Undefined"
proof
  have "length [[], [] :: nat list] dvd length [1, 2, 3, 4 :: nat]" by simp presburger
  then show "\<exists>hands'. deal (\<lambda>k m. m div 2) 0 [[], []] [1, 2, 3, 4 :: nat] = Some (Returns hands')
      \<and> mset (concat hands') = {#1, 2, 3, 4#}"
    using deal_fair [of "\<lambda>k m. m div 2" "[[], []]" "[1, 2, 3, 4 :: nat]" 0] by (simp only: if_True) auto
  have "\<not> length [[], [] :: nat list] dvd length [1, 2, 3 :: nat]" by simp presburger
  then show "deal (\<lambda>k m. 0) 0 [[], []] [1, 2, 3 :: nat] = Some Undefined"
    using deal_fair [of "\<lambda>k m. 0" "[[], []]" "[1, 2, 3 :: nat]" 0] by (simp only: if_False) simp
qed

text \<open>
  C35. The game: whatever the random numbers, the four hands have 13 cards each, in order of suit and
  face, and every card is in one of them, once.
\<close>

theorem card_game:
  assumes "\<forall>k m. pick k m \<le> m"
  shows "\<exists>hands. test_card pick = Some (Returns hands) \<and> length hands = 4
    \<and> (\<forall>hand\<in>set hands. length hand = 13 \<and> sorted_wrt card_less hand)
    \<and> distinct (concat hands) \<and> set (concat hands) = UNIV"
proof -
  have p: "picks pick" using assms by (simp add: picks_def)
  have "length (init_deck []) = length (replicate 4 ([] :: card list)) * 13" by (simp add: init_deck_all)
  then obtain hs where hs: "deal pick 0 (replicate 4 []) (init_deck []) = Some (Returns hs)"
      "mset (concat hs) = mset (init_deck [])"
      "list_all2 (\<lambda>h h'. \<exists>cs. length cs = 13 \<and> h' = h @ cs) (replicate 4 []) hs"
    using deal_rounds [OF p, of "replicate 4 []" "init_deck []" 13 0] by auto
  have l: "length hs = 4" "\<And>h. h \<in> set hs \<Longrightarrow> length h = 13"
    using hs(3) by (auto simp: list_all2_conv_all_nth in_set_conv_nth)
  have d: "distinct (concat hs)" "set (concat hs) = UNIV"
    using mset_eq_imp_distinct_iff [OF hs(2)] mset_eq_setD [OF hs(2)] init_deck_all by simp_all
  have m: "mset (concat (sort_hands hs)) = mset (concat hs)"
    by (simp add: sort_hands_def mset_concat comp_def)
  have "length hand = 13 \<and> sorted_wrt card_less hand" if hand: "hand \<in> set (sort_hands hs)" for hand
  proof -
    obtain h where h: "h \<in> set hs" "hand = sort_by card_less h" using hand by (auto simp: sort_hands_def)
    have "length hand = length h" using mset_sort_by [of card_less h] h(2) by (metis size_mset)
    moreover have "distinct h" using d(1) h(1) by (simp add: distinct_concat_iff)
    ultimately show ?thesis using l(2) h sorted_sort_by by simp
  qed
  moreover have "length (sort_hands hs) = 4" using l(1) by (simp add: sort_hands_def)
  ultimately show ?thesis
    using hs(1) d mset_eq_imp_distinct_iff [OF m] mset_eq_setD [OF m] by (simp add: test_card_def)
qed

theorem card_game_witness:
  "\<exists>hands. test_card (\<lambda>k m. 0) = Some (Returns hands) \<and> length hands = 4 \<and> set (concat hands) = UNIV"
  using card_game [of "\<lambda>k m. 0"] by auto

end
