(* ===== verification/Stl_Programs.thy ===== *)
theory Stl_Programs
  imports Node_Heap Cxx_Library "HOL-Library.Word" "HOL-Library.Multiset" "HOL-Library.Char_ord"
    "HOL-Library.List_Lexorder" "HOL-Library.Product_Lexorder"
begin

text \<open>
  The other code of its own in \<open>using-the-c++-standard-template-libraries/all/main.cpp\<close>: \<open>bubble_sort\<close>,
  the order \<open>my_greater\<close>, \<open>Numeric_Range\<close> with its iterator, and \<open>word_count\<close>. Loops that need not end
  are functions into \<open>option\<close>.
\<close>

section \<open>\<open>bubble_sort\<close>\<close>

text \<open>One pass: neighbours that are out of order are exchanged.\<close>

fun bubble_pass :: "'a :: linorder list \<Rightarrow> bool \<Rightarrow> 'a list \<times> bool" where
  "bubble_pass (x # y # ys) out_of_order =
     (if x > y then let (zs, b) = bubble_pass (x # ys) True in (y # zs, b)
      else let (zs, b) = bubble_pass (y # ys) out_of_order in (x # zs, b))"
| "bubble_pass xs out_of_order = (xs, out_of_order)"

partial_function (option) bubble_loop :: "'a :: linorder list \<Rightarrow> 'a list option" where
  "bubble_loop xs =
     (let r = bubble_pass xs False in if snd r then bubble_loop (fst r) else Some (fst r))"

text \<open>\<open>start + 1\<close> is beyond the end of an empty range, and the inner loop never meets it.\<close>

definition bubble_sort :: "'a :: linorder list \<Rightarrow> 'a list outcome option" where
  "bubble_sort xs = (if xs = [] then Some Undefined else map_option Returns (bubble_loop xs))"

text \<open>The pairs that are out of order.\<close>

fun inversions :: "'a :: linorder list \<Rightarrow> nat" where
  "inversions [] = 0"
| "inversions (x # xs) = size (filter_mset (\<lambda>y. y < x) (mset xs)) + inversions xs"

lemma bubble_pass_mset: "mset (fst (bubble_pass xs b)) = mset xs"
  by (induction xs b rule: bubble_pass.induct) (auto simp: Let_def split_beta)

lemma bubble_pass_flag: "snd (bubble_pass xs True)"
  by (induction xs True rule: bubble_pass.induct) (auto simp: Let_def split_beta)

lemma bubble_pass_inversions:
  "inversions (fst (bubble_pass xs b)) + (if snd (bubble_pass xs b) \<and> \<not> b then 1 else 0) \<le> inversions xs"
proof (induction xs b rule: bubble_pass.induct)
  case (1 x y ys b)
  then show ?case
    using bubble_pass_mset [of "x # ys" True] bubble_pass_mset [of "y # ys" b] bubble_pass_flag [of "x # ys"]
    by (auto simp: Let_def split_beta)
qed simp_all

lemma bubble_pass_sorted: "\<not> snd (bubble_pass xs b) \<Longrightarrow> fst (bubble_pass xs b) = xs \<and> sorted xs"
proof (induction xs b rule: bubble_pass.induct)
  case (1 x y ys b)
  then show ?case using bubble_pass_flag [of "x # ys"] by (auto simp: Let_def split_beta split: if_splits)
qed simp_all

lemma bubble_loop_sorts: "bubble_loop xs = Some (sort xs)"
proof (induction "inversions xs" arbitrary: xs rule: less_induct)
  case less
  let ?r = "bubble_pass xs False"
  show ?case
  proof (cases "snd ?r")
    case True
    then have "inversions (fst ?r) < inversions xs" using bubble_pass_inversions [of xs False] by simp
    then have "bubble_loop (fst ?r) = Some (sort (fst ?r))" by (rule less)
    moreover have "sort (fst ?r) = sort xs" by (metis bubble_pass_mset properties_for_sort mset_sort sorted_sort)
    ultimately show ?thesis using True by (simp add: bubble_loop.simps [of xs] Let_def)
  next
    case False
    then show ?thesis
      using bubble_pass_sorted [OF False] by (simp add: bubble_loop.simps [of xs] Let_def sorted_sort_id)
  qed
qed

section \<open>\<open>my_greater\<close>\<close>

text \<open>Strings compare as sequences of unsigned characters; the element after the last is a NUL.\<close>

definition front_char :: "string \<Rightarrow> char" where
  "front_char s = (case s of [] \<Rightarrow> CHR 0x00 | c # _ \<Rightarrow> c)"

definition my_greater :: "string \<Rightarrow> string \<Rightarrow> bool" where
  "my_greater s1 s2 = (if front_char s1 = front_char s2 then length s1 > length s2 else s1 > s2)"

lemma nul_least: "CHR 0x00 \<le> (c :: char)" "\<not> c < CHR 0x00"
  by (simp_all add: less_eq_char_def less_char_def)

lemma my_greater_key: "my_greater s t \<longleftrightarrow> (front_char t, length t) < (front_char s, length s)"
proof -
  have "s > t \<longleftrightarrow> front_char t < front_char s" if "front_char s \<noteq> front_char t"
    using that nul_least by (cases s; cases t) (auto simp: front_char_def le_less)
  then show ?thesis by (auto simp: my_greater_def less_prod_def')
qed

lemma strict_weak:
  "\<not> x < x \<and> (y < x \<longrightarrow> z < y \<longrightarrow> z < x)
    \<and> (\<not> y < x \<and> \<not> x < y \<longrightarrow> \<not> z < y \<and> \<not> y < z \<longrightarrow> \<not> z < x \<and> \<not> x < (z :: 'a :: linorder))"
  by auto

section \<open>\<open>Numeric_Range\<close>\<close>

text \<open>
  For a type of 32 bits: the members are words, the length is a \<open>size_t\<close>. An iterator refers to its
  range and has a value; the iterator at the end has the value that \<open>end\<close> computes, and using it
  raises an exception (\<open>None\<close>).
\<close>

record numeric_range =
  range_start :: "32 word"
  range_step :: "32 word"
  range_count :: "32 word"

definition range_begin :: "numeric_range \<Rightarrow> 32 word" where
  "range_begin r = range_start r"

definition range_end :: "numeric_range \<Rightarrow> 32 word" where
  "range_end r = range_start r + range_count r * range_step r"

definition check_range :: "numeric_range \<Rightarrow> 32 word \<Rightarrow> bool" where
  "check_range r value \<longleftrightarrow> value \<noteq> range_start r + range_count r * range_step r"

definition iterator_get :: "numeric_range \<Rightarrow> 32 word \<Rightarrow> 32 word option" where
  "iterator_get r value = (if check_range r value then Some value else None)"

definition iterator_next :: "numeric_range \<Rightarrow> 32 word \<Rightarrow> 32 word option" where
  "iterator_next r value = (if check_range r value then Some (value + range_step r) else None)"

text \<open>\<open>std::copy\<close> from one iterator to another; \<open>None\<close> within for an exception.\<close>

partial_function (option) copy_range :: "numeric_range \<Rightarrow> 32 word \<Rightarrow> 32 word \<Rightarrow> 32 word list \<Rightarrow> 32 word list option option" where
  "copy_range r first finish out =
     (if first = finish then Some (Some out)
      else case iterator_get r first of
        None \<Rightarrow> Some None
      | Some v \<Rightarrow> (case iterator_next r first of
          None \<Rightarrow> Some None
        | Some first \<Rightarrow> copy_range r first finish (out @ [v])))"

lemma copy_range_steps:
  assumes "\<forall>i<k. first + of_nat i * range_step r \<noteq> range_end r" "first + of_nat k * range_step r = range_end r"
  shows "copy_range r first (range_end r) out = Some (Some (out @ map (\<lambda>i. first + of_nat i * range_step r) [0..<k]))"
  using assms
proof (induction k arbitrary: first out)
  case 0
  then show ?case by (simp add: copy_range.simps [of r])
next
  case (Suc k)
  have "first \<noteq> range_end r" using Suc.prems(1) by (metis add.right_neutral mult_zero_left of_nat_0 zero_less_Suc)
  then have "copy_range r first (range_end r) out = copy_range r (first + range_step r) (range_end r) (out @ [first])"
    by (simp add: copy_range.simps [of r first] iterator_get_def iterator_next_def check_range_def range_end_def)
  also have "\<dots> = Some (Some ((out @ [first]) @ map (\<lambda>i. first + range_step r + of_nat i * range_step r) [0..<k]))"
  proof (rule Suc.IH)
    show "\<forall>i<k. first + range_step r + of_nat i * range_step r \<noteq> range_end r"
    proof (intro allI impI)
      fix i assume "i < k"
      then have "first + of_nat (Suc i) * range_step r \<noteq> range_end r" using Suc.prems(1) by blast
      then show "first + range_step r + of_nat i * range_step r \<noteq> range_end r" by (simp add: algebra_simps)
    qed
    show "first + range_step r + of_nat k * range_step r = range_end r" using Suc.prems(2) by (simp add: algebra_simps)
  qed
  also have "(out @ [first]) @ map (\<lambda>i. first + range_step r + of_nat i * range_step r) [0..<k]
      = out @ map (\<lambda>i. first + of_nat i * range_step r) [0..<Suc k]"
    by (simp add: upt_conv_Cons map_Suc_upt [symmetric] algebra_simps del: upt_Suc)
  finally show ?case .
qed

lemma unat_of_nat_less: "m < 2 ^ 32 \<Longrightarrow> unat (of_nat m :: 32 word) = m"
  by (simp add: unat_of_nat take_bit_nat_eq_self)

text \<open>The values come back to the end after at most the length, and never before when nothing wraps.\<close>

lemma range_stops: "\<exists>k\<le>unat (range_count r). (\<forall>i<k. range_start r + of_nat i * range_step r \<noteq> range_end r)
    \<and> range_start r + of_nat k * range_step r = range_end r"
proof -
  let ?P = "\<lambda>k. range_start r + of_nat k * range_step r = range_end r"
  have "?P (unat (range_count r))" by (simp add: range_end_def)
  then have "?P (LEAST k. ?P k)" "(LEAST k. ?P k) \<le> unat (range_count r)" by (rule LeastI, rule Least_le)
  then show ?thesis using not_less_Least [of _ ?P] by blast
qed

section \<open>\<open>word_count\<close>\<close>

text \<open>\<open>isalpha\<close> in the \<open>C\<close> locale; it is undefined for the value of a negative \<open>char\<close>.\<close>

definition isalpha :: "char \<Rightarrow> bool" where
  "isalpha c \<longleftrightarrow> 65 \<le> promote c \<and> promote c \<le> 90 \<or> 97 \<le> promote c \<and> promote c \<le> 122"

text \<open>\<open>std::istream_iterator<std::string>\<close>.\<close>

function read_words :: "string \<Rightarrow> string list" where
  "read_words s =
     (let t = dropWhile isspace s
      in if t = [] then []
         else takeWhile (\<lambda>c. \<not> isspace c) t # read_words (dropWhile (\<lambda>c. \<not> isspace c) t))"
  by pat_completeness auto
termination
proof (relation "measure length")
  fix s t :: string
  assume t: "t = dropWhile isspace s" "t \<noteq> []"
  then have "\<not> isspace (hd t)" using hd_dropWhile by metis
  then have "length (dropWhile (\<lambda>c. \<not> isspace c) t) < length t"
    using t(2) by (cases t) (simp_all add: le_imp_less_Suc length_dropWhile_le)
  then show "(dropWhile (\<lambda>c. \<not> isspace c) t, s) \<in> measure length"
    using t(1) length_dropWhile_le [of isspace s] by simp
qed simp

declare read_words.simps [simp del]

definition count_word :: "string \<Rightarrow> (string \<rightharpoonup> nat) \<times> nat \<Rightarrow> (string \<rightharpoonup> nat) \<times> nat" where
  "count_word word s =
     (case s of (words, max_len) \<Rightarrow>
       (words(word \<mapsto> (case words word of None \<Rightarrow> 1 | Some n \<Rightarrow> n + 1)), max max_len (length word)))"

definition word_count :: "string \<Rightarrow> ((string \<rightharpoonup> nat) \<times> nat) outcome" where
  "word_count input =
     (let text_in = takeWhile (\<lambda>c. c \<noteq> CHR ''*'') input
      in if list_ex (\<lambda>c. promote c < 0) text_in then Undefined
         else let text = map (\<lambda>c. if \<not> isalpha c then CHR '' '' else c) text_in
              in Returns (fold count_word (read_words text) (Map.empty, 0)))"

text \<open>The words of a text: the longest runs of letters.\<close>

inductive words_of :: "string \<Rightarrow> string list \<Rightarrow> bool" where
  no_words: "\<forall>c\<in>set gap. \<not> isalpha c \<Longrightarrow> words_of gap []"
| next_word: "\<forall>c\<in>set gap. \<not> isalpha c \<Longrightarrow> word \<noteq> [] \<Longrightarrow> \<forall>c\<in>set word. isalpha c \<Longrightarrow>
    rest = [] \<or> \<not> isalpha (hd rest) \<Longrightarrow> words_of rest ws \<Longrightarrow> words_of (gap @ word @ rest) (word # ws)"

lemma isalpha_not_space: "isalpha c \<Longrightarrow> \<not> isspace c"
  by (auto simp: isalpha_def isspace_def promote_def)

lemma read_words_of: "words_of s (read_words (map (\<lambda>c. if \<not> isalpha c then CHR '' '' else c) s))"
proof (induction "length s" arbitrary: s rule: less_induct)
  case less
  let ?f = "\<lambda>c. if \<not> isalpha c then CHR '' '' else c"
  have space: "isspace (?f c) \<longleftrightarrow> \<not> isalpha c" for c using isalpha_not_space by (auto simp: isspace_def)
  define gap where "gap = takeWhile (\<lambda>c. \<not> isalpha c) s"
  define t where "t = dropWhile (\<lambda>c. \<not> isalpha c) s"
  define word where "word = takeWhile isalpha t"
  define rest where "rest = dropWhile isalpha t"
  have s: "s = gap @ t" "t = word @ rest" by (simp_all add: gap_def t_def word_def rest_def)
  have gap: "\<forall>c\<in>set gap. \<not> isalpha c" "\<forall>c\<in>set word. isalpha c"
    using set_takeWhileD unfolding gap_def word_def by fastforce+
  have t: "dropWhile isspace (map ?f s) = map ?f t" by (simp add: dropWhile_map t_def comp_def space)
  show ?case
  proof (cases "t = []")
    case True
    then have "read_words (map ?f s) = []" using t by (subst read_words.simps) (simp add: Let_def)
    moreover have "s = gap" using s(1) True by simp
    ultimately show ?thesis using no_words [OF gap(1)] by simp
  next
    case False
    have hd: "isalpha (hd t)" using False hd_dropWhile unfolding t_def by metis
    then have ne: "word \<noteq> []" using False unfolding word_def by (cases t) simp_all
    have w: "takeWhile (\<lambda>c. \<not> isspace c) (map ?f t) = map ?f word" "dropWhile (\<lambda>c. \<not> isspace c) (map ?f t) = map ?f rest"
      by (simp_all add: takeWhile_map dropWhile_map word_def rest_def comp_def space)
    have "map ?f word = word" using gap(2) by (simp add: map_idI)
    then have r: "read_words (map ?f s) = word # read_words (map ?f rest)"
      using False t w by (simp add: read_words.simps [of "map ?f s"])
    have "rest = [] \<or> \<not> isalpha (hd rest)" using hd_dropWhile [of isalpha t] unfolding rest_def by blast
    moreover have "words_of rest (read_words (map ?f rest))" using s ne by (intro less) simp
    ultimately show ?thesis unfolding r using next_word [OF gap(1) ne gap(2)] s by simp
  qed
qed

lemma fold_count_word:
  "fold count_word ws (m, k) =
     ((\<lambda>w. if w \<in> set ws then Some ((case m w of None \<Rightarrow> 0 | Some n \<Rightarrow> n) + count_list ws w) else m w),
      fold max (map length ws) k)"
proof (induction ws arbitrary: m k)
  case (Cons v ws)
  have "fold count_word (v # ws) (m, k)
      = fold count_word ws (m(v \<mapsto> (case m v of None \<Rightarrow> 1 | Some n \<Rightarrow> n + 1)), max k (length v))"
    by (simp add: count_word_def)
  then show ?case unfolding Cons.IH by (auto simp: fun_eq_iff max.commute split: option.splits)
qed simp

section \<open>Properties\<close>

text \<open>
  \<open>bubble_sort\<close> ends and sorts every range that is not empty; on an empty one it leaves the range.
\<close>

theorem bubble_sort_sorts: "bubble_sort xs = Some (if xs = [] then Undefined else Returns (sort xs))"
  by (simp add: bubble_sort_def bubble_loop_sorts)

text \<open>
  \<open>my_greater\<close> is a strict weak order, as sorting with it requires.
\<close>

theorem my_greater_strict_weak:
  "\<not> my_greater s s \<and> (my_greater s t \<longrightarrow> my_greater t u \<longrightarrow> my_greater s u)
    \<and> (\<not> my_greater s t \<and> \<not> my_greater t s \<longrightarrow> \<not> my_greater t u \<and> \<not> my_greater u t \<longrightarrow> \<not> my_greater s u \<and> \<not> my_greater u s)"
  unfolding my_greater_key by (rule strict_weak)

theorem my_greater_strict_weak_witness:
  "my_greater ''kitty'' ''janet'' \<and> my_greater ''janet'' ''jane'' \<and> my_greater ''kitty'' ''jane''"
proof -
  have "my_greater ''kitty'' ''janet''" "my_greater ''janet'' ''jane''"
    by (simp_all add: my_greater_def front_char_def less_char_def)
  then show ?thesis using my_greater_strict_weak [of "''kitty''" "''janet''" "''jane''"] by simp
qed

text \<open>
  Copying a \<open>Numeric_Range\<close> from its beginning to its end never uses the end iterator and ends, for
  every start, step and length; it gives the first values \<open>start + i * step\<close>, and all of them unless
  one before the end has, after wrapping, the value of the end.
\<close>

theorem numeric_range_copied:
  "\<exists>k\<le>unat (range_count r). copy_range r (range_begin r) (range_end r) []
      = Some (Some (map (\<lambda>i. range_start r + of_nat i * range_step r) [0..<k]))
    \<and> (unat (range_count r) * unat (range_step r) < 2 ^ 32 \<and> range_step r \<noteq> 0 \<longrightarrow> k = unat (range_count r))
    \<and> (range_step r = 0 \<longrightarrow> k = 0)"
proof -
  obtain k where k: "k \<le> unat (range_count r)" "\<forall>i<k. range_start r + of_nat i * range_step r \<noteq> range_end r"
      "range_start r + of_nat k * range_step r = range_end r" using range_stops by blast
  have "k = unat (range_count r)" if w: "unat (range_count r) * unat (range_step r) < 2 ^ 32" "range_step r \<noteq> 0"
  proof -
    have "of_nat k * range_step r = range_count r * range_step r" using k(3) by (simp add: range_end_def)
    then have e: "of_nat (k * unat (range_step r)) = (of_nat (unat (range_count r) * unat (range_step r)) :: 32 word)" by simp
    have "k * unat (range_step r) \<le> unat (range_count r) * unat (range_step r)" using k(1) by (rule mult_le_mono1)
    then have "k * unat (range_step r) < 2 ^ 32" using w(1) by (rule le_less_trans)
    then have "k * unat (range_step r) = unat (range_count r) * unat (range_step r)"
      using unat_of_nat_less w(1) arg_cong [OF e, of unat] by (simp del: of_nat_mult)
    then show ?thesis using w(2) by (simp add: unat_eq_0)
  qed
  moreover have "k = 0" if "range_step r = 0" using k(2) that by (cases k) (auto simp: range_end_def)
  ultimately show ?thesis using copy_range_steps [OF k(2,3), of "[]"] k(1) by (auto simp: range_begin_def)
qed

theorem numeric_range_copied_witness:
  "copy_range \<lparr>range_start = 1, range_step = 2, range_count = 3\<rparr> 1 7 [] = Some (Some [1, 3, 5])
    \<and> copy_range \<lparr>range_start = 1, range_step = 0, range_count = 3\<rparr> 1 1 [] = Some (Some [])"
  using numeric_range_copied [of "\<lparr>range_start = 1, range_step = 2, range_count = 3\<rparr>"]
    numeric_range_copied [of "\<lparr>range_start = 1, range_step = 0, range_count = 3\<rparr>"]
  by (auto simp: range_begin_def range_end_def upt_rec)

text \<open>
  C36. For every text without negative characters \<open>word_count\<close> splits what comes before the first asterisk
  into its longest runs of letters, counts how often each occurs and finds the greatest length.
\<close>

theorem word_count_counts:
  assumes "\<forall>c\<in>set (takeWhile (\<lambda>c. c \<noteq> CHR ''*'') input). 0 \<le> promote c"
  shows "\<exists>ws. words_of (takeWhile (\<lambda>c. c \<noteq> CHR ''*'') input) ws
    \<and> word_count input = Returns (\<lambda>w. if w \<in> set ws then Some (count_list ws w) else None, fold max (map length ws) 0)"
proof -
  have "\<not> list_ex (\<lambda>c. promote c < 0) (takeWhile (\<lambda>c. c \<noteq> CHR ''*'') input)" using assms by (auto simp: list_ex_iff)
  then show ?thesis
    using read_words_of [of "takeWhile (\<lambda>c. c \<noteq> CHR ''*'') input"]
    by (auto simp: word_count_def Let_def fold_count_word cong: if_cong intro: exI)
qed

theorem word_count_counts_witness:
  "\<exists>ws. words_of ''be, or be'' ws
    \<and> word_count ''be, or be*x'' = Returns (\<lambda>w. if w \<in> set ws then Some (count_list ws w) else None, fold max (map length ws) 0)"
  using word_count_counts [of "''be, or be*x''"] by (simp add: promote_def)

end
