(* ===== verification/Std_Algorithms.thy ===== *)
theory Std_Algorithms
  imports Prelude "HOL-Library.Multiset" "HOL-Library.List_Lexorder" "HOL-Library.Char_ord"
begin

text \<open>
  The algorithms of the standard library that the demonstrations of
  \<open>using-the-c++-standard-template-libraries\<close> call, on the list of elements of a range, and what they guarantee.
\<close>

section \<open>Sorting\<close>

text \<open>A stable sort by an order \<open>lt\<close>; \<open>std::sort\<close> gives the same list when equivalent elements are equal.\<close>

fun sorted_insert :: "('a \<Rightarrow> 'a \<Rightarrow> bool) \<Rightarrow> 'a \<Rightarrow> 'a list \<Rightarrow> 'a list" where
  "sorted_insert lt x [] = [x]"
| "sorted_insert lt x (y # ys) = (if lt y x then y # sorted_insert lt x ys else x # y # ys)"

definition stable_sort :: "('a \<Rightarrow> 'a \<Rightarrow> bool) \<Rightarrow> 'a list \<Rightarrow> 'a list" where
  "stable_sort lt xs = foldr (sorted_insert lt) xs []"

lemma mset_sorted_insert [simp]: "mset (sorted_insert lt x ys) = add_mset x (mset ys)"
  by (induction ys) auto

lemma mset_stable_sort [simp]: "mset (stable_sort lt xs) = mset xs"
  by (induction xs) (simp_all add: stable_sort_def)

definition weak_order :: "('a \<Rightarrow> 'a \<Rightarrow> bool) \<Rightarrow> bool" where
  "weak_order lt \<longleftrightarrow> (\<forall>x. \<not> lt x x) \<and> (\<forall>x y z. lt x y \<longrightarrow> lt y z \<longrightarrow> lt x z)
     \<and> (\<forall>x y z. lt x z \<longrightarrow> lt x y \<or> lt y z)"

lemma weak_orderD:
  assumes "weak_order lt"
  shows "\<not> lt x x" "lt x y \<Longrightarrow> \<not> lt y x" "lt x y \<Longrightarrow> lt y z \<Longrightarrow> lt x z" "\<not> lt x y \<Longrightarrow> \<not> lt y z \<Longrightarrow> \<not> lt x z"
  using assms unfolding weak_order_def by blast+

lemma set_sorted_insert: "set (sorted_insert lt x ys) = insert x (set ys)"
  by (induction ys) auto

lemma sorted_insert_sorted:
  "weak_order lt \<Longrightarrow> sorted_wrt (\<lambda>a b. \<not> lt b a) ys \<Longrightarrow> sorted_wrt (\<lambda>a b. \<not> lt b a) (sorted_insert lt x ys)"
proof (induction ys)
  case (Cons y ys)
  note w = weak_orderD [OF Cons.prems(1)]
  show ?case
  proof (cases "lt y x")
    case True
    then show ?thesis using Cons w(2) [OF True] by (auto simp: set_sorted_insert)
  next
    case False
    then have "\<not> lt z x" if "z \<in> set ys" for z using Cons.prems(2) that w(4) [of z y x] by auto
    then show ?thesis using Cons.prems False by auto
  qed
qed simp

lemma stable_sort_sorted: "weak_order lt \<Longrightarrow> sorted_wrt (\<lambda>a b. \<not> lt b a) (stable_sort lt xs)"
  by (induction xs) (simp_all add: stable_sort_def sorted_insert_sorted)

text \<open>Equivalent elements keep their order.\<close>

lemma sorted_insert_stable:
  "weak_order lt \<Longrightarrow>
    filter (\<lambda>y. \<not> lt y k \<and> \<not> lt k y) (sorted_insert lt x ys) = filter (\<lambda>y. \<not> lt y k \<and> \<not> lt k y) (x # ys)"
proof (induction ys)
  case (Cons y ys)
  show ?case
  proof (cases "lt y x")
    case True
    then have "\<not> ((\<not> lt y k \<and> \<not> lt k y) \<and> (\<not> lt x k \<and> \<not> lt k x))"
      using weak_orderD(4) [OF Cons.prems] by blast
    then show ?thesis using Cons True by auto
  qed auto
qed simp

lemma stable_sort_stable:
  "weak_order lt \<Longrightarrow> filter (\<lambda>y. \<not> lt y k \<and> \<not> lt k y) (stable_sort lt xs) = filter (\<lambda>y. \<not> lt y k \<and> \<not> lt k y) xs"
proof (induction xs)
  case (Cons x xs)
  then show ?case using sorted_insert_stable [OF Cons.prems, of k x "stable_sort lt xs"] by (simp add: stable_sort_def)
qed (simp add: stable_sort_def)

lemma weak_order_less: "weak_order ((<) :: 'a :: linorder \<Rightarrow> _)" "weak_order ((>) :: 'a :: linorder \<Rightarrow> _)"
  by (auto simp: weak_order_def)

lemma stable_sort_less: "stable_sort (<) xs = sort (xs :: 'a :: linorder list)"
proof (rule properties_for_sort [symmetric])
  show "sorted (stable_sort (<) xs)"
    using stable_sort_sorted [OF weak_order_less(1), of xs] by (simp add: linorder_not_less)
qed simp

section \<open>Priority queues\<close>

text \<open>\<open>top\<close> is an element that none exceeds, the first such here; the loop prints \<open>top\<close> and pops it until the queue is
  empty.\<close>

fun pq_top :: "('a \<Rightarrow> 'a \<Rightarrow> bool) \<Rightarrow> 'a \<Rightarrow> 'a list \<Rightarrow> 'a" where
  "pq_top lt t [] = t"
| "pq_top lt t (x # xs) = pq_top lt (if lt t x then x else t) xs"

lemma pq_top_in: "pq_top lt t xs \<in> set (t # xs)"
  by (induction xs arbitrary: t) (auto split: if_splits)

lemma pq_top_max: "weak_order lt \<Longrightarrow> y \<in> set (t # xs) \<Longrightarrow> \<not> lt (pq_top lt t xs) y"
proof (induction xs arbitrary: t y)
  case (Cons x xs)
  let ?t = "if lt t x then x else t"
  have top: "\<not> lt (pq_top lt ?t xs) z" if "z \<in> set (?t # xs)" for z using Cons.IH [OF Cons.prems(1) that] .
  have "\<not> lt ?t y \<or> y \<in> set xs" using Cons.prems weak_orderD(1,2) [OF Cons.prems(1)] by auto
  then have "\<not> lt (pq_top lt ?t xs) y"
    using top [of ?t] top [of y] weak_orderD(4) [OF Cons.prems(1), of "pq_top lt ?t xs" ?t y] by auto
  then show ?case by simp
qed (simp add: weak_order_def)

function pq_drain :: "('a \<Rightarrow> 'a \<Rightarrow> bool) \<Rightarrow> 'a list \<Rightarrow> 'a list" where
  "pq_drain lt [] = []"
| "pq_drain lt (x # xs) = (let t = pq_top lt x xs in t # pq_drain lt (remove1 t (x # xs)))"
  by pat_completeness auto
termination
proof (relation "measure (\<lambda>(_, xs). length xs)")
  fix lt :: "'a \<Rightarrow> 'a \<Rightarrow> bool" and x t xs
  assume "t = pq_top lt x xs"
  then have "length (remove1 t (x # xs)) < length (x # xs)"
    using pq_top_in [of lt x xs] length_pos_if_in_set [of t xs] by (auto simp: length_remove1)
  then show "((lt, remove1 t (x # xs)), lt, x # xs) \<in> measure (\<lambda>(_, xs). length xs)" by simp
qed simp

lemma pq_drain_mset: "mset (pq_drain lt xs) = mset xs"
proof (induction lt xs rule: pq_drain.induct)
  case (2 lt x xs)
  let ?t = "pq_top lt x xs"
  have "mset (pq_drain lt (x # xs)) = add_mset ?t (mset (remove1 ?t (x # xs)))"
    using 2 [OF refl] by (simp only: pq_drain.simps Let_def mset.simps)
  also have "\<dots> = mset (x # xs)" using pq_top_in [of lt x xs] by (simp only: mset_remove1 in_multiset_in_set insert_DiffM)
  finally show ?case .
qed simp

lemma pq_drain_sorted: "weak_order lt \<Longrightarrow> sorted_wrt (\<lambda>a b. \<not> lt a b) (pq_drain lt xs)"
proof (induction lt xs rule: pq_drain.induct)
  case (2 lt x xs)
  have "y \<in> set (x # xs)" if "y \<in> set (pq_drain lt (remove1 (pq_top lt x xs) (x # xs)))" for y
    using that pq_drain_mset [of lt "remove1 (pq_top lt x xs) (x # xs)"]
    by (metis mset_eq_setD notin_set_remove1)
  then show ?case using 2 pq_top_max [OF 2(2)] by (simp add: Let_def)
qed simp

section \<open>Permutations\<close>

text \<open>\<open>std::next_permutation\<close>: the successor and true, or for the last permutation the first one and false.\<close>

fun next_permutation :: "'a :: linorder list \<Rightarrow> bool \<times> 'a list" where
  "next_permutation [] = (False, [])"
| "next_permutation (x # xs) =
     (let (more, ys) = next_permutation xs in
        if more then (True, x # ys)
        else case dropWhile (\<lambda>y. y \<le> x) ys of
            [] \<Rightarrow> (False, ys @ [x])
          | y # zs \<Rightarrow> (True, y # takeWhile (\<lambda>y. y \<le> x) ys @ x # zs))"

definition later :: "'a :: linorder list \<Rightarrow> 'a list set" where
  "later xs = {zs. mset zs = mset xs \<and> xs < zs}"

lemma sorted_least: "sorted ss \<Longrightarrow> mset zs = mset ss \<Longrightarrow> ss \<le> (zs :: 'a :: linorder list)"
proof (induction ss arbitrary: zs)
  case (Cons s ss)
  then obtain z zs' where z: "zs = z # zs'" by (cases zs) auto
  have "z \<in> set (s # ss)" using Cons.prems(2) mset_eq_setD z by (metis list.set_intros(1))
  then have "s \<le> z" using Cons.prems(1) by auto
  moreover have "s = z \<Longrightarrow> ss \<le> zs'" using Cons.IH [of zs'] Cons.prems z by simp
  ultimately show ?case by (auto simp: z)
qed simp

lemma next_permutation_spec:
  "next_permutation xs = (more, ys) \<Longrightarrow>
    mset ys = mset xs \<and> (if more then ys \<in> later xs \<and> (\<forall>zs\<in>later xs. ys \<le> zs) else ys = sort xs \<and> later xs = {})"
proof (induction xs arbitrary: more ys)
  case Nil
  then show ?case by (auto simp: later_def)
next
  case (Cons x xs)
  obtain m us where n: "next_permutation xs = (m, us)" by fastforce
  note IH = Cons.IH [OF n]
  show ?case
  proof (cases m)
    case True
    then have ys: "more" "ys = x # us" using Cons.prems n by simp_all
    have "x # us \<le> zs" if l: "zs \<in> later (x # xs)" for zs
    proof -
      obtain z zs' where z: "zs = z # zs'" using l by (cases zs) (auto simp: later_def)
      have "z = x \<Longrightarrow> zs' \<in> later xs" using l z by (auto simp: later_def)
      then show ?thesis using l IH True z by (auto simp: later_def)
    qed
    then show ?thesis using IH True ys by (auto simp: later_def)
  next
    case False
    then have us: "us = sort xs" "later xs = {}" "mset us = mset xs" using IH by simp_all
    have first: "x < hd zs \<and> hd zs \<in> set us \<and> zs \<noteq> []" if l: "zs \<in> later (x # xs)" for zs
    proof -
      obtain z zs' where z: "zs = z # zs'" using l by (cases zs) (auto simp: later_def)
      have "z \<noteq> x" using l z us(2) by (auto simp: later_def)
      moreover have "mset (z # zs') = mset (x # xs)" using l z by (simp add: later_def)
      then have "z \<in> set (x # xs)" by (metis list.set_intros(1) mset_eq_setD)
      ultimately show ?thesis using l z us(1) by (auto simp: later_def)
    qed
    show ?thesis
    proof (cases "dropWhile (\<lambda>y. y \<le> x) us")
      case Nil
      then have small: "\<forall>y\<in>set us. y \<le> x" by (simp add: dropWhile_eq_Nil_conv)
      then have "later (x # xs) = {}" using first by (meson ex_in_conv leD)
      moreover have "us @ [x] = sort (x # xs)"
        using small us by (intro properties_for_sort [symmetric]) (auto simp: sorted_append)
      moreover have "\<not> more" "ys = us @ [x]" using Cons.prems n False Nil by simp_all
      ultimately show ?thesis using us(3) by simp
    next
      case (Cons y zs)
      obtain t where t: "t = takeWhile (\<lambda>y. y \<le> x) us" by simp
      have split: "us = t @ y # zs" using takeWhile_dropWhile_id [of "\<lambda>y. y \<le> x" us] Cons t by simp
      have y: "x < y" using hd_dropWhile [of "\<lambda>y. y \<le> x" us] Cons by simp
      have sorted: "sorted (t @ y # zs)" using us(1) split by (metis sorted_sort)
      have low: "\<forall>w\<in>set t. w \<le> x" using t by (meson set_takeWhileD)
      have ys: "more" "ys = y # t @ x # zs" using Cons.prems n False Cons t by simp_all
      have m: "mset ys = mset (x # xs)" using us(3) arg_cong [OF split, of mset] ys by simp
      have rest: "sorted (t @ x # zs)" using sorted y low by (auto simp: sorted_append)
      have "ys \<le> ws" if l: "ws \<in> later (x # xs)" for ws
      proof -
        obtain w ws' where w: "ws = w # ws'" "x < w" "w \<in> set us" using first [OF l] by (cases ws) auto
        then have "y \<le> w" using split sorted low by (auto simp: sorted_append)
        moreover have "mset (w # ws') = mset ys" using l w m by (simp add: later_def)
        then have "w = y \<Longrightarrow> t @ x # zs \<le> ws'" using sorted_least [OF rest, of ws'] ys by simp
        ultimately show ?thesis by (auto simp: w(1) ys)
      qed
      moreover have "ys \<in> later (x # xs)" using m y ys by (simp add: later_def)
      ultimately show ?thesis using m ys(1) by simp
    qed
  qed
qed

text \<open>The loop that prints a permutation and asks for the next: the printed ones and the range at its end.\<close>

lemma finite_later: "finite (later xs)"
proof (rule finite_subset)
  show "later xs \<subseteq> {zs. set zs \<subseteq> set xs \<and> length zs = length xs}"
    by (auto simp: later_def dest: mset_eq_setD mset_eq_length)
qed (simp add: finite_lists_length_eq)

lemma later_next:
  assumes "next_permutation xs = (True, ys)"
  shows "later xs = insert ys (later ys)" "ys \<notin> later ys"
  using next_permutation_spec [OF assms] by (auto simp: later_def)

function permutation_loop :: "'a :: linorder list \<Rightarrow> 'a list list \<times> 'a list" where
  "permutation_loop xs =
     (let (more, ys) = next_permutation xs in
        if more then let (out, rest) = permutation_loop ys in (xs # out, rest) else ([xs], ys))"
  by pat_completeness auto
termination
proof (relation "measure (\<lambda>xs. card (later xs))")
  fix xs :: "'a list" and p more ys
  assume "p = next_permutation xs" "(more, ys) = p" "more"
  then have "next_permutation xs = (True, ys)" by simp
  from later_next [OF this] show "(ys, xs) \<in> measure (\<lambda>xs. card (later xs))" using finite_later [of ys] by simp
qed simp

declare permutation_loop.simps [simp del]

lemma permutation_loop_spec:
  "set (fst (permutation_loop xs)) = insert xs (later xs) \<and> sorted_wrt (<) (fst (permutation_loop xs))
    \<and> snd (permutation_loop xs) = sort xs"
proof (induction xs rule: permutation_loop.induct)
  case (1 xs)
  obtain more ys where n: "next_permutation xs = (more, ys)" by fastforce
  show ?case
  proof (cases more)
    case True
    note IH = 1 [OF n [symmetric] refl True]
    have step: "permutation_loop xs = (xs # fst (permutation_loop ys), snd (permutation_loop ys))"
      using n True by (subst permutation_loop.simps) (simp add: case_prod_beta)
    have "mset ys = mset xs" using next_permutation_spec [OF n] by simp
    then have "sort ys = sort xs" by (metis properties_for_sort sorted_sort mset_sort)
    moreover have "xs < zs" if "zs \<in> insert ys (later ys)" for zs
      using that later_next(1) n True by (auto simp: later_def)
    ultimately show ?thesis using IH later_next(1) [of xs ys] n True by (simp add: step)
  next
    case False
    then have "permutation_loop xs = ([xs], ys)" using n by (subst permutation_loop.simps) simp
    then show ?thesis using next_permutation_spec [OF n] False by simp
  qed
qed

lemma permutations_of_sorted:
  assumes "sorted xs"
  shows "set (fst (permutation_loop xs)) = {zs. mset zs = mset xs}"
proof -
  have "insert xs (later xs) = {zs. mset zs = mset xs}"
    using sorted_least [OF assms] by (fastforce simp: later_def)
  then show ?thesis using permutation_loop_spec [of xs] by simp
qed

section \<open>Sorted ranges\<close>

fun std_merge :: "('a \<Rightarrow> 'a \<Rightarrow> bool) \<Rightarrow> 'a list \<Rightarrow> 'a list \<Rightarrow> 'a list" where
  "std_merge lt [] ys = ys"
| "std_merge lt xs [] = xs"
| "std_merge lt (x # xs) (y # ys) = (if lt y x then y # std_merge lt (x # xs) ys else x # std_merge lt xs (y # ys))"

lemma std_merge_mset: "mset (std_merge lt xs ys) = mset xs + mset ys"
  by (induction lt xs ys rule: std_merge.induct) auto

lemma std_merge_sorted:
  "weak_order lt \<Longrightarrow> sorted_wrt (\<lambda>a b. \<not> lt b a) xs \<Longrightarrow> sorted_wrt (\<lambda>a b. \<not> lt b a) ys \<Longrightarrow>
    sorted_wrt (\<lambda>a b. \<not> lt b a) (std_merge lt xs ys)"
proof (induction lt xs ys rule: std_merge.induct)
  case (3 lt x xs y ys)
  note w = weak_orderD [OF 3(3)]
  have s: "set (std_merge lt us vs) = set us \<union> set vs" for us vs
    using std_merge_mset [of lt us vs] by (metis set_mset_mset set_mset_union)
  show ?case
  proof (cases "lt y x")
    case True
    then have "\<not> lt z y" if "z \<in> set (x # xs)" for z using 3(4) that w(2) [OF True] w(3) [of z y x] by auto
    then show ?thesis using 3 True by (auto simp: s)
  next
    case False
    then have "\<not> lt z x" if "z \<in> set (y # ys)" for z using 3(5) that w(4) [of z y x] by auto
    then show ?thesis using 3 False by (auto simp: s)
  qed
qed auto

fun set_union :: "'a :: linorder list \<Rightarrow> 'a list \<Rightarrow> 'a list" where
  "set_union [] ys = ys"
| "set_union xs [] = xs"
| "set_union (x # xs) (y # ys) =
     (if x < y then x # set_union xs (y # ys) else if y < x then y # set_union (x # xs) ys else x # set_union xs ys)"

fun set_intersection :: "'a :: linorder list \<Rightarrow> 'a list \<Rightarrow> 'a list" where
  "set_intersection [] ys = []"
| "set_intersection xs [] = []"
| "set_intersection (x # xs) (y # ys) =
     (if x < y then set_intersection xs (y # ys) else if y < x then set_intersection (x # xs) ys
      else x # set_intersection xs ys)"

fun std_includes :: "'a :: linorder list \<Rightarrow> 'a list \<Rightarrow> bool" where
  "std_includes xs [] = True"
| "std_includes [] (y # ys) = False"
| "std_includes (x # xs) (y # ys) = (if y < x then False else if x < y then std_includes xs (y # ys) else std_includes xs ys)"

lemma set_union_set: "set (set_union xs ys) = set xs \<union> set ys"
  by (induction xs ys rule: set_union.induct) auto

lemma set_union_sorted: "sorted_wrt (<) xs \<Longrightarrow> sorted_wrt (<) ys \<Longrightarrow> sorted_wrt (<) (set_union xs ys)"
  by (induction xs ys rule: set_union.induct) (auto simp: set_union_set)

lemma set_intersection_set: "sorted_wrt (<) xs \<Longrightarrow> sorted_wrt (<) ys \<Longrightarrow> set (set_intersection xs ys) = set xs \<inter> set ys"
  by (induction xs ys rule: set_intersection.induct) auto

lemma std_includes_set: "sorted_wrt (<) xs \<Longrightarrow> sorted_wrt (<) ys \<Longrightarrow> std_includes xs ys \<longleftrightarrow> set ys \<subseteq> set xs"
  by (induction xs ys rule: std_includes.induct) auto

text \<open>\<open>lower_bound\<close> and \<open>upper_bound\<close> as the part of the range from there on.\<close>

definition lower_bound :: "'a :: linorder \<Rightarrow> 'a list \<Rightarrow> 'a list" where
  "lower_bound v xs = dropWhile (\<lambda>x. x < v) xs"

definition upper_bound :: "'a :: linorder \<Rightarrow> 'a list \<Rightarrow> 'a list" where
  "upper_bound v xs = dropWhile (\<lambda>x. x \<le> v) xs"

definition binary_search :: "'a :: linorder \<Rightarrow> 'a list \<Rightarrow> bool" where
  "binary_search v xs = (case lower_bound v xs of [] \<Rightarrow> False | x # _ \<Rightarrow> \<not> v < x)"

lemma binary_search_in: "sorted xs \<Longrightarrow> binary_search v xs \<longleftrightarrow> v \<in> set xs"
  by (induction xs) (auto simp: binary_search_def lower_bound_def)

section \<open>Numbers\<close>

fun iota :: "nat \<Rightarrow> int \<Rightarrow> int list" where
  "iota 0 v = []"
| "iota (Suc n) v = v # iota n (v + 1)"

fun inner_product :: "int list \<Rightarrow> int list \<Rightarrow> int \<Rightarrow> int" where
  "inner_product (x # xs) (y # ys) init = inner_product xs ys (init + x * y)"
| "inner_product xs ys init = init"

fun differences :: "int \<Rightarrow> int list \<Rightarrow> int list" where
  "differences a [] = []"
| "differences a (x # xs) = (x - a) # differences x xs"

definition adjacent_difference :: "int list \<Rightarrow> int list" where
  "adjacent_difference xs = differences 0 xs"

fun sums :: "int \<Rightarrow> int list \<Rightarrow> int list" where
  "sums a [] = []"
| "sums a (x # xs) = (a + x) # sums (a + x) xs"

definition partial_sum :: "int list \<Rightarrow> int list" where
  "partial_sum xs = sums 0 xs"

lemma partial_sum_difference: "partial_sum (adjacent_difference xs) = xs"
proof -
  have "sums a (differences a xs) = xs" for a by (induction xs arbitrary: a) simp_all
  then show ?thesis by (simp add: partial_sum_def adjacent_difference_def)
qed

end
