(* ===== verification/Stl_Demos.thy ===== *)
theory Stl_Demos
  imports Stl_Programs Std_Algorithms Cxx_Streams
begin

text \<open>
  The demonstrations of containers and algorithms in \<open>using-the-c++-standard-template-libraries/all/main.cpp\<close>: what
  each writes to \<open>std::cout\<close>, or the values it leaves behind. Left out are the demonstrations on floating point, heaps
  (whose layout the library chooses), clocks and distributions other than of integers, and labels that go to
  \<open>std::wcout\<close>.
\<close>

abbreviation nl :: string where "nl \<equiv> [CHR 0x0A]"

text \<open>\<open>std::copy\<close> to an \<open>ostream_iterator\<close> with a blank after every element.\<close>

definition put_ints :: "int list \<Rightarrow> string" where
  "put_ints xs = concat (map (\<lambda>x. int_text x @ '' '') xs)"

definition put_words :: "string list \<Rightarrow> string" where
  "put_words ws = concat (map (\<lambda>w. w @ '' '') ws)"

definition bool_text :: "bool \<Rightarrow> string" where
  "bool_text b = (if b then ''true'' else ''false'')"

definition title :: "string \<Rightarrow> string" where
  "title name = nl @ nl @ name @ ''============================'' @ nl"

section \<open>Containers\<close>

definition test_array :: "string option" where
  "test_array =
     (let words = [''one'', ''two'', ''three'', ''four'', ''five''];
          values = iota 10 10
      in case bubble_sort words of
           Some (Returns words') \<Rightarrow> Some (words ! 3 @ nl @ ''double values'' @ nl @ put_ints values @ nl @ concat words')
         | _ \<Rightarrow> None)"

definition insert_at :: "nat \<Rightarrow> 'a \<Rightarrow> 'a list \<Rightarrow> 'a list" where
  "insert_at i x xs = take i xs @ x # drop i xs"

definition find_index :: "('a \<Rightarrow> bool) \<Rightarrow> 'a list \<Rightarrow> nat" where
  "find_index P xs = length (takeWhile (\<lambda>x. \<not> P x) xs)"

text \<open>The vector of words, the position of \<open>second\<close> in it, the emptied vector, and the words kept by \<open>std::remove\<close>.\<close>

definition test_vector :: "string list \<times> nat \<times> int list \<times> string list" where
  "test_vector =
     (let words = [''first'', ''second''];
          words = insert_at 1 (replicate 5 CHR ''A'') words; iter = 1 + 1;
          words = insert_at iter ''$$$$$'' words;
          iter2 = find_index (\<lambda>w. w = ''second'') words;
          data = replicate 100 (99 :: int); data = take 1 data @ drop 2 data; data = butlast data; data = [];
          words2 = [''one'', ''two'', ''none'', ''four'', ''five'', ''none'', ''most'', ''all''];
          kept = filter (\<lambda>w. w \<noteq> ''none'') words2
      in (words, iter2, data, kept))"

definition test_deque :: "string \<times> int list \<times> string list" where
  "test_deque =
     (let words = [''one'', ''two'', ''none'', ''four'', ''five'', ''none'', ''most'', ''all'']; out = words ! 2 @ nl;
          numbers = [2, 3, 4]; numbers = 11 # numbers; numbers = numbers @ [12]; numbers = tl numbers;
          words = [''seven'', ''eight'', ''nine'']; words = replicate 8 ''eight''; words = [''seven'', ''eight'', ''nine'']
      in (out, numbers, words))"

definition test_list :: "string list \<times> int list" where
  "test_list =
     (let names = [''jane'', ''jim'', ''jules'', ''janet''];
          names = ''ian'' # names; names = names @ [''kitty'']; names = ''ian'' # names; names = names @ [''kitty''];
          numbers = [2, 5, 2, 3, 6, 7, 8, 2, 9];
          numbers = filter (\<lambda>n. n \<noteq> 2) numbers; numbers = filter (\<lambda>n. n mod 2 \<noteq> 0) numbers;
          names = stable_sort (>) names; names = stable_sort my_greater names
      in (names, numbers))"

definition test_priority_queue :: string where
  "test_priority_queue =
     (let samples = [''one'', ''two'', ''three'', ''four'']; values = [21, 22, 12, 3, 24, 54, 56]
      in nl @ ''priority_queue'' @ nl @ put_words (pq_drain (<) samples) @ nl @ put_words (pq_drain (>) samples) @ nl
         @ put_ints (pq_drain (<) values) @ nl)"

text \<open>A map is the list of its pairs in the order of the keys; \<open>insert\<close> does not overwrite and says whether it inserted.\<close>

fun map_insert :: "string \<times> int \<Rightarrow> (string \<times> int) list \<Rightarrow> (string \<times> int) list \<times> bool" where
  "map_insert p [] = ([p], True)"
| "map_insert p (q # m) =
     (if fst p < fst q then (p # q # m, True) else if fst p = fst q then (q # m, False)
      else let (m', b) = map_insert p m in (q # m', b))"

fun multimap_insert :: "string \<times> int \<Rightarrow> (string \<times> int) list \<Rightarrow> (string \<times> int) list" where
  "multimap_insert p [] = [p]"
| "multimap_insert p (q # m) = (if fst p < fst q then p # q # m else q # multimap_insert p m)"

definition setw_left :: "nat \<Rightarrow> string \<Rightarrow> string" where
  "setw_left n s = s @ replicate (n - length s) CHR '' ''"

definition test_map :: "string \<times> (string \<times> int) list" where
  "test_map =
     (let people = fold (\<lambda>p m. fst (map_insert p m)) [(''Ann'', 25), (''Bill'', 46), (''Jack'', 32), (''Jill'', 32)] [];
          pr = (''Fred'', 22);
          (people, ret) = map_insert pr people;
          out = title ''map'' @ fst pr @ '' '' @ int_text (snd pr) @ '' '' @ bool_text ret @ '' '' @ nl
            @ concat (map (\<lambda>p. setw_left 10 (fst p) @ '' '' @ int_text (snd p) @ '' '' @ nl) people);
          people = fst (map_insert (''Baker'', 43) people);
          people = (if ''Ian'' \<notin> fst ` set people then fst (map_insert (''Ian'', 38) people) else people);
          people = filter (\<lambda>p. fst p \<noteq> ''Jill'') people
      in (out, people))"

definition test_multimap :: string where
  "test_multimap =
     (let people = fold multimap_insert [(''Ann'', 25), (''Bill'', 46), (''Jack'', 32), (''Jill'', 32), (''Jack'', 77)] [];
          name = ''Bill'';
          found = dropWhile (\<lambda>p. fst p \<noteq> name) people;
          jacks = filter (\<lambda>p. fst p = ''Jack'') people
      in title ''multimap''
         @ (case found of [] \<Rightarrow> [] | p # _ \<Rightarrow> name @ '' is '' @ int_text (snd p) @ nl)
         @ concat (map (\<lambda>p. fst p @ '' is '' @ int_text (snd p) @ nl) jacks))"

definition test_tuple :: string where
  "test_tuple =
     (let t1 = (''Peter Piper'', 42 :: int, ''916 826 8268''); (name, age, phone) = t1;
          t4 = (''these'', ''those''); t5 = (''this'', ''that'')
      in title ''tuple'' @ fst t1 @ '' age = '' @ int_text (fst (snd t1)) @ '' tel = '' @ snd (snd t1) @ nl
         @ nl @ int_text (fst (snd t1)) @ nl
         @ name @ '' age = '' @ int_text age @ '' tel = '' @ phone @ nl
         @ bool_text (fst t4 < fst t5 \<or> fst t4 = fst t5 \<and> snd t4 < snd t5) @ nl)"

text \<open>The set of shared pointers is ordered by their owners, so \<open>owner\<close> is any order of the four texts.\<close>

definition test_set :: "(string list \<Rightarrow> string list) \<Rightarrow> string \<times> int list \<times> int list" where
  "test_set owner =
     (let numbers = sort [8, 7, 6, 5, 4, 3, 2, 1 :: int];
          group = owner [''zzzz'', ''aaaa'', ''bbbb'', ''cccc''];
          set1 = [1, 2, 3, 4, 5, 6]; set2 = [4, 5, 6, 7, 8, 9];
          union_res = set_union set1 set2; inter_res = set_intersection set1 set2;
          words1 = sort [''one'', ''two'', ''three'', ''four'', ''five'', ''six'']; words2 = sort [''two'', ''four'', ''one'']
      in (title ''multimap'' @ put_ints numbers @ concat (map (\<lambda>w. nl @ w) group) @ nl
          @ put_ints (set_union set1 set2) @ nl @ bool_text (std_includes words1 words2) @ nl,
          union_res, inter_res))"

section \<open>Algorithms\<close>

text \<open>\<open>std::partial_sort\<close> orders the first \<open>n\<close>, the smallest, and leaves the others in any order.\<close>

definition partial_sorts :: "(nat \<Rightarrow> int list \<Rightarrow> int list) \<Rightarrow> bool" where
  "partial_sorts psort \<longleftrightarrow> (\<forall>n xs. mset (psort n xs) = mset xs \<and> take n (psort n xs) = take n (sort xs))"

definition partial_sort_copy :: "int list \<Rightarrow> int list \<Rightarrow> int list" where
  "partial_sort_copy xs result = take (length result) (sort xs) @ drop (length xs) result"

definition test_sort :: "(nat \<Rightarrow> int list \<Rightarrow> int list) \<Rightarrow> string" where
  "test_sort psort =
     (let numbers = [99, 77, 33, 66, 22, 11, 44, 88]; numbers1 = stable_sort (<) numbers;
          numbers2 = stable_sort (>) numbers1;
          stable = stable_sort (<) [99, 77, 33, 33, 66, 22, 11, 33, 44, 88, 44];
          pnumbers = psort 5 [22, 7, 93, 45, 19, 56, 88, 12, 8, 7, 15, 10];
          result = partial_sort_copy (take 0 pnumbers) (replicate 5 0)
      in title ''sort'' @ put_ints numbers1 @ nl @ put_ints numbers2 @ nl @ put_ints stable @ nl @ put_ints pnumbers @ nl
         @ ''number is '' @ (if sorted result then [] else ''not '') @ ''in ascending sequence.'' @ nl)"

definition test_merge :: string where
  "test_merge =
     (let n1 = stable_sort (>) [2, 15, 4, 11, 6, 7 :: int]; n2 = stable_sort (>) [5, 2, 3, 2, 14, 11, 6];
          result = replicate (length n1 + length n2 + 10) 0;
          merged = std_merge (>) n1 n2; result = merged @ drop (length merged) result; end_iter = length merged
      in title ''merge'' @ put_ints result @ nl @ put_ints (take end_iter result) @ nl)"

fun adjacent_find :: "'a list \<Rightarrow> nat" where
  "adjacent_find [] = 0"
| "adjacent_find [x] = 1"
| "adjacent_find (x # y # xs) = (if x = y then 0 else Suc (adjacent_find (y # xs)))"

text \<open>The bounds are dereferenced without a test; here the ranges are not empty.\<close>

definition test_find :: string where
  "test_find =
     (let n1 = [2, 15, 4, 11, 6, 7 :: int]; v = 11; cmp = 8;
          iter = find_index (\<lambda>n. n = v) n1; iter1 = find_index (\<lambda>n. n > cmp) n1;
          txt = ''The world of searching hhh''; vowels = ''aeiou'';
          it_ff = find_index (\<lambda>c. c \<in> set vowels) txt; it_aj = adjacent_find txt;
          values = stable_sort (<) [17, 11, 40, 36, 22, 54, 48, 70, 61, 82, 78, 89, 99, 92, 43 :: int]; wanted = 22;
          lb = int_text (hd (lower_bound wanted values)); ub = int_text (hd (upper_bound wanted values));
          bounds = ''lower bound for '' @ int_text wanted @ '' is '' @ lb @ nl @ ''upper bound for '' @ int_text wanted @ '' is '' @ ub @ nl
      in title ''find''
         @ (if iter < length n1 then int_text v @ '' was found.'' @ nl else [])
         @ (if iter1 < length n1 then int_text (n1 ! iter1) @ '' was found greater than '' @ int_text cmp @ ''.'' @ nl else [])
         @ (if it_ff < length txt then ''We found '' @ [CHR 0x27, txt ! it_ff, CHR 0x27, CHR ''.''] @ nl else [])
         @ (if it_aj < length txt
            then ''In the following text: '' @ txt @ nl @ [txt ! it_aj] @ '' is repeated starting at index position ''
              @ int_text (int it_aj) @ nl
            else [])
         @ int_text wanted @ (if binary_search wanted values then '' is in there.'' else '' cannot be found.'') @ nl
         @ bounds @ bounds)"

definition test_cond :: string where
  "test_cond =
     (let values = [17, 11, 40, 36, 22, 54, 48, 70, 61, 82, 78, 89, 99, 92, 43 :: int]; min_age = 18; max_age = 60
      in title ''cond''
         @ ''there are '' @ (if \<not> list_ex (\<lambda>age. age < min_age) values then ''no'' else ''some'') @ '' people under '' @ int_text min_age @ nl
         @ ''there are '' @ (if list_ex (\<lambda>age. age < min_age) values then ''some'' else ''no'') @ '' people under '' @ int_text min_age @ nl
         @ (if list_all (\<lambda>age. age < 100) values then ''None'' else ''Some'') @ '' of the people are centenarians.'' @ nl
         @ ''There are '' @ int_text (int (length (filter (\<lambda>age. age = 11) values))) @ '' people aged 11.'' @ nl
         @ ''There are '' @ int_text (int (length (filter (\<lambda>age. age > max_age) values))) @ '' people aged over '' @ int_text max_age @ nl)"

text \<open>\<open>std::equal\<close> with the start of the second range only: it must be long enough (\<open>None\<close> otherwise).\<close>

fun equal3 :: "'a list \<Rightarrow> 'a list \<Rightarrow> bool option" where
  "equal3 [] ys = Some True"
| "equal3 (x # xs) [] = None"
| "equal3 (x # xs) (y # ys) = (if x = y then equal3 xs ys else Some False)"

lemma equal3_prefix: "length xs \<le> length ys \<Longrightarrow> equal3 xs ys = Some (xs = take (length xs) ys)"
  by (induction xs ys rule: equal3.induct) auto

text \<open>The seven answers.\<close>

definition test_equal :: "bool option list" where
  "test_equal =
     (let w1 = [''one'', ''two'', ''three'', ''four'', ''five'', ''six'']; w2 = [''two'', ''three'', ''four'', ''five'', ''six'', ''seven'']
      in [equal3 (drop 1 w1) w2, equal3 (butlast w2) w1, equal3 (take 3 (drop 1 w1)) w2, Some (take 3 w1 = take 3 w2),
          equal3 w1 w2, Some (w1 = w2), Some (drop 1 w1 = butlast w2)])"

definition test_permutation :: string where
  "test_permutation =
     (let (out, rest) = permutation_loop [1, 2, 3, 4]; range2 = [4, 3, 1, 2]
      in title ''perm'' @ concat (map (\<lambda>xs. put_ints xs @ nl) out)
         @ (if mset rest = mset range2 then ''is permutation'' else ''not permutation'') @ nl)"

definition test_fill :: "int list \<times> string" where
  "test_fill =
     (let data = [12 :: int]; data = map (\<lambda>_. 3) data;
          chars = map (\<lambda>k. char_of (of_char CHR ''a'' + (3 * (k + 1)) mod 26 :: nat)) [0..<30]
      in (data, title ''fill'' @ chars @ nl))"

definition test_numeric :: string where
  "test_numeric =
     (let data = iota 9 (-4); v1 = iota 10 2; v2 = iota 10 3; ad = [2, 3, 5, 7, 11, 13]
      in title ''numeric'' @ concat (map (\<lambda>x. int_text x @ ''.0 '') data) @ nl
         @ ''inner product: '' @ int_text (inner_product v1 v2 0) @ nl
         @ put_ints (adjacent_difference ad) @ nl @ put_ints (partial_sum ad) @ nl)"

section \<open>Input, files and random numbers\<close>

text \<open>Words up to \<open>!\<close>: an iterator that has reached the end of the input is dereferenced, which is undefined.\<close>

function words_to_mark :: "istream \<Rightarrow> (string list \<times> istream) outcome" where
  "words_to_mark s =
     (let (word, s') = read_string [] s in
        if failbit s' then Undefined
        else if word = ''!'' then Returns ([], s')
        else and_then (words_to_mark s') (\<lambda>(ws, t). Returns (word # ws, t)))"
  by pat_completeness auto
termination
  by (relation "measure (\<lambda>s. length (unread s))") (auto dest: read_string_shorter [OF sym])

text \<open>The sum of the integers up to the first text that is none; an overflow of \<open>int\<close> is undefined.\<close>

function sum_of_ints :: "int \<Rightarrow> istream \<Rightarrow> int outcome" where
  "sum_of_ints acc s =
     (let (v, s') = read_int s in
        if failbit s' then Returns acc
        else if acc + v < - (2 ^ 31) \<or> acc + v \<ge> 2 ^ 31 then Undefined
        else sum_of_ints (acc + v) s')"
  by pat_completeness auto
termination
  by (relation "measure (\<lambda>(_, s). length (unread s))") (auto dest: read_int_shorter [OF sym])

declare words_to_mark.simps [simp del] sum_of_ints.simps [simp del]

text \<open>The words and the total.\<close>

definition test_istream :: "istream \<Rightarrow> (string list \<times> int) outcome" where
  "test_istream s = and_then (words_to_mark s) (\<lambda>(words, s). and_then (sum_of_ints 0 s) (\<lambda>total. Returns (words, total)))"

text \<open>What is printed, and written to the file.\<close>

definition test_bufiterator :: "string \<Rightarrow> string \<times> string" where
  "test_bufiterator input =
     (let rubbish = takeWhile (\<lambda>c. c \<noteq> CHR ''*'') input in (title ''bufiter'' @ rubbish @ nl, rubbish))"

text \<open>The last iterator has a delimiter, which follows the line break too. \<open>file\<close> is the dictionary, if it can be opened.\<close>

definition test_ostream :: "string option \<Rightarrow> string" where
  "test_ostream file =
     (let words = [''the'', ''quick'', ''brown'', ''fox'', ''jumped'', ''over'', ''the'', ''lazy'', ''dog'']
      in title ''ostream'' @ put_words words @ nl @ put_words words @ nl @ put_words words @ nl @ '' ''
         @ (case file of None \<Rightarrow> []
            | Some input \<Rightarrow> decimal (length (remdups (read_words input))) @ '' words in dictionary.'' @ nl))"

definition test_stringstream :: "string option \<Rightarrow> string" where
  "test_stringstream file =
     title ''stringstream''
     @ (case file of None \<Rightarrow> [] | Some input \<Rightarrow> (if ''3'' \<in> set (read_words input) then ''3 found.'' @ nl else []))"

text \<open>A distribution is its range; \<open>draw\<close> gives the eight numbers the generator makes of a range. What the four loops use.\<close>

definition test_random :: "(int \<times> int \<Rightarrow> nat \<Rightarrow> int list) \<Rightarrow> int list list" where
  "test_random draw =
     (let dist = (-5, 5); first = draw dist 0;
          dist2 = (0, 6); second = draw dist2 1;
          old_range = dist2; dist2 = (-10, 20); third = draw dist2 2;
          dist = old_range; fourth = draw dist2 3
      in [first, second, third, fourth])"

section \<open>Results\<close>

lemma test_array_prints:
  "test_array = Some (''four'' @ nl @ ''double values'' @ nl @ put_ints [10, 11, 12, 13, 14, 15, 16, 17, 18, 19] @ nl @ ''fivefouronethreetwo'')"
proof -
  have "bubble_loop [''one'', ''two'', ''three'', ''four'', ''five''] = Some (sort [''one'', ''two'', ''three'', ''four'', ''five''])"
    by (rule bubble_loop_sorts)
  moreover have "sort [''one'', ''two'', ''three'', ''four'', ''five''] = [''five'', ''four'', ''one'', ''three'', ''two'']"
    by code_simp
  moreover have "iota 10 10 = [10, 11, 12, 13, 14, 15, 16, 17, 18, 19]" by code_simp
  ultimately show ?thesis by (simp add: test_array_def bubble_sort_def del: iota.simps)
qed

lemma containers_leave:
  "test_vector = ([''first'', ''AAAAA'', ''$$$$$'', ''second''], 3, [], [''one'', ''two'', ''four'', ''five'', ''most'', ''all''])"
  "test_deque = (''none'' @ nl, [2, 3, 4, 12], [''seven'', ''eight'', ''nine''])"
  "test_list = ([''kitty'', ''kitty'', ''jules'', ''janet'', ''jane'', ''jim'', ''ian'', ''ian''], [5, 3, 7, 9])"
  by code_simp+

lemma priority_queue_prints:
  "test_priority_queue = nl @ ''priority_queue'' @ nl @ ''two three one four '' @ nl @ ''four one three two '' @ nl @ ''56 54 24 22 21 12 3 '' @ nl"
  by code_simp

lemma equal_answers:
  "test_equal = [Some True, Some False, Some True, Some False, Some False, Some False, Some True]"
  by code_simp

lemma numeric_prints:
  "test_numeric = title ''numeric'' @ ''-4.0 -3.0 -2.0 -1.0 0.0 1.0 2.0 3.0 4.0 '' @ nl @ ''inner product: 570'' @ nl
    @ ''2 1 2 2 4 2 '' @ nl @ ''2 5 10 17 28 41 '' @ nl"
  by code_simp

lemma merge_prints:
  "test_merge = title ''merge'' @ ''15 14 11 11 7 6 6 5 4 3 2 2 2 0 0 0 0 0 0 0 0 0 0 '' @ nl @ ''15 14 11 11 7 6 6 5 4 3 2 2 2 '' @ nl"
  by code_simp

text \<open>Every permutation once, in order.\<close>

lemma permutations_printed:
  "\<exists>out. sorted_wrt (<) out \<and> set out = {xs. mset xs = {#1, 2, 3, 4#}}
    \<and> test_permutation = title ''perm'' @ concat (map (\<lambda>xs. put_ints xs @ nl) out) @ ''is permutation'' @ nl"
proof -
  let ?r = "permutation_loop [1, 2, 3, 4 :: int]"
  have "set (fst ?r) = {xs. mset xs = mset [1, 2, 3, 4]}" by (rule permutations_of_sorted) simp
  moreover have "sorted_wrt (<) (fst ?r)" "snd ?r = sort [1, 2, 3, 4]" using permutation_loop_spec by blast+
  moreover from this(2) have "mset (snd ?r) = mset [4, 3, 1, 2]" by (simp add: add_mset_commute)
  then have "test_permutation = title ''perm'' @ concat (map (\<lambda>xs. put_ints xs @ nl) (fst ?r)) @ ''is permutation'' @ nl"
    unfolding test_permutation_def Let_def case_prod_beta by (simp only: if_True simp_thms)
  ultimately show ?thesis by (intro exI [of _ "fst ?r"]) simp
qed

text \<open>The copy of an empty range leaves the zeros, which are in order whatever the sort has done.\<close>

lemma sort_claims_ascending: "\<exists>out. test_sort psort = out @ ''number is in ascending sequence.'' @ nl"
proof -
  have "sorted (partial_sort_copy (take 0 xs) (replicate 5 0))" for xs
    by (simp add: partial_sort_copy_def numeral_eq_Suc)
  moreover have "''number is '' @ [] @ ''in ascending sequence.'' @ nl = ''number is in ascending sequence.'' @ nl" by simp
  ultimately show ?thesis unfolding test_sort_def Let_def by (simp only: if_True) (metis append_assoc)
qed

text \<open>The old range is given to the other distribution, so the fourth loop draws from the range of the third.\<close>

lemma range_not_restored: "test_random (\<lambda>range _. replicate 8 (snd range)) ! 3 = replicate 8 20"
  by (simp add: test_random_def)

text \<open>Reading words: those before the mark, and undefined without one.\<close>

lemma read_string_words:
  assumes "read_string old s = (w, s')" "good s"
  shows "if failbit s' then read_words (unread s) = []
    else read_words (unread s) = w # read_words (unread s') \<and> (good s' \<or> unread s' = [])"
proof (cases "dropWhile isspace (unread s) = []")
  case True
  then show ?thesis using assms read_words.simps [of "unread s"] by (auto simp: read_string_def)
next
  case False
  let ?t = "dropWhile isspace (unread s)"
  have "read_words (unread s) = takeWhile (\<lambda>c. \<not> isspace c) ?t # read_words (dropWhile (\<lambda>c. \<not> isspace c) ?t)"
    by (subst read_words.simps) (simp only: Let_def False if_False)
  moreover have "w = takeWhile (\<lambda>c. \<not> isspace c) ?t" "unread s' = dropWhile (\<lambda>c. \<not> isspace c) ?t"
      "failbit s' = failbit s" "eofbit s' = (unread s' = [])"
    using assms False by (auto simp: read_string_def Let_def simp del: dropWhile_eq_Nil_conv)
  ultimately show ?thesis using assms(2) by (auto simp: good_def)
qed

lemma words_to_mark_spec:
  "good s \<or> unread s = [] \<Longrightarrow> case words_to_mark s of
      Returns (ws, t) \<Rightarrow> ''!'' \<in> set (read_words (unread s)) \<and> ws = takeWhile (\<lambda>w. w \<noteq> ''!'') (read_words (unread s))
    | Undefined \<Rightarrow> ''!'' \<notin> set (read_words (unread s)) | Blocks \<Rightarrow> False"
proof (induction s rule: words_to_mark.induct)
  case (1 s)
  obtain w s' where r: "read_string [] s = (w, s')" by fastforce
  show ?case
  proof (cases "good s")
    case False
    then have "failbit s'" "unread s = []" using r 1(2) by (auto simp: read_string_def)
    then show ?thesis by (subst words_to_mark.simps) (simp add: r read_words.simps [of "[]"])
  next
    case True
    note rw = read_string_words [OF r True]
    show ?thesis
    proof (cases "failbit s' \<or> w = ''!''")
      case True
      then show ?thesis using rw by (subst words_to_mark.simps) (auto simp: r split: if_splits)
    next
      case False
      with rw have ws: "read_words (unread s) = w # read_words (unread s')" and ok: "good s' \<or> unread s' = []" by simp_all
      have IH: "case words_to_mark s' of
          Returns (ws, t) \<Rightarrow> ''!'' \<in> set (read_words (unread s')) \<and> ws = takeWhile (\<lambda>w. w \<noteq> ''!'') (read_words (unread s'))
        | Undefined \<Rightarrow> ''!'' \<notin> set (read_words (unread s')) | Blocks \<Rightarrow> False"
        using 1(1) [OF refl r [symmetric] _ _ ok] False by simp
      have "words_to_mark s = and_then (words_to_mark s') (\<lambda>(ws, t). Returns (w # ws, t))"
        using False r by (subst words_to_mark.simps) simp
      then show ?thesis using IH False by (cases "words_to_mark s'") (auto simp: ws)
    qed
  qed
qed

theorem istream_needs_mark:
  assumes "good s" "''!'' \<notin> set (read_words (unread s))"
  shows "test_istream s = Undefined"
  using words_to_mark_spec [of s] assms by (cases "words_to_mark s") (auto simp: test_istream_def split: prod.splits)

end
