(* ===== verification/Spec2Isabelle.thy ===== *)
theory Spec2Isabelle
  imports Prelude Stream_Parser Http_Types Http_Parser Http_Grammar Http_Language Http_Requests
    Cxx_Library Cxx_Streams Http_Reply Http_Handler Asio_Net Http_Server Http_Client Http_Server2 Http_Server3 Http_Parser4 Http_Server4 Http_Network
    Chat_Message Write_Queue Chat_Server Chat_Client Chat_History Chat_Network Icmp Ping
    Node_Heap Simple_Queue Threadsafe_Queue Queue_Threads Queue_Invariant Queue_Safety Messaging Atm Atm_Safety
    Lookup_Table Hierarchical_Mutex Lock_Free_Stack Lock_Free_Invariant Lock_Free_Safety
    Hazard_Stack Hazard_Invariant Hazard_Safety Counted_Stack Counted_Safety
    Quick_Sort Thread_Pool Pool_Sort Parallel_Accumulate Thread_Basics
    Producer_Consumer Echo Datagrams Ssl_Echo Priority_Handlers Daytime Timers
    Gumball Remote_Control Weather Beverages Ducks Cards Stl_Programs Std_Algorithms Stl_Demos
begin

text \<open>
  Verification of the C++ projects of this repository.

  The repository is a collection of programs: network servers and clients over Boost.Asio
  (\<open>asio-examples\<close>), exercises with threads (\<open>cpp-concurrency-in-action\<close>), design patterns
  (\<open>head-first-design-patterns\<close>) and smaller experiments. The programs share no code; what this
  library shares is how it models them. An object is a record, a class hierarchy or a set of state
  objects a datatype, a member function a definition with the name of the function, asynchronous
  code and threads are step relations whose steps are the handlers or the single actions of a
  thread, in any order the library or the scheduler allows. Machine integers that can wrap are
  words; a null or dangling pointer, a missing return and the like are values of the type
  \<open>outcome\<close> of \<open>Node_Heap\<close>. What is not in the repository is a parameter: the file system, the
  contents of uninitialised memory (named \<open>garbage\<close>), the process identifier, the names of types.

  Shared theories. \<open>Prelude\<close>: strings, characters as the C++ code sees them, decimal numbers, maps
  on the last element of a list. \<open>Cxx_Library\<close>: the conversions of the C++ library the programs
  use (\<open>atoi\<close>, formatted output, hexadecimal input). \<open>Cxx_Streams\<close>: input streams of text. \<open>Stream_Parser\<close>: the locale of parsers that
  consume one character at a time, with the facts that hold for all of them (the result does not
  depend on how the input is cut). \<open>Asio_Net\<close>: connections, asynchronous operations and the locale
  \<open>connection_contract\<close> of a server that keeps at most one operation per connection.
  \<open>Write_Queue\<close>: the locale of an object that writes the front of a queue and pops it when the
  write completes. \<open>Node_Heap\<close>: nodes on a heap and the locale \<open>fifo\<close>. \<open>Messaging\<close>: queues of
  messages and chained dispatchers.

  The HTTP servers (\<open>asio-examples/http_server\<close> to \<open>http_server4\<close>).
    \<open>Http_Types\<close>: \<open>header.hpp\<close>, \<open>request.hpp\<close>, \<open>reply.hpp\<close>.
    \<open>Http_Parser\<close>: \<open>request_parser.cpp\<close>, one definition per group of cases of \<open>consume\<close>.
    \<open>Http_Grammar\<close>, \<open>Http_Language\<close>, \<open>Http_Requests\<close>: the grammar of requests, the proof that the
    parser accepts exactly its texts with exactly its results, and what follows: round trips,
    well-formed results, input in blocks, version numbers that overflow. The grammar has no bound on
    lengths and no fuel: the parser is a fold over the input.
    \<open>Http_Reply\<close>: \<open>reply.cpp\<close>, with a reader of replies as the specification of \<open>to_buffers\<close>.
    \<open>Http_Handler\<close>: \<open>request_handler.cpp\<close> and \<open>mime_types.cpp\<close>: decoding of URLs and its exact
    domain, confinement of the files that are opened, the bytes that are served.
    \<open>Http_Server\<close>, \<open>Http_Server2\<close>, \<open>Http_Server3\<close>: the connection, connection manager and server
    classes of the first three servers: single thread, one \<open>io_context\<close> per thread, a pool of
    threads. Their invariants bound the outstanding operations, and after a signal the first runs a bounded
    number of handlers until none is left; in the third no two handlers of one
    connection run at once. The parser, reply and handler files of servers 2 and 3 are those of the
    first in another namespace and have no model of their own.
    \<open>Http_Parser4\<close>, \<open>Http_Server4\<close>: the parser and the server written as coroutines, one point of
    the model per \<open>yield\<close>; the parser is related to that of the first server.
    \<open>Http_Client\<close>: \<open>http_client.cpp\<close> over a stream of the bytes still to be read, and the first
    server and this client together. \<open>Http_Network\<close>: \<open>file_handler.cpp\<close>, which answers as
    \<open>request_handler.cpp\<close>, and the fourth server with the client.

  The chat programs (\<open>asio-examples/chat_server\<close>, \<open>chat_client\<close>). \<open>Chat_Message\<close>: \<open>chat.hpp\<close>, a
  buffer of 516 bytes whose first four hold the length. \<open>Chat_Server\<close>: room, sessions and server.
  \<open>Chat_Client\<close>: the client and its input loop. \<open>Chat_History\<close>: runs of the server with the log of
  what the room delivered, and the order in which sessions are sent it. \<open>Chat_Network\<close>: server and
  clients together. Buffers are never overrun, sessions write what is delivered to them in order,
  lines arrive as they were typed, up to the first NUL character of each.

  Echo servers and handlers (\<open>asio-examples\<close>). \<open>Echo\<close>: \<open>async_tcp_echo_server\<close>, whose sessions delete
  themselves; \<open>allocation\<close>, shown to refine it, with the memory of each operation; and
  \<open>async_udp_echo_server\<close>. \<open>Datagrams\<close>: \<open>blocking_udp_echo_client\<close> with that server,
  \<open>multicast_sender\<close> and \<open>multicast_receiver\<close>. \<open>Ssl_Echo\<close>: \<open>ssl_server\<close>, shown to refine the plain echo
  server, and \<open>ssl_client\<close>. \<open>Priority_Handlers\<close>: the queue of \<open>invocation\<close>. \<open>Daytime\<close>: the servers of
  \<open>asio-tutorial/2.Daytime.7\<close> and \<open>buffers/reference_counted.cpp\<close>. \<open>Timers\<close>: \<open>asio-tutorial/1.Timer\<close>, with a
  race between two threads.

  The pinger (\<open>asio-examples/icmp\<close>). \<open>Icmp\<close>: \<open>icmp_header.hpp\<close>, with the checksum in 32-bit
  arithmetic; the bound of 64 KB on the body keeps the sum below 2 to the 32. \<open>Ping\<close>:
  \<open>ipv4_header.hpp\<close> and \<open>ping.cpp\<close>: which packets are replies, and the timing of requests. A step
  is a handler; time is a number that never decreases.

  The queues (\<open>cpp-concurrency-in-action/6.lock_based/threadsafe_queue.hpp\<close>,
  \<open>9.thread_pool/queue.hpp\<close>). \<open>Simple_Queue\<close> and \<open>Threadsafe_Queue\<close>: five classes, one operation
  at a time, as interpretations of the locale \<open>fifo\<close>; one of them is no queue. \<open>Queue_Threads\<close>: the
  last class under interleaving, an action per shared access; \<open>Queue_Invariant\<close> and \<open>Queue_Safety\<close>:
  its invariants, the refinement of a list, freedom from deadlock, and a lost wake-up. No bound on
  threads, calls or nodes.

  Other exercises with threads. \<open>Lookup_Table\<close>: \<open>6.lock_based/threadsafe_lookup_table.hpp\<close>, a hash
  table as an interpretation of a locale of dictionaries, for any number of buckets and any hash
  function. \<open>Hierarchical_Mutex\<close>: \<open>3.8.hierarchical_mutex\<close>, freedom from deadlock for any number of
  threads and mutexes, and how unlocking out of order defeats it. \<open>Lock_Free_Stack\<close>:
  \<open>7.lock_free/lock_free_stack.hpp\<close> with one access to an atomic variable per step and addresses that
  may be reused; \<open>Lock_Free_Invariant\<close> says where every node is and which nodes a thread may still
  follow, \<open>Lock_Free_Safety\<close> that every step keeps it: no use of deleted nodes, linearizability, no
  leak, and two faults. The counter has 32 bits, so the number of threads is below 2 to the 32.

  \<open>Hazard_Stack\<close>, \<open>Hazard_Invariant\<close>, \<open>Hazard_Safety\<close>: the same for
  \<open>7.lock_free/lock_free_stack_with_hp.hpp\<close>, whose threads announce in one of 100 hazard pointers
  the node they are about to follow; a scan for announcements is a step per slot.

  \<open>Counted_Stack\<close>, \<open>Counted_Safety\<close>: the same for \<open>7.lock_free/lock_free_stack_with_rc.hpp\<close>, which
  counts the threads that hold a node in the pointer to it and in the node; the counts have 32 bits,
  so the theorem is for fewer than 2 to the 32 steps, and another shows how the signed count overflows.

  The thread pool (\<open>9.thread_pool/thread_pool.hpp\<close>) and parallel algorithms. \<open>Thread_Pool\<close>: both
  pools, with the multiset of tasks in them; a worker tests the flag and takes a task in separate steps, so
  that the pool may be destroyed in between. \<open>Quick_Sort\<close>: \<open>4.x3.parallel_quick_sort\<close>, with
  \<open>std::partition\<close> as a parameter. \<open>Pool_Sort\<close>: the sorter that runs on the pool, each thread a stack
  of calls and tasks; it cannot deadlock, for a call waits only for newer futures, and a measure of
  the elements left bounds its steps. \<open>Parallel_Accumulate\<close>: \<open>2.8\<close>, \<open>8.4\<close>, \<open>8.5\<close>, \<open>8.7\<close> and
  \<open>parallel_accmulate_using_tp\<close>: division into blocks with lengths of 32 bits, threads in any order.

  \<open>Producer_Consumer\<close>: the stack and the queue under one mutex (\<open>3.5\<close>, \<open>4.5\<close>) and the two threads of
  \<open>4.1\<close> and \<open>4.5\<close>; no wake-up is lost, and their \<open>int\<close> counters may overflow if one thread starves.

  \<open>Thread_Basics\<close>: \<open>2.2.raii\<close> and \<open>2.6.scoped_thread\<close>, whose destructors join a thread before the
  variable it refers to is gone, and \<open>4.x2a.splice_partition\<close>.

  The teller machine (\<open>cpp-concurrency-in-action/4.x5.ATM\<close>). \<open>Atm\<close>: the message types, the three
  machines and the keyboard loop over \<open>Messaging\<close>, each message that is sent, and the debit that follows
  the answer of the bank, a step of its own; \<open>Atm_Safety\<close>: money is conserved under every
  interleaving, and two things go wrong after a cancellation.

  Design patterns. \<open>Gumball\<close>: the state pattern (\<open>10.state\<close>). \<open>Remote_Control\<close>: the command
  pattern with its devices (\<open>06.command\<close>, \<open>06.command_with_bind\<close>). \<open>Weather\<close>: the observer pattern
  (\<open>02.observer\<close>), with displays that may have been destroyed. \<open>Beverages\<close>: decorators and the template method
  (\<open>03.decorator\<close>, \<open>08.template_method\<close>). \<open>Ducks\<close>: strategies (\<open>01.strategy\<close>).

  Library demonstrations (\<open>using-the-c++-standard-template-libraries/all/main.cpp\<close>). \<open>Cards\<close>: the card
  game, with the random numbers as a parameter. \<open>Stl_Programs\<close>: \<open>bubble_sort\<close>, \<open>my_greater\<close>,
  \<open>Numeric_Range\<close> and \<open>word_count\<close>; loops that may not end have the result \<open>None\<close>. \<open>Std_Algorithms\<close>: the
  algorithms of the library that the demonstrations call (sorting, priority queues, permutations, sorted
  ranges), with what they guarantee; \<open>Stl_Demos\<close>: what the demonstrations print.

  Lemmas. Each theory with a step relation has a group of preservation lemmas, one per handler or
  action, that a reachability lemma collects; each locale has its consequences next to it, and the
  theory that provides the operations interprets it. The section \<open>Properties\<close> at the end of a theory
  has the theorems a reader should start with, each with its statement in words.

  Not modelled. The TLS of the SSL programs of \<open>asio-examples\<close>, which is the library's, and the earlier
  steps of the daytime tutorial, which are parts of the last. Of \<open>cpp-concurrency-in-action\<close>: the list
  under hand-over-hand locking, which does not compile; \<open>lock_free_queue.hpp\<close>, which its author marks
  as broken; programs that only call the parts on constants. Outside the plan: \<open>couchbase-test\<close>,
  \<open>lua-test\<close>, \<open>python_embed\<close> and \<open>test-framework\<close>, which call third-party libraries, the
  demonstrations of floating point, heaps, clocks and probability, and build files.
\<close>

end
